(* ===== verification/Kprelude.thy ===== *)
theory Kprelude
  imports Main "HOL-Library.Word"
begin

text \<open>
  Shared vocabulary of the development: the machine integers of the kernel, the two
  ways control can leave a kernel function without returning to its caller, the
  sequencing combinator for functions over an explicit state, and the generic facts
  on words and lists that the components share.

  C types (see \<^verbatim>\<open>include/types.h\<close>): \<^verbatim>\<open>uint8_t\<close>, \<^verbatim>\<open>uint16_t\<close>, \<^verbatim>\<open>uint32_t\<close>,
  \<^verbatim>\<open>uint64_t\<close> are words of that width; \<^verbatim>\<open>paddr_t\<close>, \<^verbatim>\<open>vaddr_t\<close>, \<^verbatim>\<open>pte_t\<close>, \<^verbatim>\<open>size_t\<close>
  and pointers are 64-bit words (RV64, LP64). Plain \<^verbatim>\<open>char\<close> is unsigned on RISC-V.
\<close>

unbundle bit_operations_syntax

type_synonym u8 = "8 word"
type_synonym u16 = "16 word"
type_synonym u32 = "32 word"
type_synonym u64 = "64 word"

named_theorems mem_simps \<open>reads over writes of physical memory\<close>
named_theorems frame_simps \<open>what an operation leaves unchanged\<close>

section \<open>Leaving a kernel function\<close>

text \<open>
  \<^verbatim>\<open>PANIC\<close> prints and spins for ever: nothing after it runs. The constructors name the
  \<^verbatim>\<open>PANIC\<close> sites of the modelled code. A data access of the kernel through an unmapped
  user address traps in S-mode and ends in the \<^verbatim>\<open>PANIC\<close> of \<^verbatim>\<open>trap_handler\<close>
  (\<open>Page_fault\<close>). \<open>Spin\<close> is a loop of the source that never ends; \<open>Undefined\<close> a write
  past the end of a local array, after which C promises nothing.
\<close>

datatype kpanic =
    Out_of_memory
  | Unaligned_va u64
  | Unaligned_pa u64
  | Walk_va_too_high
  | No_free_pcb
  | Ipc_bad_dest int
  | Unknown_syscall u64
  | Arg_stack_overflow
  | Invalid_elf_magic
  | Missing_symtab
  | Symbol_not_found
  | Unexpected_trap u64
  | Page_fault u64
  | Null_trap_frame
  | File_not_found string

datatype kstop = Panic kpanic | Spin | Undefined

text \<open>
  A kernel function over a state \<open>'s\<close>: the result and the next state, or the reason
  why control never returns.
\<close>

type_synonym ('a, 's) kres = "kstop + 'a \<times> 's"

definition kbind :: "('a, 's) kres \<Rightarrow> ('a \<Rightarrow> 's \<Rightarrow> ('b, 's) kres) \<Rightarrow> ('b, 's) kres" where
  "kbind m f = (case m of Inl e \<Rightarrow> Inl e | Inr (x, s) \<Rightarrow> f x s)"

abbreviation kret :: "'a \<Rightarrow> 's \<Rightarrow> ('a, 's) kres" where
  "kret x s \<equiv> Inr (x, s)"

abbreviation kpanic :: "kpanic \<Rightarrow> ('a, 's) kres" where
  "kpanic e \<equiv> Inl (Panic e)"

lemma kbind_simps [simp]:
  "kbind (Inl e) f = Inl e"
  "kbind (Inr (x, s)) f = f x s"
  by (simp_all add: kbind_def)

lemma kbind_eq_Inr:
  "kbind m f = Inr r \<longleftrightarrow> (\<exists>x s. m = Inr (x, s) \<and> f x s = Inr r)"
  by (auto simp: kbind_def split: sum.splits)

lemma kbind_eq_Inl:
  "kbind m f = Inl e \<longleftrightarrow> m = Inl e \<or> (\<exists>x s. m = Inr (x, s) \<and> f x s = Inl e)"
  by (auto simp: kbind_def split: sum.splits)

lemma kbind_InrE:
  assumes "kbind m f = Inr r"
  obtains x s where "m = Inr (x, s)" and "f x s = Inr r"
  using assms by (auto simp: kbind_eq_Inr)

lemma kbind_assoc: "kbind (kbind m f) g = kbind m (\<lambda>x s. kbind (f x s) g)"
  by (auto simp: kbind_def split: sum.splits)

text \<open>
  The page loops of the kernel: \<^verbatim>\<open>for (a = start; COND(a); a += PAGE_SIZE) BODY(a)\<close> with
  an unsigned 64-bit \<open>a\<close>. Every range the kernel walks ends far below the top of the
  address space; a loop that would step past it is cut off as \<open>Spin\<close>.
\<close>

function for_pages ::
  "(u64 \<Rightarrow> bool) \<Rightarrow> (u64 \<Rightarrow> 's \<Rightarrow> (unit, 's) kres) \<Rightarrow> u64 \<Rightarrow> 's \<Rightarrow> (unit, 's) kres" where
  "for_pages cond body a s =
     (if cond a then
        kbind (body a s) (\<lambda>_ s.
          if a < a + 4096 then for_pages cond body (a + 4096) s else Inl Spin)
      else kret () s)"
  by pat_completeness auto
termination
proof (relation "measure (\<lambda>(cond, body, a, s). 2 ^ 64 - unat a)", goal_cases)
  case 1
  show ?case by simp
next
  case (2 cond body a s x s')
  then show ?case
    using unsigned_less [of a, where ?'a = nat] by (simp add: word_less_nat_alt)
qed

declare for_pages.simps [simp del]

lemma for_pages_stop: "\<not> cond a \<Longrightarrow> for_pages cond body a s = kret () s"
  by (simp add: for_pages.simps)

text \<open>The rule for the page loops: an invariant that the body carries to the next page.\<close>

lemma for_pages_rule:
  assumes step: "\<And>a s t. cond a \<Longrightarrow> a < a + 4096 \<Longrightarrow> I a s \<Longrightarrow> body a s = Inr ((), t) \<Longrightarrow> I (a + 4096) t"
    and "for_pages cond body a s = Inr ((), s')" and "I a s"
  shows "\<exists>b. \<not> cond b \<and> I b s'"
  using assms(2,3)
proof (induction "2 ^ 64 - unat a" arbitrary: a s rule: less_induct)
  case less
  show ?case
  proof (cases "cond a")
    case False
    with less.prems show ?thesis by (auto simp: for_pages_stop)
  next
    case True
    with less.prems(1) obtain t where t: "body a s = Inr ((), t)" and lt: "a < a + 4096"
      and rest: "for_pages cond body (a + 4096) t = Inr ((), s')"
      by (subst (asm) for_pages.simps) (auto simp: kbind_eq_Inr split: if_splits)
    have "2 ^ 64 - unat (a + 4096) < 2 ^ 64 - unat a"
      using lt unsigned_less [of "a + 4096", where ?'a = nat]
      by (simp add: word_less_nat_alt)
    then show ?thesis
      using rest step [OF True lt less.prems(2) t] by (rule less.hyps)
  qed
qed

text \<open>The same rule for total correctness: the body always returns, and never wraps.\<close>

lemma for_pages_total:
  assumes step: "\<And>a s. cond a \<Longrightarrow> I a s \<Longrightarrow>
      a < a + 4096 \<and> (\<exists>t. body a s = Inr ((), t) \<and> I (a + 4096) t)"
    and "I a s"
  shows "\<exists>b s'. for_pages cond body a s = Inr ((), s') \<and> \<not> cond b \<and> I b s'"
  using assms(2)
proof (induction "2 ^ 64 - unat a" arbitrary: a s rule: less_induct)
  case less
  show ?case
  proof (cases "cond a")
    case False
    with less.prems show ?thesis by (auto simp: for_pages_stop)
  next
    case True
    then obtain t where t: "body a s = Inr ((), t)" "I (a + 4096) t" and lt: "a < a + 4096"
      using step less.prems by blast
    have "2 ^ 64 - unat (a + 4096) < 2 ^ 64 - unat a"
      using lt unsigned_less [of "a + 4096", where ?'a = nat]
      by (simp add: word_less_nat_alt)
    from less.hyps [OF this t(2)] show ?thesis
      using True t(1) lt by (subst for_pages.simps) simp
  qed
qed

text \<open>
  The counting loops: \<^verbatim>\<open>k\<close> rounds of \<^verbatim>\<open>for (i = ...; i < N; i++) BODY(i)\<close> from \<open>i\<close> on.
\<close>

primrec k_for :: "nat \<Rightarrow> nat \<Rightarrow> (nat \<Rightarrow> 's \<Rightarrow> (unit, 's) kres) \<Rightarrow> 's \<Rightarrow> (unit, 's) kres" where
  "k_for i 0 body s = kret () s"
| "k_for i (Suc k) body s = kbind (body i s) (\<lambda>_ s. k_for (Suc i) k body s)"

lemma k_for_rule:
  assumes step: "\<And>j s t. i \<le> j \<Longrightarrow> j < i + k \<Longrightarrow> I j s \<Longrightarrow> body j s = Inr ((), t) \<Longrightarrow> I (Suc j) t"
    and "k_for i k body s = Inr ((), s')" and "I i s"
  shows "I (i + k) s'"
  using assms
proof (induction k arbitrary: i s)
  case 0
  then show ?case by simp
next
  case (Suc k)
  then obtain t where t: "body i s = Inr ((), t)" and rest: "k_for (Suc i) k body t = Inr ((), s')"
    by (auto simp: kbind_eq_Inr)
  have "I (Suc i) t" using Suc.prems(1) [OF _ _ Suc.prems(3) t] by simp
  from Suc.IH [OF _ rest this] Suc.prems(1) show ?case by simp
qed

lemma k_for_total:
  assumes step: "\<And>j s. i \<le> j \<Longrightarrow> j < i + k \<Longrightarrow> I j s \<Longrightarrow>
      \<exists>t. body j s = Inr ((), t) \<and> I (Suc j) t"
    and "I i s"
  shows "\<exists>s'. k_for i k body s = Inr ((), s') \<and> I (i + k) s'"
  using assms
proof (induction k arbitrary: i s)
  case 0
  then show ?case by simp
next
  case (Suc k)
  then obtain t where t: "body i s = Inr ((), t)" "I (Suc i) t" by force
  have "\<exists>s'. k_for (Suc i) k body t = Inr ((), s') \<and> I (Suc i + k) s'"
    using Suc.prems(1) t(2) by (intro Suc.IH) simp_all
  then show ?case using t(1) by simp
qed

section \<open>C string literals\<close>

definition bytes_of :: "string \<Rightarrow> u8 list" where
  "bytes_of s = map of_char s"

lemma bytes_of_simps [simp]:
  "bytes_of [] = []"
  "bytes_of (c # s) = of_char c # bytes_of s"
  "length (bytes_of s) = length s"
  by (simp_all add: bytes_of_def)

lemma bytes_of_append: "bytes_of (s @ t) = bytes_of s @ bytes_of t"
  by (simp add: bytes_of_def)

section \<open>Words\<close>

lemma word_diff_split:
  fixes a x :: u64
  shows "x - (a + k) = (x - a) - k"
  by simp

lemma unat_of_nat_u64: "n < 2 ^ 64 \<Longrightarrow> unat (of_nat n :: u64) = n"
  by (simp add: unat_of_nat take_bit_nat_eq_self_iff)

lemma of_nat_inj_u64:
  "i < 2 ^ 64 \<Longrightarrow> j < 2 ^ 64 \<Longrightarrow> (of_nat i :: u64) = of_nat j \<longleftrightarrow> i = j"
  by (metis unat_of_nat_u64)

lemma of_nat_unat_u64: "of_nat (unat (a :: u64)) = a"
  by simp

lemma unat_add_u64:
  fixes a b :: u64
  shows "unat a + unat b < 2 ^ 64 \<Longrightarrow> unat (a + b) = unat a + unat b"
  by (simp add: unat_word_ariths)

lemma unat_sub_u64:
  fixes a b :: u64
  shows "b \<le> a \<Longrightarrow> unat (a - b) = unat a - unat b"
  by (simp add: unat_sub)

lemma unat_u64_bound: "unat (a :: u64) < 18446744073709551616"
  using unsigned_less [of a, where ?'a = nat] by simp

lemma unat_inj_u64: "unat (a :: u64) = unat b \<longleftrightarrow> a = b"
  by (simp add: word_unat_eq_iff)

lemma unat_diff_u64:
  fixes a b :: u64
  shows "unat (a - b) =
    (if unat b \<le> unat a then unat a - unat b else unat a + 18446744073709551616 - unat b)"
  by (simp add: unat_sub_if' word_size)

lemma wrap_below:
  fixes y n :: u64
  assumes "y < n" and "unat n \<le> 2 ^ 63"
  shows "n \<le> y - n"
  using assms unat_diff_u64 [of y n] by (simp add: word_le_nat_alt word_less_nat_alt)

lemma aligned_step:
  fixes a b :: nat
  assumes "a mod n = 0" and "b mod n = 0" and "a < b"
  shows "a + n \<le> b"
proof -
  obtain i j where ij: "a = n * i" "b = n * j"
    using assms(1,2) by (auto simp: mod_eq_0_iff_dvd elim!: dvdE)
  with assms(3) have "n * Suc i \<le> n * j" by (intro mult_le_mono2) simp
  with ij show ?thesis by simp
qed

section \<open>Array searches\<close>

text \<open>
  The index of the first element a C search loop stops at (\<^verbatim>\<open>for (i = 0; i < N; i++)
  if (P(a[i])) ... break;\<close>), if there is one.
\<close>

fun first_index :: "('a \<Rightarrow> bool) \<Rightarrow> 'a list \<Rightarrow> nat option" where
  "first_index P [] = None"
| "first_index P (x # xs) = (if P x then Some 0 else map_option Suc (first_index P xs))"

lemma first_index_None: "first_index P xs = None \<longleftrightarrow> (\<forall>x \<in> set xs. \<not> P x)"
  by (induction xs) auto

lemma first_index_Some:
  "first_index P xs = Some i \<longleftrightarrow> i < length xs \<and> P (xs ! i) \<and> (\<forall>j < i. \<not> P (xs ! j))"
proof (induction xs arbitrary: i)
  case Nil
  then show ?case by simp
next
  case (Cons x xs)
  then show ?case
    by (cases i) (auto simp: less_Suc_eq_0_disj)
qed

lemma first_index_SomeD:
  assumes "first_index P xs = Some i"
  shows "i < length xs" and "P (xs ! i)" and "\<And>j. j < i \<Longrightarrow> \<not> P (xs ! j)"
  using assms by (auto simp: first_index_Some)

lemma length_filter_update:
  assumes "i < length xs"
  shows "length (filter P (xs[i := x])) + (if P (xs ! i) then 1 else 0) =
    length (filter P xs) + (if P x then 1 else 0)"
  using assms
proof (induction xs arbitrary: i)
  case Nil
  then show ?case by simp
next
  case (Cons y ys)
  then show ?case using Cons.IH [of "i - 1"] by (cases i) auto
qed

end
