(* ===== verification/Phys_Mem.thy ===== *)
theory Phys_Mem
  imports Kprelude
begin

text \<open>
  Physical memory: a byte at every 64-bit address, with the little-endian loads and
  stores that the compiler emits for the C accesses, \<^verbatim>\<open>memset\<close> and \<^verbatim>\<open>memcpy\<close> of
  \<^verbatim>\<open>kernel/string.c\<close>, and what each access leaves unchanged, byte by byte and page by
  page. The kernel maps its own memory one to one (\<^verbatim>\<open>PA2KA\<close>, \<^verbatim>\<open>KA2PA\<close> are the
  identity), so a kernel pointer is a physical address.
\<close>

type_synonym mem = "u64 \<Rightarrow> u8"

section \<open>Loads and stores\<close>

definition load16 :: "mem \<Rightarrow> u64 \<Rightarrow> u16" where
  "load16 m a = ucast (m a) OR push_bit 8 (ucast (m (a + 1)))"

definition load32 :: "mem \<Rightarrow> u64 \<Rightarrow> u32" where
  "load32 m a = ucast (load16 m a) OR push_bit 16 (ucast (load16 m (a + 2)))"

definition load64 :: "mem \<Rightarrow> u64 \<Rightarrow> u64" where
  "load64 m a = ucast (load32 m a) OR push_bit 32 (ucast (load32 m (a + 4)))"

definition store16 :: "mem \<Rightarrow> u64 \<Rightarrow> u16 \<Rightarrow> mem" where
  "store16 m a v = m(a := ucast v, a + 1 := ucast (drop_bit 8 v))"

definition store32 :: "mem \<Rightarrow> u64 \<Rightarrow> u32 \<Rightarrow> mem" where
  "store32 m a v = store16 (store16 m a (ucast v)) (a + 2) (ucast (drop_bit 16 v))"

definition store64 :: "mem \<Rightarrow> u64 \<Rightarrow> u64 \<Rightarrow> mem" where
  "store64 m a v = store32 (store32 m a (ucast v)) (a + 4) (ucast (drop_bit 32 v))"

text \<open>A store changes only the bytes it covers.\<close>

lemma store16_other: "2 \<le> x - a \<Longrightarrow> store16 m a v x = m x"
  by (auto simp: store16_def word_le_nat_alt)

lemma store32_other: "4 \<le> x - a \<Longrightarrow> store32 m a v x = m x"
proof -
  assume "4 \<le> x - a"
  then have "2 \<le> x - a" and "2 \<le> x - (a + 2)"
    by (simp_all only: word_diff_split) unat_arith+
  then show ?thesis by (simp add: store32_def store16_other)
qed

lemma store64_other: "8 \<le> x - a \<Longrightarrow> store64 m a v x = m x"
proof -
  assume "8 \<le> x - a"
  then have "4 \<le> x - a" and "4 \<le> x - (a + 4)"
    by (simp_all only: word_diff_split) unat_arith+
  then show ?thesis by (simp add: store64_def store32_other)
qed

text \<open>A load depends only on the bytes it covers.\<close>

lemma load16_cong:
  "(\<And>x. x - a < 2 \<Longrightarrow> m x = m' x) \<Longrightarrow> load16 m a = load16 m' a"
  by (simp add: load16_def)

lemma load32_cong:
  assumes "\<And>x. x - a < 4 \<Longrightarrow> m x = m' x"
  shows "load32 m a = load32 m' a"
proof -
  have "x - a < 4" if "x - a < 2" for x using that by unat_arith
  moreover have "x - a < 4" if "x - (a + 2) < 2" for x
    using that by (simp only: word_diff_split) unat_arith
  ultimately show ?thesis
    using assms by (simp add: load32_def load16_cong [of _ m m'])
qed

lemma load64_cong:
  assumes "\<And>x. x - a < 8 \<Longrightarrow> m x = m' x"
  shows "load64 m a = load64 m' a"
proof -
  have "x - a < 8" if "x - a < 4" for x using that by unat_arith
  moreover have "x - a < 8" if "x - (a + 4) < 4" for x
    using that by (simp only: word_diff_split) unat_arith
  ultimately show ?thesis
    using assms by (simp add: load64_def load32_cong [of _ m m'])
qed

text \<open>A load reads back what the last store at its address wrote.\<close>

lemma load16_store16 [simp]: "load16 (store16 m a v) a = v"
  by (rule bit_word_eqI) (auto simp: load16_def store16_def bit_simps)

lemma load32_store32 [simp]: "load32 (store32 m a v) a = v"
proof -
  have "load16 (store32 m a v) a = ucast v"
  proof -
    have "load16 (store32 m a v) a = load16 (store16 m a (ucast v)) a"
      unfolding store32_def
    proof (rule load16_cong)
      fix x assume "x - a < 2"
      then have "2 \<le> x - (a + 2)" using wrap_below [of "x - a" 2] by (simp add: word_diff_split)
      then show "store16 (store16 m a (ucast v)) (a + 2) (ucast (drop_bit 16 v)) x =
        store16 m a (ucast v) x" by (rule store16_other)
    qed
    then show ?thesis by simp
  qed
  moreover have "load16 (store32 m a v) (a + 2) = ucast (drop_bit 16 v)"
    by (simp add: store32_def)
  ultimately have "load32 (store32 m a v) a =
      ucast (ucast v :: u16) OR push_bit 16 (ucast (ucast (drop_bit 16 v) :: u16))"
    by (simp add: load32_def)
  also have "\<dots> = v" by (rule bit_word_eqI) (auto simp: bit_simps)
  finally show ?thesis .
qed

lemma load64_store64 [simp]: "load64 (store64 m a v) a = v"
proof -
  have "load32 (store64 m a v) a = ucast v"
  proof -
    have "load32 (store64 m a v) a = load32 (store32 m a (ucast v)) a"
      unfolding store64_def
    proof (rule load32_cong)
      fix x assume "x - a < 4"
      then have "4 \<le> x - (a + 4)" using wrap_below [of "x - a" 4] by (simp add: word_diff_split)
      then show "store32 (store32 m a (ucast v)) (a + 4) (ucast (drop_bit 32 v)) x =
        store32 m a (ucast v) x" by (rule store32_other)
    qed
    then show ?thesis by simp
  qed
  moreover have "load32 (store64 m a v) (a + 4) = ucast (drop_bit 32 v)"
    by (simp add: store64_def)
  ultimately have "load64 (store64 m a v) a =
      ucast (ucast v :: u32) OR push_bit 32 (ucast (ucast (drop_bit 32 v) :: u32))"
    by (simp add: load64_def)
  also have "\<dots> = v" by (rule bit_word_eqI) (auto simp: bit_simps)
  finally show ?thesis .
qed

lemma load64_store64_disjoint:
  assumes "8 \<le> b - a" and "8 \<le> a - b"
  shows "load64 (store64 m a v) b = load64 m b"
proof (rule load64_cong)
  fix x assume near: "x - b < 8"
  have gap: "unat (a - b) + unat (b - a) = 2 ^ 64"
    using assms(1) unat_diff_u64 [of a b] unat_diff_u64 [of b a] unat_u64_bound [of a]
      unat_u64_bound [of b] by (simp add: word_le_nat_alt split: if_splits)
  have "unat (x - a) = (unat (x - b) + unat (b - a)) mod 2 ^ 64"
    using unat_word_ariths(1) [of "x - b" "b - a"] by simp
  with near gap assms have "8 \<le> x - a"
    by (simp add: word_le_nat_alt word_less_nat_alt)
  then show "store64 m a v x = m x" by (rule store64_other)
qed

section \<open>Filling and copying\<close>

text \<open>
  \<^verbatim>\<open>memset\<close> and \<^verbatim>\<open>memcpy\<close> of \<^verbatim>\<open>kernel/string.c\<close> (and of \<^verbatim>\<open>user/lib/string.c\<close>, the
  same code): byte loops for the index from 0 to \<open>n - 1\<close>. The bytes are copied one at a
  time in ascending order, each read after the earlier writes, so an overlap has the
  effect it has in C.
\<close>

definition memset :: "mem \<Rightarrow> u64 \<Rightarrow> u32 \<Rightarrow> u64 \<Rightarrow> mem" where
  "memset m dest val n =
     fold (\<lambda>i m. m(dest + of_nat i := ucast val)) [0..<unat n] m"

definition memcpy :: "mem \<Rightarrow> u64 \<Rightarrow> u64 \<Rightarrow> u64 \<Rightarrow> mem" where
  "memcpy m dest src n =
     fold (\<lambda>i m. m(dest + of_nat i := m (src + of_nat i))) [0..<unat n] m"

lemma add_of_nat_eq_iff:
  fixes d x :: u64
  assumes "n < 2 ^ 64"
  shows "x = d + of_nat n \<longleftrightarrow> unat (x - d) = n"
proof
  assume "x = d + of_nat n"
  then show "unat (x - d) = n" using assms unat_of_nat_u64 [of n] by simp
next
  assume "unat (x - d) = n"
  then have "of_nat n = x - d" by auto
  then show "x = d + of_nat n" by simp
qed

lemma fill_apply:
  assumes "n \<le> 2 ^ 64"
  shows "fold (\<lambda>i m. m(d + of_nat i := f i)) [0..<n] m x =
    (if unat (x - d) < n then f (unat (x - d)) else (m :: mem) x)"
  using assms by (induction n) (auto simp: add_of_nat_eq_iff less_Suc_eq)

lemma memset_apply:
  "memset m dest val n x = (if x - dest < n then ucast val else m x)"
  using unat_u64_bound [of n]
  by (simp add: memset_def fill_apply [where f = "\<lambda>_. ucast val"] word_less_nat_alt)

lemma memcpy_apply:
  assumes "dest = src \<or> n \<le> dest - src"
  shows "memcpy m dest src n x = (if x - dest < n then m (src + (x - dest)) else m x)"
proof -
  have "k \<le> unat n \<Longrightarrow>
      fold (\<lambda>i m. m(dest + of_nat i := m (src + of_nat i))) [0..<k] m =
      fold (\<lambda>i m'. m'(dest + of_nat i := m (src + of_nat i))) [0..<k] m" for k
  proof (induction k)
    case 0
    then show ?case by simp
  next
    case (Suc k)
    let ?m = "fold (\<lambda>i m'. m'(dest + of_nat i := m (src + of_nat i))) [0..<k] m"
    have k: "k < 2 ^ 64" using Suc.prems unat_u64_bound [of n] by simp
    have "?m (src + of_nat k) = m (src + of_nat k)"
    proof (cases "dest = src")
      case True
      then show ?thesis using k unat_of_nat_u64 [of k]
        by (simp add: fill_apply [where f = "\<lambda>i. m (src + of_nat i)"])
    next
      case False
      have "\<not> unat (src + of_nat k - dest) < k"
      proof
        assume *: "unat (src + of_nat k - dest) < k"
        have "dest - src = of_nat k - (src + of_nat k - dest)" by simp
        also have "unat \<dots> = k - unat (src + of_nat k - dest)"
          using * k unat_of_nat_u64 [of k] unat_diff_u64 [of "of_nat k" "src + of_nat k - dest"]
          by simp
        finally have "unat (dest - src) \<le> k" by simp
        with False assms Suc.prems show False by (simp add: word_le_nat_alt)
      qed
      then show ?thesis using k
        by (simp add: fill_apply [where f = "\<lambda>i. m (src + of_nat i)"])
    qed
    with Suc show ?case by (simp del: fun_upd_apply)
  qed
  from this [of "unat n"] show ?thesis
    using unat_u64_bound [of n]
    by (simp add: memcpy_def fill_apply [where f = "\<lambda>i. m (src + of_nat i)"] word_less_nat_alt)
qed

text \<open>The bytes of a region, and the evaluation of the two loops in one step.\<close>

definition load_bytes :: "mem \<Rightarrow> u64 \<Rightarrow> nat \<Rightarrow> u8 list" where
  "load_bytes m a n = map (\<lambda>i. m (a + of_nat i)) [0..<n]"

lemma length_load_bytes [simp]: "length (load_bytes m a n) = n"
  by (simp add: load_bytes_def)

lemma nth_load_bytes [simp]: "i < n \<Longrightarrow> load_bytes m a n ! i = m (a + of_nat i)"
  by (simp add: load_bytes_def)

lemma load_bytes_cong:
  "(\<And>i. i < n \<Longrightarrow> m (a + of_nat i) = m' (b + of_nat i)) \<Longrightarrow>
    load_bytes m a n = load_bytes m' b n"
  by (simp add: load_bytes_def)

lemma load_bytes_memcpy:
  assumes "dest = src \<or> n \<le> dest - src"
  shows "load_bytes (memcpy m dest src n) dest (unat n) = load_bytes m src (unat n)"
proof (rule load_bytes_cong)
  fix i assume "i < unat n"
  then have "of_nat i < n" and "unat (of_nat i :: u64) = i"
    using unat_of_nat_u64 [of i] unat_u64_bound [of n] by (simp_all add: word_less_nat_alt)
  then show "memcpy m dest src n (dest + of_nat i) = m (src + of_nat i)"
    by (simp add: memcpy_apply [OF assms])
qed

section \<open>Pages\<close>

definition page_base :: "u64 \<Rightarrow> u64" where
  "page_base a = a - a mod 4096"

definition page_aligned :: "u64 \<Rightarrow> bool" where
  "page_aligned a \<longleftrightarrow> a mod 4096 = 0"

definition aligned8 :: "u64 \<Rightarrow> bool" where
  "aligned8 a \<longleftrightarrow> a mod 8 = 0"

lemma unat_mod_4096: "unat ((a :: u64) mod 4096) = unat a mod 4096"
  by (simp add: unat_mod)

lemma unat_page_base: "unat (page_base a) = unat a - unat a mod 4096"
  by (simp add: page_base_def unat_sub word_le_nat_alt unat_mod)

lemma page_aligned_unat: "page_aligned a \<longleftrightarrow> unat a mod 4096 = 0"
  by (simp add: page_aligned_def word_unat_eq_iff unat_mod)

lemma aligned8_unat: "aligned8 a \<longleftrightarrow> unat a mod 8 = 0"
  by (simp add: aligned8_def word_unat_eq_iff unat_mod)

lemma page_base_aligned [simp]: "page_aligned p \<Longrightarrow> page_base p = p"
  by (simp add: page_base_def page_aligned_def)

lemma page_aligned_page_base [simp]: "page_aligned (page_base a)"
  by (simp add: page_aligned_unat unat_page_base)

lemma page_aligned_aligned8: "page_aligned p \<Longrightarrow> aligned8 p"
  using dvd_trans [of "8 :: nat" 4096] by (auto simp: page_aligned_unat aligned8_unat mod_eq_0_iff_dvd)

lemma page_base_eq_iff: "page_base a = page_base b \<longleftrightarrow> unat a div 4096 = unat b div 4096"
proof -
  have "page_base a = page_base b \<longleftrightarrow> unat a - unat a mod 4096 = unat b - unat b mod 4096"
    by (simp add: word_unat_eq_iff unat_page_base)
  also have "\<dots> \<longleftrightarrow> unat a div 4096 = unat b div 4096"
    by (simp add: minus_mod_eq_mult_div)
  finally show ?thesis .
qed

lemma block_iff:
  fixes X P :: nat
  assumes "P mod 4096 = 0" and "P < 18446744073709551616" and "X < 18446744073709551616"
  shows "X div 4096 = P div 4096 \<longleftrightarrow>
    (if P \<le> X then X - P else X + 18446744073709551616 - P) < 4096"
proof -
  obtain q where q: "P = 4096 * q" using assms(1) by (auto simp: mod_eq_0_iff_dvd elim: dvdE)
  with assms(2) have "q \<le> 4503599627370495" by simp
  moreover have "X div 4096 = q \<longleftrightarrow> 4096 * q \<le> X \<and> X < 4096 * q + 4096"
    using times_div_less_eq_dividend [of 4096 X] dividend_less_times_div [of 4096 X]
      div_nat_eqI [of 4096 q X] by auto
  ultimately show ?thesis using q assms(3) by simp linarith
qed

lemma in_page_iff:
  assumes "page_aligned p"
  shows "page_base x = p \<longleftrightarrow> x - p < 4096"
proof -
  have "page_base x = page_base p \<longleftrightarrow> x - p < 4096"
    using assms block_iff [of "unat p" "unat x"] unat_u64_bound [of x] unat_u64_bound [of p]
    unfolding page_base_eq_iff page_aligned_unat word_less_nat_alt unat_diff_u64
    by (simp add: page_aligned_unat)
  with assms show ?thesis by simp
qed

lemma page_base_near:
  assumes "aligned8 a" and "x - a < 8"
  shows "page_base x = page_base a"
proof -
  have "unat x = unat a + unat (x - a)"
    using assms unat_diff_u64 [of x a] unat_u64_bound [of x] unat_u64_bound [of a]
    unfolding aligned8_unat word_less_nat_alt by (auto split: if_splits) 
  with assms show ?thesis
    unfolding page_base_eq_iff aligned8_unat word_less_nat_alt by auto
qed

text \<open>Two aligned accesses at different addresses do not overlap.\<close>

lemma aligned8_disjoint:
  assumes "aligned8 a" and "aligned8 b" and "a \<noteq> b"
  shows "8 \<le> b - a"
proof -
  have ne: "unat a \<noteq> unat b" using assms(3) by (simp add: unat_inj_u64)
  obtain i j where ij: "unat a = 8 * i" "unat b = 8 * j"
    using assms(1,2) by (auto simp: aligned8_unat mod_eq_0_iff_dvd elim!: dvdE)
  with ne have "i \<noteq> j" by simp
  moreover have "8 * i < 18446744073709551616" using ij unat_u64_bound [of a] by simp
  ultimately show ?thesis
    using ij by (simp add: word_le_nat_alt unat_diff_u64) linarith
qed

lemma load64_store64_aligned [mem_simps]:
  assumes "aligned8 a" and "aligned8 b"
  shows "load64 (store64 m a v) b = (if a = b then v else load64 m b)"
  using aligned8_disjoint [OF assms] aligned8_disjoint [OF assms(2,1)]
  by (auto intro: load64_store64_disjoint)

lemma aligned8_add: "aligned8 a \<Longrightarrow> aligned8 b \<Longrightarrow> aligned8 (a + b)"
proof -
  assume "aligned8 a" and "aligned8 b"
  then have z: "unat a mod 8 = 0" "unat b mod 8 = 0" by (simp_all only: aligned8_unat)
  have "(8 :: nat) dvd 2 ^ LENGTH(64)" using le_imp_power_dvd [of 3 "LENGTH(64)" "2 :: nat"] by simp
  then have "unat (a + b) mod 8 = (unat a + unat b) mod 8"
    unfolding unat_word_ariths(1) by (rule mod_mod_cancel)
  also have "\<dots> = (unat a mod 8 + unat b mod 8) mod 8" by (rule mod_add_eq [symmetric])
  finally show ?thesis using z by (simp only: aligned8_unat)
qed

lemma aligned8_diff:
  assumes "aligned8 a" and "aligned8 b"
  shows "aligned8 (a - b)"
proof -
  have d: "8 dvd unat a" "8 dvd unat b" using assms by (simp_all add: aligned8_unat mod_eq_0_iff_dvd)
  moreover have "8 dvd (18446744073709551616 :: nat)" by simp
  ultimately have "8 dvd unat (a - b)" unfolding unat_diff_u64 by (auto intro: dvd_diff_nat dvd_add)
  then show ?thesis by (simp add: aligned8_unat)
qed

text \<open>
  \<open>same_outside P m m'\<close>: the memories differ at most in the pages whose base is in \<open>P\<close>.
\<close>

definition same_outside :: "u64 set \<Rightarrow> mem \<Rightarrow> mem \<Rightarrow> bool" where
  "same_outside P m m' \<longleftrightarrow> (\<forall>a. page_base a \<notin> P \<longrightarrow> m' a = m a)"

lemma same_outside_refl [simp]: "same_outside P m m"
  by (simp add: same_outside_def)

lemma same_outside_trans:
  "same_outside P m m' \<Longrightarrow> same_outside Q m' m'' \<Longrightarrow> same_outside (P \<union> Q) m m''"
  by (simp add: same_outside_def)

lemma same_outside_mono: "same_outside P m m' \<Longrightarrow> P \<subseteq> Q \<Longrightarrow> same_outside Q m m'"
  by (auto simp: same_outside_def)

lemma same_outside_byte: "same_outside P m m' \<Longrightarrow> page_base a \<notin> P \<Longrightarrow> m' a = m a"
  by (simp add: same_outside_def)

lemma same_outside_load64:
  assumes "same_outside P m m'" and "aligned8 a" and "page_base a \<notin> P"
  shows "load64 m' a = load64 m a"
proof (rule load64_cong)
  fix x assume "x - a < 8"
  with assms(2) have "page_base x = page_base a" by (rule page_base_near)
  with assms show "m' x = m x" by (simp add: same_outside_byte)
qed

lemma same_outside_store64:
  assumes "aligned8 a"
  shows "same_outside {page_base a} m (store64 m a v)"
  unfolding same_outside_def
proof (intro allI impI)
  fix x assume "page_base x \<notin> {page_base a}"
  then have "\<not> x - a < 8" using page_base_near [OF assms, of x] by blast
  then show "store64 m a v x = m x" by (simp add: store64_other not_less)
qed

lemma same_outside_memset:
  "page_aligned p \<Longrightarrow> same_outside {p} m (memset m p v 4096)"
  by (simp add: same_outside_def memset_apply in_page_iff)

lemma load64_zero:
  "(\<And>x. x - a < 8 \<Longrightarrow> m x = 0) \<Longrightarrow> load64 m a = 0"
  using load64_cong [of a m "\<lambda>_. 0"] by (simp add: load64_def load32_def load16_def)

lemma load64_memset_page [mem_simps]:
  assumes "page_aligned p" and "aligned8 a"
  shows "load64 (memset m p 0 4096) a = (if page_base a = p then 0 else load64 m a)"
proof (cases "page_base a = p")
  case True
  have "memset m p 0 4096 x = 0" if "x - a < 8" for x
    using page_base_near [OF assms(2) that] True assms(1)
    by (simp add: memset_apply in_page_iff)
  with True show ?thesis by (simp add: load64_zero)
next
  case False
  then show ?thesis
    using same_outside_load64 [OF same_outside_memset [OF assms(1)] assms(2)] by simp
qed

end
