(* ===== verification/Kernel_State.thy ===== *)
theory Kernel_State
  imports Phys_Mem
begin

text \<open>
  The globals of the kernel as one record \<open>kstate\<close>, the process control block and the
  allocation-tracker entry as records with the fields of the C structs, and the linker
  symbols of \<^verbatim>\<open>kernel.ld\<close> as a record of their own. A C global \<^verbatim>\<open>x\<close> is the field \<open>x\<close>.

  A pointer into \<^verbatim>\<open>procs[]\<close> is the index of the element, \<open>None\<close> for \<^verbatim>\<open>NULL\<close>; every
  other pointer is an address. The raw trap-frame stack of a PCB (\<^verbatim>\<open>tf_stack\<close>) is kept
  in \<open>mem\<close>, at the address the C array has, because trap frames are reached through
  pointers that may also point to a page of their own.

  The globals are apart from \<open>mem\<close>: a store through a user-supplied address, which the kernel
  does not check, changes \<open>mem\<close> at that address even where the machine has a PCB or another global
  there. The bytes of \<open>mem\<close> in the area of the kernel's own code and data are so only those that
  no record holds, and theorems about runs are about runs without stores into that area
  (\<open>kernel_own\<close> in \<^verbatim>\<open>Kernel_Runs\<close>); that such stores exist is \<open>recv_overwrites_kernel\<close>.
\<close>

section \<open>Linker symbols\<close>

record linker_syms =
  kernel_base :: u64
  free_ram :: u64
  free_ram_end :: u64
  heap_start :: u64
  heap_stop :: u64
  tar_start :: u64
  tar_end :: u64
  procs_base :: u64
  sym_user_entry :: u64
  sym_user_return :: u64

text \<open>
  What every link of the kernel with \<^verbatim>\<open>kernel.ld\<close> gives: the regions follow each
  other from \<open>0x80200000\<close> on, the process table lies below the page pool, the page pool and the heap start on page boundaries, and
  nothing reaches the end of the 39-bit address space of Sv39. \<open>kernel_map\<close> is the
  layout recorded in \<^verbatim>\<open>bin/kernel.map\<close>.
\<close>

definition layout_ok :: "linker_syms \<Rightarrow> bool" where
  "layout_ok L \<longleftrightarrow>
     page_aligned (kernel_base L) \<and> page_aligned (free_ram L) \<and>
     page_aligned (free_ram_end L) \<and> page_aligned (heap_start L) \<and>
     page_aligned (heap_stop L) \<and>
     0 < kernel_base L \<and> kernel_base L < free_ram L \<and> free_ram L \<le> free_ram_end L \<and>
     free_ram_end L \<le> heap_start L \<and> heap_start L \<le> heap_stop L \<and>
     heap_stop L \<le> 0x4000000000 \<and>
     aligned8 (procs_base L) \<and> kernel_base L \<le> procs_base L \<and>
     unat (procs_base L) + 8 * 8640 \<le> unat (free_ram L)"

definition kernel_map :: linker_syms where
  "kernel_map =
     \<lparr>kernel_base = 0x80200000, free_ram = 0x804cb000, free_ram_end = 0x844cb000,
      heap_start = 0x844cb000, heap_stop = 0x864cb000,
      tar_start = 0x802088d8, tar_end = 0x8044a0d8, procs_base = 0x8044a168,
      sym_user_entry = 0x80203412, sym_user_return = 0x8020342a\<rparr>"

lemma layout_ok_kernel_map: "layout_ok kernel_map"
  by (simp add: layout_ok_def kernel_map_def page_aligned_def aligned8_def)

section \<open>Structs\<close>

text \<open>\<^verbatim>\<open>include/alloc-tracker.h\<close>: the tag is a string literal or \<^verbatim>\<open>NULL\<close>.\<close>

record alloc_track_t =
  at_used :: bool
  at_pa :: u64
  at_npages :: u64
  at_owner :: int
  at_tag :: "string option"

text \<open>\<^verbatim>\<open>include/process.h\<close>.\<close>

datatype proc_state_t =
  PROC_UNUSED | PROC_RUNNABLE | PROC_RUNNING | PROC_WAITING | PROC_ZOMBIE

record ipc_message_t =
  im_data :: "u8 list"
  im_size :: u64
  im_sender :: int
  im_pending :: bool

record proc_t =
  p_pid :: int
  p_state :: proc_state_t
  p_parent_pid :: int
  p_exited :: int
  p_exit_code :: int
  p_parent :: "nat option"
  p_entry_point :: u64
  p_user_stack_top :: u64
  p_heap_end :: u64
  p_sp :: u64
  p_page_table :: u64
  p_tf :: u64
  p_image_pa :: u64
  p_image_npages :: u64
  p_inbox :: ipc_message_t
  p_name :: "u8 list"
  p_argc :: int
  p_argv_ptr :: u64

section \<open>The globals\<close>

text \<open>
  \<open>uart_out\<close> is what has been written to the console, \<open>uart_in\<close> what the next calls of
  \<^verbatim>\<open>uart_getc\<close> return (\<open>-1\<close> for no character yet), \<open>csr_time\<close> the value the next
  \<^verbatim>\<open>rdtime\<close> returns, \<open>stimer\<close> the time the SBI timer is set to.
\<close>

record kstate =
  mem :: mem
  free_list :: u64
  next_paddr :: u64
  g_free_pages :: u64
  alloc_table :: "alloc_track_t list"
  alloc_table_count :: u64
  procs :: "proc_t list"
  current_proc :: "nat option"
  idle_proc :: "nat option"
  process_count :: int
  kernel_pagetable :: u64
  g_total_pages :: u64
  g_startup :: bool
  g_user_stack_top :: u64
  g_user_stack_bottom :: u64
  g_user_heap_start :: u64
  g_user_heap_end :: u64
  csr_satp :: u64
  csr_sscratch :: u64
  csr_sstatus :: u64
  csr_sepc :: u64
  csr_sie :: u64
  csr_time :: u64
  stimer :: u64
  uart_out :: "u8 list"
  uart_in :: "int list"

text \<open>\<^verbatim>\<open>current_proc ? current_proc->pid : 0\<close>, the owner the page allocator records.\<close>

definition current_pid :: "kstate \<Rightarrow> int" where
  "current_pid s = (case current_proc s of None \<Rightarrow> 0 | Some i \<Rightarrow> p_pid (procs s ! i))"

definition upd_proc :: "nat \<Rightarrow> (proc_t \<Rightarrow> proc_t) \<Rightarrow> kstate \<Rightarrow> kstate" where
  "upd_proc i f s = s\<lparr>procs := (procs s)[i := f (procs s ! i)]\<rparr>"


text \<open>
  The globals that neither the page allocator nor the page tables write: everything but
  memory, the page pool and the tracker. An operation that keeps this view keeps each of
  the fields.
\<close>

definition proc_view where
  "proc_view s = (procs s, current_proc s, idle_proc s, process_count s,
     (kernel_pagetable s, g_total_pages s, g_startup s, g_user_stack_top s,
      g_user_stack_bottom s, g_user_heap_start s, g_user_heap_end s),
     (csr_satp s, csr_sscratch s, csr_sstatus s, csr_sepc s, csr_sie s, csr_time s,
      stimer s, uart_out s, uart_in s))"

lemma proc_viewD:
  assumes "proc_view s' = proc_view s"
  shows "procs s' = procs s" and "current_proc s' = current_proc s"
    and "idle_proc s' = idle_proc s" and "process_count s' = process_count s"
    and "kernel_pagetable s' = kernel_pagetable s" and "g_total_pages s' = g_total_pages s"
    and "g_startup s' = g_startup s" and "g_user_stack_top s' = g_user_stack_top s"
    and "g_user_stack_bottom s' = g_user_stack_bottom s"
    and "g_user_heap_start s' = g_user_heap_start s"
    and "g_user_heap_end s' = g_user_heap_end s"
    and "csr_satp s' = csr_satp s" and "csr_sscratch s' = csr_sscratch s"
    and "csr_sstatus s' = csr_sstatus s" and "csr_sepc s' = csr_sepc s"
    and "csr_sie s' = csr_sie s" and "csr_time s' = csr_time s"
    and "uart_out s' = uart_out s" and "uart_in s' = uart_in s"
    and "current_pid s' = current_pid s" and "stimer s' = stimer s"
  using assms by (simp_all add: proc_view_def current_pid_def split: option.split)

lemma proc_view_update [simp]:
  "proc_view (s\<lparr>mem := a\<rparr>) = proc_view s"
  "proc_view (s\<lparr>free_list := b\<rparr>) = proc_view s"
  "proc_view (s\<lparr>next_paddr := c\<rparr>) = proc_view s"
  "proc_view (s\<lparr>g_free_pages := d\<rparr>) = proc_view s"
  "proc_view (s\<lparr>alloc_table := e\<rparr>) = proc_view s"
  "proc_view (s\<lparr>alloc_table_count := f\<rparr>) = proc_view s"
  by (simp_all add: proc_view_def)

text \<open>The page pool as the allocator sees it: its four globals.\<close>

definition pool_view where
  "pool_view s = (mem s, free_list s, next_paddr s, g_free_pages s)"

lemma pool_viewD:
  assumes "pool_view s' = pool_view s"
  shows "mem s' = mem s" and "free_list s' = free_list s"
    and "next_paddr s' = next_paddr s" and "g_free_pages s' = g_free_pages s"
  using assms by (simp_all add: pool_view_def)

section \<open>The state at boot\<close>

text \<open>
  What \<^verbatim>\<open>kernel_main\<close> starts from once \<^verbatim>\<open>bss_init\<close> has cleared the BSS: every global
  is zero but \<^verbatim>\<open>next_paddr\<close> and \<^verbatim>\<open>g_startup\<close>, which have initialisers.
\<close>

definition no_message :: ipc_message_t where
  "no_message = \<lparr>im_data = replicate 256 0, im_size = 0, im_sender = 0, im_pending = False\<rparr>"

definition zero_proc :: proc_t where
  "zero_proc =
     \<lparr>p_pid = 0, p_state = PROC_UNUSED, p_parent_pid = 0, p_exited = 0, p_exit_code = 0,
      p_parent = None, p_entry_point = 0, p_user_stack_top = 0, p_heap_end = 0, p_sp = 0,
      p_page_table = 0, p_tf = 0, p_image_pa = 0, p_image_npages = 0, p_inbox = no_message,
      p_name = replicate 64 0, p_argc = 0, p_argv_ptr = 0\<rparr>"

definition free_entry :: alloc_track_t where
  "free_entry = \<lparr>at_used = False, at_pa = 0, at_npages = 0, at_owner = 0, at_tag = None\<rparr>"

definition MAX_TRACKED_ALLOCS :: nat where
  "MAX_TRACKED_ALLOCS = 4096 * 2"

definition PROCS_MAX :: nat where
  "PROCS_MAX = 8"

definition boot_state :: "linker_syms \<Rightarrow> kstate" where
  "boot_state L =
     \<lparr>mem = (\<lambda>_. 0), free_list = 0, next_paddr = free_ram L, g_free_pages = 0,
      alloc_table = replicate MAX_TRACKED_ALLOCS free_entry, alloc_table_count = 0,
      procs = replicate PROCS_MAX zero_proc, current_proc = None, idle_proc = None,
      process_count = 0, kernel_pagetable = 0, g_total_pages = 0, g_startup = True,
      g_user_stack_top = 0, g_user_stack_bottom = 0, g_user_heap_start = 0,
      g_user_heap_end = 0, csr_satp = 0, csr_sscratch = 0, csr_sstatus = 0, csr_sepc = 0,
      csr_sie = 0, csr_time = 0, stimer = 0, uart_out = [], uart_in = []\<rparr>"

end
