(* ===== verification/Alloc_Tracker.thy ===== *)
theory Alloc_Tracker
  imports Kernel_State
begin

text \<open>
  \<^verbatim>\<open>kernel/alloc-tracker.c\<close>: the table of outstanding page allocations. Each entry is
  in use or free; \<^verbatim>\<open>track_alloc\<close> fills the first free entry, \<^verbatim>\<open>track_free\<close> clears the
  first entry in use with the same start and size. The length of the table is
  \<^verbatim>\<open>MAX_TRACKED_ALLOCS\<close>; the loops run over the whole list, so the lemmas hold for any
  length.
\<close>

section \<open>Recording and clearing allocations\<close>

definition track_alloc :: "u64 \<Rightarrow> u64 \<Rightarrow> int \<Rightarrow> string option \<Rightarrow> kstate \<Rightarrow> kstate" where
  "track_alloc pa npages owner tag s =
     (case first_index (\<lambda>e. \<not> at_used e) (alloc_table s) of
        None \<Rightarrow> s
      | Some i \<Rightarrow>
          s\<lparr>alloc_table := (alloc_table s)[i :=
               \<lparr>at_used = True, at_pa = pa, at_npages = npages, at_owner = owner,
                at_tag = tag\<rparr>],
            alloc_table_count := alloc_table_count s + 1\<rparr>)"

definition track_free :: "u64 \<Rightarrow> u64 \<Rightarrow> kstate \<Rightarrow> kstate" where
  "track_free pa npages s =
     (case first_index (\<lambda>e. at_used e \<and> at_pa e = pa \<and> at_npages e = npages)
             (alloc_table s) of
        None \<Rightarrow> s
      | Some i \<Rightarrow>
          s\<lparr>alloc_table := (alloc_table s)[i := (alloc_table s ! i)\<lparr>at_used := False\<rparr>],
            alloc_table_count := alloc_table_count s - 1\<rparr>)"

section \<open>What the two operations leave alone\<close>

lemma track_frame [simp]:
  "proc_view (track_alloc pa n w t s) = proc_view s"
  "pool_view (track_alloc pa n w t s) = pool_view s"
  "length (alloc_table (track_alloc pa n w t s)) = length (alloc_table s)"
  "proc_view (track_free pa n s) = proc_view s"
  "pool_view (track_free pa n s) = pool_view s"
  "length (alloc_table (track_free pa n s)) = length (alloc_table s)"
  by (simp_all add: track_alloc_def track_free_def pool_view_def split: option.split)

lemmas track_alloc_frame [simp] =
  pool_viewD [OF track_frame(2)] proc_viewD [OF track_frame(1)]

lemmas track_free_frame [simp] =
  pool_viewD [OF track_frame(5)] proc_viewD [OF track_frame(4)]

section \<open>The count invariant\<close>

text \<open>
  \<^verbatim>\<open>alloc_table_count\<close> is the number of entries in use. The two operations keep it, also
  when the table is full or nothing matches.
\<close>

definition used_entries :: "alloc_track_t list \<Rightarrow> alloc_track_t list" where
  "used_entries t = filter at_used t"

definition tracker_ok :: "kstate \<Rightarrow> bool" where
  "tracker_ok s \<longleftrightarrow> alloc_table_count s = of_nat (length (used_entries (alloc_table s)))"

lemma track_alloc_ok:
  assumes "tracker_ok s"
  shows "tracker_ok (track_alloc pa n w t s)"
proof (cases "first_index (\<lambda>e. \<not> at_used e) (alloc_table s)")
  case None
  with assms show ?thesis by (simp add: track_alloc_def)
next
  case (Some i)
  let ?e = "\<lparr>at_used = True, at_pa = pa, at_npages = n, at_owner = w, at_tag = t\<rparr>"
  have "length (filter at_used ((alloc_table s)[i := ?e])) =
      Suc (length (filter at_used (alloc_table s)))"
    using first_index_SomeD [OF Some] length_filter_update [of i "alloc_table s" at_used ?e]
    by simp
  with assms Some show ?thesis
    by (simp add: track_alloc_def tracker_ok_def used_entries_def)
qed

lemma track_free_ok:
  assumes "tracker_ok s"
  shows "tracker_ok (track_free pa n s)"
proof (cases "first_index (\<lambda>e. at_used e \<and> at_pa e = pa \<and> at_npages e = n) (alloc_table s)")
  case None
  with assms show ?thesis by (simp add: track_free_def)
next
  case (Some i)
  let ?e = "(alloc_table s ! i)\<lparr>at_used := False\<rparr>"
  have "Suc (length (filter at_used ((alloc_table s)[i := ?e]))) =
      length (filter at_used (alloc_table s))"
    using first_index_SomeD [OF Some] length_filter_update [of i "alloc_table s" at_used ?e]
    by simp
  then have "(of_nat (length (filter at_used (alloc_table s))) :: u64) - 1 =
      of_nat (length (filter at_used ((alloc_table s)[i := ?e])))"
    by (metis add_diff_cancel_left' of_nat_Suc)
  with assms Some show ?thesis
    by (simp add: track_free_def tracker_ok_def used_entries_def)
qed

section \<open>Membership\<close>

text \<open>An allocation is tracked when an entry in use records it.\<close>

definition tracked :: "kstate \<Rightarrow> u64 \<Rightarrow> u64 \<Rightarrow> int \<Rightarrow> bool" where
  "tracked s pa npages owner \<longleftrightarrow>
     (\<exists>e \<in> set (alloc_table s). at_used e \<and> at_pa e = pa \<and> at_npages e = npages \<and>
        at_owner e = owner)"

lemma track_alloc_tracked:
  assumes "\<exists>e \<in> set (alloc_table s). \<not> at_used e"
  shows "tracked (track_alloc pa n w t s) pa n w"
proof -
  obtain i where i: "first_index (\<lambda>e. \<not> at_used e) (alloc_table s) = Some i"
    using assms by (cases "first_index (\<lambda>e. \<not> at_used e) (alloc_table s)")
      (auto simp: first_index_None)
  let ?e = "\<lparr>at_used = True, at_pa = pa, at_npages = n, at_owner = w, at_tag = t\<rparr>"
  have "?e \<in> set ((alloc_table s)[i := ?e])"
    using first_index_SomeD(1) [OF i] by (rule set_update_memI)
  then show ?thesis
    using i unfolding tracked_def track_alloc_def
    by (intro bexI [of _ ?e]) simp_all
qed

lemma track_alloc_full:
  "\<forall>e \<in> set (alloc_table s). at_used e \<Longrightarrow> track_alloc pa n w t s = s"
  by (simp add: track_alloc_def first_index_None [THEN iffD2])

text \<open>
  When the first free entry precedes every entry in use with the same start and size,
  clearing the allocation undoes recording it, up to the contents of the free entry.
\<close>

lemma track_free_track_alloc_count:
  assumes "\<exists>e \<in> set (alloc_table s). \<not> at_used e"
  shows "alloc_table_count (track_free pa n (track_alloc pa n w t s)) = alloc_table_count s"
proof -
  have "\<exists>e \<in> set (alloc_table (track_alloc pa n w t s)).
      at_used e \<and> at_pa e = pa \<and> at_npages e = n"
    using track_alloc_tracked [OF assms, of pa n w t] by (auto simp: tracked_def)
  then obtain j where j: "first_index (\<lambda>e. at_used e \<and> at_pa e = pa \<and> at_npages e = n)
      (alloc_table (track_alloc pa n w t s)) = Some j"
    by (cases "first_index (\<lambda>e. at_used e \<and> at_pa e = pa \<and> at_npages e = n)
      (alloc_table (track_alloc pa n w t s))") (auto simp: first_index_None)
  obtain i where i: "first_index (\<lambda>e. \<not> at_used e) (alloc_table s) = Some i"
    using assms by (cases "first_index (\<lambda>e. \<not> at_used e) (alloc_table s)")
      (auto simp: first_index_None)
  have "alloc_table_count (track_alloc pa n w t s) = alloc_table_count s + 1"
    using i by (simp add: track_alloc_def)
  then show ?thesis
    using j by (simp add: track_free_def)
qed

end
