(* ===== verification/Page_Alloc.thy ===== *)
theory Page_Alloc
  imports Alloc_Tracker
begin

text \<open>
  The physical page allocator of \<^verbatim>\<open>kernel/page.c\<close>: a bump pointer \<^verbatim>\<open>next_paddr\<close> over the
  region between \<^verbatim>\<open>__free_ram\<close> and \<^verbatim>\<open>__free_ram_end\<close>, and a LIFO free list threaded
  through the first eight bytes of each free page. \<open>pool_ok\<close> is the invariant,
  \<open>owned\<close> the set of pages handed out; the locale \<open>frame_allocator\<close> is the contract
  that the page tables and the process code rely on.
\<close>

section \<open>The code\<close>

definition alloc_free_list :: "kstate \<Rightarrow> u64 \<times> kstate" where
  "alloc_free_list s =
     (if free_list s = 0 then (0, s)
      else let pa = free_list s in
        (pa, s\<lparr>free_list := load64 (mem s) pa, g_free_pages := g_free_pages s - 1\<rparr>))"

definition alloc_pages :: "linker_syms \<Rightarrow> u64 \<Rightarrow> kstate \<Rightarrow> (u64, kstate) kres" where
  "alloc_pages L n s =
     (if n = 1 then
        (case alloc_free_list s of (pa, s) \<Rightarrow>
           if pa \<noteq> 0 then
             (let s = s\<lparr>mem := memset (mem s) pa 0 4096\<rparr> in
              kret pa (track_alloc pa 1 (current_pid s) (Some ''alloc_pages'') s))
           else
             (let pa = next_paddr s;
                  s = s\<lparr>next_paddr := next_paddr s + 4096\<rparr>
              in if free_ram_end L < next_paddr s then kpanic Out_of_memory
                 else
                   (let s = s\<lparr>mem := memset (mem s) pa 0 4096\<rparr> in
                    kret pa (track_alloc pa 1 (current_pid s) (Some ''alloc_pages'') s))))
      else
        (let pa = next_paddr s;
             new_next = next_paddr s + n * 4096
         in if free_ram_end L < new_next then kpanic Out_of_memory
            else
              (let s = s\<lparr>mem := memset (mem s) pa 0 (n * 4096), next_paddr := new_next\<rparr> in
               kret pa (track_alloc pa 1 (current_pid s) (Some ''alloc_pages'') s))))"

definition free_page :: "u64 \<Rightarrow> kstate \<Rightarrow> kstate" where
  "free_page pa s =
     (let s = track_free pa 1 s in
      s\<lparr>mem := store64 (mem s) pa (free_list s),
        free_list := pa,
        g_free_pages := g_free_pages s + 1\<rparr>)"

definition free_pages_range :: "u64 \<Rightarrow> u64 \<Rightarrow> kstate \<Rightarrow> kstate" where
  "free_pages_range pa npages s =
     fold (\<lambda>i s. free_page (pa + of_nat i * 4096) (track_free pa 1 s)) [0..<unat npages] s"

definition page_allocator_free_pages :: "kstate \<Rightarrow> u64" where
  "page_allocator_free_pages s = g_free_pages s"

section \<open>The invariant\<close>

text \<open>The free list as a list of pages: each page holds the address of the next one.\<close>

primrec fl_chain :: "mem \<Rightarrow> u64 \<Rightarrow> u64 list \<Rightarrow> bool" where
  "fl_chain m p [] \<longleftrightarrow> p = 0"
| "fl_chain m p (x # xs) \<longleftrightarrow> p = x \<and> p \<noteq> 0 \<and> fl_chain m (load64 m p) xs"

lemma fl_chain_null [simp]: "fl_chain m 0 xs \<longleftrightarrow> xs = []"
  by (cases xs) auto

lemma fl_chain_unique: "fl_chain m p xs \<Longrightarrow> fl_chain m p ys \<Longrightarrow> xs = ys"
proof (induction xs arbitrary: p ys)
  case Nil
  then show ?case by simp
next
  case (Cons x xs)
  then obtain zs where "ys = x # zs" by (cases ys) auto
  with Cons show ?case by auto
qed

lemma fl_chain_cong:
  "fl_chain m p xs \<Longrightarrow> \<forall>x \<in> set xs. load64 m' x = load64 m x \<Longrightarrow> fl_chain m' p xs"
  by (induction xs arbitrary: p) auto

definition pool_page :: "linker_syms \<Rightarrow> kstate \<Rightarrow> u64 \<Rightarrow> bool" where
  "pool_page L s p \<longleftrightarrow> page_aligned p \<and> free_ram L \<le> p \<and> p < next_paddr s"

definition pool_inv :: "linker_syms \<Rightarrow> u64 list \<Rightarrow> kstate \<Rightarrow> bool" where
  "pool_inv L xs s \<longleftrightarrow>
     layout_ok L \<and> fl_chain (mem s) (free_list s) xs \<and> distinct xs \<and>
     (\<forall>x \<in> set xs. pool_page L s x) \<and>
     page_aligned (next_paddr s) \<and> free_ram L \<le> next_paddr s \<and>
     next_paddr s \<le> free_ram_end L \<and>
     g_free_pages s = of_nat (length xs)"

definition pool_ok :: "linker_syms \<Rightarrow> kstate \<Rightarrow> bool" where
  "pool_ok L s \<longleftrightarrow> (\<exists>xs. pool_inv L xs s)"

definition free_set :: "kstate \<Rightarrow> u64 set" where
  "free_set s = {x. \<exists>xs. fl_chain (mem s) (free_list s) xs \<and> x \<in> set xs}"

definition owned :: "linker_syms \<Rightarrow> kstate \<Rightarrow> u64 set" where
  "owned L s = {p. pool_page L s p \<and> p \<notin> free_set s}"

lemma free_set_chain: "fl_chain (mem s) (free_list s) xs \<Longrightarrow> free_set s = set xs"
  by (auto simp: free_set_def dest: fl_chain_unique)

lemma pool_inv_owned:
  "pool_inv L xs s \<Longrightarrow> owned L s = {p. pool_page L s p \<and> p \<notin> set xs}"
  by (auto simp: owned_def pool_inv_def free_set_chain)

lemma layout_bounds:
  assumes "layout_ok L"
  shows "0 < unat (free_ram L)" and "unat (free_ram L) mod 4096 = 0"
    and "unat (free_ram_end L) mod 4096 = 0"
    and "unat (free_ram L) \<le> unat (free_ram_end L)"
    and "unat (free_ram_end L) \<le> 0x4000000000"
  using assms
  by (auto simp: layout_ok_def page_aligned_unat word_less_nat_alt word_le_nat_alt)

lemma owned_props:
  assumes "pool_ok L s" and "p \<in> owned L s"
  shows "page_aligned p" and "p \<noteq> 0" and "p < 0x4000000000"
    and "free_ram L \<le> p" and "p < free_ram_end L"
proof -
  obtain xs where xs: "pool_inv L xs s" using assms(1) by (auto simp: pool_ok_def)
  from xs have L: "layout_ok L" by (simp add: pool_inv_def)
  from assms(2) have p: "page_aligned p" "free_ram L \<le> p" "p < next_paddr s"
    by (auto simp: owned_def pool_page_def)
  with xs layout_bounds [OF L]
  show "page_aligned p" and "p \<noteq> 0" and "p < 0x4000000000"
    and "free_ram L \<le> p" and "p < free_ram_end L"
    by (auto simp: pool_inv_def word_less_nat_alt word_le_nat_alt)
qed

section \<open>Allocating one page\<close>

lemma next_page_unat:
  assumes "pool_inv L xs s"
  shows "unat (next_paddr s + 4096) = unat (next_paddr s) + 4096"
  using assms layout_bounds [of L]
  by (simp add: pool_inv_def word_le_nat_alt unat_word_ariths)

text \<open>The two ways a single page is found, in terms of the free list.\<close>

lemma alloc_one_free:
  assumes "pool_inv L (x # xs) s"
  shows "\<exists>s'. alloc_pages L 1 s = Inr (x, s') \<and> pool_inv L xs s' \<and>
    next_paddr s' = next_paddr s \<and> proc_view s' = proc_view s \<and>
    mem s' = memset (mem s) x 0 4096"
proof -
  let ?m = "memset (mem s) x 0 4096"
  let ?s = "s\<lparr>free_list := load64 (mem s) x, g_free_pages := g_free_pages s - 1, mem := ?m\<rparr>"
  let ?t = "track_alloc x 1 (current_pid ?s) (Some ''alloc_pages'') ?s"
  have x: "free_list s = x" "x \<noteq> 0" "page_aligned x"
    and rest: "fl_chain (mem s) (load64 (mem s) x) xs" "x \<notin> set xs"
    using assms by (auto simp: pool_inv_def pool_page_def)
  have "alloc_pages L 1 s = Inr (x, ?t)"
    using x by (simp add: alloc_pages_def alloc_free_list_def Let_def)
  moreover have "load64 ?m y = load64 (mem s) y" if "y \<in> set xs" for y
  proof -
    have "page_aligned y" and "y \<noteq> x"
      using assms that rest(2) by (auto simp: pool_inv_def pool_page_def)
    then show ?thesis using x(3)
      by (simp add: load64_memset_page page_aligned_aligned8)
  qed
  then have "fl_chain ?m (load64 (mem s) x) xs"
    using rest(1) by (simp add: fl_chain_cong)
  then have "pool_inv L xs ?t"
    using assms by (simp add: pool_inv_def pool_page_def)
  ultimately show ?thesis by simp
qed

lemma alloc_one_bump:
  assumes "pool_inv L [] s" and "next_paddr s \<noteq> free_ram_end L"
  shows "\<exists>s'. alloc_pages L 1 s = Inr (next_paddr s, s') \<and> pool_inv L [] s' \<and>
    next_paddr s' = next_paddr s + 4096 \<and> proc_view s' = proc_view s \<and>
    mem s' = memset (mem s) (next_paddr s) 0 4096"
proof -
  let ?p = "next_paddr s"
  let ?s = "s\<lparr>next_paddr := ?p + 4096, mem := memset (mem s) ?p 0 4096\<rparr>"
  let ?t = "track_alloc ?p 1 (current_pid ?s) (Some ''alloc_pages'') ?s"
  have L: "layout_ok L" using assms(1) by (simp add: pool_inv_def)
  have "unat ?p mod 4096 = 0" and "unat ?p \<le> unat (free_ram_end L)"
    using assms(1) by (auto simp: pool_inv_def page_aligned_unat word_le_nat_alt)
  moreover have "unat ?p \<noteq> unat (free_ram_end L)"
    using assms(2) by (simp add: unat_inj_u64)
  ultimately have room: "unat ?p + 4096 \<le> unat (free_ram_end L)"
    using layout_bounds(3) [OF L] by (intro aligned_step) simp_all
  have "alloc_pages L 1 s = Inr (?p, ?t)"
    using assms(1) room next_page_unat [OF assms(1)]
    by (simp add: alloc_pages_def alloc_free_list_def Let_def pool_inv_def word_less_nat_alt)
  moreover have "pool_inv L [] ?t"
    using assms(1) room next_page_unat [OF assms(1)] 
    by (simp add: pool_inv_def page_aligned_unat word_le_nat_alt)
  ultimately show ?thesis by simp
qed

lemma alloc_one_oom:
  assumes "pool_inv L [] s" and "next_paddr s = free_ram_end L"
  shows "alloc_pages L 1 s = kpanic Out_of_memory"
  using assms next_page_unat [OF assms(1)]
  by (simp add: alloc_pages_def alloc_free_list_def Let_def pool_inv_def word_less_nat_alt)


lemma alloc_one_cases:
  assumes "pool_ok L s" and "alloc_pages L 1 s = Inr (p, s')"
  obtains (free) xs where "pool_inv L (p # xs) s" "pool_inv L xs s'"
      "next_paddr s' = next_paddr s" "proc_view s' = proc_view s"
      "mem s' = memset (mem s) p 0 4096"
    | (bump) "pool_inv L [] s" "pool_inv L [] s'" "p = next_paddr s"
      "next_paddr s' = next_paddr s + 4096" "proc_view s' = proc_view s"
      "mem s' = memset (mem s) p 0 4096"
proof -
  obtain xs where xs: "pool_inv L xs s" using assms(1) by (auto simp: pool_ok_def)
  show thesis
  proof (cases xs)
    case Nil
    with xs assms(2) have "next_paddr s \<noteq> free_ram_end L"
      using alloc_one_oom [of L s] by auto
    with Nil xs assms(2) bump show thesis
      using alloc_one_bump [of L s] by auto
  next
    case (Cons x ys)
    with xs assms(2) free show thesis
      using alloc_one_free [of L x ys s] by auto
  qed
qed

text \<open>
  A single-page allocation hands out a page that nobody owned, cleared, and changes no
  other byte; the pages owned afterwards are those owned before and this one.
\<close>

lemma alloc_one_spec:
  assumes "pool_ok L s" and "alloc_pages L 1 s = Inr (p, s')"
  shows "pool_ok L s'" and "p \<notin> owned L s" and "owned L s' = insert p (owned L s)"
    and "page_aligned p" and "proc_view s' = proc_view s"
    and "mem s' = memset (mem s) p 0 4096"
proof -
  have "pool_ok L s' \<and> p \<notin> owned L s \<and> owned L s' = insert p (owned L s) \<and>
    page_aligned p \<and> proc_view s' = proc_view s \<and> mem s' = memset (mem s) p 0 4096"
    using assms
  proof (cases rule: alloc_one_cases)
    case (free xs)
    have "pool_page L s' = pool_page L s"
      using free(3) by (intro ext) (simp add: pool_page_def)
    with free show ?thesis
      by (auto simp: pool_ok_def pool_inv_owned) (auto simp: pool_inv_def pool_page_def)
  next
    case bump
    have p: "page_aligned p" "free_ram L \<le> p" using bump(1,3) by (auto simp: pool_inv_def)
    have "pool_page L s' x \<longleftrightarrow> x = p \<or> pool_page L s x" for x
    proof -
      have "unat (next_paddr s + 4096) = unat p + 4096"
        using next_page_unat [OF bump(1)] bump(3) by simp
      moreover have "unat p < unat x \<Longrightarrow> page_aligned x \<Longrightarrow> unat p + 4096 \<le> unat x"
        using p(1) by (intro aligned_step) (simp_all add: page_aligned_unat)
      moreover have "x = p \<or> unat x < unat p \<or> unat p < unat x"
        using unat_inj_u64 [of x p] by linarith
      ultimately show ?thesis
        using p bump(3,4) by (auto simp: pool_page_def word_less_nat_alt)
    qed
    moreover have "\<not> pool_page L s p" using bump(3) by (simp add: pool_page_def)
    ultimately show ?thesis
      using bump p by (auto simp: pool_ok_def pool_inv_owned)
  qed
  then show "pool_ok L s'" and "p \<notin> owned L s" and "owned L s' = insert p (owned L s)"
    and "page_aligned p" and "proc_view s' = proc_view s"
    and "mem s' = memset (mem s) p 0 4096" by simp_all
qed

text \<open>It fails exactly when the free list is empty and the region is used up.\<close>

lemma alloc_one_Inl:
  assumes "pool_ok L s" and "alloc_pages L 1 s = Inl e"
  shows "e = Panic Out_of_memory" and "free_list s = 0" and "next_paddr s = free_ram_end L"
proof -
  obtain xs where xs: "pool_inv L xs s" using assms(1) by (auto simp: pool_ok_def)
  have "xs = []" using xs assms(2) alloc_one_free [of L "hd xs" "tl xs" s] by (cases xs) auto
  then show "next_paddr s = free_ram_end L"
    using xs assms(2) alloc_one_bump [of L s] by auto
  with \<open>xs = []\<close> xs assms(2) show "e = Panic Out_of_memory"
    using alloc_one_oom [of L s] by simp
  show "free_list s = 0" using xs \<open>xs = []\<close> by (simp add: pool_inv_def)
qed

section \<open>Freeing a page\<close>

lemma free_page_frame:
  "mem (free_page pa s) = store64 (mem s) pa (free_list s)"
  "free_list (free_page pa s) = pa"
  "next_paddr (free_page pa s) = next_paddr s"
  "g_free_pages (free_page pa s) = g_free_pages s + 1"
  "proc_view (free_page pa s) = proc_view s"
  by (simp_all add: free_page_def Let_def)

lemma free_page_inv:
  assumes "pool_inv L xs s" and "p \<in> owned L s"
  shows "pool_inv L (p # xs) (free_page p s)"
proof -
  have p: "pool_page L s p" "p \<notin> set xs" "p \<noteq> 0" "page_aligned p"
    using assms owned_props [of L s p] by (auto simp: pool_inv_owned pool_ok_def)
  have "load64 (store64 (mem s) p (free_list s)) y = load64 (mem s) y" if "y \<in> set xs" for y
  proof -
    have "page_aligned y" and "y \<noteq> p"
      using assms(1) that p(2) by (auto simp: pool_inv_def pool_page_def)
    then show ?thesis
      using p(4) by (simp add: load64_store64_aligned page_aligned_aligned8)
  qed
  then have "fl_chain (store64 (mem s) p (free_list s)) (free_list s) xs"
    using assms(1) by (auto simp: pool_inv_def intro: fl_chain_cong)
  with assms(1) p show ?thesis
    by (simp add: pool_inv_def pool_page_def free_page_frame)
qed

lemma free_page_spec:
  assumes "pool_ok L s" and "p \<in> owned L s"
  shows "pool_ok L (free_page p s)" and "owned L (free_page p s) = owned L s - {p}"
    and "same_outside {p} (mem s) (mem (free_page p s))"
    and "proc_view (free_page p s) = proc_view s"
proof -
  obtain xs where xs: "pool_inv L xs s" using assms(1) by (auto simp: pool_ok_def)
  note inv = free_page_inv [OF xs assms(2)]
  show "pool_ok L (free_page p s)" using inv by (auto simp: pool_ok_def)
  show "owned L (free_page p s) = owned L s - {p}"
    using xs inv by (auto simp: pool_inv_owned pool_page_def free_page_frame)
  have "page_aligned p" using owned_props [OF assms] by simp
  then show "same_outside {p} (mem s) (mem (free_page p s))"
    using same_outside_store64 [of p "mem s" "free_list s"]
    by (simp add: free_page_frame page_aligned_aligned8)
  show "proc_view (free_page p s) = proc_view s" by (simp add: free_page_frame)
qed

section \<open>The contract\<close>

text \<open>
  What the clients of the allocator rely on: allocation returns a cleared page that
  nobody owned, freeing gives it back, and neither touches any other page; a client may
  write to the pages it owns without disturbing the allocator.
\<close>

locale frame_allocator =
  fixes alloc :: "'s \<Rightarrow> (u64, 's) kres"
    and dealloc :: "u64 \<Rightarrow> 's \<Rightarrow> 's"
    and put_mem :: "mem \<Rightarrow> 's \<Rightarrow> 's"
    and memory :: "'s \<Rightarrow> mem"
    and inv :: "'s \<Rightarrow> bool"
    and owns :: "'s \<Rightarrow> u64 set"
  assumes alloc_inv: "inv s \<Longrightarrow> alloc s = Inr (p, s') \<Longrightarrow> inv s'"
    and alloc_fresh: "inv s \<Longrightarrow> alloc s = Inr (p, s') \<Longrightarrow> p \<notin> owns s"
    and alloc_owns: "inv s \<Longrightarrow> alloc s = Inr (p, s') \<Longrightarrow> owns s' = insert p (owns s)"
    and alloc_memory: "inv s \<Longrightarrow> alloc s = Inr (p, s') \<Longrightarrow>
      memory s' = memset (memory s) p 0 4096"
    and dealloc_inv: "inv s \<Longrightarrow> p \<in> owns s \<Longrightarrow> inv (dealloc p s)"
    and dealloc_owns: "inv s \<Longrightarrow> p \<in> owns s \<Longrightarrow> owns (dealloc p s) = owns s - {p}"
    and dealloc_memory: "inv s \<Longrightarrow> p \<in> owns s \<Longrightarrow>
      same_outside {p} (memory s) (memory (dealloc p s))"
    and owns_page: "inv s \<Longrightarrow> p \<in> owns s \<Longrightarrow> page_aligned p \<and> p \<noteq> 0 \<and> p < 0x4000000000"
    and put_memory: "memory (put_mem m s) = m"
    and put_inv: "inv s \<Longrightarrow> same_outside P (memory s) m \<Longrightarrow> P \<subseteq> owns s \<Longrightarrow> inv (put_mem m s)"
    and put_owns: "inv s \<Longrightarrow> same_outside P (memory s) m \<Longrightarrow> P \<subseteq> owns s \<Longrightarrow>
      owns (put_mem m s) = owns s"
begin

lemma alloc_page:
  assumes "inv s" and "alloc s = Inr (p, s')"
  shows "page_aligned p" and "p \<noteq> 0" and "p < 0x4000000000"
  using owns_page [OF alloc_inv [OF assms], of p] alloc_owns [OF assms] by simp_all

lemma alloc_outside:
  assumes "inv s" and "alloc s = Inr (p, s')"
  shows "same_outside {p} (memory s) (memory s')"
  using alloc_page(1) [OF assms] alloc_memory [OF assms] by (simp add: same_outside_memset)

lemma alloc_zero:
  assumes "inv s" and "alloc s = Inr (p, s')" and "aligned8 a"
  shows "load64 (memory s') a = (if page_base a = p then 0 else load64 (memory s) a)"
  using alloc_page(1) [OF assms(1,2)] alloc_memory [OF assms(1,2)] assms(3)
  by (simp add: load64_memset_page)

text \<open>Pages owned before an allocation keep their contents.\<close>

lemma alloc_keeps:
  assumes "inv s" and "alloc s = Inr (p, s')" and "page_base a \<in> owns s"
  shows "memory s' a = memory s a"
  using alloc_outside [OF assms(1,2)] alloc_fresh [OF assms(1,2)] assms(3)
  by (auto intro: same_outside_byte)

lemma dealloc_alloc_twice:
  assumes "inv s" and "alloc s = Inr (p, s1)" and "alloc s1 = Inr (q, s2)"
  shows "p \<noteq> q"
  using alloc_fresh [OF alloc_inv [OF assms(1,2)] assms(3)] alloc_owns [OF assms(1,2)] by auto

end

lemma pool_write:
  assumes "pool_ok L s" and "same_outside P (mem s) m" and "P \<subseteq> owned L s"
  shows "pool_ok L (s\<lparr>mem := m\<rparr>)" and "owned L (s\<lparr>mem := m\<rparr>) = owned L s"
proof -
  obtain xs where xs: "pool_inv L xs s" using assms(1) by (auto simp: pool_ok_def)
  have "load64 m x = load64 (mem s) x" if "x \<in> set xs" for x
  proof (rule same_outside_load64 [OF assms(2)])
    have x: "page_aligned x" using xs that by (auto simp: pool_inv_def pool_page_def)
    then show "aligned8 x" by (rule page_aligned_aligned8)
    show "page_base x \<notin> P" using x assms(3) that xs by (auto simp: pool_inv_owned)
  qed
  then have inv: "pool_inv L xs (s\<lparr>mem := m\<rparr>)"
    using xs by (auto simp: pool_inv_def pool_page_def intro: fl_chain_cong)
  then show "pool_ok L (s\<lparr>mem := m\<rparr>)" by (auto simp: pool_ok_def)
  show "owned L (s\<lparr>mem := m\<rparr>) = owned L s"
    using inv xs by (simp add: pool_inv_owned pool_page_def)
qed

interpretation kpages: frame_allocator "alloc_pages L 1" free_page "\<lambda>m s. s\<lparr>mem := m\<rparr>" mem
  "pool_ok L" "owned L"
proof (unfold_locales, goal_cases)
  case 1 then show ?case by (rule alloc_one_spec)
next
  case 2 then show ?case by (rule alloc_one_spec)
next
  case 3 then show ?case by (rule alloc_one_spec)
next
  case 4 then show ?case by (rule alloc_one_spec)
next
  case 5 then show ?case by (rule free_page_spec)
next
  case 6 then show ?case by (rule free_page_spec)
next
  case 7 then show ?case by (rule free_page_spec)
next
  case 8 then show ?case using owned_props by blast
next
  case 9 show ?case by simp
next
  case 10 then show ?case by (rule pool_write)
next
  case 11 then show ?case by (rule pool_write)
qed

section \<open>How many pages are left\<close>

text \<open>
  \<open>avail\<close> counts the pages a single-page allocation can still find: the free list, by
  the counter the code keeps, and what the bump pointer has left.
\<close>

definition avail :: "linker_syms \<Rightarrow> kstate \<Rightarrow> nat" where
  "avail L s = unat (g_free_pages s) +
     (unat (free_ram_end L) - unat (next_paddr s)) div 4096"

lemma pool_inv_length:
  assumes "pool_inv L xs s"
  shows "unat (g_free_pages s) = length xs"
proof -
  have "0 \<notin> set xs"
    using assms layout_bounds(1) [of L] by (auto simp: pool_inv_def pool_page_def word_le_nat_alt)
  then have "set xs \<subset> (UNIV :: u64 set)" by blast
  then have "card (set xs) < CARD(64 word)" by (intro psubset_card_mono) simp_all
  moreover have "card (set xs) = length xs" using assms by (simp add: pool_inv_def distinct_card)
  ultimately have "length xs < 2 ^ 64" by (simp add: card_word)
  then show ?thesis using assms by (simp add: pool_inv_def unat_of_nat_u64)
qed

lemma alloc_one_avail:
  assumes "pool_ok L s" and "alloc_pages L 1 s = Inr (p, s')"
  shows "avail L s = Suc (avail L s')"
  using assms
proof (cases rule: alloc_one_cases)
  case (free xs)
  then show ?thesis using pool_inv_length [OF free(1)] pool_inv_length [OF free(2)]
    by (simp add: avail_def)
next
  case bump
  have n: "unat (next_paddr s') = unat (next_paddr s) + 4096"
    using next_page_unat [OF bump(1)] bump(4) by simp
  have le: "unat (next_paddr s') \<le> unat (free_ram_end L)"
    using bump(2) by (simp add: pool_inv_def word_le_nat_alt)
  have "unat (free_ram_end L) - unat (next_paddr s) =
      (unat (free_ram_end L) - unat (next_paddr s')) + 4096"
    using n le by simp
  then show ?thesis using pool_inv_length [OF bump(1)] pool_inv_length [OF bump(2)]
    by (simp add: avail_def)
qed

lemma alloc_one_returns:
  assumes "pool_ok L s" and "0 < avail L s"
  obtains p s' where "alloc_pages L 1 s = Inr (p, s')"
proof (cases "alloc_pages L 1 s")
  case (Inr r)
  then show thesis using that by (cases r) auto
next
  case (Inl e)
  obtain xs where xs: "pool_inv L xs s" using assms(1) by (auto simp: pool_ok_def)
  have "free_list s = 0" and n: "next_paddr s = free_ram_end L"
    using alloc_one_Inl [OF assms(1) Inl] by auto
  with xs have "xs = []" by (simp add: pool_inv_def)
  then have "avail L s = 0" using pool_inv_length [OF xs] n by (simp add: avail_def)
  with assms(2) show thesis by simp
qed

lemma alloc_one_none_left:
  assumes "pool_ok L s" and "avail L s = 0"
  shows "alloc_pages L 1 s = kpanic Out_of_memory"
proof (cases "alloc_pages L 1 s")
  case (Inr r)
  then show ?thesis using alloc_one_avail [OF assms(1)] assms(2) by (cases r) simp
next
  case (Inl e)
  then show ?thesis using alloc_one_Inl [OF assms(1) Inl] by simp
qed

lemma free_page_avail:
  assumes "pool_ok L s" and "p \<in> owned L s"
  shows "avail L (free_page p s) = Suc (avail L s)"
proof -
  obtain xs where xs: "pool_inv L xs s" using assms(1) by (auto simp: pool_ok_def)
  show ?thesis
    using pool_inv_length [OF xs] pool_inv_length [OF free_page_inv [OF xs assms(2)]]
    by (simp add: avail_def free_page_frame)
qed

section \<open>Several pages at once\<close>

text \<open>
  For \<open>n \<noteq> 1\<close> the pages come from the bump pointer. The product \<^verbatim>\<open>n * PAGE_SIZE\<close> is
  computed modulo \<open>2^64\<close>; without wrap-around the block is fresh and contiguous.
\<close>

lemma alloc_many_spec:
  assumes ok: "pool_ok L s" and n: "n \<noteq> 1"
    and fits: "unat (next_paddr s) + unat n * 4096 < 2 ^ 64"
    and run: "alloc_pages L n s = Inr (pa, s')"
  shows "pool_ok L s'" and "pa = next_paddr s"
    and "next_paddr s' = pa + n * 4096"
    and "mem s' = memset (mem s) pa 0 (n * 4096)"
    and "owned L s' = owned L s \<union> {p. page_aligned p \<and> pa \<le> p \<and> p < pa + n * 4096}"
    and "proc_view s' = proc_view s"
proof -
  obtain xs where xs: "pool_inv L xs s" using ok by (auto simp: pool_ok_def)
  have room: "\<not> free_ram_end L < next_paddr s + n * 4096"
    using run n by (auto simp: alloc_pages_def Let_def split: if_splits)
  then have s': "pa = next_paddr s" "mem s' = memset (mem s) pa 0 (n * 4096)"
      "next_paddr s' = pa + n * 4096" "free_list s' = free_list s"
      "g_free_pages s' = g_free_pages s" "proc_view s' = proc_view s"
    using run n by (auto simp: alloc_pages_def Let_def split: if_splits)
  then show "pa = next_paddr s" and "next_paddr s' = pa + n * 4096"
    and "mem s' = memset (mem s) pa 0 (n * 4096)" and "proc_view s' = proc_view s" by simp_all
  have small: "unat n * 4096 < 2 ^ 64" using fits by simp
  have "unat (n * 4096) = unat n * 4096" using small by (simp add: unat_word_ariths)
  then have un: "unat (pa + n * 4096) = unat pa + unat n * 4096"
    using fits s'(1) by (subst unat_add_u64) simp_all
  have lo: "free_ram L \<le> pa" "page_aligned pa" using xs s'(1) by (auto simp: pool_inv_def)
  have grow: "pa \<le> pa + n * 4096" using un by (simp add: word_le_nat_alt)
  have keep: "load64 (mem s') x = load64 (mem s) x" if "x \<in> set xs" for x
  proof (rule load64_cong)
    fix y assume near: "y - x < 8"
    have x: "page_aligned x" "x < pa" using xs that s'(1) by (auto simp: pool_inv_def pool_page_def)
    have "unat x + 4096 \<le> unat pa"
      using x lo(2) by (intro aligned_step) (simp_all add: page_aligned_unat word_less_nat_alt)
    moreover have "unat y = unat x + unat (y - x)"
      using near calculation unat_u64_bound [of pa] unat_diff_u64 [of y x] unat_u64_bound [of y]
      by (simp add: word_less_nat_alt split: if_splits)
    ultimately have "unat y < unat pa" using near by (simp add: word_less_nat_alt)
    then have "\<not> y - pa < n * 4096"
      using un unat_diff_u64 [of y pa] unat_u64_bound [of "pa + n * 4096"]
        \<open>unat (n * 4096) = unat n * 4096\<close> by (simp add: word_less_nat_alt)
    then show "mem s' y = mem s y" by (simp add: s'(2) memset_apply)
  qed
  have "page_aligned (pa + n * 4096)" using lo(2) un by (simp add: page_aligned_unat)
  then have inv: "pool_inv L xs s'"
    using xs s' room grow lo keep
    by (auto simp: pool_inv_def pool_page_def not_less intro: fl_chain_cong)
  then show "pool_ok L s'" by (auto simp: pool_ok_def)
  have "x \<notin> set xs" if "pa \<le> x" for x
    using xs that s'(1) by (auto simp: pool_inv_def pool_page_def)
  then show "owned L s' = owned L s \<union> {p. page_aligned p \<and> pa \<le> p \<and> p < pa + n * 4096}"
    using pool_inv_owned [OF xs] pool_inv_owned [OF inv] grow lo s'(1,3)
    by (auto simp: pool_page_def)
qed

section \<open>Freeing a contiguous range\<close>

lemma track_free_pool [simp]:
  "pool_ok L (track_free pa n s) = pool_ok L s"
  "owned L (track_free pa n s) = owned L s"
  by (simp_all add: pool_ok_def pool_inv_def owned_def pool_page_def free_set_def)

text \<open>The pages the loop of \<^verbatim>\<open>free_pages_range\<close> frees.\<close>

definition page_run :: "u64 \<Rightarrow> nat \<Rightarrow> u64 set" where
  "page_run pa n = (\<lambda>i. pa + of_nat i * 4096) ` {..<n}"

lemma page_run_Suc: "page_run pa (Suc n) = insert (pa + of_nat n * 4096) (page_run pa n)"
  by (simp add: page_run_def lessThan_Suc)

lemma free_pages_loop:
  assumes "pool_ok L s" and "page_run pa n \<subseteq> owned L s"
    and "inj_on (\<lambda>i. pa + of_nat i * 4096 :: u64) {..<n}"
  shows "pool_ok L (fold (\<lambda>i s. free_page (pa + of_nat i * 4096) (track_free pa 1 s)) [0..<n] s) \<and>
    owned L (fold (\<lambda>i s. free_page (pa + of_nat i * 4096) (track_free pa 1 s)) [0..<n] s) =
      owned L s - page_run pa n \<and>
    avail L (fold (\<lambda>i s. free_page (pa + of_nat i * 4096) (track_free pa 1 s)) [0..<n] s) =
      avail L s + n"
  using assms(2,3)
proof (induction n)
  case 0
  then show ?case using assms(1) by (simp add: page_run_def)
next
  case (Suc n)
  let ?t = "fold (\<lambda>i s. free_page (pa + of_nat i * 4096) (track_free pa 1 s)) [0..<n] s"
  let ?p = "pa + of_nat n * 4096 :: u64"
  have ih: "pool_ok L ?t" "owned L ?t = owned L s - page_run pa n" "avail L ?t = avail L s + n"
    using Suc by (auto simp: page_run_Suc inj_on_def)
  have "?p \<notin> page_run pa n"
  proof
    assume "?p \<in> page_run pa n"
    then obtain i where i: "i < n" "?p = pa + of_nat i * 4096" by (auto simp: page_run_def)
    have "n = i" using inj_onD [OF Suc.prems(2) i(2)] i(1) by simp
    with i(1) show False by simp
  qed
  then have p: "?p \<in> owned L (track_free pa 1 ?t)"
    using Suc.prems(1) ih(2) by (auto simp: page_run_Suc)
  have ok: "pool_ok L (track_free pa 1 ?t)" using ih(1) by simp
  have "avail L (track_free pa 1 ?t) = avail L ?t" by (simp add: avail_def)
  with free_page_spec [OF ok p] free_page_avail [OF ok p] ih show ?case
    by (auto simp: page_run_Suc)
qed

section \<open>Properties\<close>

lemma pool_inv_boot: "layout_ok L \<Longrightarrow> pool_inv L [] (boot_state L)"
  by (simp add: pool_inv_def boot_state_def layout_ok_def)

lemma pool_ok_boot: "layout_ok L \<Longrightarrow> pool_ok L (boot_state L)"
  using pool_inv_boot by (auto simp: pool_ok_def)

lemma boot_pool [simp]: "pool_ok kernel_map (boot_state kernel_map)"
  by (simp add: pool_ok_boot layout_ok_kernel_map)

lemma boot_avail: "avail kernel_map (boot_state kernel_map) = 16384"
  by (simp add: avail_def boot_state_def kernel_map_def)

lemma boot_alloc:
  obtains p s where "alloc_pages kernel_map 1 (boot_state kernel_map) = Inr (p, s)"
  using alloc_one_returns [OF boot_pool] boot_avail by auto

text \<open>
  C2: a single-page allocation that returns hands out a page that is aligned, non-zero,
  inside the page pool and owned by nobody, with every byte zero; the page is owned from
  then on, the allocator's invariant is kept, and no byte of any other page, no process
  and no CSR changes.
\<close>

theorem alloc_pages_fresh:
  assumes "pool_ok L s" and "alloc_pages L 1 s = Inr (p, s')"
  shows "pool_ok L s' \<and> p \<notin> owned L s \<and> owned L s' = insert p (owned L s) \<and>
    page_aligned p \<and> free_ram L \<le> p \<and> p < free_ram_end L \<and>
    (\<forall>a. mem s' a = (if page_base a = p then 0 else mem s a)) \<and> proc_view s' = proc_view s"
proof -
  note spec = alloc_one_spec [OF assms]
  have "p \<in> owned L s'" using spec by simp
  then show ?thesis
    using spec owned_props [OF spec(1)] by (auto simp: memset_apply in_page_iff)
qed

theorem alloc_pages_fresh_witness:
  "\<exists>p s'. alloc_pages kernel_map 1 (boot_state kernel_map) = Inr (p, s') \<and>
     pool_ok kernel_map s' \<and> p \<in> owned kernel_map s' \<and> 0x804cb000 \<le> p"
proof -
  obtain p s' where run: "alloc_pages kernel_map 1 (boot_state kernel_map) = Inr (p, s')"
    by (rule boot_alloc)
  show ?thesis using alloc_pages_fresh [OF boot_pool run] run by (auto simp: kernel_map_def)
qed

text \<open>
  A single-page allocation returns exactly when a page is left, in the free list or
  above the bump pointer, and then one page fewer is left; when none is left it stops in
  the out-of-memory panic.
\<close>

theorem alloc_pages_total:
  assumes "pool_ok L s"
  shows "(if avail L s = 0 then alloc_pages L 1 s = kpanic Out_of_memory
    else \<exists>p s'. alloc_pages L 1 s = Inr (p, s') \<and> avail L s = Suc (avail L s'))"
  using alloc_one_none_left [OF assms] alloc_one_returns [OF assms] alloc_one_avail [OF assms]
  by (metis not_gr_zero)

theorem alloc_pages_total_witness:
  "\<exists>p s'. alloc_pages kernel_map 1 (boot_state kernel_map) = Inr (p, s') \<and>
     avail kernel_map s' = 16383"
  using alloc_pages_total [OF boot_pool] by (auto simp: boot_avail)

text \<open>
  Freeing an owned page gives it back: the invariant is kept, exactly that page
  leaves the owned set, one page more is left, and the next single-page allocation hands
  out the same page, which undoes the free.
\<close>

theorem free_page_reuse:
  assumes "pool_ok L s" and "p \<in> owned L s"
  shows "pool_ok L (free_page p s) \<and> owned L (free_page p s) = owned L s - {p} \<and>
    avail L (free_page p s) = Suc (avail L s) \<and>
    (\<exists>s'. alloc_pages L 1 (free_page p s) = Inr (p, s') \<and> owned L s' = owned L s \<and>
       free_list s' = free_list s \<and> avail L s' = avail L s)"
proof -
  obtain xs where xs: "pool_inv L xs s" using assms(1) by (auto simp: pool_ok_def)
  note inv = free_page_inv [OF xs assms(2)] and f = free_page_spec [OF assms]
  obtain s' where run: "alloc_pages L 1 (free_page p s) = Inr (p, s')" and s': "pool_inv L xs s'"
    using alloc_one_free [OF inv] by auto
  have "fl_chain (mem s) (free_list s) xs" and "fl_chain (mem s') (free_list s') xs"
    using xs s' by (simp_all add: pool_inv_def)
  then have "free_list s' = free_list s" by (cases xs) auto
  then show ?thesis
    using f run alloc_one_spec(3) [OF f(1) run] alloc_one_avail [OF f(1) run]
      free_page_avail [OF assms] assms(2) by auto
qed

theorem free_page_reuse_witness:
  "\<exists>p s s'. alloc_pages kernel_map 1 (boot_state kernel_map) = Inr (p, s) \<and>
     alloc_pages kernel_map 1 (free_page p s) = Inr (p, s') \<and> owned kernel_map s' = owned kernel_map s"
proof -
  obtain p s where run: "alloc_pages kernel_map 1 (boot_state kernel_map) = Inr (p, s)"
    by (rule boot_alloc)
  note sp = alloc_one_spec [OF boot_pool run]
  have "p \<in> owned kernel_map s" using sp by simp
  from free_page_reuse [OF sp(1) this] show ?thesis using run by auto
qed

text \<open>
  An allocation of \<open>n \<noteq> 1\<close> pages whose size does not wrap returns a fresh contiguous
  block: exactly its pages become owned, every byte of it is zero and no other byte
  changes.
\<close>

theorem alloc_pages_block:
  assumes "pool_ok L s" and "n \<noteq> 1" and "unat (next_paddr s) + unat n * 4096 < 2 ^ 64"
    and "alloc_pages L n s = Inr (pa, s')"
  shows "pool_ok L s' \<and> next_paddr s' = pa + n * 4096 \<and>
    owned L s' = owned L s \<union> {p. page_aligned p \<and> pa \<le> p \<and> p < pa + n * 4096} \<and>
    owned L s \<inter> {p. pa \<le> p} = {} \<and>
    (\<forall>a. mem s' a = (if a - pa < n * 4096 then 0 else mem s a))"
proof -
  note sp = alloc_many_spec [OF assms]
  have "owned L s \<inter> {p. pa \<le> p} = {}" using sp(2) by (auto simp: owned_def pool_page_def)
  with sp show ?thesis by (simp add: memset_apply)
qed

theorem alloc_pages_block_witness:
  "\<exists>pa s'. alloc_pages kernel_map 4 (boot_state kernel_map) = Inr (pa, s') \<and>
     pool_ok kernel_map s' \<and> next_paddr s' = 0x804cf000"
proof -
  have "\<exists>pa s'. alloc_pages kernel_map 4 (boot_state kernel_map) = Inr (pa, s') \<and> pa = 0x804cb000"
    by (simp add: alloc_pages_def boot_state_def kernel_map_def Let_def)
  then obtain pa s' where run: "alloc_pages kernel_map 4 (boot_state kernel_map) = Inr (pa, s')"
    and pa: "pa = 0x804cb000" by blast
  have "unat (next_paddr (boot_state kernel_map)) + unat (4 :: u64) * 4096 < 2 ^ 64"
    by (simp add: boot_state_def kernel_map_def)
  with alloc_pages_block [OF boot_pool _ this run] run pa show ?thesis by simp
qed

text \<open>
  \<open>free_pages_range\<close> on a run of owned pages gives back exactly these pages and
  keeps the allocator's invariant, whatever the tracker holds.
\<close>

theorem free_pages_range_frees:
  assumes "pool_ok L s" and "page_run pa (unat n) \<subseteq> owned L s"
    and "inj_on (\<lambda>i. pa + of_nat i * 4096 :: u64) {..<unat n}"
  shows "pool_ok L (free_pages_range pa n s) \<and>
    owned L (free_pages_range pa n s) = owned L s - page_run pa (unat n) \<and>
    avail L (free_pages_range pa n s) = avail L s + unat n"
  using free_pages_loop [OF assms] by (simp add: free_pages_range_def)

theorem free_pages_range_frees_witness:
  "\<exists>pa s. alloc_pages kernel_map 2 (boot_state kernel_map) = Inr (pa, s) \<and>
     avail kernel_map (free_pages_range pa 2 s) = avail kernel_map s + 2"
proof -
  have "\<exists>pa s. alloc_pages kernel_map 2 (boot_state kernel_map) = Inr (pa, s) \<and> pa = 0x804cb000"
    by (simp add: alloc_pages_def boot_state_def kernel_map_def Let_def)
  then obtain pa s where run: "alloc_pages kernel_map 2 (boot_state kernel_map) = Inr (pa, s)"
    and pa: "pa = 0x804cb000" by blast
  have fit: "unat (next_paddr (boot_state kernel_map)) + unat (2 :: u64) * 4096 < 2 ^ 64"
    by (simp add: boot_state_def kernel_map_def)
  note sp = alloc_many_spec [OF boot_pool _ fit run]
  have two: "{..<unat (2 :: u64)} = {0, 1}" by auto
  have "page_run pa (unat (2 :: u64)) \<subseteq> owned kernel_map s"
    unfolding page_run_def two sp(5) [simplified] by (simp add: pa page_aligned_def)
  moreover have "inj_on (\<lambda>i. pa + of_nat i * 4096 :: u64) {..<unat (2 :: u64)}"
    unfolding two by simp
  ultimately show ?thesis
    using free_pages_range_frees [OF sp(1), of pa 2] run by simp
qed

end
