(* ===== verification/Page_Table.thy ===== *)
theory Page_Table
  imports Page_Alloc
begin

text \<open>
  The Sv39 page tables of \<^verbatim>\<open>kernel/page.c\<close>: three levels of 512 eight-byte entries,
  each table in a page of the pool. The code reads and writes the entries in physical
  memory; the abstraction \<open>pt_leaf\<close> is the leaf entry that a virtual address
  selects, and \<open>tree_ok\<close> says that the tables below a root form a tree of owned
  pages. \<open>map_page\<close> refines the update of one virtual page in that map.

  The diagnostic prints (\<^verbatim>\<open>debug_flag\<close>, the reject messages of \<^verbatim>\<open>walkaddr\<close>) write only
  to the console and are not modelled.
\<close>

section \<open>Entries\<close>

abbreviation PTE_V :: u64 where "PTE_V \<equiv> 1"
abbreviation PTE_R :: u64 where "PTE_R \<equiv> 2"
abbreviation PTE_W :: u64 where "PTE_W \<equiv> 4"
abbreviation PTE_X :: u64 where "PTE_X \<equiv> 8"
abbreviation PTE_U :: u64 where "PTE_U \<equiv> 16"

definition PX :: "nat \<Rightarrow> u64 \<Rightarrow> u64" where
  "PX level va = drop_bit (12 + 9 * level) va AND 0x1FF"

definition PTE2PA :: "u64 \<Rightarrow> u64" where
  "PTE2PA pte = push_bit 12 (drop_bit 10 pte)"

definition PA2PTE :: "u64 \<Rightarrow> u64" where
  "PA2PTE pa = push_bit 10 (drop_bit 12 pa)"

definition MAXVA :: u64 where
  "MAXVA = push_bit 39 1"

definition MAKE_SATP :: "u64 \<Rightarrow> u64" where
  "MAKE_SATP pagetable = push_bit 60 8 OR (drop_bit 12 pagetable AND 0xFFFFFFFFFFF)"

text \<open>The address of \<^verbatim>\<open>pt[idx]\<close>.\<close>

definition pte_addr :: "u64 \<Rightarrow> u64 \<Rightarrow> u64" where
  "pte_addr pt idx = pt + 8 * idx"

definition pte_read :: "mem \<Rightarrow> u64 \<Rightarrow> u64 \<Rightarrow> u64" where
  "pte_read m pt idx = load64 m (pte_addr pt idx)"

definition pte_write :: "u64 \<Rightarrow> u64 \<Rightarrow> u64 \<Rightarrow> kstate \<Rightarrow> kstate" where
  "pte_write pt idx e s = s\<lparr>mem := store64 (mem s) (pte_addr pt idx) e\<rparr>"

section \<open>The code\<close>

text \<open>
  One level of \<^verbatim>\<open>map_page\<close> (lines 117-122, 125-130): make sure that entry \<open>vpn\<close> of
  table \<open>pt\<close> points to a table, then follow it.
\<close>

definition map_level :: "linker_syms \<Rightarrow> u64 \<Rightarrow> u64 \<Rightarrow> kstate \<Rightarrow> (u64, kstate) kres" where
  "map_level L pt vpn s =
     kbind
       (if pte_read (mem s) pt vpn AND PTE_V = 0
        then kbind (alloc_pages L 1 s) (\<lambda>new_page s.
          (let s = s\<lparr>mem := memset (mem s) new_page 0 4096\<rparr> in
           kret () (pte_write pt vpn (PA2PTE new_page OR PTE_V) s)))
        else kret () s)
       (\<lambda>_ s. kret (PTE2PA (pte_read (mem s) pt vpn)) s)"

definition map_page ::
  "linker_syms \<Rightarrow> u64 \<Rightarrow> u64 \<Rightarrow> u64 \<Rightarrow> u64 \<Rightarrow> kstate \<Rightarrow> (unit, kstate) kres" where
  "map_page L root_table va pa flags s =
     (if va mod 4096 \<noteq> 0 then kpanic (Unaligned_va va)
      else if pa mod 4096 \<noteq> 0 then kpanic (Unaligned_pa pa)
      else
        (let vpn2 = drop_bit 30 va AND 0x1FF;
             vpn1 = drop_bit 21 va AND 0x1FF;
             vpn0 = drop_bit 12 va AND 0x1FF
         in kbind (map_level L root_table vpn2 s) (\<lambda>pt s.
            kbind (map_level L pt vpn1 s) (\<lambda>pt s.
              kret () (pte_write pt vpn0 (PA2PTE pa OR flags OR PTE_V) s)))))"

definition unmap_page :: "u64 \<Rightarrow> u64 \<Rightarrow> kstate \<Rightarrow> (unit, kstate) kres" where
  "unmap_page root_table va s =
     (if va mod 4096 \<noteq> 0 then kpanic (Unaligned_va va)
      else
        (let vpn2 = drop_bit 30 va AND 0x1FF;
             vpn1 = drop_bit 21 va AND 0x1FF;
             vpn0 = drop_bit 12 va AND 0x1FF;
             e2 = pte_read (mem s) root_table vpn2
         in if e2 AND PTE_V = 0 then kret () s
            else
              (let pt = PTE2PA e2; e1 = pte_read (mem s) pt vpn1 in
               if e1 AND PTE_V = 0 then kret () s
               else
                 (let pt = PTE2PA e1 in kret () (pte_write pt vpn0 0 s)))))"

text \<open>\<^verbatim>\<open>map_mmio_range\<close>: the loop over the offset, in steps of a page, while it is below \<open>len\<close>.\<close>

definition map_mmio_range ::
  "linker_syms \<Rightarrow> u64 \<Rightarrow> u64 \<Rightarrow> u64 \<Rightarrow> u64 \<Rightarrow> u64 \<Rightarrow> kstate \<Rightarrow> (unit, kstate) kres" where
  "map_mmio_range L pt pa_start va_start len perm s =
     for_pages (\<lambda>offset. offset < len)
       (\<lambda>offset s. map_page L pt (va_start + offset) (pa_start + offset) perm s) 0 s"

definition walk_page :: "mem \<Rightarrow> u64 \<Rightarrow> u64 \<Rightarrow> u64" where
  "walk_page m pagetable va =
     (let pte = pte_read m pagetable (PX 2 va) in
      if pte AND PTE_V = 0 then 0
      else
        (let pagetable = PTE2PA pte; pte = pte_read m pagetable (PX 1 va) in
         if pte AND PTE_V = 0 then 0
         else
           (let pagetable = PTE2PA pte; pte = pte_read m pagetable (PX 0 va) in
            if pte AND PTE_V = 0 then 0 else PTE2PA pte)))"

text \<open>\<^verbatim>\<open>walk\<close>: the loop over the levels 2 and 1; the result is the address of the entry, 0 for \<^verbatim>\<open>NULL\<close>.\<close>

fun walk_levels :: "linker_syms \<Rightarrow> u64 \<Rightarrow> u64 \<Rightarrow> bool \<Rightarrow> nat \<Rightarrow> kstate \<Rightarrow> (u64, kstate) kres" where
  "walk_levels L pagetable va alloc 0 s = kret (pte_addr pagetable (PX 0 va)) s"
| "walk_levels L pagetable va alloc (Suc l) s =
     (let idx = PX (Suc l) va; pte = pte_read (mem s) pagetable idx in
      if pte AND PTE_V \<noteq> 0 then walk_levels L (PTE2PA pte) va alloc l s
      else if \<not> alloc then kret 0 s
      else kbind (alloc_pages L 1 s) (\<lambda>new s.
        (let s = s\<lparr>mem := memset (mem s) new 0 4096\<rparr>;
             s = pte_write pagetable idx (PA2PTE new OR PTE_V) s
         in walk_levels L new va alloc l s)))"

definition walk :: "linker_syms \<Rightarrow> u64 \<Rightarrow> u64 \<Rightarrow> bool \<Rightarrow> kstate \<Rightarrow> (u64, kstate) kres" where
  "walk L pagetable va alloc s =
     (if MAXVA \<le> va then kpanic Walk_va_too_high else walk_levels L pagetable va alloc 2 s)"

definition walkaddr :: "linker_syms \<Rightarrow> u64 \<Rightarrow> u64 \<Rightarrow> kstate \<Rightarrow> (u64, kstate) kres" where
  "walkaddr L pagetable va s =
     (if kernel_base L \<le> va then kret 0 s
      else kbind (walk L pagetable va False s) (\<lambda>pte s.
        if pte = 0 then kret 0 s
        else
          (let e = load64 (mem s) pte in
           if e AND PTE_V = 0 then kret 0 s
           else if e AND (PTE_R OR PTE_W OR PTE_X) = 0 then kret 0 s
           else kret (PTE2PA e + (va AND 0xFFF)) s)))"

text \<open>
  \<^verbatim>\<open>free_pagetable\<close> recurses through the entries of a table. Nothing in the code bounds
  the depth (below level 0 every valid entry is taken for a table), so the model spends
  one unit of fuel per nested call and answers \<open>Spin\<close> when it runs out.
\<close>

fun free_pagetable :: "nat \<Rightarrow> u64 \<Rightarrow> int \<Rightarrow> kstate \<Rightarrow> (unit, kstate) kres" where
  "free_pagetable 0 pt lvl s = Inl Spin"
| "free_pagetable (Suc fuel) pt lvl s =
     fold (\<lambda>i r. kbind r (\<lambda>_ s.
        (let e = pte_read (mem s) pt (of_nat i) in
         if e AND PTE_V = 0 then kret () s
         else
           (let child_pa = PTE2PA e in
            kbind
              (if e AND (PTE_R OR PTE_W OR PTE_X) \<noteq> 0 \<and> lvl = 0
               then (if e AND PTE_U \<noteq> 0 then kret () (free_page child_pa s) else kret () s)
               else kbind (free_pagetable fuel child_pa (lvl - 1) s) (\<lambda>_ s.
                 kret () (free_page child_pa s)))
              (\<lambda>_ s. kret () (pte_write pt (of_nat i) 0 s))))))
       [0..<512] (kret () s)"

section \<open>Entry arithmetic\<close>

lemma PX_less [simp]: "PX l va < 512"
  unfolding PX_def by (rule le_less_trans [OF word_and_le1]) simp

lemma vpn_PX:
  "drop_bit 30 va AND 0x1FF = PX 2 va"
  "drop_bit 21 va AND 0x1FF = PX 1 va"
  "drop_bit 12 va AND 0x1FF = PX 0 va"
  by (simp_all add: PX_def)

lemma unat_pte_addr:
  assumes "page_aligned t" and "i < 512"
  shows "unat (pte_addr t i) = unat t + 8 * unat i"
proof -
  have "unat t + 4096 \<le> 2 ^ 64"
    using assms(1) unat_u64_bound [of t] by (intro aligned_step) (simp_all add: page_aligned_unat)
  with assms(2) show ?thesis
    by (simp add: pte_addr_def unat_word_ariths word_less_nat_alt)
qed

lemma pte_addr_props:
  assumes "page_aligned t" and "i < 512"
  shows "aligned8 (pte_addr t i)" and "page_base (pte_addr t i) = t"
proof -
  obtain q where q: "unat t = 4096 * q"
    using assms(1) by (auto simp: page_aligned_unat mod_eq_0_iff_dvd elim!: dvdE)
  have i: "8 * unat i < 4096" using assms(2) by (simp add: word_less_nat_alt)
  have "unat (pte_addr t i) = 8 * (512 * q + unat i)"
    using q unat_pte_addr [OF assms] by simp
  then show "aligned8 (pte_addr t i)" by (simp add: aligned8_unat)
  have "page_base (pte_addr t i) = page_base t"
    using i q by (simp add: page_base_eq_iff unat_pte_addr [OF assms])
  then show "page_base (pte_addr t i) = t" using assms(1) by simp
qed

lemma pte_addr_inject:
  assumes "page_aligned t" and "i < 512" and "page_aligned u" and "j < 512"
  shows "pte_addr t i = pte_addr u j \<longleftrightarrow> t = u \<and> i = j"
proof
  assume eq: "pte_addr t i = pte_addr u j"
  then have "t = u" using pte_addr_props(2) assms by metis
  with eq have "8 * unat i = 8 * unat j"
    using unat_pte_addr [OF assms(1,2)] unat_pte_addr [OF assms(3,4)] by simp
  then show "t = u \<and> i = j" using \<open>t = u\<close> by (simp add: unat_inj_u64)
qed simp

lemma pte_read_write [mem_simps]:
  assumes "page_aligned t" and "i < 512" and "page_aligned u" and "j < 512"
  shows "pte_read (store64 m (pte_addr t i) e) u j =
    (if u = t \<and> j = i then e else pte_read m u j)"
  using pte_addr_props [OF assms(1,2)] pte_addr_props [OF assms(3,4)]
    pte_addr_inject [OF assms]
  by (auto simp: pte_read_def load64_store64_aligned)

lemma pte_read_memset [mem_simps]:
  assumes "page_aligned q" and "page_aligned u" and "j < 512"
  shows "pte_read (memset m q 0 4096) u j = (if u = q then 0 else pte_read m u j)"
  using pte_addr_props [OF assms(2,3)] assms(1)
  by (simp add: pte_read_def load64_memset_page)

lemma pte_read_outside:
  assumes "same_outside P m m'" and "page_aligned u" and "j < 512" and "u \<notin> P"
  shows "pte_read m' u j = pte_read m u j"
  unfolding pte_read_def
  using pte_addr_props [OF assms(2,3)] assms(1,4) by (intro same_outside_load64) auto

lemma page_aligned_low_bits:
  assumes "page_aligned p" and "n < 12"
  shows "\<not> bit p n"
proof -
  have "take_bit 12 p = 0"
    using assms(1) by (simp add: page_aligned_def take_bit_eq_mod)
  then have "\<not> bit (take_bit 12 p) n" by simp
  with assms(2) show ?thesis by (simp add: bit_take_bit_iff)
qed

lemma less_1024_bits:
  assumes "f < (1024 :: u64)" and "10 \<le> n"
  shows "\<not> bit f n"
proof -
  have "take_bit 10 f = f"
    using assms(1) by (simp add: take_bit_eq_mod word_less_nat_alt word_unat_eq_iff unat_mod)
  then have "bit f n = bit (take_bit 10 f) n" by simp
  with assms(2) show ?thesis by (simp add: bit_take_bit_iff)
qed

lemma PTE2PA_PA2PTE:
  assumes "page_aligned p" and "f < 1024"
  shows "PTE2PA (PA2PTE p OR f) = p"
proof (rule bit_word_eqI)
  fix n assume "n < LENGTH(64)"
  then show "bit (PTE2PA (PA2PTE p OR f)) n = bit p n"
    using page_aligned_low_bits [OF assms(1), of n]
      less_1024_bits [OF assms(2), of "10 + (n - 12)"]
    by (cases "n < 12") (auto simp: PTE2PA_def PA2PTE_def bit_simps)
qed

lemma page_aligned_PTE2PA [simp]: "page_aligned (PTE2PA e)"
proof -
  have "take_bit 12 (PTE2PA e) = 0"
    by (rule bit_word_eqI) (auto simp: PTE2PA_def bit_simps)
  then show ?thesis by (simp add: page_aligned_def take_bit_eq_mod)
qed

lemma PTE_V_set [simp]: "(e OR PTE_V) AND PTE_V \<noteq> 0"
proof -
  have "bit ((e OR PTE_V) AND PTE_V) 0" by (simp add: bit_simps)
  then show ?thesis by (metis bit_0_eq bot_apply bot_bool_def)
qed

end
