(* ===== verification/Page_Map.thy ===== *)
theory Page_Map
  imports Page_Table
begin

text \<open>
  The address-space contract of the page tables. \<open>table_of\<close> follows a path of indices
  from a root; \<open>tree_ok\<close> says that every table reached by a path of at most two
  indices is an owned page, is reached by that path only, and is linked by a bare entry. Under it a write to one
  entry changes exactly the translations that go through the entry, which gives
  \<open>map_page\<close> and \<open>unmap_page\<close> as updates of the map from virtual pages to leaf
  entries. The locale \<open>address_space\<close> states this as a contract and lifts it to the
  loops that map a range.
\<close>

section \<open>Paths\<close>

fun table_of :: "mem \<Rightarrow> u64 \<Rightarrow> u64 list \<Rightarrow> u64 option" where
  "table_of m t [] = Some t"
| "table_of m t (i # ip) =
     (let e = pte_read m t i in
      if e AND PTE_V = 0 then None else table_of m (PTE2PA e) ip)"

declare table_of.simps(2) [simp del]

definition index_path :: "u64 list \<Rightarrow> bool" where
  "index_path ip \<longleftrightarrow> length ip \<le> 2 \<and> (\<forall>i \<in> set ip. i < 512)"

text \<open>An entry above the last level is empty, or a bare link: a table and the bit \<open>PTE_V\<close>, no permission.\<close>

definition link_entry :: "u64 \<Rightarrow> bool" where
  "link_entry e \<longleftrightarrow> e AND PTE_V = 0 \<or> e = PA2PTE (PTE2PA e) OR PTE_V"

definition tree_ok :: "u64 set \<Rightarrow> mem \<Rightarrow> u64 \<Rightarrow> bool" where
  "tree_ok A m root \<longleftrightarrow>
     (\<forall>ip t. index_path ip \<longrightarrow> table_of m root ip = Some t \<longrightarrow> t \<in> A) \<and>
     (\<forall>ip js t. index_path ip \<longrightarrow> index_path js \<longrightarrow> table_of m root ip = Some t \<longrightarrow>
        table_of m root js = Some t \<longrightarrow> ip = js) \<and>
     (\<forall>ip i t. index_path (ip @ [i]) \<longrightarrow> table_of m root ip = Some t \<longrightarrow> link_entry (pte_read m t i))"

definition tables :: "mem \<Rightarrow> u64 \<Rightarrow> u64 set" where
  "tables m root = {t. \<exists>ip. index_path ip \<and> table_of m root ip = Some t}"

text \<open>
  The path of a virtual address to its last table, the leaf entry it selects (0 where a
  table is missing), and the addresses that select the same entry.
\<close>

definition va_path :: "u64 \<Rightarrow> u64 list" where
  "va_path va = [PX 2 va, PX 1 va]"

definition pt_leaf :: "mem \<Rightarrow> u64 \<Rightarrow> u64 \<Rightarrow> u64" where
  "pt_leaf m root va =
     (case table_of m root (va_path va) of
        None \<Rightarrow> 0
      | Some t \<Rightarrow> pte_read m t (PX 0 va))"

definition same_vpage :: "u64 \<Rightarrow> u64 \<Rightarrow> bool" where
  "same_vpage va va' \<longleftrightarrow> va_path va = va_path va' \<and> PX 0 va = PX 0 va'"

lemma table_of_append:
  "table_of m t (ip @ js) =
     (case table_of m t ip of None \<Rightarrow> None | Some u \<Rightarrow> table_of m u js)"
  by (induction ip arbitrary: t) (auto simp: Let_def table_of.simps(2))

lemma index_path_simps [simp]:
  "index_path []"
  "index_path [i] \<longleftrightarrow> i < 512"
  "index_path [i, j] \<longleftrightarrow> i < 512 \<and> j < 512"
  by (auto simp: index_path_def)

lemma index_path_va_path [simp]: "index_path (va_path va)"
  by (simp add: va_path_def)

lemma length_va_path [simp]: "length (va_path va) = 2"
  by (simp add: va_path_def)

lemma index_path_prefix: "index_path (ip @ js) \<Longrightarrow> index_path ip"
  by (auto simp: index_path_def)

lemma tree_ok_owned: "tree_ok A m root \<Longrightarrow> index_path ip \<Longrightarrow> table_of m root ip = Some t \<Longrightarrow> t \<in> A"
  unfolding tree_ok_def by blast

lemma tree_ok_inj:
  "tree_ok A m root \<Longrightarrow> index_path ip \<Longrightarrow> index_path js \<Longrightarrow> table_of m root ip = Some t \<Longrightarrow>
    table_of m root js = Some t \<Longrightarrow> ip = js"
  unfolding tree_ok_def by blast

lemma tree_ok_link:
  "tree_ok A m root \<Longrightarrow> index_path (ip @ [i]) \<Longrightarrow> table_of m root ip = Some t \<Longrightarrow> link_entry (pte_read m t i)"
  unfolding tree_ok_def by blast

text \<open>To carry a tree over: the same paths, and the same entries above the last level.\<close>

lemma tree_ok_transfer:
  assumes tree: "tree_ok A m root" and sub: "tables m root \<subseteq> B"
    and eq: "\<And>ip. index_path ip \<Longrightarrow> table_of m' root ip = table_of m root ip"
    and links: "\<And>ip i t. index_path (ip @ [i]) \<Longrightarrow> table_of m root ip = Some t \<Longrightarrow> pte_read m' t i = pte_read m t i"
  shows "tree_ok B m' root"
  unfolding tree_ok_def
proof (intro conjI allI impI)
  fix ip t assume "index_path ip" "table_of m' root ip = Some t"
  then have "t \<in> tables m root" by (auto simp: eq tables_def)
  with sub show "t \<in> B" by blast
next
  fix ip js t
  assume "index_path ip" "index_path js" "table_of m' root ip = Some t" "table_of m' root js = Some t"
  then show "ip = js" using tree_ok_inj [OF tree] by (simp add: eq)
next
  fix ip i t assume i: "index_path (ip @ [i])" and t: "table_of m' root ip = Some t"
  then have t: "table_of m root ip = Some t" using eq [OF index_path_prefix [OF i]] by simp
  show "link_entry (pte_read m' t i)" using tree_ok_link [OF tree i t] links [OF i t] by simp
qed

lemma tables_subset: "tree_ok A m root \<Longrightarrow> tables m root \<subseteq> A"
  by (auto simp: tables_def dest: tree_ok_owned)

lemma tables_I: "index_path ip \<Longrightarrow> table_of m root ip = Some t \<Longrightarrow> t \<in> tables m root"
  by (auto simp: tables_def)

lemma root_in_tables: "root \<in> tables m root"
  by (auto simp: tables_def intro: exI [of _ "[]"])

lemma walk_page_leaf:
  "walk_page m root va =
    (let e = pt_leaf m root va in if e AND PTE_V = 0 then 0 else PTE2PA e)"
  by (simp add: walk_page_def pt_leaf_def va_path_def table_of.simps Let_def)

section \<open>Virtual pages\<close>

text \<open>Below the 39-bit bound of Sv39 the three indices determine the virtual page.\<close>

lemma PX_unat: "unat (PX l va) = unat va div 2 ^ (12 + 9 * l) mod 512"
proof -
  have "PX l va = take_bit 9 (drop_bit (12 + 9 * l) va)"
    by (simp add: PX_def take_bit_eq_mask mask_eq_exp_minus_1)
  then have "unat (PX l va) = take_bit 9 (drop_bit (12 + 9 * l) (unat va))"
    by (simp only: unsigned_take_bit_eq unat_drop_bit_eq)
  then show ?thesis by (simp add: take_bit_eq_mod drop_bit_eq_div)
qed

lemma vpn_digits:
  fixes X :: nat
  assumes "X < 134217728"
  shows "X = X mod 512 + 512 * (X div 512 mod 512) + 262144 * (X div 262144 mod 512)"
proof -
  have "X div 262144 mod 512 = X div 262144" using assms by simp
  moreover have "X div 512 div 512 = X div 262144" by (simp add: div_mult2_eq [symmetric])
  ultimately show ?thesis
    using mult_div_mod_eq [of 512 X] mult_div_mod_eq [of 512 "X div 512"] by linarith
qed

lemma PX_unat_page: "unat (PX l va) = unat va div 4096 div 2 ^ (9 * l) mod 512"
  by (simp add: PX_unat power_add div_mult2_eq)

lemma vpn_digits_inject:
  fixes X Y :: nat
  assumes "X < 134217728" and "Y < 134217728" and "X mod 512 = Y mod 512"
    and "X div 512 mod 512 = Y div 512 mod 512" and "X div 262144 mod 512 = Y div 262144 mod 512"
  shows "X = Y"
  using vpn_digits [OF assms(1)] vpn_digits [OF assms(2)] assms(3-5) by linarith

lemma same_vpage_iff:
  assumes "va < 0x8000000000" and "vb < 0x8000000000"
  shows "same_vpage va vb \<longleftrightarrow> page_base va = page_base vb"
proof
  assume "same_vpage va vb"
  then have eq: "PX 0 va = PX 0 vb" "PX 1 va = PX 1 vb" "PX 2 va = PX 2 vb"
    by (simp_all add: same_vpage_def va_path_def)
  have "unat va div 4096 = unat vb div 4096"
  proof (rule vpn_digits_inject)
    show "unat va div 4096 < 134217728" and "unat vb div 4096 < 134217728"
      using assms by (auto simp: word_less_nat_alt)
    show "unat va div 4096 mod 512 = unat vb div 4096 mod 512"
      using eq(1) PX_unat_page [of 0 va] PX_unat_page [of 0 vb] by simp
    show "unat va div 4096 div 512 mod 512 = unat vb div 4096 div 512 mod 512"
      using eq(2) PX_unat_page [of 1 va] PX_unat_page [of 1 vb] by simp
    show "unat va div 4096 div 262144 mod 512 = unat vb div 4096 div 262144 mod 512"
      using eq(3) PX_unat_page [of 2 va] PX_unat_page [of 2 vb] by simp
  qed
  then show "page_base va = page_base vb" by (simp add: page_base_eq_iff)
next
  assume "page_base va = page_base vb"
  then have "unat (PX l va) = unat (PX l vb)" for l
    by (simp add: PX_unat_page page_base_eq_iff)
  then show "same_vpage va vb" by (simp add: same_vpage_def va_path_def unat_inj_u64)
qed

section \<open>Translations that do not change\<close>

text \<open>A translation depends only on the entries along its path.\<close>

lemma table_of_cong:
  assumes "\<And>ks k rest u. ip = ks @ k # rest \<Longrightarrow> table_of m t ks = Some u \<Longrightarrow>
    pte_read m' u k = pte_read m u k"
  shows "table_of m' t ip = table_of m t ip"
  using assms
proof (induction ip arbitrary: t)
  case Nil
  then show ?case by simp
next
  case (Cons i ip)
  have here: "pte_read m' t i = pte_read m t i" using Cons.prems [of "[]"] by simp
  have "table_of m' (PTE2PA (pte_read m t i)) ip = table_of m (PTE2PA (pte_read m t i)) ip"
    if "pte_read m t i AND PTE_V \<noteq> 0"
  proof (rule Cons.IH)
    fix ks k rest u
    assume "ip = ks @ k # rest" and "table_of m (PTE2PA (pte_read m t i)) ks = Some u"
    with that show "pte_read m' u k = pte_read m u k"
      using Cons.prems [of "i # ks" k rest u] by (simp add: table_of.simps)
  qed
  with here show ?case by (simp add: table_of.simps Let_def)
qed

lemma table_of_outside:
  assumes "index_path ip" and "tree_ok A m root" and "same_outside P m m'"
    and "tables m root \<inter> P = {}" and "\<forall>t \<in> A. page_aligned t"
  shows "table_of m' root ip = table_of m root ip"
proof (rule table_of_cong)
  fix ks k rest u
  assume split: "ip = ks @ k # rest" and u: "table_of m root ks = Some u"
  have ks: "index_path ks" using assms(1) split index_path_prefix by blast
  then have "u \<in> tables m root" using u by (rule tables_I)
  moreover have "page_aligned u" using assms(2,5) ks u tree_ok_owned by blast
  moreover have "k < 512" using assms(1) split by (simp add: index_path_def)
  ultimately show "pte_read m' u k = pte_read m u k"
    using assms(3,4) by (intro pte_read_outside [of P]) auto
qed

lemma pt_leaf_outside:
  assumes "tree_ok A m root" and "same_outside P m m'"
    and "tables m root \<inter> P = {}" and "\<forall>t \<in> A. page_aligned t"
  shows "pt_leaf m' root va = pt_leaf m root va"
proof -
  have eq: "table_of m' root (va_path va) = table_of m root (va_path va)"
    using assms by (intro table_of_outside) auto
  show ?thesis
  proof (cases "table_of m root (va_path va)")
    case None
    with eq show ?thesis by (simp only: pt_leaf_def) simp
  next
    case (Some t)
    then have "t \<in> tables m root" by (intro tables_I) auto
    moreover have "page_aligned t" using Some assms(1,4) tree_ok_owned [of A m root] by force
    ultimately have "pte_read m' t (PX 0 va) = pte_read m t (PX 0 va)"
      using assms(2,3) by (intro pte_read_outside [of P]) auto
    with eq Some show ?thesis by (simp only: pt_leaf_def) simp
  qed
qed

lemma tree_ok_outside:
  assumes "tree_ok A m root" and "same_outside P m m'"
    and "tables m root \<inter> P = {}" and "\<forall>t \<in> A. page_aligned t" and "A \<subseteq> B"
  shows "tree_ok B m' root" and "tables m' root = tables m root"
proof -
  have eq: "table_of m' root ip = table_of m root ip" if "index_path ip" for ip
    using assms that by (intro table_of_outside) auto
  have read: "pte_read m' t i = pte_read m t i" if "index_path (ip @ [i])" "table_of m root ip = Some t" for ip i t
  proof (rule pte_read_outside [OF assms(2)])
    have ip: "index_path ip" using that(1) by (rule index_path_prefix)
    show "page_aligned t" using tree_ok_owned [OF assms(1) ip that(2)] assms(4) by blast
    show "t \<notin> P" using tables_I [OF ip that(2)] assms(3) by blast
    show "i < 512" using that(1) by (simp add: index_path_def)
  qed
  show "tree_ok B m' root"
    using tables_subset [OF assms(1)] assms(5) by (intro tree_ok_transfer [OF assms(1) _ eq read]) auto
  from eq show "tables m' root = tables m root" by (auto simp: tables_def)
qed

section \<open>Writing one entry\<close>

text \<open>
  A write to entry \<open>i\<close> of the table at path \<open>ip\<close> leaves every path alone that does
  not go through that entry.
\<close>

lemma table_of_pte_write:
  assumes tree: "tree_ok A m root" and al: "\<forall>t \<in> A. page_aligned t"
    and at: "index_path ip" "table_of m root ip = Some t" "i < 512"
    and js: "index_path js" "\<nexists>rest. js = ip @ i # rest"
  shows "table_of (store64 m (pte_addr t i) e) root js = table_of m root js"
proof (rule table_of_cong)
  fix ks k rest u
  assume split: "js = ks @ k # rest" and u: "table_of m root ks = Some u"
  have ks: "index_path ks" using js(1) split index_path_prefix by blast
  have "page_aligned u" "page_aligned t"
    using tree al ks u at tree_ok_owned by blast+
  moreover have "k < 512" using js(1) split by (simp add: index_path_def)
  moreover have "\<not> (u = t \<and> k = i)"
    using tree_ok_inj [OF tree ks at(1) u] at(2) js(2) split by blast
  ultimately show "pte_read (store64 m (pte_addr t i) e) u k = pte_read m u k"
    using at(3) by (auto simp: pte_read_write)
qed

text \<open>Writing a leaf entry keeps the tree and changes one virtual page.\<close>

lemma leaf_write:
  fixes e :: u64
  assumes tree: "tree_ok A m root" and al: "\<forall>t \<in> A. page_aligned t"
    and t: "table_of m root (va_path va) = Some t"
  defines "m' \<equiv> store64 m (pte_addr t (PX 0 va)) e"
  shows "tree_ok A m' root" and "tables m' root = tables m root"
    and "pt_leaf m' root va' = (if same_vpage va va' then e else pt_leaf m root va')"
proof -
  have eq: "table_of m' root js = table_of m root js" if "index_path js" for js
    unfolding m'_def using tree al _ t _ that
  proof (rule table_of_pte_write)
    show "\<nexists>rest. js = va_path va @ PX 0 va # rest"
      using that by (auto dest: arg_cong [of _ _ length] simp: index_path_def)
  qed simp_all
  then show "tables m' root = tables m root" by (auto simp: tables_def)
  have read: "pte_read m' u i = pte_read m u i" if "index_path (js @ [i])" "table_of m root js = Some u" for js i u
  proof -
    have js: "index_path js" "length js < 2" "i < 512"
      using that(1) index_path_prefix by (auto simp: index_path_def)
    then have "u \<noteq> t" using tree_ok_inj [OF tree js(1) index_path_va_path that(2)] t by auto
    moreover have "page_aligned u" "page_aligned t"
      using tree_ok_owned [OF tree js(1) that(2)] tree_ok_owned [OF tree _ t] al by auto
    ultimately show ?thesis using js(3) by (simp add: m'_def pte_read_write)
  qed
  show "tree_ok A m' root"
    by (rule tree_ok_transfer [OF tree tables_subset [OF tree] eq read])
  have al_t: "page_aligned t" using tree_ok_owned [OF tree _ t] al by simp
  show "pt_leaf m' root va' = (if same_vpage va va' then e else pt_leaf m root va')"
  proof (cases "table_of m root (va_path va')")
    case None
    with t have "\<not> same_vpage va va'" by (auto simp: same_vpage_def)
    with None eq [of "va_path va'"] show ?thesis
      by (simp add: pt_leaf_def)
  next
    case (Some u)
    have al_u: "page_aligned u" using tree_ok_owned [OF tree _ Some] al by simp
    have "u = t \<longleftrightarrow> va_path va = va_path va'"
      using tree_ok_inj [OF tree, of "va_path va" "va_path va'"] t Some
      by (auto)
    with Some eq [of "va_path va'"] al_t al_u show ?thesis
      by (auto simp add: pt_leaf_def same_vpage_def m'_def pte_read_write)
  qed
qed


text \<open>
  Installing a fresh, cleared table: the new path leads to it, nothing is mapped below
  it, and every other path is as before.
\<close>

definition link_table :: "mem \<Rightarrow> u64 \<Rightarrow> u64 \<Rightarrow> u64 \<Rightarrow> mem" where
  "link_table m t i q = store64 (memset m q 0 4096) (pte_addr t i) (PA2PTE q OR PTE_V)"

lemma link_table_reads:
  assumes "page_aligned t" and "i < 512" and "page_aligned q" and "t \<noteq> q"
    and "page_aligned u" and "k < 512"
  shows "pte_read (link_table m t i q) u k =
    (if u = t \<and> k = i then PA2PTE q OR PTE_V else if u = q then 0 else pte_read m u k)"
  using assms by (simp add: link_table_def pte_read_write pte_read_memset)

lemma link_table_paths:
  assumes tree: "tree_ok A m root" and al: "\<forall>t \<in> A. page_aligned t"
    and at: "index_path (ip @ [i])" "table_of m root ip = Some t"
    and inv: "pte_read m t i AND PTE_V = 0"
    and q: "page_aligned q" "q \<notin> A"
    and js: "index_path js"
  shows "table_of (link_table m t i q) root js =
    (if js = ip @ [i] then Some q else table_of m root js)"
proof -
  let ?z = "memset m q 0 4096" and ?m = "link_table m t i q"
  have ip: "index_path ip" and i: "i < 512"
    using at(1) index_path_prefix by (auto simp: index_path_def)
  have t: "page_aligned t" "t \<noteq> q" using tree_ok_owned [OF tree ip at(2)] al q(2) by auto
  have dis: "tables m root \<inter> {q} = {}" using tables_subset [OF tree] q(2) by auto
  note zero = same_outside_memset [OF q(1), of m 0]
  have tree_z: "tree_ok A ?z root"
    using tree_ok_outside [OF tree zero dis al subset_refl] by auto
  have of_z: "table_of ?z root ks = table_of m root ks" if "index_path ks" for ks
    using that tree zero dis al by (rule table_of_outside)
  have other: "table_of ?m root ks = table_of m root ks"
    if "index_path ks" "\<nexists>rest. ks = ip @ i # rest" for ks
    using table_of_pte_write [OF tree_z al ip _ i that(1,2)] of_z [OF ip] of_z [OF that(1)] at(2)
    by (simp add: link_table_def)
  show ?thesis
  proof (cases "\<exists>rest. js = ip @ i # rest")
    case False
    then show ?thesis using other [OF js] by auto
  next
    case True
    then obtain rest where rest: "js = ip @ i # rest" by blast
    have "table_of ?m root ip = Some t" using other [OF ip] at(2) by simp
    then have "table_of ?m root js = table_of ?m q rest"
      using rest PTE2PA_PA2PTE [OF q(1), of PTE_V] t i q(1)
      by (simp add: table_of_append table_of.simps(2) link_table_reads)
    moreover have "table_of m root js = None"
      using rest at(2) inv by (simp add: table_of_append table_of.simps(2))
    moreover have "pte_read ?m q k = 0" if "k < 512" for k
      using t i q(1) that by (simp add: link_table_reads)
    ultimately show ?thesis
      using rest js by (cases rest) (auto simp: table_of.simps(2) index_path_def)
  qed
qed

lemma link_table_tree:
  assumes tree: "tree_ok A m root" and al: "\<forall>t \<in> A. page_aligned t"
    and at: "index_path (ip @ [i])" "table_of m root ip = Some t"
    and inv: "pte_read m t i AND PTE_V = 0"
    and q: "page_aligned q" "q \<notin> A"
  shows "tree_ok (insert q A) (link_table m t i q) root"
    and "tables (link_table m t i q) root = insert q (tables m root)"
proof -
  let ?m = "link_table m t i q"
  note paths = link_table_paths [OF assms]
  have none: "table_of m root (ip @ [i]) = None"
    using at(2) inv by (simp add: table_of_append table_of.simps(2))
  show "tree_ok (insert q A) ?m root"
    unfolding tree_ok_def
  proof (intro conjI allI impI)
    fix js u assume "index_path js" and "table_of ?m root js = Some u"
    then show "u \<in> insert q A"
      using tree_ok_owned [OF tree] by (auto simp: paths split: if_splits)
  next
    fix js ks u
    assume "index_path js" and "index_path ks"
      and "table_of ?m root js = Some u" and "table_of ?m root ks = Some u"
    then show "js = ks"
      using tree_ok_inj [OF tree, of js ks u] tree_ok_owned [OF tree, of _ q] q(2)
      by (auto simp: paths split: if_splits)
  next
    fix js k u
    assume js: "index_path (js @ [k])" and u: "table_of ?m root js = Some u"
    have ij: "index_path js" "k < 512" using js index_path_prefix by (auto simp: index_path_def)
    have ip: "index_path ip" "i < 512" using at(1) index_path_prefix by (auto simp: index_path_def)
    have t: "page_aligned t" "t \<noteq> q" using tree_ok_owned [OF tree ip(1) at(2)] al q(2) by auto
    have v: "page_aligned v \<and> v \<noteq> q" if "table_of m root js = Some v" for v
      using tree_ok_owned [OF tree ij(1) that] al q(2) by auto
    have new: "link_entry (PA2PTE q OR PTE_V)"
      using PTE2PA_PA2PTE [OF q(1), of PTE_V] by (simp add: link_entry_def)
    have old: "link_entry (pte_read m v k)" if "table_of m root js = Some v" for v
      by (rule tree_ok_link [OF tree js that])
    show "link_entry (pte_read ?m u k)"
      using u v old new t ij(2) ip(2) q(1) paths [OF ij(1)]
      by (auto simp: link_table_reads link_entry_def [of 0] split: if_splits)
  qed
  show "tables ?m root = insert q (tables m root)"
  proof (intro equalityI subsetI)
    fix u assume "u \<in> tables ?m root"
    then show "u \<in> insert q (tables m root)"
      by (auto simp: tables_def paths split: if_splits)
  next
    fix u assume "u \<in> insert q (tables m root)"
    then consider "u = q" | js where "index_path js" "table_of m root js = Some u"
      by (auto simp: tables_def)
    then show "u \<in> tables ?m root"
    proof cases
      case 1
      then show ?thesis using paths [OF at(1)] tables_I [OF at(1), of ?m root] by simp
    next
      case (2 js)
      then have "table_of ?m root js = Some u" using none by (auto simp: paths)
      with 2(1) show ?thesis by (rule tables_I)
    qed
  qed
qed

lemma link_table_leaf:
  assumes tree: "tree_ok A m root" and al: "\<forall>t \<in> A. page_aligned t"
    and at: "index_path (ip @ [i])" "table_of m root ip = Some t"
    and inv: "pte_read m t i AND PTE_V = 0"
    and q: "page_aligned q" "q \<notin> A"
  shows "pt_leaf (link_table m t i q) root va = pt_leaf m root va"
proof -
  have ip: "index_path ip" and i: "i < 512"
    using at(1) index_path_prefix by (auto simp: index_path_def)
  have t: "page_aligned t" "t \<noteq> q" using tree_ok_owned [OF tree ip at(2)] al q(2) by auto
  note paths = link_table_paths [OF assms, of "va_path va"]
  have none: "table_of m root (ip @ [i]) = None"
    using at(2) inv by (simp add: table_of_append table_of.simps(2))
  show ?thesis
  proof (cases "table_of m root (va_path va)")
    case None
    with paths t i q(1) show ?thesis by (auto simp: pt_leaf_def link_table_reads)
  next
    case (Some u)
    have u: "u \<noteq> q" "page_aligned u" using tree_ok_owned [OF tree _ Some] al q(2) by auto
    have "u \<noteq> t"
      using tree_ok_inj [OF tree index_path_va_path ip Some] at length_va_path [of va]
      by (auto simp: index_path_def)
    with Some none u paths t i q(1) show ?thesis
      by (auto simp: pt_leaf_def link_table_reads)
  qed
qed


section \<open>The operations as updates of the map\<close>

text \<open>
  \<open>vm_ok L root s\<close>: the pool is consistent and \<open>root\<close> is a tree of owned tables.
  \<open>vm_step L root s s'\<close>: between the two states only tables of the tree and pages that
  were free have been written, the pages owned in addition are tables of the tree, and
  nothing outside memory, pool and tracker has changed.
\<close>

definition vm_ok :: "linker_syms \<Rightarrow> u64 \<Rightarrow> kstate \<Rightarrow> bool" where
  "vm_ok L root s \<longleftrightarrow> pool_ok L s \<and> tree_ok (owned L s) (mem s) root"

definition vm_step :: "linker_syms \<Rightarrow> u64 \<Rightarrow> kstate \<Rightarrow> kstate \<Rightarrow> bool" where
  "vm_step L root s s' \<longleftrightarrow>
     owned L s \<subseteq> owned L s' \<and>
     tables (mem s') root = tables (mem s) root \<union> (owned L s' - owned L s) \<and>
     same_outside (tables (mem s) root \<union> (owned L s' - owned L s)) (mem s) (mem s') \<and>
     proc_view s' = proc_view s"

lemma vm_step_refl [simp]: "vm_step L root s s"
  by (simp add: vm_step_def)

lemma vm_step_trans:
  assumes "vm_step L root s t" and "vm_step L root t u"
  shows "vm_step L root s u"
proof -
  have un: "tables (mem t) root \<union> (owned L u - owned L t) =
      tables (mem s) root \<union> (owned L u - owned L s)"
    using assms unfolding vm_step_def by blast
  have "same_outside (tables (mem s) root \<union> (owned L t - owned L s) \<union>
      (tables (mem t) root \<union> (owned L u - owned L t))) (mem s) (mem u)"
    using assms unfolding vm_step_def by (blast intro: same_outside_trans)
  then have "same_outside (tables (mem s) root \<union> (owned L u - owned L s)) (mem s) (mem u)"
    by (rule same_outside_mono) (use assms un in \<open>auto simp: vm_step_def\<close>)
  with assms un show ?thesis unfolding vm_step_def by auto
qed

lemma owned_page_set: "pool_ok L s \<Longrightarrow> \<forall>t \<in> owned L s. page_aligned t"
  using owned_props(1) by blast

lemma memset_twice:
  "memset (memset m p v n) p v n = memset m p v n"
  by (rule ext) (simp add: memset_apply)

text \<open>Writing an entry of an owned table disturbs neither the pool nor any other page.\<close>

lemma pte_write_pool:
  assumes "pool_ok L s" and "t \<in> owned L s" and "i < 512"
  shows "pool_ok L (pte_write t i e s)" and "owned L (pte_write t i e s) = owned L s"
    and "same_outside {t} (mem s) (mem (pte_write t i e s))"
proof -
  have t: "page_aligned t" using owned_props(1) [OF assms(1,2)] .
  show out: "same_outside {t} (mem s) (mem (pte_write t i e s))"
    using same_outside_store64 [OF pte_addr_props(1) [OF t assms(3)]]
      pte_addr_props(2) [OF t assms(3)] by (simp add: pte_write_def)
  show "pool_ok L (pte_write t i e s)" and "owned L (pte_write t i e s) = owned L s"
    using kpages.put_inv [OF assms(1) out] kpages.put_owns [OF assms(1) out] assms(2)
    by (simp_all add: pte_write_def)
qed

lemma pte_write_frame [simp]:
  "proc_view (pte_write t i e s) = proc_view s"
  "mem (pte_write t i e s) = store64 (mem s) (pte_addr t i) e"
  by (simp_all add: pte_write_def)

lemma vm_okD:
  assumes "vm_ok L root s"
  shows "pool_ok L s" and "tree_ok (owned L s) (mem s) root"
    and "\<forall>t \<in> owned L s. page_aligned t"
  using assms owned_page_set by (auto simp: vm_ok_def)

text \<open>One level, when a table is missing: the new table is linked in.\<close>

lemma map_level_new:
  assumes ok: "vm_ok L root s" and at: "index_path (ip @ [i])" "table_of (mem s) root ip = Some t"
    and inv: "pte_read (mem s) t i AND PTE_V = 0"
    and run: "map_level L t i s = Inr (u, s')"
  shows "pool_ok L s'" and "u \<notin> owned L s" and "owned L s' = insert u (owned L s)"
    and "mem s' = link_table (mem s) t i u" and "page_aligned u" and "proc_view s' = proc_view s"
    and "same_outside {t, u} (mem s) (mem s')"
proof -
  note ok3 = vm_okD [OF ok]
  have ip: "index_path ip" and i: "i < 512"
    using at(1) index_path_prefix by (auto simp: index_path_def)
  have t: "t \<in> owned L s" "page_aligned t" using tree_ok_owned [OF ok3(2) ip at(2)] ok3(3) by auto
  from run inv obtain q s1 where q: "alloc_pages L 1 s = Inr (q, s1)"
    and s': "s' = pte_write t i (PA2PTE q OR PTE_V) (s1\<lparr>mem := memset (mem s1) q 0 4096\<rparr>)"
    and u: "u = PTE2PA (pte_read (mem s') t i)"
    by (auto simp: map_level_def kbind_eq_Inr Let_def)
  note a = alloc_one_spec [OF ok3(1) q]
  let ?s2 = "s1\<lparr>mem := memset (mem s1) q 0 4096\<rparr>"
  have "mem ?s2 = mem s1" using a(6) by (simp add: memset_twice)
  then have s2: "?s2 = s1" by simp
  have tq: "t \<noteq> q" using t(1) a(2) by auto
  have m': "mem s' = link_table (mem s) t i q"
    using s' s2 a(6) by (simp add: link_table_def)
  have "u = q"
    using u m' link_table_reads [OF t(2) i a(4) tq t(2) i] PTE2PA_PA2PTE [OF a(4), of PTE_V] by simp
  have "t \<in> owned L s1" using t(1) a(3) by simp
  note w = pte_write_pool [OF a(1) this i, of "PA2PTE q OR PTE_V"]
  have out: "same_outside {q} (mem s) (mem s1)" using same_outside_memset [OF a(4)] a(6) by simp
  show "pool_ok L s'" and "owned L s' = insert u (owned L s)" and "proc_view s' = proc_view s"
    using w(1,2) a(3,5) s2 \<open>u = q\<close> by (simp_all add: s')
  show "u \<notin> owned L s" and "mem s' = link_table (mem s) t i u" and "page_aligned u"
    using a(2,4) m' \<open>u = q\<close> by simp_all
  show "same_outside {t, u} (mem s) (mem s')"
    using same_outside_trans [OF out w(3)] s2 \<open>u = q\<close> by (simp add: s' insert_commute)
qed

lemma map_level_spec:
  assumes ok: "vm_ok L root s" and at: "index_path (ip @ [i])" "table_of (mem s) root ip = Some t"
    and run: "map_level L t i s = Inr (u, s')"
  shows "vm_ok L root s' \<and> vm_step L root s s' \<and>
    table_of (mem s') root (ip @ [i]) = Some u \<and>
    (\<forall>va. pt_leaf (mem s') root va = pt_leaf (mem s) root va)"
proof (cases "pte_read (mem s) t i AND PTE_V = 0")
  case False
  with run ok at(2) show ?thesis
    by (auto simp: map_level_def table_of_append table_of.simps(2))
next
  case True
  note ok3 = vm_okD [OF ok] and n = map_level_new [OF ok at True run]
  have "t \<in> tables (mem s) root" using tables_I [OF index_path_prefix [OF at(1)] at(2)] .
  then have out: "same_outside (tables (mem s) root \<union> {u}) (mem s) (mem s')"
    using n(7) by (elim same_outside_mono) simp
  have new: "owned L s' - owned L s = {u}" using n(2,3) by auto
  note lt = link_table_tree [OF ok3(2,3) at True n(5,2)]
  have "vm_step L root s s'"
    using n(3,4,6) lt(2) out unfolding vm_step_def new by auto
  then show ?thesis
    using n(1,3,4) lt(1) link_table_paths [OF ok3(2,3) at True n(5,2) at(1)]
      link_table_leaf [OF ok3(2,3) at True n(5,2)] by (simp add: vm_ok_def)
qed

text \<open>Writing the leaf entry of a virtual page.\<close>

lemma leaf_write_spec:
  fixes e :: u64
  assumes ok: "vm_ok L root s" and path: "table_of (mem s) root (va_path va) = Some t"
  defines "s' \<equiv> pte_write t (PX 0 va) e s"
  shows "vm_ok L root s' \<and> vm_step L root s s' \<and>
    (\<forall>va'. pt_leaf (mem s') root va' =
       (if same_vpage va va' then e else pt_leaf (mem s) root va'))"
proof -
  note ok3 = vm_okD [OF ok]
  have t: "t \<in> owned L s" "t \<in> tables (mem s) root"
    using tree_ok_owned [OF ok3(2) _ path] tables_I [OF _ path] by auto
  note w = pte_write_pool [OF ok3(1) t(1) PX_less [of 0 va], of e]
  note lw = leaf_write [OF ok3(2,3) path, where e = e]
  have "vm_step L root s s'"
    using w(2,3) lw(2) t(2) by (auto simp: vm_step_def s'_def intro: same_outside_mono)
  then show ?thesis using w(1,2) lw(1,3) by (simp add: vm_ok_def s'_def)
qed

text \<open>
  \<open>map_page\<close> is the update of one virtual page: it keeps the invariant, sets the leaf
  entry of the page that contains \<open>va\<close>, and leaves every other translation as it was.
\<close>

lemma map_page_spec:
  assumes ok: "vm_ok L root s" and run: "map_page L root va pa flags s = Inr ((), s')"
  shows "vm_ok L root s' \<and> vm_step L root s s' \<and>
    (\<forall>va'. pt_leaf (mem s') root va' =
      (if same_vpage va va' then PA2PTE pa OR flags OR PTE_V else pt_leaf (mem s) root va'))"
proof -
  from run obtain t1 s1 t0 s2
    where l2: "map_level L root (PX 2 va) s = Inr (t1, s1)"
      and l1: "map_level L t1 (PX 1 va) s1 = Inr (t0, s2)"
      and s': "s' = pte_write t0 (PX 0 va) (PA2PTE pa OR flags OR PTE_V) s2"
    by (auto simp: map_page_def kbind_eq_Inr Let_def vpn_PX split: if_splits)
  have r1: "vm_ok L root s1" "vm_step L root s s1" "table_of (mem s1) root [PX 2 va] = Some t1"
    "\<forall>va'. pt_leaf (mem s1) root va' = pt_leaf (mem s) root va'"
    using map_level_spec [OF ok, of "[]" "PX 2 va" root t1 s1] l2 by simp_all
  have r0: "vm_ok L root s2" "vm_step L root s1 s2" "table_of (mem s2) root (va_path va) = Some t0"
    "\<forall>va'. pt_leaf (mem s2) root va' = pt_leaf (mem s1) root va'"
    using map_level_spec [OF r1(1), of "[PX 2 va]" "PX 1 va" t1 t0 s2] r1(3) l1
    by (simp_all add: va_path_def)
  show ?thesis
    using leaf_write_spec [OF r0(1,3), of "PA2PTE pa OR flags OR PTE_V"] r0(4) r1(4)
      vm_step_trans [OF vm_step_trans [OF r1(2) r0(2)]] unfolding s' by auto
qed

text \<open>\<open>unmap_page\<close> clears the entry of one virtual page.\<close>

lemma unmap_page_spec:
  assumes ok: "vm_ok L root s" and run: "unmap_page root va s = Inr ((), s')"
  shows "vm_ok L root s' \<and> vm_step L root s s' \<and>
    (\<forall>va'. pt_leaf (mem s') root va' =
      (if same_vpage va va' then 0 else pt_leaf (mem s) root va'))"
proof (cases "table_of (mem s) root (va_path va)")
  case None
  then have "s' = s"
    using run by (auto simp: unmap_page_def Let_def vpn_PX va_path_def table_of.simps(2)
      split: if_splits)
  moreover have "pt_leaf (mem s) root va' = 0" if "same_vpage va va'" for va'
    using None that by (simp add: pt_leaf_def same_vpage_def)
  ultimately show ?thesis using ok by simp
next
  case (Some t)
  then have "s' = pte_write t (PX 0 va) 0 s"
    using run by (auto simp: unmap_page_def Let_def vpn_PX va_path_def table_of.simps(2)
      split: if_splits)
  then show ?thesis using leaf_write_spec [OF ok Some, of 0] by simp
qed


section \<open>The contract\<close>

text \<open>
  An address space: a map from virtual pages to leaf entries with an update for one page
  and a clearing of one page. The lemmas of the locale are the map laws and the loop that
  maps a range page by page.
\<close>

definition in_range :: "u64 \<Rightarrow> u64 \<Rightarrow> u64 \<Rightarrow> bool" where
  "in_range start len va \<longleftrightarrow> va - start < len"

text \<open>One step of a loop over a range: the offset grows by one virtual page.\<close>

lemma range_step:
  assumes va: "page_aligned va" and off: "page_aligned off" "off < len"
    and len: "page_aligned len" and fit: "unat va + unat len \<le> 0x8000000000"
  shows "page_aligned (off + 4096)" and "off + 4096 \<le> len"
    and "v < 0x8000000000 \<Longrightarrow>
      in_range va (off + 4096) v \<longleftrightarrow> in_range va off v \<or> same_vpage (va + off) v"
    and "v < 0x8000000000 \<Longrightarrow> same_vpage (va + off) v \<Longrightarrow>
      \<not> in_range va off v \<and> page_base (v - va) = off"
proof -
  have room: "unat off + 4096 \<le> unat len"
    using off len by (intro aligned_step) (simp_all add: page_aligned_unat word_less_nat_alt)
  have u4: "unat (off + 4096) = unat off + 4096"
    using room fit by (simp add: unat_word_ariths)
  have uva: "unat (va + off) = unat va + unat off"
    using room fit by (intro unat_add_u64) simp
  show "page_aligned (off + 4096)" and "off + 4096 \<le> len"
    using off(1) u4 room by (simp_all add: page_aligned_unat word_le_nat_alt)
  have al: "page_aligned (va + off)"
    using va off(1) uva by (simp add: page_aligned_unat mod_add_eq [symmetric])
  have small: "va + off < 0x8000000000"
    using uva room fit by (simp add: word_less_nat_alt)
  have hit: "same_vpage (va + off) v \<longleftrightarrow> v - va - off < 4096" if "v < 0x8000000000"
    using same_vpage_iff [OF small that] al in_page_iff [OF al, of v]
    by (auto simp: diff_diff_add)
  show "in_range va (off + 4096) v \<longleftrightarrow> in_range va off v \<or> same_vpage (va + off) v"
    if "v < 0x8000000000"
    using u4 room fit unat_u64_bound [of "v - va"] hit [OF that]
    by (auto simp: in_range_def word_less_nat_alt unat_diff_u64 [of "v - va" off])
  show "\<not> in_range va off v \<and> page_base (v - va) = off"
    if "v < 0x8000000000" and "same_vpage (va + off) v"
    using hit [OF that(1)] that(2) room fit off(1)
    by (auto simp: in_range_def in_page_iff word_less_nat_alt unat_diff_u64 [of "v - va" off]
        split: if_splits)
qed

locale address_space =
  fixes map_pg :: "u64 \<Rightarrow> u64 \<Rightarrow> u64 \<Rightarrow> 's \<Rightarrow> (unit, 's) kres"
    and unmap_pg :: "u64 \<Rightarrow> 's \<Rightarrow> (unit, 's) kres"
    and leaf :: "'s \<Rightarrow> u64 \<Rightarrow> u64"
    and ok :: "'s \<Rightarrow> bool"
    and step :: "'s \<Rightarrow> 's \<Rightarrow> bool"
  assumes map_laws: "ok s \<Longrightarrow> map_pg va pa flags s = Inr ((), s') \<Longrightarrow>
      ok s' \<and> step s s' \<and> (\<forall>va'. leaf s' va' =
        (if same_vpage va va' then PA2PTE pa OR flags OR PTE_V else leaf s va'))"
    and unmap_laws: "ok s \<Longrightarrow> unmap_pg va s = Inr ((), s') \<Longrightarrow>
      ok s' \<and> step s s' \<and> (\<forall>va'. leaf s' va' =
        (if same_vpage va va' then 0 else leaf s va'))"
    and step_refl: "step s s"
    and step_trans: "step s t \<Longrightarrow> step t u \<Longrightarrow> step s u"
begin

lemma map_read:
  "ok s \<Longrightarrow> map_pg va pa flags s = Inr ((), s') \<Longrightarrow> leaf s' va = PA2PTE pa OR flags OR PTE_V"
  using map_laws [of s va pa flags s'] by (simp add: same_vpage_def)

lemma map_other:
  "ok s \<Longrightarrow> map_pg va pa flags s = Inr ((), s') \<Longrightarrow> \<not> same_vpage va va' \<Longrightarrow>
    leaf s' va' = leaf s va'"
  using map_laws [of s va pa flags s'] by simp

lemma unmap_after_map:
  assumes "ok s" and "map_pg va pa flags s = Inr ((), s1)" and "unmap_pg va s1 = Inr ((), s2)"
    and "leaf s va = 0"
  shows "leaf s2 va' = (if same_vpage va va' then 0 else leaf s va')"
  using map_laws [OF assms(1,2)] unmap_laws [of s1 va s2] assms(3) by auto

lemma map_commute:
  assumes "ok s" and "\<not> same_vpage va vb"
    and "map_pg va pa fa s = Inr ((), s1)" and "map_pg vb pb fb s1 = Inr ((), s2)"
    and "map_pg vb pb fb s = Inr ((), t1)" and "map_pg va pa fa t1 = Inr ((), t2)"
  shows "leaf s2 v = leaf t2 v"
  using map_laws [OF assms(1,3)] map_laws [OF _ assms(4)] map_laws [OF assms(1,5)]
    map_laws [OF _ assms(6)] assms(2) by (auto simp: same_vpage_def)

text \<open>Mapping a range page by page.\<close>

lemma map_range:
  assumes ok0: "ok s" and va: "page_aligned va"
    and len: "page_aligned len" and fit: "unat va + unat len \<le> 0x8000000000"
    and run: "for_pages (\<lambda>off. off < len) (\<lambda>off s. map_pg (va + off) (pa + off) flags s) 0 s =
      Inr ((), s')"
  shows "ok s' \<and> step s s' \<and> (\<forall>v. v < 0x8000000000 \<longrightarrow> leaf s' v =
    (if in_range va len v then PA2PTE (pa + page_base (v - va)) OR flags OR PTE_V else leaf s v))"
proof -
  let ?I = "\<lambda>off t. ok t \<and> step s t \<and> page_aligned off \<and> off \<le> len \<and>
    (\<forall>v. v < 0x8000000000 \<longrightarrow> leaf t v =
      (if in_range va off v then PA2PTE (pa + page_base (v - va)) OR flags OR PTE_V else leaf s v))"
  have "\<exists>b. \<not> b < len \<and> ?I b s'"
  proof (rule for_pages_rule [OF _ run])
    show "?I 0 s" using ok0 by (simp add: step_refl page_aligned_def in_range_def)
  next
    fix off t u
    assume lt: "off < len" and I: "?I off t"
      and run1: "map_pg (va + off) (pa + off) flags t = Inr ((), u)"
    have m: "ok u" "step t u" "leaf u v = (if same_vpage (va + off) v
        then PA2PTE (pa + off) OR flags OR PTE_V else leaf t v)" for v
      using map_laws [OF _ run1] I by auto
    have al: "page_aligned off" using I by blast
    note r = range_step [OF va al lt len fit]
    show "?I (off + 4096) u"
      using I m r step_trans by auto
  qed
  then obtain b where "\<not> b < len" "?I b s'" by blast
  then have "b = len" by simp
  with \<open>?I b s'\<close> show ?thesis by blast
qed

end

interpretation kvm: address_space "map_page L root" "unmap_page root"
  "\<lambda>s. pt_leaf (mem s) root" "vm_ok L root" "vm_step L root"
  by unfold_locales (fact map_page_spec unmap_page_spec vm_step_refl vm_step_trans)+

end
