(* ===== verification/Vm_Ops.thy ===== *)
theory Vm_Ops
  imports Page_Map
begin

text \<open>
  The operations on an address space beyond a single update: a fresh root, the pages a
  mapping needs and when it is certain to return, the two walkers \<^verbatim>\<open>walk\<close> and
  \<^verbatim>\<open>walkaddr\<close> against the leaf map, writes to data pages, and the switch of \<^verbatim>\<open>satp\<close>.
\<close>

section \<open>A fresh root\<close>

lemma table_of_zero:
  assumes "\<And>i. i < 512 \<Longrightarrow> pte_read m r i = 0" and "index_path ip"
  shows "table_of m r ip = (if ip = [] then Some r else None)"
  using assms by (cases ip) (auto simp: index_path_def table_of.simps(2))

lemma alloc_root:
  assumes "pool_ok L s" and "alloc_pages L 1 s = Inr (r, s')"
  shows "vm_ok L r s'" and "tables (mem s') r = {r}" and "pt_leaf (mem s') r va = 0"
proof -
  note a = alloc_one_spec [OF assms]
  have zero: "pte_read (mem s') r i = 0" if "i < 512" for i
    using a(4,6) that by (simp add: pte_read_memset)
  note t0 = table_of_zero [OF zero]
  show "tables (mem s') r = {r}"
    using t0 by (auto simp: tables_def intro: exI [of _ "[]"] split: if_splits)
  have "tree_ok (owned L s') (mem s') r"
    using t0 a(3) zero by (auto simp: tree_ok_def link_entry_def index_path_def split: if_splits)
  with a(1) show "vm_ok L r s'" by (simp add: vm_ok_def)
  show "pt_leaf (mem s') r va = 0" using t0 [of "va_path va"] by (simp add: pt_leaf_def va_path_def)
qed

section \<open>Data pages\<close>

text \<open>Writing to owned pages that are no tables leaves every translation as it is.\<close>

lemma data_write:
  assumes "vm_ok L root s" and "same_outside P (mem s) m"
    and "P \<subseteq> owned L s" and "tables (mem s) root \<inter> P = {}"
  shows "vm_ok L root (s\<lparr>mem := m\<rparr>)" and "tables m root = tables (mem s) root"
    and "pt_leaf m root va = pt_leaf (mem s) root va"
proof -
  note ok = vm_okD [OF assms(1)]
  note w = kpages.put_inv [OF ok(1) assms(2,3)] kpages.put_owns [OF ok(1) assms(2,3)]
  show "vm_ok L root (s\<lparr>mem := m\<rparr>)"
    using w tree_ok_outside(1) [OF ok(2) assms(2,4) ok(3) order_refl] by (simp add: vm_ok_def)
  show "tables m root = tables (mem s) root"
    using tree_ok_outside(2) [OF ok(2) assms(2,4) ok(3) order_refl] .
  show "pt_leaf m root va = pt_leaf (mem s) root va"
    using pt_leaf_outside [OF ok(2) assms(2,4) ok(3)] .
qed

text \<open>A page allocated for data is no table, and no translation changes.\<close>

lemma alloc_data:
  assumes "vm_ok L root s" and "alloc_pages L 1 s = Inr (p, s')"
  shows "vm_ok L root s'" and "tables (mem s') root = tables (mem s) root"
    and "pt_leaf (mem s') root va = pt_leaf (mem s) root va"
    and "p \<notin> tables (mem s') root"
proof -
  note ok = vm_okD [OF assms(1)]
  note a = alloc_one_spec [OF ok(1) assms(2)]
  have out: "same_outside {p} (mem s) (mem s')" using kpages.alloc_outside [OF ok(1) assms(2)] .
  have sub: "tables (mem s) root \<subseteq> owned L s" using tables_subset [OF ok(2)] .
  then have dis: "tables (mem s) root \<inter> {p} = {}" using a(2) by blast
  have grow: "owned L s \<subseteq> owned L s'" using a(3) by blast
  note t = tree_ok_outside [OF ok(2) out dis ok(3) grow]
  show "vm_ok L root s'" using a(1) t(1) by (simp add: vm_ok_def)
  show "tables (mem s') root = tables (mem s) root" by (fact t(2))
  then show "p \<notin> tables (mem s') root" using dis by blast
  show "pt_leaf (mem s') root va = pt_leaf (mem s) root va"
    using pt_leaf_outside [OF ok(2) out dis ok(3)] .
qed

section \<open>When a mapping returns\<close>

lemma avail_update [simp]:
  "avail L (s\<lparr>mem := m\<rparr>) = avail L s"
  "avail L (pte_write t i e s) = avail L s"
  by (simp_all add: avail_def pte_write_def)

text \<open>A level needs at most one page.\<close>

lemma map_level_returns:
  assumes "vm_ok L root s" and "0 < avail L s"
  obtains u s' where "map_level L t i s = Inr (u, s')" and "avail L s \<le> Suc (avail L s')"
proof (cases "pte_read (mem s) t i AND PTE_V = 0")
  case False
  then show thesis using that by (simp add: map_level_def)
next
  case True
  obtain q s1 where q: "alloc_pages L 1 s = Inr (q, s1)"
    using alloc_one_returns vm_okD(1) [OF assms(1)] assms(2) by blast
  then have "avail L s = Suc (avail L s1)"
    using alloc_one_avail vm_okD(1) [OF assms(1)] by blast
  with True q show thesis using that by (simp add: map_level_def Let_def)
qed

lemma map_page_returns:
  assumes ok: "vm_ok L root s" and al: "page_aligned va" "page_aligned pa"
    and room: "2 \<le> avail L s"
  obtains s' where "map_page L root va pa flags s = Inr ((), s')" and "avail L s \<le> avail L s' + 2"
proof -
  obtain t1 s1 where l2: "map_level L root (PX 2 va) s = Inr (t1, s1)"
    and a1: "avail L s \<le> Suc (avail L s1)"
  proof (rule map_level_returns [OF ok])
    show "0 < avail L s" using room by simp
  qed blast
  have ok1: "vm_ok L root s1"
    using map_level_spec [OF ok, of "[]" "PX 2 va" root t1 s1] l2 by simp
  obtain t0 s2 where l1: "map_level L t1 (PX 1 va) s1 = Inr (t0, s2)"
    and a2: "avail L s1 \<le> Suc (avail L s2)"
  proof (rule map_level_returns [OF ok1])
    show "0 < avail L s1" using room a1 by simp
  qed blast
  show thesis
    using that l2 l1 a1 a2 al
    by (simp add: map_page_def page_aligned_def Let_def vpn_PX)
qed

lemma unmap_page_returns: "page_aligned va \<Longrightarrow> \<exists>s'. unmap_page root va s = Inr ((), s')"
  by (simp add: unmap_page_def page_aligned_def Let_def)

lemma unmap_page_owned:
  assumes ok: "vm_ok L root s" and run: "unmap_page root va s = Inr ((), s')"
  shows "owned L s' = owned L s"
proof (cases "table_of (mem s) root (va_path va)")
  case None
  then show ?thesis
    using run by (auto simp: unmap_page_def Let_def vpn_PX va_path_def table_of.simps(2)
      split: if_splits)
next
  case (Some t)
  then have "s' = pte_write t (PX 0 va) 0 s"
    using run by (auto simp: unmap_page_def Let_def vpn_PX va_path_def table_of.simps(2)
      split: if_splits)
  moreover have "t \<in> owned L s" using tree_ok_owned [OF vm_okD(2) [OF ok] _ Some] by simp
  ultimately show ?thesis using pte_write_pool(2) [OF vm_okD(1) [OF ok]] by simp
qed

section \<open>\<^verbatim>\<open>walk\<close>\<close>

lemma walk_read:
  assumes "vm_ok L root s" and "va < MAXVA"
  shows "walk L root va False s = kret
    (case table_of (mem s) root (va_path va) of None \<Rightarrow> 0 | Some t \<Rightarrow> pte_addr t (PX 0 va)) s"
  using assms(2)
  by (simp add: walk_def not_le [symmetric] numeral_2_eq_2 va_path_def table_of.simps(2) Let_def)

text \<open>With allocation, each level of \<^verbatim>\<open>walk\<close> is the level of \<^verbatim>\<open>map_page\<close>.\<close>

lemma walk_level_alloc:
  assumes ok: "vm_ok L root s" and at: "index_path (ip @ [PX (Suc l) va])"
    and t: "table_of (mem s) root ip = Some t"
  shows "walk_levels L t va True (Suc l) s =
    kbind (map_level L t (PX (Suc l) va) s) (\<lambda>t s. walk_levels L t va True l s)"
proof (cases "pte_read (mem s) t (PX (Suc l) va) AND PTE_V = 0")
  case False
  then show ?thesis by (simp add: map_level_def Let_def)
next
  case True
  note ok3 = vm_okD [OF ok]
  have ip: "index_path ip" using at by (rule index_path_prefix)
  have "page_aligned t" using tree_ok_owned [OF ok3(2) ip t] ok3(3) by blast
  moreover have "page_aligned q" if "alloc_pages L 1 s = Inr (q, s1)" for q s1
    using alloc_one_spec(4) [OF ok3(1) that] .
  ultimately show ?thesis
    using True by (cases "alloc_pages L 1 s")
      (auto simp: map_level_def Let_def pte_write_def pte_read_write PTE2PA_PA2PTE)
qed

lemma map_level_ok:
  assumes "vm_ok L root s" and "index_path (ip @ [i])" and "table_of (mem s) root ip = Some t"
    and "map_level L t i s = Inr (u, s')"
  shows "vm_ok L root s'" and "table_of (mem s') root (ip @ [i]) = Some u"
  using map_level_spec [OF assms] by simp_all

lemma kbind_cong_run:
  assumes "m = m'" and "\<And>x s. m' = Inr (x, s) \<Longrightarrow> f x s = g x s"
  shows "kbind m f = kbind m' g"
  using assms by (auto simp: kbind_def split: sum.split)

lemma walk_alloc:
  assumes ok: "vm_ok L root s" and va: "va < MAXVA"
  shows "walk L root va True s =
    kbind (map_level L root (PX 2 va) s) (\<lambda>t s. kbind (map_level L t (PX 1 va) s)
      (\<lambda>t s. kret (pte_addr t (PX 0 va)) s))"
proof -
  have l2: "walk L root va True s =
      kbind (map_level L root (PX 2 va) s) (\<lambda>t s. walk_levels L t va True 1 s)"
  proof -
    have "index_path ([] @ [PX (Suc (Suc 0)) va])" by simp
    from walk_level_alloc [OF ok this, of root] show ?thesis
      using va by (simp add: walk_def numeral_2_eq_2 not_le [THEN iffD2] del: walk_levels.simps)
  qed
  have l1: "walk_levels L t va True 1 s1 =
      kbind (map_level L t (PX 1 va) s1) (\<lambda>t s. kret (pte_addr t (PX 0 va)) s)"
    if "map_level L root (PX 2 va) s = Inr (t, s1)" for t s1
  proof -
    have r: "vm_ok L root s1" "table_of (mem s1) root [PX 2 va] = Some t"
      using map_level_ok [OF ok, of "[]" "PX 2 va" root t s1] that by simp_all
    show ?thesis
      using walk_level_alloc [OF r(1), of "[PX 2 va]" 0 va t] r(2) by simp
  qed
  show ?thesis unfolding l2 by (rule kbind_cong_run [OF refl]) (rule l1)
qed

section \<open>\<^verbatim>\<open>walkaddr\<close>\<close>

text \<open>The physical address the leaf map gives a user address, 0 when there is none.\<close>

definition user_pa :: "linker_syms \<Rightarrow> mem \<Rightarrow> u64 \<Rightarrow> u64 \<Rightarrow> u64" where
  "user_pa L m root va =
     (let e = pt_leaf m root va in
      if kernel_base L \<le> va \<or> e AND PTE_V = 0 \<or> e AND (PTE_R OR PTE_W OR PTE_X) = 0 then 0
      else PTE2PA e + (va AND 0xFFF))"

lemma kernel_base_MAXVA:
  assumes "layout_ok L"
  shows "kernel_base L \<le> MAXVA"
  using assms by (simp add: layout_ok_def MAXVA_def word_le_nat_alt word_less_nat_alt)

lemma walkaddr_user_pa:
  assumes "vm_ok L root s"
  shows "walkaddr L root va s = kret (user_pa L (mem s) root va) s"
proof (cases "kernel_base L \<le> va")
  case True
  then show ?thesis by (simp add: walkaddr_def user_pa_def)
next
  case False
  note ok = vm_okD [OF assms]
  have "layout_ok L" using ok(1) by (auto simp: pool_ok_def pool_inv_def)
  then have va: "va < MAXVA" using False kernel_base_MAXVA by (meson leI order_less_le_trans)
  show ?thesis
  proof (cases "table_of (mem s) root (va_path va)")
    case None
    then show ?thesis using False walk_read [OF assms va]
      by (simp add: walkaddr_def user_pa_def pt_leaf_def)
  next
    case (Some t)
    have t: "t \<in> owned L s" using tree_ok_owned [OF ok(2) _ Some] by simp
    have "unat (pte_addr t (PX 0 va)) = unat t + 8 * unat (PX 0 va)"
      using t ok(3) by (intro unat_pte_addr) simp_all
    moreover have "t \<noteq> 0" using owned_props(2) [OF ok(1) t] .
    ultimately have "pte_addr t (PX 0 va) \<noteq> 0" by (auto simp: word_unat_eq_iff)
    then show ?thesis using Some False walk_read [OF assms va]
      by (simp add: walkaddr_def user_pa_def pt_leaf_def pte_read_def Let_def)
  qed
qed

lemma flags_V_small:
  assumes "f < (1024 :: u64)"
  shows "f OR PTE_V < 1024"
proof -
  have "take_bit 10 (f OR PTE_V) = f OR PTE_V"
    using less_1024_bits [OF assms]
    by (intro bit_word_eqI) (auto simp: bit_simps not_less intro: leI)
  then have "(f OR PTE_V) mod 1024 = f OR PTE_V" by (simp add: take_bit_eq_mod)
  moreover have "(f OR PTE_V) mod 1024 < 1024" by (rule word_mod_less_divisor) simp
  ultimately show ?thesis by simp
qed

lemma rwx_set:
  assumes "f AND m \<noteq> (0 :: u64)"
  shows "(e OR (f OR PTE_V)) AND m \<noteq> 0"
proof
  assume "(e OR (f OR PTE_V)) AND m = 0"
  then have "\<not> bit ((e OR (f OR PTE_V)) AND m) n" for n by simp
  then have "\<not> bit (f AND m) n" for n by (auto simp: bit_simps)
  then have "f AND m = 0" by (intro bit_word_eqI) simp
  with assms show False by simp
qed

lemma V_set: "(e OR (f OR PTE_V)) AND PTE_V \<noteq> 0"
  unfolding or.assoc [symmetric] by (rule PTE_V_set)

section \<open>The active page table\<close>

definition set_active_pagetable :: "u64 \<Rightarrow> kstate \<Rightarrow> kstate" where
  "set_active_pagetable new_pagetable s = s\<lparr>csr_satp := MAKE_SATP new_pagetable\<rparr>"

definition switch_pagetable :: "u64 \<Rightarrow> kstate \<Rightarrow> u64 \<times> kstate" where
  "switch_pagetable new_pagetable s = (csr_satp s, s\<lparr>csr_satp := MAKE_SATP new_pagetable\<rparr>)"

definition restore_pagetable :: "u64 \<Rightarrow> kstate \<Rightarrow> kstate" where
  "restore_pagetable old_satp s = s\<lparr>csr_satp := old_satp\<rparr>"

text \<open>The root a \<^verbatim>\<open>satp\<close> value selects, as \<^verbatim>\<open>debug_pagetable\<close> reads it back.\<close>

definition satp_root :: "u64 \<Rightarrow> u64" where
  "satp_root satp = push_bit 12 (take_bit 44 satp)"

lemma satp_root_MAKE_SATP:
  assumes "page_aligned p" and "p < 0x100000000000000"
  shows "satp_root (MAKE_SATP p) = p"
proof (rule bit_word_eqI)
  fix n assume n: "n < LENGTH(64)"
  have "take_bit 56 p = p"
    using assms(2) by (simp add: take_bit_eq_mod word_less_nat_alt word_unat_eq_iff unat_mod)
  then have hi: "\<not> bit p n" if "56 \<le> n" using that by (metis bit_take_bit_iff not_le)
  have m44: "drop_bit 12 p AND 0xFFFFFFFFFFF = take_bit 44 (drop_bit 12 p)"
    by (simp add: take_bit_eq_mask mask_eq_exp_minus_1)
  show "bit (satp_root (MAKE_SATP p)) n = bit p n"
    using page_aligned_low_bits [OF assms(1), of n] hi n
    unfolding satp_root_def MAKE_SATP_def m44
    by (cases "n < 12"; cases "n < 56") (auto simp: bit_simps)
qed

section \<open>Properties\<close>

text \<open>A page table just made at boot, for the witnesses.\<close>

lemma boot_root:
  obtains r s where "alloc_pages kernel_map 1 (boot_state kernel_map) = Inr (r, s)"
    and "vm_ok kernel_map r s" and "avail kernel_map s = 16383"
    and "\<And>va. pt_leaf (mem s) r va = 0"
proof -
  obtain r s where run: "alloc_pages kernel_map 1 (boot_state kernel_map) = Inr (r, s)"
    by (rule boot_alloc)
  show thesis
    using that [OF run] alloc_root [OF boot_pool run] alloc_one_avail [OF boot_pool run]
    by (simp add: boot_avail)
qed

lemma boot_map:
  obtains r s s' where "vm_ok kernel_map r s" and "\<And>va. pt_leaf (mem s) r va = 0"
    and "map_page kernel_map r 0x1000000 0x804cd000 0x12 s = Inr ((), s')"
    and "avail kernel_map s = 16383"
proof -
  obtain r s where b: "vm_ok kernel_map r s" "\<And>va. pt_leaf (mem s) r va = 0"
    "avail kernel_map s = 16383" by (rule boot_root) blast
  have "page_aligned 0x1000000" "page_aligned 0x804cd000" by (simp_all add: page_aligned_def)
  then obtain s' where "map_page kernel_map r 0x1000000 0x804cd000 0x12 s = Inr ((), s')"
    by (rule map_page_returns [OF b(1)]) (use b(3) in simp)
  with b that show thesis by blast
qed

text \<open>
  C3: \<open>map_page\<close> refines the update of one virtual page: the page tables stay a tree of
  owned pages, the leaf entry of the page of \<open>va\<close> becomes the one asked for, every other
  virtual page keeps its entry, only tables of this tree are written, and the pages taken
  from the pool are tables of the tree.
\<close>

theorem map_page_refines:
  assumes "vm_ok L root s" and "map_page L root va pa flags s = Inr ((), s')"
  shows "vm_ok L root s' \<and>
    (\<forall>va'. pt_leaf (mem s') root va' =
      (if same_vpage va va' then PA2PTE pa OR flags OR PTE_V else pt_leaf (mem s) root va')) \<and>
    owned L s' = owned L s \<union> tables (mem s') root \<and>
    same_outside (tables (mem s') root) (mem s) (mem s') \<and> proc_view s' = proc_view s"
proof -
  note m = map_page_spec [OF assms]
  have sub: "tables (mem s') root \<subseteq> owned L s'"
    using m tables_subset by (auto simp: vm_ok_def)
  with m have "owned L s' = owned L s \<union> tables (mem s') root"
    unfolding vm_step_def by blast
  with m show ?thesis unfolding vm_step_def by auto
qed

theorem map_page_refines_witness:
  "\<exists>r s s'. map_page kernel_map r 0x1000000 0x804cd000 0x12 s = Inr ((), s') \<and>
     pt_leaf (mem s') r 0x1000abc = PA2PTE 0x804cd000 OR 0x12 OR PTE_V \<and>
     pt_leaf (mem s') r 0x1001000 = 0"
proof -
  obtain r s s' where b: "vm_ok kernel_map r s" "\<And>va. pt_leaf (mem s) r va = 0"
    "map_page kernel_map r 0x1000000 0x804cd000 0x12 s = Inr ((), s')"
    by (rule boot_map) blast
  have "same_vpage 0x1000000 0x1000abc" and "\<not> same_vpage 0x1000000 0x1001000"
    by (simp_all add: same_vpage_iff page_base_def)
  then show ?thesis
    using map_page_refines [OF b(1,3), THEN conjunct2, THEN conjunct1, THEN spec, of "0x1000abc"]
      map_page_refines [OF b(1,3), THEN conjunct2, THEN conjunct1, THEN spec, of "0x1001000"] b(2)
    by (intro exI conjI, rule_tac [1] b(3)) simp_all
qed

text \<open>
  \<open>map_page\<close> of aligned addresses returns whenever two pages are left, and takes at
  most two; an unaligned address is refused before anything is written.
\<close>

theorem map_page_total:
  assumes "vm_ok L root s"
  shows "(page_aligned va \<and> page_aligned pa \<and> 2 \<le> avail L s \<longrightarrow>
      (\<exists>s'. map_page L root va pa flags s = Inr ((), s') \<and> avail L s \<le> avail L s' + 2)) \<and>
    (\<not> page_aligned va \<longrightarrow> map_page L root va pa flags s = kpanic (Unaligned_va va)) \<and>
    (page_aligned va \<longrightarrow> \<not> page_aligned pa \<longrightarrow>
      map_page L root va pa flags s = kpanic (Unaligned_pa pa))"
proof (intro conjI impI)
  assume "page_aligned va \<and> page_aligned pa \<and> 2 \<le> avail L s"
  then show "\<exists>s'. map_page L root va pa flags s = Inr ((), s') \<and> avail L s \<le> avail L s' + 2"
    using map_page_returns [OF assms, of va pa flags] by blast
qed (simp_all add: map_page_def page_aligned_def)

theorem map_page_total_witness:
  "\<exists>r s s'. map_page kernel_map r 0x1000000 0x804cd000 7 s = Inr ((), s') \<and>
     map_page kernel_map r 0x1000001 0x804cd000 7 s = kpanic (Unaligned_va 0x1000001)"
proof -
  obtain r s where b: "vm_ok kernel_map r s" "avail kernel_map s = 16383" by (rule boot_root) blast
  have "page_aligned 0x1000000" "page_aligned 0x804cd000" "\<not> page_aligned 0x1000001"
    by (simp_all add: page_aligned_def)
  then show ?thesis
    using map_page_total [OF b(1), of "0x1000000" "0x804cd000" 7]
      map_page_total [OF b(1), of "0x1000001" "0x804cd000" 7] b(2) by auto
qed

text \<open>
  \<open>unmap_page\<close> clears the entry of the page of \<open>va\<close> and no other, allocates
  nothing, keeps the tree, and undoes a mapping of a page that was not mapped before.
\<close>

theorem unmap_page_refines:
  assumes "vm_ok L root s" and "unmap_page root va s = Inr ((), s')"
  shows "vm_ok L root s' \<and> owned L s' = owned L s \<and>
    (\<forall>va'. pt_leaf (mem s') root va' =
      (if same_vpage va va' then 0 else pt_leaf (mem s) root va')) \<and>
    walk_page (mem s') root va = 0"
proof -
  note u = unmap_page_spec [OF assms]
  have "pt_leaf (mem s') root va = 0" using u by (simp add: same_vpage_def)
  then have "walk_page (mem s') root va = 0" by (simp add: walk_page_leaf)
  then show ?thesis using u unmap_page_owned [OF assms] by simp
qed

theorem unmap_page_refines_witness:
  "\<exists>r s s' s''. map_page kernel_map r 0x1000000 0x804cd000 0x12 s = Inr ((), s') \<and>
     unmap_page r 0x1000000 s' = Inr ((), s'') \<and> walk_page (mem s'') r 0x1000000 = 0"
proof -
  obtain r s s' where b: "vm_ok kernel_map r s"
    "map_page kernel_map r 0x1000000 0x804cd000 0x12 s = Inr ((), s')"
    by (rule boot_map) blast
  have ok: "vm_ok kernel_map r s'" using map_page_spec [OF b] by simp
  obtain s'' where run: "unmap_page r 0x1000000 s' = Inr ((), s'')"
    using unmap_page_returns [of "0x1000000" r s'] by (auto simp: page_aligned_def)
  show ?thesis using unmap_page_refines [OF ok run] run b(2) by blast
qed

text \<open>
  \<open>map_mmio_range\<close> maps exactly the virtual pages of its range, each to the physical
  page at the same offset and with the permissions asked for, and changes no other
  translation below the 39-bit bound.
\<close>

theorem map_mmio_range_refines:
  assumes "vm_ok L root s" and "page_aligned va_start" and "page_aligned len"
    and "unat va_start + unat len \<le> 0x8000000000"
    and "map_mmio_range L root pa_start va_start len perm s = Inr ((), s')"
  shows "vm_ok L root s' \<and> (\<forall>v. v < 0x8000000000 \<longrightarrow> pt_leaf (mem s') root v =
    (if in_range va_start len v then PA2PTE (pa_start + page_base (v - va_start)) OR perm OR PTE_V
     else pt_leaf (mem s) root v))"
  using kvm.map_range [OF assms(1-4), of pa_start perm s'] assms(5)
  by (simp add: map_mmio_range_def)

theorem map_mmio_range_refines_witness:
  "\<exists>r s s'. map_mmio_range kernel_map r 0x10001000 0x10001000 0x1000 7 s = Inr ((), s') \<and>
     pt_leaf (mem s') r 0x10001004 = PA2PTE 0x10001000 OR 7 OR PTE_V \<and>
     pt_leaf (mem s') r 0x10002000 = 0"
proof -
  obtain r s where b: "vm_ok kernel_map r s" "\<And>va. pt_leaf (mem s) r va = 0"
    "avail kernel_map s = 16383" by (rule boot_root) blast
  have al: "page_aligned 0x10001000" "page_aligned 0x1000" by (simp_all add: page_aligned_def)
  obtain s' where m: "map_page kernel_map r 0x10001000 0x10001000 7 s = Inr ((), s')"
    using map_page_returns [OF b(1) al(1) al(1), of 7] b(3) by auto
  then have run: "map_mmio_range kernel_map r 0x10001000 0x10001000 0x1000 7 s = Inr ((), s')"
    by (simp add: map_mmio_range_def for_pages.simps)
  have "unat (0x10001000 :: u64) + unat (0x1000 :: u64) \<le> 0x8000000000" by simp
  note r = map_mmio_range_refines [OF b(1) al this run]
  have "in_range 0x10001000 0x1000 0x10001004" and "\<not> in_range 0x10001000 0x1000 0x10002000"
    by (simp_all add: in_range_def)
  then show ?thesis
    using r [THEN conjunct2, THEN spec, of "0x10001004"] r [THEN conjunct2, THEN spec, of "0x10002000"] b(2)
    by (intro exI conjI, rule_tac [1] run) (simp_all add: page_base_def)
qed

text \<open>
  \<open>map_page\<close> is \<open>walk\<close> with allocation followed by one store: for aligned addresses
  below \<^verbatim>\<open>MAXVA\<close> the two routines build the same tables, return the same state and stop
  in the same panics.
\<close>

theorem map_page_walk:
  assumes "vm_ok L root s" and "va < MAXVA" and "page_aligned va" and "page_aligned pa"
  shows "map_page L root va pa flags s = kbind (walk L root va True s)
    (\<lambda>pte s. kret () (s\<lparr>mem := store64 (mem s) pte (PA2PTE pa OR flags OR PTE_V)\<rparr>))"
  using assms(3,4)
  by (simp add: walk_alloc [OF assms(1,2)] map_page_def page_aligned_def Let_def vpn_PX
      kbind_assoc pte_write_def)

theorem map_page_walk_witness:
  "\<exists>r s s'. map_page kernel_map r 0x1000000 0x804cd000 0x12 s = Inr ((), s') \<and>
     kbind (walk kernel_map r 0x1000000 True s)
       (\<lambda>pte s. kret () (s\<lparr>mem := store64 (mem s) pte
          (PA2PTE 0x804cd000 OR 0x12 OR PTE_V)\<rparr>)) = Inr ((), s')"
proof -
  obtain r s s' where b: "vm_ok kernel_map r s"
    "map_page kernel_map r 0x1000000 0x804cd000 0x12 s = Inr ((), s')"
    by (rule boot_map) blast
  have "0x1000000 < MAXVA" "page_aligned 0x1000000" "page_aligned 0x804cd000"
    by (simp_all add: MAXVA_def page_aligned_def)
  note eq = map_page_walk [OF b(1) this, of "0x12"]
  show ?thesis by (intro exI conjI) (rule b(2), unfold eq [symmetric], rule b(2))
qed

text \<open>
  \<open>walkaddr\<close> never changes the state, never leaves the leaf map, and rejects kernel
  addresses, missing entries and entries without permissions with 0; after \<open>map_page\<close> of
  a user page with some permission it translates each address of that page to the same
  offset of the physical page.
\<close>

theorem walkaddr_correct:
  assumes "vm_ok L root s"
  shows "walkaddr L root va s = kret (user_pa L (mem s) root va) s \<and>
    (\<forall>base pa flags s'. map_page L root base pa flags s = Inr ((), s') \<longrightarrow> same_vpage base va \<longrightarrow>
      va < kernel_base L \<longrightarrow> flags < 1024 \<longrightarrow> flags AND (PTE_R OR PTE_W OR PTE_X) \<noteq> 0 \<longrightarrow>
      walkaddr L root va s' = kret (pa + (va AND 0xFFF)) s')"
proof (intro conjI allI impI)
  show "walkaddr L root va s = kret (user_pa L (mem s) root va) s"
    by (rule walkaddr_user_pa [OF assms])
next
  fix base pa flags s'
  assume run: "map_page L root base pa flags s = Inr ((), s')" and same: "same_vpage base va"
    and va: "va < kernel_base L" and f: "flags < 1024" "flags AND (PTE_R OR PTE_W OR PTE_X) \<noteq> 0"
  note m = map_page_spec [OF assms run]
  have leaf: "pt_leaf (mem s') root va = PA2PTE pa OR (flags OR PTE_V)"
    using m same by (simp add: or.assoc)
  have pa: "page_aligned pa"
    using run by (auto simp: map_page_def page_aligned_def split: if_splits)
  have "walkaddr L root va s' = kret (user_pa L (mem s') root va) s'"
    using m walkaddr_user_pa by blast
  moreover have "user_pa L (mem s') root va = pa + (va AND 0xFFF)"
    unfolding user_pa_def leaf Let_def
    using va [THEN less_le_not_le [THEN iffD1]] PTE2PA_PA2PTE [OF pa flags_V_small [OF f(1)]] rwx_set [OF f(2)] V_set
    by simp
  ultimately show "walkaddr L root va s' = kret (pa + (va AND 0xFFF)) s'" by simp
qed

theorem walkaddr_correct_witness:
  "\<exists>r s s'. map_page kernel_map r 0x1000000 0x804cd000 0x12 s = Inr ((), s') \<and>
     walkaddr kernel_map r 0x1000abc s' = kret 0x804cdabc s' \<and>
     walkaddr kernel_map r 0x80200000 s = kret 0 s"
proof -
  obtain r s s' where b: "vm_ok kernel_map r s"
    "map_page kernel_map r 0x1000000 0x804cd000 0x12 s = Inr ((), s')"
    by (rule boot_map) blast
  note w = walkaddr_correct [OF b(1)]
  have "same_vpage 0x1000000 0x1000abc" by (simp add: same_vpage_iff page_base_def)
  then have "walkaddr kernel_map r 0x1000abc s' = kret (0x804cd000 + (0x1000abc AND 0xFFF)) s'"
    using w [THEN conjunct2, rule_format, OF b(2)] by (simp add: kernel_map_def)
  moreover have "walkaddr kernel_map r 0x80200000 s = kret 0 s"
    using w [THEN conjunct1, of "0x80200000"] by (simp add: user_pa_def kernel_map_def)
  ultimately show ?thesis using b(2) by (intro exI conjI) simp_all
qed

end
