(* ===== verification/Csr.thy ===== *)
theory Csr
  imports Kernel_State
begin

text \<open>
  The control and status registers: \<^verbatim>\<open>kernel/riscv.c\<close> and the \<^verbatim>\<open>SUM\<close> switch of
  \<^verbatim>\<open>kernel/syscall.c\<close>. Bit 1 of \<^verbatim>\<open>sstatus\<close> is SIE, bit 5 SPIE, bit 8 SPP, bit 18 SUM;
  bit 5 of \<^verbatim>\<open>sie\<close> is STIE. \<^verbatim>\<open>get_time\<close> of \<^verbatim>\<open>kernel/time.c\<close> reads \<^verbatim>\<open>time\<close>.
\<close>

definition disable_interrupts :: "kstate \<Rightarrow> kstate" where
  "disable_interrupts s = s\<lparr>csr_sstatus := csr_sstatus s AND NOT (push_bit 1 1)\<rparr>"

definition enable_interrupts :: "kstate \<Rightarrow> kstate" where
  "enable_interrupts s = s\<lparr>csr_sstatus := csr_sstatus s OR push_bit 1 1\<rparr>"

definition enable_supervisor_timer_interrupts :: "kstate \<Rightarrow> kstate" where
  "enable_supervisor_timer_interrupts s = s\<lparr>csr_sie := csr_sie s OR push_bit 5 1\<rparr>"

definition disable_supervisor_timer_interrupts :: "kstate \<Rightarrow> kstate" where
  "disable_supervisor_timer_interrupts s = s\<lparr>csr_sie := csr_sie s AND NOT (push_bit 5 1)\<rparr>"

definition SSTATUS_SUM :: u64 where
  "SSTATUS_SUM = push_bit 18 1"

definition enable_sum :: "kstate \<Rightarrow> kstate" where
  "enable_sum s = s\<lparr>csr_sstatus := csr_sstatus s OR SSTATUS_SUM\<rparr>"

definition disable_sum :: "kstate \<Rightarrow> kstate" where
  "disable_sum s = s\<lparr>csr_sstatus := csr_sstatus s AND NOT SSTATUS_SUM\<rparr>"

definition get_time :: "kstate \<Rightarrow> u64" where
  "get_time s = csr_time s"

section \<open>What they change\<close>

definition sum_bit :: "kstate \<Rightarrow> bool" where
  "sum_bit s \<longleftrightarrow> bit (csr_sstatus s) 18"

lemma sum_simps [simp]:
  "sum_bit (enable_sum s)"
  "\<not> sum_bit (disable_sum s)"
  by (simp_all add: sum_bit_def enable_sum_def disable_sum_def SSTATUS_SUM_def bit_simps
      del: push_bit_numeral push_bit_of_1)

lemma csr_frame [simp]:
  "mem (enable_sum s) = mem s" "mem (disable_sum s) = mem s"
  "procs (enable_sum s) = procs s" "procs (disable_sum s) = procs s"
  "current_proc (enable_sum s) = current_proc s" "current_proc (disable_sum s) = current_proc s"
  "csr_satp (enable_sum s) = csr_satp s" "csr_satp (disable_sum s) = csr_satp s"
  "uart_out (enable_sum s) = uart_out s" "uart_out (disable_sum s) = uart_out s"
  by (simp_all add: enable_sum_def disable_sum_def)

text \<open>Disabling after enabling restores \<^verbatim>\<open>sstatus\<close> when the bit was clear.\<close>

lemma disable_enable_sum:
  assumes "\<not> sum_bit s"
  shows "disable_sum (enable_sum s) = s"
proof -
  have "(csr_sstatus s OR SSTATUS_SUM) AND NOT SSTATUS_SUM = csr_sstatus s"
    using assms by (intro bit_word_eqI)
      (auto simp: sum_bit_def SSTATUS_SUM_def bit_simps simp del: push_bit_numeral push_bit_of_1)
  then show ?thesis by (simp add: enable_sum_def disable_sum_def)
qed

end
