(* ===== verification/Tracker_Sweep.thy ===== *)
theory Tracker_Sweep
  imports Page_Alloc Csr
begin

text \<open>
  \<^verbatim>\<open>free_all_tracked_for_pid\<close> of \<^verbatim>\<open>kernel/alloc-tracker.c\<close>, the sweep that gives back
  what a dead process still owns, on top of the page allocator. The listings
  \<^verbatim>\<open>dump_allocs\<close> and \<^verbatim>\<open>dump_allocs_for_pid\<close> only print.
\<close>

section \<open>The code\<close>

text \<open>The body of the loop for entry \<open>i\<close>.\<close>

definition sweep_entry :: "int \<Rightarrow> nat \<Rightarrow> kstate \<Rightarrow> kstate" where
  "sweep_entry pid i s =
     (let e = alloc_table s ! i in
      if \<not> at_used e then s
      else if at_owner e \<noteq> pid then s
      else
        (let s = fold (\<lambda>p s. free_page (at_pa e + of_nat p * 4096) s) [0..<unat (at_npages e)] s
         in s\<lparr>alloc_table := (alloc_table s)[i := free_entry],
              alloc_table_count := alloc_table_count s - 1\<rparr>))"

definition free_all_tracked_for_pid :: "int \<Rightarrow> kstate \<Rightarrow> kstate" where
  "free_all_tracked_for_pid pid s =
     enable_interrupts
       (fold (sweep_entry pid) [0..<length (alloc_table s)] (disable_interrupts s))"

section \<open>The entries of a process\<close>

text \<open>
  \<open>tracked_pages\<close>: every entry in use stands for one page, owned, and no page has two
  entries. This is what single-page allocations leave behind.
\<close>

definition used_at :: "kstate \<Rightarrow> nat \<Rightarrow> bool" where
  "used_at s i \<longleftrightarrow> i < length (alloc_table s) \<and> at_used (alloc_table s ! i)"

definition tracked_pages :: "linker_syms \<Rightarrow> kstate \<Rightarrow> bool" where
  "tracked_pages L s \<longleftrightarrow>
     (\<forall>i. used_at s i \<longrightarrow> at_npages (alloc_table s ! i) = 1 \<and> at_pa (alloc_table s ! i) \<in> owned L s) \<and>
     (\<forall>i j. used_at s i \<longrightarrow> used_at s j \<longrightarrow>
        at_pa (alloc_table s ! i) = at_pa (alloc_table s ! j) \<longrightarrow> i = j)"

definition pid_pages :: "int \<Rightarrow> kstate \<Rightarrow> u64 set" where
  "pid_pages pid s =
     {at_pa (alloc_table s ! i) | i. used_at s i \<and> at_owner (alloc_table s ! i) = pid}"

lemma track_free_unique:
  assumes "tracked_pages L s" and "used_at s i"
  shows "track_free (at_pa (alloc_table s ! i)) 1 s =
    s\<lparr>alloc_table := (alloc_table s)[i := (alloc_table s ! i)\<lparr>at_used := False\<rparr>],
      alloc_table_count := alloc_table_count s - 1\<rparr>"
proof -
  let ?P = "\<lambda>e. at_used e \<and> at_pa e = at_pa (alloc_table s ! i) \<and> at_npages e = 1"
  have "?P (alloc_table s ! i)" "i < length (alloc_table s)"
    using assms by (auto simp: tracked_pages_def used_at_def)
  moreover have "\<not> ?P (alloc_table s ! j)" if "j < i" for j
  proof
    assume P: "?P (alloc_table s ! j)"
    with that \<open>i < length (alloc_table s)\<close> have "used_at s j" by (simp add: used_at_def)
    then have "j = i" using assms P unfolding tracked_pages_def by blast
    with that show False by simp
  qed
  ultimately have "first_index ?P (alloc_table s) = Some i"
    unfolding first_index_Some by blast
  then show ?thesis by (simp add: track_free_def)
qed

text \<open>One step of the sweep, on an entry of the process.\<close>

lemma sweep_hit:
  fixes pid :: int
  assumes ok: "pool_ok L s" and tp: "tracked_pages L s" and i: "used_at s i"
    and owner: "at_owner (alloc_table s ! i) = pid"
  defines "p \<equiv> at_pa (alloc_table s ! i)" and "s' \<equiv> sweep_entry pid i s"
  shows "pool_ok L s'" and "owned L s' = owned L s - {p}"
    and "alloc_table s' = (alloc_table s)[i := free_entry]"
    and "alloc_table_count s' = alloc_table_count s - 2"
    and "tracked_pages L s'" and "avail L s' = Suc (avail L s)"
    and "proc_view s' = proc_view s"
proof -
  let ?e = "alloc_table s ! i"
  have e: "at_used ?e" "at_npages ?e = 1" "i < length (alloc_table s)"
    using tp i by (auto simp: tracked_pages_def used_at_def)
  have p: "p \<in> owned L s" using tp i by (simp add: tracked_pages_def p_def)
  have tf: "track_free p 1 s =
      s\<lparr>alloc_table := (alloc_table s)[i := ?e\<lparr>at_used := False\<rparr>],
        alloc_table_count := alloc_table_count s - 1\<rparr>"
    unfolding p_def by (rule track_free_unique [OF tp i])
  have fp: "alloc_table (free_page p s) = (alloc_table s)[i := ?e\<lparr>at_used := False\<rparr>]"
    "alloc_table_count (free_page p s) = alloc_table_count s - 1"
    by (simp_all add: free_page_def Let_def tf)
  have s': "s' = (free_page p s)\<lparr>alloc_table := (alloc_table s)[i := free_entry],
      alloc_table_count := alloc_table_count s - 2\<rparr>"
  proof -
    have "fold (\<lambda>q s. free_page (at_pa ?e + of_nat q * 4096) s) [0..<unat (at_npages ?e)] s = free_page p s"
      by (simp add: e(2) p_def)
    then show ?thesis
      unfolding s'_def sweep_entry_def Let_def using e(1) owner fp by simp
  qed
  have pool: "pool_ok L s' = pool_ok L (free_page p s)" "owned L s' = owned L (free_page p s)"
    "avail L s' = avail L (free_page p s)" "proc_view s' = proc_view (free_page p s)"
    by (simp_all add: s' pool_ok_def pool_inv_def owned_def pool_page_def free_set_def avail_def)
  note f = free_page_spec [OF ok p]
  show "pool_ok L s'" and "avail L s' = Suc (avail L s)" and "proc_view s' = proc_view s"
    using pool f free_page_avail [OF ok p] by simp_all
  show own: "owned L s' = owned L s - {p}" using pool f by simp
  show tab: "alloc_table s' = (alloc_table s)[i := free_entry]"
    and "alloc_table_count s' = alloc_table_count s - 2" by (simp_all add: s')
  have used: "used_at s' j \<longleftrightarrow> j \<noteq> i \<and> used_at s j" for j
    by (cases "j = i") (simp_all add: used_at_def tab free_entry_def e(3))
  have "alloc_table s' ! j = alloc_table s ! j" if "j \<noteq> i" for j using that by (simp add: tab)
  moreover have "at_pa (alloc_table s ! j) \<noteq> p" if "used_at s j" "j \<noteq> i" for j
    using tp i that by (auto simp: tracked_pages_def p_def)
  ultimately show "tracked_pages L s'"
    using tp by (auto simp: tracked_pages_def used own)
qed

lemma sweep_miss:
  assumes "\<not> (used_at s i \<and> at_owner (alloc_table s ! i) = pid)" and "i < length (alloc_table s)"
  shows "sweep_entry pid i s = s"
  using assms by (auto simp: sweep_entry_def used_at_def Let_def)

text \<open>The whole sweep: the entries below \<open>k\<close> have been handled.\<close>

definition hits :: "int \<Rightarrow> kstate \<Rightarrow> nat \<Rightarrow> nat set" where
  "hits pid s k = {i. i < k \<and> used_at s i \<and> at_owner (alloc_table s ! i) = pid}"

lemma finite_hits [simp]: "finite (hits pid s k)"
  by (simp add: hits_def)

lemma hits_Suc:
  "hits pid s (Suc k) =
    (if used_at s k \<and> at_owner (alloc_table s ! k) = pid then insert k (hits pid s k) else hits pid s k)"
  by (auto simp: hits_def less_Suc_eq)

lemma sweep_loop:
  fixes pid :: int
  assumes ok: "pool_ok L s" and tp: "tracked_pages L s" and k: "k \<le> length (alloc_table s)"
  defines "t \<equiv> fold (sweep_entry pid) [0..<k] s"
  shows "pool_ok L t \<and> tracked_pages L t \<and> proc_view t = proc_view s \<and>
    length (alloc_table t) = length (alloc_table s) \<and>
    (\<forall>i < length (alloc_table s).
       alloc_table t ! i = (if i \<in> hits pid s k then free_entry else alloc_table s ! i)) \<and>
    owned L t = owned L s - (\<lambda>i. at_pa (alloc_table s ! i)) ` hits pid s k \<and>
    alloc_table_count t = alloc_table_count s - 2 * of_nat (card (hits pid s k)) \<and>
    avail L t = avail L s + card (hits pid s k)"
  unfolding t_def using k
proof (induction k)
  case 0
  then show ?case using ok tp by (simp add: hits_def)
next
  case (Suc k)
  let ?t = "fold (sweep_entry pid) [0..<k] s"
  have kn: "k < length (alloc_table s)" and step: "fold (sweep_entry pid) [0..<Suc k] s = sweep_entry pid k ?t"
    using Suc.prems by simp_all
  note ih = Suc.IH [OF Suc_leD [OF Suc.prems]]
  have notin: "k \<notin> hits pid s k" by (simp add: hits_def)
  then have at_k: "alloc_table ?t ! k = alloc_table s ! k" using ih kn by simp
  then have used_k: "used_at ?t k = used_at s k" using ih by (simp add: used_at_def)
  show ?case
  proof (cases "used_at s k \<and> at_owner (alloc_table s ! k) = pid")
    case True
    have "used_at ?t k" "at_owner (alloc_table ?t ! k) = pid" using True at_k used_k by simp_all
    moreover have "pool_ok L ?t" "tracked_pages L ?t" using ih by simp_all
    ultimately have hit: "pool_ok L (sweep_entry pid k ?t)" "tracked_pages L (sweep_entry pid k ?t)"
      "proc_view (sweep_entry pid k ?t) = proc_view ?t"
      "owned L (sweep_entry pid k ?t) = owned L ?t - {at_pa (alloc_table ?t ! k)}"
      "alloc_table (sweep_entry pid k ?t) = (alloc_table ?t)[k := free_entry]"
      "alloc_table_count (sweep_entry pid k ?t) = alloc_table_count ?t - 2"
      "avail L (sweep_entry pid k ?t) = Suc (avail L ?t)"
      using sweep_hit [of L ?t k pid] by simp_all
    have H: "hits pid s (Suc k) = insert k (hits pid s k)" using True by (simp add: hits_Suc)
    have len: "length (alloc_table ?t) = length (alloc_table s)" using ih by simp
    have tab: "alloc_table (sweep_entry pid k ?t) ! i =
        (if i \<in> hits pid s (Suc k) then free_entry else alloc_table s ! i)"
      if "i < length (alloc_table s)" for i
      using ih that len kn unfolding H hit(5) by (cases "i = k") simp_all
    have own: "owned L (sweep_entry pid k ?t) =
        owned L s - (\<lambda>i. at_pa (alloc_table s ! i)) ` hits pid s (Suc k)"
      using ih unfolding H hit(4) at_k by auto
    have "alloc_table_count (sweep_entry pid k ?t) =
        alloc_table_count s - 2 * of_nat (card (hits pid s (Suc k)))"
      using ih notin unfolding H hit(6) by (simp add: algebra_simps)
    moreover have "avail L (sweep_entry pid k ?t) = avail L s + card (hits pid s (Suc k))"
      using ih notin unfolding H hit(7) by simp
    ultimately show ?thesis
      unfolding step using hit(1-3) len tab own ih by (simp add: hit(5))
  next
    case False
    then have "sweep_entry pid k ?t = ?t"
      using at_k used_k kn ih by (intro sweep_miss) simp_all
    moreover have "hits pid s (Suc k) = hits pid s k" using False by (auto simp: hits_Suc)
    ultimately show ?thesis unfolding step using ih by simp
  qed
qed


section \<open>The tracker under allocation\<close>

text \<open>A single-page allocation leaves one entry for its page, or none when the table is full.\<close>

lemma alloc_one_table:
  assumes "alloc_pages L 1 s = Inr (p, s')"
  shows "alloc_table s' = alloc_table (track_alloc p 1 (current_pid s) (Some ''alloc_pages'') s)"
    and "alloc_table_count s' =
      alloc_table_count (track_alloc p 1 (current_pid s) (Some ''alloc_pages'') s)"
  using assms
  by (auto simp: alloc_pages_def alloc_free_list_def track_alloc_def Let_def current_pid_def
      split: if_splits option.splits)

lemma alloc_one_tracked_pages:
  assumes ok: "pool_ok L s" and tp: "tracked_pages L s" and run: "alloc_pages L 1 s = Inr (p, s')"
  shows "tracked_pages L s'"
proof -
  note sp = alloc_one_spec [OF ok run]
  show ?thesis
  proof (cases "first_index (\<lambda>e. \<not> at_used e) (alloc_table s)")
    case None
    then have "alloc_table s' = alloc_table s" using alloc_one_table [OF run] by (simp add: track_alloc_def)
    then show ?thesis using tp sp by (auto simp: tracked_pages_def used_at_def)
  next
    case (Some i)
    then have tab: "alloc_table s' = (alloc_table s)[i :=
        \<lparr>at_used = True, at_pa = p, at_npages = 1, at_owner = current_pid s, at_tag = Some ''alloc_pages''\<rparr>]"
      using alloc_one_table [OF run] by (simp add: track_alloc_def)
    have i: "i < length (alloc_table s)" "\<not> used_at s i"
      using first_index_SomeD [OF Some] by (simp_all add: used_at_def)
    have used: "used_at s' j \<longleftrightarrow> j = i \<or> used_at s j" for j
      using i by (cases "j = i") (simp_all add: used_at_def tab)
    have other: "alloc_table s' ! j = alloc_table s ! j" if "used_at s j" for j
      using i that by (cases "j = i") (simp_all add: tab)
    have new: "at_pa (alloc_table s' ! i) = p" "at_npages (alloc_table s' ! i) = 1"
      using i(1) by (simp_all add: tab)
    have fresh: "at_pa (alloc_table s ! j) \<noteq> p" if "used_at s j" for j
      using tp sp that by (auto simp: tracked_pages_def)
    show ?thesis
      unfolding tracked_pages_def used
      using tp sp new other fresh by (auto simp: tracked_pages_def)
  qed
qed

text \<open>How many entries a swept table still has.\<close>

lemma used_entries_swept:
  fixes pid :: int
  assumes "length t = length (alloc_table s)"
    and "\<And>i. i < length (alloc_table s) \<Longrightarrow>
      t ! i = (if i \<in> hits pid s (length (alloc_table s)) then free_entry else alloc_table s ! i)"
  shows "length (used_entries (alloc_table s)) =
    length (used_entries t) + card (hits pid s (length (alloc_table s)))"
proof -
  let ?n = "length (alloc_table s)" and ?H = "hits pid s (length (alloc_table s))"
  have "{i. i < ?n \<and> at_used (alloc_table s ! i)} = {i. i < length t \<and> at_used (t ! i)} \<union> ?H"
    using assms by (auto simp: hits_def used_at_def free_entry_def split: if_splits)
  moreover have "{i. i < length t \<and> at_used (t ! i)} \<inter> ?H = {}"
    using assms by (auto simp: free_entry_def split: if_splits)
  ultimately show ?thesis
    by (simp add: used_entries_def length_filter_conv_card card_Un_disjoint)
qed

lemma pid_pages_hits:
  "pid_pages pid s = (\<lambda>i. at_pa (alloc_table s ! i)) ` hits pid s (length (alloc_table s))"
  by (auto simp: pid_pages_def hits_def used_at_def)

lemma card_pid_pages:
  assumes "tracked_pages L s"
  shows "card (pid_pages pid s) = card (hits pid s (length (alloc_table s)))"
proof -
  have "inj_on (\<lambda>i. at_pa (alloc_table s ! i)) (hits pid s (length (alloc_table s)))"
    using assms by (auto simp: inj_on_def hits_def tracked_pages_def)
  then show ?thesis by (simp add: pid_pages_hits card_image)
qed

lemma irq_frame:
  "pool_ok L (disable_interrupts s) = pool_ok L s"
  "owned L (disable_interrupts s) = owned L s"
  "avail L (disable_interrupts s) = avail L s"
  "tracked_pages L (disable_interrupts s) = tracked_pages L s"
  "alloc_table (disable_interrupts s) = alloc_table s"
  "alloc_table_count (disable_interrupts s) = alloc_table_count s"
  "hits pid (disable_interrupts s) k = hits pid s k"
  "pool_ok L (enable_interrupts s) = pool_ok L s"
  "owned L (enable_interrupts s) = owned L s"
  "avail L (enable_interrupts s) = avail L s"
  "alloc_table (enable_interrupts s) = alloc_table s"
  "alloc_table_count (enable_interrupts s) = alloc_table_count s"
  by (simp_all add: disable_interrupts_def enable_interrupts_def pool_ok_def pool_inv_def owned_def
      pool_page_def free_set_def avail_def tracked_pages_def used_at_def hits_def)

lemma free_all_spec:
  fixes pid :: int
  assumes ok: "pool_ok L s" and tp: "tracked_pages L s"
  defines "t \<equiv> free_all_tracked_for_pid pid s"
  shows "pool_ok L t" and "owned L t = owned L s - pid_pages pid s"
    and "avail L t = avail L s + card (pid_pages pid s)"
    and "length (alloc_table t) = length (alloc_table s)"
    and "\<And>i. i < length (alloc_table s) \<Longrightarrow> alloc_table t ! i =
      (if i \<in> hits pid s (length (alloc_table s)) then free_entry else alloc_table s ! i)"
    and "alloc_table_count t = alloc_table_count s - 2 * of_nat (card (pid_pages pid s))"
  using sweep_loop [where pid = pid, of L "disable_interrupts s" "length (alloc_table s)"] ok tp
  by (simp_all add: t_def free_all_tracked_for_pid_def irq_frame pid_pages_hits card_pid_pages [OF tp, unfolded pid_pages_hits])

section \<open>Properties\<close>

text \<open>
  C33: when every tracked allocation is one owned page, sweeping the allocations of a
  process gives back exactly the pages tracked for it, each once: the page allocator's
  invariant is kept, no entry of the process is left in use, the entries of every other
  process are untouched, and as many pages as were freed become available.
\<close>

theorem free_all_tracked_frees:
  assumes "pool_ok L s" and "tracked_pages L s"
  shows "(let t = free_all_tracked_for_pid pid s in
    pool_ok L t \<and> owned L t = owned L s - pid_pages pid s \<and>
    avail L t = avail L s + card (pid_pages pid s) \<and> pid_pages pid t = {} \<and>
    (\<forall>q. q \<noteq> pid \<longrightarrow> pid_pages q t = pid_pages q s))"
proof -
  let ?t = "free_all_tracked_for_pid pid s" and ?n = "length (alloc_table s)"
  note f = free_all_spec [OF assms, where pid = pid]
  have used: "used_at ?t i \<longleftrightarrow> used_at s i \<and> at_owner (alloc_table s ! i) \<noteq> pid" for i
    using f(4,5) by (auto simp: used_at_def hits_def free_entry_def split: if_splits)
  have same: "alloc_table ?t ! i = alloc_table s ! i" if "used_at ?t i" for i
  proof -
    have "i \<notin> hits pid s ?n" "i < ?n" using that used by (auto simp: hits_def used_at_def)
    with f(5) show ?thesis by simp
  qed
  have "pid_pages q ?t = (if q = pid then {} else pid_pages q s)" for q
    using used same by (auto simp: pid_pages_def) metis+
  with f(1-3) show ?thesis by (simp add: Let_def)
qed

lemma boot_used [simp]: "\<not> used_at (boot_state L) i"
  by (simp add: used_at_def boot_state_def free_entry_def)

lemma boot_tracked [simp]: "tracked_pages L (boot_state L)"
  by (simp add: tracked_pages_def)

lemma boot_one_page:
  obtains p s where "alloc_pages kernel_map 1 (boot_state kernel_map) = Inr (p, s)"
    and "pool_ok kernel_map s" and "tracked_pages kernel_map s" and "pid_pages 0 s = {p}"
    and "tracker_ok s" and "alloc_table_count s = 1"
    and "length (alloc_table s) = MAX_TRACKED_ALLOCS"
proof -
  obtain p s where run: "alloc_pages kernel_map 1 (boot_state kernel_map) = Inr (p, s)"
    by (rule boot_alloc)
  let ?e = "\<lparr>at_used = True, at_pa = p, at_npages = 1, at_owner = 0, at_tag = Some ''alloc_pages''\<rparr>"
  have first: "first_index (\<lambda>e. \<not> at_used e) (alloc_table (boot_state kernel_map)) = Some 0"
    by (simp add: first_index_Some boot_state_def MAX_TRACKED_ALLOCS_def free_entry_def)
  have tab: "alloc_table s = (alloc_table (boot_state kernel_map))[0 := ?e]"
    "alloc_table_count s = 1"
    using alloc_one_table [OF run] first
    by (simp_all add: track_alloc_def boot_state_def current_pid_def)
  have len: "0 < length (alloc_table (boot_state kernel_map))"
    by (simp add: boot_state_def MAX_TRACKED_ALLOCS_def)
  have used: "used_at s i \<longleftrightarrow> i = 0" for i
    using len boot_used [of kernel_map i] by (cases "i = 0") (simp_all add: used_at_def tab)
  have "pid_pages 0 s = {p}" using used len by (auto simp: pid_pages_def tab)
  moreover have "tracker_ok (boot_state kernel_map)"
    by (simp add: tracker_ok_def used_entries_def boot_state_def free_entry_def)
  then have "tracker_ok s"
    using track_alloc_ok alloc_one_table [OF run] by (simp add: tracker_ok_def)
  moreover have "length (alloc_table s) = MAX_TRACKED_ALLOCS" by (simp add: tab boot_state_def)
  ultimately show thesis
    using that run tab(2) alloc_one_spec(1) [OF boot_pool run]
      alloc_one_tracked_pages [OF boot_pool boot_tracked run] by blast
qed

theorem free_all_tracked_frees_witness:
  "\<exists>p s. alloc_pages kernel_map 1 (boot_state kernel_map) = Inr (p, s) \<and>
     avail kernel_map (free_all_tracked_for_pid 0 s) = avail kernel_map s + 1 \<and>
     pid_pages 0 (free_all_tracked_for_pid 0 s) = {}"
proof (rule boot_one_page)
  fix p s
  assume a: "alloc_pages kernel_map 1 (boot_state kernel_map) = Inr (p, s)"
    "pool_ok kernel_map s" "tracked_pages kernel_map s" "pid_pages 0 s = {p}"
  show ?thesis using free_all_tracked_frees [OF a(2,3), where pid = 0] a(1,4) by (auto simp: Let_def)
qed

text \<open>
  The sweep takes every entry off the count twice, once in \<^verbatim>\<open>track_free\<close> (called by
  \<^verbatim>\<open>free_page\<close>) and once itself: from a correct count it leaves the count too small by the
  number of pages freed, so \<^verbatim>\<open>alloc_table_count\<close> is wrong after every sweep that frees
  something.
\<close>

theorem free_all_tracked_count:
  assumes "pool_ok L s" and "tracked_pages L s" and "tracker_ok s"
    and "pid_pages pid s \<noteq> {}" and "length (alloc_table s) \<le> MAX_TRACKED_ALLOCS"
  shows "alloc_table_count (free_all_tracked_for_pid pid s) =
      of_nat (length (used_entries (alloc_table (free_all_tracked_for_pid pid s)))) -
      of_nat (card (pid_pages pid s)) \<and>
    \<not> tracker_ok (free_all_tracked_for_pid pid s)"
proof -
  let ?t = "free_all_tracked_for_pid pid s" and ?c = "card (pid_pages pid s)"
  note f = free_all_spec [OF assms(1,2), where pid = pid]
  have "length (used_entries (alloc_table s)) = length (used_entries (alloc_table ?t)) + ?c"
    using used_entries_swept [where pid = pid, of "alloc_table ?t" s] f(4,5) card_pid_pages [OF assms(2)] by simp
  with f(6) assms(3) have count: "alloc_table_count ?t =
      of_nat (length (used_entries (alloc_table ?t))) - of_nat ?c"
    by (simp add: tracker_ok_def)
  have "hits pid s (length (alloc_table s)) \<subseteq> {..<length (alloc_table s)}" by (auto simp: hits_def)
  then have "?c \<le> length (alloc_table s)"
    using card_pid_pages [OF assms(2)] card_mono [of "{..<length (alloc_table s)}"] by fastforce
  then have small: "?c < 2 ^ 64" using assms(5) by (simp add: MAX_TRACKED_ALLOCS_def)
  have "0 < ?c" using assms(4) by (auto simp: card_gt_0_iff pid_pages_hits)
  then have "(of_nat ?c :: u64) \<noteq> 0" using of_nat_inj_u64 [OF small, of 0] assms(4) by simp
  with count show ?thesis by (simp add: tracker_ok_def)
qed

theorem free_all_tracked_count_witness:
  "\<exists>p s. alloc_pages kernel_map 1 (boot_state kernel_map) = Inr (p, s) \<and>
     alloc_table_count s = 1 \<and> \<not> tracker_ok (free_all_tracked_for_pid 0 s)"
proof (rule boot_one_page)
  fix p s
  assume a: "alloc_pages kernel_map 1 (boot_state kernel_map) = Inr (p, s)"
    "pool_ok kernel_map s" "tracked_pages kernel_map s" "pid_pages 0 s = {p}" "tracker_ok s"
    "alloc_table_count s = 1" "length (alloc_table s) = MAX_TRACKED_ALLOCS"
  from free_all_tracked_count [OF a(2,3,5), where pid = 0] a(1,4,6,7) show ?thesis by auto
qed

end
