(* ===== verification/C_String.thy ===== *)
theory C_String
  imports Phys_Mem "HOL-Library.Monad_Syntax"
begin

text \<open>
  \<^verbatim>\<open>kernel/string.c\<close> on byte memory (\<^verbatim>\<open>user/lib/string.c\<close> is the same code). Pointers
  are addresses, 0 is \<^verbatim>\<open>NULL\<close>. A loop that looks for a terminating NUL runs for ever when
  the whole address space holds none, so these functions answer in \<open>option\<close>, with
  \<open>None\<close> for a loop that does not end; the lemmas show that on C strings they return, and
  what. \<open>cstr_at m p bs\<close> says that the NUL-terminated string at \<open>p\<close> has the bytes \<open>bs\<close>.
\<close>

section \<open>C strings\<close>

primrec cstr_at :: "mem \<Rightarrow> u64 \<Rightarrow> u8 list \<Rightarrow> bool" where
  "cstr_at m p [] \<longleftrightarrow> m p = 0"
| "cstr_at m p (b # bs) \<longleftrightarrow> m p = b \<and> b \<noteq> 0 \<and> cstr_at m (p + 1) bs"

lemma cstr_at_unique: "cstr_at m p xs \<Longrightarrow> cstr_at m p ys \<Longrightarrow> xs = ys"
proof (induction xs arbitrary: p ys)
  case Nil
  then show ?case by (cases ys) auto
next
  case (Cons x xs)
  then show ?case by (cases ys) auto
qed

lemma cstr_at_append:
  "cstr_at m p (xs @ ys) \<longleftrightarrow>
    (\<forall>i < length xs. m (p + of_nat i) = xs ! i \<and> xs ! i \<noteq> 0) \<and>
    cstr_at m (p + of_nat (length xs)) ys"
proof (induction xs arbitrary: p)
  case Nil
  then show ?case by simp
next
  case (Cons x xs)
  have "(\<forall>i < Suc (length xs). m (p + of_nat i) = (x # xs) ! i \<and> (x # xs) ! i \<noteq> 0) \<longleftrightarrow>
      m p = x \<and> x \<noteq> 0 \<and>
      (\<forall>i < length xs. m (p + 1 + of_nat i) = xs ! i \<and> xs ! i \<noteq> 0)"
    unfolding All_less_Suc2 by (simp add: add.assoc)
  with Cons.IH [of "p + 1"] show ?case by (auto simp: add.assoc)
qed

lemma cstr_at_iff:
  "cstr_at m p bs \<longleftrightarrow>
    (\<forall>i < length bs. m (p + of_nat i) = bs ! i \<and> bs ! i \<noteq> 0) \<and> m (p + of_nat (length bs)) = 0"
  using cstr_at_append [of m p bs "[]"] by simp

lemma cstr_at_nonzero: "cstr_at m p bs \<Longrightarrow> 0 \<notin> set bs"
  by (induction bs arbitrary: p) auto

section \<open>The code\<close>

partial_function (option) strcmp :: "mem \<Rightarrow> u64 \<Rightarrow> u64 \<Rightarrow> int option" where
  "strcmp m s1 s2 =
     (if m s1 \<noteq> 0 \<and> m s1 = m s2 then strcmp m (s1 + 1) (s2 + 1)
      else Some (uint (m s1) - uint (m s2)))"

text \<open>The loop of \<^verbatim>\<open>strncmp\<close> with the number \<open>k\<close> of bytes still to compare.\<close>

primrec strncmp_loop :: "mem \<Rightarrow> u64 \<Rightarrow> u64 \<Rightarrow> nat \<Rightarrow> int" where
  "strncmp_loop m s1 s2 0 = 0"
| "strncmp_loop m s1 s2 (Suc k) =
     (if m s1 \<noteq> m s2 then uint (m s1) - uint (m s2)
      else if m s1 = 0 then 0
      else strncmp_loop m (s1 + 1) (s2 + 1) k)"

definition strncmp :: "mem \<Rightarrow> u64 \<Rightarrow> u64 \<Rightarrow> u32 \<Rightarrow> int" where
  "strncmp m s1 s2 n = strncmp_loop m s1 s2 (unat n)"

partial_function (option) strlen_loop :: "mem \<Rightarrow> u64 \<Rightarrow> u64 \<Rightarrow> u64 option" where
  "strlen_loop m str len =
     (if m (str + len) \<noteq> 0 then strlen_loop m str (len + 1) else Some len)"

definition strlen :: "mem \<Rightarrow> u64 \<Rightarrow> u64 option" where
  "strlen m str = strlen_loop m str 0"

function strnlen_loop :: "mem \<Rightarrow> u64 \<Rightarrow> u64 \<Rightarrow> u64 \<Rightarrow> u64" where
  "strnlen_loop m s maxlen len =
     (if len < maxlen \<and> m (s + len) \<noteq> 0 then strnlen_loop m s maxlen (len + 1) else len)"
  by pat_completeness auto
termination
proof (relation "measure (\<lambda>(m, s, maxlen, len). unat maxlen - unat len)", goal_cases)
  case 1
  show ?case by simp
next
  case (2 m s maxlen len)
  then have "unat len < unat maxlen" by (simp add: word_less_nat_alt)
  moreover from this have "unat (len + 1) = unat len + 1"
    using unat_u64_bound [of maxlen] by (subst unat_add_u64) simp_all
  ultimately show ?case by simp
qed

declare strnlen_loop.simps [simp del]

definition strnlen :: "mem \<Rightarrow> u64 \<Rightarrow> u64 \<Rightarrow> u64" where
  "strnlen m s maxlen = strnlen_loop m s maxlen 0"

partial_function (option) strcpy_loop :: "mem \<Rightarrow> u64 \<Rightarrow> u64 \<Rightarrow> mem option" where
  "strcpy_loop m d src =
     (if m src \<noteq> 0 then strcpy_loop (m(d := m src)) (d + 1) (src + 1) else Some (m(d := 0)))"

definition strcpy :: "mem \<Rightarrow> u64 \<Rightarrow> u64 \<Rightarrow> mem option" where
  "strcpy m dst src = strcpy_loop m dst src"

text \<open>
  \<^verbatim>\<open>strncpy\<close>: copy up to the NUL, then pad with NULs, \<open>n\<close> bytes in all; \<open>k\<close> is the number
  of bytes still to write and \<open>i\<close> the index.
\<close>

primrec strncpy_pad :: "mem \<Rightarrow> u64 \<Rightarrow> u64 \<Rightarrow> nat \<Rightarrow> mem" where
  "strncpy_pad m dest i 0 = m"
| "strncpy_pad m dest i (Suc k) = strncpy_pad (m(dest + i := 0)) dest (i + 1) k"

primrec strncpy_copy :: "mem \<Rightarrow> u64 \<Rightarrow> u64 \<Rightarrow> u64 \<Rightarrow> nat \<Rightarrow> mem" where
  "strncpy_copy m dest src i 0 = m"
| "strncpy_copy m dest src i (Suc k) =
     (if m (src + i) \<noteq> 0 then strncpy_copy (m(dest + i := m (src + i))) dest src (i + 1) k
      else strncpy_pad m dest i (Suc k))"

definition strncpy :: "mem \<Rightarrow> u64 \<Rightarrow> u64 \<Rightarrow> u64 \<Rightarrow> mem" where
  "strncpy m dest src n = strncpy_copy m dest src 0 (unat n)"

partial_function (option) strstr_match :: "mem \<Rightarrow> u64 \<Rightarrow> u64 \<Rightarrow> bool option" where
  "strstr_match m h n =
     (if m h \<noteq> 0 \<and> m n \<noteq> 0 \<and> m h = m n then strstr_match m (h + 1) (n + 1)
      else Some (m n = 0))"

partial_function (option) strstr_loop :: "mem \<Rightarrow> u64 \<Rightarrow> u64 \<Rightarrow> u64 option" where
  "strstr_loop m haystack needle =
     (if m haystack = 0 then Some 0
      else do {
        found \<leftarrow> strstr_match m haystack needle;
        if found then Some haystack else strstr_loop m (haystack + 1) needle
      })"

definition strstr :: "mem \<Rightarrow> u64 \<Rightarrow> u64 \<Rightarrow> u64 option" where
  "strstr m haystack needle =
     (if m needle = 0 then Some haystack else strstr_loop m haystack needle)"

partial_function (option) strcat_end :: "mem \<Rightarrow> u64 \<Rightarrow> u64 option" where
  "strcat_end m p = (if m p \<noteq> 0 then strcat_end m (p + 1) else Some p)"

definition strcat :: "mem \<Rightarrow> u64 \<Rightarrow> u64 \<Rightarrow> mem option" where
  "strcat m dest src = do { p \<leftarrow> strcat_end m dest; strcpy_loop m p src }"

partial_function (option) strchr :: "mem \<Rightarrow> u64 \<Rightarrow> u8 \<Rightarrow> u64 option" where
  "strchr m s c =
     (if m s = 0 then Some 0 else if m s = c then Some s else strchr m (s + 1) c)"

text \<open>
  \<^verbatim>\<open>strtok\<close>: the static \<^verbatim>\<open>saved\<close> is passed in and out. \<open>skip\<close> is the loop over the leading
  delimiters, \<open>find\<close> the loop to the end of the token.
\<close>

partial_function (option) strtok_skip :: "mem \<Rightarrow> u64 \<Rightarrow> u64 \<Rightarrow> u64 option" where
  "strtok_skip m saved delim =
     (if m saved = 0 then Some saved
      else do {
        d \<leftarrow> strchr m delim (m saved);
        if d \<noteq> 0 then strtok_skip m (saved + 1) delim else Some saved
      })"

partial_function (option) strtok_find :: "mem \<Rightarrow> u64 \<Rightarrow> u64 \<Rightarrow> u64 option" where
  "strtok_find m saved delim =
     (if m saved = 0 then Some saved
      else do {
        d \<leftarrow> strchr m delim (m saved);
        if d = 0 then strtok_find m (saved + 1) delim else Some saved
      })"

definition strtok :: "mem \<Rightarrow> u64 \<Rightarrow> u64 \<Rightarrow> u64 \<Rightarrow> (u64 \<times> mem \<times> u64) option" where
  "strtok m saved str delim =
     (let saved = (if str \<noteq> 0 then str else saved) in
      if saved = 0 then Some (0, m, saved)
      else do {
        saved \<leftarrow> strtok_skip m saved delim;
        if m saved = 0 then Some (0, m, saved)
        else do {
          let token = saved;
          saved \<leftarrow> strtok_find m saved delim;
          if m saved \<noteq> 0 then Some (token, m(saved := 0), saved + 1)
          else Some (token, m, 0)
        }
      })"

section \<open>Length and comparison\<close>

lemma strlen_loop_cstr:
  "cstr_at m (str + len) bs \<Longrightarrow> strlen_loop m str len = Some (len + of_nat (length bs))"
proof (induction bs arbitrary: len)
  case Nil
  then show ?case by (subst strlen_loop.simps) simp
next
  case (Cons b bs)
  then have "cstr_at m (str + (len + 1)) bs" by (simp add: add.assoc)
  from Cons.IH [OF this] Cons.prems show ?case
    by (subst strlen_loop.simps) (simp add: add.assoc)
qed

lemma strlen_cstr: "cstr_at m p bs \<Longrightarrow> strlen m p = Some (of_nat (length bs))"
  using strlen_loop_cstr [of m p 0 bs] by (simp add: strlen_def)

text \<open>
  The comparison of two byte strings the loop computes: the difference of the first
  bytes that differ, the shorter string being continued by its NUL.
\<close>

fun cmp_bytes :: "u8 list \<Rightarrow> u8 list \<Rightarrow> int" where
  "cmp_bytes [] [] = 0"
| "cmp_bytes (x # xs) [] = uint x"
| "cmp_bytes [] (y # ys) = - uint y"
| "cmp_bytes (x # xs) (y # ys) = (if x = y then cmp_bytes xs ys else uint x - uint y)"

lemma strcmp_cstr:
  "cstr_at m p xs \<Longrightarrow> cstr_at m q ys \<Longrightarrow> strcmp m p q = Some (cmp_bytes xs ys)"
proof (induction xs ys arbitrary: p q rule: cmp_bytes.induct)
  case 1
  then show ?case by (subst strcmp.simps) simp
next
  case (2 x xs)
  then show ?case by (subst strcmp.simps) auto
next
  case (3 y ys)
  then show ?case by (subst strcmp.simps) auto
next
  case (4 x xs y ys)
  then show ?case by (subst strcmp.simps) auto
qed

lemma cmp_bytes_eq_0:
  "0 \<notin> set xs \<Longrightarrow> 0 \<notin> set ys \<Longrightarrow> cmp_bytes xs ys = 0 \<longleftrightarrow> xs = ys"
proof (induction xs ys rule: cmp_bytes.induct)
  case (4 x xs y ys)
  have "uint x - uint y \<noteq> 0" if "x \<noteq> y" using that word_uint_eq_iff [of x y] by simp
  with 4 show ?case by simp
qed (simp_all add: uint_0_iff)

lemma strcmp_eq:
  assumes "cstr_at m p xs" and "cstr_at m q ys"
  shows "strcmp m p q = Some 0 \<longleftrightarrow> xs = ys"
  using strcmp_cstr [OF assms] cmp_bytes_eq_0 [of xs ys] assms cstr_at_nonzero by auto

text \<open>The sign of the result is the lexicographic order of the bytes.\<close>

lemma cmp_bytes_neg:
  "0 \<notin> set xs \<Longrightarrow> 0 \<notin> set ys \<Longrightarrow> cmp_bytes xs ys < 0 \<longleftrightarrow> ord.lexordp (<) xs ys"
proof (induction xs ys rule: cmp_bytes.induct)
  case (3 y ys)
  then have "uint y \<noteq> 0" by (simp add: uint_0_iff)
  then have "0 < uint y" using uint_ge_0 [of y] by linarith
  then show ?case by (simp add: ord.lexordp_simps)
next
  case (2 x xs)
  then show ?case by (simp add: ord.lexordp_simps not_less)
next
  case (4 x xs y ys)
  show ?case
  proof (cases "x = y")
    case True
    with 4 show ?thesis by (simp add: ord.lexordp_simps)
  next
    case False
    then have "x < y \<or> y < x" by (simp add: neq_iff)
    with False show ?thesis by (auto simp: ord.lexordp_simps word_less_def)
  qed
qed (simp_all add: ord.lexordp_simps)

section \<open>Copying\<close>

lemma cstr_at_length:
  assumes "cstr_at m p bs"
  shows "length bs < 2 ^ 64"
proof (rule ccontr)
  assume "\<not> length bs < 2 ^ 64"
  then have le: "2 ^ 64 \<le> length bs" by (rule leI)
  let ?i = "unat (of_nat (length bs) :: u64)"
  have "?i < 2 ^ 64" using unat_u64_bound by simp
  then have "?i < length bs" using le by (rule order_less_le_trans)
  moreover have "(of_nat ?i :: u64) = of_nat (length bs)" by simp
  ultimately show False using assms unfolding cstr_at_iff by metis
qed

text \<open>\<open>poke m d bs\<close>: the memory with the bytes \<open>bs\<close> written from \<open>d\<close> on.\<close>

definition poke :: "mem \<Rightarrow> u64 \<Rightarrow> u8 list \<Rightarrow> mem" where
  "poke m d bs = (\<lambda>x. if unat (x - d) < length bs then bs ! unat (x - d) else m x)"

lemma poke_Nil [simp]: "poke m d [] = m"
  by (simp add: poke_def)

lemma poke_snoc:
  assumes "length bs < 2 ^ 64"
  shows "poke m d (bs @ [b]) = (poke m d bs)(d + of_nat (length bs) := b)"
  using assms by (auto simp: poke_def fun_eq_iff nth_append add_of_nat_eq_iff less_Suc_eq)

lemma poke_other: "length bs \<le> unat (x - d) \<Longrightarrow> poke m d bs x = m x"
  by (simp add: poke_def)

lemma poke_at:
  assumes "i < length bs" and "i < 2 ^ 64"
  shows "poke m d bs (d + of_nat i) = bs ! i"
  using assms by (simp add: poke_def unat_of_nat_u64)

lemma cstr_at_poke:
  assumes "length bs < 2 ^ 64" and "0 \<notin> set bs"
  shows "cstr_at (poke m d (bs @ 0 # cs)) d bs"
  unfolding cstr_at_iff
proof (intro conjI allI impI)
  fix i assume "i < length bs"
  with assms show "poke m d (bs @ 0 # cs) (d + of_nat i) = bs ! i" and "bs ! i \<noteq> 0"
    using nth_mem [of i bs] by (auto simp: poke_at nth_append simp del: nth_mem)
next
  show "poke m d (bs @ 0 # cs) (d + of_nat (length bs)) = 0"
    using assms(1) by (simp add: poke_at)
qed

text \<open>
  A source the copy does not run over: no byte of it lies in the part of the destination
  already written when it is read.
\<close>

definition copy_safe :: "u64 \<Rightarrow> u64 \<Rightarrow> nat \<Rightarrow> bool" where
  "copy_safe dest src n \<longleftrightarrow> n \<le> unat (dest - src)"

lemma copy_safe_read:
  assumes "copy_safe dest src n" and "i < n" and "length bs \<le> i"
  shows "poke m dest bs (src + of_nat i) = m (src + of_nat i)"
proof (rule poke_other)
  have n: "n < 2 ^ 64" using assms(1) unat_u64_bound [of "dest - src"] by (simp add: copy_safe_def)
  have d: "src + of_nat i - dest = of_nat i - (dest - src)" by simp
  have "i < unat (dest - src)" using assms(1,2) by (simp add: copy_safe_def)
  then have "unat (src + of_nat i - dest) = i + 2 ^ 64 - unat (dest - src)"
    using n assms(2) unfolding d unat_diff_u64 by (simp add: unat_of_nat_u64)
  then show "length bs \<le> unat (src + of_nat i - dest)"
    using assms(3) unat_u64_bound [of "dest - src"] by simp
qed

lemma strcpy_loop_cstr:
  assumes src: "cstr_at m src bs" and safe: "copy_safe dest src (Suc (length bs))"
    and i: "i \<le> length bs"
  shows "strcpy_loop (poke m dest (take i bs)) (dest + of_nat i) (src + of_nat i) =
    Some (poke m dest (bs @ [0]))"
  using i
proof (induction "length bs - i" arbitrary: i)
  case 0
  then have i: "i = length bs" by simp
  then have "poke m dest bs (src + of_nat i) = 0"
    using copy_safe_read [OF safe, of i bs m] src by (simp add: cstr_at_iff)
  with i show ?case
    using cstr_at_length [OF src] by (subst strcpy_loop.simps) (simp add: poke_snoc)
next
  case (Suc k)
  then have i: "i < length bs" by simp
  have r: "poke m dest (take i bs) (src + of_nat i) = bs ! i"
    using copy_safe_read [OF safe, of i "take i bs" m] src i by (simp add: cstr_at_iff)
  have "bs ! i \<noteq> 0" using src i by (simp add: cstr_at_iff)
  moreover have "(poke m dest (take i bs))(dest + of_nat i := bs ! i) = poke m dest (take (Suc i) bs)"
    using i cstr_at_length [OF src] poke_snoc [of "take i bs" m dest "bs ! i"]
    by (simp add: take_Suc_conv_app_nth)
  ultimately show ?case
    using Suc.hyps(1) [of "Suc i"] Suc.hyps(2) i r
    by (subst strcpy_loop.simps) (simp add: ac_simps)
qed

lemma strcpy_cstr:
  assumes "cstr_at m src bs" and "copy_safe dest src (Suc (length bs))"
  shows "strcpy m dest src = Some (poke m dest (bs @ [0]))"
  using strcpy_loop_cstr [OF assms, of 0] by (simp add: strcpy_def)

text \<open>\<^verbatim>\<open>strncpy\<close> writes \<open>n\<close> bytes: the string, cut at \<open>n\<close> bytes, then NULs.\<close>

lemma strncpy_pad_poke:
  "length bs + k \<le> 2 ^ 64 \<Longrightarrow>
    strncpy_pad (poke m dest bs) dest (of_nat (length bs)) k = poke m dest (bs @ replicate k 0)"
proof (induction k arbitrary: bs)
  case 0
  then show ?case by simp
next
  case (Suc k)
  then show ?case using Suc.IH [of "bs @ [0]"] by (simp add: poke_snoc [symmetric] add.commute)
qed

lemma strncpy_copy_poke:
  assumes src: "cstr_at m src bs" and safe: "copy_safe dest src n" and "i \<le> length bs" and "i + k = n"
  shows "strncpy_copy (poke m dest (take i bs)) dest src (of_nat i) k =
    poke m dest (take n bs @ replicate (n - length bs) 0)"
  using assms(3,4)
proof (induction k arbitrary: i)
  case 0
  then show ?case by simp
next
  case (Suc k)
  have n: "n < 2 ^ 64" using safe unat_u64_bound [of "dest - src"] by (simp add: copy_safe_def)
  have r: "poke m dest (take i bs) (src + of_nat i) = m (src + of_nat i)"
    using copy_safe_read [OF safe, of i "take i bs" m] Suc.prems by simp
  show ?case
  proof (cases "i < length bs")
    case True
    then have b: "m (src + of_nat i) = bs ! i" "bs ! i \<noteq> 0" using src by (simp_all add: cstr_at_iff)
    have "(poke m dest (take i bs))(dest + of_nat i := bs ! i) = poke m dest (take (Suc i) bs)"
      using True n Suc.prems poke_snoc [of "take i bs" m dest "bs ! i"]
      by (simp add: take_Suc_conv_app_nth)
    then show ?thesis using Suc.IH [of "Suc i"] Suc.prems True r b by (simp add: add.commute)
  next
    case False
    then have i: "i = length bs" using Suc.prems by simp
    then have "m (src + of_nat i) = 0" using src by (simp add: cstr_at_iff)
    then show ?thesis
      using strncpy_pad_poke [of bs "Suc k" m dest] r i n Suc.prems by (simp del: strncpy_pad.simps) auto
  qed
qed

lemma strncpy_cstr:
  assumes "cstr_at m src bs" and "copy_safe dest src (unat n)"
  shows "strncpy m dest src n = poke m dest (take (unat n) bs @ replicate (unat n - length bs) 0)"
  using strncpy_copy_poke [OF assms, of 0 "unat n"] by (simp add: strncpy_def)

section \<open>Searching\<close>

lemma strchr_cstr:
  "cstr_at m p bs \<Longrightarrow> strchr m p c =
    Some (case first_index (\<lambda>b. b = c) bs of None \<Rightarrow> 0 | Some i \<Rightarrow> p + of_nat i)"
proof (induction bs arbitrary: p)
  case Nil
  then show ?case by (subst strchr.simps) simp
next
  case (Cons b bs)
  then show ?case
    by (subst strchr.simps) (auto split: option.split simp: add.assoc)
qed

lemma strstr_match_cstr:
  "cstr_at m h hs \<Longrightarrow> cstr_at m n ns \<Longrightarrow> strstr_match m h n = Some (take (length ns) hs = ns)"
proof (induction ns arbitrary: h n hs)
  case Nil
  then show ?case by (subst strstr_match.simps) simp
next
  case (Cons x ns)
  then show ?case by (cases hs) (auto simp: strstr_match.simps [of m h])
qed

text \<open>The positions of a byte string at which another one occurs, in order.\<close>

fun find_sub :: "u8 list \<Rightarrow> u8 list \<Rightarrow> nat option" where
  "find_sub ns [] = (if ns = [] then Some 0 else None)"
| "find_sub ns (h # hs) =
     (if take (length ns) (h # hs) = ns then Some 0 else map_option Suc (find_sub ns hs))"

lemma strstr_loop_cstr:
  "cstr_at m h hs \<Longrightarrow> cstr_at m n ns \<Longrightarrow> ns \<noteq> [] \<Longrightarrow> strstr_loop m h n =
    Some (case find_sub ns hs of None \<Rightarrow> 0 | Some i \<Rightarrow> h + of_nat i)"
proof (induction hs arbitrary: h)
  case Nil
  then show ?case by (subst strstr_loop.simps) simp
next
  case (Cons x hs)
  have "strstr_match m h n = Some (take (length ns) (x # hs) = ns)"
    using Cons.prems by (intro strstr_match_cstr) simp_all
  with Cons show ?case
    by (subst strstr_loop.simps) (auto split: option.split simp: add.assoc)
qed

lemma strstr_cstr:
  assumes "cstr_at m h hs" and "cstr_at m n ns"
  shows "strstr m h n = Some (case find_sub ns hs of None \<Rightarrow> 0 | Some i \<Rightarrow> h + of_nat i)"
proof (cases ns)
  case Nil
  then have "find_sub ns hs = Some 0" by (cases hs) simp_all
  with Nil assms(2) show ?thesis by (simp add: strstr_def)
next
  case (Cons x xs)
  then show ?thesis using assms strstr_loop_cstr [OF assms] by (simp add: strstr_def)
qed

lemma find_sub_Some:
  "find_sub ns hs = Some i \<longleftrightarrow> take (length ns) (drop i hs) = ns \<and> i \<le> length hs \<and>
    (\<forall>j < i. take (length ns) (drop j hs) \<noteq> ns)"
proof (induction hs arbitrary: i)
  case Nil
  then show ?case by auto
next
  case (Cons h hs)
  then show ?case
    by (cases i) (auto simp: less_Suc_eq_0_disj split: if_splits)
qed

section \<open>Tokens\<close>

text \<open>A delimiter string that does not reach the end of the address space.\<close>

definition delims_at :: "mem \<Rightarrow> u64 \<Rightarrow> u8 list \<Rightarrow> bool" where
  "delims_at m d ds \<longleftrightarrow> cstr_at m d ds \<and> d \<noteq> 0 \<and> unat d + length ds < 2 ^ 64"

lemma strchr_delim:
  assumes "delims_at m d ds"
  shows "\<exists>r. strchr m d c = Some r \<and> (r = 0 \<longleftrightarrow> c \<notin> set ds)"
proof (cases "first_index (\<lambda>b. b = c) ds")
  case None
  then have "c \<notin> set ds" by (auto simp: first_index_None)
  then show ?thesis using strchr_cstr [of m d ds c] assms None by (simp add: delims_at_def)
next
  case (Some i)
  note i = first_index_SomeD [OF Some]
  have "unat (d + of_nat i) = unat d + i"
    using assms i(1) by (subst unat_add_u64) (simp_all add: delims_at_def unat_of_nat_u64)
  moreover have "unat d \<noteq> 0" using assms by (simp add: delims_at_def unat_eq_zero)
  ultimately have "d + of_nat i \<noteq> 0" by (auto simp: word_unat_eq_iff)
  moreover have "c \<in> set ds" using i(1,2) nth_mem by fastforce
  ultimately show ?thesis using strchr_cstr [of m d ds c] assms Some
    by (auto simp: delims_at_def)
qed

lemma strtok_skip_cstr:
  assumes d: "delims_at m d ds"
  shows "cstr_at m p bs \<Longrightarrow>
    strtok_skip m p d = Some (p + of_nat (length (takeWhile (\<lambda>b. b \<in> set ds) bs)))"
proof (induction bs arbitrary: p)
  case Nil
  then show ?case by (subst strtok_skip.simps) simp
next
  case (Cons b bs)
  obtain r where r: "strchr m d b = Some r" "r = 0 \<longleftrightarrow> b \<notin> set ds"
    using strchr_delim [OF d] by blast
  from Cons r show ?case by (subst strtok_skip.simps) (auto simp: add.assoc)
qed

lemma strtok_find_cstr:
  assumes d: "delims_at m d ds"
  shows "cstr_at m p bs \<Longrightarrow>
    strtok_find m p d = Some (p + of_nat (length (takeWhile (\<lambda>b. b \<notin> set ds) bs)))"
proof (induction bs arbitrary: p)
  case Nil
  then show ?case by (subst strtok_find.simps) simp
next
  case (Cons b bs)
  obtain r where r: "strchr m d b = Some r" "r = 0 \<longleftrightarrow> b \<notin> set ds"
    using strchr_delim [OF d] by blast
  from Cons r show ?case by (subst strtok_find.simps) (auto simp: add.assoc)
qed

text \<open>What one call finds in the rest \<open>bs\<close> of the string: the delimiters it skips, the token, and what is left.\<close>

definition token_split :: "u8 list \<Rightarrow> u8 list \<Rightarrow> u8 list \<times> u8 list \<times> u8 list" where
  "token_split ds bs =
     (let rest = dropWhile (\<lambda>b. b \<in> set ds) bs in
      (takeWhile (\<lambda>b. b \<in> set ds) bs, takeWhile (\<lambda>b. b \<notin> set ds) rest,
       dropWhile (\<lambda>b. b \<notin> set ds) rest))"

lemma token_split_append:
  "token_split ds bs = (pre, tok, left) \<Longrightarrow> bs = pre @ tok @ left"
  by (auto simp: token_split_def Let_def)

lemma cstr_at_upd_other:
  "cstr_at m p bs \<Longrightarrow> (\<And>i. i \<le> length bs \<Longrightarrow> p + of_nat i \<noteq> a) \<Longrightarrow> cstr_at (m(a := v)) p bs"
  unfolding cstr_at_iff by auto

lemma strtok_cstr:
  assumes p: "(if str \<noteq> 0 then str else saved) = p" "p \<noteq> 0" "cstr_at m p bs"
    and d: "delims_at m d ds" and sp: "token_split ds bs = (pre, tok, left)"
  shows "strtok m saved str d = Some
    (let t = p + of_nat (length pre) in
     if tok = [] then (0, m, t)
     else if left = [] then (t, m, 0)
     else (t, m(t + of_nat (length tok) := 0), t + of_nat (length tok) + 1))"
proof -
  have bs: "bs = pre @ tok @ left" using token_split_append [OF sp] .
  let ?t = "p + of_nat (length pre) :: u64"
  have pre: "pre = takeWhile (\<lambda>b. b \<in> set ds) bs"
    and rest: "tok @ left = dropWhile (\<lambda>b. b \<in> set ds) bs"
    and tok: "tok = takeWhile (\<lambda>b. b \<notin> set ds) (tok @ left)"
    using sp by (auto simp: token_split_def Let_def)
  have t: "cstr_at m ?t (tok @ left)" and l: "cstr_at m (?t + of_nat (length tok)) left"
    using p(3) unfolding bs cstr_at_append by (simp_all add: add.assoc)
  have skip: "strtok_skip m p d = Some ?t"
    using strtok_skip_cstr [OF d p(3)] pre by simp
  have find: "strtok_find m ?t d = Some (?t + of_nat (length tok))"
    using strtok_find_cstr [OF d t] tok by simp
  have end0: "m ?t = 0 \<longleftrightarrow> tok @ left = []" using t by (cases "tok @ left") auto
  have tok0: "tok = [] \<longleftrightarrow> tok @ left = []"
  proof (cases "tok @ left")
    case (Cons a xs)
    then have "a \<notin> set ds" using rest hd_dropWhile [of "\<lambda>b. b \<in> set ds" bs] by simp
    then have "tok = a # takeWhile (\<lambda>b. b \<notin> set ds) xs" by (subst tok) (simp add: Cons)
    then show ?thesis by simp
  qed simp
  have left0: "m (?t + of_nat (length tok)) = 0 \<longleftrightarrow> left = []" using l by (cases left) auto
  have nz: "m ?t \<noteq> 0" if "tok \<noteq> []" using that end0 by simp
  have z: "m ?t = 0" if "tok = []" using that end0 tok0 by blast
  consider "tok = []" | "tok \<noteq> []" "left = []" | "tok \<noteq> []" "left \<noteq> []" by blast
  then show ?thesis
  proof cases
    case 1
    with p(1,2) skip z show ?thesis by (simp add: strtok_def Let_def)
  next
    case 2
    with p(1,2) skip find nz left0 show ?thesis by (simp add: strtok_def Let_def)
  next
    case 3
    with p(1,2) skip find nz left0 show ?thesis by (simp add: strtok_def Let_def)
  qed
qed

section \<open>Concatenation\<close>

lemma strcat_end_cstr: "cstr_at m p xs \<Longrightarrow> strcat_end m p = Some (p + of_nat (length xs))"
proof (induction xs arbitrary: p)
  case Nil
  then show ?case by (subst strcat_end.simps) simp
next
  case (Cons x xs)
  then show ?case by (subst strcat_end.simps) (simp add: add.assoc)
qed

lemma strcat_cstr:
  assumes "cstr_at m dest xs" and "cstr_at m src ys"
    and "copy_safe (dest + of_nat (length xs)) src (Suc (length ys))"
  shows "strcat m dest src = Some (poke m (dest + of_nat (length xs)) (ys @ [0]))"
  using assms strcat_end_cstr strcpy_cstr by (simp add: strcat_def strcpy_def)

section \<open>Properties\<close>

text \<open>
  \<open>strcmp\<close> returns on any two C strings, 0 exactly for equal strings, and otherwise
  with the sign of their lexicographic order as unsigned bytes.
\<close>

theorem strcmp_order:
  assumes "cstr_at m p xs" and "cstr_at m q ys"
  shows "\<exists>r. strcmp m p q = Some r \<and> (r = 0 \<longleftrightarrow> xs = ys) \<and> (r < 0 \<longleftrightarrow> ord.lexordp (<) xs ys)"
  using strcmp_cstr [OF assms] cmp_bytes_eq_0 cmp_bytes_neg assms cstr_at_nonzero by auto

definition two_strings :: mem where
  "two_strings = poke (poke (\<lambda>_. 0) 0x1000 (bytes_of ''ls /tmp'' @ [0])) 0x2000 (bytes_of '' '' @ [0])"

lemma two_strings_at:
  "cstr_at two_strings 0x1000 (bytes_of ''ls /tmp'')" "cstr_at two_strings 0x2000 (bytes_of '' '')"
  by (simp_all add: two_strings_def poke_def)

theorem strcmp_order_witness:
  "\<exists>r. strcmp two_strings 0x1000 0x2000 = Some r \<and> r > 0"
  using strcmp_order [OF two_strings_at] by (auto simp: ord.lexordp_simps)

text \<open>
  The idiom \<^verbatim>\<open>strncpy(d, s, n - 1); d[n - 1] = '\0'\<close> leaves at \<open>d\<close> the string \<open>s\<close> cut
  at \<open>n - 1\<close> bytes, terminated, and changes no byte outside \<open>d[0..n-1]\<close>.
\<close>

theorem strncpy_terminated:
  fixes n :: u64
  assumes "cstr_at m src bs" and "copy_safe dest src (unat n)" and "0 < n"
  defines "m' \<equiv> (strncpy m dest src (n - 1))(dest + (n - 1) := 0)"
  shows "cstr_at m' dest (take (unat n - 1) bs) \<and> (\<forall>x. unat n \<le> unat (x - dest) \<longrightarrow> m' x = m x)"
proof -
  let ?k = "unat n - 1"
  have n1: "unat (n - 1) = ?k" using assms(3) by (simp add: unat_minus_one unat_gt_0)
  have k: "?k < 2 ^ 64" using unat_u64_bound [of n] by simp
  have pos: "0 < unat n" using assms(3) by (simp add: word_less_nat_alt)
  let ?w = "take ?k bs @ replicate (?k - length bs) 0"
  have safe: "copy_safe dest src ?k" using assms(2) by (simp add: copy_safe_def)
  define w where "w = ?w"
  have lw: "length w = ?k" by (simp add: w_def)
  have e1: "strncpy m dest src (n - 1) = poke m dest w"
    using strncpy_cstr [OF assms(1), of dest "n - 1"] safe n1 by (simp add: w_def)
  have e2: "dest + (n - 1) = dest + of_nat (length w)"
    unfolding lw using of_nat_unat_u64 [of "n - 1"] n1 by simp
  have "m' = poke m dest (w @ [0])"
    unfolding m'_def e1 e2 by (rule poke_snoc [symmetric]) (use k lw in simp)
  then have m': "m' = poke m dest (?w @ [0])" by (simp add: w_def)
  have "?w @ [0] = take ?k bs @ 0 # (if length bs < ?k then replicate (?k - length bs) 0 else [])"
    by (auto simp: replicate_append_same)
  then have "cstr_at m' dest (take ?k bs)"
    using cstr_at_poke [of "take ?k bs"] cstr_at_nonzero [OF assms(1)] k m'
    by (metis in_set_takeD length_take min.strict_coboundedI2)
  moreover have "length (?w @ [0]) \<le> unat n" using pos by simp
  ultimately show ?thesis unfolding m' by (auto intro: poke_other order_trans)
qed

theorem strncpy_terminated_witness:
  "cstr_at ((strncpy two_strings 0x3000 0x1000 (4 - 1))(0x3000 + (4 - 1) := 0)) 0x3000 (bytes_of ''ls '')"
proof -
  have "copy_safe 0x3000 0x1000 (unat (4 :: u64))" and "(0 :: u64) < 4"
    by (simp_all add: copy_safe_def)
  from strncpy_terminated [OF two_strings_at(1) this] show ?thesis by simp
qed

text \<open>
  \<open>strstr\<close> returns on any two C strings, with the address of the first occurrence of
  the needle, or \<^verbatim>\<open>NULL\<close> when it occurs nowhere.
\<close>

theorem strstr_first:
  assumes "cstr_at m h hs" and "cstr_at m n ns"
  shows "(\<exists>i. strstr m h n = Some (h + of_nat i) \<and> i \<le> length hs \<and>
      take (length ns) (drop i hs) = ns \<and> (\<forall>j < i. take (length ns) (drop j hs) \<noteq> ns)) \<or>
    strstr m h n = Some 0 \<and> (\<forall>i \<le> length hs. take (length ns) (drop i hs) \<noteq> ns)"
proof (cases "find_sub ns hs")
  case None
  have "take (length ns) (drop i hs) \<noteq> ns" if "i \<le> length hs" for i
  proof
    assume at: "take (length ns) (drop i hs) = ns"
    let ?j = "LEAST j. take (length ns) (drop j hs) = ns"
    have "?j \<le> i" using at by (rule Least_le)
    then have "?j \<le> length hs" using that by simp
    moreover have "take (length ns) (drop ?j hs) = ns" using at by (rule LeastI)
    moreover have "\<forall>j < ?j. take (length ns) (drop j hs) \<noteq> ns" using not_less_Least by blast
    ultimately have "find_sub ns hs = Some ?j" unfolding find_sub_Some by blast
    with None show False by simp
  qed
  with None show ?thesis using strstr_cstr [OF assms] by auto
next
  case (Some i)
  then show ?thesis using strstr_cstr [OF assms] find_sub_Some by (metis option.simps(5))
qed

theorem strstr_first_witness:
  "strstr two_strings 0x1000 0x2000 = Some 0x1002"
proof -
  have "strstr two_strings 0x1000 0x2000 = Some (0x1000 + 2)"
    using strstr_first [OF two_strings_at] strstr_cstr [OF two_strings_at] by simp
  then show ?thesis by simp
qed

text \<open>
  One call of \<open>strtok\<close> with a string or a saved position returns the next token:
  it skips the leading delimiters, NUL-terminates the longest run of other bytes, and
  leaves the position after it, where the rest of the string still stands.
\<close>

theorem strtok_next:
  assumes "(if str \<noteq> 0 then str else saved) = p" and "p \<noteq> 0" and "cstr_at m p bs"
    and "delims_at m d ds" and "token_split ds bs = (pre, tok, left)" and "tok \<noteq> []"
  shows "\<exists>m' saved'. strtok m saved str d = Some (p + of_nat (length pre), m', saved') \<and>
    cstr_at m' (p + of_nat (length pre)) tok \<and> set tok \<inter> set ds = {} \<and> set pre \<subseteq> set ds \<and>
    (if left = [] then saved' = 0
     else cstr_at m' saved' (tl left) \<and> saved' = p + of_nat (length pre + length tok + 1))"
proof -
  have bs: "bs = pre @ tok @ left" using token_split_append [OF assms(5)] .
  let ?t = "p + of_nat (length pre) :: u64"
  let ?a = "?t + of_nat (length tok) :: u64"
  have t: "cstr_at m ?t (tok @ left)" using assms(3) unfolding bs cstr_at_append by simp
  have len: "length pre + length tok + length left < 2 ^ 64"
    using cstr_at_length [OF assms(3)] by (simp add: bs)
  have sets: "set tok \<inter> set ds = {}" "set pre \<subseteq> set ds"
    using assms(5) by (auto simp: token_split_def Let_def dest: set_takeWhileD)
  show ?thesis
  proof (cases "left = []")
    case True
    then show ?thesis using strtok_cstr [OF assms(1-5)] assms(6) t sets by (simp add: Let_def)
  next
    case False
    then obtain x xs where l: "left = x # xs" by (cases left) auto
    have "?t + of_nat i \<noteq> ?a" if "i < length tok" for i
      using that len of_nat_inj_u64 [of i "length tok"] by simp
    then have "cstr_at (m(?a := 0)) ?t tok"
      using t by (simp add: cstr_at_append cstr_at_iff [of _ _ tok])
    moreover have "cstr_at m (?a + 1) xs"
      using t unfolding l by (simp add: cstr_at_append add.assoc)
    then have "cstr_at (m(?a := 0)) (?a + 1) xs"
    proof (rule cstr_at_upd_other)
      fix i assume "i \<le> length xs"
      then have "(of_nat (Suc i) :: u64) \<noteq> of_nat 0"
        using len l of_nat_inj_u64 [of "Suc i" 0] by simp
      then show "?a + 1 + of_nat i \<noteq> ?a" by (simp add: add.assoc)
    qed
    ultimately show ?thesis
      using strtok_cstr [OF assms(1-5)] assms(6) False l sets by (simp add: Let_def add.assoc)
  qed
qed

theorem strtok_next_witness:
  "\<exists>m saved'. strtok two_strings 0 0x1000 0x2000 = Some (0x1000, m, saved') \<and>
     cstr_at m 0x1000 (bytes_of ''ls'') \<and> cstr_at m saved' (bytes_of ''/tmp'')"
proof -
  have d: "delims_at two_strings 0x2000 (bytes_of '' '')"
    using two_strings_at(2) by (simp add: delims_at_def)
  have "token_split (bytes_of '' '') (bytes_of ''ls /tmp'') = ([], bytes_of ''ls'', bytes_of '' /tmp'')"
    by (simp add: token_split_def)
  from strtok_next [OF _ _ two_strings_at(1) d this, where str = "0x1000" and saved = 0]
  show ?thesis by auto
qed

end
