(* ===== verification/Prog_Name.thy ===== *)
theory Prog_Name
  imports C_String
begin

text \<open>
  Names of programs: \<^verbatim>\<open>strip_elf_extension\<close> of \<^verbatim>\<open>kernel/process.c\<close> on memory, and the same
  computation on the contents of the destination array, which is how the name field of a
  PCB is written.
\<close>

section \<open>The code\<close>

text \<open>
  \<open>lit\<close> is the address of the literal \<^verbatim>\<open>".elf"\<close>. A search in a string without end does not
  return (\<open>None\<close>).
\<close>

definition strip_elf_extension :: "u64 \<Rightarrow> mem \<Rightarrow> u64 \<Rightarrow> u64 \<Rightarrow> u64 \<Rightarrow> mem option" where
  "strip_elf_extension lit m progname out_name maxlen =
     (if progname = 0 \<or> out_name = 0 \<or> maxlen = 0 then Some m
      else
        (let m = (strncpy m out_name progname (maxlen - 1))(out_name + (maxlen - 1) := 0) in
         case strstr m out_name lit of
           None \<Rightarrow> None
         | Some dot \<Rightarrow>
             if dot = 0 then Some m
             else (case strcmp m dot lit of
                     None \<Rightarrow> None
                   | Some c \<Rightarrow> if c = 0 then Some (m(dot := 0)) else Some m)))"

text \<open>
  The array a bounded copy \<^verbatim>\<open>strncpy(d, s, n - 1); d[n - 1] = '\0'\<close> leaves, and the array
  \<^verbatim>\<open>strip_elf_extension\<close> leaves.
\<close>

definition buf_copy :: "nat \<Rightarrow> u8 list \<Rightarrow> u8 list" where
  "buf_copy n bs = take (n - 1) bs @ replicate (n - 1 - length bs) 0 @ [0]"

definition strip_name :: "nat \<Rightarrow> u8 list \<Rightarrow> u8 list" where
  "strip_name n bs =
     (let b = buf_copy n bs; name = take (n - 1) bs in
      case find_sub (bytes_of ''.elf'') name of
        None \<Rightarrow> b
      | Some i \<Rightarrow> if drop i name = bytes_of ''.elf'' then b[i := 0] else b)"

section \<open>The two agree\<close>

lemma strncpy_buf:
  fixes n :: u64
  assumes "cstr_at m src bs" and "copy_safe dest src (unat n)" and "0 < n"
  shows "(strncpy m dest src (n - 1))(dest + (n - 1) := 0) = poke m dest (buf_copy (unat n) bs)"
proof -
  let ?k = "unat n - 1"
  have n1: "unat (n - 1) = ?k" using assms(3) by (simp add: unat_minus_one unat_gt_0)
  have k: "?k < 2 ^ 64" using unat_u64_bound [of n] by simp
  define w where "w = take ?k bs @ replicate (?k - length bs) 0"
  have lw: "length w = ?k" by (simp add: w_def)
  have "copy_safe dest src ?k" using assms(2) by (simp add: copy_safe_def)
  then have e1: "strncpy m dest src (n - 1) = poke m dest w"
    using strncpy_cstr [OF assms(1), of dest "n - 1"] n1 by (simp add: w_def)
  have e2: "dest + (n - 1) = dest + of_nat (length w)"
    unfolding lw using of_nat_unat_u64 [of "n - 1"] n1 by simp
  have "(strncpy m dest src (n - 1))(dest + (n - 1) := 0) = poke m dest (w @ [0])"
    unfolding e1 e2 by (rule poke_snoc [symmetric]) (use k lw in simp)
  then show ?thesis by (simp add: w_def buf_copy_def)
qed


lemma poke_update:
  assumes "i < length bs" and "length bs \<le> 2 ^ 64"
  shows "(poke m d bs)(d + of_nat i := v) = poke m d (bs[i := v])"
proof (rule ext)
  fix x
  have "x = d + of_nat i \<longleftrightarrow> unat (x - d) = i" using assms by (simp add: add_of_nat_eq_iff)
  then show "((poke m d bs)(d + of_nat i := v)) x = poke m d (bs[i := v]) x"
    using assms(1) by (auto simp: poke_def nth_list_update)
qed

lemma buf_copy_split:
  "\<exists>zs. buf_copy n bs = take (n - 1) bs @ 0 # zs"
  by (cases "n - 1 - length bs") (auto simp: buf_copy_def)

lemma length_buf_copy: "0 < n \<Longrightarrow> length (buf_copy n bs) = n"
  by (auto simp: buf_copy_def)

lemma strip_elf_mem:
  assumes src: "cstr_at m src bs" "copy_safe out src (unat n)" and n: "0 < n"
    and ptr: "src \<noteq> 0" "out \<noteq> 0" "unat out + unat n \<le> 2 ^ 64"
    and lit: "cstr_at m lit (bytes_of ''.elf'')" "\<forall>k \<le> 4. unat n \<le> unat (lit + of_nat k - out)"
  shows "strip_elf_extension lit m src out n = Some (poke m out (strip_name (unat n) bs))"
proof -
  let ?b = "buf_copy (unat n) bs" and ?name = "take (unat n - 1) bs" and ?e = "bytes_of ''.elf''"
  let ?m = "poke m out ?b"
  have pos: "0 < unat n" using n by (simp add: word_less_nat_alt)
  have len: "length ?b = unat n" using pos by (rule length_buf_copy)
  have n64: "unat n < 2 ^ 64" using unat_u64_bound [of n] by simp
  obtain zs where zs: "?b = ?name @ 0 # zs" using buf_copy_split by blast
  have "length ?name < 2 ^ 64" using n64 by simp
  moreover have "0 \<notin> set ?name" using cstr_at_nonzero [OF src(1)] by (auto dest: in_set_takeD)
  ultimately have name: "cstr_at ?m out ?name" unfolding zs by (rule cstr_at_poke)
  have lit': "cstr_at ?m lit ?e"
    using lit len unfolding cstr_at_iff by (auto simp: poke_other)
  have step: "strip_elf_extension lit m src out n =
      (case strstr ?m out lit of None \<Rightarrow> None
       | Some dot \<Rightarrow> if dot = 0 then Some ?m
           else (case strcmp ?m dot lit of None \<Rightarrow> None
             | Some c \<Rightarrow> if c = 0 then Some (?m(dot := 0)) else Some ?m))"
    using n ptr(1,2) by (auto simp: strip_elf_extension_def strncpy_buf [OF src n] Let_def)
  note ss = strstr_cstr [OF name lit']
  show ?thesis
  proof (cases "find_sub ?e ?name")
    case None
    then show ?thesis using ss by (simp add: step strip_name_def)
  next
    case (Some i)
    have i: "i \<le> length ?name" "i < unat n"
      using Some pos unfolding find_sub_Some by auto
    have "unat (out + of_nat i) = unat out + i"
      using i(2) ptr(3) n64 unat_of_nat_u64 [of i] by (subst unat_add_u64) simp_all
    then have dot: "out + of_nat i \<noteq> 0" using ptr(2) by (auto simp: word_unat_eq_iff)
    have "cstr_at ?m out (take i ?name @ drop i ?name)" using name by (simp only: append_take_drop_id)
    then have "cstr_at ?m (out + of_nat i) (drop i ?name)"
      using i(1) unfolding cstr_at_append by simp
    then have cmp: "strcmp ?m (out + of_nat i) lit = Some (cmp_bytes (drop i ?name) ?e)"
      using lit' by (rule strcmp_cstr)
    have z: "cmp_bytes (drop i ?name) ?e = 0 \<longleftrightarrow> drop i ?name = ?e"
    proof (rule cmp_bytes_eq_0)
      show "0 \<notin> set (drop i ?name)"
        using cstr_at_nonzero [OF src(1)] by (auto dest: in_set_dropD in_set_takeD)
    qed simp
    have "?m(out + of_nat i := 0) = poke m out (?b[i := 0])"
      using i(2) len n64 by (intro poke_update) simp_all
    then show ?thesis using Some ss dot cmp z by (simp add: step strip_name_def Let_def)
  qed
qed

section \<open>Properties\<close>

text \<open>
  \<open>strip_elf_extension\<close> returns, writes only the destination array, and leaves there
  the name cut to the array: without its ending \<^verbatim>\<open>".elf"\<close> when that is the first occurrence
  of \<^verbatim>\<open>".elf"\<close> in it, and unchanged otherwise, so a name such as \<^verbatim>\<open>"a.elf.elf"\<close> keeps its
  ending.
\<close>

theorem strip_elf_extension_strips:
  assumes "cstr_at m src bs" and "copy_safe out src (unat n)" and "0 < n"
    and "src \<noteq> 0" and "out \<noteq> 0" and "unat out + unat n \<le> 2 ^ 64"
    and "cstr_at m lit (bytes_of ''.elf'')" and "\<forall>k \<le> 4. unat n \<le> unat (lit + of_nat k - out)"
  defines "name \<equiv> take (unat n - 1) bs"
  shows "\<exists>m'. strip_elf_extension lit m src out n = Some m' \<and>
    cstr_at m' out
      (if find_sub (bytes_of ''.elf'') name = Some (length name - 4) \<and> 4 \<le> length name
       then take (length name - 4) name else name) \<and>
    (\<forall>x. unat n \<le> unat (x - out) \<longrightarrow> m' x = m x)"
proof -
  let ?e = "bytes_of ''.elf''" and ?b = "buf_copy (unat n) bs" and ?r = "strip_name (unat n) bs"
  have pos: "0 < unat n" using assms(3) by (simp add: word_less_nat_alt)
  have n64: "unat n < 2 ^ 64" using unat_u64_bound [of n] by simp
  obtain zs where zs: "?b = name @ 0 # zs" using buf_copy_split unfolding name_def by blast
  have len: "length name < 2 ^ 64" using n64 by (simp add: name_def)
  have nz: "0 \<notin> set name" using cstr_at_nonzero [OF assms(1)] by (auto simp: name_def dest: in_set_takeD)
  have lr: "length ?r = unat n"
    using length_buf_copy [OF pos] by (simp add: strip_name_def Let_def split: option.split)
  have out: "\<forall>x. unat n \<le> unat (x - out) \<longrightarrow> poke m out ?r x = m x" using lr by (simp add: poke_other)
  have run: "strip_elf_extension lit m src out n = Some (poke m out ?r)"
    using assms(1-8) by (rule strip_elf_mem)
  show ?thesis
  proof (cases "\<exists>i. find_sub ?e name = Some i \<and> drop i name = ?e")
    case True
    then obtain i where i: "find_sub ?e name = Some i" "drop i name = ?e" by blast
    have "length (drop i name) = 4" using i(2) by simp
    then have il: "i = length name - 4" "4 \<le> length name" by simp_all
    have "?r = ?b[i := 0]"
      unfolding strip_name_def name_def [symmetric] Let_def by (simp only: i option.case) simp
    also have "\<dots> = take i name @ 0 # (drop (Suc i) name @ 0 # zs)"
      unfolding zs using il by (simp add: upd_conv_take_nth_drop)
    finally have r: "?r = take i name @ 0 # (drop (Suc i) name @ 0 # zs)" .
    have "length (take i name) < 2 ^ 64" using len by simp
    moreover have "0 \<notin> set (take i name)" using nz by (auto dest: in_set_takeD)
    ultimately have "cstr_at (poke m out ?r) out (take i name)"
      unfolding r by (rule cstr_at_poke)
    then show ?thesis using run out i(1) il by auto
  next
    case False
    then have "?r = ?b"
      unfolding strip_name_def name_def [symmetric] Let_def by (simp split: option.split)
    then have c: "cstr_at (poke m out ?r) out name" using zs cstr_at_poke [OF len nz] by simp
    have "\<not> (find_sub ?e name = Some (length name - 4) \<and> 4 \<le> length name)"
    proof
      assume f: "find_sub ?e name = Some (length name - 4) \<and> 4 \<le> length name"
      then have "take (length ?e) (drop (length name - 4) name) = ?e" unfolding find_sub_Some by blast
      then have "drop (length name - 4) name = ?e" using f by simp
      with False f show False by blast
    qed
    then show ?thesis using run out c by auto
  qed
qed

definition name_memory :: mem where
  "name_memory = poke (poke (\<lambda>_. 0) 0x1000 (bytes_of ''ls.elf'' @ [0])) 0x2000 (bytes_of ''.elf'' @ [0])"

theorem strip_elf_extension_strips_witness:
  "\<exists>m'. strip_elf_extension 0x2000 name_memory 0x1000 0x3000 64 = Some m' \<and>
     cstr_at m' 0x3000 (bytes_of ''ls'')"
proof -
  have at: "cstr_at name_memory 0x1000 (bytes_of ''ls.elf'')" "cstr_at name_memory 0x2000 (bytes_of ''.elf'')"
    by (simp_all add: name_memory_def poke_def)
  have safe: "copy_safe 0x3000 0x1000 (unat (64 :: u64))" by (simp add: copy_safe_def)
  have far: "\<forall>k \<le> 4. unat (64 :: u64) \<le> unat (0x2000 + of_nat k - (0x3000 :: u64))"
  proof (intro allI impI)
    fix k :: nat assume "k \<le> 4"
    then have "k \<in> {0, 1, 2, 3, 4}" by auto
    then show "unat (64 :: u64) \<le> unat (0x2000 + of_nat k - (0x3000 :: u64))"
      by (elim insertE emptyE) simp_all
  qed
  have "find_sub (bytes_of ''.elf'') (bytes_of ''ls.elf'') = Some 2" by simp
  then show ?thesis
    using strip_elf_extension_strips [OF at(1) safe _ _ _ _ at(2) far] by auto
qed

end
