(* ===== verification/Process.thy ===== *)
theory Process
  imports Vm_Ops Tracker_Sweep Prog_Name
begin

text \<open>
  \<^verbatim>\<open>kernel/process.c\<close>: the process table, the construction of an address space from a
  flat program image, and the teardown of a process. A process is the index of its PCB in
  \<^verbatim>\<open>procs[]\<close>. Its trap frame lies in memory: \<open>tf_frame\<close> is the address of the frame at the
  top of the 8 KiB \<^verbatim>\<open>tf_stack\<close> inside the PCB (8640 bytes each, \<^verbatim>\<open>tf_stack\<close> at offset
  80), and the 32 words of a frame are addressed by their offset.
\<close>

section \<open>The code\<close>

definition USER_BASE :: u64 where
  "USER_BASE = 0x1000000"

definition tf_stack_base :: "linker_syms \<Rightarrow> nat \<Rightarrow> u64" where
  "tf_stack_base L i = procs_base L + of_nat i * 8640 + 80"

definition tf_stack_top :: "linker_syms \<Rightarrow> nat \<Rightarrow> u64" where
  "tf_stack_top L i = tf_stack_base L i + 8192"

definition tf_frame :: "linker_syms \<Rightarrow> nat \<Rightarrow> u64" where
  "tf_frame L i = tf_stack_top L i - 256"

text \<open>Offsets of the fields of \<^verbatim>\<open>trap_frame_t\<close> that the C code names.\<close>

definition TF_RA :: u64 where "TF_RA = 0"
definition TF_A0 :: u64 where "TF_A0 = 80"
definition TF_A1 :: u64 where "TF_A1 = 88"
definition TF_A2 :: u64 where "TF_A2 = 96"
definition TF_A7 :: u64 where "TF_A7 = 136"
definition TF_SP :: u64 where "TF_SP = 240"
definition TF_EPC :: u64 where "TF_EPC = 248"

definition tf_set :: "u64 \<Rightarrow> u64 \<Rightarrow> u64 \<Rightarrow> kstate \<Rightarrow> kstate" where
  "tf_set tf off v s = s\<lparr>mem := store64 (mem s) (tf + off) v\<rparr>"

definition tf_get :: "kstate \<Rightarrow> u64 \<Rightarrow> u64 \<Rightarrow> u64" where
  "tf_get s tf off = load64 (mem s) (tf + off)"

definition get_proc_by_pid :: "int \<Rightarrow> nat option" where
  "get_proc_by_pid pid = (if pid \<le> 0 \<or> int PROCS_MAX < pid then None else Some (nat (pid - 1)))"

definition alloc_free_proc :: "linker_syms \<Rightarrow> kstate \<Rightarrow> nat option \<times> kstate" where
  "alloc_free_proc L s =
     (case first_index (\<lambda>p. p_state p = PROC_UNUSED) (procs s) of
        None \<Rightarrow> (None, s)
      | Some i \<Rightarrow>
          (Some i,
           s\<lparr>procs := (procs s)[i := zero_proc\<lparr>p_pid := int i + 1\<rparr>],
             mem := memset (mem s) (tf_stack_base L i) 0 8192\<rparr>))"

text \<open>
  The four stages \<^verbatim>\<open>create_init_process\<close> and \<^verbatim>\<open>exec_process\<close> share, with the same text:
  the identity map of the kernel, the pages of the image, the stack and the first heap
  page. Their ends are the globals the ELF loader has set.
\<close>

definition map_kernel :: "linker_syms \<Rightarrow> u64 \<Rightarrow> kstate \<Rightarrow> (unit, kstate) kres" where
  "map_kernel L pt s =
     for_pages (\<lambda>pa. pa < free_ram_end L)
       (\<lambda>pa s. map_page L pt pa pa (PTE_V OR PTE_R OR PTE_W OR PTE_X) s) (kernel_base L) s"

definition image_pages :: "u64 \<Rightarrow> u64" where
  "image_pages image_size = (image_size + 4096 - 1) div 4096"

definition load_page ::
  "linker_syms \<Rightarrow> u64 \<Rightarrow> u64 \<Rightarrow> u64 \<Rightarrow> nat \<Rightarrow> kstate \<Rightarrow> (unit, kstate) kres" where
  "load_page L pt flat_image image_size i s =
     kbind (alloc_pages L 1 s) (\<lambda>page s.
       (let c = (if of_nat i = image_pages image_size - 1 then image_size - of_nat i * 4096 else 4096);
            s = s\<lparr>mem := memcpy (mem s) page (flat_image + of_nat i * 4096) c\<rparr>
        in map_page L pt (USER_BASE + of_nat i * 4096) page
             (PTE_V OR PTE_U OR PTE_R OR PTE_W OR PTE_X) s))"

definition load_image :: "linker_syms \<Rightarrow> u64 \<Rightarrow> u64 \<Rightarrow> u64 \<Rightarrow> kstate \<Rightarrow> (unit, kstate) kres" where
  "load_image L pt flat_image image_size s =
     k_for 0 (unat (image_pages image_size)) (load_page L pt flat_image image_size) s"

definition map_stack :: "linker_syms \<Rightarrow> u64 \<Rightarrow> kstate \<Rightarrow> (unit, kstate) kres" where
  "map_stack L pt s =
     for_pages (\<lambda>va. va \<le> g_user_stack_top s)
       (\<lambda>va s. kbind (alloc_pages L 1 s) (\<lambda>pa s.
          map_page L pt va pa (PTE_V OR PTE_R OR PTE_W OR PTE_U) s))
       (g_user_stack_bottom s) s"

definition map_heap :: "linker_syms \<Rightarrow> u64 \<Rightarrow> kstate \<Rightarrow> (unit, kstate) kres" where
  "map_heap L pt s =
     kbind (alloc_pages L 1 s) (\<lambda>heap_page s.
     kbind (map_page L pt (g_user_heap_start s) heap_page (PTE_V OR PTE_U OR PTE_R OR PTE_W) s)
       (\<lambda>_ s. kret () (s\<lparr>mem := memset (mem s) heap_page 0 4096\<rparr>)))"

definition build_user_space ::
  "linker_syms \<Rightarrow> u64 \<Rightarrow> u64 \<Rightarrow> u64 \<Rightarrow> kstate \<Rightarrow> (unit, kstate) kres" where
  "build_user_space L pt flat_image image_size s =
     kbind (map_kernel L pt s) (\<lambda>_ s.
     kbind (load_image L pt flat_image image_size s) (\<lambda>_ s.
     kbind (map_stack L pt s) (\<lambda>_ s.
       map_heap L pt s)))"

definition create_init_process :: "linker_syms \<Rightarrow> u64 \<Rightarrow> u64 \<Rightarrow> kstate \<Rightarrow> (nat, kstate) kres" where
  "create_init_process L flat_image image_size s =
     (case first_index (\<lambda>p. p_state p = PROC_UNUSED) (procs s) of
        None \<Rightarrow> kpanic No_free_pcb
      | Some i \<Rightarrow>
          (let s = s\<lparr>process_count := process_count s + 1\<rparr>;
               tf = tf_frame L i;
               s = upd_proc i (\<lambda>p. p\<lparr>p_tf := tf\<rparr>) s;
               s = s\<lparr>mem := memset (mem s) tf 0 256\<rparr>;
               s = tf_set tf TF_SP (g_user_stack_top s) s;
               s = tf_set tf TF_RA (sym_user_entry L) s;
               s = tf_set tf TF_EPC USER_BASE s;
               s = upd_proc i (\<lambda>p. p\<lparr>p_sp := tf\<rparr>) s;
               s = (case current_proc s of
                      None \<Rightarrow> s
                    | Some c \<Rightarrow>
                        upd_proc i (\<lambda>p. p\<lparr>p_parent := Some c,
                          p_parent_pid := p_pid (procs s ! c)\<rparr>) s)
           in kbind (alloc_pages L 1 s) (\<lambda>pt s.
                (let s = upd_proc i (\<lambda>p. p\<lparr>p_page_table := pt\<rparr>) s in
                 kbind (build_user_space L pt flat_image image_size s) (\<lambda>_ s.
                   kret i (upd_proc i (\<lambda>p. p\<lparr>p_pid := 1 + int i, p_state := PROC_RUNNABLE,
                     p_heap_end := g_user_heap_start s + 4096,
                     p_user_stack_top := g_user_stack_top s,
                     p_entry_point := USER_BASE, p_image_pa := flat_image,
                     p_image_npages := image_pages image_size\<rparr>) s))))))"

text \<open>A \<^verbatim>\<open>NULL\<close> \<^verbatim>\<open>current_proc\<close> faults at the store to \<^verbatim>\<open>p->tf\<close>, at offset 72.\<close>

definition exec_process :: "linker_syms \<Rightarrow> u64 \<Rightarrow> u64 \<Rightarrow> kstate \<Rightarrow> (nat, kstate) kres" where
  "exec_process L flat_image image_size s =
     (case current_proc s of
        None \<Rightarrow> kpanic (Page_fault 72)
      | Some i \<Rightarrow>
          (let s = upd_proc i (\<lambda>p. p\<lparr>p_tf := tf_frame L i\<rparr>) s in
           kbind (alloc_pages L 1 s) (\<lambda>pt s.
             (let s = upd_proc i (\<lambda>p. p\<lparr>p_page_table := pt\<rparr>) s in
              kbind (build_user_space L pt flat_image image_size s) (\<lambda>_ s.
                kret i (upd_proc i (\<lambda>p. p\<lparr>p_state := PROC_RUNNING,
                  p_heap_end := g_user_heap_start s + 4096,
                  p_user_stack_top := g_user_stack_top s,
                  p_entry_point := USER_BASE, p_image_pa := flat_image,
                  p_image_npages := image_pages image_size\<rparr>) s))))))"

text \<open>
  The teardown. \<open>free_leaf\<close> is the body of the loop over the user pages;
  \<open>free_pagetable\<close> gets fuel for a tree of tables (three levels) and the empty level
  below.
\<close>

definition free_leaf :: "u64 \<Rightarrow> u64 \<Rightarrow> kstate \<Rightarrow> (unit, kstate) kres" where
  "free_leaf root va s =
     (let vpn2 = drop_bit 30 va AND 0x1FF;
          vpn1 = drop_bit 21 va AND 0x1FF;
          vpn0 = drop_bit 12 va AND 0x1FF;
          l2e = pte_read (mem s) root vpn2
      in if l2e AND PTE_V = 0 then kret () s
         else
           (let l1e = pte_read (mem s) (PTE2PA l2e) vpn1 in
            if l1e AND PTE_V = 0 then kret () s
            else
              (let pte = pte_read (mem s) (PTE2PA l1e) vpn0 in
               if pte AND PTE_V = 0 then kret () s
               else if pte AND PTE_U = 0 then kret () s
               else kbind (unmap_page root va s) (\<lambda>_ s.
                 kret () (free_page (PTE2PA pte) s)))))"

definition PT_FUEL :: nat where
  "PT_FUEL = 4"

definition process_free_userspace :: "nat \<Rightarrow> kstate \<Rightarrow> (unit, kstate) kres" where
  "process_free_userspace i s =
     (let root = p_page_table (procs s ! i) in
      if root = 0 then kret () s
      else
        (let end_va = (if g_user_stack_top s < p_heap_end (procs s ! i)
                       then p_heap_end (procs s ! i) else g_user_stack_top s);
             end_va = (end_va + 4096 - 1) AND NOT (4096 - 1)
         in kbind (for_pages (\<lambda>va. va \<le> end_va) (free_leaf root) USER_BASE s) (\<lambda>_ s.
            kbind (free_pagetable PT_FUEL root 2 s) (\<lambda>_ s.
              kret () (upd_proc i (\<lambda>p. p\<lparr>p_page_table := 0\<rparr>) (free_page root s))))))"

definition free_proc :: "nat \<Rightarrow> kstate \<Rightarrow> (unit, kstate) kres" where
  "free_proc i s =
     (let s = (if p_tf (procs s ! i) \<noteq> 0 then upd_proc i (\<lambda>p. p\<lparr>p_tf := 0\<rparr>) s else s);
          s = (if p_image_pa (procs s ! i) \<noteq> 0
               then upd_proc i (\<lambda>p. p\<lparr>p_image_pa := 0, p_image_npages := 0\<rparr>)
                      (free_pages_range (p_image_pa (procs s ! i)) (p_image_npages (procs s ! i)) s)
               else s)
      in kbind
           (if p_page_table (procs s ! i) \<noteq> 0
            then kbind (process_free_userspace i s) (\<lambda>_ s.
              kret () (upd_proc i (\<lambda>p. p\<lparr>p_page_table := 0\<rparr>) s))
            else kret () s)
           (\<lambda>_ s.
             (let s = free_all_tracked_for_pid (p_pid (procs s ! i)) s;
                  s = upd_proc i (\<lambda>p. p\<lparr>p_state := PROC_UNUSED, p_pid := 0, p_parent := None,
                        p_name := (p_name p)[0 := 0], p_heap_end := 0, p_user_stack_top := 0,
                        p_argc := 0, p_argv_ptr := 0\<rparr>) s
              in kret () (s\<lparr>process_count := process_count s - 1\<rparr>))))"

definition proc_state_str :: "proc_state_t \<Rightarrow> u8 list" where
  "proc_state_str st =
     (case st of
        PROC_UNUSED \<Rightarrow> bytes_of ''UNUSED  ''
      | PROC_RUNNABLE \<Rightarrow> bytes_of ''RUNNABLE''
      | PROC_RUNNING \<Rightarrow> bytes_of ''RUNNING ''
      | PROC_WAITING \<Rightarrow> bytes_of ''WAITING ''
      | PROC_ZOMBIE \<Rightarrow> bytes_of ''ZOMBIE  '')"

end
