(* ===== verification/User_Space.thy ===== *)
theory User_Space
  imports Process
begin

text \<open>
  The address space that \<^verbatim>\<open>create_init_process\<close> and \<^verbatim>\<open>exec_process\<close> build. \<open>missing\<close> counts
  the tables that a set of mappings still needs, so that each mapping is known to return
  as long as the pool covers them; \<open>uspace\<close> is the abstract address space: which pages are
  mapped with which permissions, and which bytes a user address reads.
\<close>

section \<open>The pages a set of mappings needs\<close>

definition missing :: "u64 list set \<Rightarrow> mem \<Rightarrow> u64 \<Rightarrow> nat" where
  "missing A m root = card {ip \<in> A. table_of m root ip = None}"

lemma map_level_budget:
  assumes ok: "vm_ok L root s" and at: "index_path (ip @ [i])" "table_of (mem s) root ip = Some t"
    and A: "finite A" "ip @ [i] \<in> A" "\<forall>js \<in> A. index_path js"
    and room: "missing A (mem s) root + k \<le> avail L s"
  shows "\<exists>u s'. map_level L t i s = Inr (u, s') \<and> missing A (mem s') root + k \<le> avail L s'"
proof (cases "pte_read (mem s) t i AND PTE_V = 0")
  case False
  then show ?thesis using room by (simp add: map_level_def)
next
  case True
  note ok3 = vm_okD [OF ok]
  let ?M = "{js \<in> A. table_of (mem s) root js = None}"
  have "table_of (mem s) root (ip @ [i]) = None"
    using at(2) True by (simp add: table_of_append table_of.simps(2))
  then have mem: "ip @ [i] \<in> ?M" using A(2) by simp
  then have pos: "0 < missing A (mem s) root"
    using A(1) by (auto simp: missing_def card_gt_0_iff)
  obtain q s1 where q: "alloc_pages L 1 s = Inr (q, s1)"
    using alloc_one_returns [OF ok3(1)] pos room by (metis add_gr_0 order_less_le_trans)
  obtain u s' where run: "map_level L t i s = Inr (u, s')" and av: "avail L s' = avail L s1"
    using True q by (simp add: map_level_def Let_def)
  note n = map_level_new [OF ok at True run]
  have "{js \<in> A. table_of (mem s') root js = None} = ?M - {ip @ [i]}"
    using link_table_paths [OF ok3(2,3) at True n(5,2)] n(4) A(3)
    by (auto split: if_splits)
  then have "Suc (missing A (mem s') root) = missing A (mem s) root"
    using mem A(1) pos by (simp add: missing_def)
  moreover have "avail L s = Suc (avail L s')" using alloc_one_avail [OF ok3(1) q] av by simp
  ultimately show ?thesis using run room by auto
qed

text \<open>Writing a leaf entry moves no table.\<close>

lemma leaf_write_tables:
  assumes ok: "vm_ok L root s" and t: "table_of (mem s) root (va_path va) = Some t"
    and js: "index_path js"
  shows "table_of (store64 (mem s) (pte_addr t (PX 0 va)) e) root js = table_of (mem s) root js"
proof (rule table_of_pte_write [OF vm_okD(2,3) [OF ok] index_path_va_path t PX_less js])
  show "\<nexists>rest. js = va_path va @ PX 0 va # rest"
    using js by (auto dest: arg_cong [of _ _ length] simp: index_path_def)
qed

lemma map_page_budget:
  assumes ok: "vm_ok L root s" and al: "page_aligned va" "page_aligned pa"
    and A: "finite A" "[PX 2 va] \<in> A" "va_path va \<in> A" "\<forall>js \<in> A. index_path js"
    and room: "missing A (mem s) root + k \<le> avail L s"
  shows "\<exists>s'. map_page L root va pa flags s = Inr ((), s') \<and>
    missing A (mem s') root + k \<le> avail L s'"
proof -
  have "index_path ([] @ [PX 2 va])" and "[] @ [PX 2 va] \<in> A" using A(2) by simp_all
  then obtain t1 s1 where l2: "map_level L root (PX 2 va) s = Inr (t1, s1)"
    and r1: "missing A (mem s1) root + k \<le> avail L s1"
    using map_level_budget [OF ok _ _ A(1) _ A(4) room, of "[]" "PX 2 va" root] by auto
  have ok1: "vm_ok L root s1" "table_of (mem s1) root [PX 2 va] = Some t1"
    using map_level_ok [OF ok, of "[]" "PX 2 va" root t1 s1] l2 by simp_all
  have "index_path ([PX 2 va] @ [PX 1 va])" and "[PX 2 va] @ [PX 1 va] \<in> A"
    using A(3) index_path_va_path [of va] by (simp_all add: va_path_def)
  then obtain t0 s2 where l1: "map_level L t1 (PX 1 va) s1 = Inr (t0, s2)"
    and r2: "missing A (mem s2) root + k \<le> avail L s2"
    using map_level_budget [OF ok1(1) _ ok1(2) A(1) _ A(4) r1] by blast
  have ok2: "vm_ok L root s2" "table_of (mem s2) root (va_path va) = Some t0"
    using map_level_ok [OF ok1(1) _ ok1(2) l1] by (simp_all add: va_path_def)
  let ?e = "PA2PTE pa OR flags OR PTE_V"
  let ?s' = "pte_write t0 (PX 0 va) ?e s2"
  have run: "map_page L root va pa flags s = Inr ((), ?s')"
    using l2 l1 al by (simp add: map_page_def page_aligned_def Let_def vpn_PX)
  note w = leaf_write_tables [OF ok2]
  have "missing A (mem ?s') root = missing A (mem s2) root"
    using w A(4) by (simp add: missing_def cong: conj_cong)
  with run r2 show ?thesis by simp
qed


lemma alloc_budget:
  assumes ok: "vm_ok L root s" and A: "\<forall>js \<in> A. index_path js"
    and room: "missing A (mem s) root + Suc k \<le> avail L s"
  obtains p s1 where "alloc_pages L 1 s = Inr (p, s1)" and "missing A (mem s1) root + k \<le> avail L s1"
proof -
  note ok3 = vm_okD [OF ok]
  obtain p s1 where run: "alloc_pages L 1 s = Inr (p, s1)"
    using alloc_one_returns [OF ok3(1)] room by (metis add_gr_0 order_less_le_trans zero_less_Suc)
  note a = alloc_one_spec [OF ok3(1) run]
  have "tables (mem s) root \<inter> {p} = {}" using tables_subset [OF ok3(2)] a(2) by blast
  then have "table_of (mem s1) root js = table_of (mem s) root js" if "index_path js" for js
    using table_of_outside [OF that ok3(2) kpages.alloc_outside [OF ok3(1) run] _ ok3(3)] by blast
  then have "missing A (mem s1) root = missing A (mem s) root"
    using A by (simp add: missing_def cong: conj_cong)
  with that run room alloc_one_avail [OF ok3(1) run] show thesis by auto
qed

lemma data_write_budget:
  assumes ok: "vm_ok L root s" and A: "\<forall>js \<in> A. index_path js"
    and w: "same_outside P (mem s) m" "tables (mem s) root \<inter> P = {}"
  shows "missing A m root = missing A (mem s) root"
proof -
  note ok3 = vm_okD [OF ok]
  have "table_of m root js = table_of (mem s) root js" if "index_path js" for js
    by (rule table_of_outside [OF that ok3(2) w ok3(3)])
  then show ?thesis using A by (simp add: missing_def cong: conj_cong)
qed

section \<open>The abstract address space\<close>

text \<open>
  \<open>vm_grow\<close>: from \<open>s\<close> to \<open>s'\<close> only tables of the tree and pages that were free have been
  written.
\<close>

definition vm_grow :: "linker_syms \<Rightarrow> u64 \<Rightarrow> kstate \<Rightarrow> kstate \<Rightarrow> bool" where
  "vm_grow L root s s' \<longleftrightarrow>
     owned L s \<subseteq> owned L s' \<and>
     tables (mem s') root \<subseteq> tables (mem s) root \<union> (owned L s' - owned L s) \<and>
     same_outside (tables (mem s) root \<union> (owned L s' - owned L s)) (mem s) (mem s') \<and>
     proc_view s' = proc_view s"

lemma vm_grow_refl [simp]: "vm_grow L root s s"
  by (simp add: vm_grow_def)

lemma vm_grow_trans:
  assumes "vm_grow L root s t" and "vm_grow L root t u"
  shows "vm_grow L root s u"
proof -
  have sub: "tables (mem t) root \<union> (owned L u - owned L t) \<subseteq>
      tables (mem s) root \<union> (owned L u - owned L s)"
    using assms unfolding vm_grow_def by blast
  have "same_outside ((tables (mem s) root \<union> (owned L t - owned L s)) \<union>
      (tables (mem t) root \<union> (owned L u - owned L t))) (mem s) (mem u)"
    using assms unfolding vm_grow_def by (blast intro: same_outside_trans)
  then have "same_outside (tables (mem s) root \<union> (owned L u - owned L s)) (mem s) (mem u)"
    by (rule same_outside_mono) (use assms sub in \<open>auto simp: vm_grow_def\<close>)
  with assms sub show ?thesis unfolding vm_grow_def by auto
qed

lemma vm_step_grow: "vm_step L root s s' \<Longrightarrow> vm_grow L root s s'"
  by (auto simp: vm_step_def vm_grow_def)

lemma alloc_grow:
  assumes "vm_ok L root s" and "alloc_pages L 1 s = Inr (p, s1)"
    and "same_outside {p} (mem s1) m"
  shows "vm_grow L root s (s1\<lparr>mem := m\<rparr>)" and "vm_ok L root (s1\<lparr>mem := m\<rparr>)"
    and "owned L (s1\<lparr>mem := m\<rparr>) = insert p (owned L s)"
    and "tables m root = tables (mem s) root" and "p \<notin> owned L s" and "page_aligned p"
    and "pt_leaf m root va = pt_leaf (mem s) root va"
    and "same_outside {p} (mem s) m"
proof -
  note a = alloc_one_spec [OF vm_okD(1) [OF assms(1)] assms(2)] and d = alloc_data [OF assms(1,2)]
  have P: "{p} \<subseteq> owned L s1" "tables (mem s1) root \<inter> {p} = {}" using a(3) d(4) by auto
  note w = data_write [OF d(1) assms(3) P]
  show out: "same_outside {p} (mem s) m"
    using same_outside_trans [OF kpages.alloc_outside [OF vm_okD(1) [OF assms(1)] assms(2)] assms(3)]
    by simp
  show own: "owned L (s1\<lparr>mem := m\<rparr>) = insert p (owned L s)"
    using kpages.put_owns [OF a(1) assms(3) P(1)] a(3) by simp
  show "vm_ok L root (s1\<lparr>mem := m\<rparr>)" and "tables m root = tables (mem s) root"
    and "p \<notin> owned L s" and "page_aligned p" and "pt_leaf m root va = pt_leaf (mem s) root va"
    using w d a by simp_all
  show "vm_grow L root s (s1\<lparr>mem := m\<rparr>)"
    using own out a(2,5) w(2) d(2)
    by (auto simp: vm_grow_def intro: same_outside_mono)
qed

text \<open>The physical page a virtual address is mapped to.\<close>

definition upage :: "mem \<Rightarrow> u64 \<Rightarrow> u64 \<Rightarrow> u64" where
  "upage m root va = PTE2PA (pt_leaf m root va)"

text \<open>
  \<open>space_is L root s0 s R c\<close>: since \<open>s0\<close> the address space below \<open>root\<close> has become \<open>R\<close>, a map
  from virtual pages to permissions. A page without permissions is not mapped. A page
  without the \<^verbatim>\<open>U\<close> bit is mapped to itself. A user page is mapped to a page of its own,
  which was free in \<open>s0\<close> and is no table, and an address \<open>va\<close> in it reads the byte
  \<open>c va\<close>.
\<close>

definition user_flags :: "u64 option \<Rightarrow> bool" where
  "user_flags f = (case f of None \<Rightarrow> False | Some fl \<Rightarrow> fl AND PTE_U \<noteq> 0)"

definition mapped_as :: "linker_syms \<Rightarrow> u64 \<Rightarrow> kstate \<Rightarrow> kstate \<Rightarrow> (u64 \<Rightarrow> u8) \<Rightarrow> u64 option \<Rightarrow> u64 \<Rightarrow> bool" where
  "mapped_as L root s0 s c f va =
     (case f of
        None \<Rightarrow> pt_leaf (mem s) root va = 0
      | Some fl \<Rightarrow>
          pt_leaf (mem s) root va = PA2PTE (upage (mem s) root va) OR fl OR PTE_V \<and>
          (if fl AND PTE_U = 0 then upage (mem s) root va = page_base va
           else upage (mem s) root va \<in> owned L s - owned L s0 - tables (mem s) root \<and>
             mem s (upage (mem s) root va + (va AND 0xFFF)) = c va))"

definition space_is ::
  "linker_syms \<Rightarrow> u64 \<Rightarrow> kstate \<Rightarrow> kstate \<Rightarrow> (u64 \<Rightarrow> u64 option) \<Rightarrow> (u64 \<Rightarrow> u8) \<Rightarrow> bool" where
  "space_is L root s0 s R c \<longleftrightarrow>
     (\<forall>va. va < 0x8000000000 \<longrightarrow> mapped_as L root s0 s c (R (page_base va)) va) \<and>
     (\<forall>va vb. va < 0x8000000000 \<longrightarrow> vb < 0x8000000000 \<longrightarrow>
        user_flags (R (page_base va)) \<longrightarrow> user_flags (R (page_base vb)) \<longrightarrow>
        upage (mem s) root va = upage (mem s) root vb \<longrightarrow> page_base va = page_base vb)"

definition uspace ::
  "linker_syms \<Rightarrow> u64 \<Rightarrow> kstate \<Rightarrow> kstate \<Rightarrow> (u64 \<Rightarrow> u64 option) \<Rightarrow> (u64 \<Rightarrow> u8) \<Rightarrow> bool" where
  "uspace L root s0 s R c \<longleftrightarrow> vm_ok L root s \<and> vm_grow L root s0 s \<and> space_is L root s0 s R c"

text \<open>The same without the history since \<open>s0\<close>: what a process has at any later time.\<close>

definition dspace ::
  "linker_syms \<Rightarrow> u64 \<Rightarrow> kstate \<Rightarrow> kstate \<Rightarrow> (u64 \<Rightarrow> u64 option) \<Rightarrow> (u64 \<Rightarrow> u8) \<Rightarrow> bool" where
  "dspace L root s0 s R c \<longleftrightarrow>
     vm_ok L root s \<and> owned L s0 \<subseteq> owned L s \<and> space_is L root s0 s R c"

lemma uspace_dspace: "uspace L root s0 s R c \<longleftrightarrow> dspace L root s0 s R c \<and> vm_grow L root s0 s"
  by (auto simp: uspace_def dspace_def vm_grow_def)

lemma page_offset:
  assumes "page_aligned p"
  shows "page_base (p + (va AND 0xFFF)) = p"
proof -
  have "va AND 0xFFF < 4096" by (rule le_less_trans [OF word_and_le1]) simp
  then show ?thesis by (simp add: in_page_iff [OF assms])
qed

lemma upage_mapped:
  assumes "pt_leaf m root va = PA2PTE p OR fl OR PTE_V" and "page_aligned p" and "fl < 1024"
  shows "upage m root va = p"
  unfolding upage_def assms(1) or.assoc
  by (rule PTE2PA_PA2PTE [OF assms(2) flags_V_small [OF assms(3)]])

lemma page_aligned_upage [simp]: "page_aligned (upage m root va)"
  by (simp add: upage_def)

text \<open>What was mapped stays mapped while the space grows by other pages.\<close>

lemma mapped_as_grow:
  assumes m: "mapped_as L root s0 s c f va" and ok: "vm_ok L root s"
    and g: "vm_grow L root s s'" and same: "pt_leaf (mem s') root va = pt_leaf (mem s) root va"
  shows "mapped_as L root s0 s' c f va" and "upage (mem s') root va = upage (mem s) root va"
proof -
  show eq: "upage (mem s') root va = upage (mem s) root va" by (simp add: upage_def same)
  let ?p = "upage (mem s) root va"
  have "mem s' (?p + (va AND 0xFFF)) = mem s (?p + (va AND 0xFFF))"
    if "?p \<in> owned L s - tables (mem s) root"
  proof (rule same_outside_byte)
    show "same_outside (tables (mem s) root \<union> (owned L s' - owned L s)) (mem s) (mem s')"
      using g by (simp add: vm_grow_def)
    show "page_base (?p + (va AND 0xFFF)) \<notin> tables (mem s) root \<union> (owned L s' - owned L s)"
      using that by (simp add: page_offset)
  qed
  then show "mapped_as L root s0 s' c f va"
    using m g by (auto simp: mapped_as_def same eq vm_grow_def split: option.splits if_splits)
qed


text \<open>
  Mapping a virtual page. A page that \<open>R\<close> has already is mapped anew: the entry is
  overwritten, and the page it pointed to stays allocated.
\<close>

lemma dspace_map:
  assumes us: "dspace L root s0 s R c" and g: "vm_grow L root s t" and ok: "vm_ok L root t"
    and leaf: "\<And>v. pt_leaf (mem t) root v = pt_leaf (mem s) root v"
    and run: "map_page L root va pa fl t = Inr ((), s')"
    and va: "page_aligned va" "va < 0x8000000000"
    and pa: "page_aligned pa" "fl < 1024"
    and new: "if fl AND PTE_U = 0 then pa = va
      else pa \<in> owned L t - owned L s \<and> pa \<notin> tables (mem t) root \<and>
        (\<forall>v. page_base v = va \<longrightarrow> mem t (pa + (v AND 0xFFF)) = d v)"
  shows "dspace L root s0 s' (R(va \<mapsto> fl)) (\<lambda>v. if page_base v = va then d v else c v)"
    and "vm_grow L root s s'"
proof -
  let ?R = "R(va \<mapsto> fl)" and ?c = "\<lambda>v. if page_base v = va then d v else c v"
  note m = map_page_spec [OF ok run]
  have ok_s: "vm_ok L root s" and own0: "owned L s0 \<subseteq> owned L s"
    and old: "\<And>v. v < 0x8000000000 \<Longrightarrow> mapped_as L root s0 s c (R (page_base v)) v"
    using us by (simp_all add: dspace_def space_is_def)
  have gt: "vm_grow L root t s'" using m vm_step_grow by blast
  then have gs: "vm_grow L root s s'" using g vm_grow_trans by blast
  have page: "same_vpage va v \<longleftrightarrow> page_base v = va" if "v < 0x8000000000" for v
    using same_vpage_iff [OF va(2) that] va(1) by auto
  have here: "pt_leaf (mem s') root v = PA2PTE pa OR fl OR PTE_V" "upage (mem s') root v = pa"
    if "v < 0x8000000000" "page_base v = va" for v
  proof -
    show e: "pt_leaf (mem s') root v = PA2PTE pa OR fl OR PTE_V" using m page that by simp
    show "upage (mem s') root v = pa" by (rule upage_mapped [OF e pa])
  qed
  have there: "pt_leaf (mem s') root v = pt_leaf (mem s) root v"
    if "v < 0x8000000000" "page_base v \<noteq> va" for v
    using m page that leaf by simp
  have keep: "mapped_as L root s0 s' c (R (page_base v)) v"
      "upage (mem s') root v = upage (mem s) root v"
    if "v < 0x8000000000" "page_base v \<noteq> va" for v
    using mapped_as_grow [OF old [OF that(1)] ok_s gs there [OF that]] by simp_all
  have user: "pa \<in> owned L s' - owned L s" "pa \<notin> tables (mem s') root"
      "page_base v = va \<Longrightarrow> mem s' (pa + (v AND 0xFFF)) = d v" if "fl AND PTE_U \<noteq> 0" for v
  proof -
    have n: "pa \<in> owned L t - owned L s" "pa \<notin> tables (mem t) root"
      "page_base v = va \<Longrightarrow> mem t (pa + (v AND 0xFFF)) = d v" using new that by auto
    show "pa \<in> owned L s' - owned L s" and "pa \<notin> tables (mem s') root"
      using n gt by (auto simp: vm_grow_def)
    have "mem s' (pa + (v AND 0xFFF)) = mem t (pa + (v AND 0xFFF))"
      by (rule same_outside_byte [of "tables (mem t) root \<union> (owned L s' - owned L t)"])
        (use n gt in \<open>auto simp: vm_grow_def page_offset [OF pa(1)]\<close>)
    then show "page_base v = va \<Longrightarrow> mem s' (pa + (v AND 0xFFF)) = d v" using n(3) by simp
  qed
  have map: "mapped_as L root s0 s' ?c (?R (page_base v)) v" if v: "v < 0x8000000000" for v
  proof (cases "page_base v = va")
    case True
    then show ?thesis
      using here [OF v True] user new own0 by (auto simp: mapped_as_def)
  next
    case False
    then show ?thesis using keep(1) [OF v False] by (auto simp: mapped_as_def split: option.split)
  qed
  have old_user: "upage (mem s') root v \<in> owned L s"
    if "v < 0x8000000000" "page_base v \<noteq> va" "user_flags (R (page_base v))" for v
    using old [OF that(1)] that(3) keep(2) [OF that(1,2)]
    by (auto simp: mapped_as_def user_flags_def split: option.splits)
  have inj: "page_base v = page_base w"
    if vw: "v < 0x8000000000" "w < 0x8000000000" "user_flags (?R (page_base v))"
      "user_flags (?R (page_base w))" "upage (mem s') root v = upage (mem s') root w" for v w
  proof (cases "page_base v = va"; cases "page_base w = va")
    assume a: "page_base v = va" "page_base w \<noteq> va"
    then have "fl AND PTE_U \<noteq> 0" using vw(3) by (simp add: user_flags_def)
    then show ?thesis using user(1) old_user [OF vw(2) a(2)] here [OF vw(1) a(1)] vw(4,5) a by auto
  next
    assume a: "page_base v \<noteq> va" "page_base w = va"
    then have "fl AND PTE_U \<noteq> 0" using vw(4) by (simp add: user_flags_def)
    then show ?thesis using user(1) old_user [OF vw(1) a(1)] here [OF vw(2) a(2)] vw(3,5) a by auto
  next
    assume a: "page_base v \<noteq> va" "page_base w \<noteq> va"
    then show ?thesis
      using us vw keep(2) [OF vw(1) a(1)] keep(2) [OF vw(2) a(2)] by (simp add: dspace_def space_is_def)
  qed simp
  show "vm_grow L root s s'" by (rule gs)
  have "vm_ok L root s'" and "owned L s0 \<subseteq> owned L s'" using m own0 gs by (auto simp: vm_grow_def)
  then show "dspace L root s0 s' ?R ?c" unfolding dspace_def space_is_def using map inj by blast
qed

text \<open>The two ways the loops map a page: the identity, and a fresh page with given bytes.\<close>

lemma uspace_identity:
  assumes us: "uspace L root s0 s R c" and A: "finite A" "\<forall>js \<in> A. index_path js"
    and room: "missing A (mem s) root + k \<le> avail L s"
    and va: "page_aligned va" "va < 0x8000000000" "[PX 2 va] \<in> A" "va_path va \<in> A"
    and fl: "fl < 1024" "fl AND PTE_U = 0"
  shows "\<exists>s'. map_page L root va va fl s = Inr ((), s') \<and>
    uspace L root s0 s' (R(va \<mapsto> fl)) c \<and> missing A (mem s') root + k \<le> avail L s'"
proof -
  have ok: "vm_ok L root s" using us by (simp add: uspace_def)
  obtain s' where run: "map_page L root va va fl s = Inr ((), s')"
    and room': "missing A (mem s') root + k \<le> avail L s'"
    using map_page_budget [OF ok va(1) va(1) A(1) va(3,4) A(2) room] by blast
  have ds: "dspace L root s0 s R c" and g0: "vm_grow L root s0 s"
    using us by (simp_all add: uspace_dspace)
  note m = dspace_map [OF ds vm_grow_refl ok refl run va(1,2) va(1) fl(1), where d = c]
  have "uspace L root s0 s' (R(va \<mapsto> fl)) (\<lambda>v. if page_base v = va then c v else c v)"
    unfolding uspace_dspace using m(1) vm_grow_trans [OF g0 m(2)] fl(2) by simp
  with run room' show ?thesis by auto
qed

lemma dspace_fresh:
  assumes us: "dspace L root s0 s R c" and A: "finite A" "\<forall>js \<in> A. index_path js"
    and room: "missing A (mem s) root + Suc k \<le> avail L s"
    and va: "page_aligned va" "va < 0x8000000000" "[PX 2 va] \<in> A" "va_path va \<in> A"
    and fl: "fl < 1024" "fl AND PTE_U \<noteq> 0"
    and wr: "\<And>p s1. alloc_pages L 1 s = Inr (p, s1) \<Longrightarrow> same_outside {p} (mem s1) (wr p (mem s1))"
    and d: "\<And>p s1 v. alloc_pages L 1 s = Inr (p, s1) \<Longrightarrow> page_base v = va \<Longrightarrow>
      wr p (mem s1) (p + (v AND 0xFFF)) = d v"
  shows "\<exists>p s1 s'. alloc_pages L 1 s = Inr (p, s1) \<and>
    map_page L root va p fl (s1\<lparr>mem := wr p (mem s1)\<rparr>) = Inr ((), s') \<and>
    dspace L root s0 s' (R(va \<mapsto> fl)) (\<lambda>v. if page_base v = va then d v else c v) \<and>
    vm_grow L root s s' \<and> missing A (mem s') root + k \<le> avail L s' \<and> upage (mem s') root va = p"
proof -
  have ok: "vm_ok L root s" using us by (simp add: dspace_def)
  obtain p s1 where al: "alloc_pages L 1 s = Inr (p, s1)"
    and room1: "missing A (mem s1) root + k \<le> avail L s1"
    by (rule alloc_budget [OF ok A(2) room]) blast
  let ?t = "s1\<lparr>mem := wr p (mem s1)\<rparr>"
  note g = alloc_grow [OF ok al wr [OF al]]
  have dis: "tables (mem s1) root \<inter> {p} = {}" using alloc_data(4) [OF ok al] by simp
  have room2: "missing A (mem ?t) root + k \<le> avail L ?t"
    using room1 data_write_budget [OF alloc_data(1) [OF ok al] A(2) wr [OF al] dis] by simp
  obtain s' where run: "map_page L root va p fl ?t = Inr ((), s')"
    and room': "missing A (mem s') root + k \<le> avail L s'"
    using map_page_budget [OF g(2) va(1) g(6) A(1) va(3,4) A(2) room2] by blast
  have "p \<notin> tables (mem s) root" using tables_subset vm_okD(2) [OF ok] g(5) by blast
  then have p: "p \<notin> tables (mem ?t) root" using g(4) by simp
  have "dspace L root s0 s' (R(va \<mapsto> fl)) (\<lambda>v. if page_base v = va then d v else c v)"
    and "vm_grow L root s s'"
    by (rule dspace_map [OF us g(1,2) _ run va(1,2) g(6) fl(1)];
      use g(3,5,7) p fl d [OF al] in auto)+
  moreover have "upage (mem s') root va = p"
    using map_page_spec [OF g(2) run] upage_mapped [OF _ g(6) fl(1)] by (simp add: same_vpage_def)
  ultimately show ?thesis using al run room' by blast
qed


lemma uspace_fresh:
  assumes us: "uspace L root s0 s R c" and A: "finite A" "\<forall>js \<in> A. index_path js"
    and room: "missing A (mem s) root + Suc k \<le> avail L s"
    and va: "page_aligned va" "va < 0x8000000000" "[PX 2 va] \<in> A" "va_path va \<in> A"
    and fl: "fl < 1024" "fl AND PTE_U \<noteq> 0"
    and wr: "\<And>p s1. alloc_pages L 1 s = Inr (p, s1) \<Longrightarrow> same_outside {p} (mem s1) (wr p (mem s1))"
    and d: "\<And>p s1 v. alloc_pages L 1 s = Inr (p, s1) \<Longrightarrow> page_base v = va \<Longrightarrow>
      wr p (mem s1) (p + (v AND 0xFFF)) = d v"
  shows "\<exists>p s1 s'. alloc_pages L 1 s = Inr (p, s1) \<and>
    map_page L root va p fl (s1\<lparr>mem := wr p (mem s1)\<rparr>) = Inr ((), s') \<and>
    uspace L root s0 s' (R(va \<mapsto> fl)) (\<lambda>v. if page_base v = va then d v else c v) \<and>
    missing A (mem s') root + k \<le> avail L s' \<and> upage (mem s') root va = p"
proof -
  have ds: "dspace L root s0 s R c" and g: "vm_grow L root s0 s" using us by (simp_all add: uspace_dspace)
  show ?thesis
    using dspace_fresh [OF ds A room va fl wr d] vm_grow_trans [OF g] unfolding uspace_dspace by blast
qed

section \<open>The regions\<close>

definition region :: "nat \<Rightarrow> nat \<Rightarrow> u64 \<Rightarrow> (u64 \<Rightarrow> u64 option) \<Rightarrow> u64 \<Rightarrow> u64 option" where
  "region lo hi fl R v = (if page_aligned v \<and> lo \<le> unat v \<and> unat v < hi then Some fl else R v)"

lemma region_empty [simp]: "region lo lo fl R = R"
  by (rule ext) (auto simp: region_def)

lemma region_next:
  assumes "page_aligned va" and "unat va = hi" and "lo \<le> hi"
  shows "(region lo hi fl R)(va \<mapsto> fl) = region lo (hi + 4096) fl R"
proof (rule ext)
  fix v
  have eq: "v = va" if v: "page_aligned v" "hi \<le> unat v" "unat v < hi + 4096"
  proof (rule ccontr)
    assume "v \<noteq> va"
    then have "unat va < unat v" using v(2) assms(2) by (metis le_neq_implies_less unat_inj_u64)
    then have "unat va + 4096 \<le> unat v"
      using v(1) assms(1) by (intro aligned_step) (simp_all add: page_aligned_unat)
    with v(3) assms(2) show False by simp
  qed
  show "((region lo hi fl R)(va \<mapsto> fl)) v = region lo (hi + 4096) fl R v"
  proof (cases "v = va")
    case True
    then show ?thesis using assms by (simp add: region_def)
  next
    case False
    then show ?thesis using eq by (auto simp: region_def)
  qed
qed

text \<open>The paths of the tables that the pages of \<open>R\<close> need.\<close>

definition space_paths :: "(u64 \<Rightarrow> u64 option) \<Rightarrow> u64 list set" where
  "space_paths R = {ip. \<exists>v. R v \<noteq> None \<and> (ip = [PX 2 v] \<or> ip = va_path v)}"

lemma space_paths_index: "\<forall>js \<in> space_paths R. index_path js"
  by (auto simp: space_paths_def index_path_def va_path_def)

lemma finite_space_paths [simp]: "finite (space_paths R)"
proof (rule finite_subset)
  show "space_paths R \<subseteq> {js. set js \<subseteq> (UNIV :: u64 set) \<and> length js \<le> 2}"
    using space_paths_index by (auto simp: index_path_def)
  show "finite {js. set js \<subseteq> (UNIV :: u64 set) \<and> length js \<le> 2}"
    by (rule finite_lists_length_le) simp
qed

lemma space_pathsI: "R v = Some fl \<Longrightarrow> [PX 2 v] \<in> space_paths R \<and> va_path v \<in> space_paths R"
  by (auto simp: space_paths_def)

text \<open>
  The globals of the ELF loader as the construction needs them: whole pages, below the
  kernel. The image may overlap the stack, and does in every program linked with
  \<^verbatim>\<open>user.ld\<close>, where the section \<^verbatim>\<open>.stack\<close> is the end of the image: there the pages of the stack
  are mapped over those of the image.
\<close>

definition page_count :: "u64 \<Rightarrow> nat" where
  "page_count isz = (unat isz + 4095) div 4096"

definition space_layout :: "linker_syms \<Rightarrow> u64 \<Rightarrow> kstate \<Rightarrow> bool" where
  "space_layout L isz s \<longleftrightarrow>
     page_aligned (g_user_stack_bottom s) \<and> page_aligned (g_user_stack_top s) \<and>
     page_aligned (g_user_heap_start s) \<and>
     0x1000000 + page_count isz * 4096 \<le> unat (kernel_base L) \<and>
     g_user_stack_bottom s \<le> g_user_stack_top s \<and>
     unat (g_user_stack_top s) + 4096 \<le> unat (kernel_base L) \<and>
     unat (g_user_heap_start s) + 4096 \<le> unat (kernel_base L)"

definition kernel_space :: "linker_syms \<Rightarrow> u64 \<Rightarrow> u64 option" where
  "kernel_space L = region (unat (kernel_base L)) (unat (free_ram_end L)) 15 (\<lambda>_. None)"

definition image_space :: "linker_syms \<Rightarrow> u64 \<Rightarrow> u64 \<Rightarrow> u64 option" where
  "image_space L isz =
     region 0x1000000 (0x1000000 + page_count isz * 4096) 31 (kernel_space L)"

definition stack_space :: "linker_syms \<Rightarrow> u64 \<Rightarrow> kstate \<Rightarrow> u64 \<Rightarrow> u64 option" where
  "stack_space L isz s =
     region (unat (g_user_stack_bottom s)) (unat (g_user_stack_top s) + 4096) 23 (image_space L isz)"

definition full_space :: "linker_syms \<Rightarrow> u64 \<Rightarrow> kstate \<Rightarrow> u64 \<Rightarrow> u64 option" where
  "full_space L isz s =
     region (unat (g_user_heap_start s)) (unat (g_user_heap_start s) + 4096) 23 (stack_space L isz s)"

text \<open>
  The bytes of the new space: those of the image, zeroes behind it, and zeroes on the pages
  of the stack and the heap, whatever the image has there. \<open>cleared\<close> are the bytes of a space
  whose pages from \<open>lo\<close> to \<open>hi\<close> have been cleared.
\<close>

definition space_byte :: "mem \<Rightarrow> u64 \<Rightarrow> u64 \<Rightarrow> u64 \<Rightarrow> u8" where
  "space_byte m flat_image isz v =
     (if v - USER_BASE < isz then m (flat_image + (v - USER_BASE)) else 0)"

definition cleared :: "nat \<Rightarrow> nat \<Rightarrow> (u64 \<Rightarrow> u8) \<Rightarrow> u64 \<Rightarrow> u8" where
  "cleared lo hi c v = (if lo \<le> unat (page_base v) \<and> unat (page_base v) < hi then 0 else c v)"

definition stack_byte :: "kstate \<Rightarrow> mem \<Rightarrow> u64 \<Rightarrow> u64 \<Rightarrow> u64 \<Rightarrow> u8" where
  "stack_byte s m flat_image isz =
     cleared (unat (g_user_stack_bottom s)) (unat (g_user_stack_top s) + 4096) (space_byte m flat_image isz)"

definition full_byte :: "kstate \<Rightarrow> mem \<Rightarrow> u64 \<Rightarrow> u64 \<Rightarrow> u64 \<Rightarrow> u8" where
  "full_byte s m flat_image isz =
     cleared (unat (g_user_heap_start s)) (unat (g_user_heap_start s) + 4096) (stack_byte s m flat_image isz)"

lemma cleared_empty [simp]: "cleared lo lo c = c"
  by (rule ext) (auto simp: cleared_def)

lemma cleared_next:
  assumes "page_aligned a" and "lo \<le> unat a" and "unat (a + 4096) = unat a + 4096"
  shows "(\<lambda>v. if page_base v = a then 0 else cleared lo (unat a) cb v) = cleared lo (unat (a + 4096)) cb"
proof
  fix v
  have "unat a + 4096 \<le> unat (page_base v)" if "unat a < unat (page_base v)"
    using that assms(1) page_aligned_page_base [of v]
    by (intro aligned_step) (simp_all add: page_aligned_unat)
  then have "unat (page_base v) < unat a + 4096 \<longleftrightarrow> unat (page_base v) < unat a \<or> page_base v = a"
    unfolding word_unat_eq_iff [of "page_base v" a] by linarith
  then show "(if page_base v = a then 0 else cleared lo (unat a) cb v) = cleared lo (unat (a + 4096)) cb v"
    using assms(2,3) by (auto simp: cleared_def)
qed

text \<open>When the image stays readable while the space is built.\<close>

definition image_kept :: "linker_syms \<Rightarrow> u64 \<Rightarrow> u64 \<Rightarrow> u64 \<Rightarrow> kstate \<Rightarrow> bool" where
  "image_kept L root flat_image isz s \<longleftrightarrow>
     (\<forall>j < unat isz. let b = page_base (flat_image + of_nat j) in
        b \<notin> tables (mem s) root \<and> (b \<in> owned L s \<or> b < free_ram L \<or> free_ram_end L \<le> b))"

lemma page_aligned_step:
  fixes a b :: u64
  assumes "page_aligned a" and "page_aligned b" and "a < b"
  shows "unat (a + 4096) = unat a + 4096" and "page_aligned (a + 4096)" and "a + 4096 \<le> b"
    and "a < a + 4096"
proof -
  have le: "unat a + 4096 \<le> unat b"
    using assms by (intro aligned_step) (simp_all add: page_aligned_unat word_less_nat_alt)
  show u: "unat (a + 4096) = unat a + 4096"
    using le unat_u64_bound [of b] by (subst unat_add_u64) simp_all
  show "page_aligned (a + 4096)" using u assms(1) by (simp add: page_aligned_unat)
  show "a + 4096 \<le> b" and "a < a + 4096"
    using u le by (simp_all add: word_le_nat_alt word_less_nat_alt)
qed

text \<open>
  The loop that maps the pages from \<open>lo\<close> to \<open>hi\<close> to themselves; the loop counter may be an
  offset to \<open>base\<close>.
\<close>

lemma identity_loop:
  assumes us: "uspace L root s0 s R c"
    and A: "finite A" "\<forall>js \<in> A. index_path js" "space_paths (region lo hi fl R) \<subseteq> A"
    and room: "missing A (mem s) root + k \<le> avail L s"
    and al: "page_aligned base" "page_aligned start" "page_aligned stop" "start \<le> stop"
    and b: "lo = unat base + unat start" "hi = unat base + unat stop" "hi \<le> 0x8000000000"
    and fl: "fl AND PTE_U = 0" "fl < 1024"
  shows "\<exists>s'. for_pages (\<lambda>a. a < stop) (\<lambda>a s. map_page L root (base + a) (base + a) fl s) start s =
      Inr ((), s') \<and> uspace L root s0 s' (region lo hi fl R) c \<and>
    missing A (mem s') root + k \<le> avail L s'"
proof -
  let ?I = "\<lambda>a t. page_aligned a \<and> start \<le> a \<and> a \<le> stop \<and>
    uspace L root s0 t (region lo (unat base + unat a) fl R) c \<and> missing A (mem t) root + k \<le> avail L t"
  have "\<exists>a s'. for_pages (\<lambda>a. a < stop) (\<lambda>a s. map_page L root (base + a) (base + a) fl s) start s =
      Inr ((), s') \<and> \<not> a < stop \<and> ?I a s'"
  proof (rule for_pages_total)
    show "?I start s" using us room al b(1) by simp
  next
    fix a t assume lt: "a < stop" and I: "?I a t"
    have us_t: "uspace L root s0 t (region lo (unat base + unat a) fl R) c"
      and room_t: "missing A (mem t) root + k \<le> avail L t" using I by simp_all
    have pa: "page_aligned a" "start \<le> a" using I by simp_all
    note st = page_aligned_step [OF pa(1) al(3) lt]
    have lt': "unat a < unat stop" using lt by (simp add: word_less_nat_alt)
    have u: "unat (base + a) = unat base + unat a"
      using lt' b(2,3) by (subst unat_add_u64) simp_all
    have va: "page_aligned (base + a)" "lo \<le> unat (base + a)" "unat (base + a) < hi"
      using al(1) pa lt' u b by (simp_all add: page_aligned_unat mod_add_eq [symmetric] word_le_nat_alt)
    have "region lo hi fl R (base + a) = Some fl" using va by (simp add: region_def)
    then have p: "[PX 2 (base + a)] \<in> A" "va_path (base + a) \<in> A" using space_pathsI A(3) by blast+
    have small: "base + a < 0x8000000000" using va(3) b(3) by (simp add: word_less_nat_alt)
    obtain t' where t': "map_page L root (base + a) (base + a) fl t = Inr ((), t')"
      "uspace L root s0 t' ((region lo (unat base + unat a) fl R)(base + a \<mapsto> fl)) c"
      "missing A (mem t') root + k \<le> avail L t'"
      using uspace_identity [OF us_t A(1,2) room_t va(1) small p fl(2,1)] by blast
    have "unat base + unat (a + 4096) = unat base + unat a + 4096" using st(1) by simp
    then have "?I (a + 4096) t'"
      using t'(2,3) st order_trans [OF pa(2) less_imp_le [OF st(4)]] region_next [OF va(1) u, of lo fl R] va(2) u
      by (simp add: add.assoc)
    then show "a < a + 4096 \<and> (\<exists>t'. map_page L root (base + a) (base + a) fl t = Inr ((), t') \<and> ?I (a + 4096) t')"
      using t'(1) st(4) by blast
  qed
  then obtain a s' where "for_pages (\<lambda>a. a < stop) (\<lambda>a s. map_page L root (base + a) (base + a) fl s) start s =
      Inr ((), s')" and "?I a s'" and "a = stop" by force
  then show ?thesis using b(2) by auto
qed

lemma map_kernel_space:
  assumes us: "uspace L root s0 s (\<lambda>_. None) c" and L: "layout_ok L"
    and A: "finite A" "\<forall>js \<in> A. index_path js" "space_paths (kernel_space L) \<subseteq> A"
    and room: "missing A (mem s) root + k \<le> avail L s"
  shows "\<exists>s'. map_kernel L root s = Inr ((), s') \<and> uspace L root s0 s' (kernel_space L) c \<and>
    missing A (mem s') root + k \<le> avail L s'"
  using identity_loop [OF us A(1,2) A(3) [unfolded kernel_space_def] room, of 0 "kernel_base L" "free_ram_end L"]
    L by (simp add: map_kernel_def kernel_space_def layout_ok_def word_le_nat_alt word_less_nat_alt
      page_aligned_def)

text \<open>The image.\<close>

lemma and_page_offset: "va AND 0xFFF = (va :: u64) mod 4096"
proof -
  have "va AND mask 12 = take_bit 12 va" by (simp add: take_bit_eq_mask)
  then show ?thesis by (simp add: mask_eq_exp_minus_1 take_bit_eq_mod)
qed

lemma page_split: "page_base va + (va AND 0xFFF) = va"
  by (simp add: page_base_def and_page_offset)

lemma unat_page_offset: "unat (va AND 0xFFF :: u64) < 4096"
  by (simp add: and_page_offset unat_mod)

lemma image_pages_count:
  assumes "unat isz + 4095 < 2 ^ 64"
  shows "unat (image_pages isz) = page_count isz"
proof -
  have "unat (isz + 4095) = unat isz + 4095" using assms by (subst unat_add_u64) simp_all
  moreover have "unat (4096 :: u64) = 4096" by simp
  moreover have "isz + 4096 - 1 = isz + 4095" by simp
  ultimately show ?thesis by (simp only: image_pages_def page_count_def unat_div)
qed

lemma image_kept_byte:
  assumes kept: "image_kept L root fi isz s0" and us: "uspace L root s0 s R c" and j: "j < unat isz"
  shows "mem s (fi + of_nat j) = mem s0 (fi + of_nat j)"
    and "alloc_pages L 1 s = Inr (p, s1) \<Longrightarrow> page_base (fi + of_nat j) \<noteq> p"
proof -
  let ?b = "page_base (fi + of_nat j)"
  have ok: "vm_ok L root s" and g: "vm_grow L root s0 s" using us by (simp_all add: uspace_def space_is_def)
  have b: "?b \<notin> tables (mem s0) root" "?b \<in> owned L s0 \<or> ?b < free_ram L \<or> free_ram_end L \<le> ?b"
    using kept j by (auto simp: image_kept_def Let_def)
  have "?b \<notin> owned L s - owned L s0"
    using b(2) owned_props(4,5) [OF vm_okD(1) [OF ok], of ?b] by (auto simp: not_le not_less)
  then show "mem s (fi + of_nat j) = mem s0 (fi + of_nat j)"
    using b(1) g by (intro same_outside_byte [of "tables (mem s0) root \<union> (owned L s - owned L s0)"])
      (auto simp: vm_grow_def)
  assume run: "alloc_pages L 1 s = Inr (p, s1)"
  note a = alloc_one_spec [OF vm_okD(1) [OF ok] run]
  show "?b \<noteq> p"
  proof
    assume "?b = p"
    then have "?b \<notin> owned L s0" using a(2) g by (auto simp: vm_grow_def)
    then show False
      using b(2) a(3) owned_props(4,5) [OF a(1), of p] \<open>?b = p\<close> by (auto simp: not_le not_less)
  qed
qed

lemma page_count_bounds:
  "i < page_count isz \<Longrightarrow> i * 4096 < unat isz"
  "Suc i = page_count isz \<Longrightarrow> unat isz - i * 4096 \<le> 4096"
proof -
  let ?q = "page_count isz"
  have lo: "?q * 4096 \<le> unat isz + 4095"
    unfolding page_count_def by (rule div_times_less_eq_dividend)
  have hi: "unat isz + 4095 < Suc ?q * 4096"
    unfolding page_count_def using dividend_less_div_times [of 4096 "unat isz + 4095"] by simp
  show "i * 4096 < unat isz" if "i < ?q"
  proof -
    have "Suc i * 4096 \<le> ?q * 4096" using that by (intro mult_le_mono1) simp
    with lo show ?thesis by simp
  qed
  show "unat isz - i * 4096 \<le> 4096" if "Suc i = ?q" using hi that [symmetric] by simp
qed

lemma load_page_size:
  assumes fit: "unat isz + 4095 < 2 ^ 64" and i: "i < page_count isz"
  shows "unat (if of_nat i = image_pages isz - 1 then isz - of_nat i * 4096 else 4096) =
    min 4096 (unat isz - i * 4096)"
proof -
  let ?q = "page_count isz"
  have lt: "i * 4096 < unat isz" using page_count_bounds(1) [OF i] .
  have ui: "unat (of_nat i * 4096 :: u64) = i * 4096"
    using unat_of_nat_u64 [of "i * 4096"] lt fit by simp
  have q: "image_pages isz = of_nat ?q" using image_pages_count [OF fit] by (metis of_nat_unat_u64)
  have q64: "?q < 2 ^ 64" using image_pages_count [OF fit] unat_u64_bound [of "image_pages isz"] by simp
  have "image_pages isz - 1 = of_nat (?q - 1)" using q i by (cases ?q) simp_all
  then have last: "of_nat i = image_pages isz - 1 \<longleftrightarrow> Suc i = ?q"
    using of_nat_inj_u64 [of i "?q - 1"] q64 i by auto
  show ?thesis
  proof (cases "Suc i = ?q")
    case True
    have "of_nat i * 4096 \<le> isz" using ui lt by (simp add: word_le_nat_alt)
    then have "unat (isz - of_nat i * 4096) = unat isz - i * 4096" using ui by (simp add: unat_sub_u64)
    then show ?thesis using True last page_count_bounds(2) [OF True] by simp
  next
    case False
    then have "Suc i < ?q" using i by simp
    then show ?thesis using page_count_bounds(1) [of "Suc i" isz] False last by simp
  qed
qed

text \<open>One page of the image: what \<^verbatim>\<open>memcpy\<close> leaves in the fresh page.\<close>

lemma load_page_bytes:
  assumes kept: "image_kept L root fi isz s0" and us: "uspace L root s0 s R c"
    and fit: "unat isz + 4095 < 2 ^ 64" and i: "i < page_count isz"
    and run: "alloc_pages L 1 s = Inr (p, s1)"
  defines "n \<equiv> (if of_nat i = image_pages isz - 1 then isz - of_nat i * 4096 else 4096)"
    and "src \<equiv> fi + of_nat i * 4096"
  shows "same_outside {p} (mem s1) (memcpy (mem s1) p src n)"
    and "page_base v = USER_BASE + of_nat i * 4096 \<Longrightarrow>
      memcpy (mem s1) p src n (p + (v AND 0xFFF)) = space_byte (mem s0) fi isz v"
proof -
  have ok: "vm_ok L root s" using us by (simp add: uspace_def)
  note a = alloc_one_spec [OF vm_okD(1) [OF ok] run]
  have un: "unat n = min 4096 (unat isz - i * 4096)"
    unfolding n_def by (rule load_page_size [OF fit i])
  have lt: "i * 4096 < unat isz" using page_count_bounds(1) [OF i] .
  have byte: "mem s1 (src + of_nat k) = mem s0 (src + of_nat k)" "page_base (src + of_nat k) \<noteq> p"
    if "k < unat n" for k
  proof -
    have j: "i * 4096 + k < unat isz" using that un lt by linarith
    have e: "src + of_nat k = fi + of_nat (i * 4096 + k)" by (simp add: src_def)
    show ne: "page_base (src + of_nat k) \<noteq> p"
      unfolding e using image_kept_byte(2) [OF kept us j run] .
    have "mem s1 (src + of_nat k) = mem s (src + of_nat k)"
      using kpages.alloc_outside [OF vm_okD(1) [OF ok] run] ne by (auto intro: same_outside_byte)
    then show "mem s1 (src + of_nat k) = mem s0 (src + of_nat k)"
      using image_kept_byte(1) [OF kept us j] unfolding e by simp
  qed
  have safe: "n \<le> p - src"
  proof (rule ccontr)
    assume "\<not> n \<le> p - src"
    then have "unat (p - src) < unat n" by (simp add: word_le_nat_alt)
    from byte(2) [OF this] show False using a(4) by simp
  qed
  have cp: "memcpy (mem s1) p src n x = (if x - p < n then mem s1 (src + (x - p)) else mem s1 x)" for x
    by (rule memcpy_apply) (use safe in simp)
  have n4: "n \<le> 4096" using un by (simp add: word_le_nat_alt)
  have "memcpy (mem s1) p src n x = mem s1 x" if "page_base x \<noteq> p" for x
    using that n4 cp [of x] in_page_iff [OF a(4), of x] by auto
  then show "same_outside {p} (mem s1) (memcpy (mem s1) p src n)" by (simp add: same_outside_def)
  assume v: "page_base v = USER_BASE + of_nat i * 4096"
  let ?off = "v AND 0xFFF"
  have off: "unat ?off < 4096" by (rule unat_page_offset)
  have "v - USER_BASE = of_nat i * 4096 + ?off" using page_split [of v] v by (simp add: algebra_simps)
  then have vo: "v - USER_BASE = of_nat (i * 4096 + unat ?off)" by simp
  have small: "i * 4096 + unat ?off < 2 ^ 64" using lt off fit by simp
  have inside: "v - USER_BASE < isz \<longleftrightarrow> ?off < n"
  proof -
    have "v - USER_BASE < isz \<longleftrightarrow> i * 4096 + unat ?off < unat isz"
      unfolding vo word_less_nat_alt using unat_of_nat_u64 [OF small] by simp
    then show ?thesis using un lt off by (auto simp: word_less_nat_alt)
  qed
  have src: "fi + (v - USER_BASE) = src + ?off" unfolding vo by (simp add: src_def)
  have "mem s1 (p + ?off) = 0"
    using a(6) page_offset [OF a(4), of v] in_page_iff [OF a(4)] by (simp add: memset_apply)
  moreover have "mem s1 (src + ?off) = mem s0 (src + ?off)" if "?off < n"
    using byte(1) [of "unat ?off"] that by (simp add: word_less_nat_alt)
  ultimately show "memcpy (mem s1) p src n (p + ?off) = space_byte (mem s0) fi isz v"
    using inside src cp [of "p + ?off"] by (simp add: space_byte_def)
qed


lemma load_image_space:
  assumes us: "uspace L root s0 s (kernel_space L) c" and c: "c = space_byte (mem s0) fi isz"
    and kept: "image_kept L root fi isz s0" and lay: "space_layout L isz s0" and L: "layout_ok L"
    and A: "finite A" "\<forall>js \<in> A. index_path js" "space_paths (image_space L isz) \<subseteq> A"
    and room: "missing A (mem s) root + (k + page_count isz) \<le> avail L s"
  shows "\<exists>s'. load_image L root fi isz s = Inr ((), s') \<and> uspace L root s0 s' (image_space L isz) c \<and>
    missing A (mem s') root + k \<le> avail L s'"
proof -
  let ?n = "page_count isz" and ?B = "0x1000000 :: nat"
  have kb: "unat (kernel_base L) \<le> 0x4000000000"
    using L by (auto simp: layout_ok_def word_le_nat_alt word_less_nat_alt)
  have top: "?B + ?n * 4096 \<le> unat (kernel_base L)"
    using lay by (auto simp: space_layout_def word_le_nat_alt)
  have "unat isz \<le> ?n * 4096" using page_count_bounds(2) [of "?n - 1" isz] page_count_bounds(1) [of ?n isz]
    by (cases ?n) (auto simp: page_count_def)
  then have fit: "unat isz + 4095 < 2 ^ 64" using top kb by simp
  let ?R = "\<lambda>j. region ?B (?B + j * 4096) 31 (kernel_space L)"
  let ?I = "\<lambda>j t. uspace L root s0 t (?R j) c \<and>
    missing A (mem t) root + (k + (?n - j)) \<le> avail L t"
  have "\<exists>s'. k_for 0 ?n (load_page L root fi isz) s = Inr ((), s') \<and> ?I (0 + ?n) s'"
  proof (rule k_for_total)
    show "?I 0 s" using us room by simp
  next
    fix j t assume j: "j < 0 + ?n" and I: "?I j t"
    let ?va = "USER_BASE + of_nat j * 4096"
    have us_t: "uspace L root s0 t (?R j) c" and room_t: "missing A (mem t) root + Suc (k + (?n - Suc j)) \<le> avail L t"
      using I j by (blast, linarith)
    have jn: "j < ?n" and jb: "j * 4096 + 4096 \<le> ?n * 4096" using j by simp_all
    have uva: "unat ?va = ?B + j * 4096"
      using unat_of_nat_u64 [of "j * 4096"] jb top kb
      by (subst unat_add_u64) (simp_all add: USER_BASE_def)
    have va: "page_aligned ?va" "?va < 0x8000000000"
      using uva jb top kb by (simp_all add: page_aligned_unat word_less_nat_alt mod_add_eq [symmetric])
    have "image_space L isz ?va = Some 31"
      using va(1) uva jb by (simp add: image_space_def region_def)
    then have p: "[PX 2 ?va] \<in> A" "va_path ?va \<in> A" using space_pathsI A(3) by blast+
    let ?m = "if of_nat j = image_pages isz - 1 then isz - of_nat j * 4096 else 4096 :: u64"
    note b = load_page_bytes [OF kept us_t fit jn]
    have "\<exists>p s1 s'. alloc_pages L 1 t = Inr (p, s1) \<and>
      map_page L root ?va p 31 (s1\<lparr>mem := memcpy (mem s1) p (fi + of_nat j * 4096) ?m\<rparr>) = Inr ((), s') \<and>
      uspace L root s0 s' ((?R j)(?va \<mapsto> 31)) (\<lambda>v. if page_base v = ?va then c v else c v) \<and>
      missing A (mem s') root + (k + (?n - Suc j)) \<le> avail L s' \<and> upage (mem s') root ?va = p"
      by (rule uspace_fresh [OF us_t A(1,2) room_t va p,
            where wr = "\<lambda>p m. memcpy m p (fi + of_nat j * 4096) ?m"])
        (simp_all only: b c, simp_all)
    then obtain s' where "load_page L root fi isz j t = Inr ((), s')"
      "uspace L root s0 s' ((?R j)(?va \<mapsto> 31)) c" "missing A (mem s') root + (k + (?n - Suc j)) \<le> avail L s'"
      by (auto simp: load_page_def Let_def)
    moreover have "(?R j)(?va \<mapsto> 31) = ?R (Suc j)"
      using region_next [OF va(1) uva, of ?B 31 "kernel_space L"] by (simp add: algebra_simps)
    ultimately show "\<exists>t'. load_page L root fi isz j t = Inr ((), t') \<and> ?I (Suc j) t'" by auto
  qed
  then show ?thesis
    by (auto simp: load_image_def image_pages_count [OF fit] image_space_def)
qed

text \<open>A page of zeroes, as the stack and the heap get it.\<close>

lemma uspace_zero_page:
  assumes us: "uspace L root s0 s R c"
    and A: "finite A" "\<forall>js \<in> A. index_path js"
    and room: "missing A (mem s) root + Suc k \<le> avail L s"
    and va: "page_aligned va" "va < 0x8000000000" "[PX 2 va] \<in> A" "va_path va \<in> A"
  shows "\<exists>p s1 s'. alloc_pages L 1 s = Inr (p, s1) \<and> map_page L root va p 23 s1 = Inr ((), s') \<and>
    uspace L root s0 s' (R(va \<mapsto> 23)) (\<lambda>v. if page_base v = va then 0 else c v) \<and>
    missing A (mem s') root + k \<le> avail L s' \<and> upage (mem s') root va = p"
proof -
  have ok: "vm_ok L root s" using us by (simp add: uspace_def)
  have zero: "mem s1 (p + (v AND 0xFFF)) = 0"
    if "alloc_pages L 1 s = Inr (p, s1)" "page_base v = va" for p s1 v
  proof -
    note a = alloc_one_spec [OF vm_okD(1) [OF ok] that(1)]
    show ?thesis
      using a(6) page_offset [OF a(4), of v] in_page_iff [OF a(4)] by (simp add: memset_apply)
  qed
  have "\<exists>p s1 s'. alloc_pages L 1 s = Inr (p, s1) \<and>
      map_page L root va p 23 (s1\<lparr>mem := mem s1\<rparr>) = Inr ((), s') \<and>
      uspace L root s0 s' (R(va \<mapsto> 23)) (\<lambda>v. if page_base v = va then 0 else c v) \<and>
      missing A (mem s') root + k \<le> avail L s' \<and> upage (mem s') root va = p"
    by (rule uspace_fresh [OF us A room va, where wr = "\<lambda>p m. m"]) (simp_all add: zero)
  then show ?thesis by simp
qed

lemma uspace_proc_view: "uspace L root s0 s R c \<Longrightarrow> proc_view s = proc_view s0"
  by (simp add: uspace_def space_is_def vm_grow_def)

definition stack_count :: "kstate \<Rightarrow> nat" where
  "stack_count s = (unat (g_user_stack_top s) - unat (g_user_stack_bottom s)) div 4096 + 1"

lemma map_stack_space:
  assumes us: "uspace L root s0 s (image_space L isz) (space_byte m fi isz)"
    and lay: "space_layout L isz s0" and L: "layout_ok L"
    and A: "finite A" "\<forall>js \<in> A. index_path js" "space_paths (stack_space L isz s0) \<subseteq> A"
    and room: "missing A (mem s) root + (k + stack_count s0) \<le> avail L s"
  shows "\<exists>s'. map_stack L root s = Inr ((), s') \<and> uspace L root s0 s' (stack_space L isz s0) (stack_byte s0 m fi isz) \<and>
    missing A (mem s') root + k \<le> avail L s'"
proof -
  let ?lo = "unat (g_user_stack_bottom s0)" and ?hi = "unat (g_user_stack_top s0)"
  have kb: "unat (kernel_base L) \<le> 0x4000000000"
    using L by (auto simp: layout_ok_def word_le_nat_alt word_less_nat_alt)
  have al: "page_aligned (g_user_stack_bottom s0)" "page_aligned (g_user_stack_top s0)"
    and top: "?hi + 4096 \<le> unat (kernel_base L)" "?lo \<le> ?hi"
    using lay by (auto simp: space_layout_def word_le_nat_alt)
  have g: "g_user_stack_bottom s = g_user_stack_bottom s0" "g_user_stack_top s = g_user_stack_top s0"
    using proc_viewD [OF uspace_proc_view [OF us]] by simp_all
  let ?R = "\<lambda>a. region ?lo (unat a) 23 (image_space L isz)" and ?c = "\<lambda>a. cleared ?lo (unat a) (space_byte m fi isz)"
  let ?body = "\<lambda>va s. kbind (alloc_pages L 1 s) (\<lambda>pa s. map_page L root va pa 23 s)"
  let ?I = "\<lambda>a t. page_aligned a \<and> ?lo \<le> unat a \<and> unat a \<le> ?hi + 4096 \<and>
    uspace L root s0 t (?R a) (?c a) \<and>
    missing A (mem t) root + (k + (?hi + 4096 - unat a) div 4096) \<le> avail L t"
  have "\<exists>b s'. for_pages (\<lambda>va. va \<le> g_user_stack_top s0) ?body (g_user_stack_bottom s0) s =
      Inr ((), s') \<and> \<not> b \<le> g_user_stack_top s0 \<and> ?I b s'"
  proof (rule for_pages_total)
    have "(?hi + 4096 - ?lo) div 4096 = stack_count s0"
      using top(2) by (simp add: stack_count_def)
    then show "?I (g_user_stack_bottom s0) s" using us room al top by simp
  next
    fix a t assume le: "a \<le> g_user_stack_top s0" and I: "?I a t"
    have a: "page_aligned a" "?lo \<le> unat a" "unat a \<le> ?hi" and us_t: "uspace L root s0 t (?R a) (?c a)"
      using I le by (simp_all add: word_le_nat_alt)
    have "(?hi + 4096 - unat a) div 4096 = Suc ((?hi - unat a) div 4096)" using a(3) by simp
    then have room_t: "missing A (mem t) root + Suc (k + (?hi - unat a) div 4096) \<le> avail L t"
      using I by simp
    have small: "a < 0x8000000000" using a(3) top(1) kb by (simp add: word_less_nat_alt)
    have u4: "unat (a + 4096) = unat a + 4096" using a(3) top(1) kb by (subst unat_add_u64) simp_all
    have "stack_space L isz s0 a = Some 23" using a by (simp add: stack_space_def region_def)
    then have p: "[PX 2 a] \<in> A" "va_path a \<in> A" using space_pathsI A(3) by blast+
    obtain p s1 t' where t': "alloc_pages L 1 t = Inr (p, s1)" "map_page L root a p 23 s1 = Inr ((), t')"
      "uspace L root s0 t' ((?R a)(a \<mapsto> 23)) (\<lambda>v. if page_base v = a then 0 else ?c a v)"
      "missing A (mem t') root + (k + (?hi - unat a) div 4096) \<le> avail L t'"
      using uspace_zero_page [OF us_t A(1,2) room_t a(1) small p] by blast
    have "?I (a + 4096) t'"
      using t'(3,4) a u4 region_next [OF a(1) refl a(2), of 23 "image_space L isz"]
        cleared_next [OF a(1,2) u4, of "space_byte m fi isz"]
      by (simp add: page_aligned_unat mod_add_eq [symmetric])
    moreover have "a < a + 4096" using u4 by (simp add: word_less_nat_alt)
    ultimately show "a < a + 4096 \<and> (\<exists>t'. ?body a t = Inr ((), t') \<and> ?I (a + 4096) t')"
      using t'(1,2) by auto
  qed
  then obtain b s' where run: "for_pages (\<lambda>va. va \<le> g_user_stack_top s0) ?body (g_user_stack_bottom s0) s =
      Inr ((), s')" and b: "?hi < unat b" "?I b s'" by (auto simp: word_le_nat_alt not_le)
  have "?hi + 4096 \<le> unat b"
    using b al(2) by (intro aligned_step) (simp_all add: page_aligned_unat)
  then have "unat b = ?hi + 4096" using b(2) by simp
  then show ?thesis using run b(2) by (auto simp: map_stack_def g stack_space_def stack_byte_def)
qed


lemma map_heap_space:
  assumes us: "uspace L root s0 s (stack_space L isz s0) (stack_byte s0 m fi isz)"
    and lay: "space_layout L isz s0" and L: "layout_ok L"
    and A: "finite A" "\<forall>js \<in> A. index_path js" "space_paths (full_space L isz s0) \<subseteq> A"
    and room: "missing A (mem s) root + Suc k \<le> avail L s"
  shows "\<exists>s'. map_heap L root s = Inr ((), s') \<and> uspace L root s0 s' (full_space L isz s0) (full_byte s0 m fi isz) \<and>
    missing A (mem s') root + k \<le> avail L s'"
proof -
  let ?h = "g_user_heap_start s0"
  have kb: "unat (kernel_base L) \<le> 0x4000000000"
    using L by (auto simp: layout_ok_def word_le_nat_alt word_less_nat_alt)
  have al: "page_aligned ?h" and top: "unat ?h + 4096 \<le> unat (kernel_base L)"
    using lay by (auto simp: space_layout_def word_le_nat_alt)
  have g: "g_user_heap_start s = ?h" using proc_viewD [OF uspace_proc_view [OF us]] by simp
  have small: "?h < 0x8000000000" using top kb by (simp add: word_less_nat_alt)
  have "full_space L isz s0 ?h = Some 23" using al by (simp add: full_space_def region_def)
  then have p: "[PX 2 ?h] \<in> A" "va_path ?h \<in> A" using space_pathsI A(3) by blast+
  obtain q s1 s' where s': "alloc_pages L 1 s = Inr (q, s1)" "map_page L root ?h q 23 s1 = Inr ((), s')"
    "uspace L root s0 s' ((stack_space L isz s0)(?h \<mapsto> 23)) (\<lambda>v. if page_base v = ?h then 0 else stack_byte s0 m fi isz v)" "upage (mem s') root ?h = q"
    "missing A (mem s') root + k \<le> avail L s'"
    using uspace_zero_page [OF us A(1,2) room al small p] by blast
  have R: "(stack_space L isz s0)(?h \<mapsto> 23) = full_space L isz s0"
    using region_next [OF al refl order_refl, of 23 "stack_space L isz s0"]
    by (simp add: full_space_def)
  have u4: "unat (?h + 4096) = unat ?h + 4096" using top kb by (subst unat_add_u64) simp_all
  have B: "(\<lambda>v. if page_base v = ?h then 0 else stack_byte s0 m fi isz v) = full_byte s0 m fi isz"
    using cleared_next [OF al order_refl u4, of "stack_byte s0 m fi isz"] unfolding cleared_empty full_byte_def u4 .
  have gh: "g_user_heap_start s1 = ?h"
    using alloc_one_spec(5) [OF _ s'(1)] us proc_viewD(11) g
    by (metis g proc_viewD(10) uspace_def vm_okD(1))
  have al_q: "page_aligned q" using s'(4) by auto
  have zero: "mem s' x = 0" if x: "x - q < 4096" for x
  proof -
    let ?v = "?h + (x - q)"
    have pb: "page_base ?v = ?h" using x by (simp add: in_page_iff [OF al])
    have v: "?v < 0x8000000000"
    proof -
      have "unat ?v = unat ?h + unat (x - q)"
        using x top kb by (subst unat_add_u64) (simp_all add: word_less_nat_alt)
      then show ?thesis using x top kb by (simp add: word_less_nat_alt)
    qed
    have off: "?v AND 0xFFF = x - q" using page_split [of ?v] pb by simp
    have "upage (mem s') root ?v = q"
      using s'(3) v pb s'(4) map_page_spec [of L root s1 ?h q 23 s'] same_vpage_iff [OF small v] al
        alloc_data(1) [OF _ s'(1)] us s'(2) by (simp add: uspace_def upage_def same_vpage_def)
    moreover have "mapped_as L root s0 s' (\<lambda>v. if page_base v = ?h then 0 else stack_byte s0 m fi isz v) (Some 23) ?v"
      using s'(3) v pb unfolding uspace_def space_is_def by fastforce
    ultimately show ?thesis using off pb by (simp add: mapped_as_def)
  qed
  have "memset (mem s') q 0 4096 = mem s'"
    by (rule ext) (simp add: memset_apply zero)
  then have "map_heap L root s = Inr ((), s')"
    using s'(1,2) gh by (simp add: map_heap_def)
  then show ?thesis using s'(3,5) R B by simp
qed

text \<open>All four stages.\<close>

definition space_cost :: "linker_syms \<Rightarrow> u64 \<Rightarrow> kstate \<Rightarrow> nat" where
  "space_cost L isz s =
     card (space_paths (full_space L isz s)) + page_count isz + stack_count s + 1"

lemma region_sub: "R v = Some f \<Longrightarrow> region lo hi fl R v \<noteq> None"
  by (simp add: region_def)

lemma space_paths_region: "space_paths R \<subseteq> space_paths (region lo hi fl R)"
  by (auto simp: space_paths_def region_def)

lemma build_user_space_total:
  assumes us: "uspace L root s s (\<lambda>_. None) c" and c: "c = space_byte (mem s) fi isz"
    and kept: "image_kept L root fi isz s" and lay: "space_layout L isz s" and L: "layout_ok L"
    and room: "space_cost L isz s + k \<le> avail L s"
  shows "\<exists>s'. build_user_space L root fi isz s = Inr ((), s') \<and>
    uspace L root s s' (full_space L isz s) (full_byte s (mem s) fi isz) \<and> k \<le> avail L s'"
proof -
  let ?A = "space_paths (full_space L isz s)"
  note A = finite_space_paths [of "full_space L isz s"] space_paths_index [of "full_space L isz s"]
  have sub3: "space_paths (stack_space L isz s) \<subseteq> ?A"
    unfolding full_space_def by (rule space_paths_region)
  have sub2: "space_paths (image_space L isz) \<subseteq> ?A"
    using sub3 space_paths_region unfolding stack_space_def by blast
  have sub1: "space_paths (kernel_space L) \<subseteq> ?A"
    using sub2 space_paths_region unfolding image_space_def by blast
  have "missing ?A (mem s) root \<le> card ?A"
    unfolding missing_def by (rule card_mono) auto
  then have "missing ?A (mem s) root + (Suc k + stack_count s + page_count isz) \<le> avail L s"
    using room by (simp add: space_cost_def)
  then obtain s1 where 1: "map_kernel L root s = Inr ((), s1)" "uspace L root s s1 (kernel_space L) c"
    "missing ?A (mem s1) root + (Suc k + stack_count s + page_count isz) \<le> avail L s1"
    using map_kernel_space [OF us L A sub1] by blast
  obtain s2 where 2: "load_image L root fi isz s1 = Inr ((), s2)" "uspace L root s s2 (image_space L isz) (space_byte (mem s) fi isz)"
    "missing ?A (mem s2) root + (Suc k + stack_count s) \<le> avail L s2"
    using load_image_space [OF 1(2) c kept lay L A sub2 1(3)] c by blast
  obtain s3 where 3: "map_stack L root s2 = Inr ((), s3)" "uspace L root s s3 (stack_space L isz s) (stack_byte s (mem s) fi isz)"
    "missing ?A (mem s3) root + Suc k \<le> avail L s3"
    using map_stack_space [OF 2(2) lay L A sub3 2(3)] by blast
  obtain s4 where 4: "map_heap L root s3 = Inr ((), s4)" "uspace L root s s4 (full_space L isz s) (full_byte s (mem s) fi isz)"
    "missing ?A (mem s4) root + k \<le> avail L s4"
    using map_heap_space [OF 3(2) lay L A order_refl 3(3)] by blast
  show ?thesis using 1(1) 2(1) 3(1) 4 by (simp add: build_user_space_def)
qed

end
