(* ===== verification/Proc_Create.thy ===== *)
theory Proc_Create
  imports User_Space
begin

text \<open>
  What \<^verbatim>\<open>create_init_process\<close> and \<^verbatim>\<open>exec_process\<close> leave behind: the PCB, the trap frame and
  the address space of the new program, and that they return whenever the pool has enough
  pages.
\<close>

section \<open>Writes outside the page pool\<close>

lemma pool_frame:
  assumes "pool_view s' = pool_view s"
  shows "pool_ok L s' = pool_ok L s" and "owned L s' = owned L s" and "avail L s' = avail L s"
  using pool_viewD [OF assms]
  by (simp_all add: pool_ok_def pool_inv_def owned_def pool_page_def free_set_def avail_def)

lemma upd_proc_simps [simp]:
  "pool_view (upd_proc i f s) = pool_view s"
  "mem (upd_proc i f s) = mem s"
  "procs (upd_proc i f s) = (procs s)[i := f (procs s ! i)]"
  "current_proc (upd_proc i f s) = current_proc s"
  "process_count (upd_proc i f s) = process_count s"
  "idle_proc (upd_proc i f s) = idle_proc s"
  "g_user_stack_top (upd_proc i f s) = g_user_stack_top s"
  "g_user_stack_bottom (upd_proc i f s) = g_user_stack_bottom s"
  "g_user_heap_start (upd_proc i f s) = g_user_heap_start s"
  "csr_satp (upd_proc i f s) = csr_satp s"
  "csr_sstatus (upd_proc i f s) = csr_sstatus s"
  "pool_ok L (upd_proc i f s) = pool_ok L s"
  "owned L (upd_proc i f s) = owned L s"
  "avail L (upd_proc i f s) = avail L s"
  "vm_ok L root (upd_proc i f s) = vm_ok L root s"
proof -
  show v: "pool_view (upd_proc i f s) = pool_view s" by (simp add: upd_proc_def pool_view_def)
  show m: "mem (upd_proc i f s) = mem s" by (simp add: upd_proc_def)
  show "pool_ok L (upd_proc i f s) = pool_ok L s" "owned L (upd_proc i f s) = owned L s"
    "avail L (upd_proc i f s) = avail L s" "vm_ok L root (upd_proc i f s) = vm_ok L root s"
    using pool_frame [OF v] m by (simp_all add: vm_ok_def)
qed (simp_all add: upd_proc_def)

lemma pool_write_kernel:
  assumes "pool_ok L s" and "same_outside P (mem s) m"
    and "\<forall>p \<in> P. p < free_ram L \<or> free_ram_end L \<le> p"
  shows "pool_ok L (s\<lparr>mem := m\<rparr>)" and "owned L (s\<lparr>mem := m\<rparr>) = owned L s"
proof -
  obtain xs where xs: "pool_inv L xs s" using assms(1) by (auto simp: pool_ok_def)
  have "load64 m x = load64 (mem s) x" if "x \<in> set xs" for x
  proof (rule same_outside_load64 [OF assms(2)])
    have x: "page_aligned x" "free_ram L \<le> x" "x < free_ram_end L"
      using xs that by (auto simp: pool_inv_def pool_page_def)
    then show "aligned8 x" by (simp add: page_aligned_aligned8)
    show "page_base x \<notin> P" using x assms(3) by (auto simp: not_le not_less)
  qed
  then have inv: "pool_inv L xs (s\<lparr>mem := m\<rparr>)"
    using xs by (auto simp: pool_inv_def pool_page_def intro: fl_chain_cong)
  then show "pool_ok L (s\<lparr>mem := m\<rparr>)" by (auto simp: pool_ok_def)
  show "owned L (s\<lparr>mem := m\<rparr>) = owned L s"
    using inv xs by (simp add: pool_inv_owned pool_page_def)
qed

section \<open>Trap frames in the process table\<close>

lemma tf_frame_props:
  assumes L: "layout_ok L" and i: "i < PROCS_MAX"
  shows "unat (tf_frame L i) = unat (procs_base L) + i * 8640 + 8016"
    and "aligned8 (tf_frame L i)" and "unat (tf_frame L i) + 256 \<le> unat (free_ram L)"
proof -
  have lay: "unat (procs_base L) + 8 * 8640 \<le> unat (free_ram L)" "unat (procs_base L) mod 8 = 0"
    using L by (auto simp: layout_ok_def aligned8_unat)
  have i8: "i * 8640 + 8640 \<le> 8 * 8640" using i by (simp add: PROCS_MAX_def)
  have e: "tf_frame L i = procs_base L + of_nat (i * 8640 + 8016)"
    by (simp add: tf_frame_def tf_stack_top_def tf_stack_base_def)
  have "unat (of_nat (i * 8640 + 8016) :: u64) = i * 8640 + 8016"
    using i8 by (intro unat_of_nat_u64) simp
  then show u: "unat (tf_frame L i) = unat (procs_base L) + i * 8640 + 8016"
    unfolding e using lay(1) i8 unat_u64_bound [of "free_ram L"] by (subst unat_add_u64) simp_all
  show "aligned8 (tf_frame L i)"
    using u lay(2) unfolding aligned8_unat by presburger
  show "unat (tf_frame L i) + 256 \<le> unat (free_ram L)" using u lay(1) i8 by simp
qed

lemma tf_frame_pages:
  assumes L: "layout_ok L" and i: "i < PROCS_MAX" and x: "x - tf_frame L i < 256"
  shows "page_base x < free_ram L"
proof -
  note t = tf_frame_props [OF L i]
  have "unat x = unat (tf_frame L i) + unat (x - tf_frame L i)"
    using x t(3) unat_diff_u64 [of x "tf_frame L i"] unat_u64_bound [of "free_ram L"] unat_u64_bound [of x]
    by (simp add: word_less_nat_alt split: if_splits)
  then have "unat x < unat (free_ram L)" using x t(3) by (simp add: word_less_nat_alt)
  then show ?thesis using unat_page_base [of x] by (simp add: word_less_nat_alt)
qed

text \<open>The fields of a frame are words of their own.\<close>

lemma tf_get_set:
  assumes "aligned8 tf" and "aligned8 off" and "aligned8 off'"
  shows "tf_get (tf_set tf off v s) tf off' = (if off' = off then v else tf_get s tf off')"
  using assms by (auto simp: tf_get_def tf_set_def load64_store64_aligned aligned8_add)

lemma tf_offsets [simp]:
  "aligned8 TF_RA" "aligned8 TF_A0" "aligned8 TF_A1" "aligned8 TF_A2" "aligned8 TF_A7"
  "aligned8 TF_SP" "aligned8 TF_EPC"
  by (simp_all add: aligned8_def TF_RA_def TF_A0_def TF_A1_def TF_A2_def TF_A7_def TF_SP_def TF_EPC_def)

lemma tf_get_cleared:
  assumes "mem s' = memset (mem s) tf 0 256" and "aligned8 off" and "off < 256"
  shows "tf_get s' tf off = 0"
  unfolding tf_get_def assms(1)
proof (rule load64_zero)
  have off: "unat off + 8 \<le> 256"
    using assms(2,3) by (intro aligned_step) (simp_all add: aligned8_unat word_less_nat_alt)
  fix x assume x: "x - (tf + off) < 8"
  have e: "x - tf = (x - (tf + off)) + off" by simp
  have "unat (x - tf) = unat (x - (tf + off)) + unat off"
    unfolding e using x off by (subst unat_add_u64) (simp_all add: word_less_nat_alt)
  then have "x - tf < 256" using x off by (simp add: word_less_nat_alt)
  then show "memset (mem s) tf 0 256 x = 0" by (simp add: memset_apply)
qed

text \<open>A write to a field changes only bytes of the frame.\<close>

definition frame_only :: "u64 \<Rightarrow> mem \<Rightarrow> mem \<Rightarrow> bool" where
  "frame_only tf m m' \<longleftrightarrow> (\<forall>x. 256 \<le> x - tf \<longrightarrow> m' x = m x)"

lemma frame_only_refl [simp]: "frame_only tf m m"
  by (simp add: frame_only_def)

lemma frame_only_trans: "frame_only tf m m' \<Longrightarrow> frame_only tf m' m'' \<Longrightarrow> frame_only tf m m''"
  by (simp add: frame_only_def)

lemma frame_only_memset: "frame_only tf m (memset m tf 0 256)"
  by (auto simp: frame_only_def memset_apply not_less)

lemma frame_only_set:
  assumes "aligned8 off" and "off < 256"
  shows "frame_only tf (mem s) (mem (tf_set tf off v s))"
  unfolding frame_only_def
proof (intro allI impI)
  fix x assume x: "256 \<le> x - tf"
  have off: "unat off + 8 \<le> 256"
    using assms by (intro aligned_step) (simp_all add: aligned8_unat word_less_nat_alt)
  have e: "x - (tf + off) = (x - tf) - off" by simp
  have "unat (x - (tf + off)) = unat (x - tf) - unat off"
    unfolding e using x off by (subst unat_sub_u64) (simp_all add: word_le_nat_alt)
  then have "8 \<le> x - (tf + off)" using x off by (simp add: word_le_nat_alt)
  then show "mem (tf_set tf off v s) x = mem s x" by (simp add: tf_set_def store64_other)
qed

lemma frame_only_outside:
  assumes "frame_only tf m m'"
  shows "same_outside {page_base x | x. x - tf < 256} m m'"
  using assms by (auto simp: frame_only_def same_outside_def not_less)

lemma tf_set_simps [simp]:
  "procs (tf_set tf off v s) = procs s"
  "current_proc (tf_set tf off v s) = current_proc s"
  "process_count (tf_set tf off v s) = process_count s"
  "proc_view (tf_set tf off v s) = proc_view s"
  "g_user_stack_top (tf_set tf off v s) = g_user_stack_top s"
  "avail L (tf_set tf off v s) = avail L s"
  by (simp_all add: tf_set_def)

lemma pool_write_frame:
  assumes "pool_ok L s" and "layout_ok L" and "i < PROCS_MAX"
    and "frame_only (tf_frame L i) (mem s) m"
  shows "pool_ok L (s\<lparr>mem := m\<rparr>)" and "owned L (s\<lparr>mem := m\<rparr>) = owned L s"
  using pool_write_kernel [OF assms(1) frame_only_outside [OF assms(4)]]
    tf_frame_pages [OF assms(2,3)] by auto

section \<open>\<^verbatim>\<open>create_init_process\<close>\<close>

text \<open>The state after the first two stages: the PCB has its trap frame.\<close>

definition init_frame :: "linker_syms \<Rightarrow> nat \<Rightarrow> kstate \<Rightarrow> kstate" where
  "init_frame L i s =
     (let s = s\<lparr>process_count := process_count s + 1\<rparr>;
          tf = tf_frame L i;
          s = upd_proc i (\<lambda>p. p\<lparr>p_tf := tf\<rparr>) s;
          s = s\<lparr>mem := memset (mem s) tf 0 256\<rparr>;
          s = tf_set tf TF_SP (g_user_stack_top s) s;
          s = tf_set tf TF_RA (sym_user_entry L) s;
          s = tf_set tf TF_EPC USER_BASE s;
          s = upd_proc i (\<lambda>p. p\<lparr>p_sp := tf\<rparr>) s
      in case current_proc s of
           None \<Rightarrow> s
         | Some c \<Rightarrow> upd_proc i (\<lambda>p. p\<lparr>p_parent := Some c, p_parent_pid := p_pid (procs s ! c)\<rparr>) s)"

lemma create_init_process_eq:
  assumes "first_index (\<lambda>p. p_state p = PROC_UNUSED) (procs s) = Some i"
  shows "create_init_process L fi isz s =
    kbind (alloc_pages L 1 (init_frame L i s)) (\<lambda>pt s.
      kbind (build_user_space L pt fi isz (upd_proc i (\<lambda>p. p\<lparr>p_page_table := pt\<rparr>) s)) (\<lambda>_ s.
        kret i (upd_proc i (\<lambda>p. p\<lparr>p_pid := 1 + int i, p_state := PROC_RUNNABLE,
          p_heap_end := g_user_heap_start s + 4096, p_user_stack_top := g_user_stack_top s,
          p_entry_point := USER_BASE, p_image_pa := fi, p_image_npages := image_pages isz\<rparr>) s)))"
  using assms unfolding create_init_process_def init_frame_def Let_def by simp

lemma init_frame_procs:
  assumes "i < length (procs s)"
  shows "\<exists>q. procs (init_frame L i s) = (procs s)[i := q] \<and> p_tf q = tf_frame L i \<and> p_sp q = tf_frame L i \<and>
    p_parent q = (case current_proc s of None \<Rightarrow> p_parent (procs s ! i) | Some c \<Rightarrow> Some c)"
  using assms by (cases "current_proc s") (auto simp: init_frame_def Let_def)

definition init_word :: "linker_syms \<Rightarrow> kstate \<Rightarrow> u64 \<Rightarrow> u64" where
  "init_word L s off =
     (if off = TF_SP then g_user_stack_top s
      else if off = TF_RA then sym_user_entry L
      else if off = TF_EPC then USER_BASE else 0)"

lemma init_frame_spec:
  assumes ok: "pool_ok L s" and L: "layout_ok L" and i: "i < PROCS_MAX"
  defines "t \<equiv> init_frame L i s"
  shows "pool_ok L t" and "owned L t = owned L s" and "avail L t = avail L s"
    and "frame_only (tf_frame L i) (mem s) (mem t)"
    and "aligned8 off \<Longrightarrow> off < 256 \<Longrightarrow> tf_get t (tf_frame L i) off = init_word L s off"
proof -
  let ?tf = "tf_frame L i"
  let ?m0 = "memset (mem s) ?tf 0 256"
  define u where "u = tf_set ?tf TF_EPC USER_BASE (tf_set ?tf TF_RA (sym_user_entry L)
    (tf_set ?tf TF_SP (g_user_stack_top s) (s\<lparr>mem := ?m0\<rparr>)))"
  note al = tf_frame_props(2) [OF L i]
  have mem_t: "mem t = mem u"
    by (simp add: t_def init_frame_def Let_def u_def tf_set_def split: option.split)
  have pv: "pool_view t = pool_view (s\<lparr>mem := mem t\<rparr>)"
    by (simp add: t_def init_frame_def Let_def tf_set_def pool_view_def upd_proc_def split: option.split)
  have small: "TF_SP < 256" "TF_RA < 256" "TF_EPC < 256"
    by (simp_all add: TF_SP_def TF_RA_def TF_EPC_def)
  have "frame_only ?tf ?m0 (mem u)"
    unfolding u_def
    by (intro frame_only_trans [OF frame_only_trans [OF _ frame_only_set] frame_only_set]
        frame_only_trans [OF _ frame_only_set]) (simp_all add: small frame_only_def tf_set_def)
  then show out: "frame_only ?tf (mem s) (mem t)"
    using frame_only_trans [OF frame_only_memset] mem_t by simp
  note w = pool_write_frame [OF ok L i out]
  show "pool_ok L t" and "owned L t = owned L s" and "avail L t = avail L s"
    using pool_frame [OF pv] w by simp_all
  assume off: "aligned8 off" "off < 256"
  have "tf_get u ?tf off = init_word L s off"
    using tf_get_cleared [of "s\<lparr>mem := ?m0\<rparr>" s ?tf off] off al
    by (auto simp: u_def tf_get_set init_word_def TF_SP_def TF_RA_def TF_EPC_def aligned8_def)
  then show "tf_get t ?tf off = init_word L s off" using mem_t by (simp add: tf_get_def)
qed


section \<open>From a fresh root to the full space\<close>

lemma space_globals:
  assumes "g_user_stack_bottom s' = g_user_stack_bottom s" and "g_user_stack_top s' = g_user_stack_top s"
    and "g_user_heap_start s' = g_user_heap_start s"
  shows "space_layout L isz s' = space_layout L isz s" and "full_space L isz s' = full_space L isz s"
    and "space_cost L isz s' = space_cost L isz s"
proof -
  show f: "full_space L isz s' = full_space L isz s"
    using assms by (simp add: full_space_def stack_space_def)
  show "space_layout L isz s' = space_layout L isz s" using assms by (simp add: space_layout_def)
  show "space_cost L isz s' = space_cost L isz s"
    using assms by (simp add: space_cost_def f stack_count_def)
qed

lemma full_byte_globals:
  assumes "g_user_stack_bottom s' = g_user_stack_bottom s" and "g_user_stack_top s' = g_user_stack_top s"
    and "g_user_heap_start s' = g_user_heap_start s"
  shows "full_byte s' m fi isz = full_byte s m fi isz"
  using assms by (simp add: full_byte_def stack_byte_def)

lemma space_is_sub:
  assumes "space_is L root s0 s R c" and "owned L t \<subseteq> owned L s0"
    and "mem s' = mem s" and "owned L s' = owned L s"
  shows "space_is L root t s' R c"
  using assms unfolding space_is_def mapped_as_def
  by (fastforce split: option.splits if_splits)

lemma space_byte_cong:
  "(\<And>j. j < unat isz \<Longrightarrow> m' (fi + of_nat j) = m (fi + of_nat j)) \<Longrightarrow>
    space_byte m' fi isz = space_byte m fi isz"
proof (rule ext)
  fix v
  assume eq: "\<And>j. j < unat isz \<Longrightarrow> m' (fi + of_nat j) = m (fi + of_nat j)"
  show "space_byte m' fi isz v = space_byte m fi isz v"
    using eq [of "unat (v - USER_BASE)"] by (simp add: space_byte_def word_less_nat_alt)
qed

lemma full_byte_cong:
  "(\<And>j. j < unat isz \<Longrightarrow> m' (fi + of_nat j) = m (fi + of_nat j)) \<Longrightarrow>
    full_byte s m' fi isz = full_byte s m fi isz"
  by (simp add: full_byte_def stack_byte_def space_byte_cong [of isz m' fi m])

text \<open>A root is allocated, a PCB points to it, and the four stages run.\<close>

lemma fresh_space_total:
  assumes ok: "pool_ok L s" and lay: "space_layout L isz s"
    and img: "\<forall>j < unat isz. page_base (fi + of_nat j) \<in> owned L s"
    and room: "Suc (space_cost L isz s) + k \<le> avail L s"
  shows "\<exists>pt s1 s'. alloc_pages L 1 s = Inr (pt, s1) \<and>
    build_user_space L pt fi isz (upd_proc i (\<lambda>p. p\<lparr>p_page_table := pt\<rparr>) s1) = Inr ((), s') \<and>
    vm_ok L pt s' \<and> space_is L pt s s' (full_space L isz s) (full_byte s (mem s) fi isz) \<and>
    owned L s \<subseteq> owned L s' \<and> k \<le> avail L s' \<and>
    same_outside (owned L s' - owned L s) (mem s) (mem s') \<and>
    proc_view s' = proc_view (upd_proc i (\<lambda>p. p\<lparr>p_page_table := pt\<rparr>) s)"
proof -
  have L: "layout_ok L" using ok by (auto simp: pool_ok_def pool_inv_def)
  obtain pt s1 where run: "alloc_pages L 1 s = Inr (pt, s1)"
    using alloc_one_returns [OF ok] room by (metis Suc_le_lessD add_Suc less_nat_zero_code not_gr_zero)
  note a = alloc_one_spec [OF ok run] and r = alloc_root [OF ok run]
  define s0 where "s0 = upd_proc i (\<lambda>p. p\<lparr>p_page_table := pt\<rparr>) s1"
  have out: "same_outside {pt} (mem s) (mem s1)" using kpages.alloc_outside [OF ok run] .
  have img0: "mem s1 (fi + of_nat j) = mem s (fi + of_nat j)" if "j < unat isz" for j
    using that img a(2) by (intro same_outside_byte [OF out]) auto
  define c where "c = space_byte (mem s0) fi isz"
  have us: "uspace L pt s0 s0 (\<lambda>_. None) c"
    using r by (simp add: uspace_def space_is_def mapped_as_def user_flags_def s0_def)
  have kept: "image_kept L pt fi isz s0"
    using img a(2,3) r(2) by (auto simp: image_kept_def s0_def Let_def)
  note pv = proc_viewD [OF a(5)]
  note g = space_globals [of s0 s L isz]
  have gl: "g_user_stack_bottom s0 = g_user_stack_bottom s" "g_user_stack_top s0 = g_user_stack_top s"
    "g_user_heap_start s0 = g_user_heap_start s" using pv by (simp_all add: s0_def)
  have byte: "full_byte s0 (mem s0) fi isz = full_byte s (mem s) fi isz"
    unfolding full_byte_globals [OF gl] by (rule full_byte_cong) (simp add: s0_def img0)
  have "avail L s = Suc (avail L s0)" using alloc_one_avail [OF ok run] by (simp add: s0_def)
  then have "space_cost L isz s0 + k \<le> avail L s0" using room g(3) [OF gl] by simp
  moreover have "space_layout L isz s0" using lay g(1) [OF gl] by simp
  ultimately obtain s' where b: "build_user_space L pt fi isz s0 = Inr ((), s')"
    and us': "uspace L pt s0 s' (full_space L isz s0) (full_byte s0 (mem s0) fi isz)" and k: "k \<le> avail L s'"
    using build_user_space_total [OF us c_def kept _ L] by blast
  have gr: "vm_grow L pt s0 s'" and ok': "vm_ok L pt s'" and sp: "space_is L pt s0 s' (full_space L isz s) (full_byte s (mem s) fi isz)"
    using us' g(2) [OF gl] byte by (simp_all add: uspace_def)
  have own0: "owned L s0 = insert pt (owned L s)" using a(3) by (simp add: s0_def)
  have "space_is L pt s s' (full_space L isz s) (full_byte s (mem s) fi isz)"
    using space_is_sub [OF sp, of s s'] own0 by auto
  moreover have grow: "owned L s \<subseteq> owned L s'" "pt \<in> owned L s'"
    using gr own0 by (auto simp: vm_grow_def)
  moreover have "same_outside (owned L s' - owned L s) (mem s) (mem s')"
  proof -
    have "same_outside (tables (mem s0) pt \<union> (owned L s' - owned L s0)) (mem s1) (mem s')"
      using gr by (simp add: vm_grow_def s0_def)
    from same_outside_trans [OF out this] show ?thesis
      by (rule same_outside_mono) (use r(2) own0 grow a(2) in \<open>auto simp: s0_def\<close>)
  qed
  moreover have "proc_view s' = proc_view (upd_proc i (\<lambda>p. p\<lparr>p_page_table := pt\<rparr>) s)"
    using gr a(5) by (simp add: vm_grow_def s0_def proc_view_def upd_proc_def)
  ultimately show ?thesis using run b ok' k unfolding s0_def by blast
qed

section \<open>Properties\<close>

text \<open>The frame of a process lies outside the page pool.\<close>

lemma frame_word_kept:
  assumes "pool_ok L s" and "layout_ok L" and "i < PROCS_MAX" and "same_outside (owned L s - P) m m'"
    and off: "aligned8 off" "off < 256"
  shows "load64 m' (tf_frame L i + off) = load64 m (tf_frame L i + off)"
proof (rule load64_cong)
  fix x assume x: "x - (tf_frame L i + off) < 8"
  have o8: "unat off + 8 \<le> 256"
    using off by (intro aligned_step) (simp_all add: aligned8_unat word_less_nat_alt)
  have "x - tf_frame L i = (x - (tf_frame L i + off)) + off" by simp
  then have "unat (x - tf_frame L i) = unat (x - (tf_frame L i + off)) + unat off"
    using x o8 by (simp only:) (subst unat_add_u64, simp_all add: word_less_nat_alt)
  then have "x - tf_frame L i < 256" using x o8 by (simp add: word_less_nat_alt)
  from tf_frame_pages [OF assms(2,3) this] have "page_base x \<notin> owned L s"
    using owned_props(4) [OF assms(1)] by (meson leD)
  then show "m' x = m x" using same_outside_byte [OF assms(4), of x] by simp
qed

text \<open>
  What \<^verbatim>\<open>create_init_process\<close> does, with what the rest of the boot needs of it: \<open>k\<close> pages
  are left, and nothing changes but the frame and pages that were free.
\<close>

lemma create_init_process_total:
  assumes "pool_ok L s" and "length (procs s) = PROCS_MAX"
    and "first_index (\<lambda>p. p_state p = PROC_UNUSED) (procs s) = Some i"
    and "space_layout L isz s" and "\<forall>j < unat isz. page_base (fi + of_nat j) \<in> owned L s"
    and "Suc (space_cost L isz s) + k \<le> avail L s"
  shows "\<exists>s' p. create_init_process L fi isz s = Inr (i, s') \<and> procs s' = (procs s)[i := p] \<and>
    process_count s' = process_count s + 1 \<and>
    p_state p = PROC_RUNNABLE \<and> p_pid p = int i + 1 \<and> p_entry_point p = USER_BASE \<and>
    p_heap_end p = g_user_heap_start s + 4096 \<and> p_image_pa p = fi \<and>
    p_tf p = tf_frame L i \<and>
    (\<forall>off. aligned8 off \<longrightarrow> off < 256 \<longrightarrow> tf_get s' (p_tf p) off = init_word L s off) \<and>
    vm_ok L (p_page_table p) s' \<and>
    space_is L (p_page_table p) s s' (full_space L isz s) (full_byte s (mem s) fi isz) \<and>
    (\<forall>x. page_base x \<in> owned L s \<longrightarrow> mem s' x = mem s x) \<and>
    p_sp p = tf_frame L i \<and> p_parent p = (case current_proc s of None \<Rightarrow> p_parent (procs s ! i) | Some c \<Rightarrow> Some c) \<and>
    current_proc s' = current_proc s \<and> idle_proc s' = idle_proc s \<and> g_startup s' = g_startup s \<and>
    owned L s \<subseteq> owned L s' \<and> k \<le> avail L s' \<and>
    (\<forall>x. 256 \<le> x - tf_frame L i \<longrightarrow> page_base x \<notin> owned L s' - owned L s \<longrightarrow> mem s' x = mem s x)"
proof -
  have L: "layout_ok L" using assms(1) by (auto simp: pool_ok_def pool_inv_def)
  have i: "i < PROCS_MAX" "i < length (procs s)" using first_index_SomeD(1) [OF assms(3)] assms(2) by simp_all
  define t where "t = init_frame L i s"
  note f = init_frame_spec [OF assms(1) L i(1), folded t_def]
  have pages: "page_base x \<notin> owned L s" if "x - tf_frame L i < 256" for x
    using tf_frame_pages [OF L i(1) that] owned_props(4) [OF assms(1)] by (meson leD)
  have keep: "mem t x = mem s x" if "page_base x \<in> owned L s" for x
  proof -
    have "256 \<le> x - tf_frame L i" using pages [of x] that by (meson not_le)
    with f(4) show ?thesis by (simp add: frame_only_def)
  qed
  have gl: "g_user_stack_bottom t = g_user_stack_bottom s" "g_user_stack_top t = g_user_stack_top s"
    "g_user_heap_start t = g_user_heap_start s" "process_count t = process_count s + 1"
    "current_proc t = current_proc s" "idle_proc t = idle_proc s" "g_startup t = g_startup s"
    by (simp_all add: t_def init_frame_def Let_def tf_set_def upd_proc_def split: option.split)
  note g = space_globals [OF gl(1-3)]
  have "space_layout L isz t" and "\<forall>j < unat isz. page_base (fi + of_nat j) \<in> owned L t"
    and "Suc (space_cost L isz t) + k \<le> avail L t"
    using assms(4-6) g f(2,3) by simp_all
  from fresh_space_total [OF f(1) this, of i] obtain pt s1 s'
    where run: "alloc_pages L 1 t = Inr (pt, s1)"
      "build_user_space L pt fi isz (upd_proc i (\<lambda>p. p\<lparr>p_page_table := pt\<rparr>) s1) = Inr ((), s')"
    and sp: "vm_ok L pt s'" "space_is L pt t s' (full_space L isz t) (full_byte t (mem t) fi isz)"
    and own: "owned L t \<subseteq> owned L s'" and k: "k \<le> avail L s'" and out: "same_outside (owned L s' - owned L t) (mem t) (mem s')"
    and pv: "proc_view s' = proc_view (upd_proc i (\<lambda>p. p\<lparr>p_page_table := pt\<rparr>) t)" by blast
  define e where "e = upd_proc i (\<lambda>p. p\<lparr>p_pid := 1 + int i, p_state := PROC_RUNNABLE,
    p_heap_end := g_user_heap_start s' + 4096, p_user_stack_top := g_user_stack_top s',
    p_entry_point := USER_BASE, p_image_pa := fi, p_image_npages := image_pages isz\<rparr>) s'"
  have run_e: "create_init_process L fi isz s = Inr (i, e)"
    using run by (simp add: create_init_process_eq [OF assms(3)] t_def [symmetric] e_def)
  have byte: "full_byte t (mem t) fi isz = full_byte s (mem s) fi isz"
    unfolding full_byte_globals [OF gl(1-3)] by (rule full_byte_cong) (use keep assms(5) in blast)
  have "space_is L pt s e (full_space L isz s) (full_byte s (mem s) fi isz)"
    using space_is_sub [OF sp(2), of s e] f(2) g(2) byte by (simp add: e_def)
  moreover have "vm_ok L pt e" using sp(1) by (simp add: e_def)
  moreover have "mem e x = mem s x" if "page_base x \<in> owned L s" for x
    using that keep [OF that] f(2) same_outside_byte [OF out, of x] by (simp add: e_def)
  moreover have "tf_get e (tf_frame L i) off = init_word L s off" if off: "aligned8 off" "off < 256" for off
    using frame_word_kept [OF vm_okD(1) [OF sp(1)] L i(1) out off] f(5) [OF off] by (simp add: tf_get_def e_def)
  moreover have "process_count e = process_count s + 1"
    using proc_viewD(4) [OF pv] gl(4) by (simp add: e_def)
  moreover obtain q where q: "procs s' = (procs s)[i := q]" "p_tf q = tf_frame L i" "p_page_table q = pt"
      "p_sp q = tf_frame L i" "p_parent q = (case current_proc s of None \<Rightarrow> p_parent (procs s ! i) | Some c \<Rightarrow> Some c)"
    using proc_viewD(1) [OF pv] init_frame_procs [OF i(2), of L] i(2) by (auto simp: t_def)
  moreover have "current_proc e = current_proc s" "idle_proc e = idle_proc s" "g_startup e = g_startup s"
    using proc_viewD(2,3,7) [OF pv] gl(5-7) by (simp_all add: e_def upd_proc_def)
  moreover have "mem e x = mem s x" if "256 \<le> x - tf_frame L i" "page_base x \<notin> owned L e - owned L s" for x
    using that f(2,4) same_outside_byte [OF out, of x] by (simp add: e_def frame_only_def)
  moreover have "owned L s \<subseteq> owned L e" "k \<le> avail L e" using own f(2) k by (simp_all add: e_def)
  moreover have "g_user_heap_start s' = g_user_heap_start s"
    using proc_viewD(10) [OF pv] gl(3) by simp
  ultimately show ?thesis
    using run_e i(2) by (intro exI [of _ e] exI [of _ "procs e ! i"]) (simp add: e_def)
qed

text \<open>
  C6: \<open>create_init_process\<close> with a free PCB, a flat image in allocated pages, segments in
  whole pages below the kernel, and enough pages in the pool returns the first free PCB:
  runnable, with its pid, entry point, heap end and image; its trap frame holds the stack
  top, the user entry stub and the program start, and is zero elsewhere; its address space
  maps the kernel to itself without user access, and exactly the image, the stack and one
  heap page with user access, each to a page of its own that was free before. Where the
  stack overlaps the image, as it does in the programs of the repository, whose image ends
  with the section \<^verbatim>\<open>.stack\<close>, the stack has the page: a user address reads zero on the pages
  of the stack and of the heap, and otherwise the image byte, or zero behind the last. No
  page in use before, and no other PCB, changes.
\<close>

theorem create_init_process_correct:
  assumes "pool_ok L s" and "length (procs s) = PROCS_MAX"
    and "first_index (\<lambda>p. p_state p = PROC_UNUSED) (procs s) = Some i"
    and "space_layout L isz s" and "\<forall>j < unat isz. page_base (fi + of_nat j) \<in> owned L s"
    and "Suc (space_cost L isz s) \<le> avail L s"
  shows "\<exists>s' p. create_init_process L fi isz s = Inr (i, s') \<and> procs s' = (procs s)[i := p] \<and>
    process_count s' = process_count s + 1 \<and>
    p_state p = PROC_RUNNABLE \<and> p_pid p = int i + 1 \<and> p_entry_point p = USER_BASE \<and>
    p_heap_end p = g_user_heap_start s + 4096 \<and> p_image_pa p = fi \<and>
    p_tf p = tf_frame L i \<and>
    (\<forall>off. aligned8 off \<longrightarrow> off < 256 \<longrightarrow> tf_get s' (p_tf p) off = init_word L s off) \<and>
    vm_ok L (p_page_table p) s' \<and>
    space_is L (p_page_table p) s s' (full_space L isz s) (full_byte s (mem s) fi isz) \<and>
    (\<forall>x. page_base x \<in> owned L s \<longrightarrow> mem s' x = mem s x)"
  using create_init_process_total [where k = 0, OF assms(1-5)] assms(6) by auto

text \<open>The boot state with the segments of the user programs and their image of 128 KiB,
  which ends with the 64 KiB of the stack, for the witness.\<close>

definition user_boot :: kstate where
  "user_boot = (boot_state kernel_map)\<lparr>g_user_stack_top := 0x1020000,
     g_user_stack_bottom := 0x1010000, g_user_heap_start := 0x3000000\<rparr>"

lemma user_boot_pool: "pool_ok kernel_map user_boot" "avail kernel_map user_boot = 16384"
  using pool_frame [of user_boot "boot_state kernel_map" kernel_map] boot_avail
  by (simp_all add: user_boot_def pool_view_def)

lemma user_boot_image:
  obtains s where "alloc_pages kernel_map 32 user_boot = Inr (0x804cb000, s)"
    and "pool_ok kernel_map s" and "avail kernel_map s = 16352"
    and "\<forall>j < unat (0x20000 :: u64). page_base (0x804cb000 + of_nat j) \<in> owned kernel_map s"
    and "proc_view s = proc_view user_boot"
proof -
  obtain s where run: "alloc_pages kernel_map 32 user_boot = Inr (0x804cb000, s)"
    and fl: "free_list s = 0" "next_paddr s = 0x804eb000" "g_free_pages s = 0"
    by (simp add: alloc_pages_def user_boot_def boot_state_def kernel_map_def Let_def)
  have fit: "unat (next_paddr user_boot) + unat (32 :: u64) * 4096 < 2 ^ 64"
    by (simp add: user_boot_def boot_state_def kernel_map_def)
  note a = alloc_many_spec [OF user_boot_pool(1) _ fit run]
  have own: "page_base (0x804cb000 + of_nat j) \<in> owned kernel_map s" if "j < 0x20000" for j
  proof -
    have "unat (of_nat j :: u64) = j" using that by (intro unat_of_nat_u64) simp
    then have u: "unat (0x804cb000 + of_nat j :: u64) = 0x804cb000 + j"
      using that by (subst unat_add_u64) simp_all
    have "(525515 * 4096 + j) mod 4096 = j mod 4096" by (rule mod_mult_self3)
    then have "(0x804cb000 + j) mod 4096 \<le> j" by simp
    then have "0x804cb000 \<le> page_base (0x804cb000 + of_nat j)"
      and "page_base (0x804cb000 + of_nat j) < 0x804eb000"
      using that by (simp_all add: word_le_nat_alt word_less_nat_alt unat_page_base u)
    then show ?thesis using a(5) by simp
  qed
  have "avail kernel_map s = 16352" using fl by (simp add: avail_def kernel_map_def)
  with that run a(1,6) own show thesis by simp
qed

lemma PX2_div: "unat (PX 2 v) = unat v div 1073741824 mod 512"
  by (simp add: PX_unat)

text \<open>A space with one user page, for the witnesses.\<close>

lemma one_page_space:
  obtains r s t where "dspace kernel_map r s t ((\<lambda>_. None)(0x1000000 \<mapsto> 31)) (\<lambda>_. 0)"
    and "16000 \<le> avail kernel_map t" and "proc_view t = proc_view s" and "proc_view s = proc_view (boot_state kernel_map)"
proof (rule boot_root)
  fix r s
  assume s: "alloc_pages kernel_map 1 (boot_state kernel_map) = Inr (r, s)" "vm_ok kernel_map r s"
    "avail kernel_map s = 16383" "\<And>va. pt_leaf (mem s) r va = 0"
  let ?R = "(\<lambda>_. None)(0x1000000 :: u64 \<mapsto> (31 :: u64))" and ?A = "{[PX 2 0x1000000], va_path (0x1000000 :: u64)}"
  let ?L = kernel_map
  have ds: "dspace ?L r s s (\<lambda>_. None) (\<lambda>_. 0)"
    using s(2,4) by (simp add: dspace_def space_is_def mapped_as_def user_flags_def)
  have A: "finite ?A" "\<forall>js \<in> ?A. index_path js" by (simp_all add: index_path_def va_path_def)
  have "missing ?A (mem s) r \<le> card ?A" unfolding missing_def by (rule card_mono) auto
  also have "card ?A \<le> 2" by (simp add: card_insert_if)
  finally have room: "missing ?A (mem s) r + Suc 16000 \<le> avail ?L s" using s(3) by simp
  have "\<exists>p s1 s'. alloc_pages ?L 1 s = Inr (p, s1) \<and>
    map_page ?L r 0x1000000 p 31 (s1\<lparr>mem := mem s1\<rparr>) = Inr ((), s') \<and>
    dspace ?L r s s' ?R (\<lambda>v. if page_base v = 0x1000000 then 0 else 0) \<and>
    vm_grow ?L r s s' \<and> missing ?A (mem s') r + 16000 \<le> avail ?L s' \<and> upage (mem s') r 0x1000000 = p"
  proof (rule dspace_fresh [OF ds A room, where wr = "\<lambda>p m. m"])
    fix p s1 v
    assume al: "alloc_pages ?L 1 s = Inr (p, s1)" "page_base v = 0x1000000"
    note a = alloc_one_spec [OF vm_okD(1) [OF s(2)] al(1)]
    show "mem s1 (p + (v AND 0xFFF)) = 0"
      using a(6) page_offset [OF a(4), of v] in_page_iff [OF a(4)] by (simp add: memset_apply)
  qed (simp_all add: page_aligned_def)
  then obtain t where t: "dspace ?L r s t ?R (\<lambda>v. 0)" "16000 \<le> avail ?L t" "vm_grow ?L r s t" by auto
  have "proc_view s = proc_view (boot_state kernel_map)" using alloc_one_spec(5) [OF boot_pool s(1)] .
  then show thesis using t by (intro that [of r s t]) (simp_all add: vm_grow_def)
qed

text \<open>A bound on the tables of a space that lies below 1 GiB and between 2 and 3 GiB.\<close>

lemma card_space_paths:
  assumes "\<And>v. R v \<noteq> None \<Longrightarrow> unat v < 0x40000000 \<or> 0x80000000 \<le> unat v \<and> unat v < 0xC0000000"
  shows "card (space_paths R) \<le> 1026"
proof -
  let ?F = "(\<lambda>(a, b). [a, b]) ` ({0, 2 :: u64} \<times> (of_nat ` {..<512 :: nat}))"
  have v: "PX 2 v \<in> {0, 2}" if "R v \<noteq> None" for v
  proof -
    have "unat v div 1073741824 = 0 \<or> unat v div 1073741824 = 2"
      using assms [OF that] by (auto intro!: div_nat_eqI)
    then have "unat (PX 2 v) = 0 \<or> unat (PX 2 v) = 2" by (auto simp: PX2_div)
    then show ?thesis by (auto simp: word_unat_eq_iff)
  qed
  have px: "PX 1 v \<in> of_nat ` {..<512 :: nat}" for v
    using PX_less [of 1 v] by (intro image_eqI [of _ _ "unat (PX 1 v)"]) (simp_all add: word_less_nat_alt)
  have "space_paths R \<subseteq> {[0], [2]} \<union> ?F"
    using v px by (fastforce simp: space_paths_def va_path_def)
  then have "card (space_paths R) \<le> card ({[0], [2 :: u64]} \<union> ?F)" by (intro card_mono) auto
  also have "\<dots> \<le> card {[0 :: u64], [2]} + card ?F" by (rule card_Un_le)
  also have "card ?F \<le> card ({0 :: u64, 2} \<times> (of_nat ` {..<512 :: nat} :: u64 set))"
    by (rule card_image_le) simp
  also have "\<dots> \<le> 2 * 512"
    using card_image_le [of "{..<512 :: nat}" "of_nat :: nat \<Rightarrow> u64"] by (simp add: card_cartesian_product)
  also have "card {[0 :: u64], [2]} = 2" by simp
  finally show ?thesis by simp
qed

lemma user_boot_space:
  assumes "g_user_stack_top s = 0x1020000" and "g_user_stack_bottom s = 0x1010000"
    and "g_user_heap_start s = 0x3000000"
  shows "space_layout kernel_map 0x20000 s" and "space_cost kernel_map 0x20000 s \<le> 2000"
    and "full_space kernel_map 0x20000 s 0x2000000 = None"
    and "full_space kernel_map 0x20000 s 0x100f000 = Some 31" and "full_space kernel_map 0x20000 s 0x1010000 = Some 23"
    and "full_byte s m fi 0x20000 0x1010000 = 0"
proof -
  show "space_layout kernel_map 0x20000 s"
    using assms by (simp add: space_layout_def page_aligned_def page_count_def kernel_map_def)
  show "full_space kernel_map 0x20000 s 0x2000000 = None"
    using assms by (simp add: full_space_def stack_space_def image_space_def kernel_space_def
        region_def page_count_def kernel_map_def)
  show "full_space kernel_map 0x20000 s 0x100f000 = Some 31" and "full_space kernel_map 0x20000 s 0x1010000 = Some 23"
    using assms by (simp_all add: full_space_def stack_space_def image_space_def kernel_space_def
        region_def page_count_def kernel_map_def page_aligned_def)
  show "full_byte s m fi 0x20000 0x1010000 = 0"
    using assms by (simp add: full_byte_def stack_byte_def cleared_def page_base_def)
  have "card (space_paths (full_space kernel_map 0x20000 s)) \<le> 1026"
    using assms by (intro card_space_paths) (auto simp: full_space_def stack_space_def image_space_def
        kernel_space_def region_def page_count_def kernel_map_def split: if_splits)
  then show "space_cost kernel_map 0x20000 s \<le> 2000"
    using assms by (simp add: space_cost_def stack_count_def page_count_def)
qed

theorem create_init_process_correct_witness:
  "\<exists>s s'. create_init_process kernel_map 0x804cb000 0x20000 s = Inr (0, s') \<and>
     p_state (procs s' ! 0) = PROC_RUNNABLE \<and> p_pid (procs s' ! 0) = 1 \<and>
     tf_get s' (p_tf (procs s' ! 0)) TF_EPC = 0x1000000 \<and>
     pt_leaf (mem s') (p_page_table (procs s' ! 0)) 0x2000000 = 0 \<and>
     (\<exists>pa. pt_leaf (mem s') (p_page_table (procs s' ! 0)) 0x100f000 = PA2PTE pa OR 31 OR PTE_V) \<and>
     (\<exists>pa. pt_leaf (mem s') (p_page_table (procs s' ! 0)) 0x1010000 = PA2PTE pa OR 23 OR PTE_V \<and> mem s' pa = 0)"
proof (rule user_boot_image)
  fix s
  assume s: "pool_ok kernel_map s" "avail kernel_map s = 16352"
    "\<forall>j < unat (0x20000 :: u64). page_base (0x804cb000 + of_nat j) \<in> owned kernel_map s"
    "proc_view s = proc_view user_boot"
  note pv = proc_viewD [OF s(4)]
  have g: "g_user_stack_top s = 0x1020000" "g_user_stack_bottom s = 0x1010000"
    "g_user_heap_start s = 0x3000000" using pv by (simp_all add: user_boot_def)
  note sp = user_boot_space [OF g]
  have p: "procs s = replicate PROCS_MAX zero_proc" using pv(1) by (simp add: user_boot_def boot_state_def)
  then have len: "length (procs s) = PROCS_MAX" by simp
  have first: "first_index (\<lambda>p. p_state p = PROC_UNUSED) (procs s) = Some 0"
    unfolding p by (simp add: first_index_Some zero_proc_def PROCS_MAX_def)
  have room: "Suc (space_cost kernel_map 0x20000 s) \<le> avail kernel_map s" using sp(2) s(2) by simp
  show ?thesis
    using create_init_process_correct [OF s(1) len first sp(1) s(3) room]
  proof (elim exE conjE)
    fix s' q
    assume r: "create_init_process kernel_map 0x804cb000 0x20000 s = Inr (0, s')"
      "procs s' = (procs s)[0 := q]" "p_state q = PROC_RUNNABLE" "p_pid q = int 0 + 1"
      and word: "\<forall>off. aligned8 off \<longrightarrow> off < 256 \<longrightarrow>
        tf_get s' (p_tf q) off = init_word kernel_map s off"
      and space: "space_is kernel_map (p_page_table q) s s' (full_space kernel_map 0x20000 s)
        (full_byte s (mem s) 0x804cb000 0x20000)"
    have at: "mapped_as kernel_map (p_page_table q) s s' (full_byte s (mem s) 0x804cb000 0x20000)
        (full_space kernel_map 0x20000 s va) va" if "va < 0x8000000000" "page_aligned va" for va
      using space [unfolded space_is_def, THEN conjunct1, THEN spec, of va] that by simp
    have "pt_leaf (mem s') (p_page_table q) 0x2000000 = 0"
      using at [of "0x2000000"] sp(3) by (simp add: mapped_as_def page_aligned_def)
    moreover have "\<exists>pa. pt_leaf (mem s') (p_page_table q) 0x100f000 = PA2PTE pa OR 31 OR PTE_V"
      using at [of "0x100f000"] sp(4) by (auto simp: mapped_as_def page_aligned_def)
    moreover have "\<exists>pa. pt_leaf (mem s') (p_page_table q) 0x1010000 = PA2PTE pa OR 23 OR PTE_V \<and> mem s' pa = 0"
      using at [of "0x1010000"] sp(5,6) by (auto simp: mapped_as_def page_aligned_def)
    moreover have q: "procs s' ! 0 = q" using r(2) len by (simp add: PROCS_MAX_def)
    moreover have "tf_get s' (p_tf q) TF_EPC = 0x1000000"
      using word by (simp add: init_word_def TF_SP_def TF_RA_def TF_EPC_def USER_BASE_def aligned8_def)
    ultimately show ?thesis using r(1,3,4) by - (rule exI [of _ s], rule exI [of _ s'], simp)
  qed
qed

text \<open>
  \<open>exec_process\<close> with enough pages returns the current process, running, with a new
  address space: the kernel mapped to itself, and exactly the image, the stack and one heap
  page with user access, each to a page of its own that was free before; a user address
  reads the image byte or zero. No page in use before, and no other PCB, changes.
\<close>

theorem exec_process_correct:
  assumes "pool_ok L s" and "current_proc s = Some i" and "i < length (procs s)"
    and "space_layout L isz s" and "\<forall>j < unat isz. page_base (fi + of_nat j) \<in> owned L s"
    and "Suc (space_cost L isz s) \<le> avail L s"
  shows "\<exists>s' p. exec_process L fi isz s = Inr (i, s') \<and> procs s' = (procs s)[i := p] \<and>
    p_state p = PROC_RUNNING \<and> p_pid p = p_pid (procs s ! i) \<and> p_entry_point p = USER_BASE \<and>
    p_heap_end p = g_user_heap_start s + 4096 \<and> p_image_pa p = fi \<and>
    p_tf p = tf_frame L i \<and> p_page_table p \<notin> owned L s \<and>
    vm_ok L (p_page_table p) s' \<and>
    space_is L (p_page_table p) s s' (full_space L isz s) (full_byte s (mem s) fi isz) \<and>
    (\<forall>x. page_base x \<in> owned L s \<longrightarrow> mem s' x = mem s x)"
proof -
  define t where "t = upd_proc i (\<lambda>p. p\<lparr>p_tf := tf_frame L i\<rparr>) s"
  have ok: "pool_ok L t" using assms(1) by (simp add: t_def)
  note g = space_globals [of t s L isz]
  have gl: "g_user_stack_bottom t = g_user_stack_bottom s" "g_user_stack_top t = g_user_stack_top s"
    "g_user_heap_start t = g_user_heap_start s" by (simp_all add: t_def)
  have "space_layout L isz t" and "\<forall>j < unat isz. page_base (fi + of_nat j) \<in> owned L t"
    and "Suc (space_cost L isz t) + 0 \<le> avail L t"
    using assms(4-6) g [OF gl] by (simp_all add: t_def)
  from fresh_space_total [OF ok this, of i] obtain pt s1 s'
    where run: "alloc_pages L 1 t = Inr (pt, s1)"
      "build_user_space L pt fi isz (upd_proc i (\<lambda>p. p\<lparr>p_page_table := pt\<rparr>) s1) = Inr ((), s')"
    and sp: "vm_ok L pt s'" "space_is L pt t s' (full_space L isz t) (full_byte t (mem t) fi isz)"
    and out: "same_outside (owned L s' - owned L t) (mem t) (mem s')"
    and pv: "proc_view s' = proc_view (upd_proc i (\<lambda>p. p\<lparr>p_page_table := pt\<rparr>) t)" by blast
  define e where "e = upd_proc i (\<lambda>p. p\<lparr>p_state := PROC_RUNNING,
    p_heap_end := g_user_heap_start s' + 4096, p_user_stack_top := g_user_stack_top s',
    p_entry_point := USER_BASE, p_image_pa := fi, p_image_npages := image_pages isz\<rparr>) s'"
  have "exec_process L fi isz s = Inr (i, e)"
    using run by (simp add: exec_process_def assms(2) Let_def t_def [symmetric] e_def)
  moreover have "space_is L pt s e (full_space L isz s) (full_byte s (mem s) fi isz)"
    using space_is_sub [OF sp(2), of s e] g(2) [OF gl] full_byte_globals [OF gl] by (simp add: e_def t_def)
  moreover have "vm_ok L pt e" using sp(1) by (simp add: e_def)
  moreover have "mem e x = mem s x" if "page_base x \<in> owned L s" for x
    using that same_outside_byte [OF out, of x] by (simp add: e_def t_def)
  moreover have "pt \<notin> owned L s" using alloc_one_spec(2) [OF ok run(1)] by (simp add: t_def)
  moreover have "procs s' = (procs s)[i := (procs s ! i)\<lparr>p_tf := tf_frame L i, p_page_table := pt\<rparr>]"
    using proc_viewD(1) [OF pv] assms(3) by (simp add: t_def)
  moreover have "g_user_heap_start s' = g_user_heap_start s"
    using proc_viewD(10) [OF pv] gl(3) by simp
  ultimately show ?thesis
    using assms(3) by (intro exI [of _ e] exI [of _ "procs e ! i"]) (simp add: e_def)
qed

theorem exec_process_correct_witness:
  "\<exists>s s'. exec_process kernel_map 0x804cb000 0x20000 s = Inr (3, s') \<and>
     p_state (procs s' ! 3) = PROC_RUNNING \<and> p_heap_end (procs s' ! 3) = 0x3001000"
proof (rule user_boot_image)
  fix s0
  assume s: "pool_ok kernel_map s0" "avail kernel_map s0 = 16352"
    "\<forall>j < unat (0x20000 :: u64). page_base (0x804cb000 + of_nat j) \<in> owned kernel_map s0"
    "proc_view s0 = proc_view user_boot"
  define s where "s = s0\<lparr>current_proc := Some 3\<rparr>"
  have "pool_view s = pool_view s0" by (simp add: s_def pool_view_def)
  note f = pool_frame [OF this, of kernel_map]
  note pv = proc_viewD [OF s(4)]
  have g: "g_user_stack_top s = 0x1020000" "g_user_stack_bottom s = 0x1010000"
    "g_user_heap_start s = 0x3000000" using pv by (simp_all add: user_boot_def s_def)
  note sp = user_boot_space [OF g]
  have "procs s = replicate PROCS_MAX zero_proc" using pv(1) by (simp add: user_boot_def boot_state_def s_def)
  then have len: "3 < length (procs s)" by (simp add: PROCS_MAX_def)
  have "pool_ok kernel_map s" "current_proc s = Some 3"
    "\<forall>j < unat (0x20000 :: u64). page_base (0x804cb000 + of_nat j) \<in> owned kernel_map s"
    "Suc (space_cost kernel_map 0x20000 s) \<le> avail kernel_map s"
    using s f sp(2) by (simp_all add: s_def)
  from exec_process_correct [OF this(1,2) len sp(1) this(3,4)] show ?thesis
  proof (elim exE conjE)
    fix s' q
    assume "exec_process kernel_map 0x804cb000 0x20000 s = Inr (3, s')"
      "procs s' = (procs s)[3 := q]" "p_state q = PROC_RUNNING"
      "p_heap_end q = g_user_heap_start s + 4096"
    then show ?thesis using len g(3) by (intro exI [of _ s] exI [of _ s']) simp
  qed
qed

end
