(* ===== verification/Scheduler.thy ===== *)
theory Scheduler
  imports Proc_Create
begin

text \<open>
  \<^verbatim>\<open>kernel/scheduler.c\<close>. \<^verbatim>\<open>yield\<close> can leave its caller for good: after the first switch of
  the boot (\<^verbatim>\<open>g_startup\<close>, which goes through \<^verbatim>\<open>switch_context_sp\<close>), every switch ends in
  \<^verbatim>\<open>user_return\<close>, which resumes the user program of the new \<^verbatim>\<open>current_proc\<close> and discards
  the kernel stack of the caller. The result type \<open>flow\<close> says which of the three
  happened, and \<open>fbind\<close> continues only after a return.

  The process table prints and trap-frame dumps of \<^verbatim>\<open>yield\<close> are in \<^verbatim>\<open>Diagnostics\<close>, and left out here.
\<close>

datatype 'a flow =
    Ret 'a
  | To_user
  | To_context nat nat

type_synonym 'a fres = "('a flow, kstate) kres"

definition fbind :: "'a fres \<Rightarrow> ('a \<Rightarrow> kstate \<Rightarrow> 'b fres) \<Rightarrow> 'b fres" where
  "fbind m f =
     kbind m (\<lambda>r s.
       case r of
         Ret x \<Rightarrow> f x s
       | To_user \<Rightarrow> kret To_user s
       | To_context prev next \<Rightarrow> kret (To_context prev next) s)"

text \<open>A function that always returns, called from one that may not.\<close>

definition flift :: "('a, kstate) kres \<Rightarrow> 'a fres" where
  "flift m = kbind m (\<lambda>x s. kret (Ret x) s)"

lemma fbind_simps [simp]:
  "fbind (Inl e) f = Inl e"
  "fbind (Inr (Ret x, s)) f = f x s"
  "fbind (Inr (To_user, s)) f = Inr (To_user, s)"
  "fbind (Inr (To_context i j, s)) f = Inr (To_context i j, s)"
  by (simp_all add: fbind_def)

lemma flift_simps [simp]:
  "flift (Inl e) = Inl e"
  "flift (Inr (x, s)) = Inr (Ret x, s)"
  by (simp_all add: flift_def)

lemma flift_eq_Inr: "flift m = Inr (r, s) \<longleftrightarrow> (\<exists>x. r = Ret x \<and> m = Inr (x, s))"
  by (auto simp: flift_def kbind_eq_Inr)

lemma fbind_eq_Inr:
  "fbind m f = Inr (r, s) \<longleftrightarrow>
     (\<exists>x t. m = Inr (Ret x, t) \<and> f x t = Inr (r, s)) \<or>
     (m = Inr (To_user, s) \<and> r = To_user) \<or>
     (\<exists>i j. m = Inr (To_context i j, s) \<and> r = To_context i j)"
proof (cases m)
  case (Inr a)
  then show ?thesis by (cases a; cases "fst a") auto
qed simp

section \<open>The code\<close>

definition SATP_SV39 :: u64 where
  "SATP_SV39 = push_bit 60 8"

text \<open>
  The search loop of \<^verbatim>\<open>yield\<close>, over the slots from 1 on: with two processes in all (the
  idle process and the shell) the current one may be picked too.
\<close>

definition yield_candidate :: "kstate \<Rightarrow> nat \<Rightarrow> bool" where
  "yield_candidate s i \<longleftrightarrow>
     p_pid (procs s ! i) \<noteq> 0 \<and> p_state (procs s ! i) = PROC_RUNNABLE \<and>
     (process_count s = 2 \<or> current_proc s \<noteq> Some i)"

definition yield_search :: "kstate \<Rightarrow> nat option" where
  "yield_search s = find (yield_candidate s) [1..<PROCS_MAX]"

definition wake_down :: "nat \<Rightarrow> kstate \<Rightarrow> kstate" where
  "wake_down i s =
     (if p_state (procs s ! i) = PROC_RUNNING
      then upd_proc i (\<lambda>p. p\<lparr>p_state := PROC_RUNNABLE\<rparr>) s else s)"

definition wake_up :: "nat \<Rightarrow> kstate \<Rightarrow> kstate" where
  "wake_up i s =
     (if p_state (procs s ! i) = PROC_RUNNABLE
      then upd_proc i (\<lambda>p. p\<lparr>p_state := PROC_RUNNING\<rparr>) s else s)"

text \<open>The switch to the new address space, with its kernel stack.\<close>

definition switch_space :: "linker_syms \<Rightarrow> nat \<Rightarrow> kstate \<Rightarrow> kstate" where
  "switch_space L i s =
     s\<lparr>csr_satp := SATP_SV39 OR (p_page_table (procs s ! i) div 4096),
       csr_sscratch := tf_stack_top L i, current_proc := Some i\<rparr>"

text \<open>
  \<^verbatim>\<open>yield\<close>. A \<^verbatim>\<open>NULL\<close> \<^verbatim>\<open>current_proc\<close> or \<^verbatim>\<open>idle_proc\<close> faults at its field \<^verbatim>\<open>state\<close>, at
  offset 4.
\<close>

definition yield :: "linker_syms \<Rightarrow> kstate \<Rightarrow> unit fres" where
  "yield L s =
     (case current_proc s of
        None \<Rightarrow> kpanic (Page_fault 4)
      | Some prev \<Rightarrow>
          (let s = wake_down prev s;
               next = (case yield_search s of None \<Rightarrow> idle_proc s | Some i \<Rightarrow> Some i)
           in if next = Some prev then kret (Ret ()) s
              else
                (case next of
                   None \<Rightarrow> kpanic (Page_fault 4)
                 | Some n \<Rightarrow>
                     (let s = switch_space L n (wake_up n (wake_down prev s))
                      in if g_startup s then kret (To_context prev n) (s\<lparr>g_startup := False\<rparr>)
                         else kret To_user s))))"

section \<open>What a call does\<close>

lemma wake_simps [simp]:
  "length (procs (wake_down i s)) = length (procs s)"
  "length (procs (wake_up i s)) = length (procs s)"
  "current_proc (wake_down i s) = current_proc s" "current_proc (wake_up i s) = current_proc s"
  "idle_proc (wake_down i s) = idle_proc s" "idle_proc (wake_up i s) = idle_proc s"
  "process_count (wake_down i s) = process_count s" "process_count (wake_up i s) = process_count s"
  "g_startup (wake_down i s) = g_startup s" "g_startup (wake_up i s) = g_startup s"
  "mem (wake_down i s) = mem s" "mem (wake_up i s) = mem s"
  "pool_view (wake_down i s) = pool_view s" "pool_view (wake_up i s) = pool_view s"
  by (simp_all add: wake_down_def wake_up_def upd_proc_def pool_view_def)

lemma switch_simps [simp]:
  "procs (switch_space L i s) = procs s" "current_proc (switch_space L i s) = Some i"
  "idle_proc (switch_space L i s) = idle_proc s"
  "process_count (switch_space L i s) = process_count s"
  "g_startup (switch_space L i s) = g_startup s" "mem (switch_space L i s) = mem s"
  "pool_view (switch_space L i s) = pool_view s"
  by (simp_all add: switch_space_def pool_view_def)

text \<open>The state of every slot after the first line of \<^verbatim>\<open>yield\<close>.\<close>

definition demoted :: "kstate \<Rightarrow> nat \<Rightarrow> proc_state_t" where
  "demoted s i =
     (if current_proc s = Some i \<and> p_state (procs s ! i) = PROC_RUNNING then PROC_RUNNABLE
      else p_state (procs s ! i))"

lemma wake_down_at:
  "i < length (procs s) \<Longrightarrow> procs (wake_down i s) ! j =
    (if j = i \<and> p_state (procs s ! i) = PROC_RUNNING
     then (procs s ! i)\<lparr>p_state := PROC_RUNNABLE\<rparr> else procs s ! j)"
  by (simp add: wake_down_def)

lemma wake_up_at:
  "i < length (procs s) \<Longrightarrow> procs (wake_up i s) ! j =
    (if j = i \<and> p_state (procs s ! i) = PROC_RUNNABLE
     then (procs s ! i)\<lparr>p_state := PROC_RUNNING\<rparr> else procs s ! j)"
  by (simp add: wake_up_def)

lemma wake_down_idem: "i < length (procs s) \<Longrightarrow> wake_down i (wake_down i s) = wake_down i s"
  by (subst wake_down_def) (simp add: wake_down_at)

text \<open>The slots \<^verbatim>\<open>yield\<close> can pick, in terms of the state before the call.\<close>

definition ready :: "kstate \<Rightarrow> nat \<Rightarrow> bool" where
  "ready s i \<longleftrightarrow> 1 \<le> i \<and> i < PROCS_MAX \<and> p_pid (procs s ! i) \<noteq> 0 \<and>
     demoted s i = PROC_RUNNABLE \<and> (process_count s = 2 \<or> current_proc s \<noteq> Some i)"

lemma candidate_demoted:
  assumes "current_proc s = Some c" and "c < length (procs s)" and "1 \<le> i" and "i < PROCS_MAX"
  shows "yield_candidate (wake_down c s) i \<longleftrightarrow> ready s i"
  using assms by (auto simp: yield_candidate_def ready_def wake_down_at demoted_def)

lemma yield_search_ready:
  assumes "current_proc s = Some c" and "c < length (procs s)"
  shows "yield_search (wake_down c s) = Some n \<longleftrightarrow> ready s n \<and> (\<forall>i < n. \<not> ready s i)"
    and "yield_search (wake_down c s) = None \<longleftrightarrow> (\<forall>i. \<not> ready s i)"
proof -
  have set: "i \<in> set [1..<PROCS_MAX] \<longleftrightarrow> 1 \<le> i \<and> i < PROCS_MAX" for i by auto
  show none: "yield_search (wake_down c s) = None \<longleftrightarrow> (\<forall>i. \<not> ready s i)"
    using candidate_demoted [OF assms] unfolding yield_search_def find_None_iff set
    by (meson ready_def)
  show "yield_search (wake_down c s) = Some n \<longleftrightarrow> ready s n \<and> (\<forall>i < n. \<not> ready s i)"
  proof
    assume "yield_search (wake_down c s) = Some n"
    then obtain k where k: "k < length [1..<PROCS_MAX]" "yield_candidate (wake_down c s) n"
      "n = [1..<PROCS_MAX] ! k" "\<forall>j < k. \<not> yield_candidate (wake_down c s) ([1..<PROCS_MAX] ! j)"
      unfolding yield_search_def find_Some_iff by auto
    have n: "n = k + 1" "n < PROCS_MAX" using k(1,3) by (simp_all add: PROCS_MAX_def)
    have "\<not> ready s i" if "i < n" for i
    proof
      assume r: "ready s i"
      then have "1 \<le> i" "i < PROCS_MAX" by (simp_all add: ready_def)
      then have "i = [1..<PROCS_MAX] ! (i - 1)" "i - 1 < k" using that n by (simp_all add: nth_upt)
      then have "\<not> yield_candidate (wake_down c s) i" using k(4) by metis
      with r show False using candidate_demoted [OF assms \<open>1 \<le> i\<close> \<open>i < PROCS_MAX\<close>] by simp
    qed
    then show "ready s n \<and> (\<forall>i < n. \<not> ready s i)"
      using k(2) n candidate_demoted [OF assms, of n] by simp
  next
    assume r: "ready s n \<and> (\<forall>i < n. \<not> ready s i)"
    then have n: "1 \<le> n" "n < PROCS_MAX" by (simp_all add: ready_def)
    have "\<not> yield_candidate (wake_down c s) ([1..<PROCS_MAX] ! j)" if "j < n - 1" for j
      using r that n candidate_demoted [OF assms, of "j + 1"] by simp
    then show "yield_search (wake_down c s) = Some n"
      using r n candidate_demoted [OF assms n]
      unfolding yield_search_def find_Some_iff by (intro exI [of _ "n - 1"]) simp
  qed
qed

text \<open>The successor \<^verbatim>\<open>yield\<close> goes for, and the state it leaves.\<close>

definition successor :: "kstate \<Rightarrow> nat option" where
  "successor s = (if \<exists>i. ready s i then Some (LEAST i. ready s i) else idle_proc s)"

lemma yield_search_successor:
  assumes "current_proc s = Some c" and "c < length (procs s)"
  shows "(case yield_search (wake_down c s) of None \<Rightarrow> idle_proc s | Some i \<Rightarrow> Some i) = successor s"
proof (cases "yield_search (wake_down c s)")
  case None
  then show ?thesis using yield_search_ready(2) [OF assms] by (auto simp: successor_def)
next
  case (Some n)
  then have "ready s n" "\<forall>i < n. \<not> ready s i" using yield_search_ready(1) [OF assms] by simp_all
  moreover have "(LEAST i. ready s i) = n"
    using calculation by (intro Least_equality) (auto simp: not_less [symmetric])
  ultimately show ?thesis using Some by (auto simp: successor_def)
qed

lemma yield_eq:
  assumes "current_proc s = Some c" and "c < length (procs s)" and "successor s = Some n"
  shows "yield L s =
    (if n = c then kret (Ret ()) (wake_down c s)
     else let t = switch_space L n (wake_up n (wake_down c s)) in
       if g_startup s then kret (To_context c n) (t\<lparr>g_startup := False\<rparr>) else kret To_user t)"
  using assms yield_search_successor [OF assms(1,2)]
  by (simp add: yield_def Let_def wake_down_idem cong: option.case_cong)

lemma demoted_not_current: "current_proc s \<noteq> Some i \<Longrightarrow> demoted s i = p_state (procs s ! i)"
  by (simp add: demoted_def)

text \<open>The slots after a call that goes for \<open>n\<close>.\<close>

lemma yield_result:
  assumes "current_proc s = Some c" and "c < length (procs s)" and "successor s = Some n"
    and "n < length (procs s)" and "\<not> g_startup s"
  shows "\<exists>s'. yield L s = kret (if n = c then Ret () else To_user) s' \<and> current_proc s' = Some n \<and>
    length (procs s') = length (procs s) \<and>
    (\<forall>i < length (procs s). procs s' ! i = (procs s ! i)\<lparr>p_state :=
       (if i = n \<and> n \<noteq> c \<and> demoted s n = PROC_RUNNABLE then PROC_RUNNING else demoted s i)\<rparr>) \<and>
    (n \<noteq> c \<longrightarrow> csr_satp s' = SATP_SV39 OR (p_page_table (procs s ! n) div 4096) \<and>
       csr_sscratch s' = tf_stack_top L n) \<and>
    mem s' = mem s \<and> process_count s' = process_count s \<and> idle_proc s' = idle_proc s \<and>
    \<not> g_startup s'"
proof (cases "n = c")
  case True
  then show ?thesis
    using assms yield_eq [OF assms(1-3), of L]
    by (intro exI [of _ "wake_down c s"]) (simp add: wake_down_at demoted_def)
next
  case False
  let ?t = "switch_space L n (wake_up n (wake_down c s))"
  have "yield L s = kret To_user ?t" using False assms yield_eq [OF assms(1-3), of L] by (simp add: Let_def)
  moreover have "p_page_table (procs (wake_up n (wake_down c s)) ! n) = p_page_table (procs s ! n)"
    using assms(2,4) by (simp add: wake_up_at wake_down_at)
  ultimately show ?thesis
    using False assms
    by (intro exI [of _ ?t]) (simp add: wake_up_at wake_down_at demoted_def switch_space_def)
qed

section \<open>Properties\<close>

text \<open>
  C16: \<open>yield\<close> goes for the lowest slot from 1 on that holds a runnable process other than
  the current one (with two processes in all, the current one counts too), and for the idle
  process when there is none. If that is the current process it returns, and leaves it
  runnable instead of running; otherwise it never returns: it makes the process current and
  running, installs its page table and its kernel stack, and goes to its user program.
  The process that was running is runnable again, and no other slot and no memory changes.
\<close>

theorem yield_schedules:
  assumes "current_proc s = Some c" and "c < PROCS_MAX" and "length (procs s) = PROCS_MAX"
    and "idle_proc s = Some 0" and "\<not> g_startup s"
    and "n = (if \<exists>i. ready s i then LEAST i. ready s i else 0)"
  shows "\<exists>s'. yield L s = kret (if n = c then Ret () else To_user) s' \<and> current_proc s' = Some n \<and>
    (\<forall>i < PROCS_MAX. procs s' ! i = (procs s ! i)\<lparr>p_state :=
       (if i = n \<and> n \<noteq> c \<and> demoted s n = PROC_RUNNABLE then PROC_RUNNING else demoted s i)\<rparr>) \<and>
    (n \<noteq> c \<longrightarrow> csr_satp s' = SATP_SV39 OR (p_page_table (procs s ! n) div 4096) \<and>
       csr_sscratch s' = tf_stack_top L n) \<and>
    mem s' = mem s"
proof -
  have "successor s = Some n" using assms(4,6) by (simp add: successor_def)
  moreover have "n < PROCS_MAX"
  proof (cases "\<exists>i. ready s i")
    case True
    then have "ready s n" using LeastI_ex [OF True] assms(6) by simp
    then show ?thesis by (simp add: ready_def)
  next
    case False
    then show ?thesis using assms(6) by (simp add: PROCS_MAX_def)
  qed
  ultimately show ?thesis
    using yield_result [OF assms(1), of n L] assms(2,3,5) by (auto simp: assms(3))
qed

text \<open>Four slots in use, the shell in slot 1 running, for the witnesses.\<close>

definition four_procs :: kstate where
  "four_procs = (boot_state kernel_map)\<lparr>g_startup := False, process_count := 4,
     current_proc := Some 1, idle_proc := Some 0,
     procs := [zero_proc\<lparr>p_state := PROC_RUNNABLE\<rparr>,
       zero_proc\<lparr>p_pid := 2, p_state := PROC_RUNNING\<rparr>,
       zero_proc\<lparr>p_pid := 3, p_state := PROC_RUNNABLE, p_page_table := 0x80500000\<rparr>,
       zero_proc\<lparr>p_pid := 4, p_state := PROC_RUNNABLE\<rparr>,
       zero_proc, zero_proc, zero_proc, zero_proc]\<rparr>"

lemma four_procs_ready:
  "length (procs four_procs) = PROCS_MAX" "ready four_procs 2" "\<not> ready four_procs 1" "\<not> ready four_procs 0"
  "demoted four_procs 1 = PROC_RUNNABLE" "demoted four_procs 2 = PROC_RUNNABLE"
  by (simp_all add: four_procs_def ready_def demoted_def PROCS_MAX_def)

lemma four_procs_least: "(LEAST i. ready four_procs i) = 2"
proof (rule Least_equality)
  show "ready four_procs 2" by (rule four_procs_ready)
  fix y assume "ready four_procs y"
  then show "2 \<le> y" using four_procs_ready(3,4) by (cases "y = 0"; cases "y = 1") auto
qed

theorem yield_schedules_witness:
  "\<exists>s'. yield kernel_map four_procs = kret To_user s' \<and> current_proc s' = Some 2 \<and>
     p_state (procs s' ! 1) = PROC_RUNNABLE \<and> p_state (procs s' ! 2) = PROC_RUNNING"
proof -
  note four_procs_least
  moreover have "\<exists>i. ready four_procs i" using four_procs_ready by blast
  ultimately have n: "2 = (if \<exists>i. ready four_procs i then LEAST i. ready four_procs i else 0)" by simp
  have "current_proc four_procs = Some 1" "1 < PROCS_MAX" "idle_proc four_procs = Some 0"
    "\<not> g_startup four_procs" by (simp_all add: four_procs_def PROCS_MAX_def)
  from yield_schedules [OF this(1,2) four_procs_ready(1) this(3,4) n, of kernel_map]
  show ?thesis using four_procs_ready by (auto simp: PROCS_MAX_def)
qed

inductive yields :: "linker_syms \<Rightarrow> kstate \<Rightarrow> kstate \<Rightarrow> bool" for L where
  yields_refl: "yields L s s"
| yields_step: "yields L s t \<Longrightarrow> yield L t = Inr (r, u) \<Longrightarrow> yields L s u"

definition two_ready :: "nat \<Rightarrow> nat \<Rightarrow> kstate \<Rightarrow> bool" where
  "two_ready i j s \<longleftrightarrow>
     length (procs s) = PROCS_MAX \<and> \<not> g_startup s \<and> process_count s \<noteq> 2 \<and>
     (\<exists>c. current_proc s = Some c \<and> c \<le> j) \<and>
     (\<forall>x \<in> {i, j}. p_pid (procs s ! x) \<noteq> 0 \<and> demoted s x = PROC_RUNNABLE)"

lemma two_ready_step:
  assumes "two_ready i j s" and "1 \<le> i" and "i < j" and "j < PROCS_MAX" and "yield L s = Inr (r, u)"
  shows "two_ready i j u"
proof -
  obtain c where c: "current_proc s = Some c" "c \<le> j" and len: "length (procs s) = PROCS_MAX"
    using assms(1) by (auto simp: two_ready_def)
  define x where "x = (if c = i then j else i)"
  have x: "ready s x" "x \<le> j" using assms(1-4) c by (auto simp: two_ready_def ready_def x_def)
  define n where "n = (LEAST i. ready s i)"
  have n: "ready s n" "n \<le> j" using x LeastI [of "ready s" x] Least_le [of "ready s" x] by (auto simp: n_def)
  have succ: "successor s = Some n" using x by (auto simp: successor_def n_def)
  have nc: "n \<noteq> c" using n(1) assms(1) c by (auto simp: ready_def two_ready_def)
  have b: "c < length (procs s)" "n < length (procs s)" using c n assms(4) len by simp_all
  from yield_result [OF c(1) b(1) succ b(2), of L] assms(1,5)
  have u: "current_proc u = Some n" "length (procs u) = PROCS_MAX"
    "process_count u = process_count s" "\<not> g_startup u"
    and st: "\<forall>k < PROCS_MAX. procs u ! k = (procs s ! k)\<lparr>p_state :=
       (if k = n \<and> n \<noteq> c \<and> demoted s n = PROC_RUNNABLE then PROC_RUNNING else demoted s k)\<rparr>"
    by (auto simp: two_ready_def len)
  have "p_pid (procs u ! y) \<noteq> 0 \<and> demoted u y = PROC_RUNNABLE" if "y \<in> {i, j}" for y
  proof -
    have "y < PROCS_MAX" using that assms(3,4) by auto
    moreover have "p_pid (procs s ! y) \<noteq> 0" "demoted s y = PROC_RUNNABLE"
      using that assms(1) by (auto simp: two_ready_def)
    ultimately show ?thesis using st u(1) nc by (simp add: demoted_def [of u])
  qed
  then show ?thesis using u n(2) assms(1) by (simp add: two_ready_def)
qed

text \<open>
  C37: there is no fairness: while two processes in slots \<open>i < j\<close> stay ready, no sequence of
  calls of \<open>yield\<close> ever makes a process in a slot above \<open>j\<close> current, however long it is.
\<close>

theorem yield_starves:
  assumes "1 \<le> i" and "i < j" and "j < k" and "k < PROCS_MAX" and "two_ready i j s"
    and "yields L s t"
  shows "current_proc t \<noteq> Some k"
proof -
  have "two_ready i j t"
    using assms(6,5)
  proof (induction rule: yields.induct)
    case (yields_step s t r u)
    then show ?case using two_ready_step assms(1-4) by (meson order.strict_trans)
  qed
  then show ?thesis using assms(3) by (auto simp: two_ready_def)
qed

theorem yield_starves_witness:
  "\<exists>t. yield kernel_map four_procs = kret To_user t \<and> yields kernel_map four_procs t \<and>
     current_proc t \<noteq> Some 3"
proof -
  have two: "two_ready 1 2 four_procs"
    using four_procs_ready by (simp add: two_ready_def) (simp add: four_procs_def)
  have pre: "current_proc four_procs = Some 1" "1 < length (procs four_procs)"
    "2 < length (procs four_procs)" "\<not> g_startup four_procs"
    by (simp_all add: four_procs_def)
  have succ: "successor four_procs = Some 2"
    using four_procs_ready(2) four_procs_least by (auto simp: successor_def)
  obtain t where t: "yield kernel_map four_procs = kret To_user t"
    using yield_result [OF pre(1,2) succ pre(3,4), of kernel_map] by auto
  then have y: "yields kernel_map four_procs t" by (auto intro: yields.intros)
  have "current_proc t \<noteq> Some 3"
    by (rule yield_starves [OF _ _ _ _ two y]) (simp_all add: PROCS_MAX_def)
  with t y show ?thesis by blast
qed

end
