(* ===== verification/Cpu.thy ===== *)
theory Cpu
  imports Scheduler
begin

text \<open>
  The assembly of the kernel: the entry and exit of a trap (\<^verbatim>\<open>trap_vector\<close> of
  \<^verbatim>\<open>kernel/trap.c\<close>), the two ways into user mode (\<^verbatim>\<open>user_entry\<close>, \<^verbatim>\<open>user_return\<close> of
  \<^verbatim>\<open>kernel/user.c\<close>) and the context switch of \<^verbatim>\<open>kernel/context.c\<close>, over the general
  registers (\<open>regs\<close>; \<^verbatim>\<open>x0\<close> apart), the CSRs and memory. The program counter after
  \<^verbatim>\<open>sret\<close> is \<open>csr_sepc\<close>.

  In \<^verbatim>\<open>sstatus\<close>, bit 1 is SIE, bit 5 SPIE, bit 8 SPP. \<open>take_trap\<close> and \<open>sret\<close> are what the
  hardware does with them.
\<close>

section \<open>Registers\<close>

datatype reg =
    Ra | Gp | Tp
  | T0 | T1 | T2 | T3 | T4 | T5 | T6
  | A0 | A1 | A2 | A3 | A4 | A5 | A6 | A7
  | S0 | S1 | S2 | S3 | S4 | S5 | S6 | S7 | S8 | S9 | S10 | S11
  | Sp

type_synonym regs = "reg \<Rightarrow> u64"

text \<open>The order of \<^verbatim>\<open>regs_t\<close>, and the slot of a register in a trap frame.\<close>

definition frame_regs :: "reg list" where
  "frame_regs =
     [Ra, Gp, Tp, T0, T1, T2, T3, T4, T5, T6, A0, A1, A2, A3, A4, A5, A6, A7,
      S0, S1, S2, S3, S4, S5, S6, S7, S8, S9, S10, S11]"

fun reg_slot :: "reg \<Rightarrow> nat" where
  "reg_slot Ra = 0" | "reg_slot Gp = 1" | "reg_slot Tp = 2"
| "reg_slot T0 = 3" | "reg_slot T1 = 4" | "reg_slot T2 = 5" | "reg_slot T3 = 6"
| "reg_slot T4 = 7" | "reg_slot T5 = 8" | "reg_slot T6 = 9"
| "reg_slot A0 = 10" | "reg_slot A1 = 11" | "reg_slot A2 = 12" | "reg_slot A3 = 13"
| "reg_slot A4 = 14" | "reg_slot A5 = 15" | "reg_slot A6 = 16" | "reg_slot A7 = 17"
| "reg_slot S0 = 18" | "reg_slot S1 = 19" | "reg_slot S2 = 20" | "reg_slot S3 = 21"
| "reg_slot S4 = 22" | "reg_slot S5 = 23" | "reg_slot S6 = 24" | "reg_slot S7 = 25"
| "reg_slot S8 = 26" | "reg_slot S9 = 27" | "reg_slot S10 = 28" | "reg_slot S11 = 29"
| "reg_slot Sp = 30"

definition slot_addr :: "u64 \<Rightarrow> nat \<Rightarrow> u64" where
  "slot_addr f i = f + 8 * of_nat i"

section \<open>Trap entry and exit\<close>

definition take_trap :: "u64 \<Rightarrow> kstate \<Rightarrow> kstate" where
  "take_trap pc s =
     s\<lparr>csr_sepc := pc,
       csr_sstatus := (csr_sstatus s AND NOT 0x122) OR
         (if bit (csr_sstatus s) 1 then 0x20 else 0)\<rparr>"

definition sret :: "kstate \<Rightarrow> kstate" where
  "sret s =
     s\<lparr>csr_sstatus := (csr_sstatus s AND NOT 0x102) OR
         (if bit (csr_sstatus s) 5 then 0x2 else 0) OR 0x20\<rparr>"

text \<open>
  The first half of \<^verbatim>\<open>trap_vector\<close>, up to the call of the handler: the stack pointer is
  swapped with \<^verbatim>\<open>sscratch\<close>, a frame is pushed and filled, and \<^verbatim>\<open>sscratch\<close> gets the top of
  the stack back. The result is the frame and the new state.
\<close>

definition trap_save :: "regs \<Rightarrow> kstate \<Rightarrow> u64 \<times> kstate" where
  "trap_save r s =
     (let sp = csr_sscratch s - 8 * 32;
          m = fold (\<lambda>i m. store64 m (slot_addr sp i) (r (frame_regs ! i))) [0..<30] (mem s);
          m = store64 m (slot_addr sp 30) (r Sp);
          m = store64 m (slot_addr sp 31) (csr_sepc s)
      in (sp, s\<lparr>mem := m, csr_sscratch := sp + 8 * 32\<rparr>))"

text \<open>The second half: every register is loaded from the frame, the stack pointer last.\<close>

definition trap_restore :: "u64 \<Rightarrow> kstate \<Rightarrow> regs" where
  "trap_restore sp s = (\<lambda>r. load64 (mem s) (slot_addr sp (reg_slot r)))"

section \<open>Into user mode\<close>

definition SSTATUS_SPIE :: u64 where
  "SSTATUS_SPIE = push_bit 5 1"

definition user_entry :: "kstate \<Rightarrow> kstate" where
  "user_entry s = s\<lparr>csr_sepc := USER_BASE, csr_sstatus := SSTATUS_SPIE\<rparr>"

definition pcb_addr :: "linker_syms \<Rightarrow> nat \<Rightarrow> u64" where
  "pcb_addr L i = procs_base L + of_nat i * 8640"

definition OFFSET_TF :: u64 where "OFFSET_TF = 72"
definition OFFSET_ARGC :: u64 where "OFFSET_ARGC = 8624"
definition OFFSET_ARGV_PTR :: u64 where "OFFSET_ARGV_PTR = 8632"

text \<open>
  \<^verbatim>\<open>user_return\<close>, instruction by instruction. The load of \<^verbatim>\<open>argc\<close> reads eight bytes: the C
  \<^verbatim>\<open>int\<close> and four bytes of padding, which every initialisation of a PCB leaves zero.
\<close>

definition user_return :: "linker_syms \<Rightarrow> regs \<Rightarrow> kstate \<Rightarrow> (regs, kstate) kres" where
  "user_return L r s =
     (case current_proc s of
        None \<Rightarrow> kpanic (Page_fault OFFSET_TF)
      | Some c \<Rightarrow>
          (let p = procs s ! c;
               a0 = p_tf p;
               r = fold (\<lambda>i r. r(frame_regs ! i := load64 (mem s) (slot_addr a0 i)))
                     ([0..<10] @ [11..<30]) r;
               r = r(Sp := load64 (mem s) (slot_addr a0 30));
               r = r(T0 := load64 (mem s) (slot_addr a0 31));
               s = s\<lparr>csr_sepc := r T0\<rparr>;
               r = r(T1 := csr_sstatus s);
               r = r(T1 := r T1 OR 0x20);
               r = r(T1 := r T1 AND NOT 0x100);
               s = s\<lparr>csr_sstatus := r T1\<rparr>;
               r = r(T2 := pcb_addr L c);
               r = r(T3 := r T2 + OFFSET_ARGC);
               r = r(A0 := ucast (word_of_int (p_argc p) :: u32));
               r = r(T3 := r T2 + OFFSET_ARGV_PTR);
               r = r(A1 := p_argv_ptr p)
           in kret r s))"

text \<open>
  \<^verbatim>\<open>switch_context_sp(&procs[i].sp, &procs[j].sp)\<close>: the callee-saved registers go to the
  current stack, those of the other come from its stack; \<^verbatim>\<open>ret\<close> jumps to the new \<open>Ra\<close>.
\<close>

definition callee_regs :: "reg list" where
  "callee_regs = [Ra, S0, S1, S2, S3, S4, S5, S6, S7, S8, S9, S10, S11]"

definition switch_context_sp :: "nat \<Rightarrow> nat \<Rightarrow> regs \<Rightarrow> kstate \<Rightarrow> regs \<times> kstate" where
  "switch_context_sp i j r s =
     (let sp = r Sp - 13 * 8;
          s = s\<lparr>mem := fold (\<lambda>k m. store64 m (slot_addr sp k) (r (callee_regs ! k))) [0..<13] (mem s)\<rparr>;
          s = upd_proc i (\<lambda>p. p\<lparr>p_sp := sp\<rparr>) s;
          sp = p_sp (procs s ! j);
          r = fold (\<lambda>k r. r(callee_regs ! k := load64 (mem s) (slot_addr sp k))) [0..<13] r
      in (r(Sp := sp + 13 * 8), s))"

section \<open>Frames\<close>

text \<open>\<open>frame_holds f r pc s\<close>: the trap frame at \<open>f\<close> holds the registers \<open>r\<close> and the \<^verbatim>\<open>epc\<close> \<open>pc\<close>.\<close>

definition frame_holds :: "u64 \<Rightarrow> regs \<Rightarrow> u64 \<Rightarrow> mem \<Rightarrow> bool" where
  "frame_holds f r pc m \<longleftrightarrow>
     (\<forall>x. load64 m (slot_addr f (reg_slot x)) = r x) \<and> load64 m (slot_addr f 31) = pc"

lemma reg_slot_less [simp]: "reg_slot r \<le> 30" "reg_slot r < 31" "reg_slot r < 32" "reg_slot r \<noteq> 31"
  by (cases r; simp)+

lemma frame_regs_slot: "r \<noteq> Sp \<Longrightarrow> reg_slot r < 30 \<and> frame_regs ! reg_slot r = r"
  by (cases r) (simp_all add: frame_regs_def)

lemma slot_frame_regs: "i < 30 \<Longrightarrow> reg_slot (frame_regs ! i) = i"
proof -
  assume "i < 30"
  moreover have "list_all (\<lambda>i. reg_slot (frame_regs ! i) = i) [0..<30]"
    by (simp add: frame_regs_def upt_rec)
  ultimately show ?thesis by (simp add: list_all_iff)
qed

lemma length_frame_regs [simp]: "length frame_regs = 30"
  by (simp add: frame_regs_def)

lemma slot_addr_aligned: "aligned8 f \<Longrightarrow> aligned8 (slot_addr f i)"
proof -
  assume "aligned8 f"
  moreover have "aligned8 (8 * of_nat i :: u64)"
  proof -
    have "unat (8 * of_nat i :: u64) mod 8 = (8 * unat (of_nat i :: u64)) mod 2 ^ 64 mod 8"
      by (simp add: unat_word_ariths)
    also have "\<dots> = 0" by (simp add: mod_mod_cancel)
    finally show ?thesis by (simp add: aligned8_unat)
  qed
  ultimately show ?thesis by (simp add: slot_addr_def aligned8_add)
qed

lemma slot_addr_eq: "i < 2 ^ 61 \<Longrightarrow> j < 2 ^ 61 \<Longrightarrow> slot_addr f i = slot_addr f j \<longleftrightarrow> i = j"
proof -
  assume b: "i < 2 ^ 61" "j < 2 ^ 61"
  have "slot_addr f i = slot_addr f j \<longleftrightarrow> (of_nat (8 * i) :: u64) = of_nat (8 * j)"
    by (simp add: slot_addr_def)
  also have "\<dots> \<longleftrightarrow> i = j" using b by (subst of_nat_inj_u64) simp_all
  finally show ?thesis .
qed

lemma slot_load_store:
  assumes "aligned8 f" and "i < 2 ^ 61" and "j < 2 ^ 61"
  shows "load64 (store64 m (slot_addr f i) v) (slot_addr f j) =
    (if i = j then v else load64 m (slot_addr f j))"
  using assms by (simp add: load64_store64_aligned slot_addr_aligned slot_addr_eq)

lemma slot_load_stores:
  assumes "aligned8 f" and "n \<le> 2 ^ 61" and "j < 2 ^ 61"
  shows "load64 (fold (\<lambda>i m. store64 m (slot_addr f i) (v i)) [0..<n] m) (slot_addr f j) =
    (if j < n then v j else load64 m (slot_addr f j))"
  using assms(2,3) by (induction n) (auto simp: slot_load_store [OF assms(1)])

lemma trap_save_frame:
  assumes "aligned8 (csr_sscratch s)" and "trap_save r s = (f, t)"
  shows "frame_holds f r (csr_sepc s) (mem t)" and "f = csr_sscratch s - 256"
    and "t = s\<lparr>mem := mem t\<rparr>" and "aligned8 f"
proof -
  show f: "f = csr_sscratch s - 256" and t: "t = s\<lparr>mem := mem t\<rparr>"
    using assms(2) by (auto simp: trap_save_def Let_def)
  show al: "aligned8 f" unfolding f by (rule aligned8_diff [OF assms(1)]) (simp add: aligned8_def)
  have m: "mem t = store64 (store64 (fold (\<lambda>i m. store64 m (slot_addr f i) (r (frame_regs ! i))) [0..<30] (mem s))
      (slot_addr f 30) (r Sp)) (slot_addr f 31) (csr_sepc s)"
    using assms(2) by (auto simp: trap_save_def Let_def)
  have "load64 (mem t) (slot_addr f (reg_slot x)) = r x" for x
  proof (cases "x = Sp")
    case True
    then show ?thesis by (simp add: m slot_load_store [OF al])
  next
    case False
    then have "reg_slot x < 30" "frame_regs ! reg_slot x = x" using frame_regs_slot by simp_all
    then show ?thesis by (simp add: m slot_load_store [OF al] slot_load_stores [OF al])
  qed
  then show "frame_holds f r (csr_sepc s) (mem t)"
    by (simp add: frame_holds_def m slot_load_store [OF al])
qed

lemma trap_restore_frame: "frame_holds f r pc (mem s) \<Longrightarrow> trap_restore f s = r"
  by (auto simp: trap_restore_def frame_holds_def)

lemma frame_holds_cong:
  assumes "frame_holds f r pc m" and "\<And>a. a - f < 256 \<Longrightarrow> m' (g + (a - f)) = m a"
  shows "frame_holds g r pc m'"
proof -
  have "load64 m' (slot_addr g i) = load64 m (slot_addr f i)" if i: "i < 32" for i
  proof -
    have in_f: "slot_addr f i + k - f < 256" if "k < 8" for k
    proof -
      have k: "unat k < 8" using that by (simp add: word_less_nat_alt)
      have i8: "unat (8 * of_nat i :: u64) = 8 * i"
        using i by (simp add: unat_word_ariths unat_of_nat_u64)
      have e: "slot_addr f i + k - f = 8 * of_nat i + k" by (simp add: slot_addr_def)
      have "unat (8 * of_nat i + k) = 8 * i + unat k"
        using i k i8 by (subst unat_add_u64) simp_all
      then have "unat (slot_addr f i + k - f) < 256" unfolding e using i k by simp
      then show ?thesis by (simp only: word_less_nat_alt) simp
    qed
    have "load64 m' (slot_addr g i) = load64 (\<lambda>a. m' (a - slot_addr f i + slot_addr g i)) (slot_addr f i)"
      by (simp add: load64_def load32_def load16_def algebra_simps)
    also have "\<dots> = load64 m (slot_addr f i)"
    proof (rule load64_cong)
      fix a assume "a - slot_addr f i < 8"
      then have "slot_addr f i + (a - slot_addr f i) - f < 256" by (rule in_f)
      then have "a - f < 256" by simp
      then have "m' (g + (a - f)) = m a" by (rule assms(2))
      moreover have "g + (a - f) = a - slot_addr f i + slot_addr g i" by (simp add: slot_addr_def)
      ultimately show "m' (a - slot_addr f i + slot_addr g i) = m a" by simp
    qed
    finally show ?thesis .
  qed
  then show ?thesis using assms(1) by (simp add: frame_holds_def)
qed

section \<open>What \<^verbatim>\<open>user_return\<close> gives the program\<close>

lemma load_frame_regs:
  assumes "\<forall>i \<in> set is. i < 30"
  shows "fold (\<lambda>i r. r(frame_regs ! i := g i)) is r x =
    (if x \<noteq> Sp \<and> reg_slot x \<in> set is then g (reg_slot x) else r x)"
  using assms
proof (induction "is" arbitrary: r)
  case Nil
  then show ?case by simp
next
  case (Cons i "is")
  have "x = frame_regs ! i \<longleftrightarrow> x \<noteq> Sp \<and> reg_slot x = i"
    using Cons.prems slot_frame_regs [of i] frame_regs_slot [of x] by (cases "x = Sp") auto
  then show ?case using Cons by auto
qed

lemma user_return_spec:
  assumes "current_proc s = Some c" and "frame_holds (p_tf (procs s ! c)) q pc (mem s)"
  defines "sst \<equiv> (csr_sstatus s OR 0x20) AND NOT 0x100"
  shows "\<exists>r'. user_return L r s = kret r' (s\<lparr>csr_sepc := pc, csr_sstatus := sst\<rparr>) \<and>
    (\<forall>x. x \<notin> {T0, T1, T2, T3, A0, A1} \<longrightarrow> r' x = q x) \<and>
    r' T0 = pc \<and> r' T1 = sst \<and> r' T2 = pcb_addr L c \<and> r' T3 = pcb_addr L c + OFFSET_ARGV_PTR \<and>
    r' A0 = ucast (word_of_int (p_argc (procs s ! c)) :: u32) \<and> r' A1 = p_argv_ptr (procs s ! c)"
proof -
  let ?a = "p_tf (procs s ! c)"
  have q: "load64 (mem s) (slot_addr ?a (reg_slot x)) = q x" for x
    using assms(2) by (simp add: frame_holds_def)
  have q30: "load64 (mem s) (slot_addr ?a 30) = q Sp" using q [of Sp] by simp
  have pc: "load64 (mem s) (slot_addr ?a 31) = pc" using assms(2) by (simp add: frame_holds_def)
  define r1 where "r1 = fold (\<lambda>i r. r(frame_regs ! i := load64 (mem s) (slot_addr ?a i)))
    ([0..<10] @ [11..<30]) r"
  have r1: "r1 x = q x" if "x \<noteq> Sp" "x \<noteq> A0" for x
  proof -
    have "reg_slot x \<in> set ([0..<10] @ [11..<30])"
      using that frame_regs_slot [of x] by (cases x) simp_all
    then show ?thesis using that by (subst r1_def, subst load_frame_regs) (auto simp: q)
  qed
  have "user_return L r s = kret (r1(Sp := q Sp, T0 := pc, T1 := sst, T2 := pcb_addr L c,
      T3 := pcb_addr L c + OFFSET_ARGV_PTR, A0 := ucast (word_of_int (p_argc (procs s ! c)) :: u32),
      A1 := p_argv_ptr (procs s ! c))) (s\<lparr>csr_sepc := pc, csr_sstatus := sst\<rparr>)"
    by (simp add: user_return_def assms(1) Let_def r1_def q30 pc sst_def fun_upd_twist)
  then show ?thesis using r1 by auto
qed

end
