(* ===== verification/User_Mem.thy ===== *)
theory User_Mem
  imports Vm_Ops Csr
begin

text \<open>
  How the kernel reaches user memory. With \<^verbatim>\<open>SUM\<close> set, the system calls dereference user
  pointers directly: the access goes through the page table \<^verbatim>\<open>satp\<close> selects, so
  \<open>translate\<close> is the address translation of the RISC-V privileged architecture for a load
  or store of S-mode (Sv39, or none when \<^verbatim>\<open>satp\<close> is clear). An access without translation
  traps in S-mode, where \<^verbatim>\<open>trap_handler\<close> panics: \<open>Page_fault\<close>. The accessed and dirty bits
  are left to the hardware, and \<^verbatim>\<open>MXR\<close> is never set by the kernel.

  The kernel's own data is mapped to itself in every page table, so the model accesses it
  in \<open>mem\<close> without a translation. Then \<^verbatim>\<open>copy_to_user\<close> of \<^verbatim>\<open>kernel/user.c\<close>, which
  translates in software.
\<close>

section \<open>Translation\<close>

datatype access = Load | Store

definition pte_allows :: "access \<Rightarrow> bool \<Rightarrow> u64 \<Rightarrow> bool" where
  "pte_allows acc um e \<longleftrightarrow>
     (e AND PTE_U = 0 \<or> um) \<and>
     (case acc of Load \<Rightarrow> e AND PTE_R \<noteq> 0 | Store \<Rightarrow> e AND PTE_W \<noteq> 0)"

definition pte_invalid :: "u64 \<Rightarrow> bool" where
  "pte_invalid e \<longleftrightarrow>
     e AND PTE_V = 0 \<or> (e AND PTE_R = 0 \<and> e AND PTE_W \<noteq> 0) \<or> drop_bit 54 e \<noteq> 0"

text \<open>The walk from the table \<open>t\<close> of level \<open>l\<close>: the leaf entry and its level.\<close>

primrec sv39_walk :: "mem \<Rightarrow> u64 \<Rightarrow> u64 \<Rightarrow> nat \<Rightarrow> (u64 \<times> nat) option" where
  "sv39_walk m t va 0 =
     (let e = pte_read m t (PX 0 va) in
      if pte_invalid e \<or> e AND (PTE_R OR PTE_X) = 0 then None else Some (e, 0))"
| "sv39_walk m t va (Suc l) =
     (let e = pte_read m t (PX (Suc l) va) in
      if pte_invalid e then None
      else if e AND (PTE_R OR PTE_X) \<noteq> 0 then Some (e, Suc l)
      else sv39_walk m (PTE2PA e) va l)"

definition sv39_canonical :: "u64 \<Rightarrow> bool" where
  "sv39_canonical va \<longleftrightarrow> va < push_bit 38 1 \<or> - push_bit 38 1 \<le> va"

definition translate :: "access \<Rightarrow> kstate \<Rightarrow> u64 \<Rightarrow> u64 option" where
  "translate acc s va =
     (if drop_bit 60 (csr_satp s) \<noteq> 8 then Some va
      else if \<not> sv39_canonical va then None
      else
        (case sv39_walk (mem s) (satp_root (csr_satp s)) va 2 of
           None \<Rightarrow> None
         | Some (e, l) \<Rightarrow>
             if pte_allows acc (sum_bit s) e \<and> PTE2PA e AND mask (12 + 9 * l) = 0
             then Some (PTE2PA e + (va AND mask (12 + 9 * l))) else None))"

section \<open>Accesses\<close>

definition user_load :: "u64 \<Rightarrow> kstate \<Rightarrow> (u8, kstate) kres" where
  "user_load va s =
     (case translate Load s va of
        None \<Rightarrow> kpanic (Page_fault va)
      | Some pa \<Rightarrow> kret (mem s pa) s)"

definition user_store :: "u64 \<Rightarrow> u8 \<Rightarrow> kstate \<Rightarrow> (unit, kstate) kres" where
  "user_store va b s =
     (case translate Store s va of
        None \<Rightarrow> kpanic (Page_fault va)
      | Some pa \<Rightarrow> kret () (s\<lparr>mem := (mem s)(pa := b)\<rparr>))"

text \<open>\<^verbatim>\<open>memcpy\<close> between a kernel buffer and user memory: one byte at a time, ascending.\<close>

primrec user_read :: "u64 \<Rightarrow> nat \<Rightarrow> kstate \<Rightarrow> (u8 list, kstate) kres" where
  "user_read va 0 s = kret [] s"
| "user_read va (Suc n) s =
     kbind (user_load va s) (\<lambda>b s.
     kbind (user_read (va + 1) n s) (\<lambda>bs s. kret (b # bs) s))"

primrec user_write :: "u64 \<Rightarrow> u8 list \<Rightarrow> kstate \<Rightarrow> (unit, kstate) kres" where
  "user_write va [] s = kret () s"
| "user_write va (b # bs) s =
     kbind (user_store va b s) (\<lambda>_ s. user_write (va + 1) bs s)"

text \<open>The little-endian bytes of a word, and an eight-byte load.\<close>

definition word_bytes :: "nat \<Rightarrow> u64 \<Rightarrow> u8 list" where
  "word_bytes n w = map (\<lambda>i. ucast (drop_bit (8 * i) w)) [0..<n]"

definition bytes_word :: "u8 list \<Rightarrow> u64" where
  "bytes_word bs = foldr (\<lambda>b w. ucast b OR push_bit 8 w) bs 0"

definition user_load64 :: "u64 \<Rightarrow> kstate \<Rightarrow> (u64, kstate) kres" where
  "user_load64 va s = kbind (user_read va 8 s) (\<lambda>bs s. kret (bytes_word bs) s)"

text \<open>\<^verbatim>\<open>strncpy\<close> from user memory into a buffer of the kernel: the \<open>n\<close> bytes it writes.\<close>

primrec user_strncpy :: "u64 \<Rightarrow> nat \<Rightarrow> kstate \<Rightarrow> (u8 list, kstate) kres" where
  "user_strncpy src 0 s = kret [] s"
| "user_strncpy src (Suc k) s =
     kbind (user_load src s) (\<lambda>c s.
       if c = 0 then kret (replicate (Suc k) 0) s
       else kbind (user_strncpy (src + 1) k s) (\<lambda>cs s. kret (c # cs) s))"

section \<open>\<^verbatim>\<open>copy_to_user\<close>\<close>

text \<open>The loop over the bytes still to copy; its message on failure is not modelled.\<close>

primrec copy_to_user :: "linker_syms \<Rightarrow> u64 \<Rightarrow> u64 \<Rightarrow> u8 list \<Rightarrow> kstate \<Rightarrow> (int, kstate) kres" where
  "copy_to_user L pt va [] s = kret 0 s"
| "copy_to_user L pt va (b # bs) s =
     kbind (walkaddr L pt va s) (\<lambda>pa s.
       if pa = 0 then kret (- 1) s
       else copy_to_user L pt (va + 1) bs (s\<lparr>mem := (mem s)(pa := b)\<rparr>))"

section \<open>Buffers\<close>

text \<open>The table pages a translation reads, and that stores elsewhere do not change it.\<close>

primrec walk_tables :: "mem \<Rightarrow> u64 \<Rightarrow> u64 \<Rightarrow> nat \<Rightarrow> u64 set" where
  "walk_tables m t va 0 = {t}"
| "walk_tables m t va (Suc l) =
     insert t (let e = pte_read m t (PX (Suc l) va) in
       if pte_invalid e \<or> e AND (PTE_R OR PTE_X) \<noteq> 0 then {} else walk_tables m (PTE2PA e) va l)"

definition va_tables :: "kstate \<Rightarrow> u64 \<Rightarrow> u64 set" where
  "va_tables s va =
     (if drop_bit 60 (csr_satp s) \<noteq> 8 then {} else walk_tables (mem s) (satp_root (csr_satp s)) va 2)"

lemma sv39_walk_outside:
  assumes "same_outside P m m'" and "walk_tables m t va l \<inter> P = {}" and "page_aligned t"
  shows "sv39_walk m' t va l = sv39_walk m t va l" and "walk_tables m' t va l = walk_tables m t va l"
proof -
  have "sv39_walk m' t va l = sv39_walk m t va l \<and> walk_tables m' t va l = walk_tables m t va l"
    using assms(2,3)
  proof (induction l arbitrary: t)
    case 0
    then have "pte_read m' t (PX 0 va) = pte_read m t (PX 0 va)"
      using assms(1) by (intro pte_read_outside [of P]) auto
    then show ?case by simp
  next
    case (Suc l)
    then have "pte_read m' t (PX (Suc l) va) = pte_read m t (PX (Suc l) va)"
      using assms(1) by (intro pte_read_outside [of P]) auto
    then show ?case using Suc.IH [of "PTE2PA (pte_read m t (PX (Suc l) va))"] Suc.prems(1)
      by (auto simp: Let_def split: if_splits)
  qed
  then show "sv39_walk m' t va l = sv39_walk m t va l"
    and "walk_tables m' t va l = walk_tables m t va l" by simp_all
qed

lemma page_aligned_satp_root [simp]: "page_aligned (satp_root satp)"
proof -
  have "take_bit 12 (satp_root satp) = 0"
    by (rule bit_word_eqI) (auto simp: satp_root_def bit_simps)
  then show ?thesis by (simp add: page_aligned_def take_bit_eq_mod)
qed

lemma translate_outside:
  assumes "same_outside P (mem s) (mem s')" and "va_tables s va \<inter> P = {}"
    and "csr_satp s' = csr_satp s" and "sum_bit s' = sum_bit s"
  shows "translate acc s' va = translate acc s va" and "va_tables s' va = va_tables s va"
proof -
  have "translate acc s' va = translate acc s va \<and> va_tables s' va = va_tables s va"
  proof (cases "drop_bit 60 (csr_satp s) = 8")
    case False
    then show ?thesis using assms(3) by (simp add: translate_def va_tables_def)
  next
    case True
    then have "walk_tables (mem s) (satp_root (csr_satp s)) va 2 \<inter> P = {}"
      using assms(2) by (simp only: va_tables_def) simp
    note w = sv39_walk_outside [OF assms(1) this page_aligned_satp_root]
    show ?thesis using w assms(3,4) by (simp only: translate_def va_tables_def)
  qed
  then show "translate acc s' va = translate acc s va" and "va_tables s' va = va_tables s va"
    by simp_all
qed

lemma same_outside_byte_write: "same_outside {page_base pa} m (m(pa := b))"
  by (simp add: same_outside_def)

text \<open>
  \<open>user_buffer acc s va n f\<close>: the \<open>n\<close> bytes at \<open>va\<close> can be accessed, byte \<open>i\<close> lies at \<open>f i\<close>,
  and none lies in a table that translates them.
\<close>

definition user_buffer :: "access \<Rightarrow> kstate \<Rightarrow> u64 \<Rightarrow> nat \<Rightarrow> (nat \<Rightarrow> u64) \<Rightarrow> bool" where
  "user_buffer acc s va n f \<longleftrightarrow>
     (\<forall>i < n. translate acc s (va + of_nat i) = Some (f i)) \<and>
     (\<forall>i < n. \<forall>j < n. page_base (f i) \<notin> va_tables s (va + of_nat j)) \<and> inj_on f {..<n}"

definition put_bytes :: "(nat \<Rightarrow> u64) \<Rightarrow> u8 list \<Rightarrow> mem \<Rightarrow> mem" where
  "put_bytes f bs m = fold (\<lambda>i m. m(f i := bs ! i)) [0..<length bs] m"

lemma put_bytes_apply:
  assumes "inj_on f {..<length bs}"
  shows "i < length bs \<Longrightarrow> put_bytes f bs m (f i) = bs ! i"
    and "x \<notin> f ` {..<length bs} \<Longrightarrow> put_bytes f bs m x = m x"
proof -
  have inner: "fold (\<lambda>i m. m(f i := bs ! i)) [0..<k] m x =
      (if x \<in> f ` {..<k} then bs ! (THE i. i < k \<and> f i = x) else m x)"
    if "k \<le> length bs" for k x
    using that
  proof (induction k)
    case 0
    then show ?case by simp
  next
    case (Suc k)
    have inj: "i < Suc k \<Longrightarrow> j < Suc k \<Longrightarrow> f i = f j \<longleftrightarrow> i = j" for i j
      using assms Suc.prems by (auto simp: inj_on_def)
    have the: "(THE i. i < Suc k \<and> f i = f j) = j" if "j < Suc k" for j
      using that inj by (intro the_equality) auto
    have the': "(THE i. i < k \<and> f i = f j) = j" if "j < k" for j
      using that inj by (intro the_equality) auto
    show ?case using Suc inj the the' by (auto simp: less_Suc_eq)
  qed
  show "put_bytes f bs m x = m x" if "x \<notin> f ` {..<length bs}"
    using inner [of "length bs" x] that by (simp add: put_bytes_def)
  assume i: "i < length bs"
  have "(THE j. j < length bs \<and> f j = f i) = i"
    using i assms by (intro the_equality) (auto simp: inj_on_def)
  then show "put_bytes f bs m (f i) = bs ! i"
    using inner [of "length bs" "f i"] i by (auto simp: put_bytes_def)
qed

lemma put_bytes_Cons: "put_bytes f (b # bs) m = put_bytes (\<lambda>i. f (Suc i)) bs (m(f 0 := b))"
proof -
  have "[0..<Suc (length bs)] = 0 # map Suc [0..<length bs]"
    by (simp add: upt_conv_Cons map_Suc_upt del: upt_Suc)
  then show ?thesis by (simp add: put_bytes_def fold_map comp_def del: upt_Suc)
qed

lemma user_buffer_Suc:
  assumes "user_buffer acc s va (Suc n) f"
  shows "translate acc s va = Some (f 0)" and "user_buffer acc s (va + 1) n (\<lambda>i. f (Suc i))"
proof -
  show "translate acc s va = Some (f 0)" using assms by (auto simp: user_buffer_def)
  have "va + 1 + of_nat i = va + of_nat (Suc i)" for i by simp
  moreover have "inj_on (\<lambda>i. f (Suc i)) {..<n}"
    using assms by (auto simp: user_buffer_def inj_on_def)
  ultimately show "user_buffer acc s (va + 1) n (\<lambda>i. f (Suc i))"
    using assms unfolding user_buffer_def by (metis Suc_less_eq)
qed

lemma user_buffer_outside:
  assumes "user_buffer acc s va n f" and "same_outside P (mem s) (mem s')"
    and "\<And>i. i < n \<Longrightarrow> va_tables s (va + of_nat i) \<inter> P = {}"
    and "csr_satp s' = csr_satp s" and "sum_bit s' = sum_bit s"
  shows "user_buffer acc s' va n f"
  using assms(1,3) translate_outside [OF assms(2) _ assms(4,5)] by (simp add: user_buffer_def)

lemma user_read_buffer:
  "user_buffer Load s va n f \<Longrightarrow> user_read va n s = kret (map (\<lambda>i. mem s (f i)) [0..<n]) s"
proof (induction n arbitrary: va f)
  case 0
  then show ?case by simp
next
  case (Suc n)
  note b = user_buffer_Suc [OF Suc.prems]
  have "[0..<Suc n] = 0 # map Suc [0..<n]" by (simp add: upt_conv_Cons map_Suc_upt del: upt_Suc)
  then show ?case using Suc.IH [OF b(2)] b(1) by (simp add: user_load_def comp_def del: upt_Suc)
qed

lemma user_write_buffer:
  "user_buffer Store s va (length bs) f \<Longrightarrow>
    user_write va bs s = kret () (s\<lparr>mem := put_bytes f bs (mem s)\<rparr>)"
proof (induction bs arbitrary: s va f)
  case Nil
  then show ?case by (simp add: put_bytes_def)
next
  case (Cons b bs)
  let ?s = "s\<lparr>mem := (mem s)(f 0 := b)\<rparr>"
  have u: "user_buffer Store s va (Suc (length bs)) f" using Cons.prems by simp
  note b = user_buffer_Suc [OF u]
  have "user_buffer Store ?s (va + 1) (length bs) (\<lambda>i. f (Suc i))"
  proof (rule user_buffer_outside [OF b(2)])
    show "same_outside {page_base (f 0)} (mem s) (mem ?s)" by (simp add: same_outside_byte_write)
    fix i assume "i < length bs"
    then have "page_base (f 0) \<notin> va_tables s (va + of_nat (Suc i))"
      using u unfolding user_buffer_def by blast
    then show "va_tables s (va + 1 + of_nat i) \<inter> {page_base (f 0)} = {}"
      by (simp add: add.assoc)
  qed (simp_all add: sum_bit_def)
  from Cons.IH [OF this] show ?case using b(1) by (simp add: user_store_def put_bytes_Cons fun_upd_def)
qed

end
