(* ===== verification/Format.thy ===== *)
theory Format
  imports C_String
begin

text \<open>
  \<^verbatim>\<open>kernel/common.c\<close>: conversion of integers to text and the bounded formatter
  \<^verbatim>\<open>kvnprintf\<close>, with the emergency-console log lines of \<^verbatim>\<open>kernel/virtio-emerg.c\<close> that
  are composed with it. Buffers that a function fills from its start are the lists of the
  bytes written. A variadic argument is the 64-bit slot the calling convention passes;
  running out of arguments is undefined in C and \<open>None\<close> here.
\<close>

abbreviation chr :: "char \<Rightarrow> u8" where
  "chr c \<equiv> of_char c"

section \<open>Numerals\<close>

definition hex_digit :: "nat \<Rightarrow> u8" where
  "hex_digit d = bytes_of ''0123456789abcdef'' ! d"

text \<open>
  The \<^verbatim>\<open>do\<close> loop of \<^verbatim>\<open>itoa_unsigned\<close>: the digits from the last one on. It is entered
  with \<open>2 \<le> base\<close> only; the test makes the recursion total.
\<close>

function itoa_loop :: "u32 \<Rightarrow> u32 \<Rightarrow> u8 list" where
  "itoa_loop value base =
     hex_digit (unat (value mod base)) #
       (if 0 < value div base \<and> 2 \<le> base then itoa_loop (value div base) base else [])"
  by pat_completeness auto
termination
proof (relation "measure (\<lambda>(value, base). unat value)", goal_cases)
  case 1
  show ?case by simp
next
  case (2 v base)
  then have pos: "0 < unat v div unat base" and "2 \<le> unat base"
    by (auto simp: word_less_nat_alt word_le_nat_alt unat_div)
  moreover have "unat v \<noteq> 0" using pos by (intro notI) simp
  ultimately have "unat v div unat base < unat v" by (intro div_less_dividend) simp_all
  then show ?case by (simp add: unat_div)
qed

declare itoa_loop.simps [simp del]

definition itoa_unsigned :: "u32 \<Rightarrow> int \<Rightarrow> u8 list" where
  "itoa_unsigned value base =
     (if base < 2 \<or> base > 16 then [] else rev (itoa_loop value (of_int base)))"

definition itoa_signed :: "u32 \<Rightarrow> int \<Rightarrow> u8 list" where
  "itoa_signed value base =
     (if base < 2 \<or> base > 16 then []
      else if sint value < 0 \<and> base = 10 then chr CHR ''-'' # itoa_unsigned (- value) base
      else itoa_unsigned value base)"

section \<open>\<^verbatim>\<open>kvnprintf\<close>\<close>

text \<open>At most \<open>k\<close> bytes of the C string at \<open>p\<close>: the copy loop of \<^verbatim>\<open>%s\<close>.\<close>

primrec str_bytes :: "mem \<Rightarrow> u64 \<Rightarrow> nat \<Rightarrow> u8 list" where
  "str_bytes m p 0 = []"
| "str_bytes m p (Suc k) = (if m p = 0 then [] else m p # str_bytes m (p + 1) k)"

text \<open>
  One conversion: the bytes it appends when \<open>room\<close> bytes fit before \<^verbatim>\<open>size - 1\<close>, and the
  remaining arguments. The first byte of a conversion is written without a test, because
  the loop has just tested that one byte fits.
\<close>

definition kv_spec :: "mem \<Rightarrow> nat \<Rightarrow> u8 \<Rightarrow> u64 list \<Rightarrow> (u8 list \<times> u64 list) option" where
  "kv_spec m room spec args =
     (if spec = chr CHR ''s'' then
        (case args of [] \<Rightarrow> None
         | p # args \<Rightarrow> Some (if p = 0 then [] else str_bytes m p room, args))
      else if spec = chr CHR ''d'' then
        (case args of [] \<Rightarrow> None
         | v # args \<Rightarrow> Some (take room (itoa_signed (ucast v) 10), args))
      else if spec = chr CHR ''u'' then
        (case args of [] \<Rightarrow> None
         | v # args \<Rightarrow> Some (take room (itoa_unsigned (ucast v) 10), args))
      else if spec = chr CHR ''x'' then
        (case args of [] \<Rightarrow> None
         | v # args \<Rightarrow> Some (take room (itoa_unsigned (ucast v) 16), args))
      else if spec = chr CHR ''p'' then
        (case args of [] \<Rightarrow> None
         | v # args \<Rightarrow>
             Some (chr CHR ''0'' # take (room - 1) (chr CHR ''x'' # itoa_unsigned (ucast v) 16), args))
      else if spec = chr CHR ''c'' then
        (case args of [] \<Rightarrow> None | v # args \<Rightarrow> Some ([ucast v], args))
      else if spec = chr CHR ''%'' then Some ([chr CHR ''%''], args)
      else Some (chr CHR ''%'' # take (room - 1) [spec], args))"

text \<open>The loop over the format: \<open>lim\<close> is \<^verbatim>\<open>size - 1\<close>, \<open>out\<close> what has been written.\<close>

fun kv_loop :: "mem \<Rightarrow> nat \<Rightarrow> u8 list \<Rightarrow> u64 list \<Rightarrow> u8 list \<Rightarrow> u8 list option" where
  "kv_loop m lim [] args out = Some out"
| "kv_loop m lim [c] args out = Some (if length out < lim then out @ [c] else out)"
| "kv_loop m lim (c # spec # fmt) args out =
     (if \<not> length out < lim then Some out
      else if c = chr CHR ''%'' then
        (case kv_spec m (lim - length out) spec args of
           None \<Rightarrow> None
         | Some (bs, args) \<Rightarrow> kv_loop m lim fmt args (out @ bs))
      else kv_loop m lim (spec # fmt) args (out @ [c]))"

text \<open>
  \<^verbatim>\<open>size - 1\<close> is computed in \<^verbatim>\<open>size_t\<close>: a \<open>size\<close> of 0 means no limit at all. The result is
  the bytes before the terminating NUL; the returned count is their number.
\<close>

definition kvnprintf :: "mem \<Rightarrow> u64 \<Rightarrow> u8 list \<Rightarrow> u64 list \<Rightarrow> u8 list option" where
  "kvnprintf m sz fmt args = kv_loop m (unat (sz - 1)) fmt args []"

definition ksnprintf :: "mem \<Rightarrow> u64 \<Rightarrow> u8 list \<Rightarrow> u64 list \<Rightarrow> u8 list option" where
  "ksnprintf m sz fmt args = kvnprintf m sz fmt args"

section \<open>Log lines of the emergency console\<close>

text \<open>
  The three pieces of a line go one after the other into a buffer of 512 bytes; \<open>pos\<close> is
  the length of what has been written, and each piece gets the rest of the buffer as its
  size.
\<close>

definition emerg_piece ::
  "mem \<Rightarrow> u8 list \<Rightarrow> u64 list \<Rightarrow> u8 list \<Rightarrow> u8 list option" where
  "emerg_piece m fmt args buf =
     map_option ((@) buf) (kvnprintf m (512 - of_nat (length buf)) fmt args)"

definition emerg_printf :: "mem \<Rightarrow> u8 list \<Rightarrow> u64 list \<Rightarrow> u8 list option" where
  "emerg_printf m fmt args = kvnprintf m 256 fmt args"

definition virtio_emerg_log :: "mem \<Rightarrow> u64 \<Rightarrow> u8 list \<Rightarrow> u64 list \<Rightarrow> u8 list option" where
  "virtio_emerg_log m level fmt args =
     do {
       buf \<leftarrow> emerg_piece m (bytes_of ''[%s] '') [level] [];
       buf \<leftarrow> emerg_piece m fmt args buf;
       emerg_piece m [10] [] buf
     }"

definition virtio_emerg_log_va :: "mem \<Rightarrow> u64 \<Rightarrow> u8 list \<Rightarrow> u64 list \<Rightarrow> u8 list option" where
  "virtio_emerg_log_va m level fmt args =
     do {
       buf \<leftarrow> emerg_piece m (bytes_of ''[%s] '') [level] [];
       buf \<leftarrow> emerg_piece m fmt args buf;
       emerg_piece m [10] [] buf
     }"

definition virtio_emerg_log_ext ::
  "mem \<Rightarrow> u64 \<Rightarrow> u64 \<Rightarrow> u64 \<Rightarrow> u64 \<Rightarrow> u8 list \<Rightarrow> u64 list \<Rightarrow> u8 list option" where
  "virtio_emerg_log_ext m source pid level label fmt args =
     do {
       buf \<leftarrow> emerg_piece m (bytes_of ''[%s:PID=%d] [%s] %s: '') [source, pid, level, label] [];
       buf \<leftarrow> emerg_piece m fmt args buf;
       emerg_piece m [10] [] buf
     }"

section \<open>Reading numerals back\<close>

definition digit_value :: "u8 \<Rightarrow> nat" where
  "digit_value b = (if b \<le> 57 then unat b - 48 else unat b - 87)"

definition numeral_value :: "nat \<Rightarrow> u8 list \<Rightarrow> nat" where
  "numeral_value base bs = foldl (\<lambda>n b. n * base + digit_value b) 0 bs"

lemma digit_value_hex_digit: "d < 16 \<Longrightarrow> digit_value (hex_digit d) = d"
proof -
  assume "d < 16"
  moreover have "list_all (\<lambda>d. digit_value (hex_digit d) = d) [0..<16]"
    by (simp add: upt_conv_Cons hex_digit_def digit_value_def)
  ultimately show ?thesis by (simp add: list_all_iff)
qed

lemma numeral_value_snoc:
  "numeral_value base (bs @ [b]) = numeral_value base bs * base + digit_value b"
  by (simp add: numeral_value_def)

lemma itoa_loop_value:
  assumes "2 \<le> base" and "base \<le> 16"
  shows "numeral_value (unat base) (rev (itoa_loop v base)) = unat v"
  using assms
proof (induction v base rule: itoa_loop.induct)
  case (1 v base)
  have b: "2 \<le> unat base" "unat base \<le> 16" using 1(2,3) by (simp_all add: word_le_nat_alt)
  have d: "digit_value (hex_digit (unat (v mod base))) = unat v mod unat base"
  proof -
    have "unat v mod unat base < unat base" using b by (intro mod_less_divisor) simp
    then have "unat v mod unat base < 16" using b(2) by (rule order_less_le_trans)
    then show ?thesis by (simp add: unat_mod digit_value_hex_digit)
  qed
  show ?case
  proof (cases "0 < v div base")
    case True
    then show ?thesis using 1 d
      by (subst itoa_loop.simps) (simp add: numeral_value_snoc unat_div div_mult_mod_eq)
  next
    case False
    then have "unat v div unat base = 0" by (simp add: word_less_nat_alt unat_div)
    then have "unat v mod unat base = unat v"
      by (metis add_0 div_mult_mod_eq mult_zero_left)
    then show ?thesis using False d
      by (subst itoa_loop.simps) (simp add: numeral_value_def)
  qed
qed

lemma length_itoa_loop:
  assumes "2 \<le> base"
  shows "unat v < unat base ^ n \<Longrightarrow> 0 < n \<Longrightarrow> length (itoa_loop v base) \<le> n"
proof (induction n arbitrary: v)
  case 0
  then show ?case by simp
next
  case (Suc n)
  show ?case
  proof (cases "0 < v div base")
    case False
    then show ?thesis by (subst itoa_loop.simps) simp
  next
    case True
    have b: "0 < unat base" using assms by (simp add: word_le_nat_alt)
    then have small: "unat (v div base) < unat base ^ n"
      using Suc.prems(1) by (simp add: unat_div less_mult_imp_div_less mult.commute)
    moreover have "0 < n" using True small by (cases n) (auto simp: word_less_nat_alt)
    ultimately show ?thesis using Suc.IH assms True by (subst itoa_loop.simps) simp
  qed
qed

lemma hex_digit_not_minus: "d < 16 \<Longrightarrow> hex_digit d \<noteq> chr CHR ''-''"
proof -
  assume "d < 16"
  moreover have "list_all (\<lambda>d. hex_digit d \<noteq> chr CHR ''-'') [0..<16]"
    by (simp add: upt_conv_Cons hex_digit_def)
  ultimately show ?thesis by (simp add: list_all_iff)
qed

lemma itoa_loop_digits:
  assumes "2 \<le> base" and "base \<le> 16"
  shows "set (itoa_loop v base) \<subseteq> hex_digit ` {..<unat base}"
  using assms
proof (induction v base rule: itoa_loop.induct)
  case (1 v base)
  have "unat (v mod base) < unat base"
    using 1(2) by (simp add: unat_mod word_le_nat_alt)
  with 1 show ?case by (subst itoa_loop.simps) auto
qed

lemma of_int_base:
  assumes "2 \<le> b" and "b \<le> 16"
  shows "(2 :: u32) \<le> of_int b" and "(of_int b :: u32) \<le> 16" and "unat (of_int b :: u32) = nat b"
proof -
  have "uint (of_int b :: u32) = b" using assms by (simp add: uint_word_of_int)
  then show "(2 :: u32) \<le> of_int b" and "(of_int b :: u32) \<le> 16"
    using assms by (simp_all add: word_le_def)
  show "unat (of_int b :: u32) = nat b"
    using \<open>uint (of_int b :: u32) = b\<close> by (simp only: unat_eq_nat_uint)
qed

lemma itoa_unsigned_value:
  assumes "2 \<le> b" and "b \<le> 16"
  shows "numeral_value (nat b) (itoa_unsigned v b) = unat v"
  using itoa_loop_value [of "of_int b" v] of_int_base [OF assms] assms
  by (simp add: itoa_unsigned_def)

lemma itoa_unsigned_length:
  assumes "2 \<le> b" and "b \<le> 16" and "unat v < nat b ^ n" and "0 < n"
  shows "length (itoa_unsigned v b) \<le> n"
  using length_itoa_loop [of "of_int b" v n] of_int_base [OF assms(1,2)] assms
  by (simp add: itoa_unsigned_def)

lemma itoa_unsigned_digits:
  assumes "2 \<le> b" and "b \<le> 16"
  shows "set (itoa_unsigned v b) \<subseteq> hex_digit ` {..<nat b}"
  using itoa_loop_digits [of "of_int b" v] of_int_base [OF assms] assms
  by (simp add: itoa_unsigned_def)

lemma itoa_unsigned_nonempty: "2 \<le> b \<Longrightarrow> b \<le> 16 \<Longrightarrow> itoa_unsigned v b \<noteq> []"
  by (simp add: itoa_unsigned_def itoa_loop.simps [of v])

lemma unat_u32_bound: "unat (v :: u32) < 4294967296"
  using unsigned_less [of v, where ?'a = nat] by simp

text \<open>The value of a signed decimal numeral.\<close>

definition signed_value :: "u8 list \<Rightarrow> int" where
  "signed_value bs =
     (case bs of [] \<Rightarrow> 0
      | b # ds \<Rightarrow> if b = chr CHR ''-'' then - int (numeral_value 10 ds)
                 else int (numeral_value 10 bs))"

lemma unat_minus_neg:
  fixes v :: "'a::len word"
  assumes "sint v < 0"
  shows "int (unat (- v)) = - sint v"
proof -
  have half: "(2 :: int) ^ (LENGTH('a) - Suc 0) < 2 ^ LENGTH('a)"
    by (intro power_strict_increasing) simp_all
  have "int (unat (- v)) = uint (- v)" by simp
  also have "\<dots> = (- uint v) mod 2 ^ LENGTH('a)" by (simp add: uint_word_ariths)
  also have "uint v = sint v mod 2 ^ LENGTH('a)" by (simp add: uint_sint take_bit_eq_mod)
  also have "(- (sint v mod 2 ^ LENGTH('a))) mod 2 ^ LENGTH('a) = (- sint v) mod 2 ^ LENGTH('a)"
    by (rule mod_minus_eq)
  also have "\<dots> = - sint v"
    using assms half sint_greater_eq [of v] by (intro mod_pos_pos_trivial) linarith+
  finally show ?thesis .
qed

lemma unat_sint_nonneg:
  fixes v :: "'a::len word"
  assumes "0 \<le> sint v"
  shows "int (unat v) = sint v"
proof -
  have half: "(2 :: int) ^ (LENGTH('a) - Suc 0) < 2 ^ LENGTH('a)"
    by (intro power_strict_increasing) simp_all
  have "int (unat v) = sint v mod 2 ^ LENGTH('a)" by (simp add: uint_sint take_bit_eq_mod)
  also have "\<dots> = sint v"
    using assms half sint_less [of v] by (intro mod_pos_pos_trivial) linarith+
  finally show ?thesis .
qed

section \<open>Bounds\<close>

lemma length_str_bytes: "length (str_bytes m p k) \<le> k"
  by (induction k arbitrary: p) auto

lemma kv_spec_length:
  assumes "kv_spec m room spec args = Some (bs, args')" and "0 < room"
  shows "length bs \<le> room"
  using assms length_str_bytes [of m _ room]
  by (auto simp: kv_spec_def split: if_splits list.splits)

lemma kv_loop_length:
  "kv_loop m lim fmt args out = Some out' \<Longrightarrow> length out \<le> lim \<Longrightarrow> length out' \<le> lim"
proof (induction m lim fmt args out arbitrary: out' rule: kv_loop.induct)
  case (3 m lim c spec fmt args out)
  show ?case
  proof (cases "length out < lim \<and> c = chr CHR ''%''")
    case True
    then obtain bs args' where sp: "kv_spec m (lim - length out) spec args = Some (bs, args')"
      and run: "kv_loop m lim fmt args' (out @ bs) = Some out'"
      using "3.prems"(1) by (auto split: option.splits)
    have "length bs \<le> lim - length out" using kv_spec_length [OF sp] True by simp
    then show ?thesis using "3.IH"(1) [OF _ _ sp refl run] True by auto
  next
    case False
    then show ?thesis using 3 by (auto split: if_splits)
  qed
qed (auto split: if_splits)

lemma kvnprintf_length:
  assumes "kvnprintf m sz fmt args = Some out" and "0 < sz"
  shows "length out < unat sz"
proof -
  have "unat (sz - 1) = unat sz - 1" using assms(2) by (simp add: unat_minus_one unat_gt_0)
  moreover have "0 < unat sz" using assms(2) by (simp add: word_less_nat_alt)
  ultimately show ?thesis
    using kv_loop_length [of m "unat (sz - 1)" fmt args "[]" out] assms(1)
    by (simp add: kvnprintf_def)
qed

lemma emerg_piece_length:
  assumes "emerg_piece m fmt args buf = Some buf'" and "length buf < 512"
  shows "length buf' < 512"
proof -
  obtain out where out: "kvnprintf m (512 - of_nat (length buf)) fmt args = Some out"
    and buf': "buf' = buf @ out"
    using assms(1) by (auto simp: emerg_piece_def)
  have u: "unat (512 - of_nat (length buf) :: u64) = 512 - length buf"
    using assms(2) by (simp add: unat_sub word_le_nat_alt unat_of_nat_u64)
  then have "(0 :: u64) < 512 - of_nat (length buf)" using assms(2) by (simp add: word_less_nat_alt)
  from kvnprintf_length [OF out this] show ?thesis using buf' u assms(2) by simp
qed

section \<open>Truncation\<close>

lemma str_bytes_take: "k \<le> k' \<Longrightarrow> str_bytes m p k = take k (str_bytes m p k')"
proof (induction k arbitrary: p k')
  case 0
  then show ?case by simp
next
  case (Suc k)
  then show ?case by (cases k') auto
qed

lemma kv_spec_take:
  assumes "kv_spec m room' spec args = Some (bs, args')" and "0 < room" and "room \<le> room'"
  shows "kv_spec m room spec args = Some (take room bs, args')"
proof -
  have t: "take room (take room' x) = take room x" for x :: "u8 list"
    using assms(3) by (simp add: min_absorb1)
  have t1: "take (room - 1) (take (room' - 1) x) = take (room - 1) x" for x :: "u8 list"
    using assms(3) by (simp add: min_absorb1)
  have c: "take room (b # x) = b # take (room - 1) x" for b :: u8 and x
    using assms(2) by (cases room) simp_all
  show ?thesis
    using assms(1) str_bytes_take [OF assms(3), of m]
    by (auto simp: kv_spec_def t1 c min_absorb1 [OF assms(3)]
        min_absorb1 [OF diff_le_mono [OF assms(3)]] split: if_splits list.splits)
qed

lemma kv_loop_extends: "kv_loop m lim fmt args out = Some full \<Longrightarrow> \<exists>ys. full = out @ ys"
proof (induction m lim fmt args out arbitrary: full rule: kv_loop.induct)
  case (3 m lim c spec fmt args out)
  then show ?case by (fastforce split: if_splits option.splits)
qed (auto split: if_splits)

lemma kv_loop_full: "lim \<le> length out \<Longrightarrow> kv_loop m lim fmt args out = Some out"
  by (cases "(m, lim, fmt, args, out)" rule: kv_loop.cases) auto

lemma kv_loop_take:
  "kv_loop m lim' fmt args out = Some full \<Longrightarrow> length out \<le> lim \<Longrightarrow> lim \<le> lim' \<Longrightarrow>
    kv_loop m lim fmt args out = Some (take lim full)"
proof (induction m lim' fmt args out arbitrary: full rule: kv_loop.induct)
  case (3 m lim' c spec fmt args out)
  show ?case
  proof (cases "length out < lim")
    case False
    obtain ys where "full = out @ ys" using kv_loop_extends [OF "3.prems"(1)] by blast
    with False "3.prems"(2) show ?thesis by (simp add: kv_loop_full)
  next
    case lt: True
    with "3.prems"(3) have lt': "length out < lim'" by simp
    show ?thesis
    proof (cases "c = chr CHR ''%''")
      case False
      have "kv_loop m lim (spec # fmt) args (out @ [c]) = Some (take lim full)"
        using "3.IH"(2) [OF _ False] "3.prems" lt lt' False by simp
      with lt False show ?thesis by simp
    next
      case True
      then obtain bs args' where sp: "kv_spec m (lim' - length out) spec args = Some (bs, args')"
        and run: "kv_loop m lim' fmt args' (out @ bs) = Some full"
        using "3.prems"(1) lt' by (auto split: option.splits)
      have sp': "kv_spec m (lim - length out) spec args = Some (take (lim - length out) bs, args')"
        using kv_spec_take [OF sp] lt "3.prems"(3) by simp
      show ?thesis
      proof (cases "length bs \<le> lim - length out")
        case short: True
        then have "kv_loop m lim fmt args' (out @ bs) = Some (take lim full)"
          using "3.IH"(1) [OF _ True sp refl run] lt lt' "3.prems"(3) by simp
        with sp' lt True short show ?thesis by simp
      next
        case long: False
        obtain ys where "full = (out @ bs) @ ys" using kv_loop_extends [OF run] by blast
        with sp' lt True long show ?thesis by (simp add: kv_loop_full)
      qed
    qed
  qed
qed (auto split: if_splits simp: kv_loop_full)

section \<open>Properties\<close>

text \<open>
  \<open>itoa_signed\<close> in base 10 writes the decimal numeral of its argument, for every
  32-bit value with \<^verbatim>\<open>INT_MIN\<close> included, and \<open>itoa_unsigned\<close> the numeral in any base from
  2 to 16; with the NUL neither overruns the 33-byte buffers of the callers.
\<close>

theorem itoa_roundtrip:
  shows "signed_value (itoa_signed v 10) = sint v \<and> length (itoa_signed v 10) < 33 \<and>
    (2 \<le> b \<and> b \<le> 16 \<longrightarrow> numeral_value (nat b) (itoa_unsigned w b) = unat w \<and>
      length (itoa_unsigned w b) < 33)"
proof (intro conjI impI)
  have len: "length (itoa_unsigned x 10) \<le> 10" for x
    using unat_u32_bound [of x] by (intro itoa_unsigned_length) simp_all
  show "signed_value (itoa_signed v 10) = sint v"
  proof (cases "sint v < 0")
    case True
    then show ?thesis using unat_minus_neg [OF True] itoa_unsigned_value [of 10 "- v"]
      by (simp add: itoa_signed_def signed_value_def)
  next
    case False
    obtain d ds where dd: "itoa_unsigned v 10 = d # ds"
      using itoa_unsigned_nonempty [of 10 v] by (cases "itoa_unsigned v 10") auto
    then have "d \<in> hex_digit ` {..<10}" using itoa_unsigned_digits [of 10 v] by auto
    then have "d \<noteq> chr CHR ''-''" using hex_digit_not_minus by fastforce
    then show ?thesis
      using False dd itoa_unsigned_value [of 10 v] unat_sint_nonneg [of v]
      by (simp add: itoa_signed_def signed_value_def)
  qed
  show "length (itoa_signed v 10) < 33"
    using len [of v] len [of "- v"] by (simp add: itoa_signed_def)
next
  assume b: "2 \<le> b \<and> b \<le> 16"
  then show "numeral_value (nat b) (itoa_unsigned w b) = unat w" by (simp add: itoa_unsigned_value)
  have "(2 :: nat) ^ 32 \<le> nat b ^ 32" using b by (intro power_mono) (simp_all add: nat_le_iff le_nat_iff)
  then have "unat w < nat b ^ 32" using unat_u32_bound [of w] by simp
  then show "length (itoa_unsigned w b) < 33" using itoa_unsigned_length [of b w 32] b by simp
qed

theorem itoa_roundtrip_witness:
  "signed_value (itoa_signed 0x80000000 10) = - 2147483648 \<and>
    numeral_value 16 (itoa_unsigned 0xdeadbeef 16) = 0xdeadbeef"
  using itoa_roundtrip [of "0x80000000" 16 "0xdeadbeef"] by simp

text \<open>
  C39: \<open>kvnprintf\<close> with a buffer of \<open>n \<noteq> 0\<close> bytes writes at most \<open>n - 1\<close> bytes and the NUL,
  and what it writes is the beginning of what it writes with any larger buffer: output is
  truncated, never altered.
\<close>

theorem kvnprintf_truncates:
  assumes "0 < n" and "n \<le> n'" and "kvnprintf m n' fmt args = Some full"
  shows "kvnprintf m n fmt args = Some (take (unat n - 1) full) \<and>
    length (take (unat n - 1) full) < unat n"
proof -
  have pos: "0 < unat n" using assms(1) by (simp add: word_less_nat_alt)
  have "0 < n'" using assms(1,2) by (rule order_less_le_trans)
  then have u: "unat (n - 1) = unat n - 1" "unat (n' - 1) = unat n' - 1"
    using assms(1) by (simp_all add: unat_minus_one unat_gt_0)
  have "unat n - 1 \<le> unat n' - 1" using assms(2) by (simp add: word_le_nat_alt)
  then show ?thesis
    using kv_loop_take [of m "unat n' - 1" fmt args "[]" full "unat n - 1"] assms(3) pos
    by (simp add: kvnprintf_def u)
qed

theorem kvnprintf_truncates_witness:
  "kvnprintf (\<lambda>_. 0) 5 (bytes_of ''pid=%d.'') [42] = Some (bytes_of ''pid='') \<and>
    kvnprintf (\<lambda>_. 0) 64 (bytes_of ''pid=%d.'') [42] = Some (bytes_of ''pid=42.'')"
proof -
  have it: "itoa_signed 42 10 = bytes_of ''42''"
    by (simp add: itoa_signed_def itoa_unsigned_def itoa_loop.simps hex_digit_def)
  have full: "kvnprintf (\<lambda>_. 0) 64 (bytes_of ''pid=%d.'') [42] = Some (bytes_of ''pid=42.'')"
    by (simp add: kvnprintf_def kv_spec_def it)
  show ?thesis using kvnprintf_truncates [OF _ _ full, of 5] full by simp
qed

text \<open>
  The lines of the emergency log always fit their 512-byte buffer: the three pieces
  are composed with the size that is left, whatever the format, the arguments and the
  strings are.
\<close>

theorem emerg_log_fits:
  shows "(virtio_emerg_log m level fmt args = Some buf \<longrightarrow> length buf < 512) \<and>
    (virtio_emerg_log_va m level fmt args = Some buf \<longrightarrow> length buf < 512) \<and>
    (virtio_emerg_log_ext m source pid level label fmt args = Some buf \<longrightarrow> length buf < 512)"
proof -
  have p: "length c < 512"
    if "emerg_piece m f1 a1 [] = Some a" "emerg_piece m f2 a2 a = Some b"
      "emerg_piece m f3 a3 b = Some c" for f1 a1 a f2 a2 b f3 a3 c
    using emerg_piece_length [OF that(1)] emerg_piece_length [OF that(2)]
      emerg_piece_length [OF that(3)] by simp
  show ?thesis
    by (auto simp: virtio_emerg_log_def virtio_emerg_log_va_def virtio_emerg_log_ext_def
        bind_eq_Some_conv intro: p)
qed

theorem emerg_log_fits_witness:
  "\<exists>buf. virtio_emerg_log_va two_strings 0x1000 (bytes_of ''ok'') [] = Some buf \<and> length buf < 512"
proof -
  have "\<exists>buf. virtio_emerg_log_va two_strings 0x1000 (bytes_of ''ok'') [] = Some buf"
    by (simp add: virtio_emerg_log_va_def emerg_piece_def kvnprintf_def kv_spec_def)
  then show ?thesis using emerg_log_fits [of two_strings "0x1000" "bytes_of ''ok''" "[]"] by blast
qed

end
