(* ===== verification/Console.thy ===== *)
theory Console
  imports Format Kernel_State
begin

text \<open>
  The console driver \<^verbatim>\<open>kernel/uart.c\<close>: every byte goes to the SBI console, whose trace is
  the field \<open>uart_out\<close> of the state, so an output routine appends to it. Buffers on the
  stack that are filled from the end are lists to which digits are put in front.

  \<^verbatim>\<open>uart_getc\<close> is the SBI call that polls the console: it answers the next item of
  \<open>uart_in\<close>, and \<open>-1\<close> when nothing more will be typed.
\<close>

section \<open>The code\<close>

definition uart_getc :: "kstate \<Rightarrow> int \<times> kstate" where
  "uart_getc s = (case uart_in s of [] \<Rightarrow> (-1, s) | c # cs \<Rightarrow> (c, s\<lparr>uart_in := cs\<rparr>))"

definition uart_putc :: "u8 \<Rightarrow> kstate \<Rightarrow> kstate" where
  "uart_putc ch s = s\<lparr>uart_out := uart_out s @ [ch]\<rparr>"

definition uart_puts :: "u8 list \<Rightarrow> kstate \<Rightarrow> kstate" where
  "uart_puts str s = fold uart_putc str s"

definition HEX_DIGITS :: "u8 list" where
  "HEX_DIGITS = bytes_of ''0123456789ABCDEF''"

definition uart_puthex8 :: "u8 \<Rightarrow> kstate \<Rightarrow> kstate" where
  "uart_puthex8 val s =
     uart_putc (HEX_DIGITS ! unat (val AND 0xF))
       (uart_putc (HEX_DIGITS ! unat (drop_bit 4 val AND 0xF)) s)"

definition uart_puthex8_prefixed :: "u8 \<Rightarrow> kstate \<Rightarrow> kstate" where
  "uart_puthex8_prefixed val s = uart_puthex8 val (uart_puts (bytes_of ''0x'') s)"

definition uart_puthex16 :: "u16 \<Rightarrow> kstate \<Rightarrow> kstate" where
  "uart_puthex16 val s =
     uart_puthex8 (ucast (val AND 0xFF)) (uart_puthex8 (ucast (drop_bit 8 val AND 0xFF)) s)"

definition uart_puthex16_prefixed :: "u16 \<Rightarrow> kstate \<Rightarrow> kstate" where
  "uart_puthex16_prefixed val s = uart_puthex16 val (uart_puts (bytes_of ''0x'') s)"

definition uart_puthex32 :: "u32 \<Rightarrow> kstate \<Rightarrow> kstate" where
  "uart_puthex32 val s =
     uart_puthex16 (ucast (val AND 0xFFFF)) (uart_puthex16 (ucast (drop_bit 16 val AND 0xFFFF)) s)"

definition uart_puthex32_prefixed :: "u32 \<Rightarrow> kstate \<Rightarrow> kstate" where
  "uart_puthex32_prefixed val s = uart_puthex32 val (uart_puts (bytes_of ''0x'') s)"

definition uart_puthex64 :: "u64 \<Rightarrow> kstate \<Rightarrow> kstate" where
  "uart_puthex64 val s =
     uart_puthex32 (ucast (val AND 0xFFFFFFFF)) (uart_puthex32 (ucast (drop_bit 32 val)) s)"

definition uart_puthex64_prefixed :: "u64 \<Rightarrow> kstate \<Rightarrow> kstate" where
  "uart_puthex64_prefixed val s = uart_puthex64 val (uart_puts (bytes_of ''0x'') s)"

text \<open>
  The digit loops \<^verbatim>\<open>while (value && i >= 0)\<close>: \<open>k\<close> is the number of buffer bytes left
  (\<^verbatim>\<open>i + 1\<close>); \<open>ds\<close> the digits written so far.
\<close>

primrec dec_loop :: "nat \<Rightarrow> u64 \<Rightarrow> u8 list \<Rightarrow> u8 list" where
  "dec_loop 0 val ds = ds"
| "dec_loop (Suc k) val ds =
     (if val \<noteq> 0 then dec_loop k (val div 10) ((48 + ucast (val mod 10)) # ds) else ds)"

definition uart_put_udec :: "u64 \<Rightarrow> kstate \<Rightarrow> kstate" where
  "uart_put_udec val s =
     (if val = 0 then uart_putc 48 s else uart_puts (dec_loop 20 val []) s)"

definition uart_put_dec :: "u64 \<Rightarrow> kstate \<Rightarrow> kstate" where
  "uart_put_dec val s =
     (if sint val < 0 then uart_put_udec (- val) (uart_putc (chr CHR ''-'') s)
      else uart_put_udec val s)"

primrec hex_loop :: "nat \<Rightarrow> u64 \<Rightarrow> u8 list \<Rightarrow> u8 list" where
  "hex_loop 0 val ds = ds"
| "hex_loop (Suc k) val ds =
     (if val \<noteq> 0 then hex_loop k (drop_bit 4 val) (hex_digit (unat (val AND 0xf)) # ds) else ds)"

definition uart_puthex :: "u64 \<Rightarrow> int \<Rightarrow> kstate \<Rightarrow> kstate" where
  "uart_puthex val width s =
     (let ds = (if val = 0 then [chr CHR ''0''] else hex_loop 16 val []);
          len = int (length ds)
      in uart_puts ds (uart_puts (replicate (nat (width - len)) (chr CHR ''0'')) s))"

primrec pad_loop :: "nat \<Rightarrow> u64 \<Rightarrow> u64 \<Rightarrow> u8 list \<Rightarrow> u8 list" where
  "pad_loop 0 base val ds = ds"
| "pad_loop (Suc k) base val ds =
     (if val \<noteq> 0 then
        pad_loop k base (val div base)
          ((if val mod base < 10 then 48 + ucast (val mod base)
            else 97 + ucast (val mod base) - 10) # ds)
      else ds)"

text \<open>
  \<^verbatim>\<open>uart_putpad\<close>. After the digits \<^verbatim>\<open>i\<close> is the index of the byte in front of them, and
  \<^verbatim>\<open>len = 31 - i\<close> is one more than the number of digits: it counts the NUL.
\<close>

definition uart_putpad :: "u64 \<Rightarrow> u64 \<Rightarrow> int \<Rightarrow> bool \<Rightarrow> bool \<Rightarrow> kstate \<Rightarrow> kstate" where
  "uart_putpad val base width zero_pad signed_val s =
     (let negative = (signed_val \<and> sint val < 0);
          val = (if negative then - val else val);
          ds = (if val = 0 then [chr CHR ''0''] else pad_loop 31 base val []);
          len = int (length ds) + 1;
          s = (if negative then uart_putc (chr CHR ''-'') s else s);
          pad = (if zero_pad then chr CHR ''0'' else chr CHR '' '')
      in uart_puts ds (uart_puts (replicate (nat (width - len)) pad) s))"

definition uart_cls :: "kstate \<Rightarrow> kstate" where
  "uart_cls s = uart_puts (27 # bytes_of ''[H'') (uart_puts (27 # bytes_of ''[2J'') s)"

definition uart_set_color :: "u8 list \<Rightarrow> kstate \<Rightarrow> kstate" where
  "uart_set_color ansi_code s = uart_puts ansi_code s"

section \<open>\<^verbatim>\<open>uart_printf\<close>\<close>

text \<open>The field width: the decimal digits at the front of the format, as a C \<^verbatim>\<open>int\<close>.\<close>

fun parse_width :: "u8 list \<Rightarrow> int \<Rightarrow> int \<times> u8 list" where
  "parse_width [] width = (width, [])"
| "parse_width (c # fmt) width =
     (if 48 \<le> c \<and> c \<le> 57 then parse_width fmt (width * 10 + (uint c - 48)) else (width, c # fmt))"

definition parse_length :: "u8 list \<Rightarrow> nat \<times> u8 list" where
  "parse_length fmt =
     (case fmt of
        [] \<Rightarrow> (0, [])
      | c # rest \<Rightarrow>
          if c = chr CHR ''l'' then
            (case rest of [] \<Rightarrow> (1, [])
             | c' # rest' \<Rightarrow> if c' = chr CHR ''l'' then (2, rest') else (1, rest))
          else (0, fmt))"

text \<open>The C string at \<open>p\<close>, when there is one.\<close>

partial_function (option) read_cstr :: "mem \<Rightarrow> u64 \<Rightarrow> u8 list option" where
  "read_cstr m p =
     (if m p = 0 then Some []
      else do { bs \<leftarrow> read_cstr m (p + 1); Some (m p # bs) })"

text \<open>
  One conversion, from the flags on: the remaining format and arguments and the new
  state. \<open>None\<close> stands for what C leaves undefined: no argument left, a string without
  end, a format that ends inside a conversion.
\<close>

definition printf_spec ::
  "mem \<Rightarrow> u8 \<Rightarrow> bool \<Rightarrow> int \<Rightarrow> nat \<Rightarrow> u64 list \<Rightarrow> kstate \<Rightarrow> (u64 list \<times> kstate) option" where
  "printf_spec m spec zero_pad width len args s =
     (if spec = chr CHR ''d'' then
        (case args of [] \<Rightarrow> None
         | v # args \<Rightarrow> Some (args, uart_putpad
             (if len = 0 then scast (ucast v :: u32) else v) 10 width zero_pad True s))
      else if spec = chr CHR ''u'' then
        (case args of [] \<Rightarrow> None
         | v # args \<Rightarrow> Some (args, uart_putpad
             (if len = 0 then ucast (ucast v :: u32) else v) 10 width zero_pad False s))
      else if spec = chr CHR ''x'' then
        (case args of [] \<Rightarrow> None
         | v # args \<Rightarrow> Some (args, uart_puthex
             (if len = 0 then ucast (ucast v :: u32) else v) width s))
      else if spec = chr CHR ''c'' then
        (case args of [] \<Rightarrow> None | v # args \<Rightarrow> Some (args, uart_putc (ucast v) s))
      else if spec = chr CHR ''s'' then
        (case args of [] \<Rightarrow> None
         | p # args \<Rightarrow>
             if p = 0 then Some (args, uart_puts (bytes_of ''(null)'') s)
             else do { bs \<leftarrow> read_cstr m p; Some (args, uart_puts bs s) })
      else if spec = chr CHR ''p'' then
        (case args of [] \<Rightarrow> None
         | p # args \<Rightarrow> Some (args, uart_puthex p 16 (uart_puts (bytes_of ''0x'') s)))
      else if spec = chr CHR ''%'' then Some (args, uart_putc (chr CHR ''%'') s)
      else Some (args, uart_putc spec (uart_putc (chr CHR ''%'') s)))"

definition printf_flags :: "u8 list \<Rightarrow> bool \<times> u8 list" where
  "printf_flags fmt =
     (case fmt of c # rest \<Rightarrow> if c = chr CHR ''0'' then (True, rest) else (False, fmt)
      | [] \<Rightarrow> (False, []))"

lemma length_parse_width: "length (snd (parse_width fmt width)) \<le> length fmt"
  by (induction fmt width rule: parse_width.induct) auto

lemma length_parse_length: "length (snd (parse_length fmt)) \<le> length fmt"
  by (auto simp: parse_length_def split: list.splits)

lemma length_printf_flags: "length (snd (printf_flags fmt)) \<le> length fmt"
  by (auto simp: printf_flags_def split: list.splits)

definition parse_spec :: "u8 list \<Rightarrow> bool \<times> int \<times> nat \<times> u8 list" where
  "parse_spec fmt =
     (let (zero_pad, fmt) = printf_flags fmt;
          (width, fmt) = parse_width fmt 0;
          (len, fmt) = parse_length fmt
      in (zero_pad, width, len, fmt))"

lemma length_parse_spec:
  assumes "parse_spec fmt = (z, w, l, rest)"
  shows "length rest \<le> length fmt"
proof -
  obtain z' f1 where 1: "printf_flags fmt = (z', f1)" by force
  obtain w' f2 where 2: "parse_width f1 0 = (w', f2)" by force
  obtain l' f3 where 3: "parse_length f2 = (l', f3)" by force
  show ?thesis
    using assms 1 2 3 length_printf_flags [of fmt] length_parse_width [of f1 0]
      length_parse_length [of f2] by (simp add: parse_spec_def)
qed

function printf_loop :: "mem \<Rightarrow> u8 list \<Rightarrow> u64 list \<Rightarrow> kstate \<Rightarrow> kstate option" where
  "printf_loop m fmt args s =
     (case fmt of
        [] \<Rightarrow> Some s
      | c # fmt \<Rightarrow>
          if c \<noteq> chr CHR ''%'' then printf_loop m fmt args (uart_putc c s)
          else
            (case parse_spec fmt of
               (zero_pad, width, len, []) \<Rightarrow> None
             | (zero_pad, width, len, spec # fmt) \<Rightarrow>
                 (case printf_spec m spec zero_pad width len args s of
                    None \<Rightarrow> None
                  | Some (args, s) \<Rightarrow> printf_loop m fmt args s)))"
  by pat_completeness auto
termination
proof (relation "measure (\<lambda>(m, fmt, args, s). length fmt)", goal_cases)
  case 1
  show ?case by simp
next
  case 2
  then show ?case by simp
next
  case 3
  then show ?case by (auto dest!: length_parse_spec [OF sym])
qed

declare printf_loop.simps [simp del]

definition uart_printf :: "u8 list \<Rightarrow> u64 list \<Rightarrow> kstate \<Rightarrow> kstate option" where
  "uart_printf fmt args s = printf_loop (mem s) fmt args s"

section \<open>What is written\<close>

lemma uart_puts_out: "uart_puts bs s = s\<lparr>uart_out := uart_out s @ bs\<rparr>"
  by (induction bs arbitrary: s) (simp_all add: uart_puts_def uart_putc_def)

lemma uart_frame [simp]:
  "mem (uart_puts bs s) = mem s" "mem (uart_putc c s) = mem s"
  by (simp_all add: uart_puts_out uart_putc_def)

text \<open>The three digit loops are one, with the digits of \<open>hex_digit\<close>.\<close>

lemma pad_digit:
  fixes d :: u64
  assumes "d < 16"
  shows "(if d < 10 then 48 + ucast d else 97 + ucast d - 10) = hex_digit (unat d)"
proof -
  have "list_all (\<lambda>n. (if (of_nat n :: u64) < 10 then 48 + ucast (of_nat n :: u64)
      else 97 + ucast (of_nat n :: u64) - 10) = hex_digit n) [0..<16]"
    by (simp add: upt_conv_Cons hex_digit_def)
  then have all: "\<forall>n \<in> set [0..<16]. (if (of_nat n :: u64) < 10 then 48 + ucast (of_nat n :: u64)
      else 97 + ucast (of_nat n :: u64) - 10) = hex_digit n"
    unfolding list_all_iff .
  have "unat d \<in> set [0..<16]" using assms by (simp add: word_less_nat_alt)
  from bspec [OF all this, unfolded of_nat_unat_u64] show ?thesis .
qed

lemma mod_base_small:
  fixes val base :: u64
  assumes "2 \<le> base" and "base \<le> 16"
  shows "val mod base < 16" and "unat (val mod base) < unat base"
proof -
  show "unat (val mod base) < unat base" using assms(1) by (simp add: unat_mod word_le_nat_alt)
  moreover have "unat base \<le> 16" using assms(2) by (simp add: word_le_nat_alt)
  ultimately show "val mod base < 16" by (simp add: word_less_nat_alt)
qed

lemma pad_loop_Suc:
  assumes "2 \<le> base" and "base \<le> 16" and "val \<noteq> 0"
  shows "pad_loop (Suc k) base val ds =
    pad_loop k base (val div base) (hex_digit (unat (val mod base)) # ds)"
  using assms(3) pad_digit [OF mod_base_small(1) [OF assms(1,2), of val]] by simp

lemma pad_loop_append: "pad_loop k base val (ds @ es) = pad_loop k base val ds @ es"
  by (induction k arbitrary: val ds) (simp_all flip: append_Cons)

lemma hex_loop_pad: "hex_loop k val ds = pad_loop k 16 val ds"
proof (induction k arbitrary: val ds)
  case 0
  then show ?case by simp
next
  case (Suc k)
  have "val AND 0xf = val mod 16"
    using take_bit_eq_mask [of 4 val] by (simp add: take_bit_eq_mod mask_eq_exp_minus_1)
  moreover have "drop_bit 4 val = val div 16" by (simp add: drop_bit_eq_div)
  ultimately show ?case
    using Suc pad_loop_Suc [of 16 val k ds] by (cases "val = 0") (simp_all del: pad_loop.simps(2), simp)
qed

lemma dec_loop_pad: "dec_loop k val ds = pad_loop k 10 val ds"
proof (induction k arbitrary: val ds)
  case 0
  then show ?case by simp
next
  case (Suc k)
  have "val mod 10 < 10" by (rule word_mod_less_divisor) simp
  with Suc show ?case by simp
qed

text \<open>The digits are the numeral of the value when the buffer is long enough.\<close>

lemma numeral_value_append:
  "numeral_value b (xs @ ys) = numeral_value b xs * b ^ length ys + numeral_value b ys"
  by (induction ys rule: rev_induct) (simp_all add: numeral_value_snoc numeral_value_def [of _ "[]"] algebra_simps flip: append_assoc)

lemma pad_loop_value:
  assumes b: "2 \<le> base" "base \<le> 16"
  shows "unat val < unat base ^ k \<Longrightarrow> numeral_value (unat base) (pad_loop k base val []) = unat val \<and>
    length (pad_loop k base val []) \<le> k \<and> set (pad_loop k base val []) \<subseteq> hex_digit ` {..<16} \<and>
    (0 < k \<longrightarrow> val \<noteq> 0 \<longrightarrow> pad_loop k base val [] \<noteq> [])"
proof (induction k arbitrary: val)
  case 0
  then show ?case by (simp add: numeral_value_def)
next
  case (Suc k)
  show ?case
  proof (cases "val = 0")
    case True
    then show ?thesis by (simp add: numeral_value_def)
  next
    case False
    let ?d = "hex_digit (unat (val mod base))"
    have ub: "0 < unat base" "unat base \<le> 16" using b by (simp_all add: word_le_nat_alt)
    have "unat (val div base) < unat base ^ k"
      using Suc.prems ub by (simp add: unat_div less_mult_imp_div_less mult.commute)
    note ih = Suc.IH [OF this]
    have d: "unat (val mod base) < unat base" "unat (val mod base) < 16"
      using mod_base_small [OF b, of val] by (simp_all add: word_less_nat_alt)
    have eq: "pad_loop (Suc k) base val [] = pad_loop k base (val div base) [] @ [?d]"
      using pad_loop_Suc [OF b False, of k "[]"] pad_loop_append [of k base "val div base" "[]" "[?d]"]
      by simp
    show ?thesis
      unfolding eq using ih d digit_value_hex_digit [OF d(2)]
      by (auto simp: numeral_value_snoc unat_div unat_mod simp del: pad_loop.simps)
  qed
qed

lemma put_udec_digits:
  obtains ds where "uart_put_udec val s = s\<lparr>uart_out := uart_out s @ ds\<rparr>"
    and "numeral_value 10 ds = unat val" and "ds \<noteq> []" and "hd ds \<noteq> chr CHR ''-''"
proof (cases "val = 0")
  case True
  then show thesis
    using that [of "[48]"] by (simp add: uart_put_udec_def uart_putc_def numeral_value_def digit_value_def)
next
  case False
  have "unat val < unat (10 :: u64) ^ 20" using unat_u64_bound [of val] by simp
  note d = pad_loop_value [OF _ _ this]
  let ?ds = "pad_loop 20 10 val []"
  have d4: "numeral_value 10 ?ds = unat val" "set ?ds \<subseteq> hex_digit ` {..<16}" "?ds \<noteq> []"
    using d False by (simp_all del: pad_loop.simps)
  then have "hd ?ds \<in> hex_digit ` {..<16}" using list.set_sel(1) [of ?ds] by blast
  then obtain x where "x < 16" "hd ?ds = hex_digit x" by (elim imageE) simp
  then have "hd ?ds \<noteq> chr CHR ''-''" using hex_digit_not_minus [of x] by argo
  with d4 False show thesis
    using that [of ?ds] by (simp add: uart_put_udec_def uart_puts_out dec_loop_pad del: pad_loop.simps)
qed

lemma hex_loop_value:
  "numeral_value 16 (hex_loop 16 val []) = unat val \<and> length (hex_loop 16 val []) \<le> 16"
proof -
  have "unat val < unat (16 :: u64) ^ 16" using unat_u64_bound [of val] by simp
  from pad_loop_value [OF _ _ this] show ?thesis
    by (simp add: hex_loop_pad del: pad_loop.simps hex_loop.simps)
qed

lemma pad_loop_zero: "pad_loop k base 0 ds = ds"
  by (cases k) simp_all

lemma pad_loop_unfold:
  "0 < k \<Longrightarrow> pad_loop k base val ds =
    (if val \<noteq> 0 then
       pad_loop (k - 1) base (val div base)
         ((if val mod base < 10 then 48 + ucast (val mod base)
           else 97 + ucast (val mod base) - 10) # ds)
     else ds)"
  by (cases k) simp_all

section \<open>Properties\<close>

text \<open>
  \<open>uart_put_dec\<close> writes the decimal numeral of its 64-bit argument, the smallest
  value included, and changes nothing but the console.
\<close>

theorem uart_put_dec_value:
  "\<exists>bs. uart_put_dec val s = s\<lparr>uart_out := uart_out s @ bs\<rparr> \<and> signed_value bs = sint val"
proof (cases "sint val < 0")
  case True
  let ?s = "uart_putc (chr CHR ''-'') s"
  obtain ds where ds: "uart_put_udec (- val) ?s = ?s\<lparr>uart_out := uart_out ?s @ ds\<rparr>"
    "numeral_value 10 ds = unat (- val)" by (rule put_udec_digits)
  show ?thesis
    using ds True unat_minus_neg [OF True]
    by (intro exI [of _ "chr CHR ''-'' # ds"])
      (simp add: uart_put_dec_def uart_putc_def signed_value_def)
next
  case False
  obtain ds where ds: "uart_put_udec val s = s\<lparr>uart_out := uart_out s @ ds\<rparr>"
    "numeral_value 10 ds = unat val" "ds \<noteq> []" "hd ds \<noteq> chr CHR ''-''" by (rule put_udec_digits)
  then have "signed_value ds = sint val"
    using False unat_sint_nonneg [of val] by (cases ds) (simp_all add: signed_value_def)
  with ds(1) False show ?thesis by (auto simp: uart_put_dec_def)
qed

text \<open>
  \<open>uart_puthex\<close> writes the hexadecimal numeral of its argument, filled up with zeros
  to exactly \<open>width\<close> columns when it is shorter.
\<close>

theorem uart_puthex_width:
  "\<exists>ds. uart_puthex val width s =
      s\<lparr>uart_out := uart_out s @ replicate (nat (width - int (length ds))) (chr CHR ''0'') @ ds\<rparr> \<and>
    numeral_value 16 ds = unat val \<and> length ds \<le> 16"
proof -
  let ?ds = "if val = 0 then [chr CHR ''0''] else hex_loop 16 val []"
  have "numeral_value 16 ?ds = unat val \<and> length ?ds \<le> 16"
    using hex_loop_value [of val] by (simp add: numeral_value_def [of 16 "[48]"] digit_value_def)
  then show ?thesis
    by (intro exI [of _ ?ds]) (simp add: uart_puthex_def uart_puts_out Let_def del: hex_loop.simps)
qed

text \<open>
  What \<open>uart_putpad\<close> really does in base 10: it writes the right numeral, but counts
  the NUL as a digit, so that a field of \<open>width\<close> columns that needs padding comes out one
  column short; \<^verbatim>\<open>%02d\<close> of 5 prints one digit.
\<close>

theorem uart_putpad_short:
  assumes "\<not> signed_val"
  shows "\<exists>ds. uart_putpad val 10 width zero_pad signed_val s =
      s\<lparr>uart_out := uart_out s @
        replicate (nat (width - int (length ds) - 1)) (if zero_pad then chr CHR ''0'' else chr CHR '' '') @ ds\<rparr> \<and>
    numeral_value 10 ds = unat val \<and>
    (int (length ds) < width \<longrightarrow>
      int (length (uart_out (uart_putpad val 10 width zero_pad signed_val s))) =
        int (length (uart_out s)) + (width - 1))"
proof -
  let ?ds = "if val = 0 then [chr CHR ''0''] else pad_loop 31 10 val []"
  have "unat val < unat (10 :: u64) ^ 31" using unat_u64_bound [of val] by simp
  then have v: "numeral_value 10 ?ds = unat val"
    using pad_loop_value [of 10 val 31]
    by (simp add: numeral_value_def [of 10 "[48]"] digit_value_def del: pad_loop.simps)
  have run: "uart_putpad val 10 width zero_pad signed_val s =
      s\<lparr>uart_out := uart_out s @
        replicate (nat (width - int (length ?ds) - 1)) (if zero_pad then chr CHR ''0'' else chr CHR '' '') @ ?ds\<rparr>"
    using assms by (simp add: uart_putpad_def uart_puts_out Let_def algebra_simps del: pad_loop.simps)
  then have "int (length ?ds) < width \<longrightarrow>
      int (length (uart_out (uart_putpad val 10 width zero_pad signed_val s))) =
        int (length (uart_out s)) + (width - 1)"
    by (simp del: pad_loop.simps)
  with v run show ?thesis by blast
qed

theorem uart_putpad_short_witness:
  "uart_out (uart_putpad 5 10 2 True False (boot_state kernel_map)) = bytes_of ''5'' \<and>
    (\<exists>ds. uart_out (uart_putpad 5 10 2 True False (boot_state kernel_map)) =
      replicate (nat (1 - int (length ds))) (chr CHR ''0'') @ ds \<and> numeral_value 10 ds = 5)"
proof
  have "pad_loop 31 10 5 [] = [53]"
    by (subst pad_loop_unfold) (simp_all add: pad_loop_zero)
  then show "uart_out (uart_putpad 5 10 2 True False (boot_state kernel_map)) = bytes_of ''5''"
    by (simp add: uart_putpad_def uart_puts_out boot_state_def del: pad_loop.simps)
  have "\<not> False" by simp
  from uart_putpad_short [OF this, of 5 2 True "boot_state kernel_map"]
  show "\<exists>ds. uart_out (uart_putpad 5 10 2 True False (boot_state kernel_map)) =
      replicate (nat (1 - int (length ds))) (chr CHR ''0'') @ ds \<and> numeral_value 10 ds = 5"
    by (elim exE conjE) (intro exI conjI, simp add: boot_state_def algebra_simps, simp)
qed

end
