(* ===== verification/Sys_Memory.thy ===== *)
theory Sys_Memory
  imports Scheduler User_Mem Console
begin

text \<open>
  The system calls of \<^verbatim>\<open>kernel/syscall.c\<close> on memory and the console: \<^verbatim>\<open>sys_sbrk\<close>,
  \<^verbatim>\<open>sys_read\<close> and \<^verbatim>\<open>sys_write\<close>. User buffers are dereferenced with \<^verbatim>\<open>SUM\<close> set; a result is
  the word that ends up in register \<^verbatim>\<open>a0\<close> (a C \<^verbatim>\<open>int\<close> is sign-extended).
\<close>

section \<open>The code\<close>

definition PGROUNDUP :: "u64 \<Rightarrow> u64" where
  "PGROUNDUP x = (x + 4096 - 1) AND NOT (4096 - 1)"

text \<open>
  The loop of \<^verbatim>\<open>sys_sbrk\<close>; the result says whether the loop ran to its end (the failing
  \<^verbatim>\<open>alloc_pages\<close> ends it early). A step past the top of the address space is cut off as
  in \<open>for_pages\<close>.
\<close>

function sbrk_loop :: "linker_syms \<Rightarrow> u64 \<Rightarrow> u64 \<Rightarrow> u64 \<Rightarrow> kstate \<Rightarrow> (bool, kstate) kres" where
  "sbrk_loop L pt new_heap addr s =
     (if addr < new_heap then
        kbind (alloc_pages L 1 s) (\<lambda>pa s.
          if pa = 0 then kret False s
          else kbind (map_page L pt addr pa (PTE_U OR PTE_R OR PTE_W OR PTE_V) s) (\<lambda>_ s.
            if addr < addr + 4096 then sbrk_loop L pt new_heap (addr + 4096) s else Inl Spin))
      else kret True s)"
  by pat_completeness auto
termination
proof (relation "measure (\<lambda>(L, pt, new_heap, addr, s). 2 ^ 64 - unat addr)", goal_cases)
  case 1
  show ?case by simp
next
  case (2 L pt new_heap addr s pa s' u s'')
  then show ?case
    using unsigned_less [of addr, where ?'a = nat] by (simp add: word_less_nat_alt)
qed

declare sbrk_loop.simps [simp del]

text \<open>A \<^verbatim>\<open>NULL\<close> \<^verbatim>\<open>current_proc\<close> faults at its field \<^verbatim>\<open>heap_end\<close>, at offset 48.\<close>

definition sys_sbrk :: "linker_syms \<Rightarrow> u64 \<Rightarrow> kstate \<Rightarrow> (u64, kstate) kres" where
  "sys_sbrk L increment s =
     (case current_proc s of
        None \<Rightarrow> kpanic (Page_fault 48)
      | Some c \<Rightarrow>
          (let old_heap = p_heap_end (procs s ! c);
               new_heap = old_heap + increment;
               finish = (\<lambda>s. kret old_heap (upd_proc c (\<lambda>p. p\<lparr>p_heap_end := new_heap\<rparr>) s))
           in if 0 <s increment then
                kbind (sbrk_loop L (p_page_table (procs s ! c)) new_heap (PGROUNDUP old_heap) s)
                  (\<lambda>ok s. if ok then finish s else kret (- 1) s)
              else finish s))"

text \<open>
  The loop of \<^verbatim>\<open>sys_read\<close>, over what is still to be typed (the field \<open>uart_in\<close>): \<^verbatim>\<open>-1\<close>
  from \<^verbatim>\<open>uart_getc\<close> means that nothing has been typed yet, and the loop polls again. When
  nothing will ever be typed it polls for ever.
\<close>

primrec read_loop ::
  "linker_syms \<Rightarrow> u64 \<Rightarrow> u64 \<Rightarrow> int list \<Rightarrow> u64 \<Rightarrow> kstate \<Rightarrow> u64 fres" where
  "read_loop L buf len [] i s = (if i < len then Inl Spin else kret (Ret i) s)"
| "read_loop L buf len (c # cs) i s =
     (if i < len then
        (let s = s\<lparr>uart_in := cs\<rparr> in
         if c = - 1 then read_loop L buf len cs i s
         else fbind (flift (user_store (buf + i) (of_int c) s)) (\<lambda>_ s.
           if c = 10 then kret (Ret (i + 1)) s
           else fbind (yield L s) (\<lambda>_ s. read_loop L buf len cs (i + 1) s)))
      else kret (Ret i) s)"

definition sys_read :: "linker_syms \<Rightarrow> int \<Rightarrow> u64 \<Rightarrow> u64 \<Rightarrow> kstate \<Rightarrow> u64 fres" where
  "sys_read L fd buf len s =
     (let s = enable_sum s in
      if fd \<noteq> 0 \<or> buf = 0 \<or> len = 0 then kret (Ret (- 1)) s
      else fbind (read_loop L buf len (uart_in s) 0 s) (\<lambda>i s. kret (Ret i) (disable_sum s)))"

text \<open>The loop of \<^verbatim>\<open>sys_write\<close> with \<open>n\<close> bytes to go.\<close>

primrec write_loop :: "u64 \<Rightarrow> nat \<Rightarrow> kstate \<Rightarrow> (unit, kstate) kres" where
  "write_loop va 0 s = kret () s"
| "write_loop va (Suc n) s =
     kbind (user_load va s) (\<lambda>c s. write_loop (va + 1) n (uart_putc c s))"

definition sys_write :: "u64 \<Rightarrow> u64 \<Rightarrow> u64 \<Rightarrow> kstate \<Rightarrow> (u64, kstate) kres" where
  "sys_write fd user_buf len s =
     (if fd \<noteq> 1 then kret (- 1) s
      else kbind (write_loop user_buf (unat len) (enable_sum s)) (\<lambda>_ s.
        kret (scast (ucast len :: u32)) (disable_sum s)))"

section \<open>The new heap pages\<close>

lemma page_mask: "w AND NOT (4096 - 1) = page_base (w :: u64)"
proof -
  have m: "(4096 - 1 :: u64) = mask 12" by (simp add: mask_eq_exp_minus_1)
  have "w AND NOT (4096 - 1) = push_bit 12 (drop_bit 12 w)"
    unfolding m by (rule bit_word_eqI) (auto simp: bit_simps)
  also have "\<dots> = w - take_bit 12 w" using bits_ident [of 12 w] by (simp add: eq_diff_eq)
  finally show ?thesis by (simp add: page_base_def take_bit_eq_mod)
qed

lemma PGROUNDUP_props:
  assumes "unat x + 4095 < 2 ^ 64"
  shows "page_aligned (PGROUNDUP x)" and "unat x \<le> unat (PGROUNDUP x)"
    and "unat (PGROUNDUP x) < unat x + 4096"
proof -
  have b: "PGROUNDUP x = page_base (x + 4095)"
    unfolding PGROUNDUP_def page_mask by (simp add: add_diff_eq [symmetric])
  have u: "unat (x + 4095) = unat x + 4095" using assms by (subst unat_add_u64) simp_all
  show "page_aligned (PGROUNDUP x)" by (simp add: b)
  have "unat (PGROUNDUP x) = unat x + 4095 - (unat x + 4095) mod 4096"
    by (simp add: b unat_page_base u)
  moreover have "(unat x + 4095) mod 4096 < 4096" by simp
  ultimately show "unat x \<le> unat (PGROUNDUP x)" and "unat (PGROUNDUP x) < unat x + 4096"
    by linarith+
qed

definition pages_upto :: "nat \<Rightarrow> nat \<Rightarrow> nat" where
  "pages_upto a hi = (hi + 4095 - a) div 4096"

lemma sbrk_loop_total:
  assumes L: "layout_ok L" and hi: "hi \<le> unat (kernel_base L)" and new: "unat new_heap = hi"
    and A: "finite A" "\<forall>js \<in> A. index_path js" "space_paths (region lo hi 23 (\<lambda>_. None)) \<subseteq> A"
    and none: "\<forall>v. page_aligned v \<longrightarrow> lo \<le> unat v \<longrightarrow> unat v < hi \<longrightarrow> R v = None"
  shows "page_aligned a \<Longrightarrow> lo \<le> unat a \<Longrightarrow> unat a < hi + 4096 \<Longrightarrow>
    dspace L root s0 s (region lo (unat a) 23 R) (cleared lo (unat a) cb) \<Longrightarrow>
    missing A (mem s) root + pages_upto (unat a) hi \<le> avail L s \<Longrightarrow>
    \<exists>b s'. sbrk_loop L root new_heap a s = Inr (True, s') \<and> vm_grow L root s s' \<and>
      page_aligned b \<and> hi \<le> unat b \<and> unat b < hi + 4096 \<and>
      dspace L root s0 s' (region lo (unat b) 23 R) (cleared lo (unat b) cb)"
proof (induction "hi + 4096 - unat a" arbitrary: a s rule: less_induct)
  case less
  have kb: "unat (kernel_base L) \<le> 0x4000000000"
    using L by (auto simp: layout_ok_def word_le_nat_alt word_less_nat_alt)
  show ?case
  proof (cases "unat a < hi")
    case False
    then have "\<not> a < new_heap" by (simp add: word_less_nat_alt new)
    then have "sbrk_loop L root new_heap a s = Inr (True, s)" by (simp add: sbrk_loop.simps)
    then show ?thesis using less.prems False by (intro exI [of _ a] exI [of _ s]) simp
  next
    case True
    have small: "a < 0x8000000000" using True hi kb by (simp add: word_less_nat_alt)
    have u4: "unat (a + 4096) = unat a + 4096" using True hi kb by (subst unat_add_u64) simp_all
    have "region lo hi 23 (\<lambda>_. None) a = Some 23" using less.prems(1,2) True by (simp add: region_def)
    then have p: "[PX 2 a] \<in> A" "va_path a \<in> A" using space_pathsI A(3) by blast+
    let ?k = "pages_upto (unat (a + 4096)) hi"
    have cnt: "pages_upto (unat a) hi = Suc ?k"
    proof -
      have "hi + 4095 - unat a = (hi + 4095 - (unat a + 4096)) + 4096 \<or> hi + 4095 < unat a + 4096" by linarith
      then show ?thesis
      proof
        assume "hi + 4095 - unat a = (hi + 4095 - (unat a + 4096)) + 4096"
        then show ?thesis by (simp add: pages_upto_def u4)
      next
        assume "hi + 4095 < unat a + 4096"
        then have "hi + 4095 - unat a = 4095 \<or> hi + 4095 - unat a < 4096" "hi + 4095 - (unat a + 4096) = 0" by auto
        then show ?thesis using True by (simp add: pages_upto_def u4)
      qed
    qed
    have room: "missing A (mem s) root + Suc ?k \<le> avail L s" using less.prems(5) cnt by simp
    have ok: "vm_ok L root s" using less.prems(4) by (simp add: dspace_def)
    have zero: "mem s1 (p + (v AND 0xFFF)) = 0" if "alloc_pages L 1 s = Inr (p, s1)" for p s1 v
    proof -
      note al = alloc_one_spec [OF vm_okD(1) [OF ok] that]
      show ?thesis using al(6) page_offset [OF al(4), of v] in_page_iff [OF al(4)] by (simp add: memset_apply)
    qed
    have "\<exists>p s1 s'. alloc_pages L 1 s = Inr (p, s1) \<and>
        map_page L root a p 23 (s1\<lparr>mem := (\<lambda>p m. m) p (mem s1)\<rparr>) = Inr ((), s') \<and>
        dspace L root s0 s' ((region lo (unat a) 23 R)(a \<mapsto> 23))
          (\<lambda>v. if page_base v = a then 0 else cleared lo (unat a) cb v) \<and>
        vm_grow L root s s' \<and> missing A (mem s') root + ?k \<le> avail L s' \<and> upage (mem s') root a = p"
      by (rule dspace_fresh [OF less.prems(4) A(1,2) room less.prems(1) small p]) (simp_all add: zero)
    then obtain p s1 s' where 1: "alloc_pages L 1 s = Inr (p, s1)" "map_page L root a p 23 s1 = Inr ((), s')"
      and 2: "dspace L root s0 s' ((region lo (unat a) 23 R)(a \<mapsto> 23))
          (\<lambda>v. if page_base v = a then 0 else cleared lo (unat a) cb v)"
      and 3: "vm_grow L root s s'" "missing A (mem s') root + ?k \<le> avail L s'" by auto
    have p0: "p \<noteq> 0"
      using alloc_one_spec(1,3) [OF vm_okD(1) [OF ok] 1(1)] owned_props(2) [of L s1 p] by blast
    have fl: "(PTE_U OR PTE_R OR PTE_W OR PTE_V) = 23" by simp
    have step: "sbrk_loop L root new_heap a s = sbrk_loop L root new_heap (a + 4096) s'"
      using True new 1 p0 u4 by (subst sbrk_loop.simps) (simp add: fl word_less_nat_alt)
    have R': "(region lo (unat a) 23 R)(a \<mapsto> 23) = region lo (unat (a + 4096)) 23 R"
      using region_next [OF less.prems(1) refl less.prems(2), of 23 R] by (simp add: u4)
    have "\<exists>b s''. sbrk_loop L root new_heap (a + 4096) s' = Inr (True, s'') \<and> vm_grow L root s' s'' \<and>
        page_aligned b \<and> hi \<le> unat b \<and> unat b < hi + 4096 \<and>
        dspace L root s0 s'' (region lo (unat b) 23 R) (cleared lo (unat b) cb)"
    proof (rule less.hyps)
      show "page_aligned (a + 4096)" using less.prems(1) u4
        by (simp add: page_aligned_unat mod_add_eq [symmetric])
      show "dspace L root s0 s' (region lo (unat (a + 4096)) 23 R) (cleared lo (unat (a + 4096)) cb)"
        using 2 R' cleared_next [OF less.prems(1,2) u4] by simp
    qed (use True u4 less.prems(2) 3 in simp_all)
    then show ?thesis using step vm_grow_trans [OF 3(1)] by auto
  qed
qed

lemma dspace_frame:
  assumes "mem s' = mem s" and "pool_view s' = pool_view s"
  shows "dspace L root s0 s' R cb = dspace L root s0 s R cb"
  using assms(1) pool_frame [OF assms(2), of L]
  by (simp add: dspace_def vm_ok_def space_is_def mapped_as_def cong: option.case_cong)

section \<open>Properties\<close>

text \<open>
  C18: \<^verbatim>\<open>sys_sbrk\<close> by a positive increment, when the new end stays below the kernel, no page
  of the new range is mapped and the pool has enough pages, returns the old heap end, moves
  the heap end and maps every page from the old end, rounded up, to the new one: a fresh
  private page each, readable and writable by the user, that reads as zero. Every other
  mapping of the process and every byte it sees stays.
\<close>

theorem sys_sbrk_grows:
  assumes "current_proc s = Some c" and "c < length (procs s)"
    and "dspace L (p_page_table (procs s ! c)) s0 s R cb"
    and "0 <s inc" and "hi = unat (p_heap_end (procs s ! c)) + unat inc"
    and "hi \<le> unat (kernel_base L)" and "lo = unat (PGROUNDUP (p_heap_end (procs s ! c)))"
    and "\<forall>v. page_aligned v \<longrightarrow> lo \<le> unat v \<longrightarrow> unat v < hi \<longrightarrow> R v = None"
    and "card (space_paths (region lo hi 23 (\<lambda>_. None))) + pages_upto lo hi \<le> avail L s"
  shows "\<exists>s' top. sys_sbrk L inc s = kret (p_heap_end (procs s ! c)) s' \<and>
    procs s' = (procs s)[c := (procs s ! c)\<lparr>p_heap_end := p_heap_end (procs s ! c) + inc\<rparr>] \<and>
    top mod 4096 = 0 \<and> hi \<le> top \<and> top < hi + 4096 \<and>
    dspace L (p_page_table (procs s ! c)) s0 s' (region lo top 23 R) (cleared lo top cb)"
proof -
  let ?old = "p_heap_end (procs s ! c)" and ?root = "p_page_table (procs s ! c)"
  have L: "layout_ok L" using assms(3) by (auto simp: dspace_def vm_ok_def pool_ok_def pool_inv_def)
  have kb: "unat (kernel_base L) \<le> 0x4000000000"
    using L by (auto simp: layout_ok_def word_le_nat_alt word_less_nat_alt)
  have "unat ?old + 4095 < 2 ^ 64" using assms(5,6) kb by simp
  note up = PGROUNDUP_props [OF this]
  have new: "unat (?old + inc) = hi" using assms(5,6) kb by (subst unat_add_u64) simp_all
  let ?A = "space_paths (region lo hi 23 (\<lambda>_. None))"
  have R0: "region lo lo 23 R = R" "cleared lo lo cb = cb" by (auto simp: cleared_def fun_eq_iff)
  have room: "missing ?A (mem s) ?root + pages_upto lo hi \<le> avail L s"
  proof -
    have "missing ?A (mem s) ?root \<le> card ?A"
      unfolding missing_def by (rule card_mono) auto
    with assms(9) show ?thesis by simp
  qed
  have first: "unat (PGROUNDUP ?old) < hi + 4096" using up(3) assms(5) by simp
  have start: "dspace L ?root s0 s (region lo (unat (PGROUNDUP ?old)) 23 R) (cleared lo (unat (PGROUNDUP ?old)) cb)"
    using R0 assms(3) unfolding assms(7) by simp
  have room2: "missing ?A (mem s) ?root + pages_upto (unat (PGROUNDUP ?old)) hi \<le> avail L s"
    using room unfolding assms(7) .
  note loop = sbrk_loop_total [OF L assms(6) new finite_space_paths space_paths_index order_refl assms(8)
      up(1) eq_refl [OF assms(7)] first start room2]
  obtain b s1 where run: "sbrk_loop L ?root (?old + inc) (PGROUNDUP ?old) s = Inr (True, s1)"
    and g: "vm_grow L ?root s s1" and b: "page_aligned b" "hi \<le> unat b" "unat b < hi + 4096"
    and ds: "dspace L ?root s0 s1 (region lo (unat b) 23 R) (cleared lo (unat b) cb)"
    using loop by blast
  let ?s = "upd_proc c (\<lambda>p. p\<lparr>p_heap_end := ?old + inc\<rparr>) s1"
  have "sys_sbrk L inc s = kret ?old ?s"
    unfolding sys_sbrk_def Let_def assms(1) option.case if_P [OF assms(4)] run by simp
  moreover have "procs s1 = procs s"
    by (rule proc_viewD(1)) (use g in \<open>simp add: vm_grow_def\<close>)
  moreover have "dspace L ?root s0 ?s (region lo (unat b) 23 R) (cleared lo (unat b) cb)"
    using ds by (subst dspace_frame) simp_all
  ultimately show ?thesis
    using b by (intro exI [of _ ?s] exI [of _ "unat b"]) (simp add: page_aligned_unat)
qed

text \<open>A process with an empty address space, for the witness.\<close>

lemma one_process:
  obtains r s where "current_proc s = Some 0" and "length (procs s) = PROCS_MAX"
    and "p_page_table (procs s ! 0) = r" and "p_heap_end (procs s ! 0) = 0x3001000"
    and "dspace kernel_map r s s (\<lambda>_. None) (\<lambda>_. 0)" and "avail kernel_map s = 16383"
proof (rule boot_root)
  fix r s
  assume s: "alloc_pages kernel_map 1 (boot_state kernel_map) = Inr (r, s)" "vm_ok kernel_map r s"
    "avail kernel_map s = 16383" "\<And>va. pt_leaf (mem s) r va = 0"
  let ?s = "s\<lparr>current_proc := Some 0,
    procs := replicate PROCS_MAX (zero_proc\<lparr>p_page_table := r, p_heap_end := 0x3001000\<rparr>)\<rparr>"
  have f: "pool_view ?s = pool_view s" "mem ?s = mem s" by (simp_all add: pool_view_def)
  have "dspace kernel_map r s s (\<lambda>_. None) (\<lambda>_. 0)"
    using s(2,4) by (simp add: dspace_def space_is_def mapped_as_def user_flags_def)
  then have "dspace kernel_map r ?s ?s (\<lambda>_. None) (\<lambda>_. 0)"
    using pool_frame [OF f(1), of kernel_map] f(2)
    by (simp add: dspace_def vm_ok_def space_is_def mapped_as_def user_flags_def)
  then show thesis
    using pool_frame [OF f(1), of kernel_map] s(3) by (intro that [of ?s r]) (simp_all add: PROCS_MAX_def)
qed

theorem sys_sbrk_grows_witness:
  "\<exists>s s'. sys_sbrk kernel_map 100 s = kret 0x3001000 s' \<and>
     p_heap_end (procs s' ! 0) = 0x3001064 \<and>
     pt_leaf (mem s') (p_page_table (procs s ! 0)) 0x3001000 AND PTE_U \<noteq> 0"
proof (rule one_process)
  fix r s
  assume s: "current_proc s = Some 0" "length (procs s) = PROCS_MAX" "p_page_table (procs s ! 0) = r"
    "p_heap_end (procs s ! 0) = 0x3001000" "dspace kernel_map r s s (\<lambda>_. None) (\<lambda>_. 0)"
    "avail kernel_map s = 16383"
  have len: "0 < length (procs s)" by (simp add: s(2) PROCS_MAX_def)
  have up: "PGROUNDUP 0x3001000 = 0x3001000" by (simp add: PGROUNDUP_def)
  have inc: "0 <s (100 :: u64)" by (simp add: word_sless_alt)
  have hi: "50335844 = unat (p_heap_end (procs s ! 0)) + unat (100 :: u64)" by (simp add: s(4))
  have kb: "50335844 \<le> unat (kernel_base kernel_map)" by (simp add: kernel_map_def)
  have lo: "50335744 = unat (PGROUNDUP (p_heap_end (procs s ! 0)))" by (simp add: s(4) up)
  let ?R = "region 50335744 50335844 23 (\<lambda>_. None)"
  have only: "v = 0x3001000" if "?R v \<noteq> None" for v
  proof -
    have v: "page_aligned v" "50335744 \<le> unat v" "unat v < 50335844"
      using that by (auto simp: region_def split: if_splits)
    have "\<not> unat (0x3001000 :: u64) < unat v"
    proof
      assume "unat (0x3001000 :: u64) < unat v"
      then have "unat (0x3001000 :: u64) + 4096 \<le> unat v"
        using v(1) by (intro aligned_step) (simp_all add: page_aligned_unat)
      then show False using v(3) by simp
    qed
    then show ?thesis using v(2) by (simp add: word_unat_eq_iff)
  qed
  have "space_paths ?R \<subseteq> {[PX 2 0x3001000], va_path 0x3001000}"
    using only by (force simp: space_paths_def)
  then have "card (space_paths ?R) \<le> card {[PX 2 0x3001000], va_path (0x3001000 :: u64)}"
    by (intro card_mono) auto
  also have "\<dots> \<le> 2" by (simp add: card_insert_if)
  finally have room: "card (space_paths ?R) + pages_upto 50335744 50335844 \<le> avail kernel_map s"
    by (simp add: s(6) pages_upto_def)
  have none: "\<forall>v. page_aligned v \<longrightarrow> 50335744 \<le> unat v \<longrightarrow> unat v < 50335844 \<longrightarrow>
      (\<lambda>_ :: u64. None :: u64 option) v = None" by simp
  from sys_sbrk_grows [OF s(1) len, of kernel_map s "\<lambda>_. None" "\<lambda>_. 0", unfolded s(3),
      OF s(5) inc hi kb lo none room]
  show ?thesis
  proof (elim exE conjE)
    fix s' top
    assume r: "sys_sbrk kernel_map 100 s = kret (p_heap_end (procs s ! 0)) s'"
      "procs s' = (procs s)[0 := (procs s ! 0)\<lparr>p_heap_end := p_heap_end (procs s ! 0) + 100\<rparr>]"
      "50335844 \<le> top"
      and ds: "dspace kernel_map r s s' (region 50335744 top 23 (\<lambda>_. None))
        (cleared 50335744 top (\<lambda>_. 0))"
    have "region 50335744 top 23 (\<lambda>_. None) (page_base 0x3001000) = Some 23"
      using r(3) by (simp add: region_def page_aligned_def)
    then have "mapped_as kernel_map r s s' (cleared 50335744 top (\<lambda>_. 0)) (Some 23) 0x3001000"
      using ds [unfolded dspace_def space_is_def, THEN conjunct2, THEN conjunct2, THEN conjunct1,
          THEN spec, of "0x3001000"] by simp
    then have "pt_leaf (mem s') r 0x3001000 = PA2PTE (upage (mem s') r 0x3001000) OR 23 OR PTE_V"
      by (simp add: mapped_as_def)
    then have "pt_leaf (mem s') r 0x3001000 AND PTE_U \<noteq> 0"
      using rwx_set [of 23 PTE_U] by (simp add: or.assoc)
    then show ?thesis using r(1,2) len s(3,4) by (intro exI [of _ s] exI [of _ s']) simp
  qed
qed

end
