(* ===== verification/Sys_Ipc.thy ===== *)
theory Sys_Ipc
  imports User_Mem Proc_Create
begin

text \<open>
  Messages between processes: \<^verbatim>\<open>sys_ipc_send\<close> and \<^verbatim>\<open>sys_ipc_recv\<close> of
  \<^verbatim>\<open>kernel/syscall.c\<close>. Every PCB has an inbox for one message. A destination pid is looked
  up by \<^verbatim>\<open>get_proc_by_pid\<close>, so pid \<open>p\<close> is slot \<open>p - 1\<close>. The log lines and the preview of
  the message they print are not modelled.
\<close>

section \<open>The code\<close>

definition MAX_MSG_SIZE :: u64 where
  "MAX_MSG_SIZE = 256"

definition set_inbox :: "nat \<Rightarrow> (ipc_message_t \<Rightarrow> ipc_message_t) \<Rightarrow> kstate \<Rightarrow> kstate" where
  "set_inbox i f s = upd_proc i (\<lambda>p. p\<lparr>p_inbox := f (p_inbox p)\<rparr>) s"

definition sys_ipc_send :: "int \<Rightarrow> u64 \<Rightarrow> u64 \<Rightarrow> kstate \<Rightarrow> (int, kstate) kres" where
  "sys_ipc_send dest_pid buf sz s =
     (if dest_pid < 0 \<or> int PROCS_MAX \<le> dest_pid then kret (- 1) s
      else
        (case get_proc_by_pid dest_pid of
           None \<Rightarrow> kpanic (Ipc_bad_dest dest_pid)
         | Some dest \<Rightarrow>
             if MAX_MSG_SIZE < sz then kret (- 2) s
             else if im_pending (p_inbox (procs s ! dest)) then kret (- 2) s
             else
               kbind (user_read buf (unat sz) (enable_sum s)) (\<lambda>bs s.
                 (let s = set_inbox dest (\<lambda>b. b\<lparr>im_data := bs @ drop (length bs) (im_data b)\<rparr>) s;
                      s = disable_sum s;
                      s = set_inbox dest (\<lambda>b. b\<lparr>im_size := sz\<rparr>) s
                  in case current_proc s of
                       None \<Rightarrow> kpanic (Page_fault 0)
                     | Some c \<Rightarrow>
                         kret 0 (set_inbox dest (\<lambda>b. b\<lparr>im_sender := p_pid (procs s ! c),
                           im_pending := True\<rparr>) s)))))"

text \<open>A \<^verbatim>\<open>NULL\<close> \<^verbatim>\<open>current_proc\<close> faults at its inbox's \<^verbatim>\<open>pending\<close>, at offset 8556.\<close>

definition sys_ipc_recv :: "u64 \<Rightarrow> u64 \<Rightarrow> u64 \<Rightarrow> kstate \<Rightarrow> (int, kstate) kres" where
  "sys_ipc_recv buf max_size sender_pid s =
     (case current_proc s of
        None \<Rightarrow> kpanic (Page_fault 8556)
      | Some c \<Rightarrow>
          (let msg = p_inbox (procs s ! c) in
           if \<not> im_pending msg then kret (- 1) s
           else
             (let copy_size = (if max_size < im_size msg then max_size else im_size msg) in
              kbind (user_write buf (take (unat copy_size) (im_data msg)) (enable_sum s)) (\<lambda>_ s.
              kbind (if sender_pid \<noteq> 0
                     then user_write sender_pid (word_bytes 4 (of_int (im_sender msg))) s
                     else kret () s) (\<lambda>_ s.
                (let s = set_inbox c (\<lambda>b. b\<lparr>im_pending := False\<rparr>) (disable_sum s) in
                 kret (if copy_size = 1 then - 1 else sint (ucast copy_size :: u32)) s))))))"

section \<open>What they do\<close>

lemma set_inbox_simps [simp]:
  "mem (set_inbox i f s) = mem s" "current_proc (set_inbox i f s) = current_proc s"
  "csr_satp (set_inbox i f s) = csr_satp s"
  "csr_sstatus (set_inbox i f s) = csr_sstatus s"
  "procs (set_inbox i f s) = (procs s)[i := (procs s ! i)\<lparr>p_inbox := f (p_inbox (procs s ! i))\<rparr>]"
  by (simp_all add: set_inbox_def upd_proc_def)

lemma sint_ucast_small:
  fixes x :: u64
  assumes "unat x \<le> 256"
  shows "sint (ucast x :: u32) = int (unat x)"
proof -
  have "unat (ucast x :: u32) = unat x"
    using assms by (simp add: unsigned_ucast_eq take_bit_nat_eq_self_iff)
  then have u: "uint (ucast x :: u32) = int (unat x)" unfolding uint_nat by simp
  have n: "signed_take_bit (LENGTH(32) - Suc 0) (int n) = int n" if "n \<le> 256" for n
    by (rule signed_take_bit_int_eq_self) (use that in simp_all)
  show ?thesis unfolding sint_uint u by (rule n [OF assms])
qed

lemma sys_ipc_send_delivers:
  assumes "get_proc_by_pid d = Some j" and "d < int PROCS_MAX" and "j < length (procs s)"
    and "\<not> im_pending (p_inbox (procs s ! j))" and "unat sz \<le> 256" and "current_proc s = Some c"
    and "user_buffer Load (enable_sum s) buf (unat sz) f"
  shows "\<exists>s'. sys_ipc_send d buf sz s = kret 0 s' \<and> mem s' = mem s \<and>
    procs s' = (procs s)[j := (procs s ! j)\<lparr>p_inbox :=
      \<lparr>im_data = map (\<lambda>i. mem s (f i)) [0..<unat sz] @ drop (unat sz) (im_data (p_inbox (procs s ! j))),
       im_size = sz, im_sender = p_pid (procs s ! c), im_pending = True\<rparr>\<rparr>]"
proof -
  have d: "\<not> (d < 0 \<or> int PROCS_MAX \<le> d)"
    using assms(1,2) by (auto simp: get_proc_by_pid_def split: if_splits)
  have sz: "\<not> MAX_MSG_SIZE < sz" using assms(5) by (simp add: MAX_MSG_SIZE_def word_less_nat_alt)
  have pid: "p_pid ((procs s)[j := (procs s ! j)\<lparr>p_inbox := x\<rparr>] ! c) = p_pid (procs s ! c)" for x
    by (cases "c = j") (use assms(3) in simp_all)
  show ?thesis
    unfolding sys_ipc_send_def if_not_P [OF d] assms(1) option.case if_not_P [OF sz] if_not_P [OF assms(4)]
      user_read_buffer [OF assms(7)]
    using assms(3,6) pid
    by (cases "p_inbox (procs s ! j)") (simp add: Let_def disable_sum_def)
qed

lemma sys_ipc_recv_takes:
  assumes "current_proc t = Some j" and "j < length (procs t)"
    and "p_inbox (procs t ! j) = \<lparr>im_data = bs, im_size = sz, im_sender = from, im_pending = True\<rparr>"
    and "k = min (unat sz) (unat max_size)" and "k \<le> length bs" and "k \<le> 256"
    and "user_buffer Store (enable_sum t) buf k g"
  shows "\<exists>t'. sys_ipc_recv buf max_size 0 t = kret (if k = 1 then - 1 else int k) t' \<and>
    current_proc t' = Some j \<and> mem t' = put_bytes g (take k bs) (mem t) \<and>
    procs t' = (procs t)[j := (procs t ! j)\<lparr>p_inbox :=
      \<lparr>im_data = bs, im_size = sz, im_sender = from, im_pending = False\<rparr>\<rparr>]"
proof -
  let ?cs = "if max_size < sz then max_size else sz"
  have cs: "unat ?cs = k" using assms(4) by (auto simp: word_less_nat_alt)
  have one: "?cs = 1 \<longleftrightarrow> k = 1" unfolding word_unat_eq_iff cs by simp
  have int: "sint (ucast ?cs :: u32) = int k"
    using sint_ucast_small [of ?cs] cs assms(6) by simp
  have "length (take k bs) = k" using assms(5) by simp
  then have w: "user_write buf (take k bs) (enable_sum t) =
      kret () (enable_sum t\<lparr>mem := put_bytes g (take k bs) (mem (enable_sum t))\<rparr>)"
    using user_write_buffer [of "enable_sum t" buf "take k bs" g] assms(7) by simp
  show ?thesis
    unfolding sys_ipc_recv_def assms(1) option.case Let_def assms(3)
    using w cs one int assms(1-3) by (simp add: disable_sum_def cong: if_cong)
qed

section \<open>Properties\<close>

text \<open>
  C23: a message of \<open>n \<le> 256\<close> bytes sent to a process with an empty inbox is what the
  process receives: the send returns 0 and fills the inbox, and in any later state in which
  the receiver runs with that inbox, the receive writes the first \<open>min n max_size\<close> bytes of
  the sender's buffer to the receiver's, empties the inbox and returns their number, except
  that a message of one byte is reported as \<open>-1\<close>.
\<close>

theorem ipc_roundtrip:
  assumes "get_proc_by_pid d = Some j" and "d < int PROCS_MAX" and "j < length (procs s)"
    and "\<not> im_pending (p_inbox (procs s ! j))" and "unat sz \<le> 256" and "current_proc s = Some c"
    and "user_buffer Load (enable_sum s) buf (unat sz) f"
  shows "\<exists>s'. sys_ipc_send d buf sz s = kret 0 s' \<and> im_pending (p_inbox (procs s' ! j)) \<and>
    (\<forall>t rbuf max_size g k.
       current_proc t = Some j \<and> j < length (procs t) \<and>
       p_inbox (procs t ! j) = p_inbox (procs s' ! j) \<and>
       k = min (unat sz) (unat max_size) \<and> user_buffer Store (enable_sum t) rbuf k g \<longrightarrow>
       (\<exists>t'. sys_ipc_recv rbuf max_size 0 t = kret (if k = 1 then - 1 else int k) t' \<and>
          (\<forall>i < k. mem t' (g i) = mem s (f i)) \<and>
          (\<forall>x. x \<notin> g ` {..<k} \<longrightarrow> mem t' x = mem t x) \<and>
          \<not> im_pending (p_inbox (procs t' ! j))))"
proof -
  obtain s' where run: "sys_ipc_send d buf sz s = kret 0 s'"
    and p: "procs s' = (procs s)[j := (procs s ! j)\<lparr>p_inbox :=
      \<lparr>im_data = map (\<lambda>i. mem s (f i)) [0..<unat sz] @ drop (unat sz) (im_data (p_inbox (procs s ! j))),
       im_size = sz, im_sender = p_pid (procs s ! c), im_pending = True\<rparr>\<rparr>]"
    using sys_ipc_send_delivers [OF assms] by blast
  let ?bs = "map (\<lambda>i. mem s (f i)) [0..<unat sz] @ drop (unat sz) (im_data (p_inbox (procs s ! j)))"
  have box: "p_inbox (procs s' ! j) =
      \<lparr>im_data = ?bs, im_size = sz, im_sender = p_pid (procs s ! c), im_pending = True\<rparr>"
    using p assms(3) by simp
  have "\<exists>t'. sys_ipc_recv rbuf max_size 0 t = kret (if k = 1 then - 1 else int k) t' \<and>
      (\<forall>i < k. mem t' (g i) = mem s (f i)) \<and> (\<forall>x. x \<notin> g ` {..<k} \<longrightarrow> mem t' x = mem t x) \<and>
      \<not> im_pending (p_inbox (procs t' ! j))"
    if t: "current_proc t = Some j" "j < length (procs t)" "p_inbox (procs t ! j) = p_inbox (procs s' ! j)"
      "k = min (unat sz) (unat max_size)" "user_buffer Store (enable_sum t) rbuf k g"
    for t rbuf max_size g k
  proof -
    have k: "k \<le> length ?bs" "k \<le> 256" using t(4) assms(5) by simp_all
    obtain t' where r: "sys_ipc_recv rbuf max_size 0 t = kret (if k = 1 then - 1 else int k) t'"
      "mem t' = put_bytes g (take k ?bs) (mem t)"
      "procs t' = (procs t)[j := (procs t ! j)\<lparr>p_inbox := \<lparr>im_data = ?bs, im_size = sz,
         im_sender = p_pid (procs s ! c), im_pending = False\<rparr>\<rparr>]"
      using sys_ipc_recv_takes [OF t(1,2) t(3) [unfolded box] t(4) k t(5)] by blast
    have len: "length (take k ?bs) = k" using k(1) by (simp only: length_take min_absorb2)
    have inj: "inj_on g {..<length (take k ?bs)}" using t(5) len by (simp only: user_buffer_def)
    note pb = put_bytes_apply [OF inj, unfolded len]
    have "mem t' (g i) = mem s (f i)" if "i < k" for i
      using pb(1) [OF that, of "mem t"] that t(4) unfolding r(2) by (simp add: nth_append)
    then show ?thesis using r(1,3) pb(2) [of _ "mem t"] t(2) unfolding r(2)
      by (intro exI [of _ t']) (simp add: r(2) pb(2))
  qed
  then show ?thesis using run box by (intro exI [of _ s']) simp
qed

definition two_procs :: kstate where
  "two_procs = (boot_state kernel_map)\<lparr>current_proc := Some 0,
     procs := [zero_proc\<lparr>p_pid := 1, p_state := PROC_RUNNING\<rparr>,
       zero_proc\<lparr>p_pid := 2, p_state := PROC_RUNNABLE\<rparr>]\<rparr>"

lemma bare_buffer:
  assumes "csr_satp s = 0" and "n \<le> 4096"
  shows "user_buffer acc s va n (\<lambda>i. va + of_nat i)"
proof -
  have "inj_on (\<lambda>i. va + of_nat i :: u64) {..<n}"
  proof (rule inj_onI)
    fix i k assume "i \<in> {..<n}" "k \<in> {..<n}" "va + of_nat i = va + of_nat k"
    then have "(of_nat i :: u64) = of_nat k" and "i < 2 ^ 64" and "k < 2 ^ 64" using assms(2) by simp_all
    then show "i = k" by (simp add: of_nat_inverse word_unat_eq_iff unat_of_nat take_bit_nat_eq_self_iff)
  qed
  then show ?thesis using assms(1) by (simp add: user_buffer_def translate_def va_tables_def)
qed

theorem ipc_roundtrip_witness:
  "\<exists>s' t t'. sys_ipc_send 2 0x1000 3 two_procs = kret 0 s' \<and>
     p_inbox (procs t ! 1) = p_inbox (procs s' ! 1) \<and>
     sys_ipc_recv 0x2000 256 0 t = kret 3 t' \<and> mem t' 0x2002 = mem two_procs 0x1002"
proof -
  have pre: "get_proc_by_pid 2 = Some 1" "2 < int PROCS_MAX" "1 < length (procs two_procs)"
    "\<not> im_pending (p_inbox (procs two_procs ! 1))" "unat (3 :: u64) \<le> 256" "current_proc two_procs = Some 0"
    "user_buffer Load (enable_sum two_procs) 0x1000 (unat (3 :: u64)) (\<lambda>i. 0x1000 + of_nat i)"
    by (simp_all add: get_proc_by_pid_def PROCS_MAX_def two_procs_def zero_proc_def no_message_def)
      (rule bare_buffer, simp_all add: enable_sum_def boot_state_def)
  obtain s' where s': "sys_ipc_send 2 0x1000 3 two_procs = kret 0 s'"
    and r: "\<forall>t rbuf max_size g k.
       current_proc t = Some 1 \<and> 1 < length (procs t) \<and> p_inbox (procs t ! 1) = p_inbox (procs s' ! 1) \<and>
       k = min (unat (3 :: u64)) (unat max_size) \<and> user_buffer Store (enable_sum t) rbuf k g \<longrightarrow>
       (\<exists>t'. sys_ipc_recv rbuf max_size 0 t = kret (if k = 1 then - 1 else int k) t' \<and>
          (\<forall>i < k. mem t' (g i) = mem two_procs (0x1000 + of_nat i)) \<and>
          (\<forall>x. x \<notin> g ` {..<k} \<longrightarrow> mem t' x = mem t x) \<and> \<not> im_pending (p_inbox (procs t' ! 1)))"
    using ipc_roundtrip [OF pre] by blast
  let ?t = "two_procs\<lparr>current_proc := Some 1, procs := [zero_proc, zero_proc\<lparr>p_inbox := p_inbox (procs s' ! 1)\<rparr>]\<rparr>"
  have "user_buffer Store (enable_sum ?t) 0x2000 3 (\<lambda>i. 0x2000 + of_nat i)"
    by (rule bare_buffer) (simp_all add: enable_sum_def two_procs_def boot_state_def)
  then obtain t' where "sys_ipc_recv 0x2000 256 0 ?t = kret 3 t'"
    and "\<forall>i < 3. mem t' (0x2000 + of_nat i) = mem two_procs (0x1000 + of_nat i)"
    using r [THEN spec [where x = ?t], THEN spec [where x = "0x2000"], THEN spec [where x = 256],
      THEN spec [where x = "\<lambda>i. 0x2000 + of_nat i"], THEN spec [where x = 3]] by auto
  moreover from this(2) have "mem t' 0x2002 = mem two_procs 0x1002"
    by (auto dest: spec [where x = 2])
  ultimately show ?thesis using s' by (intro exI [of _ s'] exI [of _ ?t] exI [of _ t']) simp
qed

end
