(* ===== verification/Sys_Fork.thy ===== *)
theory Sys_Fork
  imports Scheduler
begin

text \<open>
  \<^verbatim>\<open>sys_fork\<close> of \<^verbatim>\<open>kernel/syscall.c\<close>: a new PCB with a copy of the trap frame and of every
  mapped user page of the calling process. The log lines are not modelled.
\<close>

section \<open>The code\<close>

text \<open>The body of the loop over the user pages of the parent.\<close>

definition fork_page :: "linker_syms \<Rightarrow> u64 \<Rightarrow> u64 \<Rightarrow> u64 \<Rightarrow> kstate \<Rightarrow> (unit, kstate) kres" where
  "fork_page L parent_pt new_pt va s =
     (let pa_parent = walk_page (mem s) parent_pt va in
      if pa_parent = 0 then kret () s
      else kbind (alloc_pages L 1 s) (\<lambda>pa_child s.
        (let s = s\<lparr>mem := memcpy (mem s) pa_child pa_parent 4096\<rparr> in
         map_page L new_pt va pa_child (PTE_V OR PTE_U OR PTE_R OR PTE_W OR PTE_X) s)))"

text \<open>The trap frame of the child and the return value of the parent.\<close>

definition fork_frames :: "u64 \<Rightarrow> u64 \<Rightarrow> int \<Rightarrow> kstate \<Rightarrow> kstate" where
  "fork_frames tf ptf pid s =
     (let s = s\<lparr>mem := memcpy (mem s) tf ptf 256\<rparr>;
          s = tf_set tf TF_A0 0 s;
          s = tf_set ptf TF_A0 (of_int pid) s;
          s = tf_set tf TF_SP (tf_get s ptf TF_SP) s
      in tf_set tf TF_EPC (tf_get s ptf TF_EPC + 4) s)"

text \<open>The fields of the PCB that are set last.\<close>

definition fork_pcb :: "nat \<Rightarrow> proc_t \<Rightarrow> proc_t \<Rightarrow> proc_t" where
  "fork_pcb c parent p =
     p\<lparr>p_state := PROC_RUNNABLE, p_heap_end := p_heap_end parent,
       p_user_stack_top := p_user_stack_top parent, p_entry_point := p_entry_point parent,
       p_parent := Some c, p_parent_pid := p_pid parent,
       p_name := buf_copy 64 (takeWhile (\<lambda>b. b \<noteq> 0) (p_name parent))\<rparr>"

text \<open>A \<^verbatim>\<open>NULL\<close> \<^verbatim>\<open>current_proc\<close> faults at the read of its field \<^verbatim>\<open>tf\<close>, at offset 72.\<close>

definition sys_fork :: "linker_syms \<Rightarrow> kstate \<Rightarrow> (int, kstate) kres" where
  "sys_fork L s =
     (case alloc_free_proc L s of
        (None, s) \<Rightarrow> kret (- 1) s
      | (Some i, s) \<Rightarrow>
          (let s = s\<lparr>process_count := process_count s + 1\<rparr> in
           kbind (alloc_pages L 1 s) (\<lambda>tf s.
             (let s = upd_proc i (\<lambda>p. p\<lparr>p_tf := tf\<rparr>) s in
              if tf = 0 then kret (- 1) s
              else
                (case current_proc s of
                   None \<Rightarrow> kpanic (Page_fault 72)
                 | Some c \<Rightarrow>
                     (let s = fork_frames tf (p_tf (procs s ! c)) (p_pid (procs s ! i)) s in
                      kbind (alloc_pages L 1 s) (\<lambda>new_pt s.
                        (let s = upd_proc i (\<lambda>p. p\<lparr>p_page_table := new_pt\<rparr>) s in
                         kbind (map_kernel L new_pt s) (\<lambda>_ s.
                           (let parent = procs s ! c;
                                end_va = (if p_user_stack_top parent < p_heap_end parent
                                          then p_heap_end parent else p_user_stack_top parent)
                            in kbind (for_pages (\<lambda>va. va < end_va)
                                        (fork_page L (p_page_table parent) new_pt) USER_BASE s)
                                 (\<lambda>_ s.
                                   (let s = upd_proc i (fork_pcb c (procs s ! c)) s in
                                    kret (p_pid (procs s ! i)) s))))))))))))"

section \<open>The copy of the address space\<close>

text \<open>What the child gets mapped below \<open>hi\<close>.\<close>

definition copied :: "linker_syms \<Rightarrow> mem \<Rightarrow> u64 \<Rightarrow> nat \<Rightarrow> u64 \<Rightarrow> u64 option" where
  "copied L m parent_pt hi v =
     (if page_aligned v \<and> 0x1000000 \<le> unat v \<and> unat v < hi \<and> walk_page m parent_pt v \<noteq> 0
      then Some 31 else kernel_space L v)"

definition user_byte :: "mem \<Rightarrow> u64 \<Rightarrow> u64 \<Rightarrow> u8" where
  "user_byte m root v = m (walk_page m root (page_base v) + (v AND 0xFFF))"

lemma copied_next:
  assumes "page_aligned a" and "0x1000000 \<le> unat a"
  shows "copied L m pt (unat a + 4096) =
    (if walk_page m pt a \<noteq> 0 then (copied L m pt (unat a))(a \<mapsto> 31) else copied L m pt (unat a))"
proof (rule ext)
  fix v
  show "copied L m pt (unat a + 4096) v = (if walk_page m pt a \<noteq> 0
      then (copied L m pt (unat a))(a \<mapsto> 31) else copied L m pt (unat a)) v"
  proof (cases "page_aligned v \<and> unat a \<le> unat v \<and> unat v < unat a + 4096")
    case True
    have "v = a"
    proof (rule ccontr)
      assume "v \<noteq> a"
      then have "unat a < unat v" using True by (metis le_neq_implies_less unat_inj_u64)
      then have "unat a + 4096 \<le> unat v"
        using True assms(1) by (intro aligned_step) (simp_all add: page_aligned_unat)
      then show False using True by simp
    qed
    then show ?thesis using assms by (simp add: copied_def)
  next
    case False
    then show ?thesis using assms by (auto simp: copied_def)
  qed
qed

text \<open>
  \<open>fork_source m pt P hi\<close>: the tables of the parent are a tree in the pages \<open>P\<close>, and so
  are the pages it has mapped from \<^verbatim>\<open>USER_BASE\<close> up to \<open>hi\<close>.
\<close>

definition fork_source :: "mem \<Rightarrow> u64 \<Rightarrow> u64 set \<Rightarrow> nat \<Rightarrow> bool" where
  "fork_source m pt P hi \<longleftrightarrow>
     tree_ok P m pt \<and> (\<forall>t \<in> P. page_aligned t) \<and>
     (\<forall>v. page_aligned v \<and> 0x1000000 \<le> unat v \<and> unat v < hi \<and> walk_page m pt v \<noteq> 0 \<longrightarrow>
        walk_page m pt v \<in> P)"

lemma fork_source_outside:
  assumes src: "fork_source m pt P hi" and out: "same_outside Q m m'" and dis: "P \<inter> Q = {}"
  shows "walk_page m' pt v = walk_page m pt v" and "fork_source m' pt P hi"
    and "page_aligned v \<Longrightarrow> 0x1000000 \<le> unat v \<Longrightarrow> unat v < hi \<Longrightarrow> walk_page m pt v \<noteq> 0 \<Longrightarrow>
      page_base w = v \<Longrightarrow> user_byte m' pt w = user_byte m pt w"
    and "copied L m' pt h = copied L m pt h"
proof -
  have t: "tree_ok P m pt" "\<forall>t \<in> P. page_aligned t" using src by (simp_all add: fork_source_def)
  have d: "tables m pt \<inter> Q = {}" using tables_subset [OF t(1)] dis by blast
  have walk: "walk_page m' pt v = walk_page m pt v" for v
    by (simp add: walk_page_leaf pt_leaf_outside [OF t(1) out d t(2)])
  then show "walk_page m' pt v = walk_page m pt v" by simp
  show "copied L m' pt h = copied L m pt h" by (rule ext) (simp add: copied_def walk)
  show "fork_source m' pt P hi"
    using src walk tree_ok_outside(1) [OF t(1) out d t(2) order_refl] by (simp add: fork_source_def)
  assume v: "page_aligned v" "0x1000000 \<le> unat v" "unat v < hi" "walk_page m pt v \<noteq> 0" "page_base w = v"
  let ?p = "walk_page m pt v"
  have p: "?p \<in> P" "page_aligned ?p" using src v by (auto simp: fork_source_def)
  then have "page_base (?p + (w AND 0xFFF)) \<notin> Q" using dis by (auto simp: page_offset)
  then have "m' (?p + (w AND 0xFFF)) = m (?p + (w AND 0xFFF))" by (rule same_outside_byte [OF out])
  then show "user_byte m' pt w = user_byte m pt w" by (simp add: user_byte_def walk v(5))
qed

text \<open>The page that \<^verbatim>\<open>memcpy\<close> fills from another one.\<close>

lemma copy_page_bytes:
  assumes "page_aligned p" and "page_aligned q" and "p \<noteq> q"
  shows "same_outside {p} m (memcpy m p q 4096)"
    and "memcpy m p q 4096 (p + (v AND 0xFFF)) = m (q + (v AND 0xFFF))"
proof -
  have "\<not> p - q < 4096"
  proof
    assume "p - q < 4096"
    then have "page_base p = q" using in_page_iff [OF assms(2), of p] by simp
    then show False using assms by simp
  qed
  then have cp: "memcpy m p q 4096 x = (if x - p < 4096 then m (q + (x - p)) else m x)" for x
    by (intro memcpy_apply) (simp add: not_less)
  show "same_outside {p} m (memcpy m p q 4096)"
    using in_page_iff [OF assms(1)] by (auto simp: same_outside_def cp)
  have "v AND 0xFFF < 4096" using unat_page_offset [of v] by (simp add: word_less_nat_alt)
  then show "memcpy m p q 4096 (p + (v AND 0xFFF)) = m (q + (v AND 0xFFF))" by (simp add: cp)
qed

definition user_pages :: "u64 \<Rightarrow> nat" where
  "user_pages end_va = (unat end_va + 4095 - 0x1000000) div 4096"

lemma fork_page_space:
  assumes us: "uspace L root s0 s R c" and c: "c = user_byte (mem s0) pt"
    and src: "fork_source (mem s0) pt (owned L s0 - tables (mem s0) root) hi"
    and A: "finite A" "\<forall>js \<in> A. index_path js"
    and va: "page_aligned va" "0x1000000 \<le> unat va" "unat va < hi" "va < 0x8000000000"
    and pa: "walk_page (mem s0) pt va \<noteq> 0" "R va = None" "[PX 2 va] \<in> A" "va_path va \<in> A"
    and room: "missing A (mem s) root + Suc k \<le> avail L s"
  shows "\<exists>s'. fork_page L pt root va s = Inr ((), s') \<and> uspace L root s0 s' (R(va \<mapsto> 31)) c \<and>
    missing A (mem s') root + k \<le> avail L s'"
proof -
  let ?P = "owned L s0 - tables (mem s0) root" and ?q = "walk_page (mem s0) pt va"
  have ok: "vm_ok L root s" and g: "vm_grow L root s0 s" using us by (simp_all add: uspace_def)
  note so = fork_source_outside [OF src]
  have out: "same_outside (tables (mem s0) root \<union> (owned L s - owned L s0)) (mem s0) (mem s)"
    using g by (simp add: vm_grow_def)
  have dis: "?P \<inter> (tables (mem s0) root \<union> (owned L s - owned L s0)) = {}" by blast
  have q: "walk_page (mem s) pt va = ?q" by (rule so(1) [OF out dis])
  have qP: "?q \<in> ?P" "page_aligned ?q" using src va pa by (auto simp: fork_source_def)
  have qs: "?q \<in> owned L s" using qP g by (auto simp: vm_grow_def)
  have wr: "same_outside {p} (mem s1) (memcpy (mem s1) p ?q 4096)"
      "page_base v = va \<Longrightarrow> memcpy (mem s1) p ?q 4096 (p + (v AND 0xFFF)) = c v"
    if al: "alloc_pages L 1 s = Inr (p, s1)" for p s1 v
  proof -
    note a = alloc_one_spec [OF vm_okD(1) [OF ok] al]
    have ne: "p \<noteq> ?q" using a(2) qs by blast
    note cp = copy_page_bytes [OF a(4) qP(2) ne, of "mem s1"]
    show "same_outside {p} (mem s1) (memcpy (mem s1) p ?q 4096)" by (rule cp(1))
    assume v: "page_base v = va"
    have "mem s1 (?q + (v AND 0xFFF)) = mem s (?q + (v AND 0xFFF))"
      using same_outside_byte [OF kpages.alloc_outside [OF vm_okD(1) [OF ok] al]] ne
      by (simp add: page_offset [OF qP(2)])
    also have "\<dots> = user_byte (mem s) pt v" by (simp add: user_byte_def v q)
    also have "\<dots> = c v" unfolding c by (rule so(3) [OF out dis va(1-3) pa(1) v])
    finally show "memcpy (mem s1) p ?q 4096 (p + (v AND 0xFFF)) = c v" by (simp add: cp(2))
  qed
  have "\<exists>p s1 s'. alloc_pages L 1 s = Inr (p, s1) \<and>
    map_page L root va p 31 (s1\<lparr>mem := memcpy (mem s1) p ?q 4096\<rparr>) = Inr ((), s') \<and>
    uspace L root s0 s' (R(va \<mapsto> 31)) (\<lambda>v. if page_base v = va then c v else c v) \<and>
    missing A (mem s') root + k \<le> avail L s' \<and> upage (mem s') root va = p"
    by (rule uspace_fresh [OF us A room va(1,4) pa(3,4), where wr = "\<lambda>p m. memcpy m p ?q 4096"])
      (simp_all add: wr)
  then obtain s' where "fork_page L pt root va s = Inr ((), s')" "uspace L root s0 s' (R(va \<mapsto> 31)) c"
    "missing A (mem s') root + k \<le> avail L s'"
    using pa(1) by (auto simp: fork_page_def q Let_def)
  then show ?thesis by blast
qed

lemma fork_pages_space:
  assumes us: "uspace L root s0 s (kernel_space L) c" and c: "c = user_byte (mem s0) pt"
    and L: "layout_ok L"
    and src: "fork_source (mem s0) pt (owned L s0 - tables (mem s0) root) (unat end_va)"
    and A: "finite A" "\<forall>js \<in> A. index_path js" "space_paths (copied L (mem s0) pt (unat end_va)) \<subseteq> A"
    and range: "0x1000000 \<le> unat end_va" "end_va \<le> kernel_base L"
    and room: "missing A (mem s) root + (k + user_pages end_va) \<le> avail L s"
  shows "\<exists>s'. for_pages (\<lambda>va. va < end_va) (fork_page L pt root) USER_BASE s = Inr ((), s') \<and>
    uspace L root s0 s' (copied L (mem s0) pt (unat end_va)) c \<and> missing A (mem s') root + k \<le> avail L s'"
proof -
  let ?e = "unat end_va" and ?R = "\<lambda>a. copied L (mem s0) pt (unat a)"
  have kb: "unat (kernel_base L) \<le> 0x4000000000" "?e \<le> unat (kernel_base L)"
    using L range by (auto simp: layout_ok_def word_le_nat_alt word_less_nat_alt)
  let ?I = "\<lambda>a t. page_aligned a \<and> 0x1000000 \<le> unat a \<and> unat a < ?e + 4096 \<and>
    uspace L root s0 t (?R a) c \<and> missing A (mem t) root + (k + (?e + 4095 - unat a) div 4096) \<le> avail L t"
  have "\<exists>b s'. for_pages (\<lambda>va. va < end_va) (fork_page L pt root) USER_BASE s = Inr ((), s') \<and>
      \<not> b < end_va \<and> ?I b s'"
  proof (rule for_pages_total)
    have "?R USER_BASE = kernel_space L" by (rule ext) (auto simp: copied_def USER_BASE_def)
    then show "?I USER_BASE s"
      using us room range by (simp add: USER_BASE_def page_aligned_def user_pages_def)
  next
    fix a t assume lt: "a < end_va" and I: "?I a t"
    have a: "page_aligned a" "0x1000000 \<le> unat a" "unat a < ?e" and us_t: "uspace L root s0 t (?R a) c"
      using I lt by (simp_all add: word_less_nat_alt)
    have "?e + 4095 - unat a = ?e + 4095 - (unat a + 4096) + 4096" using a(3) by simp
    then have "(?e + 4095 - unat a) div 4096 = Suc ((?e + 4095 - (unat a + 4096)) div 4096)" by simp
    then have room_t: "missing A (mem t) root + Suc (k + (?e + 4095 - (unat a + 4096)) div 4096) \<le> avail L t"
      using I by simp
    have small: "a < 0x8000000000" using a(3) kb by (simp add: word_less_nat_alt)
    have u4: "unat (a + 4096) = unat a + 4096" using a(3) kb by (subst unat_add_u64) simp_all
    have next_ok: "page_aligned (a + 4096)" "a < a + 4096"
      using a(1) u4 by (simp_all add: page_aligned_unat word_less_nat_alt)
    note cn = copied_next [OF a(1,2), of L "mem s0" pt]
    have "\<exists>t'. fork_page L pt root a t = Inr ((), t') \<and> uspace L root s0 t' (?R (a + 4096)) c \<and>
        missing A (mem t') root + (k + (?e + 4095 - (unat a + 4096)) div 4096) \<le> avail L t'"
    proof (cases "walk_page (mem s0) pt a = 0")
      case True
      have g: "vm_grow L root s0 t" using us_t by (simp add: uspace_def)
      have "walk_page (mem t) pt a = walk_page (mem s0) pt a"
        by (rule fork_source_outside(1) [OF src, of "tables (mem s0) root \<union> (owned L t - owned L s0)"])
          (use g in \<open>auto simp: vm_grow_def\<close>)
      then show ?thesis using True us_t room_t cn u4 by (simp add: fork_page_def)
    next
      case False
      have none: "?R a a = None" using a kb by (simp add: copied_def kernel_space_def region_def)
      have "copied L (mem s0) pt ?e a = Some 31" using a False by (simp add: copied_def)
      then have p: "[PX 2 a] \<in> A" "va_path a \<in> A" using space_pathsI A(3) by blast+
      show ?thesis
        using fork_page_space [OF us_t c src A(1,2) a(1-3) small False none p room_t] cn False u4 by simp
    qed
    then show "a < a + 4096 \<and> (\<exists>t'. fork_page L pt root a t = Inr ((), t') \<and> ?I (a + 4096) t')"
      using next_ok a u4 by auto
  qed
  then obtain b s' where run: "for_pages (\<lambda>va. va < end_va) (fork_page L pt root) USER_BASE s = Inr ((), s')"
    and b: "?e \<le> unat b" "?I b s'" by (auto simp: word_less_nat_alt not_less)
  have "?R b = copied L (mem s0) pt ?e"
  proof (rule ext)
    fix v
    have "unat v < ?e" if "page_aligned v" "unat v < unat b"
    proof -
      have "unat v + 4096 \<le> unat b"
        using that b(2) by (intro aligned_step) (simp_all add: page_aligned_unat)
      then show ?thesis using b(2) by simp
    qed
    then show "?R b v = copied L (mem s0) pt ?e v" using b(1) by (auto simp: copied_def)
  qed
  then show ?thesis using run b(2) by auto
qed

section \<open>The two trap frames\<close>

lemma load64_copy:
  assumes "\<And>x. x - a < 8 \<Longrightarrow> m x = m' (x + d)"
  shows "load64 m a = load64 m' (a + d)"
proof -
  have "load64 m a = load64 (\<lambda>x. m' (x + d)) a" by (rule load64_cong) (rule assms)
  also have "\<dots> = load64 m' (a + d)" by (simp add: load64_def load32_def load16_def algebra_simps)
  finally show ?thesis .
qed

lemma in_frame:
  fixes off x tf :: u64
  assumes "aligned8 off" and "off < 256" and "x - (tf + off) < 8"
  shows "x - tf < 256"
proof -
  have off: "unat off + 8 \<le> 256"
    using assms(1,2) by (intro aligned_step) (simp_all add: aligned8_unat word_less_nat_alt)
  have e: "x - tf = (x - (tf + off)) + off" by simp
  have "unat (x - tf) = unat (x - (tf + off)) + unat off"
    unfolding e using assms(3) off by (subst unat_add_u64) (simp_all add: word_less_nat_alt)
  then show ?thesis using assms(3) off by (simp add: word_less_nat_alt)
qed

lemma frame_word_page:
  assumes "page_aligned tf" and "off < 256"
  shows "page_base (tf + off) = tf"
  using assms(2) by (simp add: in_page_iff [OF assms(1)] order.strict_trans)

text \<open>\<open>apart tf ptf\<close>: the frame at \<open>ptf\<close> does not reach into the page \<open>tf\<close>.\<close>

definition apart :: "u64 \<Rightarrow> u64 \<Rightarrow> bool" where
  "apart tf ptf \<longleftrightarrow> page_aligned tf \<and> aligned8 ptf \<and> (\<forall>x. x - ptf < 256 \<longrightarrow> page_base x \<noteq> tf)"

lemma tf_get_set_apart:
  assumes "apart tf ptf" and "aligned8 off" "off < 256" "aligned8 off'" "off' < 256"
  shows "tf_get (tf_set tf off v s) ptf off' = tf_get s ptf off'"
    and "tf_get (tf_set ptf off' v s) tf off = tf_get s tf off"
proof -
  have al: "aligned8 (tf + off)" "aligned8 (ptf + off')"
    using assms by (simp_all add: apart_def aligned8_add page_aligned_aligned8)
  have "page_base (tf + off) = tf" by (rule frame_word_page) (use assms in \<open>simp_all add: apart_def\<close>)
  moreover have "page_base (ptf + off') \<noteq> tf" using assms by (simp add: apart_def)
  ultimately have "tf + off \<noteq> ptf + off'" by metis
  then show "tf_get (tf_set tf off v s) ptf off' = tf_get s ptf off'"
    and "tf_get (tf_set ptf off' v s) tf off = tf_get s tf off"
    using al by (auto simp: tf_get_def tf_set_def load64_store64_aligned)
qed

lemma fork_frames_spec:
  fixes s :: kstate and pid :: int
  assumes ap: "apart tf ptf"
  defines "s' \<equiv> fork_frames tf ptf pid s"
  shows "aligned8 off \<Longrightarrow> off < 256 \<Longrightarrow> tf_get s' tf off =
      (if off = TF_A0 then 0 else if off = TF_EPC then tf_get s ptf TF_EPC + 4 else tf_get s ptf off)"
    and "aligned8 off \<Longrightarrow> off < 256 \<Longrightarrow> tf_get s' ptf off =
      (if off = TF_A0 then of_int pid else tf_get s ptf off)"
    and "256 \<le> x - tf \<Longrightarrow> 256 \<le> x - ptf \<Longrightarrow> mem s' x = mem s x"
proof -
  let ?m = "memcpy (mem s) tf ptf 256"
  let ?s1 = "s\<lparr>mem := ?m\<rparr>"
  have al: "aligned8 tf" "aligned8 ptf" using ap by (simp_all add: apart_def page_aligned_aligned8)
  have cp: "?m x = (if x - tf < 256 then mem s (ptf + (x - tf)) else mem s x)" for x
  proof (rule memcpy_apply, rule disjCI)
    assume "\<not> 256 \<le> tf - ptf"
    then have "page_base tf \<noteq> tf" using ap unfolding apart_def not_le by blast
    then show "tf = ptf" using ap by (simp add: apart_def)
  qed
  have c1: "tf_get ?s1 tf off = tf_get s ptf off" if "aligned8 off" "off < 256" for off
  proof -
    have "load64 ?m (tf + off) = load64 (mem s) ((tf + off) + (ptf - tf))"
    proof (rule load64_copy)
      fix x assume "x - (tf + off) < 8"
      then have "x - tf < 256" using that in_frame by blast
      then show "?m x = mem s (x + (ptf - tf))" by (simp add: cp algebra_simps)
    qed
    then show ?thesis by (simp add: tf_get_def algebra_simps)
  qed
  have p1: "tf_get ?s1 ptf off = tf_get s ptf off" if "aligned8 off" "off < 256" for off
    unfolding tf_get_def
  proof (rule load64_cong)
    fix x assume "x - (ptf + off) < 8"
    then have "x - ptf < 256" using that in_frame by blast
    then have "page_base x \<noteq> tf" using ap by (simp add: apart_def)
    then have "\<not> x - tf < 4096" using ap in_page_iff [of tf x] by (simp add: apart_def)
    then have "\<not> x - tf < 256" by (simp add: word_less_nat_alt)
    then show "mem ?s1 x = mem s x" by (simp add: cp)
  qed
  have small: "TF_A0 < 256" "TF_SP < 256" "TF_EPC < 256"
    by (simp_all add: TF_A0_def TF_SP_def TF_EPC_def)
  have ne: "TF_A0 \<noteq> TF_SP" "TF_A0 \<noteq> TF_EPC" "TF_SP \<noteq> TF_EPC"
    by (simp_all add: TF_A0_def TF_SP_def TF_EPC_def)
  note st = tf_get_set_apart [OF ap] tf_get_set [OF al(1)] tf_get_set [OF al(2)]
  show "tf_get s' tf off = (if off = TF_A0 then 0 else if off = TF_EPC then tf_get s ptf TF_EPC + 4
      else tf_get s ptf off)" if "aligned8 off" "off < 256"
    using that ne small by (simp add: s'_def fork_frames_def Let_def st c1 p1)
  show "tf_get s' ptf off = (if off = TF_A0 then of_int pid else tf_get s ptf off)"
    if "aligned8 off" "off < 256"
    using that ne small by (simp add: s'_def fork_frames_def Let_def st c1 p1)
  assume x: "256 \<le> x - tf" "256 \<le> x - ptf"
  have fo: "frame_only tf (mem t) (mem (tf_set tf off v t))" if "off \<in> {TF_A0, TF_SP, TF_EPC}" for off v t
    using that small by (intro frame_only_set) auto
  have fp: "frame_only ptf (mem t) (mem (tf_set ptf TF_A0 v t))" for v t
    using small by (intro frame_only_set) auto
  have "\<not> x - tf < 256" using x(1) by (rule leD)
  then have "?m x = mem s x" unfolding cp by (rule if_not_P)
  then show "mem s' x = mem s x"
    using x fo fp by (simp add: s'_def fork_frames_def Let_def frame_only_def)
qed

section \<open>The whole call\<close>

lemma fork_source_mono:
  "fork_source m pt P hi \<Longrightarrow> P \<subseteq> Q \<Longrightarrow> \<forall>t \<in> Q. page_aligned t \<Longrightarrow> fork_source m pt Q hi"
  unfolding fork_source_def tree_ok_def by blast

lemma space_is_cong:
  assumes "\<And>v. v < 0x8000000000 \<Longrightarrow> user_flags (R (page_base v)) \<Longrightarrow> c v = c' v"
    and "space_is L root s0 s R c"
  shows "space_is L root s0 s R c'"
proof -
  have "mapped_as L root s0 s c' (R (page_base v)) v"
    if "mapped_as L root s0 s c (R (page_base v)) v" "v < 0x8000000000" for v
    using that assms(1) [OF that(2)] by (auto simp: mapped_as_def user_flags_def split: option.splits)
  then show ?thesis using assms(2) unfolding space_is_def by blast
qed

lemma copied_user:
  assumes "user_flags (copied L m pt hi v)"
  shows "page_aligned v" and "0x1000000 \<le> unat v" and "unat v < hi" and "walk_page m pt v \<noteq> 0"
proof -
  have "\<not> user_flags (kernel_space L v)" by (simp add: kernel_space_def region_def user_flags_def)
  then show "page_aligned v" and "0x1000000 \<le> unat v" and "unat v < hi" and "walk_page m pt v \<noteq> 0"
    using assms by (auto simp: copied_def split: if_splits)
qed

definition fork_cost :: "linker_syms \<Rightarrow> mem \<Rightarrow> u64 \<Rightarrow> u64 \<Rightarrow> nat" where
  "fork_cost L m pt end_va = card (space_paths (copied L m pt (unat end_va))) + user_pages end_va"

lemma space_paths_kernel: "space_paths (kernel_space L) \<subseteq> space_paths (copied L m pt hi)"
  by (fastforce simp: space_paths_def copied_def)

lemma fork_space_total:
  assumes ok: "pool_ok L s" and src: "fork_source (mem s) pt (owned L s) (unat end_va)"
    and range: "0x1000000 \<le> unat end_va" "end_va \<le> kernel_base L"
    and room: "Suc (fork_cost L (mem s) pt end_va) \<le> avail L s"
  shows "\<exists>np s1 s2 s'. alloc_pages L 1 s = Inr (np, s1) \<and>
    map_kernel L np (upd_proc i (\<lambda>p. p\<lparr>p_page_table := np\<rparr>) s1) = Inr ((), s2) \<and>
    for_pages (\<lambda>va. va < end_va) (fork_page L pt np) USER_BASE s2 = Inr ((), s') \<and>
    vm_ok L np s' \<and>
    space_is L np s s' (copied L (mem s) pt (unat end_va)) (user_byte (mem s) pt) \<and>
    owned L s \<subseteq> owned L s' \<and> same_outside (owned L s' - owned L s) (mem s) (mem s') \<and>
    proc_view s2 = proc_view (upd_proc i (\<lambda>p. p\<lparr>p_page_table := np\<rparr>) s) \<and>
    proc_view s' = proc_view s2"
proof -
  have L: "layout_ok L" using ok by (auto simp: pool_ok_def pool_inv_def)
  obtain np s1 where run: "alloc_pages L 1 s = Inr (np, s1)"
    using alloc_one_returns [OF ok] room by (metis Suc_le_lessD less_nat_zero_code not_gr_zero)
  note a = alloc_one_spec [OF ok run] and r = alloc_root [OF ok run]
  define s0 where "s0 = upd_proc i (\<lambda>p. p\<lparr>p_page_table := np\<rparr>) s1"
  have out: "same_outside {np} (mem s) (mem s0)" using kpages.alloc_outside [OF ok run] by (simp add: s0_def)
  have dis: "owned L s \<inter> {np} = {}" using a(2) by blast
  note fs = fork_source_outside [OF src out dis]
  let ?e = "unat end_va" and ?c = "user_byte (mem s0) pt"
  let ?A = "space_paths (copied L (mem s0) pt ?e)"
  note A = finite_space_paths [of "copied L (mem s0) pt ?e"] space_paths_index [of "copied L (mem s0) pt ?e"]
  have us: "uspace L np s0 s0 (\<lambda>_. None) ?c"
    using r by (simp add: uspace_def space_is_def mapped_as_def user_flags_def s0_def)
  have own0: "owned L s0 = insert np (owned L s)" using a(3) by (simp add: s0_def)
  have t0: "tables (mem s0) np = {np}" using r(2) by (simp add: s0_def)
  have src0: "fork_source (mem s0) pt (owned L s0 - tables (mem s0) np) ?e"
  proof -
    have "owned L s0 - tables (mem s0) np = owned L s" using own0 t0 a(2) by auto
    then show ?thesis using fs(2) by simp
  qed
  have "missing ?A (mem s0) np \<le> card ?A" unfolding missing_def by (rule card_mono) auto
  moreover have "avail L s = Suc (avail L s0)" using alloc_one_avail [OF ok run] by (simp add: s0_def)
  ultimately have room0: "missing ?A (mem s0) np + (0 + user_pages end_va) \<le> avail L s0"
    using room fs(4) [of L ?e] by (simp add: fork_cost_def)
  obtain s2 where s2: "map_kernel L np s0 = Inr ((), s2)" "uspace L np s0 s2 (kernel_space L) ?c"
    "missing ?A (mem s2) np + (0 + user_pages end_va) \<le> avail L s2"
    using map_kernel_space [OF us L A space_paths_kernel room0] by blast
  obtain s' where s': "for_pages (\<lambda>va. va < end_va) (fork_page L pt np) USER_BASE s2 = Inr ((), s')"
    "uspace L np s0 s' (copied L (mem s0) pt ?e) ?c"
    using fork_pages_space [OF s2(2) refl L src0 A order_refl range s2(3)] by blast
  have gr: "vm_grow L np s0 s'" and ok': "vm_ok L np s'"
    and sp: "space_is L np s0 s' (copied L (mem s) pt ?e) ?c"
    using s'(2) fs(4) by (simp_all add: uspace_def)
  have "space_is L np s s' (copied L (mem s) pt ?e) ?c"
    using space_is_sub [OF sp, of s s'] own0 by auto
  then have sp': "space_is L np s s' (copied L (mem s) pt ?e) (user_byte (mem s) pt)"
    by (rule space_is_cong [rotated]) (rule fs(3) [OF copied_user refl])
  have grow: "owned L s \<subseteq> owned L s'" "np \<in> owned L s'" using gr own0 by (auto simp: vm_grow_def)
  have "same_outside (tables (mem s0) np \<union> (owned L s' - owned L s0)) (mem s0) (mem s')"
    using gr by (simp add: vm_grow_def)
  from same_outside_trans [OF out this]
  have out': "same_outside (owned L s' - owned L s) (mem s) (mem s')"
    by (rule same_outside_mono) (use t0 own0 grow a(2) in auto)
  have pv0: "proc_view s0 = proc_view (upd_proc i (\<lambda>p. p\<lparr>p_page_table := np\<rparr>) s)"
    using a(5) by (simp add: s0_def proc_view_def upd_proc_def)
  have "proc_view s2 = proc_view (upd_proc i (\<lambda>p. p\<lparr>p_page_table := np\<rparr>) s)"
    unfolding pv0 [symmetric] by (rule uspace_proc_view [OF s2(2)])
  moreover have "proc_view s' = proc_view s2"
    unfolding uspace_proc_view [OF s2(2)] by (rule uspace_proc_view [OF s'(2)])
  ultimately show ?thesis using run s2(1) s'(1) ok' sp' grow(1) out' unfolding s0_def by blast
qed

section \<open>From the free PCB to the frames\<close>

lemma tf_stack_pages:
  assumes L: "layout_ok L" and i: "i < PROCS_MAX" and x: "x - tf_stack_base L i < 8192"
  shows "page_base x < free_ram L" and "j \<noteq> i \<Longrightarrow> j < PROCS_MAX \<Longrightarrow> \<not> x - tf_frame L j < 256"
proof -
  have base: "unat (tf_stack_base L k) = unat (procs_base L) + k * 8640 + 80"
      "unat (tf_stack_base L k) + 8560 \<le> unat (free_ram L)" if "k < PROCS_MAX" for k
  proof -
    have k8: "k * 8640 + 8640 \<le> 8 * 8640" using that by (simp add: PROCS_MAX_def)
    have lay: "unat (procs_base L) + 8 * 8640 \<le> unat (free_ram L)" using L by (simp add: layout_ok_def)
    have e: "tf_stack_base L k = procs_base L + of_nat (k * 8640 + 80)" by (simp add: tf_stack_base_def)
    have "unat (of_nat (k * 8640 + 80) :: u64) = k * 8640 + 80"
      using k8 by (intro unat_of_nat_u64) simp
    then show u: "unat (tf_stack_base L k) = unat (procs_base L) + k * 8640 + 80"
      unfolding e using lay k8 unat_u64_bound [of "free_ram L"] by (subst unat_add_u64) simp_all
    show "unat (tf_stack_base L k) + 8560 \<le> unat (free_ram L)" using u lay k8 by simp
  qed
  have xk: "unat x = unat b + unat (x - b)" if "x - b < n" "unat b + unat n \<le> unat (free_ram L)" for b n :: u64
    using that unat_diff_u64 [of x b] unat_u64_bound [of "free_ram L"] unat_u64_bound [of x]
    by (simp add: word_less_nat_alt split: if_splits)
  have ux: "unat x = unat (tf_stack_base L i) + unat (x - tf_stack_base L i)"
    by (rule xk [OF x]) (use base(2) [OF i] in simp)
  then have "unat x < unat (free_ram L)" using x base(2) [OF i] by (simp add: word_less_nat_alt)
  then show "page_base x < free_ram L" using unat_page_base [of x] by (simp add: word_less_nat_alt)
  assume j: "j \<noteq> i" "j < PROCS_MAX"
  show "\<not> x - tf_frame L j < 256"
  proof
    assume f: "x - tf_frame L j < 256"
    have uf: "unat x = unat (tf_frame L j) + unat (x - tf_frame L j)"
      by (rule xk [OF f]) (use tf_frame_props(3) [OF L j(2)] in simp)
    have "unat (x - tf_frame L j) < 256" "unat (x - tf_stack_base L i) < 8192"
      using f x by (simp_all add: word_less_nat_alt)
    then have "i * 8640 + 80 \<le> j * 8640 + 8016 + 255" "j * 8640 + 8016 \<le> i * 8640 + 80 + 8191"
      using ux uf base(1) [OF i] tf_frame_props(1) [OF L j(2)] by linarith+
    then have "i \<le> j" and "j \<le> i" by linarith+
    then show False using j(1) by simp
  qed
qed

lemma pool_write_any:
  assumes "pool_ok L s" and "same_outside P (mem s) m"
    and "\<forall>p \<in> P. p \<in> owned L s \<or> p < free_ram L"
  shows "pool_ok L (s\<lparr>mem := m\<rparr>)" and "owned L (s\<lparr>mem := m\<rparr>) = owned L s"
proof -
  obtain xs where xs: "pool_inv L xs s" using assms(1) by (auto simp: pool_ok_def)
  have "load64 m x = load64 (mem s) x" if "x \<in> set xs" for x
  proof (rule same_outside_load64 [OF assms(2)])
    have x: "page_aligned x" "free_ram L \<le> x" "x \<notin> owned L s"
      using xs that by (auto simp: pool_inv_def pool_page_def pool_inv_owned)
    then show "aligned8 x" by (simp add: page_aligned_aligned8)
    show "page_base x \<notin> P" using x assms(3) by (auto simp: not_le not_less)
  qed
  then have inv: "pool_inv L xs (s\<lparr>mem := m\<rparr>)"
    using xs by (auto simp: pool_inv_def pool_page_def intro: fl_chain_cong)
  then show "pool_ok L (s\<lparr>mem := m\<rparr>)" by (auto simp: pool_ok_def)
  show "owned L (s\<lparr>mem := m\<rparr>) = owned L s"
    using inv xs by (simp add: pool_inv_owned pool_page_def)
qed

text \<open>
  The frame of a process lies at the top of its \<^verbatim>\<open>tf_stack\<close>, or, after a fork, in a page of
  its own.
\<close>

definition own_frame :: "linker_syms \<Rightarrow> kstate \<Rightarrow> nat \<Rightarrow> bool" where
  "own_frame L s c \<longleftrightarrow> p_tf (procs s ! c) = tf_frame L c \<or> p_tf (procs s ! c) \<in> owned L s"

lemma own_frame_pages:
  assumes ok: "pool_ok L s" and c: "c < PROCS_MAX" and f: "own_frame L s c"
  defines "ptf \<equiv> p_tf (procs s ! c)"
  shows "aligned8 ptf" and "x - ptf < 256 \<Longrightarrow> page_base x = ptf \<and> ptf \<in> owned L s \<or> page_base x < free_ram L"
proof -
  have L: "layout_ok L" using ok by (auto simp: pool_ok_def pool_inv_def)
  have al: "page_aligned ptf" if "ptf \<in> owned L s" using owned_props [OF ok that] by simp
  show "aligned8 ptf"
    using f al tf_frame_props(2) [OF L c] by (auto simp: own_frame_def ptf_def page_aligned_aligned8)
  assume x: "x - ptf < 256"
  show "page_base x = ptf \<and> ptf \<in> owned L s \<or> page_base x < free_ram L"
  proof (cases "ptf \<in> owned L s")
    case True
    have "x - ptf < 4096" using x by (simp add: word_less_nat_alt)
    then show ?thesis using True in_page_iff [OF al [OF True], of x] by simp
  next
    case False
    then have "ptf = tf_frame L c" using f by (simp add: own_frame_def ptf_def)
    then show ?thesis using tf_frame_pages [OF L c] x by simp
  qed
qed

text \<open>The state in which the child has its frame, and the facts of it that the rest needs.\<close>

definition fork_child :: "linker_syms \<Rightarrow> nat \<Rightarrow> kstate \<Rightarrow> kstate" where
  "fork_child L i s =
     s\<lparr>procs := (procs s)[i := zero_proc\<lparr>p_pid := int i + 1\<rparr>],
       mem := memset (mem s) (tf_stack_base L i) 0 8192, process_count := process_count s + 1\<rparr>"

definition touched :: "linker_syms \<Rightarrow> kstate \<Rightarrow> u64 \<Rightarrow> u64 \<Rightarrow> u64 set" where
  "touched L s tf ptf = {p. p < free_ram L \<or> p = tf \<or> (p = ptf \<and> ptf \<in> owned L s)}"

definition frame_word :: "kstate \<Rightarrow> u64 \<Rightarrow> u64 \<Rightarrow> u64" where
  "frame_word s ptf off =
     (if off = TF_A0 then 0 else if off = TF_EPC then tf_get s ptf TF_EPC + 4 else tf_get s ptf off)"

lemma fork_start:
  assumes ok: "pool_ok L s" and i: "i < PROCS_MAX" and c: "c < PROCS_MAX" "c \<noteq> i"
    and f: "own_frame L s c" and room: "0 < avail L s"
  defines "ptf \<equiv> p_tf (procs s ! c)"
  shows "\<exists>tf s3. alloc_pages L 1 (fork_child L i s) = Inr (tf, s3) \<and> tf \<noteq> 0 \<and> tf \<notin> owned L s \<and>
    page_aligned tf \<and> tf \<noteq> ptf \<and> proc_view s3 = proc_view (fork_child L i s) \<and>
    (let s5 = fork_frames tf ptf pid (upd_proc i (\<lambda>p. p\<lparr>p_tf := tf\<rparr>) s3) in
      pool_ok L s5 \<and> owned L s5 = insert tf (owned L s) \<and> avail L s = Suc (avail L s5) \<and>
      same_outside (touched L s tf ptf) (mem s) (mem s5) \<and>
      (\<forall>off. aligned8 off \<longrightarrow> off < 256 \<longrightarrow> tf_get s5 tf off = frame_word s ptf off \<and>
         tf_get s5 ptf off = (if off = TF_A0 then of_int pid else tf_get s ptf off)))"
proof -
  have L: "layout_ok L" using ok by (auto simp: pool_ok_def pool_inv_def)
  let ?s2 = "fork_child L i s" and ?K = "{p. p < free_ram L}"
  have o2: "same_outside ?K (mem s) (mem ?s2)"
    unfolding same_outside_def
  proof (intro allI impI)
    fix x assume "page_base x \<notin> ?K"
    then have "\<not> x - tf_stack_base L i < 8192" using tf_stack_pages(1) [OF L i, of x] by blast
    then show "mem ?s2 x = mem s x" by (simp add: fork_child_def memset_apply)
  qed
  have v2: "pool_view ?s2 = pool_view (s\<lparr>mem := mem ?s2\<rparr>)" by (simp add: pool_view_def fork_child_def)
  have p2: "pool_ok L ?s2" "owned L ?s2 = owned L s" "avail L ?s2 = avail L s"
    using pool_frame [OF v2] pool_write_any [OF ok o2] by auto
  obtain tf s3 where run: "alloc_pages L 1 ?s2 = Inr (tf, s3)"
    using alloc_one_returns [OF p2(1)] room p2(3) by metis
  note a = alloc_one_spec [OF p2(1) run] and av = alloc_one_avail [OF p2(1) run]
  have tf: "tf \<in> owned L s3" "tf \<notin> owned L s" "page_aligned tf" "free_ram L \<le> tf" "tf \<noteq> 0"
    using a owned_props [OF a(1), of tf] p2(2) by simp_all
  have pf: "page_base x = ptf \<and> ptf \<in> owned L s \<or> page_base x < free_ram L" "page_base x \<noteq> tf"
    if "x - ptf < 256" for x
    using own_frame_pages(2) [OF ok c(1) f, of x] that tf(2,4) by (auto simp: ptf_def not_le not_less)
  have alp: "aligned8 ptf" using own_frame_pages(1) [OF ok c(1) f] by (simp add: ptf_def)
  have ap: "apart tf ptf" using alp pf(2) tf(3) by (auto simp: apart_def)
  let ?s4 = "upd_proc i (\<lambda>p. p\<lparr>p_tf := tf\<rparr>) s3"
  let ?s5 = "fork_frames tf ptf pid ?s4"
  note ff = fork_frames_spec [OF ap, of _ pid ?s4]
  have same: "mem ?s4 x = mem s x" if x: "x - ptf < 256" for x
  proof -
    have "\<not> x - tf < 4096" using pf(2) [OF x] in_page_iff [OF tf(3)] by simp
    moreover have "\<not> x - tf_stack_base L i < 8192"
    proof
      assume b: "x - tf_stack_base L i < 8192"
      have "ptf \<in> owned L s" using tf_stack_pages(2) [OF L i b c(2,1)] f x by (auto simp: own_frame_def ptf_def)
      moreover have "page_base x = ptf"
      proof (rule in_page_iff [THEN iffD2])
        show "page_aligned ptf" using owned_props [OF ok \<open>ptf \<in> owned L s\<close>] by simp
        show "x - ptf < 4096" using x by (simp add: word_less_nat_alt)
      qed
      ultimately have "free_ram L \<le> page_base x" using owned_props [OF ok] by simp
      then show False using tf_stack_pages(1) [OF L i b] by simp
    qed
    ultimately show ?thesis using a(6) by (simp add: fork_child_def memset_apply)
  qed
  have get: "tf_get ?s4 ptf off = tf_get s ptf off" if "aligned8 off" "off < 256" for off
    unfolding tf_get_def by (rule load64_cong) (rule same [OF in_frame [OF that]])
  have e: "mem ?s5 x = mem ?s4 x" "mem ?s4 x = mem s x" if x: "page_base x \<notin> touched L s tf ptf" for x
  proof -
    have n: "page_base x \<noteq> tf" "\<not> page_base x < free_ram L" "\<not> x - ptf < 256"
      using x pf(1) [of x] by (auto simp: touched_def)
    have nt: "\<not> x - tf < 4096" using n(1) in_page_iff [OF tf(3)] by simp
    then have "\<not> x - tf < 256" by (simp add: word_less_nat_alt)
    then show "mem ?s5 x = mem ?s4 x" using ff(3) [of x] n(3) by (simp only: not_less)
    have "mem ?s4 x = mem ?s2 x" using nt a(6) by (simp add: memset_apply)
    also have "\<dots> = mem s x" using same_outside_byte [OF o2, of x] n(2) by simp
    finally show "mem ?s4 x = mem s x" .
  qed
  have o5: "same_outside (touched L s tf ptf) (mem s) (mem ?s5)"
    unfolding same_outside_def using e by simp
  have o45: "same_outside (touched L s tf ptf) (mem ?s4) (mem ?s5)"
    unfolding same_outside_def using e(1) by blast
  have v5: "pool_view ?s5 = pool_view (?s4\<lparr>mem := mem ?s5\<rparr>)"
    by (simp add: fork_frames_def Let_def tf_set_def pool_view_def)
  have t5: "\<forall>p \<in> touched L s tf ptf. p \<in> owned L ?s4 \<or> p < free_ram L"
    using a(3) p2(2) by (auto simp: touched_def)
  have ok4: "pool_ok L ?s4" using a(1) by simp
  note w5 = pool_write_any [OF ok4 o45 t5]
  have p5: "pool_ok L ?s5" "owned L ?s5 = insert tf (owned L s)" "avail L s = Suc (avail L ?s5)"
    using pool_frame [OF v5] w5 a(3) av p2 by simp_all
  have ne: "tf \<noteq> ptf" using pf(2) [of ptf] tf(3) by auto
  have epc: "TF_EPC < 256" by (simp add: TF_EPC_def)
  have fr: "tf_get ?s5 tf off = frame_word s ptf off"
    "tf_get ?s5 ptf off = (if off = TF_A0 then of_int pid else tf_get s ptf off)"
    if "aligned8 off" "off < 256" for off
    using ff(1,2) [OF that] get [OF that] get [of TF_EPC] epc by (simp_all add: frame_word_def)
  show ?thesis
    unfolding Let_def
    by (intro exI [of _ tf] exI [of _ s3] conjI allI impI run tf(2,3,5) ne a(5) p5 o5 fr)
qed

definition fork_end :: "proc_t \<Rightarrow> u64" where
  "fork_end p = (if p_user_stack_top p < p_heap_end p then p_heap_end p else p_user_stack_top p)"

lemma sys_fork_eq:
  assumes free: "first_index (\<lambda>p. p_state p = PROC_UNUSED) (procs s) = Some i"
    and al: "alloc_pages L 1 (fork_child L i s) = Inr (tf, s3)" "tf \<noteq> 0"
    and cur: "current_proc s3 = Some c" and s5: "s5 = fork_frames tf (p_tf (procs s3 ! c)) pid
      (upd_proc i (\<lambda>p. p\<lparr>p_tf := tf\<rparr>) s3)"
    and ne: "c \<noteq> i" and pid: "i < length (procs s3)" "p_pid (procs s3 ! i) = pid"
    and np: "alloc_pages L 1 s5 = Inr (np, s6)"
    and mk: "map_kernel L np (upd_proc i (\<lambda>p. p\<lparr>p_page_table := np\<rparr>) s6) = Inr ((), s7)"
    and e: "end_va = fork_end (procs s7 ! c)"
    and run: "for_pages (\<lambda>va. va < end_va) (fork_page L (p_page_table (procs s7 ! c)) np) USER_BASE s7 = Inr ((), s8)"
  shows "sys_fork L s = kret (p_pid (procs (upd_proc i (fork_pcb c (procs s8 ! c)) s8) ! i))
    (upd_proc i (fork_pcb c (procs s8 ! c)) s8)"
proof -
  have a: "alloc_free_proc L s = (Some i, s\<lparr>procs := (procs s)[i := zero_proc\<lparr>p_pid := int i + 1\<rparr>],
      mem := memset (mem s) (tf_stack_base L i) 0 8192\<rparr>)"
    using free by (simp add: alloc_free_proc_def)
  have b: "(s\<lparr>procs := (procs s)[i := zero_proc\<lparr>p_pid := int i + 1\<rparr>],
      mem := memset (mem s) (tf_stack_base L i) 0 8192\<rparr>)\<lparr>process_count := process_count s + 1\<rparr> = fork_child L i s"
    by (simp add: fork_child_def)
  have r: "for_pages (\<lambda>va. va < (if p_user_stack_top (procs s7 ! c) < p_heap_end (procs s7 ! c)
      then p_heap_end (procs s7 ! c) else p_user_stack_top (procs s7 ! c)))
      (fork_page L (p_page_table (procs s7 ! c)) np) USER_BASE s7 = Inr ((), s8)"
    using run unfolding e fork_end_def .
  show ?thesis
    using al cur ne pid np mk r b s5 by (simp add: sys_fork_def a Let_def)
qed

section \<open>Properties\<close>

text \<open>The process table along the way of a fork: only the PCB of the child changes.\<close>

lemma fork_procs:
  fixes s s3 s5 s7 s8 :: kstate
  assumes "i < length (procs s)" and "current_proc s = Some c"
    and "proc_view s3 = proc_view (fork_child L i s)"
    and "s5 = fork_frames tf ptf pid (upd_proc i (\<lambda>p. p\<lparr>p_tf := tf\<rparr>) s3)"
    and "proc_view s7 = proc_view (upd_proc i (\<lambda>p. p\<lparr>p_page_table := np\<rparr>) s5)" and "proc_view s8 = proc_view s7"
  shows "procs s3 = (procs s)[i := zero_proc\<lparr>p_pid := int i + 1\<rparr>]" and "current_proc s3 = Some c"
    and "procs s7 = (procs s)[i := zero_proc\<lparr>p_pid := int i + 1, p_tf := tf, p_page_table := np\<rparr>]"
    and "procs s8 = procs s7" and "current_proc s8 = Some c" and "process_count s8 = process_count s + 1"
proof -
  have pr3: "procs s3 = (procs s)[i := zero_proc\<lparr>p_pid := int i + 1\<rparr>]" "current_proc s3 = Some c"
    "process_count s3 = process_count s + 1"
    using proc_viewD(1,2,4) [OF assms(3)] assms(2) by (simp_all add: fork_child_def)
  have pr5: "procs s5 = (procs s3)[i := (procs s3 ! i)\<lparr>p_tf := tf\<rparr>]" "current_proc s5 = Some c"
    "process_count s5 = process_count s + 1"
    using pr3 by (simp_all add: assms(4) fork_frames_def Let_def)
  have pr7: "procs s7 = (procs s)[i := zero_proc\<lparr>p_pid := int i + 1, p_tf := tf, p_page_table := np\<rparr>]"
    "current_proc s7 = Some c" "process_count s7 = process_count s + 1"
    using proc_viewD(1,2,4) [OF assms(5)] pr5 pr3(1) assms(1) by simp_all
  show "procs s3 = (procs s)[i := zero_proc\<lparr>p_pid := int i + 1\<rparr>]" "current_proc s3 = Some c"
    "procs s7 = (procs s)[i := zero_proc\<lparr>p_pid := int i + 1, p_tf := tf, p_page_table := np\<rparr>]"
    "procs s8 = procs s7" "current_proc s8 = Some c" "process_count s8 = process_count s + 1"
    using proc_viewD(1,2,4) [OF assms(6)] pr3 pr7 by simp_all
qed

text \<open>The two trap frames after the frames have been written.\<close>

lemma fork_frames_kept:
  fixes s s5 s8 :: kstate
  assumes "pool_ok L s" and "c < PROCS_MAX" and "own_frame L s c" and "pool_ok L s8"
    and "owned L s5 = insert tf (owned L s)" and "same_outside (owned L s8 - owned L s5) (mem s5) (mem s8)"
    and "page_aligned tf" and off: "aligned8 off" "off < 256"
  shows "load64 (mem s8) (tf + off) = load64 (mem s5) (tf + off)"
    and "load64 (mem s8) (p_tf (procs s ! c) + off) = load64 (mem s5) (p_tf (procs s ! c) + off)"
proof -
  have keep: "load64 (mem s8) (f + off) = load64 (mem s5) (f + off)"
    if "aligned8 f" "page_base (f + off) \<in> owned L s5 \<or> page_base (f + off) < free_ram L" for f
    using that owned_props(4) [OF assms(4)]
    by (intro same_outside_load64 [OF assms(6)] aligned8_add off(1)) (auto simp: not_le [symmetric])
  show "load64 (mem s8) (tf + off) = load64 (mem s5) (tf + off)"
    by (rule keep) (use off assms(5) frame_word_page [OF assms(7)] in \<open>simp_all add: page_aligned_aligned8 assms(7)\<close>)
  have "p_tf (procs s ! c) + off - p_tf (procs s ! c) < 256" using off(2) by simp
  from own_frame_pages(2) [OF assms(1-3) this]
  show "load64 (mem s8) (p_tf (procs s ! c) + off) = load64 (mem s5) (p_tf (procs s ! c) + off)"
    by (intro keep own_frame_pages(1) [OF assms(1-3)]) (metis assms(5) insertCI)
qed

text \<open>
  C5: with a free PCB and enough pages \<open>sys_fork\<close> returns the pid of the first free slot to
  the parent. The child is runnable with the parent's stack top, heap end and name; its
  trap frame is the parent's, but for a zero in \<^verbatim>\<open>a0\<close> and the program counter after the
  \<^verbatim>\<open>ecall\<close>; its address space maps the kernel and exactly the pages the parent has mapped
  between \<^verbatim>\<open>USER_BASE\<close> and the end of its stack or heap, each to a page of its own that was
  free before, with the parent's bytes. The parent's frame gets the pid in \<^verbatim>\<open>a0\<close>, and no
  other page in use changes.
\<close>

theorem sys_fork_correct:
  assumes "pool_ok L s" and "length (procs s) = PROCS_MAX" and "current_proc s = Some c" and "c < PROCS_MAX"
    and "p_state (procs s ! c) \<noteq> PROC_UNUSED" and "own_frame L s c"
    and "first_index (\<lambda>p. p_state p = PROC_UNUSED) (procs s) = Some i"
    and "parent = procs s ! c" and "hi = unat (fork_end parent)"
    and "fork_source (mem s) (p_page_table parent) (owned L s - {p_tf parent}) hi"
    and "0x1000000 \<le> hi" and "fork_end parent \<le> kernel_base L"
    and "fork_cost L (mem s) (p_page_table parent) (fork_end parent) + 2 \<le> avail L s"
  shows "\<exists>s' p. sys_fork L s = kret (int i + 1) s' \<and> procs s' = (procs s)[i := p] \<and>
    process_count s' = process_count s + 1 \<and> current_proc s' = Some c \<and>
    p_pid p = int i + 1 \<and> p_state p = PROC_RUNNABLE \<and> p_parent p = Some c \<and>
    p_heap_end p = p_heap_end parent \<and> p_user_stack_top p = p_user_stack_top parent \<and>
    p_name p = buf_copy 64 (takeWhile (\<lambda>b. b \<noteq> 0) (p_name parent)) \<and>
    p_tf p \<notin> owned L s \<and>
    (\<forall>off. aligned8 off \<longrightarrow> off < 256 \<longrightarrow> tf_get s' (p_tf p) off = frame_word s (p_tf parent) off \<and>
       tf_get s' (p_tf parent) off = (if off = TF_A0 then of_int (int i + 1) else tf_get s (p_tf parent) off)) \<and>
    vm_ok L (p_page_table p) s' \<and>
    space_is L (p_page_table p) s s' (copied L (mem s) (p_page_table parent) hi)
      (user_byte (mem s) (p_page_table parent)) \<and>
    (\<forall>x. page_base x \<in> owned L s - {p_tf parent} \<longrightarrow> mem s' x = mem s x)"
proof -
  let ?pt = "p_page_table parent" and ?ptf = "p_tf parent" and ?P = "owned L s - {p_tf parent}"
  note fi = first_index_SomeD [OF assms(7)]
  have i: "i < PROCS_MAX" "i < length (procs s)" and ci: "c \<noteq> i" using fi assms(2,5) by auto
  have "0 < avail L s" using assms(13) by simp
  from fork_start [OF assms(1) i(1) assms(4) ci assms(6) this, of "int i + 1"]
  obtain tf s3 s5 where st: "alloc_pages L 1 (fork_child L i s) = Inr (tf, s3)" "tf \<noteq> 0" "tf \<notin> owned L s"
    "page_aligned tf" "tf \<noteq> ?ptf" "proc_view s3 = proc_view (fork_child L i s)"
    and s5: "s5 = fork_frames tf ?ptf (int i + 1) (upd_proc i (\<lambda>p. p\<lparr>p_tf := tf\<rparr>) s3)"
    and p5: "pool_ok L s5" "owned L s5 = insert tf (owned L s)" "avail L s = Suc (avail L s5)"
      "same_outside (touched L s tf ?ptf) (mem s) (mem s5)"
    and fr5: "\<And>off. aligned8 off \<Longrightarrow> off < 256 \<Longrightarrow> tf_get s5 tf off = frame_word s ?ptf off \<and>
         tf_get s5 ?ptf off = (if off = TF_A0 then of_int (int i + 1) else tf_get s ?ptf off)"
    unfolding assms(8) Let_def by blast
  have dis: "?P \<inter> touched L s tf ?ptf = {}"
    using st(3) owned_props(4) [OF assms(1)] by (fastforce simp: touched_def dest: leD)
  note fs = fork_source_outside [OF assms(10) p5(4) dis]
  have src5: "fork_source (mem s5) ?pt (owned L s5) hi"
    by (rule fork_source_mono [OF fs(2)]) (use p5(1,2) owned_props(1) in auto)
  have room5: "Suc (fork_cost L (mem s5) ?pt (fork_end parent)) \<le> avail L s5"
    using assms(13) p5(3) fs(4) [of L "unat (fork_end parent)"] by (simp add: fork_cost_def)
  obtain np s6 s7 s8 where np: "alloc_pages L 1 s5 = Inr (np, s6)"
    and s7: "map_kernel L np (upd_proc i (\<lambda>p. p\<lparr>p_page_table := np\<rparr>) s6) = Inr ((), s7)"
    and s8: "for_pages (\<lambda>va. va < fork_end parent) (fork_page L ?pt np) USER_BASE s7 = Inr ((), s8)"
    and sp: "vm_ok L np s8"
      "space_is L np s5 s8 (copied L (mem s5) ?pt hi) (user_byte (mem s5) ?pt)"
      "owned L s5 \<subseteq> owned L s8" "same_outside (owned L s8 - owned L s5) (mem s5) (mem s8)"
    and pv7: "proc_view s7 = proc_view (upd_proc i (\<lambda>p. p\<lparr>p_page_table := np\<rparr>) s5)"
    and pv8: "proc_view s8 = proc_view s7"
    using fork_space_total [OF p5(1) src5 [unfolded assms(9)] assms(11) [unfolded assms(9)] assms(12) room5, of i]
    unfolding assms(9) by blast
  define p where "p = fork_pcb c parent (zero_proc\<lparr>p_pid := int i + 1, p_tf := tf, p_page_table := np\<rparr>)"
  note fp = fork_procs [OF i(2) assms(3) st(6) s5 pv7 pv8]
  note pr3 = fp(1,2) and pr7 = fp(3) and pr8 = fp(4-6)
  let ?s' = "upd_proc i (fork_pcb c (procs s8 ! c)) s8"
  have par: "procs s7 ! c = parent" "procs s3 ! c = parent" "procs s8 ! c = parent"
    using pr7(1) pr3(1) pr8(1) ci assms(8) by simp_all
  have run: "sys_fork L s = kret (p_pid (procs ?s' ! i)) ?s'"
    by (rule sys_fork_eq [OF assms(7) st(1,2) pr3(2) _ ci _ _ np s7 refl])
      (use par s5 pr3(1) i(2) s8 in simp_all)
  have pr: "procs ?s' = (procs s)[i := p]" "process_count ?s' = process_count s + 1" "current_proc ?s' = Some c"
    using pr8 pr7(1) par(3) i(2) by (simp_all add: p_def)
  have fields: "p_pid p = int i + 1" "p_state p = PROC_RUNNABLE" "p_parent p = Some c"
    "p_heap_end p = p_heap_end parent" "p_user_stack_top p = p_user_stack_top parent"
    "p_name p = buf_copy 64 (takeWhile (\<lambda>b. b \<noteq> 0) (p_name parent))" "p_tf p = tf" "p_page_table p = np"
    by (simp_all add: p_def fork_pcb_def)
  have "space_is L np s ?s' (copied L (mem s) ?pt hi) (user_byte (mem s5) ?pt)"
    using space_is_sub [OF sp(2), of s ?s'] p5(2) fs(4) [of L hi] by auto
  then have space: "space_is L np s ?s' (copied L (mem s) ?pt hi) (user_byte (mem s) ?pt)"
    by (rule space_is_cong [rotated]) (rule fs(3) [OF copied_user refl])
  have frames: "tf_get ?s' tf off = frame_word s ?ptf off \<and>
      tf_get ?s' ?ptf off = (if off = TF_A0 then of_int (int i + 1) else tf_get s ?ptf off)"
    if off: "aligned8 off" "off < 256" for off
    using fork_frames_kept [OF assms(1,4,6) vm_okD(1) [OF sp(1)] p5(2) sp(4) st(4) off] fr5 [OF off] assms(8)
    by (simp add: tf_get_def)
  have kept: "mem ?s' x = mem s x" if x: "page_base x \<in> ?P" for x
  proof -
    have "mem s8 x = mem s5 x" by (rule same_outside_byte [OF sp(4)]) (use x p5(2) in auto)
    also have "\<dots> = mem s x" by (rule same_outside_byte [OF p5(4)]) (use x dis in blast)
    finally show ?thesis by simp
  qed
  have pid': "p_pid (procs ?s' ! i) = int i + 1" using pr(1) i(2) fields(1) by simp
  show ?thesis
    by (intro exI [of _ ?s'] exI [of _ p] conjI allI impI)
      (use run pid' pr fields st(3) frames sp(1) space kept in simp_all)
qed

text \<open>A parent with one user page, for the witness.\<close>

lemma space_fork_source:
  assumes ds: "dspace L root s0 s R c" and hi: "hi \<le> 0x8000000000"
    and user: "\<And>v fl. 0x1000000 \<le> unat v \<Longrightarrow> unat v < hi \<Longrightarrow> R v = Some fl \<Longrightarrow> fl AND PTE_U \<noteq> 0"
    and tf: "tf \<notin> owned L s"
  shows "fork_source (mem s) root (owned L s - {tf}) hi"
proof -
  have ok: "vm_ok L root s" and sp: "space_is L root s0 s R c" using ds by (simp_all add: dspace_def)
  have "walk_page (mem s) root v \<in> owned L s"
    if v: "page_aligned v" "0x1000000 \<le> unat v" "unat v < hi" "walk_page (mem s) root v \<noteq> 0" for v
  proof -
    have "v < 0x8000000000" using v(3) hi by (simp add: word_less_nat_alt)
    then have m: "mapped_as L root s0 s c (R v) v" using sp v(1) by (auto simp: space_is_def)
    show ?thesis
    proof (cases "R v")
      case None
      then show ?thesis using m v(4) by (simp add: mapped_as_def walk_page_leaf)
    next
      case (Some fl)
      then have "upage (mem s) root v \<in> owned L s" using m user [OF v(2,3) Some] by (simp add: mapped_as_def)
      then show ?thesis using v(4) by (simp add: walk_page_leaf upage_def Let_def split: if_splits)
    qed
  qed
  moreover have "owned L s - {tf} = owned L s" using tf by blast
  ultimately show ?thesis using vm_okD(2,3) [OF ok] by (simp add: fork_source_def)
qed

lemma one_parent:
  obtains r s where "pool_ok kernel_map s" and "current_proc s = Some 0"
    and "procs s = (replicate PROCS_MAX zero_proc)[0 := zero_proc\<lparr>p_pid := 1, p_state := PROC_RUNNING,
      p_tf := tf_frame kernel_map 0, p_page_table := r, p_heap_end := 0x1001000\<rparr>]"
    and "fork_source (mem s) r (owned kernel_map s - {tf_frame kernel_map 0}) 0x1001000"
    and "16000 \<le> avail kernel_map s"
proof (rule one_page_space)
  fix r s t
  let ?L = kernel_map and ?R = "(\<lambda>_. None)(0x1000000 :: u64 \<mapsto> (31 :: u64))"
  assume t: "dspace ?L r s t ?R (\<lambda>v. 0)" "16000 \<le> avail ?L t"
  define u where "u = t\<lparr>current_proc := Some 0, procs := (replicate PROCS_MAX zero_proc)[0 := zero_proc\<lparr>p_pid := 1,
    p_state := PROC_RUNNING, p_tf := tf_frame ?L 0, p_page_table := r, p_heap_end := 0x1001000\<rparr>]\<rparr>"
  have f: "pool_view u = pool_view t" "mem u = mem t" by (simp_all add: u_def pool_view_def)
  note pf = pool_frame [OF f(1), of ?L]
  have ok: "pool_ok ?L t" using t(1) vm_okD(1) by (auto simp: dspace_def)
  have "tf_frame ?L 0 \<notin> owned ?L t"
  proof
    assume "tf_frame ?L 0 \<in> owned ?L t"
    then have "free_ram ?L \<le> tf_frame ?L 0" by (rule owned_props(4) [OF ok])
    then show False by (simp add: tf_frame_def tf_stack_top_def tf_stack_base_def kernel_map_def)
  qed
  then have "fork_source (mem t) r (owned ?L t - {tf_frame ?L 0}) 0x1001000"
    by (intro space_fork_source [OF t(1)]) (auto split: if_splits)
  then show thesis using ok t(2) f(2) pf by (intro that [of u r]) (simp_all add: u_def)
qed

theorem sys_fork_correct_witness:
  "\<exists>s s'. sys_fork kernel_map s = kret 2 s' \<and> p_state (procs s' ! 1) = PROC_RUNNABLE \<and>
     tf_get s' (p_tf (procs s' ! 1)) TF_A0 = 0 \<and> tf_get s' (p_tf (procs s ! 0)) TF_A0 = 2"
proof (rule one_parent)
  fix r s
  let ?p = "zero_proc\<lparr>p_pid := 1, p_state := PROC_RUNNING, p_tf := tf_frame kernel_map 0, p_page_table := r,
    p_heap_end := 0x1001000\<rparr>"
  assume s: "pool_ok kernel_map s" "current_proc s = Some 0"
    "procs s = (replicate PROCS_MAX zero_proc)[0 := ?p]"
    "fork_source (mem s) r (owned kernel_map s - {tf_frame kernel_map 0}) 0x1001000"
    "16000 \<le> avail kernel_map s"
  have p: "procs s ! 0 = ?p" "length (procs s) = PROCS_MAX" by (simp_all add: s(3) PROCS_MAX_def)
  have e: "fork_end ?p = 0x1001000" by (simp add: fork_end_def zero_proc_def)
  have first: "first_index (\<lambda>p. p_state p = PROC_UNUSED) (procs s) = Some 1"
    unfolding s(3) by (simp add: first_index_Some zero_proc_def PROCS_MAX_def)
  have cost: "fork_cost kernel_map (mem s) (p_page_table (procs s ! 0)) (fork_end (procs s ! 0)) + 2 \<le> avail kernel_map s"
  proof -
    have "card (space_paths (copied kernel_map (mem s) r 0x1001000)) \<le> 1026"
      by (rule card_space_paths)
        (auto simp: copied_def kernel_space_def region_def kernel_map_def split: if_splits)
    then show ?thesis using s(5) by (simp add: p(1) e fork_cost_def user_pages_def)
  qed
  have own: "own_frame kernel_map s 0" by (simp add: own_frame_def p(1))
  have src: "fork_source (mem s) (p_page_table (procs s ! 0)) (owned kernel_map s - {p_tf (procs s ! 0)}) 0x1001000"
    using s(4) by (simp add: p(1))
  have misc: "0 < PROCS_MAX" "p_state (procs s ! 0) \<noteq> PROC_UNUSED" "0x1001000 = unat (fork_end (procs s ! 0))"
    "0x1000000 \<le> (0x1001000 :: nat)" "fork_end (procs s ! 0) \<le> kernel_base kernel_map"
    unfolding p(1) e by (simp_all add: PROCS_MAX_def kernel_map_def)
  from sys_fork_correct [OF s(1) p(2) s(2) misc(1,2) own first refl misc(3) src misc(4,5) cost]
  obtain s' q where q: "sys_fork kernel_map s = kret (int 1 + 1) s'" "procs s' = (procs s)[1 := q]"
    "p_state q = PROC_RUNNABLE"
    and w: "\<And>off. aligned8 off \<Longrightarrow> off < 256 \<Longrightarrow> tf_get s' (p_tf q) off = frame_word s (p_tf (procs s ! 0)) off \<and>
       tf_get s' (p_tf (procs s ! 0)) off = (if off = TF_A0 then of_int (int 1 + 1) else tf_get s (p_tf (procs s ! 0)) off)"
    by blast
  have "TF_A0 < 256" by (simp add: TF_A0_def)
  then have "tf_get s' (p_tf q) TF_A0 = 0" "tf_get s' (p_tf (procs s ! 0)) TF_A0 = 2"
    using w [of TF_A0] by (simp_all add: frame_word_def)
  moreover have "procs s' ! 1 = q" using q(2) p(2) by (simp add: PROCS_MAX_def)
  ultimately show ?thesis using q(1,3) by (intro exI [of _ s] exI [of _ s']) simp
qed

end
