(* ===== verification/Sys_Process.thy ===== *)
theory Sys_Process
  imports Scheduler User_Mem
begin

text \<open>
  The end of a process: \<^verbatim>\<open>sys_exit\<close> leaves a zombie, \<^verbatim>\<open>sys_wait\<close> reaps one. A parent is
  found by its slot (\<^verbatim>\<open>p->parent == parent\<close> compares pointers into \<^verbatim>\<open>procs[]\<close>). The log
  lines are not modelled.
\<close>

section \<open>The code\<close>

text \<open>A \<^verbatim>\<open>NULL\<close> \<^verbatim>\<open>current_proc\<close> faults at its field \<^verbatim>\<open>state\<close>, at offset 4.\<close>

definition sys_exit :: "int \<Rightarrow> kstate \<Rightarrow> (unit, kstate) kres" where
  "sys_exit code s =
     (case current_proc s of
        None \<Rightarrow> kpanic (Page_fault 4)
      | Some c \<Rightarrow> kret () (upd_proc c (\<lambda>p. p\<lparr>p_state := PROC_ZOMBIE, p_exit_code := code\<rparr>) s))"

definition zombie_child :: "nat option \<Rightarrow> kstate \<Rightarrow> nat \<Rightarrow> bool" where
  "zombie_child parent s i \<longleftrightarrow>
     p_state (procs s ! i) = PROC_ZOMBIE \<and> p_parent (procs s ! i) = parent"

text \<open>What \<^verbatim>\<open>sys_wait\<close> does with the zombie it has found.\<close>

definition reap :: "u64 \<Rightarrow> nat \<Rightarrow> kstate \<Rightarrow> (int, kstate) kres" where
  "reap status i s =
     kbind
       (if status \<noteq> 0
        then kbind (user_write status (word_bytes 4 (of_int (p_exit_code (procs s ! i)))) (enable_sum s))
               (\<lambda>_ s. kret () (disable_sum s))
        else kret () s)
       (\<lambda>_ s. let dead_pid = p_pid (procs s ! i) in
          kbind (free_proc i s) (\<lambda>_ s. kret dead_pid s))"

text \<open>
  The outer loop of \<^verbatim>\<open>sys_wait\<close>: a round ends in the reaping of the first zombie child, or
  in \<^verbatim>\<open>yield\<close>. It has no bound, so the function is partial.
\<close>

partial_function (option) wait_loop :: "linker_syms \<Rightarrow> nat option \<Rightarrow> u64 \<Rightarrow> kstate \<Rightarrow> int fres option" where
  "wait_loop L parent status s =
     (case find (zombie_child parent s) [0..<PROCS_MAX] of
        Some i \<Rightarrow> Some (flift (reap status i s))
      | None \<Rightarrow>
          (case yield L s of
             Inl e \<Rightarrow> Some (Inl e)
           | Inr (r, s) \<Rightarrow>
               (case r of
                  Ret _ \<Rightarrow> wait_loop L parent status s
                | To_user \<Rightarrow> Some (kret To_user s)
                | To_context i j \<Rightarrow> Some (kret (To_context i j) s))))"

definition sys_wait :: "linker_syms \<Rightarrow> u64 \<Rightarrow> kstate \<Rightarrow> int fres" where
  "sys_wait L status s =
     (case wait_loop L (current_proc s) status s of None \<Rightarrow> Inl Spin | Some r \<Rightarrow> r)"

section \<open>The outcomes of \<^verbatim>\<open>sys_wait\<close>\<close>

lemma zombie_wake_down:
  "c < length (procs s) \<Longrightarrow> zombie_child p (wake_down c s) = zombie_child p s"
  by (rule ext) (auto simp: zombie_child_def wake_down_at)

lemma successor_wake_down:
  assumes "current_proc s = Some c" and "c < length (procs s)"
  shows "successor (wake_down c s) = successor s"
proof -
  have "ready (wake_down c s) i = ready s i" for i
    using assms by (auto simp: ready_def demoted_def wake_down_at)
  then have "ready (wake_down c s) = ready s" by (rule ext)
  then show ?thesis by (simp add: successor_def)
qed

definition stuck :: "nat option \<Rightarrow> kstate \<Rightarrow> bool" where
  "stuck p s \<longleftrightarrow>
     (\<exists>c. p = Some c \<and> current_proc s = Some c \<and> c < length (procs s) \<and>
       find (zombie_child p s) [0..<PROCS_MAX] = None \<and> successor s = Some c)"

lemma stuck_step:
  assumes "stuck p s"
  shows "\<exists>t. yield L s = kret (Ret ()) t \<and> stuck p t \<and> find (zombie_child p s) [0..<PROCS_MAX] = None"
proof -
  obtain c where c: "p = Some c" "current_proc s = Some c" "c < length (procs s)"
    "find (zombie_child p s) [0..<PROCS_MAX] = None" "successor s = Some c"
    using assms by (auto simp: stuck_def)
  let ?t = "wake_down c s"
  have "yield L s = kret (Ret ()) ?t" using yield_eq [OF c(2,3,5), of L] by simp
  moreover have "stuck p ?t"
    using c successor_wake_down [OF c(2,3)] zombie_wake_down [OF c(3), of p] by (simp add: stuck_def)
  ultimately show ?thesis using c(4) by blast
qed

lemma wait_loop_spins:
  assumes "wait_loop L p status s = Some r"
  shows "\<not> stuck p s"
proof (rule wait_loop.raw_induct [OF _ assms, where P = "\<lambda>L p status s r. \<not> stuck p s"])
  fix f :: "linker_syms \<Rightarrow> nat option \<Rightarrow> u64 \<Rightarrow> kstate \<Rightarrow> int fres option" and L p status s r
  assume ih: "\<And>L p status s r. f L p status s = Some r \<Longrightarrow> \<not> stuck p s"
    and run: "(case find (zombie_child p s) [0..<PROCS_MAX] of
        Some i \<Rightarrow> Some (flift (reap status i s))
      | None \<Rightarrow>
          (case yield L s of
             Inl e \<Rightarrow> Some (Inl e)
           | Inr (r, s) \<Rightarrow>
               (case r of
                  Ret _ \<Rightarrow> f L p status s
                | To_user \<Rightarrow> Some (kret To_user s)
                | To_context i j \<Rightarrow> Some (kret (To_context i j) s)))) = Some r"
  show "\<not> stuck p s"
  proof
    assume "stuck p s"
    from stuck_step [OF this, of L] obtain t where "yield L s = kret (Ret ()) t" "stuck p t"
      "find (zombie_child p s) [0..<PROCS_MAX] = None" by blast
    with run ih show False by (auto split: prod.splits)
  qed
qed

lemma find_least:
  "find P [0..<n] = (if \<exists>i < n. P i then Some (LEAST i. P i) else None)"
proof (cases "find P [0..<n]")
  case None
  then show ?thesis by (auto simp: find_None_iff)
next
  case (Some k)
  then have k: "k < n" "P k" "\<forall>j < k. \<not> P j" by (auto simp: find_Some_iff)
  then have "(LEAST i. P i) = k" by (intro Least_equality) (auto simp: not_less [symmetric])
  then show ?thesis using Some k by auto
qed

text \<open>
  C22: \<^verbatim>\<open>sys_wait\<close> has three outcomes. If the caller has a zombie child, it reaps the one in the
  lowest slot. Otherwise, if the scheduler goes for another process, that process runs, and
  the call does not return. If the scheduler stays with the caller, the call never ends: with
  the shell as the only process beside the idle one, waiting without a child hangs the kernel.
\<close>

theorem sys_wait_outcome:
  assumes "current_proc s = Some c" and "c < PROCS_MAX" and "length (procs s) = PROCS_MAX"
    and "\<not> g_startup s" and "successor s = Some n"
  shows "sys_wait L status s =
    (if \<exists>i < PROCS_MAX. zombie_child (Some c) s i
     then flift (reap status (LEAST i. zombie_child (Some c) s i) s)
     else if n = c then Inl Spin
     else kret To_user (switch_space L n (wake_up n (wake_down c s))))"
proof -
  have c: "c < length (procs s)" using assms(2,3) by simp
  note y = yield_eq [OF assms(1) c assms(5), of L]
  note z = find_least [of "zombie_child (Some c) s" PROCS_MAX]
  show ?thesis
  proof (cases "\<exists>i < PROCS_MAX. zombie_child (Some c) s i")
    case True
    then show ?thesis using z by (subst sys_wait_def, subst wait_loop.simps) (simp add: assms(1))
  next
    case False
    then have none: "find (zombie_child (Some c) s) [0..<PROCS_MAX] = None" using z by simp
    show ?thesis
    proof (cases "n = c")
      case True
      have "stuck (current_proc s) s" using assms(1,5) c none True by (simp add: stuck_def)
      then have "wait_loop L (current_proc s) status s = None"
        using wait_loop_spins by (cases "wait_loop L (current_proc s) status s") auto
      then show ?thesis unfolding if_not_P [OF False] by (simp add: sys_wait_def True)
    next
      case ne: False
      then show ?thesis unfolding if_not_P [OF False] using none y assms(1,4)
        by (subst sys_wait_def, subst wait_loop.simps) (simp add: Let_def)
    qed
  qed
qed

text \<open>The idle process and the shell, as after the boot.\<close>

definition shell_alone :: kstate where
  "shell_alone = (boot_state kernel_map)\<lparr>g_startup := False, process_count := 2,
     current_proc := Some 1, idle_proc := Some 0,
     procs := [zero_proc\<lparr>p_pid := 1, p_state := PROC_RUNNABLE\<rparr>,
       zero_proc\<lparr>p_pid := 2, p_state := PROC_RUNNING\<rparr>,
       zero_proc, zero_proc, zero_proc, zero_proc, zero_proc, zero_proc]\<rparr>"

theorem sys_wait_outcome_witness: "sys_wait kernel_map 0 shell_alone = Inl Spin"
proof -
  have p: "procs shell_alone ! 1 = zero_proc\<lparr>p_pid := 2, p_state := PROC_RUNNING\<rparr>"
    by (simp add: shell_alone_def)
  have r: "ready shell_alone 1"
    by (simp add: ready_def demoted_def p PROCS_MAX_def) (simp add: shell_alone_def)
  have "(LEAST i. ready shell_alone i) = 1"
    using r by (intro Least_equality) (simp_all add: ready_def)
  then have succ: "successor shell_alone = Some 1" using r by (auto simp: successor_def)
  have no: "\<not> (\<exists>i < PROCS_MAX. zombie_child (Some 1) shell_alone i)"
  proof -
    have "list_all (\<lambda>p. p_state p \<noteq> PROC_ZOMBIE) (procs shell_alone)" "length (procs shell_alone) = 8"
      by (simp_all add: shell_alone_def zero_proc_def)
    then show ?thesis by (auto simp: zombie_child_def list_all_length PROCS_MAX_def)
  qed
  have "current_proc shell_alone = Some 1" "1 < PROCS_MAX" "length (procs shell_alone) = PROCS_MAX"
    "\<not> g_startup shell_alone" by (simp_all add: shell_alone_def PROCS_MAX_def)
  from sys_wait_outcome [OF this succ, of kernel_map 0, unfolded if_not_P [OF no]]
  show ?thesis by simp
qed

end
