(* ===== verification/Elf_Loader.thy ===== *)
theory Elf_Loader
  imports Proc_Create
begin

text \<open>
  \<^verbatim>\<open>kernel/elf-loader.c\<close>: the segments of an ELF file are laid out as one flat image in
  pages of the pool, the addresses of the user stack and heap are looked up in the symbol
  table of the file, and a process is made from the image. The fields of the ELF structs
  (\<^verbatim>\<open>include/elf-loader.h\<close>) are read from memory at their offsets.
\<close>

section \<open>ELF structures\<close>

definition ELF_MAGIC :: u32 where "ELF_MAGIC = 0x464C457F"
definition PT_LOAD :: u32 where "PT_LOAD = 1"

definition e_magic :: "mem \<Rightarrow> u64 \<Rightarrow> u32" where "e_magic m h = load32 m h"
definition e_phoff :: "mem \<Rightarrow> u64 \<Rightarrow> u64" where "e_phoff m h = load64 m (h + 32)"
definition e_shoff :: "mem \<Rightarrow> u64 \<Rightarrow> u64" where "e_shoff m h = load64 m (h + 40)"
definition e_phnum :: "mem \<Rightarrow> u64 \<Rightarrow> u16" where "e_phnum m h = load16 m (h + 56)"
definition e_shnum :: "mem \<Rightarrow> u64 \<Rightarrow> u16" where "e_shnum m h = load16 m (h + 60)"

definition elf_phdr :: "mem \<Rightarrow> u64 \<Rightarrow> nat \<Rightarrow> u64" where
  "elf_phdr m h i = h + e_phoff m h + of_nat i * 56"

definition p_type :: "mem \<Rightarrow> u64 \<Rightarrow> u32" where "p_type m a = load32 m a"
definition p_offset :: "mem \<Rightarrow> u64 \<Rightarrow> u64" where "p_offset m a = load64 m (a + 8)"
definition p_vaddr :: "mem \<Rightarrow> u64 \<Rightarrow> u64" where "p_vaddr m a = load64 m (a + 16)"
definition p_filesz :: "mem \<Rightarrow> u64 \<Rightarrow> u64" where "p_filesz m a = load64 m (a + 32)"
definition p_memsz :: "mem \<Rightarrow> u64 \<Rightarrow> u64" where "p_memsz m a = load64 m (a + 40)"

definition elf_shdr :: "mem \<Rightarrow> u64 \<Rightarrow> nat \<Rightarrow> u64" where
  "elf_shdr m h i = h + e_shoff m h + of_nat i * 64"

definition sh_name :: "mem \<Rightarrow> u64 \<Rightarrow> u32" where "sh_name m a = load32 m a"
definition sh_offset :: "mem \<Rightarrow> u64 \<Rightarrow> u64" where "sh_offset m a = load64 m (a + 24)"
definition sh_size :: "mem \<Rightarrow> u64 \<Rightarrow> u64" where "sh_size m a = load64 m (a + 32)"

definition e_shstrndx :: "mem \<Rightarrow> u64 \<Rightarrow> u16" where "e_shstrndx m h = load16 m (h + 62)"
definition st_name :: "mem \<Rightarrow> u64 \<Rightarrow> u32" where "st_name m a = load32 m a"
definition st_value :: "mem \<Rightarrow> u64 \<Rightarrow> u64" where "st_value m a = load64 m (a + 8)"

section \<open>Symbols\<close>

text \<open>\<^verbatim>\<open>strcmp\<close> with a literal as its second argument.\<close>

primrec strcmp_lit :: "mem \<Rightarrow> u64 \<Rightarrow> u8 list \<Rightarrow> int" where
  "strcmp_lit m p [] = uint (m p)"
| "strcmp_lit m p (b # bs) =
     (if m p \<noteq> 0 \<and> m p = b then strcmp_lit m (p + 1) bs else uint (m p) - uint b)"

lemma strcmp_lit_eq: "cstr_at m q bs \<Longrightarrow> strcmp m p q = Some (strcmp_lit m p bs)"
  by (induction bs arbitrary: p q) (subst strcmp.simps, auto)+

text \<open>The first loop of \<^verbatim>\<open>get_symbol_address\<close>: the last section of each name, 0 for none.\<close>

definition find_sections :: "mem \<Rightarrow> u64 \<Rightarrow> u64 \<times> u64" where
  "find_sections m elf =
     (let names = elf + sh_offset m (elf_shdr m elf (unat (e_shstrndx m elf))) in
      fold (\<lambda>i (symtab, strtab).
          (let shdr = elf_shdr m elf i; name = names + ucast (sh_name m shdr) in
           if strcmp_lit m name (bytes_of ''.symtab'') = 0 then (shdr, strtab)
           else if strcmp_lit m name (bytes_of ''.strtab'') = 0 then (symtab, shdr)
           else (symtab, strtab)))
        [0..<unat (e_shnum m elf)] (0, 0))"

definition get_symbol_address :: "u64 \<Rightarrow> u8 list \<Rightarrow> kstate \<Rightarrow> (u64, kstate) kres" where
  "get_symbol_address elf symbol_name s =
     (let m = mem s; (symtab, strtab) = find_sections m elf in
      if symtab = 0 \<or> strtab = 0 then kpanic Missing_symtab
      else
        (let symbols = elf + sh_offset m symtab;
             symbol_count = sh_size m symtab div 24;
             names = elf + sh_offset m strtab;
             sym = (\<lambda>i. symbols + of_nat i * 24)
         in case find (\<lambda>i. strcmp_lit m (names + ucast (st_name m (sym i))) symbol_name = 0)
                   [0..<unat symbol_count] of
              None \<Rightarrow> kpanic Symbol_not_found
            | Some i \<Rightarrow> kret (st_value m (sym i)) s))"

section \<open>Segments\<close>

text \<open>The first loop of \<^verbatim>\<open>extract_flat_binary_from_elf\<close>: the bounds of the loaded segments.\<close>

definition segment_bounds :: "mem \<Rightarrow> u64 \<Rightarrow> u64 \<times> u64" where
  "segment_bounds m elf =
     fold (\<lambda>i (min_vaddr, max_vaddr).
         (let ph = elf_phdr m elf i in
          if p_type m ph \<noteq> PT_LOAD then (min_vaddr, max_vaddr)
          else
            (if p_vaddr m ph < min_vaddr then p_vaddr m ph else min_vaddr,
             if max_vaddr < p_vaddr m ph + p_memsz m ph then p_vaddr m ph + p_memsz m ph
             else max_vaddr)))
       [0..<unat (e_phnum m elf)] (- 1, 0)"

text \<open>The body of the second loop: the file contents of segment \<open>i\<close>.\<close>

definition load_segment :: "u64 \<Rightarrow> u64 \<Rightarrow> u64 \<Rightarrow> nat \<Rightarrow> mem \<Rightarrow> mem" where
  "load_segment elf flat_image min_vaddr i m =
     (let ph = elf_phdr m elf i in
      if p_type m ph \<noteq> PT_LOAD then m
      else memcpy m (flat_image + (p_vaddr m ph - min_vaddr)) (elf + p_offset m ph) (p_filesz m ph))"

text \<open>
  The loop reads \<^verbatim>\<open>e_phnum\<close> again before each round; \<open>load_segments\<close> runs \<open>k\<close> more rounds
  at most, and \<^verbatim>\<open>e_phnum\<close> has 16 bits.
\<close>

primrec load_segments :: "u64 \<Rightarrow> u64 \<Rightarrow> u64 \<Rightarrow> nat \<Rightarrow> nat \<Rightarrow> mem \<Rightarrow> mem" where
  "load_segments elf flat_image min_vaddr i 0 m = m"
| "load_segments elf flat_image min_vaddr i (Suc k) m =
     (if i < unat (e_phnum m elf)
      then load_segments elf flat_image min_vaddr (Suc i) k (load_segment elf flat_image min_vaddr i m)
      else m)"

definition set_user_globals :: "u64 \<Rightarrow> kstate \<Rightarrow> (unit, kstate) kres" where
  "set_user_globals elf s =
     kbind (get_symbol_address elf (bytes_of ''__user_stack_top'') s) (\<lambda>a s.
     kbind (get_symbol_address elf (bytes_of ''__user_stack_bottom'') (s\<lparr>g_user_stack_top := a\<rparr>)) (\<lambda>a s.
     kbind (get_symbol_address elf (bytes_of ''__user_heap_start'') (s\<lparr>g_user_stack_bottom := a\<rparr>)) (\<lambda>a s.
     kbind (get_symbol_address elf (bytes_of ''__user_heap_end'') (s\<lparr>g_user_heap_start := a\<rparr>)) (\<lambda>a s.
       kret () (s\<lparr>g_user_heap_end := a\<rparr>)))))"

definition extract_flat_binary_from_elf ::
  "linker_syms \<Rightarrow> u64 \<Rightarrow> bool \<Rightarrow> kstate \<Rightarrow> (nat, kstate) kres" where
  "extract_flat_binary_from_elf L elf create_process s =
     (if e_magic (mem s) elf \<noteq> ELF_MAGIC then kpanic Invalid_elf_magic
      else
        (let (min_vaddr, max_vaddr) = segment_bounds (mem s) elf;
             min_vaddr = min_vaddr AND NOT (4096 - 1);
             max_vaddr = (max_vaddr + 4096 - 1) AND NOT (4096 - 1);
             image_size = max_vaddr - min_vaddr
         in kbind (alloc_pages L ((image_size + 4096 - 1) div 4096) s) (\<lambda>flat_image s.
            (let s = s\<lparr>mem := memset (mem s) flat_image 0 image_size\<rparr>;
                 s = s\<lparr>mem := load_segments elf flat_image min_vaddr 0 65536 (mem s)\<rparr>
             in kbind (set_user_globals elf s) (\<lambda>_ s.
                  if create_process then create_init_process L flat_image image_size s
                  else exec_process L flat_image image_size s)))))"

section \<open>The flat image\<close>

text \<open>
  The file has \<open>len\<close> bytes at \<open>elf\<close>, the image \<open>isz\<close> bytes at \<open>flat\<close>; they are apart, the
  program headers and the contents of every loaded segment lie in the file, and every
  loaded segment fits the image.
\<close>

definition elf_fits :: "mem \<Rightarrow> u64 \<Rightarrow> nat \<Rightarrow> u64 \<Rightarrow> nat \<Rightarrow> u64 \<Rightarrow> bool" where
  "elf_fits m elf len flat_image isz min_vaddr \<longleftrightarrow>
     len < 2 ^ 64 \<and> isz < 2 ^ 64 \<and> 64 \<le> len \<and>
     (\<forall>x. unat (x - elf) < len \<longrightarrow> isz \<le> unat (x - flat_image)) \<and>
     unat (e_phoff m elf) + 56 * unat (e_phnum m elf) \<le> len \<and>
     (\<forall>i < unat (e_phnum m elf). let ph = elf_phdr m elf i in
        p_type m ph = PT_LOAD \<longrightarrow>
          unat (p_offset m ph) + unat (p_filesz m ph) \<le> len \<and>
          unat (p_vaddr m ph - min_vaddr) + unat (p_filesz m ph) \<le> isz)"

text \<open>Byte \<open>j\<close> of the image after the first \<open>n\<close> segments, with \<open>old\<close> there before: the last segment wins.\<close>

primrec segment_byte :: "mem \<Rightarrow> u64 \<Rightarrow> u64 \<Rightarrow> nat \<Rightarrow> nat \<Rightarrow> u8 \<Rightarrow> u8" where
  "segment_byte m elf min_vaddr j 0 old = old"
| "segment_byte m elf min_vaddr j (Suc n) old =
     (let ph = elf_phdr m elf n; v = unat (p_vaddr m ph - min_vaddr) in
      if p_type m ph = PT_LOAD \<and> v \<le> j \<and> j < v + unat (p_filesz m ph)
      then m (elf + p_offset m ph + of_nat (j - v))
      else segment_byte m elf min_vaddr j n old)"

lemma in_region:
  fixes x b u :: u64
  assumes "unat (x - (b + u)) < k" and "unat u + k \<le> len" and "len < 2 ^ 64"
  shows "unat (x - b) < len" and "unat (x - b) = unat u + unat (x - (b + u))"
proof -
  have "x - b = u + (x - (b + u))" by simp
  then show eq: "unat (x - b) = unat u + unat (x - (b + u))"
    using assms by (simp only:) (subst unat_add_u64, simp_all)
  then show "unat (x - b) < len" using assms by simp
qed

lemma header_cong:
  assumes same: "\<forall>x. unat (x - elf) < len \<longrightarrow> m' x = m x" and len: "len < 2 ^ 64"
  shows "unat u + 2 \<le> len \<Longrightarrow> load16 m' (elf + u) = load16 m (elf + u)"
    and "unat u + 4 \<le> len \<Longrightarrow> load32 m' (elf + u) = load32 m (elf + u)"
    and "unat u + 8 \<le> len \<Longrightarrow> load64 m' (elf + u) = load64 m (elf + u)"
proof -
  have s: "m' x = m x" if "unat (x - (elf + u)) < k" "unat u + k \<le> len" for x k
    using same in_region(1) [OF that len] by simp
  show "unat u + 2 \<le> len \<Longrightarrow> load16 m' (elf + u) = load16 m (elf + u)"
    by (rule load16_cong) (auto intro: s [of _ 2] simp: word_less_nat_alt)
  show "unat u + 4 \<le> len \<Longrightarrow> load32 m' (elf + u) = load32 m (elf + u)"
    by (rule load32_cong) (auto intro: s [of _ 4] simp: word_less_nat_alt)
  show "unat u + 8 \<le> len \<Longrightarrow> load64 m' (elf + u) = load64 m (elf + u)"
    by (rule load64_cong) (auto intro: s [of _ 8] simp: word_less_nat_alt)
qed

lemma elf_same:
  assumes fits: "elf_fits m elf len flat_image isz min_vaddr"
    and same: "\<forall>x. unat (x - elf) < len \<longrightarrow> m' x = m x"
  shows "e_phnum m' elf = e_phnum m elf"
    and "i < unat (e_phnum m elf) \<Longrightarrow> elf_phdr m' elf i = elf_phdr m elf i"
    and "i < unat (e_phnum m elf) \<Longrightarrow> p_type m' (elf_phdr m elf i) = p_type m (elf_phdr m elf i)"
    and "i < unat (e_phnum m elf) \<Longrightarrow> p_offset m' (elf_phdr m elf i) = p_offset m (elf_phdr m elf i)"
    and "i < unat (e_phnum m elf) \<Longrightarrow> p_vaddr m' (elf_phdr m elf i) = p_vaddr m (elf_phdr m elf i)"
    and "i < unat (e_phnum m elf) \<Longrightarrow> p_filesz m' (elf_phdr m elf i) = p_filesz m (elf_phdr m elf i)"
proof -
  have len: "len < 2 ^ 64" "64 \<le> len" using fits by (auto simp: elf_fits_def)
  note h = header_cong [of elf len m' m, OF same len(1)]
  show "e_phnum m' elf = e_phnum m elf" using h(1) [of 56] len by (simp add: e_phnum_def)
  have off: "e_phoff m' elf = e_phoff m elf" using h(3) [of 32] len by (simp add: e_phoff_def)
  then show "elf_phdr m' elf i = elf_phdr m elf i" by (simp add: elf_phdr_def)
  assume i: "i < unat (e_phnum m elf)"
  have tab: "unat (e_phoff m elf) + 56 * unat (e_phnum m elf) \<le> len" using fits by (simp add: elf_fits_def)
  have field: "unat (e_phoff m elf + of_nat i * 56 + of_nat k) = unat (e_phoff m elf) + i * 56 + k"
    if "k < 56" for k
  proof -
    have s: "unat (e_phoff m elf) + i * 56 + 56 \<le> len" using tab i by linarith
    have u1: "unat (of_nat i * 56 :: u64) = i * 56"
      using s len(1) by (simp add: unat_word_ariths unat_of_nat_u64)
    have u2: "unat (e_phoff m elf + of_nat i * 56) = unat (e_phoff m elf) + i * 56"
      using s len(1) u1 by (subst unat_add_u64) simp_all
    show ?thesis using s len(1) u2 that by (subst unat_add_u64) (simp_all add: unat_of_nat_u64)
  qed
  have s: "unat (e_phoff m elf) + i * 56 + 56 \<le> len" using tab i by linarith
  have ph: "elf_phdr m elf i + of_nat k = elf + (e_phoff m elf + of_nat i * 56 + of_nat k)" for k
    by (simp add: elf_phdr_def)
  show "p_type m' (elf_phdr m elf i) = p_type m (elf_phdr m elf i)"
    using h(2) [of "e_phoff m elf + of_nat i * 56 + of_nat 0"] field [of 0] s ph [of 0] by (simp add: p_type_def)
  have f8: "load64 m' (elf_phdr m elf i + of_nat k) = load64 m (elf_phdr m elf i + of_nat k)" if "k \<le> 48" for k
    unfolding ph using h(3) field [of k] s that by simp
  show "p_offset m' (elf_phdr m elf i) = p_offset m (elf_phdr m elf i)"
    using f8 [of 8] by (simp add: p_offset_def)
  show "p_vaddr m' (elf_phdr m elf i) = p_vaddr m (elf_phdr m elf i)"
    using f8 [of 16] by (simp add: p_vaddr_def)
  show "p_filesz m' (elf_phdr m elf i) = p_filesz m (elf_phdr m elf i)"
    using f8 [of 32] by (simp add: p_filesz_def)
qed

text \<open>One round on the original memory: the bytes of the image it sets.\<close>

lemma load_segment_bytes:
  assumes fits: "elf_fits m elf len flat_image isz min_vaddr" and i: "i < unat (e_phnum m elf)"
    and same_all: "\<forall>x. unat (x - elf) < len \<longrightarrow> m' x = m x"
  defines "ph \<equiv> elf_phdr m elf i"
  defines "v \<equiv> unat (p_vaddr m ph - min_vaddr)"
  shows "isz \<le> unat (x - flat_image) \<Longrightarrow> load_segment elf flat_image min_vaddr i m' x = m' x"
    and "j < isz \<Longrightarrow> load_segment elf flat_image min_vaddr i m' (flat_image + of_nat j) =
      (if p_type m ph = PT_LOAD \<and> v \<le> j \<and> j < v + unat (p_filesz m ph)
       then m (elf + p_offset m ph + of_nat (j - v)) else m' (flat_image + of_nat j))"
proof -
  let ?dst = "flat_image + (p_vaddr m ph - min_vaddr)" and ?src = "elf + p_offset m ph"
  let ?n = "p_filesz m ph"
  have same: "\<And>x. unat (x - elf) < len \<Longrightarrow> m' x = m x" using same_all by blast
  note e = elf_same [OF fits same_all]
  have len: "len < 2 ^ 64" "isz < 2 ^ 64"
    and apart: "\<And>x. unat (x - elf) < len \<Longrightarrow> isz \<le> unat (x - flat_image)"
    using fits unfolding elf_fits_def by blast+
  have seg: "load_segment elf flat_image min_vaddr i m' =
      (if p_type m ph = PT_LOAD then memcpy m' ?dst ?src ?n else m')"
    using e(2-6) i by (simp add: load_segment_def ph_def Let_def)
  show "load_segment elf flat_image min_vaddr i m' x = m' x" if out: "isz \<le> unat (x - flat_image)"
  proof (cases "p_type m ph = PT_LOAD")
    case True
    then have b: "unat (p_offset m ph) + unat ?n \<le> len" "v + unat ?n \<le> isz"
      using fits i unfolding elf_fits_def Let_def ph_def v_def by blast+
    have ov: "?n \<le> ?dst - ?src"
    proof (rule ccontr)
      assume "\<not> ?n \<le> ?dst - ?src"
      then have lt: "unat (?dst - (elf + p_offset m ph)) < unat ?n" by (simp add: word_le_nat_alt not_le)
      then have "isz \<le> unat (?dst - flat_image)" using apart in_region(1) [OF lt b(1) len(1)] by blast
      then show False using b(2) lt by (simp add: v_def)
    qed
    have "\<not> unat (x - ?dst) < unat ?n"
      using in_region(1) [of x flat_image "p_vaddr m ph - min_vaddr" "unat ?n" isz] b(2) len(2) out
      by (auto simp: v_def)
    then show ?thesis using True by (simp add: seg memcpy_apply [OF disjI2 [OF ov]] word_less_nat_alt)
  qed (simp add: seg)
  show "load_segment elf flat_image min_vaddr i m' (flat_image + of_nat j) =
      (if p_type m ph = PT_LOAD \<and> v \<le> j \<and> j < v + unat ?n
       then m (elf + p_offset m ph + of_nat (j - v)) else m' (flat_image + of_nat j))"
    if j: "j < isz"
  proof (cases "p_type m ph = PT_LOAD")
    case True
    then have b: "unat (p_offset m ph) + unat ?n \<le> len" "v + unat ?n \<le> isz"
      using fits i unfolding elf_fits_def Let_def ph_def v_def by blast+
    have ov: "?n \<le> ?dst - ?src"
    proof (rule ccontr)
      assume "\<not> ?n \<le> ?dst - ?src"
      then have lt: "unat (?dst - (elf + p_offset m ph)) < unat ?n" by (simp add: word_le_nat_alt not_le)
      then have "isz \<le> unat (?dst - flat_image)" using apart in_region(1) [OF lt b(1) len(1)] by blast
      then show False using b(2) lt by (simp add: v_def)
    qed
    have uj: "unat (of_nat j :: u64) = j" using j len(2) by (intro unat_of_nat_u64) simp
    have d: "unat (flat_image + of_nat j - ?dst) = (if v \<le> j then j - v else j + 18446744073709551616 - v)"
      using unat_diff_u64 [of "of_nat j" "p_vaddr m ph - min_vaddr"] uj by (simp add: v_def)
    have v64: "v < 18446744073709551616" unfolding v_def by (rule unat_u64_bound)
    have inside: "flat_image + of_nat j - ?dst < ?n \<longleftrightarrow> v \<le> j \<and> j < v + unat ?n"
      using d b(2) len(2) by (auto simp: word_less_nat_alt)
    have "m' (?src + (flat_image + of_nat j - ?dst)) = m (elf + p_offset m ph + of_nat (j - v))"
      if h: "v \<le> j" "j < v + unat ?n"
    proof -
      have eq: "flat_image + of_nat j - ?dst = of_nat (j - v)"
        using d h(1) by (metis of_nat_unat_u64)
      have "unat (of_nat (j - v) :: u64) = j - v"
        using j len(2) by (intro unat_of_nat_u64) simp
      then have "unat (?src + of_nat (j - v) - (elf + p_offset m ph)) < unat ?n" using h by simp
      from in_region(1) [OF this b(1) len(1)] show ?thesis using same eq by simp
    qed
    then show ?thesis using True inside
      by (simp add: seg memcpy_apply [OF disjI2 [OF ov]])
  qed (simp add: seg)
qed

lemma load_segments_bytes:
  assumes fits: "elf_fits m elf len flat_image isz min_vaddr"
  shows "unat (e_phnum m elf) - i \<le> k \<Longrightarrow>
    (\<And>x. isz \<le> unat (x - flat_image) \<Longrightarrow> m' x = m x) \<Longrightarrow>
    (\<And>j. j < isz \<Longrightarrow> m' (flat_image + of_nat j) =
       segment_byte m elf min_vaddr j i (m (flat_image + of_nat j))) \<Longrightarrow>
    i \<le> unat (e_phnum m elf) \<Longrightarrow>
    (\<forall>x. isz \<le> unat (x - flat_image) \<longrightarrow> load_segments elf flat_image min_vaddr i k m' x = m x) \<and>
    (\<forall>j < isz. load_segments elf flat_image min_vaddr i k m' (flat_image + of_nat j) =
       segment_byte m elf min_vaddr j (unat (e_phnum m elf)) (m (flat_image + of_nat j)))"
proof (induction k arbitrary: i m')
  case 0
  then have "i = unat (e_phnum m elf)" by simp
  with 0 show ?case by simp
next
  case (Suc k)
  have apart: "\<And>x. unat (x - elf) < len \<Longrightarrow> isz \<le> unat (x - flat_image)"
    using fits unfolding elf_fits_def by blast
  have same: "\<forall>x. unat (x - elf) < len \<longrightarrow> m' x = m x" using apart Suc.prems(2) by blast
  have n: "e_phnum m' elf = e_phnum m elf" using elf_same(1) [OF fits same] .
  show ?case
  proof (cases "i < unat (e_phnum m elf)")
    case False
    then have "i = unat (e_phnum m elf)" using Suc.prems(4) by simp
    then show ?thesis using Suc.prems(2,3) by (simp add: n)
  next
    case True
    note l = load_segment_bytes [OF fits True same]
    have "(\<forall>x. isz \<le> unat (x - flat_image) \<longrightarrow>
        load_segments elf flat_image min_vaddr (Suc i) k (load_segment elf flat_image min_vaddr i m') x = m x) \<and>
      (\<forall>j < isz. load_segments elf flat_image min_vaddr (Suc i) k
          (load_segment elf flat_image min_vaddr i m') (flat_image + of_nat j) =
        segment_byte m elf min_vaddr j (unat (e_phnum m elf)) (m (flat_image + of_nat j)))"
    proof (rule Suc.IH)
      show "unat (e_phnum m elf) - Suc i \<le> k" "Suc i \<le> unat (e_phnum m elf)"
        using Suc.prems(1) True by simp_all
      show "load_segment elf flat_image min_vaddr i m' x = m x" if "isz \<le> unat (x - flat_image)" for x
        using l(1) [OF that] Suc.prems(2) [OF that] by simp
      show "load_segment elf flat_image min_vaddr i m' (flat_image + of_nat j) =
          segment_byte m elf min_vaddr j (Suc i) (m (flat_image + of_nat j))" if "j < isz" for j
        using l(2) [OF that] Suc.prems(3) [OF that] by (simp add: Let_def)
    qed
    then show ?thesis using True by (simp add: n)
  qed
qed

text \<open>The bytes of the segments depend on the file alone.\<close>

lemma segment_byte_same:
  assumes fits: "elf_fits m elf len flat_image isz min_vaddr"
    and same: "\<forall>x. unat (x - elf) < len \<longrightarrow> m' x = m x"
  shows "k \<le> unat (e_phnum m elf) \<Longrightarrow> segment_byte m' elf min_vaddr j k b = segment_byte m elf min_vaddr j k b"
proof (induction k)
  case (Suc k)
  then have k: "k < unat (e_phnum m elf)" by simp
  let ?ph = "elf_phdr m elf k"
  have "m' (elf + p_offset m ?ph + of_nat i) = m (elf + p_offset m ?ph + of_nat i)"
    if h: "p_type m ?ph = PT_LOAD" "i < unat (p_filesz m ?ph)" for i
  proof -
    have b: "unat (p_offset m ?ph) + unat (p_filesz m ?ph) \<le> len" "len < 2 ^ 64"
      using fits k h(1) unfolding elf_fits_def Let_def by blast+
    have "unat (of_nat i :: u64) = i"
      using h(2) unat_u64_bound [of "p_filesz m ?ph"] by (intro unat_of_nat_u64) simp
    then have "unat (elf + p_offset m ?ph + of_nat i - (elf + p_offset m ?ph)) < unat (p_filesz m ?ph)"
      using h(2) by simp
    from in_region(1) [OF this b] show ?thesis using same by blast
  qed
  then show ?case using Suc elf_same(2-6) [OF fits same k] by (auto simp: Let_def simp del: of_nat_diff)
qed simp

lemma load_segments_image:
  assumes "elf_fits m elf len flat_image (unat isz) min_vaddr"
  defines "m' \<equiv> load_segments elf flat_image min_vaddr 0 65536 (memset m flat_image 0 isz)"
  shows "(\<forall>j < unat isz. m' (flat_image + of_nat j) =
      segment_byte m elf min_vaddr j (unat (e_phnum m elf)) 0) \<and>
    (\<forall>x. unat isz \<le> unat (x - flat_image) \<longrightarrow> m' x = m x)"
proof -
  let ?m0 = "memset m flat_image 0 isz"
  have same: "\<forall>x. unat (x - elf) < len \<longrightarrow> ?m0 x = m x"
    using assms(1) by (auto simp: elf_fits_def memset_apply word_less_nat_alt not_less)
  note e = elf_same [OF assms(1) same]
  have fits: "elf_fits ?m0 elf len flat_image (unat isz) min_vaddr"
    using assms(1) e(2-6) header_cong(3) [of elf len ?m0 m 32, OF same] e(1)
    by (auto simp: elf_fits_def Let_def e_phoff_def)
  have n: "unat (e_phnum ?m0 elf) \<le> 65536"
    using unsigned_less [of "e_phnum ?m0 elf", where ?'a = nat] by simp
  have l: "(\<forall>x. unat isz \<le> unat (x - flat_image) \<longrightarrow> m' x = ?m0 x) \<and>
    (\<forall>j < unat isz. m' (flat_image + of_nat j) =
       segment_byte ?m0 elf min_vaddr j (unat (e_phnum ?m0 elf)) (?m0 (flat_image + of_nat j)))"
    unfolding m'_def by (rule load_segments_bytes [OF fits]) (use n in simp_all)
  note seg = segment_byte_same [OF assms(1) same]
  have z: "?m0 (flat_image + of_nat j) = 0" if "j < unat isz" for j
  proof -
    have "unat (of_nat j :: u64) = j"
      using that unat_u64_bound [of isz] by (intro unat_of_nat_u64) simp
    then show ?thesis using that by (simp add: memset_apply word_less_nat_alt)
  qed
  show ?thesis using l z seg e(1) by (auto simp: memset_apply word_less_nat_alt)
qed

section \<open>Properties\<close>

text \<open>
  C20: for an ELF file whose program headers and segment contents lie in the file and whose
  loaded segments fit the image, the loader leaves in the image, after the clearing
  \<^verbatim>\<open>memset\<close>, exactly the file bytes of the segments at their virtual addresses relative to
  the lowest one, the later segment where two overlap, and zero between them and in the
  \<^verbatim>\<open>.bss\<close> tails. Nothing outside the image changes.
\<close>

theorem elf_image_loaded:
  assumes "elf_fits m elf len flat_image (unat isz) min_vaddr"
  defines "m' \<equiv> load_segments elf flat_image min_vaddr 0 65536 (memset m flat_image 0 isz)"
  shows "(\<forall>j < unat isz. m' (flat_image + of_nat j) =
      segment_byte m elf min_vaddr j (unat (e_phnum m elf)) 0) \<and>
    (\<forall>x. unat isz \<le> unat (x - flat_image) \<longrightarrow> m' x = m x)"
  unfolding m'_def by (rule load_segments_image [OF assms(1)])

definition tiny_elf :: mem where
  "tiny_elf = (\<lambda>_. 0)(0x1020 := 64, 0x1038 := 1, 0x1040 := 1, 0x1048 := 120, 0x1053 := 1,
     0x1060 := 4, 0x1078 := 11, 0x1079 := 22, 0x107a := 33, 0x107b := 44)"

theorem elf_image_loaded_witness:
  "load_segments 0x1000 0x3000 0x1000000 0 65536 (memset tiny_elf 0x3000 0 4096) 0x3002 = 33 \<and>
   load_segments 0x1000 0x3000 0x1000000 0 65536 (memset tiny_elf 0x3000 0 4096) 0x3004 = 0"
proof -
  let ?m = tiny_elf
  have ph: "elf_phdr ?m 0x1000 0 = 0x1040" "e_phoff ?m 0x1000 = 64" "e_phnum ?m 0x1000 = 1"
    by (simp_all add: tiny_elf_def elf_phdr_def e_phoff_def e_phnum_def load64_def load32_def load16_def)
  have f: "p_type ?m 0x1040 = 1" "p_offset ?m 0x1040 = 120" "p_vaddr ?m 0x1040 = 0x1000000"
    "p_filesz ?m 0x1040 = 4"
    by (simp_all add: tiny_elf_def p_type_def p_offset_def p_vaddr_def p_filesz_def
        load64_def load32_def load16_def)
  have "4096 \<le> unat (x - 0x3000)" if "unat (x - 0x1000) < 124" for x :: u64
  proof -
    have "x - 0x3000 = (x - 0x1000) - 0x2000" by simp
    then show ?thesis using that unat_diff_u64 [of "x - 0x1000" "0x2000"] by simp
  qed
  then have "elf_fits ?m 0x1000 124 0x3000 (unat (4096 :: u64)) 0x1000000"
    using ph f by (simp add: elf_fits_def Let_def)
  note l = elf_image_loaded [OF this]
  have "segment_byte ?m 0x1000 0x1000000 2 1 0 = 33" "segment_byte ?m 0x1000 0x1000000 4 1 0 = 0"
    using ph f by (simp_all add: Let_def PT_LOAD_def) (simp add: tiny_elf_def)
  then show ?thesis
    using l [THEN conjunct1, THEN spec, of 2] l [THEN conjunct1, THEN spec, of 4] ph(3)
    by (simp del: segment_byte.simps)
qed

end
