(* ===== verification/Tar_Fs.thy ===== *)
theory Tar_Fs
  imports Console
begin

text \<open>
  The initial RAM disk: \<^verbatim>\<open>kernel/tar-parser.c\<close> and the listing \<^verbatim>\<open>sys_ls\<close> of
  \<^verbatim>\<open>kernel/syscall.c\<close>. Both walk the headers of the archive between
  \<^verbatim>\<open>_binary_initramfs_tar_start\<close> and \<^verbatim>\<open>_binary_initramfs_tar_end\<close>. A size field that is
  not octal can send the walk anywhere, round in circles too, so the walks answer in
  \<open>option\<close>, \<open>None\<close> for a walk that does not end. The log line of every header
  (\<^verbatim>\<open>output_flag\<close>) is not modelled.
\<close>

section \<open>The code\<close>

definition TAR_BLOCK_SIZE :: u64 where
  "TAR_BLOCK_SIZE = 512"

text \<open>The size field: 11 octal digits at offset 124 of the header.\<close>

definition tar_size :: "mem \<Rightarrow> u64 \<Rightarrow> u64" where
  "tar_size m hdr =
     fold (\<lambda>i size. push_bit 3 size + (ucast (m (hdr + 124 + of_nat i)) - 48)) [0..<11] 0"

definition tar_next :: "mem \<Rightarrow> u64 \<Rightarrow> u64" where
  "tar_next m ptr =
     (let blocks = (tar_size m ptr + TAR_BLOCK_SIZE - 1) div TAR_BLOCK_SIZE
      in ptr + (1 + blocks) * TAR_BLOCK_SIZE)"

text \<open>The result: the address of the contents and their size, or 0 when nothing is found.\<close>

partial_function (option) tarfs_loop :: "mem \<Rightarrow> u64 \<Rightarrow> u64 \<Rightarrow> u64 \<Rightarrow> (u64 \<times> u64) option" where
  "tarfs_loop m stop filename ptr =
     (if \<not> ptr < stop then Some (0, 0)
      else if m ptr = 0 then Some (0, 0)
      else do {
        c \<leftarrow> strcmp m ptr filename;
        if c = 0 then Some (ptr + TAR_BLOCK_SIZE, tar_size m ptr)
        else tarfs_loop m stop filename (tar_next m ptr)
      })"

definition tarfs_lookup :: "linker_syms \<Rightarrow> mem \<Rightarrow> u64 \<Rightarrow> (u64 \<times> u64) option" where
  "tarfs_lookup L m filename = tarfs_loop m (tar_end L) filename (tar_start L)"

partial_function (option) ls_loop :: "u64 \<Rightarrow> u64 \<Rightarrow> kstate \<Rightarrow> kstate option" where
  "ls_loop stop ptr s =
     (if \<not> ptr < stop then Some s
      else if mem s ptr = 0 then Some s
      else do {
        s \<leftarrow> uart_printf (bytes_of ''  %s'' @ [10]) [ptr] s;
        ls_loop stop (tar_next (mem s) ptr) s
      })"

definition sys_ls :: "linker_syms \<Rightarrow> kstate \<Rightarrow> kstate option" where
  "sys_ls L s = ls_loop (tar_end L) (tar_start L) (uart_puts (bytes_of ''Files in tarfs:'' @ [10]) s)"

section \<open>Archives\<close>

text \<open>
  The abstract archive is the list of its files, name and size; \<open>tar_at\<close> says that the
  headers from \<open>ptr\<close> on describe it. The contents of file \<open>k\<close> start one block after its
  header.
\<close>

type_synonym tar_file = "u8 list \<times> nat"

definition octal_field :: "nat \<Rightarrow> u8 list" where
  "octal_field n = map (\<lambda>i. 48 + of_nat (n div 8 ^ (10 - i) mod 8)) [0..<11]"

primrec tar_at :: "mem \<Rightarrow> u64 \<Rightarrow> u64 \<Rightarrow> tar_file list \<Rightarrow> bool" where
  "tar_at m stop ptr [] \<longleftrightarrow> \<not> ptr < stop \<or> m ptr = 0"
| "tar_at m stop ptr (f # fs) \<longleftrightarrow>
     ptr < stop \<and> cstr_at m ptr (fst f) \<and> fst f \<noteq> [] \<and> ptr \<noteq> 0 \<and>
     load_bytes m (ptr + 124) 11 = octal_field (snd f) \<and> snd f < 8 ^ 11 \<and>
     tar_at m stop (ptr + of_nat ((1 + (snd f + 511) div 512) * 512)) fs"

text \<open>The header address of each file.\<close>

primrec tar_headers :: "u64 \<Rightarrow> tar_file list \<Rightarrow> u64 list" where
  "tar_headers ptr [] = []"
| "tar_headers ptr (f # fs) =
     ptr # tar_headers (ptr + of_nat ((1 + (snd f + 511) div 512) * 512)) fs"

lemma length_octal_field [simp]: "length (octal_field n) = 11"
  by (simp add: octal_field_def)

section \<open>The size field\<close>

lemma octal_digit:
  assumes "x < (8 :: nat)"
  shows "(ucast (48 + of_nat x :: u8) :: u64) - 48 = of_nat x"
proof -
  have "x \<in> {0, 1, 2, 3, 4, 5, 6, 7}" using assms unfolding insert_iff empty_iff by presburger
  then show ?thesis by (elim insertE emptyE) simp_all
qed

lemma octal_prefix:
  fixes m :: mem
  assumes "\<And>i. i < 11 \<Longrightarrow> m (h + of_nat i) = 48 + of_nat (n div 8 ^ (10 - i) mod 8)" and "k \<le> 11"
  shows "fold (\<lambda>i size. push_bit 3 size + (ucast (m (h + of_nat i)) - 48)) [0..<k] (0 :: u64) =
    of_nat (n div 8 ^ (11 - k) mod 8 ^ k)"
  using assms(2)
proof (induction k)
  case 0
  then show ?case by simp
next
  case (Suc k)
  let ?q = "n div 8 ^ (10 - k)"
  have d: "(ucast (48 + of_nat (?q mod 8) :: u8) :: u64) - 48 = of_nat (?q mod 8)"
    by (rule octal_digit) simp
  have e: "11 - k = Suc (10 - k)" using Suc.prems by simp
  then have "n div 8 ^ (11 - k) = ?q div 8" by (simp add: div_mult2_eq [symmetric] mult.commute)
  moreover have "?q mod 8 ^ Suc k = 8 * (?q div 8 mod 8 ^ k) + ?q mod 8"
    using mod_mult2_eq [of ?q 8 "8 ^ k"] by simp
  moreover have "push_bit 3 (x :: u64) = 8 * x" for x by (simp add: push_bit_eq_mult mult.commute)
  ultimately show ?case
    using Suc assms(1) [of k] d by simp
qed

lemma tar_size_octal:
  assumes "load_bytes m (ptr + 124) 11 = octal_field n" and "n < 8 ^ 11"
  shows "tar_size m ptr = of_nat n"
proof -
  have "m (ptr + 124 + of_nat i) = 48 + of_nat (n div 8 ^ (10 - i) mod 8)" if "i < 11" for i
    using arg_cong [OF assms(1), of "\<lambda>bs. bs ! i"] that
    by (simp add: octal_field_def)
  from octal_prefix [OF this, of 11] show ?thesis using assms(2) by (simp add: tar_size_def)
qed

lemma tar_next_octal:
  assumes "load_bytes m (ptr + 124) 11 = octal_field n" and "n < 8 ^ 11"
  shows "tar_next m ptr = ptr + of_nat ((1 + (n + 511) div 512) * 512)"
proof -
  have small: "n + 511 < 2 ^ 64" using assms(2) by simp
  have e: "tar_size m ptr + TAR_BLOCK_SIZE - 1 = of_nat (n + 511)"
    using tar_size_octal [OF assms] by (simp add: TAR_BLOCK_SIZE_def)
  have q: "(of_nat (n + 511) :: u64) div 512 = of_nat ((n + 511) div 512)"
    using small by (simp add: word_unat_eq_iff unat_div unat_of_nat_u64 del: of_nat_add)
  show ?thesis
    unfolding tar_next_def Let_def e unfolding TAR_BLOCK_SIZE_def q
    by (simp only: of_nat_mult of_nat_add of_nat_1 of_nat_numeral)
qed

section \<open>The walk over a well-formed archive\<close>

definition lookup_spec :: "u8 list \<Rightarrow> tar_file list \<Rightarrow> u64 list \<Rightarrow> u64 \<times> u64" where
  "lookup_spec name fs hs =
     (case first_index (\<lambda>f. fst f = name) fs of
        None \<Rightarrow> (0, 0)
      | Some i \<Rightarrow> (hs ! i + 512, of_nat (snd (fs ! i))))"

lemma lookup_spec_Cons:
  "lookup_spec name (f # fs) (h # hs) =
    (if fst f = name then (h + 512, of_nat (snd f)) else lookup_spec name fs hs)"
  by (simp add: lookup_spec_def split: option.split)

lemma tarfs_loop_spec:
  assumes name: "cstr_at m filename name"
  shows "tar_at m stop ptr fs \<Longrightarrow>
    tarfs_loop m stop filename ptr = Some (lookup_spec name fs (tar_headers ptr fs))"
proof (induction fs arbitrary: ptr)
  case Nil
  then show ?case by (subst tarfs_loop.simps) (auto simp: lookup_spec_def)
next
  case (Cons f fs)
  then have at: "ptr < stop" "cstr_at m ptr (fst f)" "fst f \<noteq> []" and
    sz: "load_bytes m (ptr + 124) 11 = octal_field (snd f)" "snd f < 8 ^ 11" and
    rest: "tar_at m stop (ptr + of_nat ((1 + (snd f + 511) div 512) * 512)) fs"
    by simp_all
  have nz: "m ptr \<noteq> 0" using at(2,3) by (cases "fst f") auto
  obtain c where c: "strcmp m ptr filename = Some c" "c = 0 \<longleftrightarrow> fst f = name"
    using strcmp_cstr [OF at(2) name] strcmp_eq [OF at(2) name] by auto
  show ?case
    using at(1) nz c Cons.IH [OF rest] tar_size_octal [OF sz]
    by (subst tarfs_loop.simps)
      (simp add: lookup_spec_Cons TAR_BLOCK_SIZE_def tar_next_octal [OF sz] del: of_nat_mult of_nat_add)
qed

lemma read_cstr_cstr: "cstr_at m p bs \<Longrightarrow> read_cstr m p = Some bs"
proof (induction bs arbitrary: p)
  case Nil
  then show ?case by (subst read_cstr.simps) simp
next
  case (Cons b bs)
  then show ?case by (subst read_cstr.simps) simp
qed

lemma printf_name_line:
  assumes "cstr_at (mem s) p bs" and "p \<noteq> 0"
  shows "uart_printf (bytes_of ''  %s'' @ [10]) [p] s =
    Some (s\<lparr>uart_out := uart_out s @ [32, 32] @ bs @ [10]\<rparr>)"
  using read_cstr_cstr [OF assms(1)] assms(2)
  by (simp add: uart_printf_def printf_loop.simps parse_spec_def printf_flags_def parse_length_def
      printf_spec_def uart_putc_def uart_puts_out)

lemma ls_loop_spec:
  "tar_at (mem s) stop ptr fs \<Longrightarrow> ls_loop stop ptr s =
    Some (s\<lparr>uart_out := uart_out s @ concat (map (\<lambda>f. [32, 32] @ fst f @ [10]) fs)\<rparr>)"
proof (induction fs arbitrary: ptr s)
  case Nil
  then show ?case by (subst ls_loop.simps) auto
next
  case (Cons f fs)
  then have at: "ptr < stop" "cstr_at (mem s) ptr (fst f)" "fst f \<noteq> []" "ptr \<noteq> 0" and
    sz: "load_bytes (mem s) (ptr + 124) 11 = octal_field (snd f)" "snd f < 8 ^ 11" and
    rest: "tar_at (mem s) stop (ptr + of_nat ((1 + (snd f + 511) div 512) * 512)) fs"
    by simp_all
  have nz: "mem s ptr \<noteq> 0" using at(2,3) by (cases "fst f") auto
  let ?s = "s\<lparr>uart_out := uart_out s @ [32, 32] @ fst f @ [10]\<rparr>"
  have "ls_loop stop ptr s = ls_loop stop (tar_next (mem ?s) ptr) ?s"
    using at(1) nz printf_name_line [OF at(2,4)] by (subst ls_loop.simps) simp
  also have "\<dots> = Some (?s\<lparr>uart_out := uart_out ?s @ concat (map (\<lambda>f. [32, 32] @ fst f @ [10]) fs)\<rparr>)"
    using Cons.IH [of ?s] rest tar_next_octal [OF sz] by (simp del: of_nat_mult of_nat_add)
  finally show ?case by simp
qed

section \<open>Properties\<close>

text \<open>
  C36: on a well-formed archive \<open>tarfs_lookup\<close> returns, with the address and the size of
  the contents of the first file of that name, and with \<^verbatim>\<open>NULL\<close> when there is none.
\<close>

theorem tarfs_lookup_finds:
  assumes "tar_at m (tar_end L) (tar_start L) fs" and "cstr_at m filename name"
  shows "tarfs_lookup L m filename = Some
    (case first_index (\<lambda>f. fst f = name) fs of
       None \<Rightarrow> (0, 0)
     | Some i \<Rightarrow> (tar_headers (tar_start L) fs ! i + 512, of_nat (snd (fs ! i))))"
  using tarfs_loop_spec [OF assms(2,1)] by (simp add: tarfs_lookup_def lookup_spec_def)

definition sample_archive :: mem where
  "sample_archive =
     poke (poke (poke (poke (poke (\<lambda>_. 0) 0x802088d8 (bytes_of ''idle.elf''))
       (0x802088d8 + 124) (octal_field 700))
       (0x802088d8 + 1536) (bytes_of ''shell.elf'')) (0x802088d8 + 1536 + 124) (octal_field 9))
       0x1000 (bytes_of ''shell.elf'')"

lemma sample_archive_at:
  "tar_at sample_archive (tar_end kernel_map) (tar_start kernel_map)
     [(bytes_of ''idle.elf'', 700), (bytes_of ''shell.elf'', 9)]"
  "cstr_at sample_archive 0x1000 (bytes_of ''shell.elf'')"
proof -
  have "load_bytes sample_archive (0x802088d8 + 124) 11 = octal_field 700"
    by (simp add: load_bytes_def octal_field_def sample_archive_def poke_def upt_conv_Cons)
  moreover have "load_bytes sample_archive (0x802088d8 + 1536 + 124) 11 = octal_field 9"
    by (simp add: load_bytes_def octal_field_def sample_archive_def poke_def upt_conv_Cons)
  moreover have "cstr_at sample_archive 0x802088d8 (bytes_of ''idle.elf'')"
    and "cstr_at sample_archive (0x802088d8 + 1536) (bytes_of ''shell.elf'')"
    and "sample_archive (0x802088d8 + 1536 + 1024) = 0"
    by (simp_all add: sample_archive_def poke_def)
  ultimately show "tar_at sample_archive (tar_end kernel_map) (tar_start kernel_map)
     [(bytes_of ''idle.elf'', 700), (bytes_of ''shell.elf'', 9)]"
    by (simp add: kernel_map_def)
  show "cstr_at sample_archive 0x1000 (bytes_of ''shell.elf'')"
    by (simp add: sample_archive_def poke_def)
qed

theorem tarfs_lookup_finds_witness:
  "tarfs_lookup kernel_map sample_archive 0x1000 = Some (0x802088d8 + 2048, 9)"
  using tarfs_lookup_finds [OF sample_archive_at] by (simp add: kernel_map_def)

text \<open>
  \<open>sys_ls\<close> on a well-formed archive returns after printing one line for each file, in
  the order of the archive.
\<close>

theorem sys_ls_lists:
  assumes "tar_at (mem s) (tar_end L) (tar_start L) fs"
  shows "sys_ls L s = Some (s\<lparr>uart_out := uart_out s @ bytes_of ''Files in tarfs:'' @ [10] @
    concat (map (\<lambda>f. [32, 32] @ fst f @ [10]) fs)\<rparr>)"
  using ls_loop_spec [of "uart_puts (bytes_of ''Files in tarfs:'' @ [10]) s"] assms
  by (simp add: sys_ls_def uart_puts_out)

theorem sys_ls_lists_witness:
  "map_option uart_out (sys_ls kernel_map ((boot_state kernel_map)\<lparr>mem := sample_archive\<rparr>)) =
    Some (bytes_of ''Files in tarfs:'' @ [10] @ bytes_of ''  idle.elf'' @ [10] @
      bytes_of ''  shell.elf'' @ [10])"
proof -
  have "tar_at (mem ((boot_state kernel_map)\<lparr>mem := sample_archive\<rparr>))
      (tar_end kernel_map) (tar_start kernel_map)
      [(bytes_of ''idle.elf'', 700), (bytes_of ''shell.elf'', 9)]"
    using sample_archive_at(1) by simp
  from sys_ls_lists [OF this] show ?thesis by (simp add: boot_state_def)
qed

end
