(* ===== verification/Sys_Exec.thy ===== *)
theory Sys_Exec
  imports Elf_Loader Scheduler User_Mem Tar_Fs
begin

text \<open>
  \<^verbatim>\<open>sys_exec\<close> of \<^verbatim>\<open>kernel/syscall.c\<close> and \<^verbatim>\<open>setup_user_arguments\<close> of
  \<^verbatim>\<open>kernel/arguments.c\<close>. The program name and the arguments are read through the page table
  of the caller, so the archive lookup is modelled once more for a name in user memory: it
  faults where that name is not mapped. The log lines and dumps are not modelled.
\<close>

section \<open>Strings in user memory\<close>

text \<open>\<^verbatim>\<open>strcmp\<close> of a string of the kernel with one of the user.\<close>

partial_function (option) user_strcmp :: "u64 \<Rightarrow> u64 \<Rightarrow> kstate \<Rightarrow> (int, kstate) kres option" where
  "user_strcmp s1 s2 s =
     (case user_load s2 s of
        Inl e \<Rightarrow> Some (Inl e)
      | Inr (c, s) \<Rightarrow>
          if mem s s1 \<noteq> 0 \<and> mem s s1 = c then user_strcmp (s1 + 1) (s2 + 1) s
          else Some (kret (uint (mem s s1) - uint c) s))"

partial_function (option) user_tar_loop ::
  "u64 \<Rightarrow> u64 \<Rightarrow> u64 \<Rightarrow> kstate \<Rightarrow> (u64 \<times> u64, kstate) kres option" where
  "user_tar_loop stop filename ptr s =
     (if \<not> ptr < stop then Some (kret (0, 0) s)
      else if mem s ptr = 0 then Some (kret (0, 0) s)
      else do {
        r \<leftarrow> user_strcmp ptr filename s;
        (case r of
           Inl e \<Rightarrow> Some (Inl e)
         | Inr (c, s) \<Rightarrow>
             if c = 0 then Some (kret (ptr + TAR_BLOCK_SIZE, tar_size (mem s) ptr) s)
             else user_tar_loop stop filename (tar_next (mem s) ptr) s)
      })"

text \<open>\<^verbatim>\<open>tarfs_lookup\<close> for a name in user memory.\<close>

definition user_tarfs_lookup :: "linker_syms \<Rightarrow> u64 \<Rightarrow> kstate \<Rightarrow> (u64 \<times> u64, kstate) kres" where
  "user_tarfs_lookup L filename s =
     (case user_tar_loop (tar_end L) filename (tar_start L) s of None \<Rightarrow> Inl Spin | Some r \<Rightarrow> r)"

text \<open>\<^verbatim>\<open>uart_puts\<close> of a user string.\<close>

partial_function (option) user_puts :: "u64 \<Rightarrow> kstate \<Rightarrow> (unit, kstate) kres option" where
  "user_puts str s =
     (case user_load str s of
        Inl e \<Rightarrow> Some (Inl e)
      | Inr (c, s) \<Rightarrow>
          if c = 0 then Some (kret () s) else user_puts (str + 1) (uart_putc c s))"

definition user_print :: "u64 \<Rightarrow> kstate \<Rightarrow> (unit, kstate) kres" where
  "user_print str s =
     (if str = 0 then kret () (uart_puts (bytes_of ''(null)'') s)
      else case user_puts str s of None \<Rightarrow> Inl Spin | Some r \<Rightarrow> r)"

section \<open>Arguments\<close>

definition MAX_ARGS :: nat where
  "MAX_ARGS = 8"

definition MAX_ARG_LENGTH :: nat where
  "MAX_ARG_LENGTH = 128"

text \<open>The loop of \<^verbatim>\<open>sys_exec\<close> that collects the arguments in a page of the kernel.\<close>

definition copy_argv :: "u64 \<Rightarrow> u64 \<Rightarrow> nat \<Rightarrow> kstate \<Rightarrow> (unit, kstate) kres" where
  "copy_argv argv_buf argv argc s =
     k_for 0 argc (\<lambda>i s.
       kbind (user_load64 (argv + 8 * of_nat i) s) (\<lambda>p s.
       kbind (user_strncpy p (MAX_ARG_LENGTH - 1) s) (\<lambda>bs s.
         kret () (s\<lparr>mem := poke (mem s) (argv_buf + of_nat (i * MAX_ARG_LENGTH)) (bs @ [0])\<rparr>)))) s"

text \<open>
  The loop of \<^verbatim>\<open>setup_user_arguments\<close>, with \<open>i\<close> arguments still to push, the last one first;
  \<open>ptrs\<close> are the entries of \<^verbatim>\<open>argv_ptrs\<close> already set.
\<close>

primrec push_args :: "u64 \<Rightarrow> nat \<Rightarrow> u64 \<Rightarrow> u64 list \<Rightarrow> kstate \<Rightarrow> (u64 \<times> u64 list, kstate) kres" where
  "push_args argv_kernel 0 sp ptrs s = kret (sp, ptrs) s"
| "push_args argv_kernel (Suc i) sp ptrs s =
     (let arg = argv_kernel + of_nat (i * MAX_ARG_LENGTH);
          len = strnlen (mem s) arg (of_nat MAX_ARG_LENGTH) + 1;
          sp = (sp - len) AND NOT 7
      in if sp < g_user_stack_bottom s then kpanic Arg_stack_overflow
         else kbind (user_write sp (load_bytes (mem s) arg (unat len)) (enable_sum s)) (\<lambda>_ s.
           push_args argv_kernel i sp (sp # ptrs) (disable_sum s)))"

text \<open>
  The local array \<^verbatim>\<open>argv_ptrs\<close> has \<^verbatim>\<open>MAX_ARGS + 1\<close> elements and nothing checks \<^verbatim>\<open>argc\<close>:
  with more arguments the code overruns its stack, \<open>Undefined\<close>. The result is the new stack
  pointer, which is also the address of the vector.
\<close>

definition setup_user_arguments :: "u64 \<Rightarrow> nat \<Rightarrow> u64 \<Rightarrow> kstate \<Rightarrow> (u64, kstate) kres" where
  "setup_user_arguments argv_kernel argc sp s =
     (if MAX_ARGS < argc then Inl Undefined
      else kbind (push_args argv_kernel argc sp [] s) (\<lambda>(sp, ptrs) s.
        (let sp = (sp - of_nat ((argc + 1) * 8)) AND NOT 7 in
         if sp < g_user_stack_bottom s then kpanic Arg_stack_overflow
         else kbind (user_write sp (concat (map (word_bytes 8) (ptrs @ [0]))) (enable_sum s)) (\<lambda>_ s.
           kret sp (disable_sum s)))))"

section \<open>\<^verbatim>\<open>sys_exec\<close>\<close>

text \<open>The part after the new program has been loaded: stack, trap frame and PCB.\<close>

definition exec_enter :: "linker_syms \<Rightarrow> nat \<Rightarrow> nat \<Rightarrow> u64 \<Rightarrow> int \<Rightarrow> kstate \<Rightarrow> int fres" where
  "exec_enter L proc ep argv_buf argc s =
     (let s = set_active_pagetable (p_page_table (procs s ! ep)) s;
          s = s\<lparr>csr_sscratch := tf_stack_top L ep\<rparr>;
          sp = g_user_stack_top s
      in fbind (flift
           (if 1 < argc
            then kbind (setup_user_arguments argv_buf (nat argc) sp s) (\<lambda>sp s. kret (sp, sp) s)
            else kret (sp, 0) s)) (\<lambda>(sp, argv_ptr) s.
         (let s = free_page argv_buf s;
              tf = p_tf (procs s ! ep);
              s = s\<lparr>mem := memset (mem s) tf 0 256\<rparr>;
              s = tf_set tf TF_EPC USER_BASE s;
              s = tf_set tf TF_RA (sym_user_return L) s;
              s = tf_set tf TF_SP sp s;
              s = upd_proc proc (\<lambda>p. p\<lparr>p_argc := argc, p_argv_ptr := argv_ptr\<rparr>) s
          in fbind (yield L s) (\<lambda>_ s. kret (Ret 0) s))))"

text \<open>A \<^verbatim>\<open>NULL\<close> \<^verbatim>\<open>current_proc\<close> faults at its field \<^verbatim>\<open>page_table\<close>, at offset 64.\<close>

definition sys_exec :: "linker_syms \<Rightarrow> u64 \<Rightarrow> u64 \<Rightarrow> int \<Rightarrow> kstate \<Rightarrow> int fres" where
  "sys_exec L progname argv argc s =
     fbind (flift (user_strncpy progname 63 (enable_sum s))) (\<lambda>name s.
     (let progname_buf = name @ [0] in
      fbind (flift (user_tarfs_lookup L progname s)) (\<lambda>(elf_data, fs) s.
        if elf_data = 0 then
          fbind (flift (user_print progname (uart_puts (bytes_of ''[sys_exec] '') s))) (\<lambda>_ s.
            kret (Ret (- 1)) (uart_puts (bytes_of '' not found!'' @ [10]) s))
        else
          fbind (flift (alloc_pages L 1 s)) (\<lambda>argv_buf s.
            if argv_buf = 0 then
              kret (Ret (- 1)) (uart_puts (bytes_of ''FATAL: failed to allocate argv_buf'' @ [10]) s)
            else
              fbind (flift (if 1 < argc then copy_argv argv_buf argv (nat argc) s else kret () s)) (\<lambda>_ s.
                (let s = set_active_pagetable (kernel_pagetable s) (disable_sum s) in
                 case current_proc s of
                   None \<Rightarrow> kpanic (Page_fault 64)
                 | Some proc \<Rightarrow>
                     fbind (flift (process_free_userspace proc s)) (\<lambda>_ s.
                     fbind (flift (extract_flat_binary_from_elf L elf_data False s)) (\<lambda>ep s.
                       exec_enter L proc ep argv_buf argc
                         (upd_proc ep (\<lambda>p. p\<lparr>p_name :=
                            strip_name 64 (takeWhile (\<lambda>b. b \<noteq> 0) progname_buf)\<rparr>) s)))))))))"

end
