(* ===== verification/Ktime.thy ===== *)
theory Ktime
  imports Kprelude
begin

text \<open>
  \<^verbatim>\<open>kernel/time.c\<close>: the conversion between calendar dates and seconds since 1970, with
  the fixed time-zone offset of two hours. A C \<^verbatim>\<open>int\<close> is an \<open>int\<close>, a \<^verbatim>\<open>uint64_t\<close> a
  64-bit word. An access of \<^verbatim>\<open>month_days\<close> past its end is \<open>None\<close>; the lemmas show that
  it does not happen.
\<close>

record date_time =
  dt_year :: int
  dt_month :: int
  dt_day :: int
  dt_hour :: int
  dt_minute :: int
  dt_second :: int
  dt_weekday :: int

section \<open>The code\<close>

definition month_days :: "int list" where
  "month_days = [31, 28, 31, 30, 31, 30, 31, 31, 30, 31, 30, 31]"

text \<open>The two ways the code tests for a leap year.\<close>

definition leap_year :: "int \<Rightarrow> bool" where
  "leap_year y \<longleftrightarrow> y mod 4 = 0 \<and> (y mod 100 \<noteq> 0 \<or> y mod 400 = 0)"

definition leap_february :: "int \<Rightarrow> bool" where
  "leap_february year \<longleftrightarrow> (year mod 4 = 0 \<and> year mod 100 \<noteq> 0) \<or> year mod 400 = 0"

definition compute_epoch :: "int \<Rightarrow> int \<Rightarrow> int \<Rightarrow> int \<Rightarrow> int \<Rightarrow> int \<Rightarrow> u64" where
  "compute_epoch year month day hour minute second =
     (let days = fold (\<lambda>y days. days + (if leap_year y then 366 else 365)) [1970..year - 1] 0;
          days = fold (\<lambda>m days.
              (let days = days + of_int (month_days ! m) in
               if m = 1 \<and> leap_february year then days + 1 else days))
            [0..<nat (month - 1)] days;
          days = days + of_int (day - 1)
      in days * 86400 + of_int (hour * 3600) + of_int (minute * 60) + of_int second)"

definition days_in_year :: "int \<Rightarrow> u64" where
  "days_in_year year = (if leap_year year then 366 else 365)"

function year_loop :: "int \<Rightarrow> u64 \<Rightarrow> int \<times> u64" where
  "year_loop year days =
     (if days < days_in_year year then (year, days)
      else year_loop (year + 1) (days - days_in_year year))"
  by pat_completeness auto
termination
proof (relation "measure (\<lambda>(year, days). unat days)", goal_cases)
  case 1
  show ?case by simp
next
  case (2 year days)
  then have "unat (days_in_year year) \<le> unat days" and "0 < unat (days_in_year year)"
    by (auto simp: word_less_nat_alt days_in_year_def)
  then show ?case by (simp add: unat_diff_u64)
qed

declare year_loop.simps [simp del]

definition days_in_month :: "int \<Rightarrow> nat \<Rightarrow> u64" where
  "days_in_month year month =
     of_int (month_days ! month) + (if month = 1 \<and> leap_february year then 1 else 0)"

function month_loop :: "int \<Rightarrow> nat \<Rightarrow> u64 \<Rightarrow> (nat \<times> u64) option" where
  "month_loop year month days =
     (if length month_days \<le> month then None
      else if days < days_in_month year month then Some (month, days)
      else month_loop year (month + 1) (days - days_in_month year month))"
  by pat_completeness auto
termination
  by (relation "measure (\<lambda>(year, month, days). length month_days - month)") simp_all

declare month_loop.simps [simp del]

definition compute_datetime_from_epoch :: "u64 \<Rightarrow> date_time option" where
  "compute_datetime_from_epoch epoch =
     (let epoch = epoch + 2 * 3600;
          days = epoch div 86400;
          secs = epoch mod 86400;
          (year, days) = year_loop 1970 days
      in case month_loop year 0 days of
           None \<Rightarrow> None
         | Some (month, days) \<Rightarrow>
             Some \<lparr>dt_year = year, dt_month = int month + 1, dt_day = uint days + 1,
                   dt_hour = uint ((secs div 3600) mod 24),
                   dt_minute = uint ((secs div 60) mod 60),
                   dt_second = uint (secs mod 60),
                   dt_weekday = uint ((epoch div 86400 + 4) mod 7)\<rparr>)"

text \<open>\<^verbatim>\<open>include/build_time.h\<close>.\<close>

definition build_epoch :: u64 where
  "build_epoch = compute_epoch 2025 10 7 4 0 7"

definition compute_datetime :: "u64 \<Rightarrow> date_time option" where
  "compute_datetime ticks =
     (let seconds_since_boot = ticks div 10000000;
          current_epoch = build_epoch + seconds_since_boot
      in compute_datetime_from_epoch current_epoch)"

section \<open>Days before a year, days before a month\<close>

lemma leap_february_year: "leap_february y = leap_year y"
proof -
  have "y mod 100 = 0 \<and> y mod 4 = 0" if "y mod 400 = 0"
    using that by (auto simp: mod_eq_0_iff_dvd elim: dvd_trans [rotated])
  then show ?thesis by (auto simp: leap_february_def leap_year_def)
qed

definition ylen :: "int \<Rightarrow> nat" where
  "ylen y = (if leap_year y then 366 else 365)"

definition mlen :: "int \<Rightarrow> nat \<Rightarrow> nat" where
  "mlen y m = nat (month_days ! m) + (if m = 1 \<and> leap_year y then 1 else 0)"

definition before_year :: "nat \<Rightarrow> nat" where
  "before_year n = (\<Sum>i<n. ylen (1970 + int i))"

definition before_month :: "int \<Rightarrow> nat \<Rightarrow> nat" where
  "before_month y m = (\<Sum>i<m. mlen y i)"

lemma unat_days_in_year [simp]: "unat (days_in_year y) = ylen y"
  by (simp add: days_in_year_def ylen_def)

lemma less_12_cases:
  assumes "m < (12 :: nat)"
  shows "m \<in> {0, 1, 2, 3, 4, 5, 6, 7, 8, 9, 10, 11}"
  using assms unfolding insert_iff empty_iff by presburger

lemma mlen_eval:
  "mlen y 0 = 31" "mlen y (Suc 0) = (if leap_year y then 29 else 28)" "mlen y 2 = 31" "mlen y 3 = 30"
  "mlen y 4 = 31" "mlen y 5 = 30" "mlen y 6 = 31" "mlen y 7 = 31" "mlen y 8 = 30" "mlen y 9 = 31"
  "mlen y 10 = 30" "mlen y 11 = 31"
  by (simp_all add: mlen_def month_days_def)

lemma unat_days_in_month:
  assumes "m < 12"
  shows "unat (days_in_month y m) = mlen y m"
  using less_12_cases [OF assms]
  by (auto simp: days_in_month_def mlen_def month_days_def leap_february_year)

lemma before_month_12: "before_month y 12 = ylen y"
  by (simp add: before_month_def eval_nat_numeral lessThan_Suc mlen_def month_days_def ylen_def)

lemma before_year_bound: "before_year n \<le> 366 * n"
  using sum_bounded_above [of "{..<n}" "\<lambda>i. ylen (1970 + int i)" 366]
  by (simp add: before_year_def ylen_def mult.commute)

lemma unat_of_nat_add:
  fixes d :: u64
  assumes "N + unat d < 2 ^ 64"
  shows "unat (of_nat N + d) = N + unat d"
proof -
  have "unat (of_nat N :: u64) = N" using assms by (intro unat_of_nat_u64) simp
  with assms show ?thesis by (subst unat_add_u64) simp_all
qed

lemma year_loop_before:
  "unat d < ylen (y + int n) \<Longrightarrow>
    (\<Sum>i<n. ylen (y + int i)) + unat d < 2 ^ 64 \<Longrightarrow>
    year_loop y (of_nat (\<Sum>i<n. ylen (y + int i)) + d) = (y + int n, d)"
proof (induction n arbitrary: y)
  case 0
  then show ?case by (subst year_loop.simps) (simp add: word_less_nat_alt)
next
  case (Suc n)
  let ?S = "\<Sum>i<n. ylen (y + 1 + int i)"
  have S: "(\<Sum>i<Suc n. ylen (y + int i)) = ylen y + ?S"
    unfolding sum.lessThan_Suc_shift by (simp add: algebra_simps)
  have u: "unat (of_nat (ylen y + ?S) + d) = ylen y + ?S + unat d"
    using Suc.prems(2) unfolding S by (rule unat_of_nat_add)
  have "\<not> of_nat (ylen y + ?S) + d < days_in_year y"
    unfolding word_less_nat_alt u by simp
  moreover have "of_nat (ylen y + ?S) + d - days_in_year y = of_nat ?S + d"
  proof -
    have "(of_nat (ylen y) :: u64) = days_in_year y" by (simp add: ylen_def days_in_year_def)
    then show ?thesis by (simp add: algebra_simps)
  qed
  ultimately show ?case
    using Suc.IH [of "y + 1"] Suc.prems S by (subst year_loop.simps) (simp add: algebra_simps)
qed

lemma month_loop_before:
  "unat d < mlen y (k + n) \<Longrightarrow> k + n < 12 \<Longrightarrow>
    month_loop y k (of_nat (\<Sum>i<n. mlen y (k + i)) + d) = Some (k + n, d)"
proof (induction n arbitrary: k)
  case 0
  then show ?case
    by (subst month_loop.simps) (simp add: word_less_nat_alt unat_days_in_month, simp add: month_days_def)
next
  case (Suc n)
  let ?S = "\<Sum>i<n. mlen y (Suc k + i)"
  have S: "(\<Sum>i<Suc n. mlen y (k + i)) = mlen y k + ?S"
    unfolding sum.lessThan_Suc_shift by (simp add: algebra_simps)
  have k: "k < 12" using Suc.prems by simp
  have m31: "mlen y j \<le> 31" if "j < 12" for j
    using less_12_cases [OF that] by (auto simp: mlen_eval)
  have "?S \<le> of_nat (card {..<n}) * 31"
    using Suc.prems(2) by (intro sum_bounded_above) (simp add: m31)
  then have "mlen y k + ?S + unat d < 2 ^ 64"
    using Suc.prems m31 [OF k] m31 [of "k + Suc n"] by simp
  then have u: "unat (of_nat (mlen y k + ?S) + d) = mlen y k + ?S + unat d"
    by (rule unat_of_nat_add)
  have "\<not> of_nat (mlen y k + ?S) + d < days_in_month y k"
    unfolding word_less_nat_alt u unat_days_in_month [OF k] by simp
  moreover have "of_nat (mlen y k + ?S) + d - days_in_month y k = of_nat ?S + d"
  proof -
    have "(of_nat (mlen y k) :: u64) = days_in_month y k"
      using unat_days_in_month [OF k, of y] by (metis of_nat_unat_u64)
    then show ?thesis by (simp add: algebra_simps)
  qed
  moreover have "\<not> length month_days \<le> k" using k by (simp add: month_days_def)
  ultimately show ?case
    using Suc.IH [of "Suc k"] Suc.prems S by (subst month_loop.simps) simp
qed

text \<open>The day number of a date, and what \<open>compute_epoch\<close> makes of it.\<close>

definition valid_date :: "int \<Rightarrow> int \<Rightarrow> int \<Rightarrow> int \<Rightarrow> int \<Rightarrow> int \<Rightarrow> bool" where
  "valid_date y mo d h mi s \<longleftrightarrow>
     1970 \<le> y \<and> y < 2 ^ 31 \<and> 1 \<le> mo \<and> mo \<le> 12 \<and>
     1 \<le> d \<and> d \<le> int (mlen y (nat (mo - 1))) \<and>
     0 \<le> h \<and> h < 24 \<and> 0 \<le> mi \<and> mi < 60 \<and> 0 \<le> s \<and> s < 60"

definition day_number :: "int \<Rightarrow> int \<Rightarrow> int \<Rightarrow> nat" where
  "day_number y mo d = before_year (nat (y - 1970)) + before_month y (nat (mo - 1)) + nat (d - 1)"

definition day_seconds :: "int \<Rightarrow> int \<Rightarrow> int \<Rightarrow> nat" where
  "day_seconds h mi s = nat (h * 3600 + mi * 60 + s)"

lemma fold_years:
  "fold (\<lambda>y days. days + (if leap_year y then 366 else 365)) [1970..1969 + int n] (0 :: u64) =
    of_nat (before_year n)"
proof (induction n)
  case 0
  then show ?case by (simp add: before_year_def)
next
  case (Suc n)
  have "[1970..1969 + int (Suc n)] = [1970..1969 + int n] @ [1970 + int n]"
    using upto_rec2 [of 1970 "1970 + int n"] by (simp add: algebra_simps)
  with Suc show ?case by (simp add: before_year_def ylen_def)
qed

lemma month_body:
  "(let days = (x :: u64) + of_int (month_days ! m) in
     if m = 1 \<and> leap_february y then days + 1 else days) = x + days_in_month y m"
  by (simp add: days_in_month_def Let_def)

lemma fold_months:
  "n \<le> 12 \<Longrightarrow> fold (\<lambda>m days. days + days_in_month y m) [0..<n] (a :: u64) =
    a + of_nat (before_month y n)"
proof (induction n)
  case 0
  then show ?case by (simp add: before_month_def)
next
  case (Suc n)
  have dm: "(of_nat (mlen y n) :: u64) = days_in_month y n"
    using unat_days_in_month [of n y] Suc.prems by (metis Suc_le_lessD of_nat_unat_u64)
  have "before_month y (Suc n) = before_month y n + mlen y n" by (simp add: before_month_def)
  then have "(of_nat (before_month y (Suc n)) :: u64) = of_nat (before_month y n) + days_in_month y n"
    using dm by simp
  with Suc show ?case by (simp add: add.assoc)
qed

lemma compute_epoch_value:
  assumes "valid_date y mo d h mi s"
  shows "compute_epoch y mo d h mi s = of_nat (day_number y mo d * 86400 + day_seconds h mi s)"
proof -
  have y: "[1970..y - 1] = [1970..1969 + int (nat (y - 1970))]"
    using assms by (simp add: valid_date_def)
  have "mo - 1 \<le> 12" using assms by (simp add: valid_date_def)
  then have m: "nat (mo - 1) \<le> 12" by simp
  have d: "(of_int (d - 1) :: u64) = of_nat (nat (d - 1))"
    using assms by (simp add: valid_date_def)
  have s: "(of_nat (day_seconds h mi s) :: u64) = of_int (h * 3600) + of_int (mi * 60) + of_int s"
    using assms by (simp add: day_seconds_def valid_date_def)
  show ?thesis
    unfolding compute_epoch_def month_body y fold_years fold_months [OF m] d
    using s by (simp add: day_number_def algebra_simps)
qed

section \<open>Back from the day number\<close>

lemma before_month_Suc: "before_month y (Suc m) = before_month y m + mlen y m"
  by (simp add: before_month_def)

lemma before_year_Suc: "before_year (Suc n) = before_year n + ylen (1970 + int n)"
  by (simp add: before_year_def)

lemma before_month_le: "m < 12 \<Longrightarrow> before_month y m + mlen y m \<le> ylen y"
proof -
  assume "m < 12"
  then have "before_month y (Suc m) \<le> before_month y 12"
    unfolding before_month_def by (intro sum_mono2) auto
  then show ?thesis by (simp add: before_month_Suc before_month_12)
qed

lemma mlen_pos: "m < 12 \<Longrightarrow> 0 < mlen y m"
  using less_12_cases [of m] by (auto simp: mlen_eval)

lemma split_years: "\<exists>n r. N = before_year n + r \<and> r < ylen (1970 + int n)"
proof (induction N)
  case 0
  show ?case by (intro exI [of _ 0]) (simp add: before_year_def ylen_def)
next
  case (Suc N)
  then obtain n r where nr: "N = before_year n + r" "r < ylen (1970 + int n)" by blast
  show ?case
  proof (cases "Suc r < ylen (1970 + int n)")
    case True
    with nr show ?thesis by (intro exI [of _ n] exI [of _ "Suc r"]) simp
  next
    case False
    moreover have "0 < ylen (1970 + int (Suc n))" by (simp add: ylen_def)
    ultimately show ?thesis
      using nr by (intro exI [of _ "Suc n"] exI [of _ 0]) (simp add: before_year_Suc)
  qed
qed

lemma split_months: "r < ylen y \<Longrightarrow> \<exists>m d. r = before_month y m + d \<and> m < 12 \<and> d < mlen y m"
proof (induction r)
  case 0
  show ?case by (intro exI [of _ 0]) (simp add: before_month_def mlen_pos)
next
  case (Suc r)
  then obtain m d where md: "r = before_month y m + d" "m < 12" "d < mlen y m" by auto
  show ?case
  proof (cases "Suc d < mlen y m")
    case True
    with md show ?thesis by (intro exI [of _ m] exI [of _ "Suc d"]) simp
  next
    case False
    then have eq: "Suc r = before_month y (Suc m)" using md by (simp add: before_month_Suc)
    then have "Suc m \<noteq> 12" using Suc.prems before_month_12 [of y] by auto
    with md(2) have "Suc m < 12" by simp
    then show ?thesis using eq mlen_pos [of "Suc m" y]
      by (intro exI [of _ "Suc m"] exI [of _ 0]) simp
  qed
qed

lemma day_loops:
  assumes r: "m < 12" "d < mlen y m" and y: "y = 1970 + int n"
    and N: "N = before_year n + (before_month y m + d)" "N < 2 ^ 64"
  shows "year_loop 1970 (of_nat N) = (y, of_nat (before_month y m + d))"
    and "month_loop y 0 (of_nat (before_month y m + d)) = Some (m, of_nat d)"
proof -
  have "before_month y m + d < ylen y" using before_month_le [OF r(1), of y] r(2) by simp
  moreover have "before_month y m + d < 2 ^ 64" "d < 2 ^ 64" using N by simp_all
  then have u: "unat (of_nat (before_month y m + d) :: u64) = before_month y m + d"
    "unat (of_nat d :: u64) = d" by (simp_all only: unat_of_nat_u64)
  moreover have sum: "(\<Sum>i<n. ylen (1970 + int i)) = before_year n" by (simp add: before_year_def)
  ultimately show "year_loop 1970 (of_nat N) = (y, of_nat (before_month y m + d))"
    using year_loop_before [of "of_nat (before_month y m + d)" 1970 n] N y by (simp del: of_nat_sum)
  have "(\<Sum>i<m. mlen y (0 + i)) = before_month y m" by (simp add: before_month_def)
  then show "month_loop y 0 (of_nat (before_month y m + d)) = Some (m, of_nat d)"
    using month_loop_before [of "of_nat d" y 0 m] r u(2) by (simp del: of_nat_sum)
qed

lemma hms_fields:
  fixes e :: u64
  assumes "unat e = S" and "S < 86400"
  shows "uint (e div 3600 mod 24) = int (S div 3600)" and "uint (e div 60 mod 60) = int (S div 60 mod 60)"
    and "uint (e mod 60) = int (S mod 60)"
proof -
  have "S div 3600 < 24" using assms(2) by (simp add: less_mult_imp_div_less)
  then have m: "S div 3600 mod 24 = S div 3600" by (rule mod_less)
  have u: "unat (3600 :: u64) = 3600" "unat (24 :: u64) = 24" "unat (60 :: u64) = 60" by simp_all
  show "uint (e div 3600 mod 24) = int (S div 3600)"
    by (simp only: uint_nat unat_div unat_mod assms(1) u m)
  show "uint (e div 60 mod 60) = int (S div 60 mod 60)" and "uint (e mod 60) = int (S mod 60)"
    by (simp_all only: uint_nat unat_div unat_mod assms(1) u)
qed

lemma datetime_of_day:
  assumes r: "m < 12" "d < mlen y m" and y: "y = 1970 + int n"
    and D: "D = before_year n + (before_month y m + d)"
    and s: "S < 86400" and e: "unat (epoch + 7200) = D * 86400 + S"
  shows "compute_datetime_from_epoch epoch = Some
    \<lparr>dt_year = y, dt_month = int m + 1, dt_day = int d + 1, dt_hour = int (S div 3600),
     dt_minute = int (S div 60 mod 60), dt_second = int (S mod 60),
     dt_weekday = int ((D + 4) mod 7)\<rparr>"
proof -
  let ?e = "epoch + 7200"
  have bound: "D * 86400 + S < 18446744073709551616" using e unat_u64_bound [of ?e] by simp
  then have D64: "D < 2 ^ 64" by simp
  have days: "?e div 86400 = of_nat D"
    using e s D64 by (simp add: word_unat_eq_iff unat_div unat_of_nat_u64)
  have secs: "unat (?e mod 86400) = S" using e s by (simp add: unat_mod)
  have d64: "d < 2 ^ 64" using D D64 by simp
  have ud: "uint (of_nat d :: u64) = int d" using unat_of_nat_u64 [OF d64] by (simp only: uint_nat)
  note hms = hms_fields [OF secs s]
  have wd: "uint ((?e div 86400 + 4) mod 7) = int ((D + 4) mod 7)"
  proof -
    have "unat (of_nat D + (4 :: u64)) = D + 4"
      using bound by (subst unat_of_nat_add) simp_all
    moreover have "unat (7 :: u64) = 7" by simp
    ultimately show ?thesis unfolding days by (simp only: uint_nat unat_mod)
  qed
  show ?thesis
    using day_loops [OF r y D D64] days hms wd ud
    by (simp add: compute_datetime_from_epoch_def Let_def)
qed

lemma day_seconds_bound:
  assumes "valid_date y mo d h mi s"
  shows "day_seconds h mi s < 86400"
proof -
  have "h \<le> 23" "mi \<le> 59" "s \<le> 59" using assms by (simp_all add: valid_date_def)
  then have "h * 3600 + mi * 60 + s < 86400" by linarith
  then show ?thesis by (simp add: day_seconds_def nat_less_iff)
qed

lemma day_seconds_fields:
  assumes "0 \<le> h" "h < 24" "0 \<le> mi" "mi < 60" "0 \<le> s" "s < 60"
  shows "int (day_seconds h mi s div 3600) = h" and "int (day_seconds h mi s div 60 mod 60) = mi"
    and "int (day_seconds h mi s mod 60) = s"
proof -
  have v: "int (day_seconds h mi s) = h * 3600 + mi * 60 + s"
    using assms by (simp add: day_seconds_def)
  have b: "mi \<le> 59" "s \<le> 59" using assms by simp_all
  have "(h * 3600 + mi * 60 + s) div 3600 = h"
    by (rule int_div_pos_eq [where r = "mi * 60 + s"]) (use assms b in linarith)+
  then show "int (day_seconds h mi s div 3600) = h" by (simp add: zdiv_int v)
  have q: "(h * 3600 + mi * 60 + s) div 60 = h * 60 + mi"
    by (rule int_div_pos_eq [where r = s]) (use assms in simp_all)
  have r2: "(h * 3600 + mi * 60 + s) mod 60 = s"
    by (rule int_mod_pos_eq [where q = "h * 60 + mi"]) (use assms in simp_all)
  show "int (day_seconds h mi s div 60 mod 60) = mi"
    by (simp add: zdiv_int zmod_int v q mod_pos_pos_trivial [OF assms(3,4)])
  show "int (day_seconds h mi s mod 60) = s"
    by (simp add: zmod_int v r2)
qed

lemma day_number_split:
  assumes "valid_date y mo d h mi s"
  shows "nat (mo - 1) < 12" and "nat (d - 1) < mlen y (nat (mo - 1))" and "y = 1970 + int (nat (y - 1970))"
    and "day_number y mo d = before_year (nat (y - 1970)) + (before_month y (nat (mo - 1)) + nat (d - 1))"
  using assms by (auto simp: valid_date_def day_number_def)

lemma day_number_bound:
  assumes "valid_date y mo d h mi s"
  shows "day_number y mo d * 86400 + day_seconds h mi s < 2 ^ 64"
proof -
  have "y - 1970 \<le> 2147483647" using assms by (simp add: valid_date_def)
  then have "nat (y - 1970) \<le> 2147483647" by simp
  then have "before_year (nat (y - 1970)) \<le> 366 * 2147483647"
    using before_year_bound [of "nat (y - 1970)"] by simp
  moreover have "before_month y (nat (mo - 1)) + nat (d - 1) < ylen y"
    using before_month_le [OF day_number_split(1) [OF assms], of y] day_number_split(2) [OF assms] by simp
  moreover have "ylen y \<le> 366" by (simp add: ylen_def)
  ultimately have "day_number y mo d \<le> 366 * 2147483648" by (simp add: day_number_def)
  then show ?thesis using day_seconds_bound [OF assms] by simp
qed

lemma hms_split: "(S div 3600) * 3600 + (S div 60 mod 60) * 60 + S mod 60 = (S :: nat)"
proof -
  have "S div 3600 = S div 60 div 60" by (simp add: div_mult2_eq [symmetric])
  then have "(S div 3600) * 60 + S div 60 mod 60 = S div 60" by simp
  then show ?thesis using div_mult_mod_eq [of S 60] by linarith
qed

lemma day_seconds_split: "day_seconds (int (S div 3600)) (int (S div 60 mod 60)) (int (S mod 60)) = S"
  using hms_split [of S]
  by (simp add: day_seconds_def nat_add_distrib nat_mult_distrib)

text \<open>
  For any time within the next billion years \<open>compute_datetime_from_epoch\<close> returns, never
  reads \<^verbatim>\<open>month_days\<close> past its end, and gives a valid date that \<open>compute_epoch\<close> converts
  back to the same time plus the time-zone offset.
\<close>

lemma datetime_epoch:
  assumes "unat (epoch + 7200) < 2 ^ 55"
  shows "\<exists>dt. compute_datetime_from_epoch epoch = Some dt \<and>
    valid_date (dt_year dt) (dt_month dt) (dt_day dt) (dt_hour dt) (dt_minute dt) (dt_second dt) \<and>
    compute_epoch (dt_year dt) (dt_month dt) (dt_day dt) (dt_hour dt) (dt_minute dt) (dt_second dt) =
      epoch + 7200"
proof -
  obtain E where E: "unat (epoch + 7200) = E" "E < 2 ^ 55" using assms by blast
  obtain D S where DS: "E = D * 86400 + S" "S < 86400"
    by (rule that [of "E div 86400" "E mod 86400"]) simp_all
  obtain n r where nr: "D = before_year n + r" "r < ylen (1970 + int n)"
    using split_years by blast
  obtain m d where md: "r = before_month (1970 + int n) m + d" "m < 12" "d < mlen (1970 + int n) m"
    using split_months [OF nr(2)] by blast
  have D: "D = before_year n + (before_month (1970 + int n) m + d)" using nr(1) md(1) by simp
  have e: "unat (epoch + 7200) = D * 86400 + S" using E(1) DS(1) by simp
  note dt = datetime_of_day [OF md(2,3) refl D DS(2) e]
  have "365 * n \<le> before_year n"
    using sum_bounded_below [of "{..<n}" 365 "\<lambda>i. ylen (1970 + int i)"]
    by (simp add: before_year_def ylen_def mult.commute)
  moreover have "before_year n * 86400 < 2 ^ 55" using E(2) DS(1) D by simp
  ultimately have "int n < 2 ^ 31 - 1970" by simp
  moreover have "S div 3600 < 24" using DS(2) by (simp add: less_mult_imp_div_less)
  ultimately have valid: "valid_date (1970 + int n) (int m + 1) (int d + 1)
      (int (S div 3600)) (int (S div 60 mod 60)) (int (S mod 60))"
    using md(2,3) by (simp add: valid_date_def)
  have "day_number (1970 + int n) (int m + 1) (int d + 1) = D"
    using D by (simp add: day_number_def)
  then have ce: "compute_epoch (1970 + int n) (int m + 1) (int d + 1)
      (int (S div 3600)) (int (S div 60 mod 60)) (int (S mod 60)) = of_nat E"
    by (simp only: compute_epoch_value [OF valid] day_seconds_split DS(1))
  have bk: "of_nat E = epoch + 7200" using E(1) of_nat_unat_u64 by metis
  show ?thesis
    by (rule exI, rule conjI, rule dt) (simp only: date_time.simps valid ce bk simp_thms)
qed

section \<open>Properties\<close>

text \<open>
  C38: the two conversions are inverse on dates: converting a valid date to seconds and
  the seconds, less the time-zone offset, back gives the same date and time, with the
  right day of the week.
\<close>

theorem epoch_datetime_roundtrip:
  assumes "valid_date y mo d h mi s"
  shows "compute_datetime_from_epoch (compute_epoch y mo d h mi s - 7200) = Some
    \<lparr>dt_year = y, dt_month = mo, dt_day = d, dt_hour = h, dt_minute = mi, dt_second = s,
     dt_weekday = int ((day_number y mo d + 4) mod 7)\<rparr>"
proof -
  let ?D = "day_number y mo d" and ?S = "day_seconds h mi s"
  note sp = day_number_split [OF assms]
  have "unat (of_nat (?D * 86400 + ?S) :: u64) = ?D * 86400 + ?S"
    using day_number_bound [OF assms] by (rule unat_of_nat_u64)
  then have "unat (compute_epoch y mo d h mi s - 7200 + 7200) = ?D * 86400 + ?S"
    by (simp add: compute_epoch_value [OF assms])
  note dt = datetime_of_day [OF sp day_seconds_bound [OF assms] this]
  have f: "0 \<le> h" "h < 24" "0 \<le> mi" "mi < 60" "0 \<le> s" "s < 60" "1 \<le> mo" "1 \<le> d"
    using assms by (simp_all add: valid_date_def)
  show ?thesis using dt day_seconds_fields [OF f(1-6)] f(7,8) by simp
qed

theorem epoch_datetime_roundtrip_witness:
  "map_option dt_day (compute_datetime_from_epoch (compute_epoch 2024 2 29 23 59 59 - 7200)) = Some 29"
proof -
  have "leap_year 2024" by (simp add: leap_year_def)
  then have "valid_date 2024 2 29 23 59 59" by (simp add: valid_date_def mlen_eval)
  from epoch_datetime_roundtrip [OF this] show ?thesis by simp
qed

end
