(* ===== verification/Sys_Info.thy ===== *)
theory Sys_Info
  imports Console Ktime Sys_Memory
begin

text \<open>
  The system calls that report on the kernel: the process table, the page pool, the clock
  and the log, with \<^verbatim>\<open>kernel/ram.c\<close> and the timer of \<^verbatim>\<open>kernel/timer.c\<close> and
  \<^verbatim>\<open>kernel/sbi.c\<close>. The text \<^verbatim>\<open>sys_log\<close> hands to the virtio device is added in \<^verbatim>\<open>Log_Path\<close>.
\<close>

section \<open>The process table\<close>

text \<open>One line, \<^verbatim>\<open>%d\t%s\t%s\n\<close>: the pid, a tab (9), the state, a tab, the name, a newline (10).\<close>

definition ps_line :: "proc_t \<Rightarrow> kstate \<Rightarrow> kstate" where
  "ps_line p s =
     (let s = uart_putpad (of_int (p_pid p)) 10 0 False True s;
          s = uart_putc 9 s;
          s = uart_puts (proc_state_str (p_state p)) s;
          s = uart_putc 9 s;
          s = uart_puts (takeWhile (\<lambda>b. b \<noteq> 0) (p_name p)) s
      in uart_putc 10 s)"

definition sys_ps :: "kstate \<Rightarrow> kstate" where
  "sys_ps s =
     (let s = uart_puts (bytes_of ''PID'' @ [9] @ bytes_of ''STATE'' @ [9, 9] @ bytes_of ''NAME'' @ [10]) s
      in fold (\<lambda>i s. if p_pid (procs s ! i) \<noteq> 0 then ps_line (procs s ! i) s else s) [0..<PROCS_MAX] s)"

section \<open>Memory\<close>

text \<open>\<^verbatim>\<open>ram_init\<close> without its message.\<close>

definition ram_init :: "linker_syms \<Rightarrow> kstate \<Rightarrow> kstate" where
  "ram_init L s = s\<lparr>g_total_pages := (free_ram_end L - free_ram L) div 4096\<rparr>"

definition page_allocator_total_pages :: "kstate \<Rightarrow> u64" where
  "page_allocator_total_pages s = g_total_pages s"

text \<open>A \<^verbatim>\<open>NULL\<close> \<^verbatim>\<open>current_proc\<close> faults at its field \<^verbatim>\<open>page_table\<close>, at offset 64.\<close>

definition sys_sysinfo :: "linker_syms \<Rightarrow> u64 \<Rightarrow> kstate \<Rightarrow> (u64, kstate) kres" where
  "sys_sysinfo L arg0 s =
     (let info = word_bytes 8 (page_allocator_total_pages s) @ word_bytes 8 (page_allocator_free_pages s)
      in case current_proc s of
           None \<Rightarrow> kpanic (Page_fault 64)
         | Some c \<Rightarrow>
             kbind (copy_to_user L (p_page_table (procs s ! c)) arg0 info s) (\<lambda>r s. kret (of_int r) s))"

section \<open>Time\<close>

definition TIMER_INTERVAL :: u64 where
  "TIMER_INTERVAL = 1000000"

definition sbi_set_timer :: "u64 \<Rightarrow> kstate \<Rightarrow> kstate" where
  "sbi_set_timer stime_value s = s\<lparr>stimer := stime_value\<rparr>"

definition timer_init :: "kstate \<Rightarrow> kstate" where
  "timer_init s = enable_supervisor_timer_interrupts (sbi_set_timer (get_time s + TIMER_INTERVAL) s)"

text \<open>The seven \<^verbatim>\<open>int\<close> fields of \<^verbatim>\<open>struct DateTime\<close> in memory.\<close>

definition date_bytes :: "date_time \<Rightarrow> u8 list" where
  "date_bytes dt =
     concat (map (\<lambda>x. word_bytes 4 (of_int x))
       [dt_year dt, dt_month dt, dt_day dt, dt_hour dt, dt_minute dt, dt_second dt, dt_weekday dt])"

definition sys_time :: "linker_syms \<Rightarrow> u64 \<Rightarrow> kstate \<Rightarrow> (int, kstate) kres" where
  "sys_time L arg0 s =
     (let ticks = get_time s in
      case compute_datetime ticks of
        None \<Rightarrow> Inl Undefined
      | Some dt \<Rightarrow>
          (case current_proc s of
             None \<Rightarrow> kpanic (Page_fault 64)
           | Some c \<Rightarrow> copy_to_user L (p_page_table (procs s ! c)) arg0 (date_bytes dt) s))"

section \<open>The log\<close>

text \<open>The message is read through the page table of the caller, before the switch to the kernel's.\<close>

definition sys_log :: "u64 \<Rightarrow> kstate \<Rightarrow> (int, kstate) kres" where
  "sys_log msg s =
     (if msg = 0 then kret (- 1) s
      else
        kbind (user_strncpy msg 255 (enable_sum s)) (\<lambda>buf s.
          (let s = disable_sum s;
               (old_satp, s) = switch_pagetable (kernel_pagetable s) s
           in case current_proc s of
                None \<Rightarrow> kpanic (Page_fault 0)
              | Some c \<Rightarrow> kret 0 (restore_pagetable old_satp s))))"

section \<open>Writing to the address space of a process\<close>

text \<open>The contents of user memory after the bytes \<open>bs\<close> have been written at \<open>va\<close>.\<close>

definition overlay :: "u64 \<Rightarrow> u8 list \<Rightarrow> (u64 \<Rightarrow> u8) \<Rightarrow> u64 \<Rightarrow> u8" where
  "overlay va bs c v = (if unat (v - va) < length bs then bs ! unat (v - va) else c v)"

text \<open>The addresses from \<open>va\<close> on lie in user pages, below the kernel, with some permission.\<close>

definition user_range :: "linker_syms \<Rightarrow> (u64 \<Rightarrow> u64 option) \<Rightarrow> u64 \<Rightarrow> nat \<Rightarrow> bool" where
  "user_range L R va n \<longleftrightarrow>
     unat va + n \<le> unat (kernel_base L) \<and>
     (\<forall>i < n. \<exists>fl. R (page_base (va + of_nat i)) = Some fl \<and> fl AND PTE_U \<noteq> 0 \<and>
        fl AND (PTE_R OR PTE_W OR PTE_X) \<noteq> 0)"

lemma overlay_Cons:
  assumes "unat va + length (b # bs) < 2 ^ 64"
  shows "overlay (va + 1) bs (c(va := b)) = overlay va (b # bs) c"
proof (rule ext)
  fix v
  show "overlay (va + 1) bs (c(va := b)) v = overlay va (b # bs) c v"
  proof (cases "v = va")
    case True
    have "unat (- 1 :: u64) = 2 ^ 64 - 1"
      by (simp add: unsigned_minus_1_eq_mask mask_eq_exp_minus_1)
    then have "unat (va - (va + 1)) = 2 ^ 64 - 1" by simp
    then show ?thesis using assms True by (simp add: overlay_def)
  next
    case False
    then have "1 + (v - (va + 1)) \<noteq> 0" by simp
    then have "unat (1 + (v - (va + 1))) = Suc (unat (v - (va + 1)))" by (rule unatSuc)
    moreover have "1 + (v - (va + 1)) = v - va" by simp
    ultimately have "unat (v - va) = Suc (unat (v - (va + 1)))" by simp
    then show ?thesis using False by (simp add: overlay_def)
  qed
qed

lemma user_range_Suc:
  assumes "user_range L R va (Suc n)"
  shows "\<exists>fl. R (page_base va) = Some fl \<and> fl AND PTE_U \<noteq> 0 \<and> fl AND (PTE_R OR PTE_W OR PTE_X) \<noteq> 0"
    and "user_range L R (va + 1) n" and "va < kernel_base L"
proof -
  have b: "unat va + Suc n \<le> unat (kernel_base L)" using assms by (simp add: user_range_def)
  then show "va < kernel_base L" by (simp add: word_less_nat_alt)
  have "unat (va + 1) = unat va + 1"
    using b unsigned_less [of "kernel_base L", where ?'a = nat] by (subst unat_add_u64) simp_all
  moreover have "va + 1 + of_nat i = va + of_nat (Suc i)" for i by simp
  ultimately show "user_range L R (va + 1) n"
    using assms unfolding user_range_def by (metis Suc_less_eq add_Suc_shift plus_1_eq_Suc add.commute)
  show "\<exists>fl. R (page_base va) = Some fl \<and> fl AND PTE_U \<noteq> 0 \<and> fl AND (PTE_R OR PTE_W OR PTE_X) \<noteq> 0"
    using assms unfolding user_range_def by force
qed

text \<open>One byte.\<close>

lemma dspace_user_byte:
  assumes ds: "dspace L root s0 s R c" and va: "va < 0x8000000000" "user_flags (R (page_base va))"
  defines "pa \<equiv> upage (mem s) root va + (va AND 0xFFF)"
  shows "dspace L root s0 (s\<lparr>mem := (mem s)(pa := b)\<rparr>) R (c(va := b))"
    and "page_base pa \<in> owned L s - owned L s0"
    and "owned L (s\<lparr>mem := (mem s)(pa := b)\<rparr>) = owned L s"
proof -
  let ?p = "upage (mem s) root va" and ?m = "(mem s)(pa := b)"
  have ok: "vm_ok L root s" and own0: "owned L s0 \<subseteq> owned L s"
    and old: "\<And>v. v < 0x8000000000 \<Longrightarrow> mapped_as L root s0 s c (R (page_base v)) v"
    and inj: "\<And>v. v < 0x8000000000 \<Longrightarrow> user_flags (R (page_base v)) \<Longrightarrow>
      upage (mem s) root v = ?p \<Longrightarrow> page_base v = page_base va"
    using ds va by (auto simp: dspace_def space_is_def)
  have p: "?p \<in> owned L s" "?p \<notin> tables (mem s) root" "?p \<notin> owned L s0"
    using old [OF va(1)] va(2) by (auto simp: mapped_as_def user_flags_def split: option.splits)
  have base: "page_base pa = ?p" by (simp add: pa_def page_offset)
  then show "page_base pa \<in> owned L s - owned L s0" using p by simp
  have out: "same_outside {?p} (mem s) ?m" using same_outside_byte_write [of pa] base by simp
  have P: "{?p} \<subseteq> owned L s" "tables (mem s) root \<inter> {?p} = {}" using p by simp_all
  note w = data_write [OF ok out P]
  show own: "owned L (s\<lparr>mem := ?m\<rparr>) = owned L s"
    using kpages.put_owns [OF vm_okD(1) [OF ok] out P(1)] by simp
  have up: "upage ?m root v = upage (mem s) root v" for v by (simp add: upage_def w(3))
  have "mapped_as L root s0 (s\<lparr>mem := ?m\<rparr>) (c(va := b)) (R (page_base v)) v" if v: "v < 0x8000000000" for v
  proof -
    have "?m (upage (mem s) root v + (v AND 0xFFF)) = (c(va := b)) v"
      if u: "user_flags (R (page_base v))" and m: "mem s (upage (mem s) root v + (v AND 0xFFF)) = c v"
    proof (cases "v = va")
      case False
      have "upage (mem s) root v + (v AND 0xFFF) \<noteq> pa"
      proof
        assume e: "upage (mem s) root v + (v AND 0xFFF) = pa"
        then have up: "upage (mem s) root v = ?p" using base page_offset [of "upage (mem s) root v" v] by simp
        then have "page_base v = page_base va" by (rule inj [OF v u])
        moreover have "v AND 0xFFF = va AND 0xFFF" using e unfolding up pa_def by (rule add_left_imp_eq)
        ultimately have "v = va" by (metis page_split)
        with False show False ..
      qed
      then show ?thesis using False m by simp
    qed (simp add: pa_def)
    then show ?thesis
      using old [OF v] by (auto simp: mapped_as_def user_flags_def w(2,3) up own split: option.splits)
  qed
  then show "dspace L root s0 (s\<lparr>mem := ?m\<rparr>) R (c(va := b))"
    using ds w(1) by (simp add: dspace_def space_is_def own up)
qed

lemma user_pa_space:
  assumes "dspace L root s0 s R c" and "va < kernel_base L"
    and "R (page_base va) = Some fl" and "fl AND PTE_U \<noteq> 0" and "fl AND (PTE_R OR PTE_W OR PTE_X) \<noteq> 0"
  shows "user_pa L (mem s) root va = upage (mem s) root va + (va AND 0xFFF)"
    and "user_pa L (mem s) root va \<noteq> 0" and "va < 0x8000000000"
proof -
  have ok: "vm_ok L root s" using assms(1) by (simp add: dspace_def)
  then have "layout_ok L" by (auto simp: vm_ok_def pool_ok_def pool_inv_def)
  then have "kernel_base L \<le> 0x4000000000"
    by (auto simp: layout_ok_def word_le_nat_alt word_less_nat_alt)
  then show va: "va < 0x8000000000" using assms(2) by (simp add: word_le_nat_alt word_less_nat_alt)
  have e: "pt_leaf (mem s) root va = PA2PTE (upage (mem s) root va) OR (fl OR PTE_V)"
    and own: "upage (mem s) root va \<in> owned L s"
    using assms(1,3,4) va by (auto simp: dspace_def space_is_def mapped_as_def or.assoc)
  show u: "user_pa L (mem s) root va = upage (mem s) root va + (va AND 0xFFF)"
    using assms(2) rwx_set [OF assms(5)] V_set
    by (simp add: user_pa_def Let_def not_le [symmetric] upage_def e [symmetric])
       (metis e not_le)
  have "page_base (upage (mem s) root va + (va AND 0xFFF)) \<noteq> 0"
    using owned_props(2) [OF vm_okD(1) [OF ok] own] by (simp add: page_offset)
  then show "user_pa L (mem s) root va \<noteq> 0" unfolding u by (metis page_base_def diff_self mod_0)
qed

text \<open>
  \<^verbatim>\<open>copy_to_user\<close> refines an assignment to user memory: on a range of mapped user pages it
  answers 0, the bytes are what the process then reads there, and its page table, every
  other byte of its memory and everything outside memory stay as they were.
\<close>

lemma copy_to_user_refines:
  assumes "dspace L root s0 s R c" and "user_range L R va (length bs)"
  shows "\<exists>m. copy_to_user L root va bs s = kret 0 (s\<lparr>mem := m\<rparr>) \<and>
    dspace L root s0 (s\<lparr>mem := m\<rparr>) R (overlay va bs c) \<and>
    (\<forall>x. page_base x \<notin> owned L s - owned L s0 \<longrightarrow> m x = mem s x)"
  using assms
proof (induction bs arbitrary: s va c)
  case Nil
  have "overlay va [] c = c" by (auto simp: overlay_def)
  then show ?case using Nil(1) by (intro exI [of _ "mem s"]) simp
next
  case (Cons b bs)
  have "user_range L R va (Suc (length bs))" using Cons.prems(2) by simp
  note r = user_range_Suc [OF this]
  obtain fl where fl: "R (page_base va) = Some fl" "fl AND PTE_U \<noteq> 0"
    "fl AND (PTE_R OR PTE_W OR PTE_X) \<noteq> 0" using r(1) by blast
  note pa = user_pa_space [OF Cons.prems(1) r(3) fl]
  let ?s = "s\<lparr>mem := (mem s)(user_pa L (mem s) root va := b)\<rparr>"
  have uf: "user_flags (R (page_base va))" by (simp add: user_flags_def fl)
  note ub = dspace_user_byte(1,3) [OF Cons.prems(1) pa(3) uf, where b = b, folded pa(1)]
    and page = dspace_user_byte(2) [OF Cons.prems(1) pa(3) uf, folded pa(1)]
  from Cons.IH [OF ub(1) r(2)] obtain m where
    m: "copy_to_user L root (va + 1) bs ?s = kret 0 (?s\<lparr>mem := m\<rparr>)"
    "dspace L root s0 (?s\<lparr>mem := m\<rparr>) R (overlay (va + 1) bs (c(va := b)))"
    "\<forall>x. page_base x \<notin> owned L ?s - owned L s0 \<longrightarrow> m x = mem ?s x" by blast
  have "m x = mem s x" if "page_base x \<notin> owned L s - owned L s0" for x
    using m(3) ub(2) page that by auto
  have "unat va + length (b # bs) < 2 ^ 64"
    using Cons.prems(2) unsigned_less [of "kernel_base L", where ?'a = nat] by (simp add: user_range_def)
  then have "overlay (va + 1) bs (c(va := b)) = overlay va (b # bs) c" by (rule overlay_Cons)
  moreover have "walkaddr L root va s = kret (user_pa L (mem s) root va) s"
    using Cons.prems(1) by (intro walkaddr_user_pa) (simp add: dspace_def)
  ultimately show ?case using m pa(2) \<open>\<And>x. page_base x \<notin> owned L s - owned L s0 \<Longrightarrow> m x = mem s x\<close>
    by (intro exI [of _ m]) simp
qed

section \<open>\<open>sys_time\<close>\<close>

lemma length_word_bytes [simp]: "length (word_bytes n w) = n"
  by (simp add: word_bytes_def)

lemma length_date_bytes [simp]: "length (date_bytes dt) = 28"
  by (simp add: date_bytes_def)

lemma build_epoch_value: "build_epoch = 1759809607"
  by code_simp

lemma uptime_bound: "unat (build_epoch + ticks div 10000000 + 7200) < 2 ^ 55"
proof -
  have "unat (ticks div 10000000) < 2 ^ 54"
    using unsigned_less [of ticks, where ?'a = nat] by (simp add: unat_div less_mult_imp_div_less)
  moreover have e: "build_epoch + ticks div 10000000 + 7200 = ticks div 10000000 + 1759816807"
    by (simp add: build_epoch_value)
  ultimately show ?thesis unfolding e by (subst unat_add_u64) simp_all
qed

text \<open>
  \<open>sys_time\<close> answers 0 and leaves at the address it is given, as the process sees its
  memory, the seven fields of a valid calendar date: the build time plus the uptime in
  seconds, in the time zone of the kernel. It changes nothing else, whatever the clock says.
\<close>

lemma sys_time_space:
  assumes "current_proc s = Some c" and "dspace L (p_page_table (procs s ! c)) s0 s R cb"
    and "user_range L R buf 28"
  shows "\<exists>dt m. sys_time L buf s = kret 0 (s\<lparr>mem := m\<rparr>) \<and>
    valid_date (dt_year dt) (dt_month dt) (dt_day dt) (dt_hour dt) (dt_minute dt) (dt_second dt) \<and>
    compute_epoch (dt_year dt) (dt_month dt) (dt_day dt) (dt_hour dt) (dt_minute dt) (dt_second dt) =
      build_epoch + get_time s div 10000000 + 7200 \<and>
    dspace L (p_page_table (procs s ! c)) s0 (s\<lparr>mem := m\<rparr>) R (overlay buf (date_bytes dt) cb) \<and>
    (\<forall>x. page_base x \<notin> owned L s - owned L s0 \<longrightarrow> m x = mem s x)"
proof -
  obtain dt where dt: "compute_datetime (get_time s) = Some dt"
    "valid_date (dt_year dt) (dt_month dt) (dt_day dt) (dt_hour dt) (dt_minute dt) (dt_second dt)"
    "compute_epoch (dt_year dt) (dt_month dt) (dt_day dt) (dt_hour dt) (dt_minute dt) (dt_second dt) =
      build_epoch + get_time s div 10000000 + 7200"
    using datetime_epoch [OF uptime_bound] by (auto simp: compute_datetime_def Let_def)
  have "user_range L R buf (length (date_bytes dt))" using assms(3) by simp
  from copy_to_user_refines [OF assms(2) this] show ?thesis
    using dt by (auto simp: sys_time_def Let_def assms(1))
qed

text \<open>A process with one page of memory, for the witnesses.\<close>

lemma one_page_process:
  obtains s0 s where "current_proc s = Some 0"
    and "dspace kernel_map (p_page_table (procs s ! 0)) s0 s ((\<lambda>_. None)(0x1000000 \<mapsto> 31)) (\<lambda>_. 0)"
    and "csr_time s = 0" and "g_total_pages s = 0x4000"
proof (rule one_page_space)
  fix r s t
  assume t: "dspace kernel_map r s t ((\<lambda>_. None)(0x1000000 \<mapsto> 31)) (\<lambda>_. 0)"
    "proc_view t = proc_view s" "proc_view s = proc_view (boot_state kernel_map)"
  let ?t = "t\<lparr>current_proc := Some 0, procs := [zero_proc\<lparr>p_page_table := r\<rparr>], g_total_pages := 0x4000\<rparr>"
  have "csr_time t = csr_time (boot_state kernel_map)"
    by (rule proc_viewD) (use t in simp)
  moreover have "dspace kernel_map r s ?t ((\<lambda>_. None)(0x1000000 \<mapsto> 31)) (\<lambda>_. 0)"
    using t(1) by (subst dspace_frame) (simp_all add: pool_view_def)
  ultimately show thesis by (intro that [of ?t s]) (simp_all add: boot_state_def)
qed

lemma one_page_range: "n \<le> 4096 \<Longrightarrow> user_range kernel_map ((\<lambda>_. None)(0x1000000 \<mapsto> 31)) 0x1000000 n"
proof -
  assume n: "n \<le> 4096"
  have "page_base (0x1000000 + of_nat i) = (0x1000000 :: u64)" if "i < n" for i
  proof -
    have "(of_nat i :: u64) < 4096" using that n by (simp add: word_less_nat_alt unat_of_nat_u64)
    then show ?thesis
      using in_page_iff [of "0x1000000" "0x1000000 + of_nat i"] by (simp add: page_aligned_def)
  qed
  then show ?thesis using n by (simp add: user_range_def kernel_map_def)
qed

end
