(* ===== verification/Syscall.thy ===== *)
theory Syscall
  imports Cpu Sys_Memory Sys_Ipc Sys_Fork Sys_Process Sys_Exec Sys_Info
begin

text \<open>
  \<^verbatim>\<open>handle_syscall\<close> of \<^verbatim>\<open>kernel/syscall.c\<close>: the number is in register \<open>A7\<close> of the trap
  frame, the arguments in \<open>A0\<close> to \<open>A2\<close>, and the result goes to \<open>A0\<close>. A call that does not
  return (\<open>To_user\<close>) never gets to the store of its result.
\<close>

section \<open>Numbers\<close>

definition SYS_READ :: u64 where "SYS_READ = 63"
definition SYS_WRITE :: u64 where "SYS_WRITE = 64"
definition SYS_EXIT :: u64 where "SYS_EXIT = 93"
definition SYS_YIELD :: u64 where "SYS_YIELD = 124"
definition SYS_SYSINFO :: u64 where "SYS_SYSINFO = 200"
definition SYS_GET_TIME :: u64 where "SYS_GET_TIME = 201"
definition SYS_FORK :: u64 where "SYS_FORK = 220"
definition SYS_EXEC :: u64 where "SYS_EXEC = 221"
definition SYS_WAIT :: u64 where "SYS_WAIT = 260"
definition SYS_PUTCHAR :: u64 where "SYS_PUTCHAR = 400"
definition SYS_SBRK :: u64 where "SYS_SBRK = 401"
definition SYS_IPC_SEND :: u64 where "SYS_IPC_SEND = 402"
definition SYS_IPC_RECV :: u64 where "SYS_IPC_RECV = 403"
definition SYS_PS :: u64 where "SYS_PS = 404"
definition SYS_LS :: u64 where "SYS_LS = 405"
definition SYS_CLEAR :: u64 where "SYS_CLEAR = 406"
definition SYS_TARFS_EXISTS :: u64 where "SYS_TARFS_EXISTS = 407"
definition SYS_LOG :: u64 where "SYS_LOG = 501"

lemmas sys_numbers =
  SYS_READ_def SYS_WRITE_def SYS_EXIT_def SYS_YIELD_def SYS_SYSINFO_def SYS_GET_TIME_def
  SYS_FORK_def SYS_EXEC_def SYS_WAIT_def SYS_PUTCHAR_def SYS_SBRK_def SYS_IPC_SEND_def
  SYS_IPC_RECV_def SYS_PS_def SYS_LS_def SYS_CLEAR_def SYS_TARFS_EXISTS_def SYS_LOG_def

section \<open>The frame\<close>

definition frame_reg :: "u64 \<Rightarrow> reg \<Rightarrow> kstate \<Rightarrow> u64" where
  "frame_reg f r s = load64 (mem s) (slot_addr f (reg_slot r))"

definition set_frame_reg :: "u64 \<Rightarrow> reg \<Rightarrow> u64 \<Rightarrow> kstate \<Rightarrow> kstate" where
  "set_frame_reg f r v s = s\<lparr>mem := store64 (mem s) (slot_addr f (reg_slot r)) v\<rparr>"

text \<open>A register as a C \<^verbatim>\<open>int\<close>, and \<^verbatim>\<open>f->regs.a0 = \<dots>\<close>.\<close>

definition as_int :: "u64 \<Rightarrow> int" where
  "as_int v = sint (ucast v :: u32)"

definition answer :: "u64 \<Rightarrow> u64 fres \<Rightarrow> unit fres" where
  "answer f m = fbind m (\<lambda>v s. kret (Ret ()) (set_frame_reg f A0 v s))"

definition signed_answer :: "u64 \<Rightarrow> int fres \<Rightarrow> unit fres" where
  "signed_answer f m = fbind m (\<lambda>v s. kret (Ret ()) (set_frame_reg f A0 (of_int v) s))"

section \<open>The dispatch\<close>

definition sys_tarfs_exists :: "linker_syms \<Rightarrow> u64 \<Rightarrow> kstate \<Rightarrow> (u64, kstate) kres" where
  "sys_tarfs_exists L filename s =
     kbind (user_tarfs_lookup L filename (enable_sum s)) (\<lambda>(file, fs) s.
       kret (if file \<noteq> 0 then 1 else 0) (disable_sum s))"

definition handle_syscall :: "linker_syms \<Rightarrow> u64 \<Rightarrow> kstate \<Rightarrow> unit fres" where
  "handle_syscall L f s =
     (let a7 = frame_reg f A7 s; a0 = frame_reg f A0 s; a1 = frame_reg f A1 s; a2 = frame_reg f A2 s in
      if a7 = SYS_READ then answer f (sys_read L (as_int a0) a1 a2 s)
      else if a7 = SYS_WRITE then answer f (flift (sys_write a0 a1 a2 s))
      else if a7 = SYS_YIELD then answer f (fbind (yield L s) (\<lambda>_ s. kret (Ret 0) s))
      else if a7 = SYS_FORK then signed_answer f (flift (sys_fork L s))
      else if a7 = SYS_EXEC then
        fbind (signed_answer f (sys_exec L a0 a1 (as_int a2) (enable_sum s))) (\<lambda>_ s.
          kret (Ret ()) (disable_sum s))
      else if a7 = SYS_EXIT then
        answer f (flift (kbind (sys_exit (as_int a0) s) (\<lambda>_ s. kret 0 s)))
      else if a7 = SYS_WAIT then signed_answer f (sys_wait L a0 s)
      else if a7 = SYS_CLEAR then answer f (kret (Ret 0) (uart_cls s))
      else if a7 = SYS_SYSINFO then answer f (flift (sys_sysinfo L a0 s))
      else if a7 = SYS_GET_TIME then signed_answer f (flift (sys_time L a0 s))
      else if a7 = SYS_PUTCHAR then answer f (kret (Ret 0) (uart_putc (ucast a0) s))
      else if a7 = SYS_SBRK then answer f (flift (sys_sbrk L a0 s))
      else if a7 = SYS_IPC_SEND then signed_answer f (flift (sys_ipc_send (as_int a0) a1 a2 s))
      else if a7 = SYS_IPC_RECV then signed_answer f (flift (sys_ipc_recv a0 a1 a2 s))
      else if a7 = SYS_PS then answer f (kret (Ret 0) (sys_ps s))
      else if a7 = SYS_LS then
        (case sys_ls L s of None \<Rightarrow> Inl Spin | Some s \<Rightarrow> answer f (kret (Ret 0) s))
      else if a7 = SYS_TARFS_EXISTS then answer f (flift (sys_tarfs_exists L a0 s))
      else if a7 = SYS_LOG then signed_answer f (flift (sys_log a0 s))
      else kpanic (Unknown_syscall a7))"

end
