(* ===== verification/Trap.thy ===== *)
theory Trap
  imports Syscall
begin

text \<open>
  \<^verbatim>\<open>trap_handler\<close> of \<^verbatim>\<open>kernel/trap.c\<close>, and \<^verbatim>\<open>trap_vector\<close> as a whole: from the trap of a
  user program to the next \<^verbatim>\<open>sret\<close>. \<^verbatim>\<open>scause\<close> is an argument: only the handler reads it,
  and nothing between the trap and that read can change it. The dumps before a \<^verbatim>\<open>PANIC\<close>,
  and with them \<^verbatim>\<open>stval\<close>, are not modelled.
\<close>

section \<open>The handler\<close>

definition SCAUSE_ECALL :: u64 where
  "SCAUSE_ECALL = 8"

definition timer_cause :: "u64 \<Rightarrow> bool" where
  "timer_cause scause \<longleftrightarrow> scause AND 0x8000000000000000 \<noteq> 0 \<and> scause AND 0xFF = 5"

text \<open>The reading of the clock and the SBI call between the two switches of \<^verbatim>\<open>satp\<close>.\<close>

definition rearm_timer :: "kstate \<Rightarrow> kstate" where
  "rearm_timer s =
     (let (old_satp, s) = switch_pagetable (kernel_pagetable s) s;
          s = sbi_set_timer (get_time s + TIMER_INTERVAL) s
      in restore_pagetable old_satp s)"

text \<open>A \<^verbatim>\<open>NULL\<close> \<^verbatim>\<open>current_proc\<close> faults at its field \<^verbatim>\<open>tf\<close>, at offset 72.\<close>

definition trap_handler :: "linker_syms \<Rightarrow> u64 \<Rightarrow> u64 \<Rightarrow> kstate \<Rightarrow> unit fres" where
  "trap_handler L f scause s =
     (let user_pc = csr_sepc s in
      if f = 0 then kpanic Null_trap_frame
      else
        (case current_proc s of
           None \<Rightarrow> kpanic (Page_fault 72)
         | Some c \<Rightarrow>
             (let s = s\<lparr>mem := memcpy (mem s) (p_tf (procs s ! c)) f 256\<rparr> in
              if timer_cause scause then yield L (rearm_timer s)
              else if scause = SCAUSE_ECALL then
                fbind (handle_syscall L f s) (\<lambda>_ s. kret (Ret ()) (s\<lparr>csr_sepc := user_pc + 4\<rparr>))
              else kpanic (Unexpected_trap scause))))"

section \<open>From the trap to the next instruction of a user program\<close>

text \<open>
  A program at \<open>pc\<close> with registers \<open>r\<close> traps: the hardware step, \<^verbatim>\<open>trap_vector\<close>, and \<^verbatim>\<open>sret\<close>
  either after the restore of the frame or, when the handler does not come back, at the end
  of \<^verbatim>\<open>user_return\<close>. The result has the registers of the program that runs next; its program
  counter is in \<^verbatim>\<open>sepc\<close>.
\<close>

definition trap_leave :: "linker_syms \<Rightarrow> u64 \<Rightarrow> regs \<Rightarrow> unit flow \<Rightarrow> kstate \<Rightarrow> regs fres" where
  "trap_leave L f r next s =
     (case next of
        Ret _ \<Rightarrow> kret (Ret (trap_restore f s)) (sret s)
      | To_user \<Rightarrow> kbind (user_return L r s) (\<lambda>r s. kret (Ret r) (sret s))
      | To_context i j \<Rightarrow> kret (To_context i j) s)"

definition trap_vector :: "linker_syms \<Rightarrow> u64 \<Rightarrow> regs \<Rightarrow> kstate \<Rightarrow> regs fres" where
  "trap_vector L scause r s =
     (let (f, s) = trap_save r s in kbind (trap_handler L f scause s) (trap_leave L f r))"

definition user_trap :: "linker_syms \<Rightarrow> u64 \<Rightarrow> u64 \<Rightarrow> regs \<Rightarrow> kstate \<Rightarrow> regs fres" where
  "user_trap L scause pc r s = trap_vector L scause r (take_trap pc s)"

section \<open>The entry\<close>

text \<open>
  \<open>in_user L s c\<close>: process \<open>c\<close> runs in user mode: it is current, \<^verbatim>\<open>sscratch\<close> has the top of
  its kernel stack, and its trap frame is the one at the top of that stack or lies elsewhere.
\<close>

definition frames_apart :: "u64 \<Rightarrow> u64 \<Rightarrow> bool" where
  "frames_apart f g \<longleftrightarrow> 256 \<le> f - g \<and> 256 \<le> g - f"

definition in_user :: "linker_syms \<Rightarrow> kstate \<Rightarrow> nat \<Rightarrow> bool" where
  "in_user L s c \<longleftrightarrow>
     layout_ok L \<and> length (procs s) = PROCS_MAX \<and> c < PROCS_MAX \<and> current_proc s = Some c \<and>
     csr_sscratch s = tf_stack_top L c \<and>
     (p_tf (procs s ! c) = tf_frame L c \<or> frames_apart (p_tf (procs s ! c)) (tf_frame L c))"

lemma frames_apart_byte:
  assumes "frames_apart f g" and "x - g < 256"
  shows "256 \<le> x - f"
proof (rule ccontr)
  assume "\<not> 256 \<le> x - f"
  then have j: "unat (x - f) < 256" and k: "unat (x - g) < 256"
    using assms(2) by (simp_all add: not_le word_less_nat_alt)
  have e: "f - g = (x - g) - (x - f)" "g - f = (x - f) - (x - g)" by simp_all
  show False
  proof (cases "unat (x - f) \<le> unat (x - g)")
    case True
    then have "unat (f - g) < 256" unfolding e using k by (subst unat_sub_u64) (simp_all add: word_le_nat_alt)
    then show False using assms(1) by (simp add: frames_apart_def word_le_nat_alt)
  next
    case False
    then have "unat (g - f) < 256" unfolding e using j by (subst unat_sub_u64) (simp_all add: word_le_nat_alt)
    then show False using assms(1) by (simp add: frames_apart_def word_le_nat_alt)
  qed
qed

lemma frame_only_slot:
  assumes "i < 32"
  shows "frame_only f m (store64 m (slot_addr f i) v)"
proof -
  have "unat (8 * of_nat i :: u64) = 8 * i" using assms by (simp add: unat_word_ariths unat_of_nat_u64)
  then have "aligned8 (8 * of_nat i)" "(8 * of_nat i :: u64) < 256"
    using assms by (simp_all add: aligned8_unat word_less_nat_alt)
  from frame_only_set [OF this, of f "undefined\<lparr>mem := m\<rparr>" v]
  show ?thesis by (simp add: tf_set_def slot_addr_def)
qed

lemma trap_save_only:
  assumes "trap_save r s = (f, t)"
  shows "frame_only f (mem s) (mem t)"
proof -
  have "n \<le> 30 \<Longrightarrow> frame_only f m (fold (\<lambda>i m. store64 m (slot_addr f i) (v i)) [0..<n] m)" for n m v
    by (induction n) (auto intro!: frame_only_trans [OF _ frame_only_slot])
  then show ?thesis
    using assms by (auto simp: trap_save_def Let_def intro!: frame_only_trans [OF _ frame_only_slot])
qed

text \<open>
  What the handler starts from: the frame on the kernel stack and its copy in the PCB's
  frame hold the registers and the program counter of the trap.
\<close>

lemma user_trap_entry:
  assumes "in_user L s c"
  obtains m where "frame_holds (tf_frame L c) r pc m" and "frame_holds (p_tf (procs s ! c)) r pc m"
    and "\<And>x. 256 \<le> x - tf_frame L c \<Longrightarrow> 256 \<le> x - p_tf (procs s ! c) \<Longrightarrow> m x = mem s x"
    and "user_trap L scause pc r s =
      (let t = (take_trap pc s)\<lparr>mem := m\<rparr> in
       kbind
         (if timer_cause scause then yield L (rearm_timer t)
          else if scause = SCAUSE_ECALL then
            fbind (handle_syscall L (tf_frame L c) t) (\<lambda>_ s. kret (Ret ()) (s\<lparr>csr_sepc := pc + 4\<rparr>))
          else kpanic (Unexpected_trap scause))
         (trap_leave L (tf_frame L c) r))"
proof -
  let ?s = "take_trap pc s" and ?f = "tf_frame L c" and ?p = "p_tf (procs s ! c)"
  have u: "layout_ok L" "c < PROCS_MAX" "current_proc s = Some c" "csr_sscratch s = tf_stack_top L c"
    "?p = ?f \<or> frames_apart ?p ?f" using assms by (simp_all add: in_user_def)
  obtain f t where sv: "trap_save r ?s = (f, t)" by force
  have fe: "f = ?f"
    using sv u(4) by (auto simp: trap_save_def Let_def take_trap_def tf_frame_def)
  have al: "aligned8 (csr_sscratch ?s)"
    using tf_frame_props(2) [OF u(1,2)] u(4) aligned8_add [of ?f 256]
    by (simp add: take_trap_def tf_frame_def aligned8_def)
  note fr = trap_save_frame [OF al sv] and only = trap_save_only [OF sv]
  define m where "m = memcpy (mem t) ?p ?f 256"
  have m: "m x = (if x - ?p < 256 then mem t (?f + (x - ?p)) else mem t x)" for x
    unfolding m_def by (rule memcpy_apply) (use u(5) in \<open>auto simp: frames_apart_def\<close>)
  have holds: "frame_holds ?f r pc (mem t)" using fr(1) by (simp add: fe take_trap_def)
  have 1: "frame_holds ?p r pc m"
    by (rule frame_holds_cong [OF holds]) (simp add: m)
  have 2: "frame_holds ?f r pc m"
  proof (rule frame_holds_cong [OF holds])
    fix a assume a: "a - ?f < 256"
    have "m a = mem t a"
    proof (cases "?p = ?f")
      case False
      then have "256 \<le> a - ?p" using frames_apart_byte [OF _ a] u(5) by blast
      then have "\<not> a - ?p < 256" by (rule leD)
      then show ?thesis by (simp add: m)
    qed (simp add: m)
    then show "m (?f + (a - ?f)) = mem t a" by simp
  qed
  have 3: "m x = mem s x" if "256 \<le> x - ?f" "256 \<le> x - ?p" for x
  proof -
    have "\<not> x - ?p < 256" using that(2) by (rule leD)
    then have "m x = mem t x" by (simp add: m)
    also have "\<dots> = mem s x" using only that(1) by (simp add: frame_only_def fe take_trap_def)
    finally show ?thesis .
  qed
  have t: "t = ?s\<lparr>mem := mem t\<rparr>" by (rule fr(3))
  have "?f \<noteq> 0"
  proof -
    have "0 < unat (tf_frame L c)" using tf_frame_props(1) [OF u(1,2)] by simp
    then show ?thesis by auto
  qed
  have cur: "current_proc t = Some c" "procs t = procs s" "csr_sepc t = pc"
    by (subst t, simp add: take_trap_def u(3))+
  have tm: "t\<lparr>mem := m\<rparr> = ?s\<lparr>mem := m\<rparr>" by (subst t) simp
  have "user_trap L scause pc r s =
      (let t = (take_trap pc s)\<lparr>mem := m\<rparr> in
       kbind
         (if timer_cause scause then yield L (rearm_timer t)
          else if scause = SCAUSE_ECALL then
            fbind (handle_syscall L (tf_frame L c) t) (\<lambda>_ s. kret (Ret ()) (s\<lparr>csr_sepc := pc + 4\<rparr>))
          else kpanic (Unexpected_trap scause))
         (trap_leave L (tf_frame L c) r))"
    using \<open>?f \<noteq> 0\<close> by (simp add: user_trap_def trap_vector_def sv fe trap_handler_def cur Let_def m_def [symmetric] tm)
  from that [OF 2 1 3 this] show thesis by blast
qed

lemma frame_reg_holds: "frame_holds f r pc (mem s) \<Longrightarrow> frame_reg f x s = r x"
  unfolding frame_reg_def frame_holds_def by blast

section \<open>Switching\<close>

lemma ready_cong:
  assumes "procs t = procs s" and "current_proc t = current_proc s" and "process_count t = process_count s"
  shows "ready t = ready s"
  by (rule ext) (simp add: ready_def demoted_def assms)

lemma successor_cong:
  assumes "procs t = procs s" and "current_proc t = current_proc s" and "process_count t = process_count s"
    and "idle_proc t = idle_proc s"
  shows "successor t = successor s"
  by (simp add: successor_def ready_cong [OF assms(1-3)] assms(4))

lemma yield_keeps:
  assumes "yield L s = kret x s'"
  shows "stimer s' = stimer s" and "csr_time s' = csr_time s" and "csr_sstatus s' = csr_sstatus s"
  using assms
  by (auto simp: yield_def Let_def wake_down_def wake_up_def upd_proc_def switch_space_def
      split: option.splits if_splits)

text \<open>What \<^verbatim>\<open>yield\<close> and the way out of the trap do together, when there is another process to run.\<close>

definition resumed :: "regs \<Rightarrow> regs \<Rightarrow> bool" where
  "resumed q r \<longleftrightarrow> (\<forall>x. x \<notin> {T0, T1, T2, T3, A0, A1} \<longrightarrow> r x = q x)"

lemma switch_to_user:
  assumes "current_proc t = Some c" and "c < length (procs t)" and "successor t = Some n" and "n \<noteq> c"
    and "n < length (procs t)" and "\<not> g_startup t" and "frame_holds (p_tf (procs t ! n)) q qpc (mem t)"
  shows "\<exists>r' u. kbind (yield L t) (trap_leave L f r) = kret (Ret r') u \<and> resumed q r' \<and>
    r' T0 = qpc \<and> r' T1 = (csr_sstatus t OR 0x20) AND NOT 0x100 \<and>
    r' T2 = pcb_addr L n \<and> r' T3 = pcb_addr L n + OFFSET_ARGV_PTR \<and>
    r' A0 = ucast (word_of_int (p_argc (procs t ! n)) :: u32) \<and> r' A1 = p_argv_ptr (procs t ! n) \<and>
    current_proc u = Some n \<and> csr_sepc u = qpc \<and> mem u = mem t \<and>
    csr_satp u = SATP_SV39 OR (p_page_table (procs t ! n) div 4096) \<and> csr_sscratch u = tf_stack_top L n \<and>
    stimer u = stimer t \<and> length (procs u) = length (procs t) \<and>
    (\<forall>i < length (procs t). procs u ! i = (procs t ! i)\<lparr>p_state :=
       (if i = n \<and> demoted t n = PROC_RUNNABLE then PROC_RUNNING else demoted t i)\<rparr>)"
proof -
  obtain u where u: "yield L t = kret To_user u" "current_proc u = Some n"
    "length (procs u) = length (procs t)"
    "\<forall>i < length (procs t). procs u ! i = (procs t ! i)\<lparr>p_state :=
       (if i = n \<and> n \<noteq> c \<and> demoted t n = PROC_RUNNABLE then PROC_RUNNING else demoted t i)\<rparr>"
    "csr_satp u = SATP_SV39 OR (p_page_table (procs t ! n) div 4096)" "csr_sscratch u = tf_stack_top L n"
    "mem u = mem t"
    using yield_result [OF assms(1-3,5,6), of L] assms(4) by auto
  have "frame_holds (p_tf (procs u ! n)) q qpc (mem u)"
    using u(4,7) assms(5,7) by simp
  from user_return_spec [OF u(2) this, of L r] obtain r' where r':
    "user_return L r u = kret r' (u\<lparr>csr_sepc := qpc, csr_sstatus := (csr_sstatus u OR 0x20) AND NOT 0x100\<rparr>)"
    "\<forall>x. x \<notin> {T0, T1, T2, T3, A0, A1} \<longrightarrow> r' x = q x"
    "r' T0 = qpc" "r' T1 = (csr_sstatus u OR 0x20) AND NOT 0x100"
    "r' T2 = pcb_addr L n" "r' T3 = pcb_addr L n + OFFSET_ARGV_PTR"
    "r' A0 = ucast (word_of_int (p_argc (procs u ! n)) :: u32)" "r' A1 = p_argv_ptr (procs u ! n)"
    by blast
  let ?u = "sret (u\<lparr>csr_sepc := qpc, csr_sstatus := (csr_sstatus u OR 0x20) AND NOT 0x100\<rparr>)"
  have "kbind (yield L t) (trap_leave L f r) = kret (Ret r') ?u"
    by (simp add: u(1) trap_leave_def r'(1))
  moreover have "stimer u = stimer t" "csr_sstatus u = csr_sstatus t" by (rule yield_keeps [OF u(1)])+
  ultimately show ?thesis
    using u r' assms(4,5) by (intro exI [of _ r'] exI [of _ ?u]) (simp add: sret_def resumed_def)
qed

text \<open>The frame of another process is not touched by the entry.\<close>

lemma other_frame:
  assumes "frame_holds g q qpc m" and "frames_apart f g" and "frames_apart p g"
    and "\<And>x. 256 \<le> x - f \<Longrightarrow> 256 \<le> x - p \<Longrightarrow> m' x = m x"
  shows "frame_holds g q qpc m'"
proof (rule frame_holds_cong [OF assms(1)])
  fix a assume a: "a - g < 256"
  then have "m' a = m a"
    by (intro assms(4) frames_apart_byte [OF assms(2)] frames_apart_byte [OF assms(3)])
  then show "m' (g + (a - g)) = m a" by simp
qed

section \<open>Returning\<close>

lemma reg_slot_inj: "reg_slot x = reg_slot y \<longleftrightarrow> x = y"
  by (metis frame_regs_slot less_irrefl reg_slot.simps(31))

lemma frame_holds_set:
  assumes "aligned8 f" and "frame_holds f r pc (mem s)"
  shows "frame_holds f (r(x := v)) pc (mem (set_frame_reg f x v s))"
proof -
  have "load64 (store64 (mem s) (slot_addr f (reg_slot x)) v) (slot_addr f i) =
      (if reg_slot x = i then v else load64 (mem s) (slot_addr f i))" if "i < 32" for i
    by (rule slot_load_store [OF assms(1)]) (use that le_less_trans [OF reg_slot_less(1) [of x]] in simp_all)
  then show ?thesis using assms(2) by (auto simp: frame_holds_def set_frame_reg_def reg_slot_inj)
qed

lemma frame_only_set_reg: "frame_only f (mem s) (mem (set_frame_reg f x v s))"
  by (simp add: set_frame_reg_def frame_only_slot)

text \<open>A call that comes back with \<open>v\<close> and has left the frame on the kernel stack alone.\<close>

lemma leave_answer:
  assumes "layout_ok L" and "c < PROCS_MAX" and "frame_holds (tf_frame L c) r pc (mem u)"
  shows "kbind (fbind (kret (Ret ()) (set_frame_reg (tf_frame L c) A0 v u))
      (\<lambda>_ s. kret (Ret ()) (s\<lparr>csr_sepc := pc'\<rparr>))) (trap_leave L (tf_frame L c) r0) =
    kret (Ret (r(A0 := v))) (sret ((set_frame_reg (tf_frame L c) A0 v u)\<lparr>csr_sepc := pc'\<rparr>))"
proof -
  have "frame_holds (tf_frame L c) (r(A0 := v)) pc (mem (set_frame_reg (tf_frame L c) A0 v u))"
    by (rule frame_holds_set [OF tf_frame_props(2) [OF assms(1,2)] assms(3)])
  then show ?thesis by (simp add: trap_leave_def trap_restore_frame [of _ _ pc])
qed

text \<open>What the trap entry writes is no user memory.\<close>

lemma dspace_other_pages:
  assumes ds: "dspace L root s0 s R c" and out: "same_outside P (mem s) m"
    and P: "\<forall>p \<in> P. p < free_ram L \<or> p \<in> owned L s0 - tables (mem s) root"
  shows "dspace L root s0 (s\<lparr>mem := m\<rparr>) R c"
proof -
  have ok: "vm_ok L root s" and own0: "owned L s0 \<subseteq> owned L s" using ds by (simp_all add: dspace_def)
  note v = vm_okD [OF ok]
  have low: "p \<notin> owned L s" if "p < free_ram L" for p
    using owned_props(4) [OF v(1), of p] that by (auto simp: not_le [symmetric])
  have "\<forall>p \<in> P. p \<in> owned L s \<or> p < free_ram L" using P own0 by blast
  note w = pool_write_any [OF v(1) out this]
  have dis: "tables (mem s) root \<inter> P = {}" using P low tables_subset [OF v(2)] by blast
  note t = tree_ok_outside [OF v(2) out dis v(3) order_refl] and leaf = pt_leaf_outside [OF v(2) out dis v(3)]
  have up: "upage m root x = upage (mem s) root x" for x by (simp add: upage_def leaf)
  have "mapped_as L root s0 (s\<lparr>mem := m\<rparr>) c (R (page_base x)) x"
    if old: "mapped_as L root s0 s c (R (page_base x)) x" for x
  proof -
    have "m (upage (mem s) root x + (x AND 0xFFF)) = mem s (upage (mem s) root x + (x AND 0xFFF))"
      if "upage (mem s) root x \<in> owned L s - owned L s0"
    proof (rule same_outside_byte [OF out])
      have "upage (mem s) root x \<notin> P" using that P low by blast
      then show "page_base (upage (mem s) root x + (x AND 0xFFF)) \<notin> P" by (simp add: page_offset)
    qed
    then show ?thesis
      using old by (auto simp: mapped_as_def leaf up w(2) t(2) split: option.splits if_splits)
  qed
  then show ?thesis
    using ds t(1) w by (simp add: dspace_def vm_ok_def space_is_def up)
qed

text \<open>The frame of a process is at the top of its kernel stack, or in a page that is no part of its memory.\<close>

definition frame_outside :: "linker_syms \<Rightarrow> kstate \<Rightarrow> kstate \<Rightarrow> nat \<Rightarrow> bool" where
  "frame_outside L s0 s c \<longleftrightarrow>
     p_tf (procs s ! c) = tf_frame L c \<or>
     p_tf (procs s ! c) \<in> owned L s0 - tables (mem s) (p_page_table (procs s ! c))"

lemma dspace_frames:
  assumes ds: "dspace L (p_page_table (procs s ! c)) s0 s R cb" and c: "c < PROCS_MAX" and fo: "frame_outside L s0 s c"
    and m: "\<And>x. 256 \<le> x - tf_frame L c \<Longrightarrow> 256 \<le> x - p_tf (procs s ! c) \<Longrightarrow> m x = mem s x"
  shows "dspace L (p_page_table (procs s ! c)) s0 (s\<lparr>mem := m\<rparr>) R cb"
proof -
  let ?f = "tf_frame L c" and ?p = "p_tf (procs s ! c)"
  let ?P = "{page_base x | x. x - ?f < 256} \<union> (if ?p = ?f then {} else {?p})"
  have ok: "pool_ok L s" and own0: "owned L s0 \<subseteq> owned L s" using ds by (auto simp: dspace_def vm_ok_def)
  then have L: "layout_ok L" by (auto simp: pool_ok_def pool_inv_def)
  show ?thesis
  proof (rule dspace_other_pages [OF ds, of ?P])
    show "same_outside ?P (mem s) m"
      unfolding same_outside_def
    proof (intro allI impI)
      fix x assume x: "page_base x \<notin> ?P"
      then have f: "256 \<le> x - ?f" by (auto simp: not_less [symmetric])
      have "256 \<le> x - ?p"
      proof (cases "?p = ?f")
        case False
        then have "?p \<in> owned L s" using fo own0 by (auto simp: frame_outside_def)
        then have "page_aligned ?p" by (rule owned_props(1) [OF ok])
        moreover have "page_base x \<noteq> ?p" using x False by auto
        ultimately have "\<not> x - ?p < 4096" using in_page_iff [of ?p x] by blast
        then show ?thesis by (simp add: word_less_nat_alt word_le_nat_alt)
      qed (use f in simp)
      with f show "m x = mem s x" by (rule m)
    qed
    show "\<forall>p \<in> ?P. p < free_ram L \<or> p \<in> owned L s0 - tables (mem s) (p_page_table (procs s ! c))"
      using tf_frame_pages [OF L c] fo by (auto simp: frame_outside_def)
  qed
qed

section \<open>Sample states\<close>

text \<open>The shell in slot 1 runs, another process waits in slot 2; every process has its frame on its stack.\<close>

definition user_procs :: kstate where
  "user_procs = four_procs\<lparr>csr_sscratch := tf_stack_top kernel_map 1,
     procs := map (\<lambda>i. (procs four_procs ! i)\<lparr>p_tf := tf_frame kernel_map i\<rparr>) [0..<8]\<rparr>"

lemma user_procs_in_user: "in_user kernel_map user_procs 1"
  by (simp add: in_user_def user_procs_def layout_ok_kernel_map PROCS_MAX_def four_procs_def)

lemma user_procs_successor: "successor user_procs = Some 2"
proof -
  have len: "length (procs four_procs) = 8" by (simp add: four_procs_ready(1) PROCS_MAX_def)
  have "ready user_procs i = ready four_procs i" for i
  proof (cases "i < 8")
    case True
    then show ?thesis by (simp add: ready_def demoted_def user_procs_def del: upt_rec_numeral)
  qed (simp add: ready_def PROCS_MAX_def)
  then have "ready user_procs = ready four_procs" by (rule ext)
  then show ?thesis using four_procs_ready(2) four_procs_least by (auto simp: successor_def)
qed

lemma user_procs_frames:
  "p_tf (procs user_procs ! 2) = tf_frame kernel_map 2" "p_tf (procs user_procs ! 1) = tf_frame kernel_map 1"
  "frame_holds (tf_frame kernel_map 2) (\<lambda>_. 0) 0 (mem user_procs)"
  "frames_apart (tf_frame kernel_map 1) (tf_frame kernel_map 2)" "\<not> g_startup user_procs"
  by (simp_all add: user_procs_def four_procs_def boot_state_def frame_holds_def load64_def load32_def
      load16_def frames_apart_def tf_frame_def tf_stack_top_def tf_stack_base_def kernel_map_def)

text \<open>A process with one page of memory that runs in user mode.\<close>

lemma one_page_user:
  obtains s0 s where "in_user kernel_map s 0" and "frame_outside kernel_map s0 s 0"
    and "dspace kernel_map (p_page_table (procs s ! 0)) s0 s ((\<lambda>_. None)(0x1000000 \<mapsto> 31)) (\<lambda>_. 0)"
    and "csr_time s = 0"
proof (rule one_page_space)
  fix r s t
  assume t: "dspace kernel_map r s t ((\<lambda>_. None)(0x1000000 \<mapsto> 31)) (\<lambda>_. 0)"
    "proc_view t = proc_view s" "proc_view s = proc_view (boot_state kernel_map)"
  let ?t = "t\<lparr>current_proc := Some 0, csr_sscratch := tf_stack_top kernel_map 0,
    procs := replicate PROCS_MAX (zero_proc\<lparr>p_page_table := r, p_tf := tf_frame kernel_map 0\<rparr>)\<rparr>"
  have "csr_time t = csr_time (boot_state kernel_map)"
    by (rule proc_viewD) (use t in simp)
  moreover have "dspace kernel_map r s ?t ((\<lambda>_. None)(0x1000000 \<mapsto> 31)) (\<lambda>_. 0)"
    using t(1) by (subst dspace_frame) (simp_all add: pool_view_def)
  ultimately show thesis
    by (intro that [of ?t s])
      (simp_all add: boot_state_def in_user_def frame_outside_def layout_ok_kernel_map PROCS_MAX_def)
qed

section \<open>Properties\<close>

text \<open>
  C35: a trap that is neither the timer nor a system call stops the kernel, with its cause,
  and so does a system call with a number the kernel does not know: a user program can halt
  the machine.
\<close>

theorem user_trap_panics:
  assumes "in_user L s c"
  shows "(\<not> timer_cause scause \<longrightarrow> scause \<noteq> SCAUSE_ECALL \<longrightarrow>
      user_trap L scause pc r s = kpanic (Unexpected_trap scause)) \<and>
    (r A7 \<notin> {SYS_READ, SYS_WRITE, SYS_EXIT, SYS_YIELD, SYS_SYSINFO, SYS_GET_TIME, SYS_FORK, SYS_EXEC,
        SYS_WAIT, SYS_PUTCHAR, SYS_SBRK, SYS_IPC_SEND, SYS_IPC_RECV, SYS_PS, SYS_LS, SYS_CLEAR,
        SYS_TARFS_EXISTS, SYS_LOG} \<longrightarrow>
      user_trap L SCAUSE_ECALL pc r s = kpanic (Unknown_syscall (r A7)))"
proof -
  have ec: "\<not> timer_cause SCAUSE_ECALL" by (simp add: timer_cause_def SCAUSE_ECALL_def)
  obtain m1 where m1: "user_trap L scause pc r s =
      (let t = (take_trap pc s)\<lparr>mem := m1\<rparr> in
       kbind
         (if timer_cause scause then yield L (rearm_timer t)
          else if scause = SCAUSE_ECALL then
            fbind (handle_syscall L (tf_frame L c) t) (\<lambda>_ s. kret (Ret ()) (s\<lparr>csr_sepc := pc + 4\<rparr>))
          else kpanic (Unexpected_trap scause))
         (trap_leave L (tf_frame L c) r))" by (rule user_trap_entry [OF assms])
  obtain m where m: "frame_holds (tf_frame L c) r pc m" "user_trap L SCAUSE_ECALL pc r s =
      (let t = (take_trap pc s)\<lparr>mem := m\<rparr> in
       kbind
         (if timer_cause SCAUSE_ECALL then yield L (rearm_timer t)
          else if SCAUSE_ECALL = SCAUSE_ECALL then
            fbind (handle_syscall L (tf_frame L c) t) (\<lambda>_ s. kret (Ret ()) (s\<lparr>csr_sepc := pc + 4\<rparr>))
          else kpanic (Unexpected_trap SCAUSE_ECALL))
         (trap_leave L (tf_frame L c) r))" by (rule user_trap_entry [OF assms])
  have "frame_reg (tf_frame L c) A7 ((take_trap pc s)\<lparr>mem := m\<rparr>) = r A7"
    by (rule frame_reg_holds) (use m(1) in simp)
  then show ?thesis using m1 m(2) ec by (auto simp: handle_syscall_def Let_def)
qed

theorem user_trap_panics_witness:
  "user_trap kernel_map 13 0x1000400 (\<lambda>_. 0) user_procs = kpanic (Unexpected_trap 13) \<and>
   user_trap kernel_map SCAUSE_ECALL 0x1000400 (\<lambda>_. 172) user_procs = kpanic (Unknown_syscall 172)"
  using user_trap_panics [OF user_procs_in_user, of 13 "0x1000400" "\<lambda>_. 0"]
    user_trap_panics [OF user_procs_in_user, of 13 "0x1000400" "\<lambda>_. 172"]
  by (simp add: timer_cause_def SCAUSE_ECALL_def sys_numbers)

text \<open>
  C8: preemption. When the timer interrupts process \<open>c\<close> and another process \<open>n\<close> is due, the
  registers and the program counter of \<open>c\<close> are in its trap frame afterwards, all of them,
  and the timer is armed again. \<open>n\<close> runs on its page table and kernel stack, at the program
  counter of its own frame and with the registers of that frame but for six, which
  \<^verbatim>\<open>user_return\<close> overwrites on its way out: \<open>T0\<close> has the program counter, \<open>T1\<close> the status
  register, \<open>T2\<close> and \<open>T3\<close> the kernel addresses of the control block of \<open>n\<close> and of its
  \<^verbatim>\<open>argv_ptr\<close>, \<open>A0\<close> and \<open>A1\<close> its \<^verbatim>\<open>argc\<close> and \<^verbatim>\<open>argv\<close>. So a preempted process does not get
  those six back.
\<close>

theorem timer_preempts:
  assumes "in_user L s c" and "timer_cause scause" and "successor s = Some n" and "n \<noteq> c"
    and "n < PROCS_MAX" and "\<not> g_startup s"
    and "frame_holds (p_tf (procs s ! n)) q qpc (mem s)"
    and "frames_apart (tf_frame L c) (p_tf (procs s ! n))"
    and "frames_apart (p_tf (procs s ! c)) (p_tf (procs s ! n))"
  shows "\<exists>r' s'. user_trap L scause pc r s = kret (Ret r') s' \<and>
    frame_holds (p_tf (procs s' ! c)) r pc (mem s') \<and>
    current_proc s' = Some n \<and> csr_sepc s' = qpc \<and> resumed q r' \<and>
    r' T0 = qpc \<and> r' T1 = (csr_sstatus (take_trap pc s) OR 0x20) AND NOT 0x100 \<and>
    r' T2 = pcb_addr L n \<and> r' T3 = pcb_addr L n + OFFSET_ARGV_PTR \<and>
    r' A0 = ucast (word_of_int (p_argc (procs s ! n)) :: u32) \<and> r' A1 = p_argv_ptr (procs s ! n) \<and>
    csr_satp s' = SATP_SV39 OR (p_page_table (procs s ! n) div 4096) \<and>
    csr_sscratch s' = tf_stack_top L n \<and> stimer s' = csr_time s + 1000000"
proof -
  have u: "length (procs s) = PROCS_MAX" "c < PROCS_MAX" "current_proc s = Some c"
    using assms(1) by (simp_all add: in_user_def)
  obtain m where m: "frame_holds (p_tf (procs s ! c)) r pc m"
    "\<And>x. 256 \<le> x - tf_frame L c \<Longrightarrow> 256 \<le> x - p_tf (procs s ! c) \<Longrightarrow> m x = mem s x"
    "user_trap L scause pc r s =
      kbind (yield L (rearm_timer ((take_trap pc s)\<lparr>mem := m\<rparr>))) (trap_leave L (tf_frame L c) r)"
    using user_trap_entry [OF assms(1), of r pc scause] assms(2) by (auto simp: Let_def)
  let ?t = "rearm_timer ((take_trap pc s)\<lparr>mem := m\<rparr>)"
  have t: "procs ?t = procs s" "current_proc ?t = current_proc s" "process_count ?t = process_count s"
    "idle_proc ?t = idle_proc s" "g_startup ?t = g_startup s" "mem ?t = m" "stimer ?t = csr_time s + 1000000"
    "csr_sstatus ?t = csr_sstatus (take_trap pc s)"
    by (simp_all add: rearm_timer_def switch_pagetable_def restore_pagetable_def sbi_set_timer_def
        take_trap_def get_time_def TIMER_INTERVAL_def)
  have succ: "successor ?t = Some n" using successor_cong [OF t(1-4)] assms(3) by simp
  have q: "frame_holds (p_tf (procs ?t ! n)) q qpc (mem ?t)"
    unfolding t by (rule other_frame [OF assms(7-9) m(2)])
  have b: "current_proc ?t = Some c" "c < length (procs ?t)" "n < length (procs ?t)" "\<not> g_startup ?t"
    using u assms(5,6) t by simp_all
  from switch_to_user [OF b(1,2) succ assms(4) b(3,4) q, of L "tf_frame L c" r] b(2)
  show ?thesis using m(1) u(2) by (auto simp: m(3) t)
qed

theorem timer_preempts_witness:
  "\<exists>r' s'. user_trap kernel_map 0x8000000000000005 0x1000400 (\<lambda>_. 7) user_procs = kret (Ret r') s' \<and>
     frame_holds (p_tf (procs s' ! 1)) (\<lambda>_. 7) 0x1000400 (mem s') \<and> current_proc s' = Some 2 \<and>
     stimer s' = csr_time user_procs + 1000000"
proof -
  have tc: "timer_cause 0x8000000000000005" by (simp add: timer_cause_def)
  have n: "(2 :: nat) \<noteq> 1" "2 < PROCS_MAX" by (simp_all add: PROCS_MAX_def)
  show ?thesis
    using timer_preempts [OF user_procs_in_user tc user_procs_successor n user_procs_frames(5),
        where q = "\<lambda>_. 0" and qpc = 0 and r = "\<lambda>_. 7" and pc = "0x1000400"] user_procs_frames by auto
qed

text \<open>
  C17: a system call that gives the processor away is made again. When \<^verbatim>\<open>yield\<close> finds another
  process to run, the frame of the caller keeps the program counter of the call itself, not
  that of the next instruction: it is there that the caller continues when its turn comes.
  Only when there is nobody else does the call return, with 0.
\<close>

theorem yield_call_restarts:
  assumes "in_user L s c" and "r A7 = SYS_YIELD" and "successor s = Some n"
    and "n < PROCS_MAX" and "\<not> g_startup s"
  shows "(n = c \<longrightarrow> (\<exists>s'. user_trap L SCAUSE_ECALL pc r s = kret (Ret (r(A0 := 0))) s' \<and>
      csr_sepc s' = pc + 4 \<and> current_proc s' = Some c)) \<and>
    (n \<noteq> c \<longrightarrow> frame_holds (p_tf (procs s ! n)) q qpc (mem s) \<longrightarrow>
      frames_apart (tf_frame L c) (p_tf (procs s ! n)) \<longrightarrow>
      frames_apart (p_tf (procs s ! c)) (p_tf (procs s ! n)) \<longrightarrow>
      (\<exists>r' s'. user_trap L SCAUSE_ECALL pc r s = kret (Ret r') s' \<and> current_proc s' = Some n \<and>
        csr_sepc s' = qpc \<and> resumed q r' \<and> frame_holds (p_tf (procs s' ! c)) r pc (mem s')))"
proof -
  let ?f = "tf_frame L c"
  have u: "layout_ok L" "c < PROCS_MAX" "current_proc s = Some c" "length (procs s) = PROCS_MAX"
    using assms(1) by (simp_all add: in_user_def)
  obtain m where m: "frame_holds ?f r pc m" "frame_holds (p_tf (procs s ! c)) r pc m"
    "\<And>x. 256 \<le> x - ?f \<Longrightarrow> 256 \<le> x - p_tf (procs s ! c) \<Longrightarrow> m x = mem s x"
    "user_trap L SCAUSE_ECALL pc r s =
      kbind (fbind (handle_syscall L ?f ((take_trap pc s)\<lparr>mem := m\<rparr>)) (\<lambda>_ s. kret (Ret ()) (s\<lparr>csr_sepc := pc + 4\<rparr>)))
        (trap_leave L ?f r)"
    using user_trap_entry [OF assms(1), of r pc SCAUSE_ECALL]
    by (auto simp: Let_def timer_cause_def SCAUSE_ECALL_def)
  let ?t = "(take_trap pc s)\<lparr>mem := m\<rparr>"
  have t: "procs ?t = procs s" "current_proc ?t = current_proc s" "process_count ?t = process_count s"
    "idle_proc ?t = idle_proc s" "g_startup ?t = g_startup s" "mem ?t = m"
    by (simp_all add: take_trap_def)
  have succ: "successor ?t = Some n" using successor_cong [OF t(1-4)] assms(3) by simp
  have "frame_reg ?f A7 ?t = SYS_YIELD"
    using frame_reg_holds [of ?f r pc ?t] m(1) assms(2) by simp
  then have h: "handle_syscall L ?f ?t = answer ?f (fbind (yield L ?t) (\<lambda>_ s. kret (Ret 0) s))"
    by (simp add: handle_syscall_def Let_def sys_numbers)
  have b: "current_proc ?t = Some c" "c < length (procs ?t)" "n < length (procs ?t)" "\<not> g_startup ?t"
    using u assms(4,5) t by simp_all
  show ?thesis
  proof (intro conjI impI)
    assume "n = c"
    then have y: "yield L ?t = kret (Ret ()) (wake_down c ?t)"
      using yield_eq [OF b(1,2) succ, of L] by simp
    let ?u = "wake_down c ?t"
    have fr: "frame_holds ?f r pc (mem ?u)" using m(1) by simp
    have "user_trap L SCAUSE_ECALL pc r s =
        kret (Ret (r(A0 := 0))) (sret ((set_frame_reg ?f A0 0 ?u)\<lparr>csr_sepc := pc + 4\<rparr>))"
      unfolding m(4) h answer_def y using leave_answer [OF u(1,2) fr, of 0 "pc + 4" r] by simp
    then show "\<exists>s'. user_trap L SCAUSE_ECALL pc r s = kret (Ret (r(A0 := 0))) s' \<and>
      csr_sepc s' = pc + 4 \<and> current_proc s' = Some c"
      using u(3) by (intro exI [of _ "sret ((set_frame_reg ?f A0 0 ?u)\<lparr>csr_sepc := pc + 4\<rparr>)"])
        (simp add: sret_def set_frame_reg_def take_trap_def)
  next
    assume nc: "n \<noteq> c" and q: "frame_holds (p_tf (procs s ! n)) q qpc (mem s)"
      "frames_apart ?f (p_tf (procs s ! n))" "frames_apart (p_tf (procs s ! c)) (p_tf (procs s ! n))"
    have q': "frame_holds (p_tf (procs ?t ! n)) q qpc (mem ?t)"
      unfolding t by (rule other_frame [OF q m(3)])
    obtain r' v where v: "kbind (yield L ?t) (trap_leave L ?f r) = kret (Ret r') v" "resumed q r'"
      "current_proc v = Some n" "csr_sepc v = qpc" "mem v = m"
      "p_tf (procs v ! c) = p_tf (procs s ! c)"
      using switch_to_user [OF b(1,2) succ nc b(3,4) q', of L ?f r] b(2) unfolding t by auto
    obtain w where w: "yield L ?t = kret To_user w"
      using yield_result [OF b(1,2) succ b(3,4), of L] nc by auto
    have "user_trap L SCAUSE_ECALL pc r s = kbind (yield L ?t) (trap_leave L ?f r)"
      unfolding m(4) h answer_def w by simp
    then show "\<exists>r' s'. user_trap L SCAUSE_ECALL pc r s = kret (Ret r') s' \<and> current_proc s' = Some n \<and>
        csr_sepc s' = qpc \<and> resumed q r' \<and> frame_holds (p_tf (procs s' ! c)) r pc (mem s')"
      using v m(2) by auto
  qed
qed

theorem yield_call_restarts_witness:
  "\<exists>r' s'. user_trap kernel_map SCAUSE_ECALL 0x1000400 (\<lambda>_. 124) user_procs = kret (Ret r') s' \<and>
     current_proc s' = Some 2 \<and> frame_holds (p_tf (procs s' ! 1)) (\<lambda>_. 124) 0x1000400 (mem s')"
proof -
  have y: "(\<lambda>_. 124) A7 = SYS_YIELD" by (simp add: SYS_YIELD_def)
  have n: "(2 :: nat) < PROCS_MAX" by (simp add: PROCS_MAX_def)
  show ?thesis
    using yield_call_restarts [OF user_procs_in_user y user_procs_successor n user_procs_frames(5),
        where q = "\<lambda>_. 0" and qpc = 0 and pc = "0x1000400"] user_procs_frames by auto
qed

end
