(* ===== verification/Kheap.thy ===== *)
theory Kheap
  imports Kernel_State
begin

text \<open>
  The kernel heap, \<^verbatim>\<open>kernel/heap.c\<close>: a list of blocks that tiles the region between
  \<^verbatim>\<open>__heap_start\<close> and \<^verbatim>\<open>__heap_end\<close>. A block is a header of 24 bytes (\<^verbatim>\<open>size\<close>, \<^verbatim>\<open>next\<close>,
  \<^verbatim>\<open>free\<close>) and its bytes. The static \<^verbatim>\<open>free_list\<close> of the file, the head of the list, is
  passed in; the console messages are not modelled. \<open>fit\<close> is first fit with splitting on
  the abstract list of blocks, and \<^verbatim>\<open>malloc\<close> refines it.
\<close>

section \<open>The code\<close>

definition BLOCK_SIZE :: u64 where
  "BLOCK_SIZE = 24"

definition blk_size :: "mem \<Rightarrow> u64 \<Rightarrow> u64" where "blk_size m b = load64 m b"
definition blk_next :: "mem \<Rightarrow> u64 \<Rightarrow> u64" where "blk_next m b = load64 m (b + 8)"
definition blk_free :: "mem \<Rightarrow> u64 \<Rightarrow> u32" where "blk_free m b = load32 m (b + 16)"

definition ALIGN8 :: "u64 \<Rightarrow> u64" where
  "ALIGN8 x = (x + 7) AND NOT 7"

text \<open>\<^verbatim>\<open>heap_init\<close>: the new memory and the head of the list.\<close>

definition heap_init :: "linker_syms \<Rightarrow> mem \<Rightarrow> u64 \<times> mem" where
  "heap_init L m =
     (let b = heap_start L;
          m = store64 m b (heap_stop L - heap_start L - BLOCK_SIZE);
          m = store64 m (b + 8) 0;
          m = store32 m (b + 16) 1
      in (b, m))"

text \<open>A block that fits is taken: its tail becomes a free block when there is room for one.\<close>

definition take_block :: "u64 \<Rightarrow> u64 \<Rightarrow> mem \<Rightarrow> u64 \<times> mem" where
  "take_block n cur m =
     (let m =
        (if n + BLOCK_SIZE + 8 \<le> blk_size m cur then
           (let new = cur + BLOCK_SIZE + n;
                m = store64 m new (blk_size m cur - n - BLOCK_SIZE);
                m = store32 m (new + 16) 1;
                m = store64 m (new + 8) (blk_next m cur);
                m = store64 m cur n
            in store64 m (cur + 8) new)
         else m)
      in (cur + BLOCK_SIZE, store32 m (cur + 16) 0))"

partial_function (option) malloc_loop :: "u64 \<Rightarrow> u64 \<Rightarrow> mem \<Rightarrow> (u64 \<times> mem) option" where
  "malloc_loop n cur m =
     (if cur = 0 then Some (0, m)
      else if blk_free m cur \<noteq> 0 \<and> n \<le> blk_size m cur then Some (take_block n cur m)
      else malloc_loop n (blk_next m cur) m)"

definition malloc :: "u64 \<Rightarrow> u64 \<Rightarrow> mem \<Rightarrow> (u64 \<times> mem) option" where
  "malloc head sz m = malloc_loop (ALIGN8 sz) head m"

definition free :: "u64 \<Rightarrow> mem \<Rightarrow> mem" where
  "free ptr m =
     (if ptr = 0 then m
      else
        (let block = ptr - BLOCK_SIZE;
             m = store32 m (block + 16) 1;
             nxt = blk_next m block
         in if nxt \<noteq> 0 \<and> blk_free m nxt \<noteq> 0 then
              (let m = store64 m block (blk_size m block + (BLOCK_SIZE + blk_size m nxt))
               in store64 m (block + 8) (blk_next m nxt))
            else m))"

section \<open>The tiling\<close>

type_synonym blocks = "(u64 \<times> bool) list"

text \<open>\<open>tiles m stop a bs\<close>: the blocks \<open>bs\<close>, size and free, cover the bytes from \<open>a\<close> to \<open>stop\<close>.\<close>

primrec tiles :: "mem \<Rightarrow> u64 \<Rightarrow> u64 \<Rightarrow> blocks \<Rightarrow> bool" where
  "tiles m stop a [] \<longleftrightarrow> a = stop"
| "tiles m stop a (b # bs) \<longleftrightarrow>
     0 < unat a \<and> aligned8 a \<and> aligned8 (fst b) \<and> unat a + 24 + unat (fst b) \<le> unat stop \<and>
     blk_size m a = fst b \<and> (blk_free m a \<noteq> 0) = snd b \<and>
     blk_next m a = (if bs = [] then 0 else a + 24 + fst b) \<and> tiles m stop (a + 24 + fst b) bs"

text \<open>The bytes of the blocks in use.\<close>

primrec in_use :: "u64 \<Rightarrow> blocks \<Rightarrow> u64 set" where
  "in_use a [] = {}"
| "in_use a (b # bs) =
     (if snd b then {} else {x. unat a + 24 \<le> unat x \<and> unat x < unat a + 24 + unat (fst b)}) \<union>
     in_use (a + 24 + fst b) bs"

text \<open>First fit on the abstract list: the distance of the block from the head, and the new list.\<close>

primrec fit :: "u64 \<Rightarrow> blocks \<Rightarrow> (u64 \<times> blocks) option" where
  "fit n [] = None"
| "fit n (b # bs) =
     (if snd b \<and> n \<le> fst b
      then Some (0, if unat n + 32 \<le> unat (fst b) then (n, False) # (fst b - n - 24, True) # bs
                    else (fst b, False) # bs)
      else map_option (\<lambda>(d, bs'). (24 + fst b + d, b # bs')) (fit n bs))"

section \<open>Headers\<close>

lemma near_disjoint:
  assumes "aligned8 a" and "aligned8 b" and "a \<noteq> b" and "x - b < 8"
  shows "8 \<le> x - a"
proof -
  have g: "8 \<le> a - b" "8 \<le> b - a" using aligned8_disjoint assms(1-3) by metis+
  have gap: "unat (a - b) + unat (b - a) = 2 ^ 64"
    using g(2) unat_diff_u64 [of a b] unat_diff_u64 [of b a] unat_u64_bound [of a]
      unat_u64_bound [of b] by (simp add: word_le_nat_alt split: if_splits)
  have "unat (x - a) = (unat (x - b) + unat (b - a)) mod 2 ^ 64"
    using unat_word_ariths(1) [of "x - b" "b - a"] by simp
  with assms(4) gap g show ?thesis by (simp add: word_le_nat_alt word_less_nat_alt)
qed

lemma load64_store32_aligned [mem_simps]:
  assumes "aligned8 a" and "aligned8 b" and "a \<noteq> b"
  shows "load64 (store32 m a v) b = load64 m b"
proof (rule load64_cong)
  fix x assume "x - b < 8"
  then have "8 \<le> x - a" by (rule near_disjoint [OF assms])
  then show "store32 m a v x = m x" by (intro store32_other) (simp add: word_le_nat_alt)
qed

lemma load32_store64_aligned [mem_simps]:
  assumes "aligned8 a" and "aligned8 b" and "a \<noteq> b"
  shows "load32 (store64 m a v) b = load32 m b"
proof (rule load32_cong)
  fix x assume "x - b < 4"
  then have "8 \<le> x - a" by (intro near_disjoint [OF assms]) (simp add: word_less_nat_alt)
  then show "store64 m a v x = m x" by (rule store64_other)
qed

lemma load32_store32_aligned [mem_simps]:
  assumes "aligned8 a" and "aligned8 b" and "a \<noteq> b"
  shows "load32 (store32 m a v) b = load32 m b"
proof (rule load32_cong)
  fix x assume "x - b < 4"
  then have "8 \<le> x - a" by (intro near_disjoint [OF assms]) (simp add: word_less_nat_alt)
  then show "store32 m a v x = m x" by (intro store32_other) (simp add: word_le_nat_alt)
qed

lemma aligned8_lits [simp]: "aligned8 8" "aligned8 16" "aligned8 24"
  by (simp_all add: aligned8_def)

text \<open>The tiling depends only on the bytes of its region, and a header only on its 24 bytes.\<close>

lemma header_same:
  assumes "\<And>x. unat a \<le> unat x \<Longrightarrow> unat x < unat a + 24 \<Longrightarrow> m' x = m x"
    and "unat a + 24 \<le> 2 ^ 64"
  shows "blk_size m' a = blk_size m a" and "blk_next m' a = blk_next m a"
    and "blk_free m' a = blk_free m a"
proof -
  have off: "m' x = m x" if "unat (x - (a + of_nat k)) < n" "k + n \<le> 24" for x k n
  proof -
    have uk: "unat (of_nat k :: u64) = k" using that(2) by (intro unat_of_nat_u64) simp
    have "unat (a + of_nat k) + unat (x - (a + of_nat k)) < 2 ^ 64"
      using that assms(2) uk by (subst unat_add_u64) simp_all
    then have "unat (a + of_nat k + (x - (a + of_nat k))) = unat (a + of_nat k) + unat (x - (a + of_nat k))"
      by (rule unat_add_u64)
    moreover have "unat (a + of_nat k) = unat a + k"
      using assms(2) that uk by (subst unat_add_u64) simp_all
    ultimately have "unat x = unat a + k + unat (x - (a + of_nat k))" by simp
    then show ?thesis using that by (intro assms(1)) simp_all
  qed
  show "blk_size m' a = blk_size m a"
    unfolding blk_size_def by (rule load64_cong) (use off [of _ 0 8] in \<open>simp add: word_less_nat_alt\<close>)
  show "blk_next m' a = blk_next m a"
    unfolding blk_next_def by (rule load64_cong) (use off [of _ 8 8] in \<open>simp add: word_less_nat_alt\<close>)
  show "blk_free m' a = blk_free m a"
    unfolding blk_free_def by (rule load32_cong) (use off [of _ 16 4] in \<open>simp add: word_less_nat_alt\<close>)
qed

lemma tiles_step:
  fixes a n stop :: u64
  assumes "unat a + 24 + unat n \<le> unat stop"
  shows "unat (a + 24 + n) = unat a + 24 + unat n"
proof -
  have u: "unat (a + 24) = unat a + 24"
    using assms unat_u64_bound [of stop] by (subst unat_add_u64) simp_all
  show ?thesis using assms unat_u64_bound [of stop] u by (subst unat_add_u64) simp_all
qed

lemma tiles_cong:
  assumes "\<And>x. unat a \<le> unat x \<Longrightarrow> unat x < unat stop \<Longrightarrow> m' x = m x"
  shows "tiles m' stop a bs = tiles m stop a bs"
  using assms
proof (induction bs arbitrary: a)
  case Nil
  then show ?case by simp
next
  case (Cons b bs)
  show ?case
  proof (cases "unat a + 24 + unat (fst b) \<le> unat stop")
    case True
    then have "unat a + 24 \<le> 2 ^ 64" using unat_u64_bound [of stop] by simp
    then have "blk_size m' a = blk_size m a" "blk_next m' a = blk_next m a" "blk_free m' a = blk_free m a"
      using True Cons.prems by (intro header_same; simp)+
    moreover have "tiles m' stop (a + 24 + fst b) bs = tiles m stop (a + 24 + fst b) bs"
      using Cons.prems tiles_step [OF True] by (intro Cons.IH) simp
    ultimately show ?thesis by simp
  qed simp
qed

lemma tiles_le: "tiles m stop a bs \<Longrightarrow> unat a \<le> unat stop"
  by (cases bs) auto

lemma tiles_stop: "tiles m stop a bs \<Longrightarrow> bs \<noteq> [] \<Longrightarrow> unat a + 24 \<le> unat stop"
  by (cases bs) auto

lemma in_use_region: "tiles m stop a bs \<Longrightarrow> x \<in> in_use a bs \<Longrightarrow> unat a + 24 \<le> unat x \<and> unat x < unat stop"
proof (induction bs arbitrary: a)
  case (Cons b bs)
  then have "unat (a + 24 + fst b) = unat a + 24 + unat (fst b)" by (intro tiles_step) auto
  with Cons tiles_le [of m stop "a + 24 + fst b" bs] show ?case by (fastforce split: if_splits)
qed simp

section \<open>Taking a block\<close>

lemma outside_header:
  fixes p x :: u64
  assumes "unat x < unat p \<or> unat p + 24 \<le> unat x" and "unat p + 24 \<le> 2 ^ 64" and "k \<le> 16"
  shows "8 \<le> x - (p + of_nat k)"
proof -
  have "unat (of_nat k :: u64) = k" using assms(3) by (intro unat_of_nat_u64) simp
  then have "unat (p + of_nat k) = unat p + k" using assms(2,3) by (subst unat_add_u64) simp_all
  then show ?thesis
    using assms unat_diff_u64 [of x "p + of_nat k"] unat_u64_bound [of x] by (auto simp: word_le_nat_alt)
qed

lemma header_writes_other:
  fixes p x :: u64
  assumes "unat x < unat p \<or> unat p + 24 \<le> unat x" and "unat p + 24 \<le> 2 ^ 64"
  shows "store64 m p v x = m x" and "store64 m (p + 8) v x = m x" and "store32 m (p + 16) w x = m x"
proof -
  show "store64 m p v x = m x" using outside_header [OF assms, of 0] by (intro store64_other) simp
  show "store64 m (p + 8) v x = m x" using outside_header [OF assms, of 8] by (intro store64_other) simp
  have "4 \<le> x - (p + 16)" using outside_header [OF assms, of 16] by (simp add: word_le_nat_alt)
  then show "store32 m (p + 16) w x = m x" by (rule store32_other)
qed

text \<open>The fields of one header over the writes to it.\<close>

lemma header_fields:
  assumes "aligned8 a"
  shows "blk_size (store64 m a v) a = v" "blk_size (store64 m (a + 8) v) a = blk_size m a"
    "blk_size (store32 m (a + 16) w) a = blk_size m a"
    "blk_next (store64 m a v) a = blk_next m a" "blk_next (store64 m (a + 8) v) a = v"
    "blk_next (store32 m (a + 16) w) a = blk_next m a"
    "blk_free (store64 m a v) a = blk_free m a" "blk_free (store64 m (a + 8) v) a = blk_free m a"
    "blk_free (store32 m (a + 16) w) a = w"
proof -
  have d: "a + 8 \<noteq> a" "a + 16 \<noteq> a" "a + 16 \<noteq> a + 8" by simp_all
  have al: "aligned8 (a + 8)" "aligned8 (a + 16)" using assms by (simp_all add: aligned8_add)
  show "blk_size (store64 m a v) a = v" "blk_next (store64 m (a + 8) v) a = v"
    "blk_free (store32 m (a + 16) w) a = w"
    by (simp_all add: blk_size_def blk_next_def blk_free_def)
  show "blk_size (store64 m (a + 8) v) a = blk_size m a"
    using load64_store64_aligned [OF al(1) assms] d by (simp add: blk_size_def)
  show "blk_size (store32 m (a + 16) w) a = blk_size m a"
    using load64_store32_aligned [OF al(2) assms] d by (simp add: blk_size_def)
  show "blk_next (store64 m a v) a = blk_next m a"
    using load64_store64_aligned [OF assms al(1)] d by (simp add: blk_next_def)
  show "blk_next (store32 m (a + 16) w) a = blk_next m a"
    using load64_store32_aligned [OF al(2,1)] d by (simp add: blk_next_def)
  show "blk_free (store64 m a v) a = blk_free m a"
    using load32_store64_aligned [OF assms al(2)] d by (simp add: blk_free_def)
  show "blk_free (store64 m (a + 8) v) a = blk_free m a"
    using load32_store64_aligned [OF al(1,2)] d by (simp add: blk_free_def)
qed

lemma header_write_next:
  fixes a b :: u64
  assumes "unat a + 24 \<le> unat b" and "unat b + 24 \<le> 2 ^ 64"
  shows "blk_size (store64 m a v) b = blk_size m b" "blk_size (store64 m (a + 8) v) b = blk_size m b"
    "blk_size (store32 m (a + 16) w) b = blk_size m b"
    "blk_next (store64 m a v) b = blk_next m b" "blk_next (store64 m (a + 8) v) b = blk_next m b"
    "blk_next (store32 m (a + 16) w) b = blk_next m b"
    "blk_free (store64 m a v) b = blk_free m b" "blk_free (store64 m (a + 8) v) b = blk_free m b"
    "blk_free (store32 m (a + 16) w) b = blk_free m b"
    "blk_size (store64 m b v) a = blk_size m a" "blk_size (store64 m (b + 8) v) a = blk_size m a"
    "blk_size (store32 m (b + 16) w) a = blk_size m a"
    "blk_next (store64 m b v) a = blk_next m a" "blk_next (store64 m (b + 8) v) a = blk_next m a"
    "blk_next (store32 m (b + 16) w) a = blk_next m a"
    "blk_free (store64 m b v) a = blk_free m a" "blk_free (store64 m (b + 8) v) a = blk_free m a"
    "blk_free (store32 m (b + 16) w) a = blk_free m a"
proof -
  have b: "unat a + 24 \<le> 2 ^ 64" "unat b + 24 \<le> 2 ^ 64" using assms by simp_all
  have o1: "store64 m a v x = m x \<and> store64 m (a + 8) v x = m x \<and> store32 m (a + 16) w x = m x"
    if "unat b \<le> unat x" for x using header_writes_other [of x a] that assms b by simp
  have o2: "store64 m b v x = m x \<and> store64 m (b + 8) v x = m x \<and> store32 m (b + 16) w x = m x"
    if "unat x < unat a + 24" for x using header_writes_other [of x b] that assms b by simp
  note h = header_same [OF _ b(2)] and g = header_same [OF _ b(1)]
  show "blk_size (store64 m a v) b = blk_size m b" "blk_size (store64 m (a + 8) v) b = blk_size m b"
    "blk_size (store32 m (a + 16) w) b = blk_size m b" by (intro h(1); simp add: o1)+
  show "blk_next (store64 m a v) b = blk_next m b" "blk_next (store64 m (a + 8) v) b = blk_next m b"
    "blk_next (store32 m (a + 16) w) b = blk_next m b" by (intro h(2); simp add: o1)+
  show "blk_free (store64 m a v) b = blk_free m b" "blk_free (store64 m (a + 8) v) b = blk_free m b"
    "blk_free (store32 m (a + 16) w) b = blk_free m b" by (intro h(3); simp add: o1)+
  show "blk_size (store64 m b v) a = blk_size m a" "blk_size (store64 m (b + 8) v) a = blk_size m a"
    "blk_size (store32 m (b + 16) w) a = blk_size m a" by (intro g(1); simp add: o2)+
  show "blk_next (store64 m b v) a = blk_next m a" "blk_next (store64 m (b + 8) v) a = blk_next m a"
    "blk_next (store32 m (b + 16) w) a = blk_next m a" by (intro g(2); simp add: o2)+
  show "blk_free (store64 m b v) a = blk_free m a" "blk_free (store64 m (b + 8) v) a = blk_free m a"
    "blk_free (store32 m (b + 16) w) a = blk_free m a" by (intro g(3); simp add: o2)+
qed

lemma take_block_tiles:
  assumes t: "tiles m stop a ((sz, True) # bs)" and n: "n \<le> sz" "aligned8 n"
    and run: "take_block n a m = (r, m')"
  shows "r = a + 24"
    and "tiles m' stop a (if unat n + 32 \<le> unat sz then (n, False) # (sz - n - 24, True) # bs
      else (sz, False) # bs)"
    and "\<And>x. unat x < unat a \<or> unat a + 24 + unat sz \<le> unat x \<Longrightarrow> m' x = m x"
proof -
  have a: "0 < unat a" "aligned8 a" "aligned8 sz" "unat a + 24 + unat sz \<le> unat stop"
    and f: "blk_size m a = sz" "blk_next m a = (if bs = [] then 0 else a + 24 + sz)"
    and rest: "tiles m stop (a + 24 + sz) bs" using t by auto
  have nn: "unat n \<le> unat sz" using n(1) by (simp add: word_le_nat_alt)
  have b64: "unat stop < 18446744073709551616" by (rule unat_u64_bound)
  have a8: "8 \<le> unat a" using a(1,2) by (cases "unat a < 8") (auto simp: aligned8_unat)
  have u32: "unat (n + BLOCK_SIZE + 8) = unat n + 32"
  proof -
    have "unat (n + 32) = unat n + 32" using nn a(4) b64 a8 by (subst unat_add_u64) simp_all
    then show ?thesis by (simp add: BLOCK_SIZE_def add.assoc)
  qed
  show "r = a + 24" using run by (simp add: take_block_def Let_def BLOCK_SIZE_def)
  have wa: "unat a + 24 \<le> 2 ^ 64" using a(4) b64 by simp
  consider (whole) "\<not> unat n + 32 \<le> unat sz" | (split) "unat n + 32 \<le> unat sz" by blast
  then have both: "tiles m' stop a (if unat n + 32 \<le> unat sz then (n, False) # (sz - n - 24, True) # bs
        else (sz, False) # bs) \<and>
      (\<forall>x. unat x < unat a \<or> unat a + 24 + unat sz \<le> unat x \<longrightarrow> m' x = m x)"
    proof cases
      case whole
      have m': "m' = store32 m (a + 16) 0"
        using run whole u32 by (simp add: take_block_def Let_def f word_le_nat_alt)
      have out: "m' x = m x" if "unat x < unat a \<or> unat a + 24 + unat sz \<le> unat x" for x
        unfolding m' using that by (intro header_writes_other(3) [OF _ wa]) auto
      have "tiles m' stop (a + 24 + sz) bs"
        using rest tiles_step [OF a(4)] out by (subst tiles_cong [of _ _ _ m]) auto
      then show ?thesis using whole a f out by (simp add: m' header_fields)
    next
      case split
      define w where "w = a + BLOCK_SIZE + n"
      have w24: "w = a + 24 + n" by (simp add: w_def BLOCK_SIZE_def)
      have sw: "unat w = unat a + 24 + unat n"
        unfolding w24 using nn a(4) by (intro tiles_step [of a n stop]) simp
      have al: "aligned8 w" using a(2) n(2) by (simp add: w24 aligned8_add)
      have ws: "w + (sz - n) = a + 24 + sz" by (simp add: w24)
      have us: "unat (sz - n - 24) = unat sz - unat n - 24"
        using split n(1) nn by (simp add: unat_diff_u64)
      have ww: "unat w + 24 \<le> 2 ^ 64" using sw split a(4) b64 by simp
      have apart: "unat a + 24 \<le> unat w" using sw by simp
      define m1 where "m1 = store64 m w (sz - n - BLOCK_SIZE)"
      define m2 where "m2 = store32 m1 (w + 16) 1"
      define m3 where "m3 = store64 m2 (w + 8) (blk_next m2 a)"
      define m4 where "m4 = store64 m3 a n"
      define m5 where "m5 = store64 m4 (a + 8) w"
      have c: "n + BLOCK_SIZE + 8 \<le> sz" using split u32 by (simp only: word_le_nat_alt)
      have "take_block n a m = (a + BLOCK_SIZE, store32 m5 (a + 16) 0)"
        by (simp only: take_block_def Let_def c if_True f(1) m1_def m2_def m3_def m4_def m5_def w_def)
      then have m': "m' = store32 m5 (a + 16) 0" using run by simp
      note hw = header_write_next [OF apart ww] and hf = header_fields [OF al] and ha = header_fields [OF a(2)]
      have nxt: "blk_next m2 a = blk_next m a" by (simp add: m2_def m1_def hw)
      have fw: "blk_size m' w = sz - n - 24" "blk_free m' w = 1" "blk_next m' w = blk_next m a"
        by (simp_all add: m' m5_def m4_def m3_def nxt hw hf) (simp_all add: m2_def m1_def hw hf BLOCK_SIZE_def)
      have fa: "blk_size m' a = n" "blk_free m' a = 0" "blk_next m' a = w"
        by (simp_all add: m' m5_def m4_def ha)
      have out: "m' x = m x" if "unat x < unat a \<or> unat a + 24 + unat sz \<le> unat x" for x
      proof -
        have "unat x < unat w \<or> unat w + 24 \<le> unat x" "unat x < unat a \<or> unat a + 24 \<le> unat x"
          using that sw split by auto
        then show ?thesis
          by (simp add: m' m5_def m4_def m3_def m2_def m1_def
              header_writes_other [OF _ ww] header_writes_other [OF _ wa])
      qed
      have "tiles m' stop (a + 24 + sz) bs"
        using rest tiles_step [OF a(4)] out by (subst tiles_cong [of _ _ _ m]) auto
      moreover have "aligned8 (sz - n - 24)" using a(3) n(2) by (auto intro!: aligned8_diff)
      moreover have "(bs = [] \<longrightarrow> w + (sz - n) = stop) \<and> (bs \<noteq> [] \<longrightarrow> tiles m' stop (w + (sz - n)) bs)"
        using calculation unfolding ws by (cases bs) simp_all
      moreover have "w - n = a + 24" by (simp add: w24)
      ultimately show ?thesis
        using split a al f n fa fw sw us out by (simp add: w24 [symmetric])
    qed
  from both show "tiles m' stop a (if unat n + 32 \<le> unat sz then (n, False) # (sz - n - 24, True) # bs
      else (sz, False) # bs)" by blast
  from both show "m' x = m x" if "unat x < unat a \<or> unat a + 24 + unat sz \<le> unat x" for x
    using that by blast
qed

section \<open>First fit\<close>

definition payload :: "u64 \<Rightarrow> u64 \<Rightarrow> u64 set" where
  "payload r n = {x. unat r \<le> unat x \<and> unat x < unat r + unat n}"

lemma in_use_Cons:
  fixes a stop :: u64
  assumes "unat a + 24 + unat (fst b) \<le> unat stop"
  shows "in_use a (b # bs) =
    (if snd b then {} else payload (a + 24) (fst b)) \<union> in_use (a + 24 + fst b) bs"
proof -
  have "unat (a + 24) = unat a + 24"
    using tiles_step [of a 0 stop] assms by simp
  then show ?thesis by (simp add: payload_def)
qed

text \<open>\<open>fits n m stop a bs r m' bs'\<close>: what a successful allocation does.\<close>

definition fits :: "u64 \<Rightarrow> mem \<Rightarrow> u64 \<Rightarrow> u64 \<Rightarrow> blocks \<Rightarrow> u64 \<Rightarrow> mem \<Rightarrow> blocks \<Rightarrow> bool" where
  "fits n m stop a bs r m' bs' \<longleftrightarrow>
     bs' \<noteq> [] \<and> tiles m' stop a bs' \<and>
     payload r n \<subseteq> in_use a bs' - in_use a bs \<and> in_use a bs \<subseteq> in_use a bs' \<and>
     (\<forall>x. unat x < unat a \<or> unat stop \<le> unat x \<or> x \<in> in_use a bs \<longrightarrow> m' x = m x)"

lemma malloc_loop_spec:
  assumes "tiles m stop a bs" and "bs \<noteq> []" and "aligned8 n"
  shows "case fit n bs of
      None \<Rightarrow> malloc_loop n a m = Some (0, m)
    | Some (d, bs') \<Rightarrow> \<exists>m'. malloc_loop n a m = Some (a + d + 24, m') \<and> fits n m stop a bs (a + d + 24) m' bs'"
  using assms(1,2)
proof (induction bs arbitrary: a)
  case Nil
  then show ?case by simp
next
  case (Cons b bs)
  let ?a = "a + 24 + fst b"
  have a: "a \<noteq> 0" "unat a + 24 + unat (fst b) \<le> unat stop" and rest: "tiles m stop ?a bs"
    and hd: "blk_size m a = fst b" "(blk_free m a \<noteq> 0) = snd b" "blk_next m a = (if bs = [] then 0 else ?a)"
    using Cons.prems by auto
  have ua: "unat ?a = unat a + 24 + unat (fst b)" by (rule tiles_step [OF a(2)])
  have u24: "unat (a + 24) = unat a + 24" using tiles_step [of a 0 stop] a(2) by simp
  have later: "unat ?a + 24 \<le> unat x" if "x \<in> in_use ?a bs" for x using in_use_region [OF rest that] by simp
  show ?case
  proof (cases "snd b \<and> n \<le> fst b")
    case True
    obtain r m' where run: "take_block n a m = (r, m')" by fastforce
    have t: "tiles m stop a ((fst b, True) # bs)" using Cons.prems(1) True by (cases b) simp
    note k = take_block_tiles [OF t conjunct2 [OF True] assms(3) run]
    let ?bs = "if unat n + 32 \<le> unat (fst b) then (n, False) # (fst b - n - 24, True) # bs
      else (fst b, False) # bs"
    have nn: "unat n \<le> unat (fst b)" using True by (simp add: word_le_nat_alt)
    have use: "in_use a (b # bs) = in_use ?a bs" using True by simp
    have sub: "payload (a + 24) n \<subseteq> in_use a ?bs \<and> in_use ?a bs \<subseteq> in_use a ?bs"
    proof -
      have e: "a + 24 + n + 24 + (fst b - n - 24) = ?a" by simp
      have "in_use a ((n, False) # (fst b - n - 24, True) # bs) = payload (a + 24) n \<union> in_use ?a bs"
        unfolding in_use.simps fst_conv snd_conv if_False if_True e by (auto simp: payload_def u24)
      then show ?thesis using nn u24 by (auto simp: payload_def)
    qed
    have "payload (a + 24) n \<inter> in_use ?a bs = {}"
      using later nn ua u24 by (fastforce simp: payload_def)
    then have sub2: "payload (a + 24) n \<subseteq> in_use a ?bs - in_use ?a bs" using sub by blast
    have same: "m' x = m x" if "unat x < unat a \<or> unat stop \<le> unat x \<or> x \<in> in_use ?a bs" for x
    proof (rule k(3))
      show "unat x < unat a \<or> unat a + 24 + unat (fst b) \<le> unat x"
        using that later [of x] ua a(2) by linarith
    qed
    have "?bs \<noteq> []" by simp
    then have "fits n m stop a (b # bs) (a + 24) m' ?bs"
      using sub sub2 k(2) same unfolding fits_def use by blast
    moreover have "malloc_loop n a m = Some (a + 24, m')"
      using a(1) hd True run k(1) by (subst malloc_loop.simps) simp
    ultimately show ?thesis using True by simp
  next
    case False
    then have step: "malloc_loop n a m = malloc_loop n (blk_next m a) m"
      using a(1) hd by (subst malloc_loop.simps) auto
    show ?thesis
    proof (cases "bs = []")
      case True
      then have "malloc_loop n a m = Some (0, m)"
        using step hd(3) by (simp add: malloc_loop.simps [of n 0])
      moreover have "fit n (b # bs) = None" unfolding fit.simps if_not_P [OF False] True by simp
      ultimately show ?thesis by simp
    next
      case ne: False
      then have next_a: "blk_next m a = ?a" using hd(3) by simp
      note IH = Cons.IH [OF rest ne]
      show ?thesis
      proof (cases "fit n bs")
        case None
        then have "fit n (b # bs) = None" unfolding fit.simps if_not_P [OF False] by simp
        then show ?thesis using IH step next_a None by simp
      next
        case (Some q)
        then obtain d bs' m' where f: "fit n bs = Some (d, bs')"
          and run: "malloc_loop n ?a m = Some (?a + d + 24, m')"
          and k: "fits n m stop ?a bs (?a + d + 24) m' bs'"
          using IH by (cases q) auto
        have t': "tiles m' stop ?a bs'" and ne': "bs' \<noteq> []"
          and same: "\<And>x. unat x < unat ?a \<Longrightarrow> m' x = m x" using k by (auto simp: fits_def)
        have "unat a + 24 \<le> 2 ^ 64" using a(2) unat_u64_bound [of stop] by simp
        then have "blk_size m' a = blk_size m a" "blk_next m' a = blk_next m a" "blk_free m' a = blk_free m a"
          using same ua by (intro header_same; simp)+
        then have tiles': "tiles m' stop a (b # bs')"
          using Cons.prems(1) t' ne' ne by simp
        have X: "\<forall>x \<in> payload (a + 24) (fst b). unat a \<le> unat x \<and> unat x < unat ?a"
          using ua u24 by (auto simp: payload_def)
        have P: "\<forall>x \<in> payload (?a + d + 24) n. unat ?a \<le> unat x"
          using k in_use_region [OF t'] by (fastforce simp: fits_def)
        have "fits n m stop a (b # bs) (?a + d + 24) m' (b # bs')"
          using k tiles' X P ua unfolding fits_def in_use_Cons [OF a(2)]
          by (fastforce split: if_splits)
        moreover have "?a + d + 24 = a + (24 + fst b + d) + 24" by simp
        moreover have "fit n (b # bs) = Some (24 + fst b + d, b # bs')"
          unfolding fit.simps if_not_P [OF False] f by simp
        ultimately show ?thesis using run step next_a by (simp only: option.case prod.case) blast
      qed
    qed
  qed
qed

section \<open>Giving a block back\<close>

text \<open>The block at distance \<open>d\<close> becomes free and swallows a free successor.\<close>

fun release :: "u64 \<Rightarrow> blocks \<Rightarrow> blocks" where
  "release d [] = []"
| "release d (b # bs) =
     (if d = 0 then
        (case bs of
           [] \<Rightarrow> [(fst b, True)]
         | c # cs \<Rightarrow> if snd c then (fst b + 24 + fst c, True) # cs else (fst b, True) # bs)
      else b # release (d - (24 + fst b)) bs)"

fun block_at :: "u64 \<Rightarrow> blocks \<Rightarrow> bool" where
  "block_at d [] = False"
| "block_at d (b # bs) = (d = 0 \<or> block_at (d - (24 + fst b)) bs)"

lemma free_block:
  assumes "tiles m stop a (b # bs)"
  shows "tiles (free (a + 24) m) stop a (release 0 (b # bs))"
    and "\<And>x. unat x < unat a \<or> unat a + 24 \<le> unat x \<Longrightarrow> free (a + 24) m x = m x"
proof -
  let ?a = "a + 24 + fst b"
  have a: "0 < unat a" "aligned8 a" "aligned8 (fst b)" "unat a + 24 + unat (fst b) \<le> unat stop"
    and hd: "blk_size m a = fst b" "blk_next m a = (if bs = [] then 0 else ?a)" and rest: "tiles m stop ?a bs"
    using assms by auto
  have ua: "unat ?a = unat a + 24 + unat (fst b)" by (rule tiles_step [OF a(4)])
  have wa: "unat a + 24 \<le> 2 ^ 64" using a(4) unat_u64_bound [of stop] by simp
  have p0: "a + 24 \<noteq> 0" using ua a(1) tiles_step [of a 0 stop] a(4) by auto
  define m1 where "m1 = store32 m (a + 16) 1"
  note ha = header_fields [OF a(2)]
  have o1: "m1 x = m x" if "unat x < unat a \<or> unat a + 24 \<le> unat x" for x
    unfolding m1_def by (rule header_writes_other(3) [OF that wa])
  have t1: "tiles m1 stop ?a bs" using rest ua o1 by (subst tiles_cong [of _ _ _ m]) auto
  have f1: "blk_size m1 a = fst b" "blk_free m1 a = 1" "blk_next m1 a = (if bs = [] then 0 else ?a)"
    using hd by (simp_all add: m1_def ha)
  have na: "?a \<noteq> 0" using ua a(1) by auto
    have both: "tiles (free (a + 24) m) stop a (release 0 (b # bs)) \<and>
      (\<forall>x. unat x < unat a \<or> unat a + 24 \<le> unat x \<longrightarrow> free (a + 24) m x = m x)"
    proof (cases bs)
      case Nil
      then have "free (a + 24) m = m1"
        using p0 f1 by (simp add: free_def Let_def BLOCK_SIZE_def m1_def)
      then show ?thesis using Nil a f1 t1 o1 by simp
    next
      case (Cons c cs)
      have c: "blk_size m1 ?a = fst c" "(blk_free m1 ?a \<noteq> 0) = snd c"
        "blk_next m1 ?a = (if cs = [] then 0 else ?a + 24 + fst c)" "aligned8 (fst c)"
        "unat ?a + 24 + unat (fst c) \<le> unat stop" "tiles m1 stop (?a + 24 + fst c) cs"
        using t1 Cons by auto
      show ?thesis
      proof (cases "snd c")
        case False
        then have "free (a + 24) m = m1"
          using p0 f1 c Cons by (simp add: free_def Let_def BLOCK_SIZE_def m1_def)
        then show ?thesis using Cons False a f1 t1 o1 by simp
      next
        case True
        define m2 where "m2 = store64 m1 a (fst b + 24 + fst c)"
        define m3 where "m3 = store64 m2 (a + 8) (blk_next m1 ?a)"
        have ww: "unat ?a + 24 \<le> 2 ^ 64" using c(5) unat_u64_bound [of stop] by simp
        have apart: "unat a + 24 \<le> unat ?a" using ua by simp
        have "blk_next m2 ?a = blk_next m1 ?a" by (simp add: m2_def header_write_next [OF apart ww])
        then have free: "free (a + 24) m = m3"
          using p0 f1 c(1,2) True Cons na
          by (simp add: free_def Let_def BLOCK_SIZE_def m1_def [symmetric] m2_def m3_def add.assoc)
        have o3: "m3 x = m x" if "unat x < unat a \<or> unat a + 24 \<le> unat x" for x
          using o1 [OF that] header_writes_other(1,2) [OF that wa] by (simp add: m3_def m2_def)
        have u2: "unat (?a + 24 + fst c) = unat ?a + 24 + unat (fst c)" by (rule tiles_step [OF c(5)])
        have "tiles m3 stop (?a + 24 + fst c) cs"
        proof (subst tiles_cong)
          show "tiles m1 stop (?a + 24 + fst c) cs" by (rule c(6))
          show "m3 x = m1 x" if "unat (?a + 24 + fst c) \<le> unat x" for x
            using that u2 ua o3 o1 by simp
        qed
        moreover have "unat (fst b + 24 + fst c) = unat (fst b) + 24 + unat (fst c)"
          using c(5) ua by (intro tiles_step [of _ _ stop]) simp
        moreover have "a + 24 + (fst b + 24 + fst c) = ?a + 24 + fst c" by simp
        moreover have "aligned8 (fst b + 24 + fst c)" using a(3) c(4) by (simp add: aligned8_add)
        moreover have "blk_size m3 a = fst b + 24 + fst c" "blk_free m3 a = 1"
          "blk_next m3 a = (if cs = [] then 0 else ?a + 24 + fst c)"
          using f1 c(3) by (simp_all add: m3_def m2_def ha)
        ultimately show ?thesis
          using a c(5) ua o3 Cons True by (simp add: free add.assoc [symmetric])
      qed
    qed
  from both show "tiles (free (a + 24) m) stop a (release 0 (b # bs))" by blast
  from both show "free (a + 24) m x = m x" if "unat x < unat a \<or> unat a + 24 \<le> unat x" for x
    using that by blast
qed

lemma release_ne: "bs \<noteq> [] \<Longrightarrow> release d bs \<noteq> []"
  by (cases bs) (auto split: list.splits)

lemma free_spec:
  assumes "tiles m stop a bs" and "block_at d bs"
  shows "tiles (free (a + d + 24) m) stop a (release d bs) \<and> unat a \<le> unat (a + d) \<and>
    unat (a + d) + 24 \<le> unat stop \<and>
    (\<forall>x. unat x < unat (a + d) \<or> unat (a + d) + 24 \<le> unat x \<longrightarrow> free (a + d + 24) m x = m x)"
  using assms
proof (induction bs arbitrary: a d)
  case Nil
  then show ?case by simp
next
  case (Cons b bs)
  let ?a = "a + 24 + fst b"
  have a: "unat a + 24 + unat (fst b) \<le> unat stop" and rest: "tiles m stop ?a bs"
    using Cons.prems by auto
  have ua: "unat ?a = unat a + 24 + unat (fst b)" by (rule tiles_step [OF a])
  show ?case
  proof (cases "d = 0")
    case True
    then show ?thesis using free_block [OF Cons.prems(1)] a by simp
  next
    case False
    let ?d = "d - (24 + fst b)"
    have at: "block_at ?d bs" using Cons.prems(2) False by simp
    have ne: "bs \<noteq> []" using at by auto
    have eq: "?a + ?d = a + d" by simp
    note IH = Cons.IH [OF rest at, unfolded eq]
    let ?m = "free (a + d + 24) m"
    have "unat a + 24 \<le> 2 ^ 64" using a unat_u64_bound [of stop] by simp
    then have "blk_size ?m a = blk_size m a" "blk_next ?m a = blk_next m a" "blk_free ?m a = blk_free m a"
      using IH ua by (intro header_same; simp)+
    then show ?thesis using Cons.prems(1) IH False ne ua release_ne [OF ne] by simp
  qed
qed

section \<open>Properties\<close>

lemma ALIGN8_bits: "ALIGN8 x = push_bit 3 (drop_bit 3 (x + 7))"
proof -
  have m: "(7 :: u64) = mask 3" by (simp add: mask_eq_exp_minus_1)
  have "w AND NOT 7 = push_bit 3 (drop_bit 3 w)" for w :: u64
    unfolding m by (rule bit_word_eqI) (auto simp: bit_simps)
  then show ?thesis by (simp add: ALIGN8_def)
qed

lemma ALIGN8_aligned: "aligned8 (ALIGN8 x)"
proof -
  have "take_bit 3 (ALIGN8 x) = 0"
    unfolding ALIGN8_bits by (rule bit_word_eqI) (auto simp: bit_simps)
  then show ?thesis by (simp add: aligned8_def take_bit_eq_mod)
qed

lemma ALIGN8_ge:
  assumes "unat x + 7 < 2 ^ 64"
  shows "x \<le> ALIGN8 x"
proof -
  have u: "unat (x + 7) = unat x + 7" using assms by (subst unat_add_u64) simp_all
  have "ALIGN8 x = (x + 7) - take_bit 3 (x + 7)"
    using bits_ident [of 3 "x + 7"] by (simp add: ALIGN8_bits eq_diff_eq)
  moreover have t: "unat (take_bit 3 (x + 7)) = (unat x + 7) mod 8"
    unfolding unsigned_take_bit_eq u by (simp add: take_bit_eq_mod)
  ultimately have "unat (ALIGN8 x) = unat x + 7 - (unat x + 7) mod 8"
    using u by (simp add: unat_diff_u64)
  moreover have "(unat x + 7) mod 8 < 8" by simp
  ultimately show ?thesis unfolding word_le_nat_alt by linarith
qed

text \<open>
  C31: on a heap that tiles its region, \<^verbatim>\<open>malloc\<close> is first fit with splitting: it returns
  \<^verbatim>\<open>NULL\<close> and changes nothing when no free block is large enough, and otherwise the bytes of
  the first block that is. They were not part of a block in use before and are part of one
  after; all blocks in use stay in use with their contents, nothing outside the heap
  changes, and the heap tiles its region again. The block is as large as asked for unless
  the size is within seven bytes of the end of the address space.
\<close>

theorem malloc_first_fit:
  assumes "tiles m stop a bs" and "bs \<noteq> []"
  shows "case fit (ALIGN8 sz) bs of
      None \<Rightarrow> malloc a sz m = Some (0, m)
    | Some (d, bs') \<Rightarrow> \<exists>m'. malloc a sz m = Some (a + d + 24, m') \<and> tiles m' stop a bs' \<and>
        payload (a + d + 24) (ALIGN8 sz) \<subseteq> in_use a bs' - in_use a bs \<and>
        in_use a bs \<subseteq> in_use a bs' \<and>
        (\<forall>x. unat x < unat a \<or> unat stop \<le> unat x \<or> x \<in> in_use a bs \<longrightarrow> m' x = m x) \<and>
        (unat sz + 7 < 2 ^ 64 \<longrightarrow> sz \<le> ALIGN8 sz)"
  using malloc_loop_spec [OF assms ALIGN8_aligned, of sz] ALIGN8_ge [of sz]
  by (auto simp: malloc_def fits_def split: option.splits)

text \<open>The heap of the kernel just after \<^verbatim>\<open>heap_init\<close>.\<close>

lemma heap_init_tiles:
  assumes "layout_ok L" and "unat (heap_start L) + 24 \<le> unat (heap_stop L)"
    and "heap_init L m0 = (h, m)"
  shows "h = heap_start L" and "tiles m (heap_stop L) h [(heap_stop L - heap_start L - 24, True)]"
proof -
  let ?a = "heap_start L" and ?n = "heap_stop L - heap_start L - 24"
  show h: "h = ?a" using assms(3) by (simp add: heap_init_def Let_def)
  have al: "aligned8 ?a" "aligned8 (heap_stop L)"
    using assms(1) by (auto simp: layout_ok_def intro: page_aligned_aligned8)
  have pos: "0 < unat ?a" using assms(1)
    by (auto simp: layout_ok_def word_le_nat_alt word_less_nat_alt)
  have n: "unat ?n = unat (heap_stop L) - unat ?a - 24" using assms(2) by (simp add: unat_diff_u64)
  have m: "m = store32 (store64 (store64 m0 ?a ?n) (?a + 8) 0) (?a + 16) 1"
    using assms(3) by (auto simp: heap_init_def Let_def BLOCK_SIZE_def)
  have "aligned8 ?n" using al by (auto intro!: aligned8_diff)
  then show "tiles m (heap_stop L) h [(?n, True)]"
    using al pos n assms(2) by (simp add: h m header_fields)
qed

lemma kernel_heap:
  obtains m where "heap_init kernel_map (\<lambda>_. 0) = (0x844cb000, m)"
    and "tiles m 0x864cb000 0x844cb000 [(0x1FFFFE8, True)]"
proof -
  obtain h m where r: "heap_init kernel_map (\<lambda>_. 0) = (h, m)" by fastforce
  have "unat (heap_start kernel_map) + 24 \<le> unat (heap_stop kernel_map)" by (simp add: kernel_map_def)
  from heap_init_tiles [OF layout_ok_kernel_map this r] r show thesis
    by (intro that [of m]) (simp_all add: kernel_map_def)
qed

theorem malloc_first_fit_witness:
  "\<exists>m m'. tiles m 0x864cb000 0x844cb000 [(0x1FFFFE8, True)] \<and>
     malloc 0x844cb000 100 m = Some (0x844cb018, m') \<and>
     tiles m' 0x864cb000 0x844cb000 [(104, False), (0x1FFFF68, True)]"
proof (rule kernel_heap)
  fix m assume t: "tiles m 0x864cb000 0x844cb000 [(0x1FFFFE8, True)]"
  have al: "ALIGN8 100 = 104" by (simp add: ALIGN8_def)
  have "fit (ALIGN8 100) [(0x1FFFFE8, True)] = Some (0, [(104, False), (0x1FFFF68, True)])"
    unfolding al by simp
  with malloc_first_fit [OF t, of 100] t show ?thesis by auto
qed

inductive heap_run :: "linker_syms \<Rightarrow> mem \<Rightarrow> mem \<Rightarrow> bool" for L m0 where
  run_init: "heap_init L m0 = (h, m) \<Longrightarrow> heap_run L m0 m"
| run_malloc: "heap_run L m0 m \<Longrightarrow> malloc (heap_start L) sz m = Some (r, m') \<Longrightarrow> heap_run L m0 m'"
| run_free: "heap_run L m0 m \<Longrightarrow> tiles m (heap_stop L) (heap_start L) bs \<Longrightarrow> block_at d bs \<Longrightarrow>
    heap_run L m0 (free (heap_start L + d + 24) m)"

text \<open>
  C32: every heap reachable from \<^verbatim>\<open>heap_init\<close> by calls of \<^verbatim>\<open>malloc\<close>, for any sizes, and
  \<^verbatim>\<open>free\<close>, for the address of any of its blocks, tiles its region without gaps, and on such
  a heap \<^verbatim>\<open>malloc\<close> always returns.
\<close>

theorem heap_tiles:
  assumes "layout_ok L" and "unat (heap_start L) + 24 \<le> unat (heap_stop L)" and "heap_run L m0 m"
  shows "(\<exists>bs. bs \<noteq> [] \<and> tiles m (heap_stop L) (heap_start L) bs) \<and>
    (\<exists>r m'. malloc (heap_start L) sz m = Some (r, m'))"
proof -
  have ok: "\<exists>bs. bs \<noteq> [] \<and> tiles m (heap_stop L) (heap_start L) bs"
    using assms(3)
  proof induction
    case (run_init h m)
    then show ?case using heap_init_tiles [OF assms(1,2)] by blast
  next
    case (run_malloc m n r m')
    then obtain bs where bs: "bs \<noteq> []" "tiles m (heap_stop L) (heap_start L) bs" by blast
    show ?case using malloc_loop_spec [OF bs(2,1) ALIGN8_aligned, of n] run_malloc.hyps(2) bs
      by (auto simp: malloc_def fits_def split: option.splits)
  next
    case (run_free m bs d)
    then show ?case using free_spec [OF run_free.hyps(2,3)] release_ne [of bs d]
      by (cases bs) auto
  qed
  then obtain bs where "bs \<noteq> []" "tiles m (heap_stop L) (heap_start L) bs" by blast
  then have "\<exists>r m'. malloc (heap_start L) sz m = Some (r, m')"
    using malloc_loop_spec [of m "heap_stop L" "heap_start L" bs "ALIGN8 sz"] ALIGN8_aligned
    by (auto simp: malloc_def split: option.splits)
  with ok show ?thesis by blast
qed

theorem heap_tiles_witness:
  "\<exists>m r m'. heap_run kernel_map (\<lambda>_. 0) m \<and> malloc 0x844cb000 64 m = Some (r, m')"
proof (rule kernel_heap)
  fix m assume "heap_init kernel_map (\<lambda>_. 0) = (0x844cb000, m)"
  then have run: "heap_run kernel_map (\<lambda>_. 0) m" by (rule run_init)
  have "unat (heap_start kernel_map) + 24 \<le> unat (heap_stop kernel_map)" by (simp add: kernel_map_def)
  from heap_tiles [OF layout_ok_kernel_map this run, of 64] run show ?thesis
    by (simp add: kernel_map_def) blast
qed

end
