(* ===== verification/Boot.thy ===== *)
theory Boot
  imports Trap Kheap
begin

text \<open>
  The parts of the start of the kernel: \<^verbatim>\<open>paging_init\<close> of \<^verbatim>\<open>kernel/page.c\<close>, and the lookups,
  names and the first switch of \<^verbatim>\<open>kernel_main\<close> in \<^verbatim>\<open>kernel/kernel.c\<close>. The whole of
  \<^verbatim>\<open>kernel_main\<close> is in \<^verbatim>\<open>Boot_Main\<close>.
\<close>

section \<open>The code\<close>

definition VIRTIO_MMIO_BASE :: u64 where "VIRTIO_MMIO_BASE = 0x10001000"
definition VIRTIO_MMIO_SIZE :: u64 where "VIRTIO_MMIO_SIZE = 0x1000"
definition VIRTIO_MMIO_MAX_DEVICES :: u64 where "VIRTIO_MMIO_MAX_DEVICES = 8"

definition paging_init :: "linker_syms \<Rightarrow> kstate \<Rightarrow> (unit, kstate) kres" where
  "paging_init L s =
     kbind (alloc_pages L 1 s) (\<lambda>pt_page s.
       (let s = s\<lparr>kernel_pagetable := pt_page\<rparr> in
        kbind (for_pages (\<lambda>pa. pa < heap_stop L)
                 (\<lambda>pa s. map_page L pt_page pa pa (PTE_V OR PTE_R OR PTE_W OR PTE_X) s)
                 (kernel_base L) s) (\<lambda>_ s.
        kbind (map_mmio_range L pt_page VIRTIO_MMIO_BASE VIRTIO_MMIO_BASE
                 (VIRTIO_MMIO_SIZE * VIRTIO_MMIO_MAX_DEVICES) (PTE_V OR PTE_R OR PTE_W) s) (\<lambda>_ s.
          kret () (set_active_pagetable pt_page s)))))"

text \<open>\<^verbatim>\<open>tarfs_lookup\<close> for a name that is a literal of the kernel.\<close>

partial_function (option) tarfs_loop_lit :: "mem \<Rightarrow> u64 \<Rightarrow> u8 list \<Rightarrow> u64 \<Rightarrow> (u64 \<times> u64) option" where
  "tarfs_loop_lit m stop filename ptr =
     (if \<not> ptr < stop then Some (0, 0)
      else if m ptr = 0 then Some (0, 0)
      else if strcmp_lit m ptr filename = 0 then Some (ptr + TAR_BLOCK_SIZE, tar_size m ptr)
      else tarfs_loop_lit m stop filename (tar_next m ptr))"

definition boot_file :: "linker_syms \<Rightarrow> string \<Rightarrow> kstate \<Rightarrow> (u64, kstate) kres" where
  "boot_file L name s =
     (case tarfs_loop_lit (mem s) (tar_end L) (bytes_of name) (tar_start L) of
        None \<Rightarrow> Inl Spin
      | Some (file, fs) \<Rightarrow> if file = 0 then kpanic (File_not_found name) else kret file s)"

text \<open>\<^verbatim>\<open>strcpy(p->name, \<dots>)\<close> of a literal.\<close>

definition name_proc :: "nat \<Rightarrow> string \<Rightarrow> kstate \<Rightarrow> kstate" where
  "name_proc i name s =
     (let bs = bytes_of name @ [0] in upd_proc i (\<lambda>p. p\<lparr>p_name := bs @ drop (length bs) (p_name p)\<rparr>) s)"

text \<open>
  The first switch: \<^verbatim>\<open>switch_context_sp\<close> between the stack pointers of the two PCBs, and the
  jump to the return address it has loaded, which \<^verbatim>\<open>create_init_process\<close> has set to
  \<^verbatim>\<open>user_entry\<close>. A jump to any other address is not modelled (\<open>Undefined\<close>); \<open>first_switch\<close> shows
  that the frames which \<^verbatim>\<open>create_init_process\<close> makes lead to \<^verbatim>\<open>user_entry\<close>.
\<close>

definition first_entry :: "linker_syms \<Rightarrow> nat \<Rightarrow> nat \<Rightarrow> regs \<Rightarrow> kstate \<Rightarrow> (regs, kstate) kres" where
  "first_entry L prev next r s =
     (let (r, s) = switch_context_sp prev next r s in
      if r Ra = sym_user_entry L then kret r (sret (user_entry s)) else Inl Undefined)"

section \<open>The kernel page table\<close>

lemma page_base_bounds:
  assumes "page_aligned p"
  shows "p \<le> page_base a \<longleftrightarrow> p \<le> a" and "page_base a < p \<longleftrightarrow> a < p"
proof -
  have p: "unat p mod 4096 = 0" using assms by (simp add: page_aligned_unat)
  have "(n \<le> k - k mod 4096) = (n \<le> k)" if "n mod 4096 = 0" for n k :: nat
  proof
    assume "n \<le> k"
    then have "n div 4096 * 4096 \<le> k div 4096 * 4096" by (intro mult_le_mono1 div_le_mono)
    moreover have "n div 4096 * 4096 = n" using div_mult_mod_eq [of n 4096] that by (simp only: add_0_right)
    ultimately show "n \<le> k - k mod 4096" by (simp only: minus_mod_eq_div_mult)
  qed simp
  from this [OF p, of "unat a"] show le: "p \<le> page_base a \<longleftrightarrow> p \<le> a"
    by (simp add: word_le_nat_alt unat_page_base)
  then show "page_base a < p \<longleftrightarrow> a < p" by (simp only: not_le [symmetric])
qed

definition boot_space :: "linker_syms \<Rightarrow> u64 \<Rightarrow> u64 option" where
  "boot_space L =
     region 0x10001000 0x10009000 7
       (region (unat (kernel_base L)) (unat (heap_stop L)) 15 (\<lambda>_. None))"

lemma uspace_start:
  assumes "pool_ok L s" and "alloc_pages L 1 s = Inr (r, t)"
  shows "uspace L r t t (\<lambda>_. None) c" and "missing A (mem t) r \<le> card (A :: u64 list set) \<or> infinite A"
    and "avail L s = Suc (avail L t)"
proof -
  note a = alloc_root [OF assms]
  show "uspace L r t t (\<lambda>_. None) c"
    using a(1,3) by (simp add: uspace_def space_is_def mapped_as_def user_flags_def)
  show "missing A (mem t) r \<le> card A \<or> infinite A"
    unfolding missing_def by (cases "finite A") (auto intro: card_mono)
  show "avail L s = Suc (avail L t)" using alloc_one_avail [OF assms] by simp
qed

lemma boot_space_leaf:
  assumes "layout_ok L" and "0x10009000 \<le> kernel_base L"
    and "mapped_as L r t w (\<lambda>_. 0) (boot_space L (page_base va)) va"
  shows "pt_leaf (mem w) r va =
      (if kernel_base L \<le> va \<and> va < heap_stop L then PA2PTE (page_base va) OR 15 OR PTE_V
       else if 0x10001000 \<le> va \<and> va < 0x10009000 then PA2PTE (page_base va) OR 7 OR PTE_V
       else 0)"
proof -
  have lay: "page_aligned (kernel_base L)" "page_aligned (heap_stop L)" "kernel_base L \<le> heap_stop L"
    using assms(1) by (auto simp: layout_ok_def)
  have k: "kernel_base L \<le> page_base va \<longleftrightarrow> kernel_base L \<le> va" "page_base va < heap_stop L \<longleftrightarrow> va < heap_stop L"
    "0x10001000 \<le> page_base va \<longleftrightarrow> 0x10001000 \<le> va" "page_base va < 0x10009000 \<longleftrightarrow> va < 0x10009000"
    using lay by (simp_all add: page_base_bounds page_aligned_def)
  show ?thesis
    using assms(2,3) k lay
    by (auto simp: mapped_as_def boot_space_def region_def word_le_nat_alt word_less_nat_alt split: if_splits)
qed

text \<open>The new root table, empty, with room for the tables of \<open>boot_space\<close>.\<close>

lemma boot_space_start:
  assumes "pool_ok L s" and "alloc_pages L 1 s = Inr (r, t)" and "card A + k < avail L s"
    and "finite A" and "t' = t\<lparr>kernel_pagetable := r\<rparr>"
  shows "uspace L r t' t' (\<lambda>_. None) (\<lambda>_. 0)" and "missing A (mem t') r + k \<le> avail L t'"
proof -
  note st = uspace_start [OF assms(1,2)]
  have "vm_ok L r t' = vm_ok L r t" using pool_frame [of t' t L] by (simp add: vm_ok_def pool_view_def assms(5))
  then show "uspace L r t' t' (\<lambda>_. None) (\<lambda>_. 0)"
    using st(1) [of "\<lambda>_. 0"] by (simp add: uspace_def space_is_def mapped_as_def user_flags_def assms(5))
  have "avail L t' = avail L t" using pool_frame [of t' t L] by (simp add: pool_view_def assms(5))
  then show "missing A (mem t') r + k \<le> avail L t'" using st(2) [of A] st(3) assms(3-5) by auto
qed

text \<open>\<^verbatim>\<open>paging_init\<close>, with what the rest of the boot needs of it.\<close>

lemma paging_init_total:
  assumes "pool_ok L s" and "layout_ok L" and "0x10009000 \<le> kernel_base L"
    and "card (space_paths (boot_space L)) + k < avail L s"
  shows "\<exists>pt s'. paging_init L s = kret () s' \<and> kernel_pagetable s' = pt \<and> vm_ok L pt s' \<and>
    csr_satp s' = MAKE_SATP pt \<and> satp_root (csr_satp s') = pt \<and>
    (\<forall>va. va < 0x8000000000 \<longrightarrow> pt_leaf (mem s') pt va =
      (if kernel_base L \<le> va \<and> va < heap_stop L then PA2PTE (page_base va) OR 15 OR PTE_V
       else if 0x10001000 \<le> va \<and> va < 0x10009000 then PA2PTE (page_base va) OR 7 OR PTE_V
       else 0)) \<and>
    pool_ok L s' \<and> k \<le> avail L s' \<and> owned L s \<subseteq> owned L s' \<and>
    procs s' = procs s \<and> current_proc s' = current_proc s \<and> idle_proc s' = idle_proc s \<and>
    process_count s' = process_count s \<and> g_startup s' = g_startup s \<and> csr_time s' = csr_time s \<and>
    (\<forall>x. page_base x \<notin> owned L s' - owned L s \<longrightarrow> mem s' x = mem s x)"
proof -
  let ?A = "space_paths (boot_space L)" and ?kb = "unat (kernel_base L)" and ?hs = "unat (heap_stop L)"
  have "avail L s > 0" using assms(4) by simp
  then obtain r t where al: "alloc_pages L 1 s = Inr (r, t)" by (rule alloc_one_returns [OF assms(1)])
  have lay: "page_aligned (kernel_base L)" "page_aligned (heap_stop L)" "?kb \<le> ?hs" "?hs \<le> 0x4000000000"
    "kernel_base L \<le> heap_stop L"
    using assms(2) by (auto simp: layout_ok_def word_le_nat_alt word_less_nat_alt)
  let ?t = "t\<lparr>kernel_pagetable := r\<rparr>"
  note us = boot_space_start(1) [OF assms(1) al assms(4) finite_space_paths refl]
  note room = boot_space_start(2) [OF assms(1) al assms(4) finite_space_paths refl]
  let ?K = "region ?kb ?hs 15 (\<lambda>_. None)"
  have sub: "space_paths ?K \<subseteq> ?A" by (simp add: boot_space_def space_paths_region)
  obtain u where u: "for_pages (\<lambda>pa. pa < heap_stop L) (\<lambda>pa s. map_page L r pa pa 15 s) (kernel_base L) ?t = Inr ((), u)"
    "uspace L r ?t u ?K (\<lambda>_. 0)" "missing ?A (mem u) r + k \<le> avail L u"
    using identity_loop [OF us finite_space_paths space_paths_index sub room, of 0 "kernel_base L" "heap_stop L"]
      lay by (auto simp: page_aligned_def)
  have none: "?K v = None" if "unat v < 0x10009000" for v
    using that assms(3) by (auto simp: region_def word_le_nat_alt)
  obtain w where w: "for_pages (\<lambda>a. a < 0x8000) (\<lambda>a s. map_page L r (0x10001000 + a) (0x10001000 + a) 7 s) 0 u = Inr ((), w)"
    "uspace L r ?t w (boot_space L) (\<lambda>_. 0)"
    "missing ?A (mem w) r + k \<le> avail L w"
    using identity_loop [OF u(2) finite_space_paths space_paths_index
        order_refl [of ?A, unfolded boot_space_def] u(3) [unfolded boot_space_def],
        of "0x10001000" 0 "0x8000"] none
    by (auto simp: page_aligned_def boot_space_def)
  have run: "paging_init L s = kret () (set_active_pagetable r w)"
    using al u(1) w(1)
    by (simp add: paging_init_def map_mmio_range_def VIRTIO_MMIO_BASE_def VIRTIO_MMIO_SIZE_def
        VIRTIO_MMIO_MAX_DEVICES_def)
  have r: "page_aligned r" "r < 0x100000000000000"
    using owned_props [OF alloc_one_spec(1) [OF assms(1) al], of r] alloc_one_spec(3) [OF assms(1) al]
    by (auto simp: word_less_nat_alt)
  have kp: "kernel_pagetable w = r"
    using w(2) proc_viewD(5) [of w ?t] by (simp add: uspace_proc_view)
  have leaf: "pt_leaf (mem w) r va =
      (if kernel_base L \<le> va \<and> va < heap_stop L then PA2PTE (page_base va) OR 15 OR PTE_V
       else if 0x10001000 \<le> va \<and> va < 0x10009000 then PA2PTE (page_base va) OR 7 OR PTE_V
       else 0)" if "va < 0x8000000000" for va
    using w(2) that by (intro boot_space_leaf [OF assms(2,3), of r ?t]) (simp add: uspace_def space_is_def)
  note a1 = alloc_one_spec [OF assms(1) al]
  have gr: "vm_grow L r ?t w" and pw: "pool_ok L w" using w(2) by (simp_all add: uspace_def vm_ok_def)
  note pv = proc_viewD [of w ?t] proc_viewD [OF a1(5)]
  have eq: "proc_view w = proc_view ?t" using gr by (simp add: vm_grow_def)
  have fields: "procs w = procs s" "current_proc w = current_proc s" "idle_proc w = idle_proc s"
    "process_count w = process_count s" "g_startup w = g_startup s" "csr_time w = csr_time s"
    using proc_viewD [OF eq] proc_viewD [OF a1(5)] by simp_all
  have owt: "owned L ?t = insert r (owned L s)" using pool_frame [of ?t t L] a1(3) by (simp add: pool_view_def)
  have grow: "owned L s \<subseteq> owned L w" "r \<in> owned L w" using gr owt by (auto simp: vm_grow_def)
  have out: "mem w x = mem s x" if "page_base x \<notin> owned L w - owned L s" for x
  proof -
    have ro: "r \<notin> owned L s" by (rule a1(2))
    have "page_base x \<noteq> r" using that grow(2) ro by auto
    then have "mem t x = mem s x" using same_outside_byte [OF kpages.alloc_outside [OF assms(1) al], of x] by simp
    moreover have "tables (mem ?t) r = {r}" using alloc_root(2) [OF assms(1) al] by simp
    then have "mem w x = mem ?t x"
      using gr that owt \<open>page_base x \<noteq> r\<close> same_outside_byte [of "tables (mem ?t) r \<union> (owned L w - owned L ?t)" "mem ?t" "mem w" x]
      by (auto simp: vm_grow_def)
    ultimately show ?thesis by simp
  qed
  let ?w = "set_active_pagetable r w"
  have same: "pool_view ?w = pool_view w" "mem ?w = mem w" by (simp_all add: set_active_pagetable_def pool_view_def)
  note pf = pool_frame [OF same(1), of L]
  have vm: "vm_ok L r ?w" using w(2) pf same(2) by (simp add: uspace_def vm_ok_def)
  have k: "k \<le> avail L ?w" using w(3) pf by simp
  have "kernel_pagetable ?w = r" "csr_satp ?w = MAKE_SATP r" "satp_root (csr_satp ?w) = r"
    using kp satp_root_MAKE_SATP [OF r] by (simp_all add: set_active_pagetable_def)
  then show ?thesis
    using run leaf vm k pw pf grow out fields same(2)
    by (intro exI [of _ r] exI [of _ ?w]) (simp add: set_active_pagetable_def)
qed

text \<open>
  C21: \<open>paging_init\<close> returns when the pool has a page for every table, and then the new page
  table is active and maps every page of the kernel, the pool and the heap and the eight
  virtio devices to itself, the devices without the permission to execute, and nothing else.
\<close>

theorem paging_init_maps:
  assumes "pool_ok L s" and "layout_ok L" and "0x10009000 \<le> kernel_base L"
    and "card (space_paths (boot_space L)) < avail L s"
  shows "\<exists>pt s'. paging_init L s = kret () s' \<and> kernel_pagetable s' = pt \<and> vm_ok L pt s' \<and>
    csr_satp s' = MAKE_SATP pt \<and> satp_root (csr_satp s') = pt \<and>
    (\<forall>va. va < 0x8000000000 \<longrightarrow> pt_leaf (mem s') pt va =
      (if kernel_base L \<le> va \<and> va < heap_stop L then PA2PTE (page_base va) OR 15 OR PTE_V
       else if 0x10001000 \<le> va \<and> va < 0x10009000 then PA2PTE (page_base va) OR 7 OR PTE_V
       else 0))"
proof -
  have "card (space_paths (boot_space L)) + 0 < avail L s" using assms(4) by simp
  from paging_init_total [OF assms(1-3) this] show ?thesis by blast
qed

theorem paging_init_maps_witness:
  "\<exists>pt s'. paging_init kernel_map (boot_state kernel_map) = kret () s' \<and> csr_satp s' = MAKE_SATP pt \<and>
     pt_leaf (mem s') pt 0x80200abc = PA2PTE 0x80200000 OR 15 OR PTE_V \<and>
     pt_leaf (mem s') pt 0x10001000 = PA2PTE 0x10001000 OR 7 OR PTE_V \<and>
     pt_leaf (mem s') pt 0x1000000 = 0"
proof -
  let ?L = kernel_map
  have "card (space_paths (boot_space ?L)) \<le> 1026"
    by (rule card_space_paths) (auto simp: boot_space_def region_def kernel_map_def split: if_splits)
  then have room: "card (space_paths (boot_space ?L)) < avail ?L (boot_state ?L)" by (simp add: boot_avail)
  have kb: "0x10009000 \<le> kernel_base ?L" by (simp add: kernel_map_def)
  obtain pt s' where p: "paging_init ?L (boot_state ?L) = kret () s'" "csr_satp s' = MAKE_SATP pt"
    "\<forall>va. va < 0x8000000000 \<longrightarrow> pt_leaf (mem s') pt va =
      (if kernel_base ?L \<le> va \<and> va < heap_stop ?L then PA2PTE (page_base va) OR 15 OR PTE_V
       else if 0x10001000 \<le> va \<and> va < 0x10009000 then PA2PTE (page_base va) OR 7 OR PTE_V
       else 0)"
    using paging_init_maps [OF boot_pool layout_ok_kernel_map kb room] by blast
  have b: "kernel_base ?L = 0x80200000" "heap_stop ?L = 0x864cb000" by (simp_all add: kernel_map_def)
  note leaf = p(3) [THEN spec, THEN mp, unfolded b]
  show ?thesis
    using p(1,2) leaf [of "0x80200abc"] leaf [of "0x10001000"] leaf [of "0x1000000"]
    by (intro exI [of _ pt] exI [of _ s']) (simp add: page_base_def)
qed

section \<open>The first program\<close>

lemma callee_loads:
  "fold (\<lambda>k r. r(callee_regs ! k := v k)) [0..<13] r Ra = (v 0 :: u64)"
  by (simp add: callee_regs_def upt_rec)

lemma slots_other:
  assumes "aligned8 a" and "aligned8 b" and "\<And>k. k < n \<Longrightarrow> slot_addr a k \<noteq> b"
  shows "load64 (fold (\<lambda>k m. store64 m (slot_addr a k) (v k)) [0..<n] m) b = load64 m b"
  using assms(3)
  by (induction n) (auto simp: load64_store64_aligned [OF slot_addr_aligned [OF assms(1)] assms(2)])

lemma first_switch_run:
  assumes "current_proc s = Some c" and "c < length (procs s)" and "successor s = Some n" and "n \<noteq> c"
    and "n < length (procs s)" and "g_startup s" and "tf = p_sp (procs s ! n)"
    and "load64 (mem s) tf = sym_user_entry L" and "aligned8 tf" and "aligned8 (r Sp)"
    and "\<forall>k < 13. slot_addr (r Sp - 104) k \<noteq> tf"
  shows "\<exists>t r' u. yield L s = kret (To_context c n) t \<and> first_entry L c n r t = kret r' u \<and>
    csr_sepc u = USER_BASE \<and> current_proc u = Some n \<and> \<not> g_startup u \<and> r' Sp = tf + 104 \<and>
    csr_satp u = SATP_SV39 OR (p_page_table (procs s ! n) div 4096) \<and> csr_sscratch u = tf_stack_top L n \<and>
    p_page_table (procs u ! n) = p_page_table (procs s ! n) \<and> pool_view u = pool_view (s\<lparr>mem := mem u\<rparr>) \<and>
    (\<forall>x. 104 \<le> x - (r Sp - 104) \<longrightarrow> mem u x = mem s x)"
proof -
  let ?w = "wake_up n (wake_down c s)"
  let ?t = "(switch_space L n ?w)\<lparr>g_startup := False\<rparr>"
  have y: "yield L s = kret (To_context c n) ?t"
    using yield_eq [OF assms(1-3), of L] assms(4,6) by (simp add: Let_def)
  have w: "p_sp (procs ?w ! n) = tf" "p_page_table (procs ?w ! n) = p_page_table (procs s ! n)"
    using assms(2,5,7) by (simp_all add: wake_up_at wake_down_at)
  define m where "m = fold (\<lambda>k m. store64 m (slot_addr (r Sp - 13 * 8) k) (r (callee_regs ! k))) [0..<13] (mem s)"
  have "aligned8 (r Sp - 104)" by (rule aligned8_diff [OF assms(10)]) (simp add: aligned8_def)
  then have ra: "load64 m tf = sym_user_entry L"
    using slots_other [OF _ assms(9), of "r Sp - 104" 13 "\<lambda>k. r (callee_regs ! k)" "mem s"] assms(8,11)
    by (simp add: m_def)
  let ?u = "upd_proc c (\<lambda>p. p\<lparr>p_sp := r Sp - 13 * 8\<rparr>) (?t\<lparr>mem := m\<rparr>)"
  let ?r = "(fold (\<lambda>k r. r(callee_regs ! k := load64 m (slot_addr tf k))) [0..<13] r)(Sp := tf + 13 * 8)"
  have "p_sp (procs ?u ! n) = tf"
    using assms(4) w(1) by (simp add: upd_proc_def)
  moreover have "mem ?u = m" by (simp add: upd_proc_def)
  ultimately have sw: "switch_context_sp c n r ?t = (?r, ?u)"
    by (simp only: switch_context_sp_def Let_def m_def) (simp add: upd_proc_def)
  have keep: "m x = mem s x" if "104 \<le> x - (r Sp - 104)" for x
  proof -
    have "fold (\<lambda>k m. store64 m (slot_addr (r Sp - 104) k) (r (callee_regs ! k))) [0..<n] (mem s) x = mem s x"
      if "n \<le> 13" for n
      using that
    proof (induction n)
      case (Suc n)
      have "x - slot_addr a n = x - a - of_nat (8 * n)" for a by (simp add: slot_addr_def)
      note e = this [of "r Sp - 104"]
      have "unat (of_nat (8 * n) :: u64) = 8 * n" using Suc.prems by (intro unat_of_nat_u64) simp
      then have "8 \<le> unat (x - (r Sp - 104) - of_nat (8 * n))"
        using \<open>104 \<le> x - (r Sp - 104)\<close> Suc.prems
        by (subst unat_sub) (simp_all add: word_le_nat_alt del: of_nat_mult)
      then have "8 \<le> x - slot_addr (r Sp - 104) n" unfolding e by (simp add: word_le_nat_alt)
      then show ?case using Suc by (simp add: store64_other)
    qed simp
    from this [of 13] show ?thesis by (simp add: m_def)
  qed
  have "?r Ra = sym_user_entry L" using ra by (simp add: callee_loads slot_addr_def)
  then have fe: "first_entry L c n r ?t = kret ?r (sret (user_entry ?u))"
    by (simp add: first_entry_def sw)
  let ?v = "sret (user_entry ?u)"
  have "procs ?v = procs ?u" "mem ?v = m" "pool_view ?v = pool_view ?u" "csr_sepc ?v = USER_BASE" "current_proc ?v = Some n"
    "\<not> g_startup ?v" "csr_sscratch ?v = tf_stack_top L n"
    "csr_satp ?v = SATP_SV39 OR (p_page_table (procs ?w ! n) div 4096)"
    by (simp_all add: sret_def user_entry_def upd_proc_def switch_space_def pool_view_def)
  moreover have "p_page_table (procs ?u ! n) = p_page_table (procs ?w ! n)" using \<open>n \<noteq> c\<close> by (simp add: upd_proc_def)
  moreover have "pool_view ?u = pool_view (s\<lparr>mem := m\<rparr>)"
    by (simp add: pool_view_def upd_proc_def switch_space_def wake_up_def wake_down_def)
  ultimately show ?thesis
    using y fe keep w(2)
    by (intro exI [of _ ?t] exI [of _ ?r] exI [of _ ?v] conjI) (simp_all only: fun_upd_same mult.commute [of 13 8], simp_all)
qed

text \<open>
  C34: the first switch of the machine. The first \<^verbatim>\<open>yield\<close> of \<^verbatim>\<open>kernel_main\<close> makes the process
  it picks current on its own page table and kernel stack, and control arrives in its user
  program at the load address: the return address on the new stack is \<^verbatim>\<open>user_entry\<close>. The
  program starts with a stack pointer into its own trap frame.
\<close>

theorem first_switch:
  assumes "current_proc s = Some c" and "c < length (procs s)" and "successor s = Some n" and "n \<noteq> c"
    and "n < length (procs s)" and "g_startup s" and "tf = p_sp (procs s ! n)"
    and "load64 (mem s) tf = sym_user_entry L" and "aligned8 tf" and "aligned8 (r Sp)"
    and "\<forall>k < 13. slot_addr (r Sp - 104) k \<noteq> tf"
  shows "\<exists>t r' u. yield L s = kret (To_context c n) t \<and> first_entry L c n r t = kret r' u \<and>
    csr_sepc u = USER_BASE \<and> current_proc u = Some n \<and> \<not> g_startup u \<and> r' Sp = tf + 104 \<and>
    csr_satp u = SATP_SV39 OR (p_page_table (procs s ! n) div 4096) \<and> csr_sscratch u = tf_stack_top L n"
  using first_switch_run [where r = r, OF assms] by blast

text \<open>The shell in slot 2 about to be started, for the witness.\<close>

definition boot_procs :: kstate where
  "boot_procs = user_procs\<lparr>g_startup := True,
     mem := store64 (\<lambda>_. 0) (tf_frame kernel_map 2) (sym_user_entry kernel_map),
     procs := map (\<lambda>p. p\<lparr>p_sp := tf_frame kernel_map 2\<rparr>) (procs user_procs)\<rparr>"

lemma boot_procs_successor: "successor boot_procs = Some 2"
proof -
  have "length (procs user_procs) = PROCS_MAX" using user_procs_in_user by (simp add: in_user_def)
  then have "ready boot_procs i = ready user_procs i" for i
    by (cases "i < PROCS_MAX") (simp_all add: ready_def demoted_def boot_procs_def)
  then have "ready boot_procs = ready user_procs" by (rule ext)
  moreover have "idle_proc boot_procs = idle_proc user_procs" by (simp add: boot_procs_def)
  ultimately show ?thesis using user_procs_successor by (simp only: successor_def)
qed

theorem first_switch_witness:
  "\<exists>t r' u. yield kernel_map boot_procs = kret (To_context 1 2) t \<and>
     first_entry kernel_map 1 2 (\<lambda>_. 0x86000000) t = kret r' u \<and>
     csr_sepc u = 0x1000000 \<and> current_proc u = Some 2"
proof -
  let ?f = "tf_frame kernel_map 2"
  have f: "?f = 0x8044a168 + 17280 + 8016"
    by (simp add: tf_frame_def tf_stack_top_def tf_stack_base_def kernel_map_def)
  have len: "length (procs user_procs) = 8" using user_procs_in_user by (simp add: in_user_def PROCS_MAX_def)
  have s: "current_proc boot_procs = Some 1" "1 < length (procs boot_procs)" "2 < length (procs boot_procs)"
    "g_startup boot_procs" "?f = p_sp (procs boot_procs ! 2)"
    "load64 (mem boot_procs) ?f = sym_user_entry kernel_map"
    using len user_procs_in_user by (simp_all add: boot_procs_def in_user_def)
  have al: "aligned8 ?f" "aligned8 ((\<lambda>_. 0x86000000 :: u64) Sp)" unfolding f by (simp_all add: aligned8_def)
  have "list_all (\<lambda>k. slot_addr ((\<lambda>_. 0x86000000) Sp - 104) k \<noteq> ?f) [0..<13]"
    unfolding f by (simp add: slot_addr_def upt_rec)
  then have ap: "\<forall>k < 13. slot_addr ((\<lambda>_. 0x86000000) Sp - 104) k \<noteq> ?f" by (simp add: list_all_iff)
  have n: "(2 :: nat) \<noteq> 1" by simp
  from first_switch [OF s(1,2) boot_procs_successor n s(3-6) al ap]
  show ?thesis by (auto simp: USER_BASE_def)
qed

end
