(* ===== verification/Kernel_Frame.thy ===== *)
theory Kernel_Frame
  imports Boot
begin

text \<open>
  What the kernel's operations leave alone. Most of them do not touch the process table, the
  current process or the idle process at all, nor the length of the allocation table:
  \<open>core\<close> is that part of the state. The collection \<open>core_simps\<close> says so for the operations
  that always return, \<open>keep_rules\<close> (\<open>kept\<close>) for the ones that may panic. Theory
  \<^verbatim>\<open>Kernel_Inv\<close> builds the invariant of the kernel on it.
\<close>

named_theorems core_simps \<open>operations that leave the process table alone\<close>
named_theorems keep_rules \<open>fallible operations that leave the process table alone\<close>

section \<open>The process table and what goes with it\<close>

definition core :: "kstate \<Rightarrow> proc_t list \<times> nat option \<times> nat option \<times> nat" where
  "core s = (procs s, current_proc s, idle_proc s, length (alloc_table s))"

lemma coreD:
  assumes "core t = core s"
  shows "procs t = procs s" and "current_proc t = current_proc s" and "idle_proc t = idle_proc s"
    and "length (alloc_table t) = length (alloc_table s)"
  using assms by (simp_all add: core_def)

lemma core_update [core_simps]:
  "core (s\<lparr>mem := m\<rparr>) = core s" "core (s\<lparr>free_list := a\<rparr>) = core s"
  "core (s\<lparr>next_paddr := a\<rparr>) = core s" "core (s\<lparr>g_free_pages := a\<rparr>) = core s"
  "core (s\<lparr>alloc_table_count := a\<rparr>) = core s" "core (s\<lparr>process_count := n\<rparr>) = core s"
  "core (s\<lparr>kernel_pagetable := a\<rparr>) = core s" "core (s\<lparr>g_total_pages := a\<rparr>) = core s"
  "core (s\<lparr>g_startup := b\<rparr>) = core s" "core (s\<lparr>g_user_stack_top := a\<rparr>) = core s"
  "core (s\<lparr>g_user_stack_bottom := a\<rparr>) = core s" "core (s\<lparr>g_user_heap_start := a\<rparr>) = core s"
  "core (s\<lparr>g_user_heap_end := a\<rparr>) = core s" "core (s\<lparr>csr_satp := a\<rparr>) = core s"
  "core (s\<lparr>csr_sscratch := a\<rparr>) = core s" "core (s\<lparr>csr_sstatus := a\<rparr>) = core s"
  "core (s\<lparr>csr_sepc := a\<rparr>) = core s" "core (s\<lparr>csr_sie := a\<rparr>) = core s"
  "core (s\<lparr>csr_time := a\<rparr>) = core s" "core (s\<lparr>stimer := a\<rparr>) = core s"
  "core (s\<lparr>uart_out := o'\<rparr>) = core s" "core (s\<lparr>uart_in := cs\<rparr>) = core s"
  "core (s\<lparr>alloc_table := (alloc_table s)[i := e]\<rparr>) = core s"
  by (simp_all add: core_def)

lemma core_fold [core_simps]:
  assumes "\<And>x t. core (f x t) = core t"
  shows "core (fold f xs s) = core s"
  by (induction xs arbitrary: s) (simp_all add: assms)

lemma core_tracker [core_simps]:
  "core (track_alloc pa n owner tag s) = core s" "core (track_free pa n s) = core s"
  by (simp_all add: core_def track_alloc_def track_free_def split: option.split)

lemma core_ops [core_simps]:
  "core (free_page pa s) = core s" "core (free_pages_range pa n s) = core s"
  "core (pte_write t i e s) = core s" "core (tf_set tf off v s) = core s"
  "core (set_active_pagetable pt s) = core s" "core (restore_pagetable pt s) = core s"
  "core (snd (switch_pagetable pt s)) = core s"
  "core (enable_sum s) = core s" "core (disable_sum s) = core s"
  "core (enable_interrupts s) = core s" "core (disable_interrupts s) = core s"
  "core (enable_supervisor_timer_interrupts s) = core s"
  "core (uart_putc c s) = core s" "core (set_frame_reg f r v s) = core s"
  "core (sbi_set_timer t s) = core s" "core (take_trap pc s) = core s" "core (sret s) = core s"
  by (simp_all add: free_page_def free_pages_range_def pte_write_def tf_set_def
      set_active_pagetable_def restore_pagetable_def switch_pagetable_def enable_sum_def
      disable_sum_def enable_interrupts_def disable_interrupts_def
      enable_supervisor_timer_interrupts_def uart_putc_def set_frame_reg_def sbi_set_timer_def
      take_trap_def sret_def Let_def core_simps)

lemma core_uart [core_simps]: "core (uart_puts bs s) = core s"
  by (simp add: uart_puts_def core_simps)

lemma core_putpad [core_simps]:
  "core (uart_putpad v b w z sg s) = core s" "core (uart_puthex v w s) = core s" "core (uart_cls s) = core s"
  by (simp_all add: uart_putpad_def uart_puthex_def uart_cls_def Let_def core_simps)

lemma core_sweep [core_simps]: "core (free_all_tracked_for_pid pid s) = core s"
proof -
  have "core (sweep_entry pid i t) = core t" for i t by (simp add: sweep_entry_def Let_def core_simps)
  then show ?thesis by (simp add: free_all_tracked_for_pid_def core_simps)
qed

lemma core_kernel [core_simps]:
  "core (sys_ps s) = core s" "core (ram_init L s) = core s" "core (timer_init s) = core s"
  "core (rearm_timer s) = core s" "core (fork_frames tf ptf pid s) = core s"
  "core (snd (trap_save r s)) = core s"
  by (simp_all add: sys_ps_def ps_line_def ram_init_def timer_init_def rearm_timer_def
      fork_frames_def trap_save_def switch_pagetable_def Let_def core_simps)

section \<open>Operations that may panic\<close>

definition kept where
  "kept k r \<longleftrightarrow> (\<forall>x t. r = Inr (x, t) \<longrightarrow> core t = k)"

lemma kept_simps [simp]:
  "kept k (Inl e)" "kept k (Inr (x, t)) \<longleftrightarrow> core t = k"
  by (auto simp: kept_def)

lemma keptD: "kept k r \<Longrightarrow> r = Inr (x, t) \<Longrightarrow> core t = k"
  by (simp add: kept_def)

lemma kept_bind [intro!]:
  assumes "kept k m" and "\<And>x s. core s = k \<Longrightarrow> kept k (f x s)"
  shows "kept k (kbind m f)"
  using assms by (cases m) (auto simp: kept_def kbind_eq_Inr)

lemma kept_fbind [intro!]:
  assumes "kept k m" and "\<And>x s. core s = k \<Longrightarrow> kept k (f x s)"
  shows "kept k (fbind m f)"
  using assms by (auto simp: kept_def fbind_eq_Inr)

lemma kept_flift [intro!]: "kept k m \<Longrightarrow> kept k (flift m)"
  by (auto simp: kept_def flift_eq_Inr)

lemma kept_if [intro!]: "(b \<Longrightarrow> kept k m) \<Longrightarrow> (\<not> b \<Longrightarrow> kept k m') \<Longrightarrow> kept k (if b then m else m')"
  by simp

lemma kept_for_pages [intro!]:
  assumes "core s = k" and "\<And>a s. core s = k \<Longrightarrow> kept k (body a s)"
  shows "kept k (for_pages c body a s)"
proof -
  have "core s' = k" if "for_pages c body a s = Inr ((), s')" for s'
    using for_pages_rule [where I = "\<lambda>_ s. core s = k", OF _ that] assms by (auto simp: kept_def)
  then show ?thesis by (simp add: kept_def)
qed

lemma kept_k_for [intro!]:
  assumes "core s = k" and "\<And>i s. core s = k \<Longrightarrow> kept k (body i s)"
  shows "kept k (k_for i n body s)"
  using assms(1)
proof (induction n arbitrary: i s)
  case (Suc n)
  show ?case unfolding k_for.simps by (rule kept_bind, rule assms(2), rule Suc.prems, rule Suc.IH)
qed simp

lemma kept_alloc_pages [keep_rules]: "core s = k \<Longrightarrow> kept k (alloc_pages L n s)"
  by (simp add: alloc_pages_def alloc_free_list_def Let_def core_simps)

lemma kept_map_level [keep_rules]: "core s = k \<Longrightarrow> kept k (map_level L pt vpn s)"
  by (auto simp: map_level_def Let_def core_simps intro!: keep_rules)

lemma kept_map_page [keep_rules]: "core s = k \<Longrightarrow> kept k (map_page L pt va pa fl s)"
  by (auto simp: map_page_def Let_def core_simps intro!: keep_rules)

lemma kept_unmap_page [keep_rules]: "core s = k \<Longrightarrow> kept k (unmap_page pt va s)"
  by (auto simp: unmap_page_def Let_def core_simps intro!: keep_rules)

lemma kept_walk_levels [keep_rules]: "core s = k \<Longrightarrow> kept k (walk_levels L pt va al l s)"
  by (induction l arbitrary: pt s) (auto simp: Let_def core_simps intro!: keep_rules)

lemma kept_walkaddr [keep_rules]: "core s = k \<Longrightarrow> kept k (walkaddr L pt va s)"
  by (auto simp: walkaddr_def walk_def Let_def core_simps intro!: keep_rules)

lemma kept_copy_to_user [keep_rules]: "core s = k \<Longrightarrow> kept k (copy_to_user L pt va bs s)"
  by (induction bs arbitrary: va s) (auto simp: core_simps intro!: keep_rules)

lemma kept_fold:
  assumes "kept k r" and "\<And>i s. core s = k \<Longrightarrow> kept k (f i s)"
  shows "kept k (fold (\<lambda>i r. kbind r (\<lambda>_. f i)) xs r)"
  using assms(1)
proof (induction xs arbitrary: r)
  case (Cons i xs)
  show ?case unfolding fold.simps o_apply by (rule Cons.IH, rule kept_bind, rule Cons.prems, rule assms(2))
qed simp

lemma kept_free_pagetable [keep_rules]: "core s = k \<Longrightarrow> kept k (free_pagetable n pt l s)"
proof (induction n arbitrary: pt l s)
  case (Suc n)
  show ?case unfolding free_pagetable.simps
    by (rule kept_fold) (use Suc in \<open>auto simp: Let_def core_simps\<close>)
qed simp

lemma kept_map_kernel [keep_rules]: "core s = k \<Longrightarrow> kept k (map_kernel L pt s)"
  by (auto simp: map_kernel_def intro!: keep_rules)

lemma kept_fork_page [keep_rules]: "core s = k \<Longrightarrow> kept k (fork_page L ppt pt va s)"
  by (auto simp: fork_page_def Let_def core_simps intro!: keep_rules)

lemma kept_build_user_space [keep_rules]: "core s = k \<Longrightarrow> kept k (build_user_space L pt fl n s)"
  by (auto simp: build_user_space_def load_image_def load_page_def map_stack_def map_heap_def
      Let_def core_simps intro!: keep_rules)

lemma kept_free_leaf [keep_rules]: "core s = k \<Longrightarrow> kept k (free_leaf root va s)"
  by (auto simp: free_leaf_def Let_def core_simps intro!: keep_rules)

lemma kept_user_access [keep_rules]:
  "core s = k \<Longrightarrow> kept k (user_load va s)" "core s = k \<Longrightarrow> kept k (user_store va b s)"
  by (auto simp: user_load_def user_store_def core_simps split: option.split)

lemma kept_user_copy [keep_rules]:
  "core s = k \<Longrightarrow> kept k (user_read va n s)" "core s = k \<Longrightarrow> kept k (user_write va bs s)"
  "core s = k \<Longrightarrow> kept k (user_strncpy va n s)"
proof -
  show "core s = k \<Longrightarrow> kept k (user_read va n s)"
    by (induction n arbitrary: va s) (auto intro!: keep_rules)
  show "core s = k \<Longrightarrow> kept k (user_write va bs s)"
    by (induction bs arbitrary: va s) (auto intro!: keep_rules)
  show "core s = k \<Longrightarrow> kept k (user_strncpy va n s)"
    by (induction n arbitrary: va s) (auto intro!: keep_rules)
qed

lemma kept_user_load64 [keep_rules]: "core s = k \<Longrightarrow> kept k (user_load64 va s)"
  by (auto simp: user_load64_def intro!: keep_rules)

lemma kept_copy_argv [keep_rules]: "core s = k \<Longrightarrow> kept k (copy_argv buf argv n s)"
  by (auto simp: copy_argv_def core_simps intro!: keep_rules)

lemma kept_push_args [keep_rules]: "core s = k \<Longrightarrow> kept k (push_args buf n sp ps s)"
  by (induction n arbitrary: sp ps s) (auto simp: Let_def core_simps intro!: keep_rules)

lemma kept_setup_user_arguments [keep_rules]: "core s = k \<Longrightarrow> kept k (setup_user_arguments buf n sp s)"
  by (auto simp: setup_user_arguments_def Let_def core_simps intro!: keep_rules)

lemma kept_set_user_globals [keep_rules]: "core s = k \<Longrightarrow> kept k (set_user_globals elf s)"
proof -
  have "core s = k \<Longrightarrow> kept k (get_symbol_address elf nm s)" for nm s
    by (simp add: get_symbol_address_def Let_def split: prod.split option.split)
  then show "core s = k \<Longrightarrow> kept k (set_user_globals elf s)"
    by (auto simp: set_user_globals_def core_simps)
qed

lemma kept_sbrk_loop [keep_rules]: "core s = k \<Longrightarrow> kept k (sbrk_loop L pt hi a s)"
proof (induction L pt hi a s rule: sbrk_loop.induct)
  case (1 L pt hi a s)
  show ?case unfolding sbrk_loop.simps [of L pt hi a s]
    using 1 by (auto intro!: keep_rules)
qed

lemma kept_write_loop [keep_rules]: "core s = k \<Longrightarrow> kept k (write_loop buf n s)"
  by (induction n arbitrary: buf s) (auto simp: core_simps intro!: keep_rules)

lemma kept_user_strcmp: "core s = k \<Longrightarrow> user_strcmp p q s = Some r \<Longrightarrow> kept k r"
proof -
  have "core s = k \<longrightarrow> kept k r" if "user_strcmp p q s = Some r" for r
  proof (rule user_strcmp.raw_induct [OF _ that, where P = "\<lambda>p q s r. core s = k \<longrightarrow> kept k r"])
    fix f :: "u64 \<Rightarrow> u64 \<Rightarrow> kstate \<Rightarrow> (int, kstate) kres option" and p q s r
    assume ih: "\<And>p q s r. f p q s = Some r \<Longrightarrow> core s = k \<longrightarrow> kept k r"
      and eq: "(case user_load q s of
        Inl e \<Rightarrow> Some (Inl e)
      | Inr (c, s) \<Rightarrow>
          if mem s p \<noteq> 0 \<and> mem s p = c then f (p + 1) (q + 1) s
          else Some (kret (uint (mem s p) - uint c) s)) = Some r"
    show "core s = k \<longrightarrow> kept k r"
      using eq kept_user_access(1) [of s k q] ih
      by (auto split: sum.splits if_splits)
  qed
  then show "core s = k \<Longrightarrow> user_strcmp p q s = Some r \<Longrightarrow> kept k r" by blast
qed

lemma kept_user_puts: "core s = k \<Longrightarrow> user_puts p s = Some r \<Longrightarrow> kept k r"
proof -
  have "core s = k \<longrightarrow> kept k r" if "user_puts p s = Some r" for r
  proof (rule user_puts.raw_induct [OF _ that, where P = "\<lambda>p s r. core s = k \<longrightarrow> kept k r"])
    fix f :: "u64 \<Rightarrow> kstate \<Rightarrow> (unit, kstate) kres option" and p s r
    assume ih: "\<And>p s r. f p s = Some r \<Longrightarrow> core s = k \<longrightarrow> kept k r"
      and eq: "(case user_load p s of
        Inl e \<Rightarrow> Some (Inl e)
      | Inr (c, s) \<Rightarrow> if c = 0 then Some (kret () s) else f (p + 1) (uart_putc c s)) = Some r"
    show "core s = k \<longrightarrow> kept k r"
      using eq kept_user_access(1) [of s k p] ih
      by (auto simp: core_simps split: sum.splits if_splits)
  qed
  then show "core s = k \<Longrightarrow> user_puts p s = Some r \<Longrightarrow> kept k r" by blast
qed

lemma kept_user_print [keep_rules]: "core s = k \<Longrightarrow> kept k (user_print p s)"
  using kept_user_puts [of s k p] by (auto simp: user_print_def core_simps split: option.split)

lemma kept_user_tarfs_lookup [keep_rules]: "core s = k \<Longrightarrow> kept k (user_tarfs_lookup L p s)"
proof -
  have loop: "core s = k \<longrightarrow> kept k r" if "user_tar_loop stop p q s = Some r" for stop q r s
  proof (rule user_tar_loop.raw_induct [OF _ that, where P = "\<lambda>stop p q s r. core s = k \<longrightarrow> kept k r"])
    fix f :: "u64 \<Rightarrow> u64 \<Rightarrow> u64 \<Rightarrow> kstate \<Rightarrow> (u64 \<times> u64, kstate) kres option" and stop p q s r
    assume ih: "\<And>stop p q s r. f stop p q s = Some r \<Longrightarrow> core s = k \<longrightarrow> kept k r"
      and eq: "(if \<not> q < stop then Some (kret (0, 0) s)
        else if mem s q = 0 then Some (kret (0, 0) s)
        else do {
          r \<leftarrow> user_strcmp q p s;
          (case r of
             Inl e \<Rightarrow> Some (Inl e)
           | Inr (c, s) \<Rightarrow>
               if c = 0 then Some (kret (q + TAR_BLOCK_SIZE, tar_size (mem s) q) s)
               else f stop p (tar_next (mem s) q) s)
        }) = Some r"
    show "core s = k \<longrightarrow> kept k r"
    proof
      assume s: "core s = k"
      show "kept k r"
      proof (cases "user_strcmp q p s")
        case None
        then show ?thesis using eq s by (auto split: if_splits)
      next
        case (Some y)
        from kept_user_strcmp [OF s this] have y: "kept k y" .
        then show ?thesis using eq s Some ih by (cases y) (auto split: if_splits)
      qed
    qed
  qed
  then show "core s = k \<Longrightarrow> kept k (user_tarfs_lookup L p s)"
    by (auto simp: user_tarfs_lookup_def split: option.split)
qed

lemma kept_sys_tarfs_exists [keep_rules]: "core s = k \<Longrightarrow> kept k (sys_tarfs_exists L p s)"
  by (auto simp: sys_tarfs_exists_def core_simps intro!: keep_rules)

lemma kept_sys_log [keep_rules]: "core s = k \<Longrightarrow> kept k (sys_log p s)"
  by (auto simp: sys_log_def switch_pagetable_def Let_def core_simps intro!: keep_rules split: option.split)

lemma kept_sys_time [keep_rules]: "core s = k \<Longrightarrow> kept k (sys_time L a s)"
  by (auto simp: sys_time_def Let_def core_simps intro!: keep_rules split: option.split)

lemma kept_sys_sysinfo [keep_rules]: "core s = k \<Longrightarrow> kept k (sys_sysinfo L a s)"
  by (auto simp: sys_sysinfo_def Let_def core_simps intro!: keep_rules split: option.split)

lemma kept_sys_write [keep_rules]: "core s = k \<Longrightarrow> kept k (sys_write fd b n s)"
  by (auto simp: sys_write_def Let_def core_simps intro!: keep_rules)

lemma core_printf_spec:
  assumes "printf_spec m c z w l args s = Some (args', s')"
  shows "core s' = core s"
  using assms by (auto simp: printf_spec_def core_simps split: if_splits list.splits bind_splits)

lemma core_printf_loop: "printf_loop m fmt args s = Some s' \<Longrightarrow> core s' = core s"
proof (induction "length fmt" arbitrary: fmt args s rule: less_induct)
  case less
  note ih = less.hyps
  from less.prems show ?case
    by (subst (asm) printf_loop.simps)
      (auto split: list.splits if_splits prod.splits option.splits simp: core_simps
        dest!: core_printf_spec ih [rotated] length_parse_spec)
qed

lemma core_sys_ls: "sys_ls L s = Some s' \<Longrightarrow> core s' = core s"
proof -
  have loop: "core s' = core s" if "ls_loop stop p s = Some s'" for stop p s s'
  proof (rule ls_loop.raw_induct [OF _ that, where P = "\<lambda>stop p s s'. core s' = core s"])
    fix f :: "u64 \<Rightarrow> u64 \<Rightarrow> kstate \<Rightarrow> kstate option" and stop p s s'
    assume ih: "\<And>stop p s s'. f stop p s = Some s' \<Longrightarrow> core s' = core s"
      and eq: "(if \<not> p < stop then Some s
        else if mem s p = 0 then Some s
        else do {
          s \<leftarrow> uart_printf (bytes_of ''  %s'' @ [10]) [p] s;
          f stop (tar_next (mem s) p) s
        }) = Some s'"
    show "core s' = core s"
      using eq by (auto split: if_splits simp: Option.bind_eq_Some_conv uart_printf_def
          dest!: ih core_printf_loop)
  qed
  assume "sys_ls L s = Some s'"
  then show ?thesis by (auto simp: sys_ls_def core_simps dest!: loop)
qed

end
