(* ===== verification/Kernel_Inv.thy ===== *)
theory Kernel_Inv
  imports Kernel_Frame
begin

text \<open>
  The well-formedness of the kernel's globals, and that the scheduler and the operations on
  processes keep it. Theory \<^verbatim>\<open>Kernel_Runs\<close> goes on to the system calls and the traps.
\<close>

section \<open>The invariant\<close>

text \<open>
  Slot \<open>i\<close> of the process table: the arrays of the PCB have their C lengths, the inbox does
  not claim more bytes than it has, nobody is its own parent, a slot in use has the pid of
  the slot (the idle process has pid 0 and no parent), only the current process is
  \<open>PROC_RUNNING\<close>, and no process is ever \<open>PROC_WAITING\<close>.
\<close>

definition proc_ok :: "nat option \<Rightarrow> nat option \<Rightarrow> nat \<Rightarrow> proc_t \<Rightarrow> bool" where
  "proc_ok cur idle i p \<longleftrightarrow>
     length (p_name p) = 64 \<and> length (im_data (p_inbox p)) = 256 \<and> im_size (p_inbox p) \<le> 256 \<and>
     p_parent p \<noteq> Some i \<and> p_state p \<noteq> PROC_WAITING \<and>
     (p_state p = PROC_RUNNING \<longrightarrow> cur = Some i) \<and>
     (p_state p \<noteq> PROC_UNUSED \<longrightarrow> p_pid p = (if idle = Some i then 0 else int i + 1)) \<and>
     (idle = Some i \<longrightarrow> p_state p \<noteq> PROC_UNUSED \<and> p_parent p = None)"

definition slot_in_use :: "proc_t list \<Rightarrow> nat option \<Rightarrow> bool" where
  "slot_in_use ps oi \<longleftrightarrow>
     (case oi of None \<Rightarrow> True | Some i \<Rightarrow> i < length ps \<and> p_state (ps ! i) \<noteq> PROC_UNUSED)"

definition core_ok where
  "core_ok k \<longleftrightarrow> (case k of (ps, cur, idle, n) \<Rightarrow>
     length ps = PROCS_MAX \<and> n = MAX_TRACKED_ALLOCS \<and> slot_in_use ps cur \<and> slot_in_use ps idle \<and>
     (\<forall>i < PROCS_MAX. proc_ok cur idle i (ps ! i)))"

definition kernel_ok :: "kstate \<Rightarrow> bool" where
  "kernel_ok s \<longleftrightarrow> core_ok (core s)"

lemma kernel_ok_iff:
  "kernel_ok s \<longleftrightarrow>
     length (procs s) = PROCS_MAX \<and> length (alloc_table s) = MAX_TRACKED_ALLOCS \<and>
     slot_in_use (procs s) (current_proc s) \<and> slot_in_use (procs s) (idle_proc s) \<and>
     (\<forall>i < PROCS_MAX. proc_ok (current_proc s) (idle_proc s) i (procs s ! i))"
  by (simp add: kernel_ok_def core_ok_def core_def)

lemma kernel_ok_cong: "core t = core s \<Longrightarrow> kernel_ok t \<longleftrightarrow> kernel_ok s"
  by (simp add: kernel_ok_def)

lemmas kernel_ok_ops = core_simps [THEN kernel_ok_cong]

lemma kernel_okD:
  assumes "kernel_ok s"
  shows "length (procs s) = PROCS_MAX" and "length (alloc_table s) = MAX_TRACKED_ALLOCS"
    and "current_proc s = Some c \<Longrightarrow> c < PROCS_MAX \<and> p_state (procs s ! c) \<noteq> PROC_UNUSED"
    and "idle_proc s = Some c \<Longrightarrow> c < PROCS_MAX \<and> p_state (procs s ! c) \<noteq> PROC_UNUSED"
    and "i < PROCS_MAX \<Longrightarrow> proc_ok (current_proc s) (idle_proc s) i (procs s ! i)"
  using assms by (auto simp: kernel_ok_iff slot_in_use_def split: option.splits)

text \<open>An update of one slot, and the three steps that also change \<^verbatim>\<open>current_proc\<close> or \<^verbatim>\<open>idle_proc\<close>.\<close>

lemma kernel_ok_update:
  assumes "kernel_ok s" and "procs t = (procs s)[i := p]" and "i < PROCS_MAX"
    and "current_proc t = current_proc s" and "idle_proc t = idle_proc s"
    and "length (alloc_table t) = length (alloc_table s)"
    and "proc_ok (current_proc s) (idle_proc s) i p"
    and "p_state p = PROC_UNUSED \<Longrightarrow> p_state (procs s ! i) = PROC_UNUSED \<or> current_proc s \<noteq> Some i"
  shows "kernel_ok t"
proof -
  have l: "length (procs s) = PROCS_MAX" using assms(1) by (rule kernel_okD)
  have ok: "proc_ok (current_proc t) (idle_proc t) j (procs t ! j)" if "j < PROCS_MAX" for j
    using assms that l kernel_okD(5) [OF assms(1) that] by (cases "j = i") simp_all
  have "slot_in_use (procs t) (current_proc t)"
    using assms l by (auto simp: kernel_ok_iff slot_in_use_def nth_list_update split: option.splits)
  moreover have "slot_in_use (procs t) (idle_proc t)"
    using assms l by (auto simp: kernel_ok_iff slot_in_use_def nth_list_update proc_ok_def split: option.splits)
  ultimately show ?thesis using ok assms l by (simp add: kernel_ok_iff)
qed

text \<open>The same for an update that keeps the pid, the state and the parent of the process.\<close>

lemma kernel_ok_upd_proc:
  assumes "kernel_ok s"
    and "p_state (f p) = p_state p" and "p_pid (f p) = p_pid p" and "p_parent (f p) = p_parent p"
    and "length (p_name p) = 64 \<Longrightarrow> length (p_name (f p)) = 64"
    and "length (im_data (p_inbox p)) = 256 \<Longrightarrow> im_size (p_inbox p) \<le> 256 \<Longrightarrow>
      length (im_data (p_inbox (f p))) = 256 \<and> im_size (p_inbox (f p)) \<le> 256"
    and "p = procs s ! i"
  shows "kernel_ok (upd_proc i f s)"
proof (cases "i < PROCS_MAX")
  case True
  show ?thesis
  proof (rule kernel_ok_update [OF assms(1) _ True])
    show "procs (upd_proc i f s) = (procs s)[i := f p]" using assms by (simp add: upd_proc_def)
    show "current_proc (upd_proc i f s) = current_proc s" "idle_proc (upd_proc i f s) = idle_proc s"
      "length (alloc_table (upd_proc i f s)) = length (alloc_table s)" by (simp_all add: upd_proc_def)
    show "proc_ok (current_proc s) (idle_proc s) i (f p)"
      using kernel_okD(5) [OF assms(1) True] assms unfolding proc_ok_def by simp
    show "p_state (f p) = PROC_UNUSED \<Longrightarrow> p_state (procs s ! i) = PROC_UNUSED \<or> current_proc s \<noteq> Some i"
      using assms by simp
  qed
next
  case False
  then show ?thesis using assms(1) kernel_okD(1) [OF assms(1)]
    by (simp add: upd_proc_def list_update_beyond)
qed

section \<open>Sound operations\<close>

text \<open>\<open>ends I r\<close>: if the operation returns, then in a state with \<open>I\<close>.\<close>

definition ends where
  "ends I r \<longleftrightarrow> (\<forall>x t. r = Inr (x, t) \<longrightarrow> I t)"

abbreviation sound where
  "sound r \<equiv> ends kernel_ok r"

lemma ends_simps [simp]:
  "ends I (Inl e)" "ends I (Inr (x, t)) \<longleftrightarrow> I t"
  by (auto simp: ends_def)

lemma ends_if: "ends I x \<Longrightarrow> ends I y \<Longrightarrow> ends I (if b then x else y)"
  by simp

lemma ends_weaken: "ends I r \<Longrightarrow> (\<And>t. I t \<Longrightarrow> J t) \<Longrightarrow> ends J r"
  by (auto simp: ends_def)

lemma ends_bind:
  assumes "ends I m" and "\<And>x s. I s \<Longrightarrow> ends J (f x s)"
  shows "ends J (kbind m f)"
  using assms by (cases m) (auto simp: ends_def kbind_eq_Inr)

lemma ends_kept_bind:
  assumes "kept (core s) m" and "\<And>x t. core t = core s \<Longrightarrow> ends J (f x t)"
  shows "ends J (kbind m f)"
  using assms by (auto simp: ends_def kept_def kbind_eq_Inr)

lemma ends_core_bind:
  assumes "kept k m" and "\<And>x t. core t = k \<Longrightarrow> ends J (f x t)"
  shows "ends J (kbind m f)"
  using assms by (auto simp: ends_def kept_def kbind_eq_Inr)

lemma sound_kept: "kept (core s) r \<Longrightarrow> kernel_ok s \<Longrightarrow> sound r"
  by (auto simp: ends_def kept_def kernel_ok_def)

lemma sound_fbind:
  assumes "sound m" and "\<And>x s. kernel_ok s \<Longrightarrow> sound (f x s)"
  shows "sound (fbind m f)"
  using assms by (auto simp: ends_def fbind_eq_Inr)

lemma ends_flift: "ends I m \<Longrightarrow> ends I (flift m)"
  by (auto simp: ends_def flift_eq_Inr)

section \<open>The scheduler\<close>

lemma kernel_ok_wake_down:
  assumes "kernel_ok s" and "current_proc s = Some c"
  shows "kernel_ok (wake_down c s)"
proof (cases "p_state (procs s ! c) = PROC_RUNNING")
  case True
  have c: "c < PROCS_MAX" using kernel_okD(3) [OF assms] by simp
  have "proc_ok (current_proc s) (idle_proc s) c ((procs s ! c)\<lparr>p_state := PROC_RUNNABLE\<rparr>)"
    using kernel_okD(5) [OF assms(1) c] True by (simp add: proc_ok_def)
  then show ?thesis
    by (intro kernel_ok_update [OF assms(1) _ c, where p = "(procs s ! c)\<lparr>p_state := PROC_RUNNABLE\<rparr>"])
      (simp_all add: wake_down_def upd_proc_def True)
qed (simp add: wake_down_def assms)

text \<open>The switch to process \<open>n\<close>, once the current process is not running any more.\<close>

lemma kernel_ok_switch:
  assumes "kernel_ok s" and "current_proc s = Some c" and "p_state (procs s ! c) \<noteq> PROC_RUNNING"
    and "n < PROCS_MAX" and "p_state (procs s ! n) \<noteq> PROC_UNUSED"
  shows "kernel_ok (switch_space L n (wake_up n s))"
proof -
  have l: "length (procs s) = PROCS_MAX" using assms(1) by (rule kernel_okD)
  have p: "proc_ok (Some n) (idle_proc s) i (procs (wake_up n s) ! i)" if i: "i < PROCS_MAX" for i
  proof -
    have "p_state (procs s ! i) \<noteq> PROC_RUNNING"
      using kernel_okD(5) [OF assms(1) i] assms(2,3) by (auto simp: proc_ok_def)
    then show ?thesis
      using kernel_okD(5) [OF assms(1) i] l i assms(4) by (auto simp: proc_ok_def wake_up_at)
  qed
  have st: "p_state (procs (wake_up n s) ! i) \<noteq> PROC_UNUSED"
    if "p_state (procs s ! i) \<noteq> PROC_UNUSED" for i
    using that l assms(4) by (simp add: wake_up_at)
  have u: "slot_in_use (procs (wake_up n s)) (Some n)"
    using st [OF assms(5)] assms(4) l by (simp add: slot_in_use_def)
  moreover have "slot_in_use (procs (wake_up n s)) (idle_proc s)"
    using kernel_okD(4) [OF assms(1)] st l by (auto simp: slot_in_use_def split: option.split)
  moreover have "length (alloc_table (switch_space L n (wake_up n s))) = MAX_TRACKED_ALLOCS"
    using kernel_okD(2) [OF assms(1)] by (simp add: switch_space_def wake_up_def upd_proc_def)
  ultimately show ?thesis using p l by (simp add: kernel_ok_iff)
qed

lemma sound_yield:
  assumes ok: "kernel_ok s"
  shows "sound (yield L s)"
proof (cases "current_proc s")
  case (Some c)
  let ?s = "wake_down c s"
  have w: "kernel_ok ?s" by (rule kernel_ok_wake_down [OF ok Some])
  have c: "c < length (procs s)" using kernel_okD(1) [OF ok] kernel_okD(3) [OF ok Some] by simp
  have nr: "p_state (procs ?s ! c) \<noteq> PROC_RUNNING" using c by (simp add: wake_down_at)
  have sw: "kernel_ok (switch_space L n (wake_up n ?s))"
    if "(case yield_search ?s of None \<Rightarrow> idle_proc ?s | Some i \<Rightarrow> Some i) = Some n" for n
  proof -
    have "n < PROCS_MAX \<and> p_state (procs ?s ! n) \<noteq> PROC_UNUSED"
    proof (cases "yield_search ?s")
      case None
      then show ?thesis using that kernel_okD(4) [OF w, of n] by simp
    next
      case (Some i)
      then have "n = i" using that by simp
      then show ?thesis using Some
        by (auto simp: yield_search_def find_Some_iff yield_candidate_def PROCS_MAX_def)
    qed
    then show ?thesis using Some nr by (intro kernel_ok_switch [OF w]) auto
  qed
  have g: "kernel_ok (t\<lparr>g_startup := False\<rparr>) = kernel_ok t" for t
    by (rule kernel_ok_cong) (simp add: core_simps)
  show ?thesis using w sw
    by (auto simp: yield_def Some Let_def wake_down_idem [OF c] g split: option.split)
qed (simp add: yield_def)

lemma yield_returns:
  assumes "yield L s = Inr (Ret x, t)"
  shows "current_proc t = current_proc s"
  using assms by (auto simp: yield_def Let_def split: option.splits if_splits)

section \<open>Processes\<close>

text \<open>A process begins in a slot that was free: neither the current nor the idle process.\<close>

lemma free_slot:
  assumes "kernel_ok s" and "p_state (procs s ! i) = PROC_UNUSED"
  shows "current_proc s \<noteq> Some i" and "idle_proc s \<noteq> Some i"
  using kernel_okD(3,4) [OF assms(1), of i] assms(2) by auto

lemma kernel_ok_start:
  assumes "kernel_ok s" and "i < PROCS_MAX" and "p_state (procs s ! i) = PROC_UNUSED"
    and "procs t = (procs s)[i := p]" and "core (t\<lparr>procs := procs s\<rparr>) = core s"
    and "proc_ok None None i p" and "p_state p \<noteq> PROC_RUNNING" 
  shows "kernel_ok t"
proof -
  have same: "current_proc t = current_proc s" "idle_proc t = idle_proc s"
    "length (alloc_table t) = length (alloc_table s)"
    using coreD [OF assms(5)] by simp_all
  have "proc_ok (current_proc s) (idle_proc s) i p"
    using assms(6,7) free_slot [OF assms(1,3)] by (simp add: proc_ok_def)
  then show ?thesis
    by (rule kernel_ok_update [OF assms(1,4,2) same]) (use assms(3) in simp)
qed

lemma create_init_process_sound:
  assumes ok: "kernel_ok s"
  shows "ends (\<lambda>t. kernel_ok t \<and> current_proc t = current_proc s \<and> idle_proc t = idle_proc s)
    (create_init_process L fi n s)"
proof (cases "first_index (\<lambda>p. p_state p = PROC_UNUSED) (procs s)")
  case (Some i)
  have i: "i < PROCS_MAX" "p_state (procs s ! i) = PROC_UNUSED"
    using first_index_SomeD [OF Some] kernel_okD(1) [OF ok] by simp_all
  note free = free_slot [OF ok i(2)]
  have l: "length (procs s) = PROCS_MAX" using ok by (rule kernel_okD)
  let ?p = "procs s ! i"
  have p: "length (p_name ?p) = 64" "length (im_data (p_inbox ?p)) = 256" "im_size (p_inbox ?p) \<le> 256"
    "p_parent ?p \<noteq> Some i"
    using kernel_okD(5) [OF ok i(1)] by (simp_all add: proc_ok_def)
  have step: "ends (\<lambda>t. kernel_ok t \<and> current_proc t = current_proc s \<and> idle_proc t = idle_proc s)
      (kbind (alloc_pages L 1 t) (\<lambda>pt t.
        (let t = upd_proc i (\<lambda>p. p\<lparr>p_page_table := pt\<rparr>) t in
         kbind (build_user_space L pt fi n t) (\<lambda>_ s.
           kret i (upd_proc i (\<lambda>p. p\<lparr>p_pid := 1 + int i, p_state := PROC_RUNNABLE,
             p_heap_end := g_user_heap_start s + 4096, p_user_stack_top := g_user_stack_top s,
             p_entry_point := USER_BASE, p_image_pa := fi, p_image_npages := image_pages n\<rparr>) s)))))"
    if q: "procs t = (procs s)[i := q]" "p_name q = p_name ?p" "p_inbox q = p_inbox ?p" "p_parent q \<noteq> Some i"
      and t: "core (t\<lparr>procs := procs s\<rparr>) = core s" for t :: kstate and q
  proof (rule ends_kept_bind)
    show "kept (core t) (alloc_pages L 1 t)" by (rule keep_rules) simp
  next
    fix pt and u :: kstate assume u: "core u = core t"
    let ?u = "upd_proc i (\<lambda>p. p\<lparr>p_page_table := pt\<rparr>) u"
    let ?f = "\<lambda>s. upd_proc i (\<lambda>p. p\<lparr>p_pid := 1 + int i, p_state := PROC_RUNNABLE,
      p_heap_end := g_user_heap_start s + 4096, p_user_stack_top := g_user_stack_top s,
      p_entry_point := USER_BASE, p_image_pa := fi, p_image_npages := image_pages n\<rparr>) s"
    have "kernel_ok (?f v) \<and> current_proc (?f v) = current_proc s \<and> idle_proc (?f v) = idle_proc s"
      if v: "core v = core ?u" for v :: kstate
    proof -
      have e: "procs v = (procs s)[i := q\<lparr>p_page_table := pt\<rparr>]" "current_proc v = current_proc s"
        "idle_proc v = idle_proc s" "length (alloc_table v) = length (alloc_table s)"
        using coreD [OF v] coreD [OF u] coreD [OF t] q i l by (simp_all add: upd_proc_def)
      have "kernel_ok (?f v)"
        using i l e p q by (intro kernel_ok_start [OF ok i]) (auto simp: upd_proc_def core_def proc_ok_def)
      then show ?thesis using e by (simp add: upd_proc_def)
    qed
    then show "ends (\<lambda>t. kernel_ok t \<and> current_proc t = current_proc s \<and> idle_proc t = idle_proc s)
      (let t = ?u in kbind (build_user_space L pt fi n t) (\<lambda>_ s. kret i (?f s)))"
      unfolding Let_def by (intro ends_kept_bind [where s = ?u] keep_rules) simp_all
  qed
  show ?thesis
  proof (cases "current_proc s")
    case None
    show ?thesis unfolding create_init_process_def Some option.case Let_def
      by (rule step [unfolded Let_def, where q = "?p\<lparr>p_tf := tf_frame L i, p_sp := tf_frame L i\<rparr>"])
        (use i l None p in \<open>simp_all add: upd_proc_def tf_set_def core_def\<close>)
  next
    case cur: (Some c)
    show ?thesis unfolding create_init_process_def Some option.case Let_def
      by (rule step [unfolded Let_def, where q = "?p\<lparr>p_tf := tf_frame L i, p_sp := tf_frame L i,
          p_parent := Some c, p_parent_pid := p_pid (procs s ! c)\<rparr>"])
        (use i l cur p free in \<open>auto simp: upd_proc_def tf_set_def core_def nth_list_update\<close>)
  qed
qed (simp add: create_init_process_def)

text \<open>\<^verbatim>\<open>exec_process\<close> replaces the program of the current process.\<close>

lemma exec_process_sound:
  assumes ok: "kernel_ok s"
  shows "sound (exec_process L fi n s)"
proof (cases "current_proc s")
  case (Some c)
  have c: "c < PROCS_MAX" "p_state (procs s ! c) \<noteq> PROC_UNUSED" using kernel_okD(3) [OF ok Some] by simp_all
  have l: "length (procs s) = PROCS_MAX" using ok by (rule kernel_okD)
  let ?s = "upd_proc c (\<lambda>p. p\<lparr>p_tf := tf_frame L c\<rparr>) s"
  let ?u = "\<lambda>pt u. upd_proc c (\<lambda>p. p\<lparr>p_page_table := pt\<rparr>) u"
  let ?f = "\<lambda>s. upd_proc c (\<lambda>p. p\<lparr>p_state := PROC_RUNNING, p_heap_end := g_user_heap_start s + 4096,
    p_user_stack_top := g_user_stack_top s, p_entry_point := USER_BASE, p_image_pa := fi,
    p_image_npages := image_pages n\<rparr>) s"
  have "kernel_ok (?f v)" if u: "core u = core ?s" and v: "core v = core (?u pt u)" for u v :: kstate and pt
  proof (rule kernel_ok_update [OF ok _ c(1)])
    note e = coreD [OF v] coreD [OF u]
    let ?p = "(procs s ! c)\<lparr>p_tf := tf_frame L c, p_page_table := pt, p_state := PROC_RUNNING,
      p_heap_end := g_user_heap_start v + 4096, p_user_stack_top := g_user_stack_top v,
      p_entry_point := USER_BASE, p_image_pa := fi, p_image_npages := image_pages n\<rparr>"
    show "procs (?f v) = (procs s)[c := ?p]" using e l c by simp
    show "current_proc (?f v) = current_proc s" "idle_proc (?f v) = idle_proc s" using e by simp_all
    show "length (alloc_table (?f v)) = length (alloc_table s)" using e by (simp add: upd_proc_def)
    show "proc_ok (current_proc s) (idle_proc s) c ?p"
      using kernel_okD(5) [OF ok c(1)] c(2) Some by (simp add: proc_ok_def)
  qed simp
  then show ?thesis unfolding exec_process_def Some option.case Let_def
    by (intro ends_kept_bind [where s = ?s] ends_kept_bind [where s = "?u pt u" for pt u] keep_rules) simp_all
qed (simp add: exec_process_def)

lemma extract_sound:
  assumes ok: "kernel_ok s"
  shows "sound (extract_flat_binary_from_elf L elf create s)"
proof -
  have "sound (if create then create_init_process L fi n t else exec_process L fi n t)"
    if "core t = core s" for t fi n
  proof -
    have "kernel_ok t" using ok that by (simp add: kernel_ok_def)
    then show ?thesis using create_init_process_sound [THEN ends_weaken] exec_process_sound by auto
  qed
  then show ?thesis
    unfolding extract_flat_binary_from_elf_def Let_def
    by (cases "segment_bounds (mem s) elf")
      (auto simp: core_simps simp del: if_split intro!: ends_kept_bind [where s = s] keep_rules split: if_split_asm)
qed

text \<open>The teardown of process \<open>i\<close> touches its page table pointer only.\<close>

lemma teardown_sound:
  assumes "kernel_ok s"
  shows "ends (\<lambda>t. kernel_ok t \<and> current_proc t = current_proc s \<and> idle_proc t = idle_proc s)
    (process_free_userspace i s)"
proof -
  have "kernel_ok (upd_proc i (\<lambda>p. p\<lparr>p_page_table := 0\<rparr>) (free_page root t)) \<and>
      current_proc (upd_proc i (\<lambda>p. p\<lparr>p_page_table := 0\<rparr>) (free_page root t)) = current_proc s \<and>
      idle_proc (upd_proc i (\<lambda>p. p\<lparr>p_page_table := 0\<rparr>) (free_page root t)) = idle_proc s"
    if t: "core t = core s" for t and root :: u64
  proof -
    have f: "core (free_page root t) = core s" using t by (simp add: core_simps)
    then have "kernel_ok (free_page root t)" using assms(1) by (simp add: kernel_ok_def)
    then show ?thesis using coreD [OF f] by (simp add: kernel_ok_upd_proc)
  qed
  then show ?thesis unfolding process_free_userspace_def Let_def
    using assms(1) by (auto intro!: ends_kept_bind [where s = s] keep_rules)
qed

lemma free_proc_sound:
  assumes ok: "kernel_ok s" and i: "i < PROCS_MAX" and cur: "current_proc s \<noteq> Some i"
    and idle: "idle_proc s \<noteq> Some i"
  shows "sound (free_proc i s)"
proof -
  let ?I = "\<lambda>t. kernel_ok t \<and> current_proc t = current_proc s \<and> idle_proc t = idle_proc s"
  let ?f = "\<lambda>t. upd_proc i (\<lambda>p. p\<lparr>p_state := PROC_UNUSED, p_pid := 0, p_parent := None,
    p_name := (p_name p)[0 := 0], p_heap_end := 0, p_user_stack_top := 0, p_argc := 0, p_argv_ptr := 0\<rparr>) t"
  have a: "?I (if p_tf (procs s ! i) \<noteq> 0 then upd_proc i (\<lambda>p. p\<lparr>p_tf := 0\<rparr>) s else s)"
    using ok i by (simp add: kernel_ok_upd_proc)
  have b: "?I (if p_image_pa (procs t ! i) \<noteq> 0
      then upd_proc i (\<lambda>p. p\<lparr>p_image_pa := 0, p_image_npages := 0\<rparr>)
        (free_pages_range (p_image_pa (procs t ! i)) (p_image_npages (procs t ! i)) t) else t)"
    if t: "?I t" for t
  proof -
    have f: "core (free_pages_range (p_image_pa (procs t ! i)) (p_image_npages (procs t ! i)) t) = core t"
      by (simp add: core_simps)
    then show ?thesis using t i coreD [OF f] kernel_ok_cong [OF f] by (auto intro: kernel_ok_upd_proc)
  qed
  have c: "ends ?I (if p_page_table (procs t ! i) \<noteq> 0
      then kbind (process_free_userspace i t) (\<lambda>_ s. kret () (upd_proc i (\<lambda>p. p\<lparr>p_page_table := 0\<rparr>) s))
      else kret () t)" if t: "?I t" for t
    using teardown_sound [of t i] t i by (auto intro!: ends_bind kernel_ok_upd_proc)
  have d: "kernel_ok (?f (free_all_tracked_for_pid pid t)\<lparr>process_count := n\<rparr>)" if t: "?I t" for t pid n
  proof -
    have u: "core (free_all_tracked_for_pid pid t) = core t" by (simp add: core_simps)
    have ok: "kernel_ok (free_all_tracked_for_pid pid t)" using t kernel_ok_cong [OF u] by simp
    have "kernel_ok (?f (free_all_tracked_for_pid pid t))"
    proof (rule kernel_ok_update [OF ok _ i])
      let ?p = "procs (free_all_tracked_for_pid pid t) ! i"
      show "proc_ok (current_proc (free_all_tracked_for_pid pid t)) (idle_proc (free_all_tracked_for_pid pid t)) i
          (?p\<lparr>p_state := PROC_UNUSED, p_pid := 0, p_parent := None, p_name := (p_name ?p)[0 := 0],
            p_heap_end := 0, p_user_stack_top := 0, p_argc := 0, p_argv_ptr := 0\<rparr>)"
        using kernel_okD(5) [OF ok i] t idle coreD [OF u] by (simp add: proc_ok_def)
    qed (use t cur coreD [OF u] in \<open>simp_all add: upd_proc_def\<close>)
    then show ?thesis by (subst kernel_ok_cong [of _ "?f (free_all_tracked_for_pid pid t)"]) (simp_all add: core_simps)
  qed
  show ?thesis unfolding free_proc_def Let_def
    by (rule ends_bind [OF c [OF b [OF a]]]) (simp add: d)
qed

end
