(* ===== verification/Kernel_Runs.thy ===== *)
theory Kernel_Runs
  imports Kernel_Inv
begin

text \<open>
  The system calls and the trap handler keep the invariant of \<^verbatim>\<open>Kernel_Inv\<close>; so it
  holds in every state that the machine reaches in user mode. The lemmas on the processes that
  the boot makes are for \<^verbatim>\<open>Boot_Main\<close>.
\<close>

section \<open>System calls\<close>

lemma sound_reap:
  assumes ok: "kernel_ok s" and cur: "current_proc s = Some c" and z: "zombie_child (Some c) s i"
    and i: "i < PROCS_MAX"
  shows "sound (reap status i s)"
proof -
  have "p_parent (procs s ! i) = Some c" using z by (simp add: zombie_child_def)
  then have ne: "c \<noteq> i" "idle_proc s \<noteq> Some i" using kernel_okD(5) [OF ok i] by (auto simp: proc_ok_def)
  have "sound (free_proc i t)" if t: "core t = core s" for t
    using coreD [OF t] kernel_ok_cong [OF t] ok cur ne by (intro free_proc_sound [OF _ i]) auto
  then show ?thesis unfolding reap_def Let_def
    by (intro ends_kept_bind [where s = s] ends_bind [where I = kernel_ok])
      (auto simp: core_simps intro!: keep_rules)
qed

lemma sound_wait:
  assumes "kernel_ok s" and "current_proc s = Some c"
  shows "sound (sys_wait L status s)"
proof -
  have "kernel_ok s \<longrightarrow> current_proc s = Some c \<longrightarrow> parent = Some c \<longrightarrow> sound r"
    if "wait_loop L parent status s = Some r" for L parent status s r
  proof (rule wait_loop.raw_induct [OF _ that,
        where P = "\<lambda>L parent status s r. kernel_ok s \<longrightarrow> current_proc s = Some c \<longrightarrow> parent = Some c \<longrightarrow> sound r"])
    fix f :: "linker_syms \<Rightarrow> nat option \<Rightarrow> u64 \<Rightarrow> kstate \<Rightarrow> int fres option" and L parent status s r
    assume ih: "\<And>L parent status s r. f L parent status s = Some r \<Longrightarrow>
        kernel_ok s \<longrightarrow> current_proc s = Some c \<longrightarrow> parent = Some c \<longrightarrow> sound r"
      and eq: "(case find (zombie_child parent s) [0..<PROCS_MAX] of
        Some i \<Rightarrow> Some (flift (reap status i s))
      | None \<Rightarrow>
          (case yield L s of
             Inl e \<Rightarrow> Some (Inl e)
           | Inr (r, s) \<Rightarrow>
               (case r of
                  Ret _ \<Rightarrow> f L parent status s
                | To_user \<Rightarrow> Some (kret To_user s)
                | To_context i j \<Rightarrow> Some (kret (To_context i j) s)))) = Some r"
    show "kernel_ok s \<longrightarrow> current_proc s = Some c \<longrightarrow> parent = Some c \<longrightarrow> sound r"
    proof (intro impI)
      assume a: "kernel_ok s" "current_proc s = Some c" "parent = Some c"
      show "sound r"
      proof (cases "find (zombie_child parent s) [0..<PROCS_MAX]")
        case (Some i)
        then have "zombie_child (Some c) s i" "i < PROCS_MAX" using a by (auto simp: find_Some_iff)
        then show ?thesis using eq Some sound_reap [OF a(1,2)] by (auto intro: ends_flift)
      next
        case None
        note y = sound_yield [OF a(1), of L]
        show ?thesis
        proof (cases "yield L s")
          case (Inr q)
          obtain fl t where q: "q = (fl, t)" by (cases q)
          then have t: "kernel_ok t" using y Inr by simp
          show ?thesis using eq None Inr q t a ih yield_returns [of L s _ t]
            by (cases fl) auto
        qed (use eq None in auto)
      qed
    qed
  qed
  then show ?thesis using assms by (auto simp: sys_wait_def split: option.split)
qed

lemma sound_fork:
  assumes ok: "kernel_ok s" and cur: "current_proc s = Some c"
  shows "sound (sys_fork L s)"
proof (cases "first_index (\<lambda>p. p_state p = PROC_UNUSED) (procs s)")
  case None
  then show ?thesis using ok by (simp add: sys_fork_def alloc_free_proc_def)
next
  case (Some i)
  have i: "i < PROCS_MAX" "p_state (procs s ! i) = PROC_UNUSED"
    using first_index_SomeD [OF Some] kernel_okD(1) [OF ok] by simp_all
  have l: "length (procs s) = PROCS_MAX" using ok by (rule kernel_okD)
  have c: "c \<noteq> i" "c < PROCS_MAX" using free_slot(1) [OF ok i(2)] kernel_okD(3) [OF ok cur] cur by auto
  define k where "k p = (((procs s)[i := p], Some c, idle_proc s, length (alloc_table s)))" for p
  let ?z = "zero_proc\<lparr>p_pid := int i + 1\<rparr>"
  have slot: "procs t ! i = p" "length (procs t) = PROCS_MAX" "current_proc t = Some c"
    "procs t ! c = procs s ! c" "core (upd_proc i f t) = k (f p)" if "core t = k p" for t p f
    using that i l c by (auto simp: k_def core_def upd_proc_def)
  have fin: "kernel_ok t" if t: "core t = k p"
      and p: "length (p_name p) = 64" "p_inbox p = no_message" "p_parent p \<noteq> Some i" "p_pid p = int i + 1"
        "p_state p \<in> {PROC_UNUSED, PROC_RUNNABLE}" for t p
  proof (rule kernel_ok_start [OF ok i])
    show "procs t = (procs s)[i := p]" "core (t\<lparr>procs := procs s\<rparr>) = core s"
      using t cur by (auto simp: k_def core_def)
    show "proc_ok None None i p" using p by (auto simp: proc_ok_def no_message_def)
  qed (use p in auto)
  have last: "kernel_ok (upd_proc i (fork_pcb c (procs t ! c)) t)"
    if t: "core t = k p" and p: "p_inbox p = no_message" "p_pid p = int i + 1" for t p
    by (rule fin [OF slot(5) [OF t]]) (use p c in \<open>simp_all add: fork_pcb_def length_buf_copy\<close>)
  show ?thesis
    unfolding sys_fork_def alloc_free_proc_def Some option.case prod.case Let_def
  proof (rule ends_core_bind [where k = "k ?z"], goal_cases)
    case 1
    show ?case by (rule keep_rules) (simp add: k_def core_def cur)
  next
    case (2 tf t)
    let ?p = "?z\<lparr>p_tf := tf\<rparr>"
    have cur': "current_proc (upd_proc i (\<lambda>p. p\<lparr>p_tf := tf\<rparr>) t) = Some c" using slot(3) [OF 2] by simp
    have t: "core (upd_proc i (\<lambda>p. p\<lparr>p_tf := tf\<rparr>) t) = k ?p" by (rule slot(5) [OF 2])
    show ?case
    proof (cases "tf = 0")
      case True
      have "kernel_ok (upd_proc i (\<lambda>p. p\<lparr>p_tf := tf\<rparr>) t)" by (rule fin [OF t]) (simp_all add: zero_proc_def)
      then show ?thesis using True by simp
    next
      case False
      show ?thesis unfolding cur' option.case if_not_P [OF False]
      proof (rule ends_core_bind [where k = "k ?p"], goal_cases)
        case 1
        show ?case by (rule keep_rules) (simp add: core_simps t)
      next
        case (2 pt u)
        let ?q = "?p\<lparr>p_page_table := pt\<rparr>"
        have u: "core (upd_proc i (\<lambda>p. p\<lparr>p_page_table := pt\<rparr>) u) = k ?q" by (rule slot(5) [OF 2])
        show ?case
        proof (rule ends_core_bind [where k = "k ?q"], goal_cases)
          case 1
          show ?case by (rule keep_rules) (rule u)
        next
          case (2 x v)
          show ?case
            by (rule ends_core_bind [where k = "k ?q"])
              (auto intro!: keep_rules last [where p = ?q] simp: 2 zero_proc_def)
        qed
      qed
    qed
  qed
qed

lemma kernel_ok_current:
  assumes "core t = core s" and "kernel_ok s"
  shows "kernel_ok t" and "current_proc t = current_proc s"
  using assms by (simp_all add: kernel_ok_def core_def)

lemma sound_sbrk:
  assumes ok: "kernel_ok s"
  shows "sound (sys_sbrk L n s)"
proof (cases "current_proc s")
  case (Some c)
  then have c: "c < PROCS_MAX" using kernel_okD(3) [OF ok] by simp
  have "kernel_ok (upd_proc c (\<lambda>p. p\<lparr>p_heap_end := h\<rparr>) t)" if "core t = core s" for t h
    using c kernel_ok_current(1) [OF that ok] by (intro kernel_ok_upd_proc) simp_all
  then show ?thesis
    unfolding sys_sbrk_def Some option.case Let_def
    by (auto intro!: ends_kept_bind [where s = s] keep_rules kernel_ok_current [OF _ ok])
qed (simp add: sys_sbrk_def)

lemma sound_exit:
  assumes ok: "kernel_ok s"
  shows "sound (sys_exit code s)"
proof (cases "current_proc s")
  case (Some c)
  then have c: "c < PROCS_MAX" "p_state (procs s ! c) \<noteq> PROC_UNUSED" using kernel_okD(3) [OF ok] by auto
  have "kernel_ok (upd_proc c (\<lambda>p. p\<lparr>p_state := PROC_ZOMBIE, p_exit_code := code\<rparr>) s)"
    by (rule kernel_ok_update [OF ok _ c(1), where p = "(procs s ! c)\<lparr>p_state := PROC_ZOMBIE, p_exit_code := code\<rparr>"])
      (use c kernel_okD(5) [OF ok c(1)] in \<open>auto simp: upd_proc_def proc_ok_def\<close>)
  then show ?thesis by (simp add: sys_exit_def Some)
qed (simp add: sys_exit_def)

lemma kernel_ok_inbox:
  assumes "kernel_ok s" and "i < PROCS_MAX"
    and "\<And>b. length (im_data b) = 256 \<Longrightarrow> im_size b \<le> 256 \<Longrightarrow> length (im_data (f b)) = 256 \<and> im_size (f b) \<le> 256"
  shows "kernel_ok (set_inbox i f s)"
  unfolding set_inbox_def using assms by (intro kernel_ok_upd_proc) simp_all

lemma user_read_length: "user_read va n s = Inr (bs, t) \<Longrightarrow> length bs = n"
  by (induction n arbitrary: va s bs t) (auto simp: kbind_eq_Inr)

lemma sound_ipc_send:
  assumes ok: "kernel_ok s"
  shows "sound (sys_ipc_send pid buf n s)"
proof -
  have put: "kernel_ok (set_inbox i (\<lambda>b. b\<lparr>im_sender := x, im_pending := True\<rparr>)
      (set_inbox i (\<lambda>b. b\<lparr>im_size := n\<rparr>)
        (disable_sum (set_inbox i (\<lambda>b. b\<lparr>im_data := bs @ drop (length bs) (im_data b)\<rparr>) t))))"
    if r: "user_read buf (unat n) (enable_sum s) = Inr (bs, t)" and i: "i < PROCS_MAX" and n: "n \<le> 256" for i bs x t
  proof -
    have "core t = core s"
      by (rule keptD [OF _ r]) (auto intro!: keep_rules simp: core_simps)
    then have t: "kernel_ok t" using ok by (rule kernel_ok_current)
    have l: "length bs \<le> 256" using user_read_length [OF r] n by (simp add: word_le_nat_alt)
    have "kernel_ok (set_inbox i (\<lambda>b. b\<lparr>im_data := bs @ drop (length bs) (im_data b)\<rparr>) t)"
      using l by (intro kernel_ok_inbox [OF t i]) simp
    then show ?thesis using n i by (intro kernel_ok_inbox) (simp_all add: kernel_ok_ops kernel_ok_inbox)
  qed
  have "i < PROCS_MAX" if "get_proc_by_pid pid = Some i" for i
    using that by (auto simp: get_proc_by_pid_def split: if_splits)
  then show ?thesis using ok put
    by (auto simp: sys_ipc_send_def Let_def MAX_MSG_SIZE_def not_less ends_def kbind_eq_Inr
        split: option.split option.split_asm if_split if_split_asm)
qed

lemma sound_ipc_recv:
  assumes ok: "kernel_ok s"
  shows "sound (sys_ipc_recv buf n sender s)"
proof (cases "current_proc s")
  case (Some c)
  then have c: "c < PROCS_MAX" using kernel_okD(3) [OF ok] by simp
  have "kernel_ok (set_inbox c (\<lambda>b. b\<lparr>im_pending := False\<rparr>) (disable_sum t))" if "core t = core s" for t
    using kernel_ok_current [OF _ ok, of "disable_sum t"] that by (intro kernel_ok_inbox [OF _ c]) (auto simp: core_simps)
  then show ?thesis
    unfolding sys_ipc_recv_def Some option.case Let_def
    by (auto intro!: ends_kept_bind [where s = s] keep_rules simp: core_simps ok)
qed (simp add: sys_ipc_recv_def)

lemma sound_read:
  assumes ok: "kernel_ok s"
  shows "sound (sys_read L fd buf n s)"
proof -
  have loop: "kernel_ok t \<Longrightarrow> sound (read_loop L buf n cs i t)" for cs i t
  proof (induction cs arbitrary: i t)
    case (Cons c cs)
    have u: "kernel_ok (t\<lparr>uart_in := cs\<rparr>)" using Cons.prems by (simp add: kernel_ok_ops)
    have "sound (flift (user_store (buf + i) (of_int c) (t\<lparr>uart_in := cs\<rparr>)))"
      using u by (intro ends_flift sound_kept keep_rules) simp_all
    then show ?case using Cons u by (auto simp: Let_def intro!: sound_fbind sound_yield)
  qed simp
  have "kernel_ok (enable_sum s)" using ok by (simp add: kernel_ok_ops)
  then show ?thesis
    by (auto simp: sys_read_def Let_def kernel_ok_ops intro!: sound_fbind loop)
qed

lemma fbind_flift: "fbind (flift m) f = kbind m f"
  by (cases m) (auto simp: kbind_def split: sum.split)

lemma length_strip_name: "length (strip_name 64 bs) = 64"
  by (simp add: strip_name_def Let_def length_buf_copy split: option.split)

lemma sound_exec:
  assumes ok: "kernel_ok s"
  shows "sound (sys_exec L name argv argc s)"
proof -
  have enter: "sound (exec_enter L proc ep buf n t)" if "kernel_ok t" for proc ep buf n t
  proof -
    let ?t = "set_active_pagetable (p_page_table (procs t ! ep)) t\<lparr>csr_sscratch := tf_stack_top L ep\<rparr>"
    have "kernel_ok ?t" using that by (simp add: kernel_ok_ops)
    then show ?thesis
      unfolding exec_enter_def Let_def fbind_flift
      by (intro ends_bind [where I = kernel_ok, OF sound_kept [of ?t]])
        (auto intro!: keep_rules sound_fbind sound_yield kernel_ok_upd_proc simp: kernel_ok_ops)
  qed
  have run: "sound (kbind (process_free_userspace proc t) (\<lambda>_ s.
      kbind (extract_flat_binary_from_elf L elf False s) (\<lambda>ep s.
        exec_enter L proc ep buf argc (upd_proc ep (\<lambda>p. p\<lparr>p_name := strip_name 64 nm\<rparr>) s))))"
    if "kernel_ok t" for proc t elf buf nm
    by (rule ends_bind [OF teardown_sound [OF that]], rule ends_bind [OF extract_sound])
      (auto intro!: enter kernel_ok_upd_proc simp: length_strip_name)
  have "kernel_ok t" if "core t = core s" for t using ok that by (simp add: kernel_ok_def)
  then show ?thesis
    unfolding sys_exec_def Let_def fbind_flift
    by (auto intro!: ends_kept_bind [where s = s] keep_rules run simp: kernel_ok_ops core_simps
        split: option.split)
qed

section \<open>Traps\<close>

lemma sound_answer:
  "sound m \<Longrightarrow> sound (answer f m)" "sound m' \<Longrightarrow> sound (signed_answer f m')"
  unfolding answer_def signed_answer_def by (auto intro!: sound_fbind simp: kernel_ok_ops)

lemma sound_handle_syscall:
  assumes ok: "kernel_ok s" and cur: "current_proc s = Some c"
  shows "sound (handle_syscall L f s)"
proof -
  have kept: "sound (flift m)" if "kept (core s) m" for m :: "('a, kstate) kres"
    using that ok by (intro ends_flift sound_kept)
  have console: "sound (kret (Ret v) (uart_cls s))" "sound (kret (Ret v) (uart_putc b s))"
    "sound (kret (Ret v) (sys_ps s))" for v :: u64 and b
    using ok by (simp_all add: kernel_ok_ops)
  have ls: "sound (case sys_ls L s of None \<Rightarrow> Inl Spin | Some s \<Rightarrow> answer f (kret (Ret 0) s))"
    using core_sys_ls [of L s] ok by (auto simp: kernel_ok_def intro!: sound_answer split: option.split)
  have e: "kernel_ok (enable_sum s)" using ok by (simp add: kernel_ok_ops)
  have exec: "sound (fbind (signed_answer f (sys_exec L a b n (enable_sum s))) (\<lambda>_ s. kret (Ret ()) (disable_sum s)))"
    for a b n by (intro sound_fbind sound_answer sound_exec e) (simp add: kernel_ok_ops)
  have yield: "sound (fbind (yield L s) (\<lambda>_ s. kret (Ret v) s))" for v :: u64
    by (rule sound_fbind [OF sound_yield [OF ok]]) simp
  have exit: "sound (flift (kbind (sys_exit code s) (\<lambda>_ s. kret v s)))" for code and v :: u64
    by (rule ends_flift, rule ends_bind [OF sound_exit [OF ok]]) simp
  note calls = sound_read [OF ok] yield exec exit sound_wait [OF ok cur] console ls
    ends_flift [OF sound_fork [OF ok cur]] ends_flift [OF sound_sbrk [OF ok]]
    ends_flift [OF sound_ipc_send [OF ok]] ends_flift [OF sound_ipc_recv [OF ok]]
    kept_sys_write [OF refl, THEN kept] kept_sys_sysinfo [OF refl, THEN kept] kept_sys_time [OF refl, THEN kept]
    kept_sys_tarfs_exists [OF refl, THEN kept] kept_sys_log [OF refl, THEN kept]
  show ?thesis
    unfolding handle_syscall_def Let_def by (intro ends_if sound_answer calls ends_simps(1))
qed

lemma kept_user_return [keep_rules]: "core s = k \<Longrightarrow> kept k (user_return L r s)"
  by (simp add: user_return_def Let_def core_simps split: option.split)

lemma sound_trap:
  assumes ok: "kernel_ok s"
  shows "sound (user_trap L scause pc r s)"
proof -
  have save: "kernel_ok t" if "trap_save r (take_trap pc s) = (f, t)" for f t
    using ok core_kernel(6) [of r "take_trap pc s"] that by (simp add: kernel_ok_def core_simps)
  have handler: "sound (trap_handler L f scause t)" if "kernel_ok t" for f t
  proof (cases "current_proc t")
    case (Some c)
    have t: "kernel_ok (t\<lparr>mem := m\<rparr>)" "current_proc (t\<lparr>mem := m\<rparr>) = Some c" for m
      using that Some by (simp_all add: kernel_ok_ops)
    show ?thesis unfolding trap_handler_def Let_def Some option.case
      by (intro ends_if sound_yield sound_fbind sound_handle_syscall [OF t] ends_simps(1)) (simp_all add: kernel_ok_ops that)
  qed (simp add: trap_handler_def Let_def)
  have leave: "sound (trap_leave L f r x t)" if "kernel_ok t" for f x t
    using that by (cases x)
      (auto simp: trap_leave_def kernel_ok_ops intro!: ends_bind [where I = kernel_ok, OF sound_kept] keep_rules)
  show ?thesis unfolding user_trap_def trap_vector_def
    by (auto split: prod.split intro!: ends_bind [where I = kernel_ok] handler leave dest!: save)
qed

section \<open>The processes of the boot\<close>

lemma kernel_ok_boot: "kernel_ok (boot_state L)"
  by (simp add: kernel_ok_iff boot_state_def slot_in_use_def proc_ok_def zero_proc_def no_message_def)

lemma create_init_process_slot:
  assumes run: "create_init_process L fi n s = Inr (i, t)" and cur: "current_proc s = None"
    and l: "length (procs s) = PROCS_MAX"
  shows "i < PROCS_MAX" and "p_state (procs t ! i) = PROC_RUNNABLE" and "p_parent (procs t ! i) = p_parent (procs s ! i)"
proof -
  obtain j where j: "first_index (\<lambda>p. p_state p = PROC_UNUSED) (procs s) = Some j"
    using run by (auto simp: create_init_process_def split: option.splits)
  then have jl: "j < PROCS_MAX" using first_index_SomeD [OF j] l by simp
  define s1 where "s1 = upd_proc j (\<lambda>p. p\<lparr>p_sp := tf_frame L j\<rparr>) (tf_set (tf_frame L j) TF_EPC USER_BASE
    (tf_set (tf_frame L j) TF_RA (sym_user_entry L) (tf_set (tf_frame L j) TF_SP (g_user_stack_top s)
      (upd_proc j (\<lambda>p. p\<lparr>p_tf := tf_frame L j\<rparr>) (s\<lparr>process_count := process_count s + 1\<rparr>)
        \<lparr>mem := memset (mem s) (tf_frame L j) 0 256\<rparr>))))"
  have c1: "core s1 = ((procs s)[j := (procs s ! j)\<lparr>p_tf := tf_frame L j, p_sp := tf_frame L j\<rparr>], None, idle_proc s, length (alloc_table s))"
    using jl l cur by (simp add: s1_def core_def upd_proc_def tf_set_def)
  have "current_proc s1 = None" using c1 by (simp add: core_def)
  then obtain pt u v where u: "alloc_pages L 1 s1 = Inr (pt, u)"
    and v: "build_user_space L pt fi n (upd_proc j (\<lambda>p. p\<lparr>p_page_table := pt\<rparr>) u) = Inr ((), v)"
    and it: "i = j" "t = upd_proc j (\<lambda>p. p\<lparr>p_pid := 1 + int j, p_state := PROC_RUNNABLE,
      p_heap_end := g_user_heap_start v + 4096, p_user_stack_top := g_user_stack_top v,
      p_entry_point := USER_BASE, p_image_pa := fi, p_image_npages := image_pages n\<rparr>) v"
    using run by (auto simp: create_init_process_def j s1_def Let_def kbind_eq_Inr)
  have pu: "core u = core s1" by (rule keptD [OF _ u]) (rule keep_rules, rule refl)
  have pv: "procs v = procs (upd_proc j (\<lambda>p. p\<lparr>p_page_table := pt\<rparr>) u)"
    by (rule coreD(1), rule keptD [OF _ v]) (rule keep_rules, rule refl)
  have "procs u = (procs s)[j := (procs s ! j)\<lparr>p_tf := tf_frame L j, p_sp := tf_frame L j\<rparr>]"
    using pu c1 by (simp add: core_def)
  then show "i < PROCS_MAX" "p_state (procs t ! i) = PROC_RUNNABLE" "p_parent (procs t ! i) = p_parent (procs s ! i)"
    using it pv jl l by simp_all
qed

lemma kernel_ok_idle:
  assumes ok: "kernel_ok s" and "current_proc s = None" and "idle_proc s = None" and i: "i < PROCS_MAX"
    and st: "p_state (procs s ! i) = PROC_RUNNABLE" and par: "p_parent (procs s ! i) = None"
  shows "kernel_ok (name_proc i ''idle'' (upd_proc i (\<lambda>p. p\<lparr>p_pid := 0\<rparr>) (s\<lparr>idle_proc := Some i\<rparr>))\<lparr>current_proc := Some i\<rparr>)"
proof -
  let ?t = "upd_proc i (\<lambda>p. p\<lparr>p_pid := 0\<rparr>) (s\<lparr>idle_proc := Some i, current_proc := Some i\<rparr>)"
  have l: "length (procs s) = PROCS_MAX" using ok by (rule kernel_okD)
  have "proc_ok (Some i) (Some i) j (procs ?t ! j)" if j: "j < PROCS_MAX" for j
    using kernel_okD(5) [OF ok j] assms l j by (auto simp: proc_ok_def nth_list_update upd_proc_def)
  then have t: "kernel_ok ?t" using l i st kernel_okD(2) [OF ok] by (simp add: kernel_ok_iff slot_in_use_def upd_proc_def)
  have "name_proc i ''idle'' (upd_proc i (\<lambda>p. p\<lparr>p_pid := 0\<rparr>) (s\<lparr>idle_proc := Some i\<rparr>))\<lparr>current_proc := Some i\<rparr> =
    name_proc i ''idle'' ?t" by (simp add: name_proc_def upd_proc_def Let_def)
  then show ?thesis using t by (auto simp: name_proc_def Let_def intro!: kernel_ok_upd_proc)
qed

lemma extract_creates:
  assumes "extract_flat_binary_from_elf L e True s = Inr (i, u)"
  obtains fi n v where "create_init_process L fi n v = Inr (i, u)" and "core v = core s"
proof -
  obtain lo hi where b: "segment_bounds (mem s) e = (lo, hi)" by (cases "segment_bounds (mem s) e")
  from assms obtain n n' fi t v and f :: "kstate \<Rightarrow> mem"
    where t: "alloc_pages L n s = Inr (fi, t)"
      and v: "set_user_globals e (t\<lparr>mem := f t\<rparr>) = Inr ((), v)"
      and run: "create_init_process L fi n' v = Inr (i, u)"
    unfolding extract_flat_binary_from_elf_def b Let_def prod.case
    by (auto simp: kbind_eq_Inr split: if_splits)
  have "core t = core s" by (rule keptD [OF _ t]) (rule keep_rules, rule refl)
  then have "core v = core s" by (intro keptD [OF _ v] keep_rules) (simp add: core_simps)
  with run show thesis by (rule that)
qed

section \<open>Every state the kernel reaches\<close>

text \<open>
  Where the kernel's own code and data lie: its image without the archive and without the
  kernel stacks inside the PCBs, which are part of \<open>mem\<close>. The fields of \<open>kstate\<close> other
  than \<open>mem\<close> stand for the variables in there. The kernel itself changes them as fields, but
  nothing protects them from its copies to and from addresses that a program or an ELF file
  has given: the pages are mapped writable in every page table. \<open>stays_out A op s\<close> says that
  \<open>op\<close>, run from \<open>s\<close>, makes no such stray store to \<open>A\<close>: whatever the bytes there are, they
  are the same afterwards.
\<close>

definition kernel_own :: "linker_syms \<Rightarrow> u64 set" where
  "kernel_own L =
     {x. kernel_base L \<le> x \<and> x < free_ram L} - {x. tar_start L \<le> x \<and> x < tar_end L} -
     {x. \<exists>i < PROCS_MAX. x - tf_stack_base L i < 8192}"

definition stays_out :: "u64 set \<Rightarrow> (kstate \<Rightarrow> ('a, kstate) kres) \<Rightarrow> kstate \<Rightarrow> bool" where
  "stays_out A op s \<longleftrightarrow>
     (\<forall>f x t. op (s\<lparr>mem := override_on (mem s) f A\<rparr>) = Inr (x, t) \<longrightarrow> (\<forall>a \<in> A. mem t a = f a))"

lemma stays_outI:
  assumes "\<And>f x t a. op (s\<lparr>mem := override_on (mem s) f A\<rparr>) = Inr (x, t) \<Longrightarrow> a \<in> A \<Longrightarrow>
    mem t a = override_on (mem s) f A a"
  shows "stays_out A op s"
  using assms by (fastforce simp: stays_out_def)

text \<open>
  Between two traps a user program runs: it may change any of memory, characters may be typed,
  and the clock goes on. A run is what follows from a state by such steps and traps that come
  back to user mode and make no stray store to the kernel's own code and data.
\<close>

definition user_step :: "mem \<Rightarrow> int list \<Rightarrow> u64 \<Rightarrow> kstate \<Rightarrow> kstate" where
  "user_step m typed now s = s\<lparr>mem := m, uart_in := typed, csr_time := now\<rparr>"

inductive runs :: "linker_syms \<Rightarrow> kstate \<Rightarrow> kstate \<Rightarrow> bool" for L where
  start: "runs L s s"
| user: "runs L s t \<Longrightarrow> runs L s (user_step m typed now t)"
| trap: "runs L s t \<Longrightarrow> stays_out (kernel_own L) (user_trap L scause pc r) t \<Longrightarrow>
    user_trap L scause pc r t = kret (Ret r') u \<Longrightarrow> runs L s u"

lemma runs_kernel_ok: "runs L s t \<Longrightarrow> kernel_ok s \<Longrightarrow> kernel_ok t"
proof (induction rule: runs.induct)
  case (trap s t scause pc r r' u)
  then show ?case using sound_trap [of t L scause pc r] by simp
qed (simp_all add: user_step_def kernel_ok_ops)

lemma kernel_ok_pid:
  assumes ok: "kernel_ok s" and i: "i < PROCS_MAX" and "p_state (procs s ! i) \<noteq> PROC_UNUSED" "idle_proc s \<noteq> Some i"
  shows "get_proc_by_pid (p_pid (procs s ! i)) = Some i"
proof -
  have "p_pid (procs s ! i) = int i + 1" using kernel_okD(5) [OF ok i] assms by (simp add: proc_ok_def)
  then show ?thesis using i by (simp add: get_proc_by_pid_def)
qed

text \<open>
  Two traps that store nothing but the frame of the current process, for a run with traps in
  it: a putchar, and a timer interrupt.
\<close>

lemma putchar_returns:
  assumes u: "in_user L s c" and a7: "r A7 = SYS_PUTCHAR"
  shows "\<exists>r' t. user_trap L SCAUSE_ECALL pc r s = kret (Ret r') t \<and> uart_out t = uart_out s @ [ucast (r A0)] \<and>
    (\<forall>x. 256 \<le> x - tf_frame L c \<longrightarrow> 256 \<le> x - p_tf (procs s ! c) \<longrightarrow> mem t x = mem s x) \<and>
    (\<exists>m. t = s\<lparr>mem := m, csr_sepc := csr_sepc t, csr_sstatus := csr_sstatus t, uart_out := uart_out t\<rparr>)"
proof -
  have ec: "\<not> timer_cause SCAUSE_ECALL" by (simp add: timer_cause_def SCAUSE_ECALL_def)
  obtain m where m: "frame_holds (tf_frame L c) r pc m" "frame_holds (p_tf (procs s ! c)) r pc m"
      "\<And>x. 256 \<le> x - tf_frame L c \<Longrightarrow> 256 \<le> x - p_tf (procs s ! c) \<Longrightarrow> m x = mem s x"
      "user_trap L SCAUSE_ECALL pc r s =
      (let t = (take_trap pc s)\<lparr>mem := m\<rparr> in
       kbind
         (if timer_cause SCAUSE_ECALL then yield L (rearm_timer t)
          else if SCAUSE_ECALL = SCAUSE_ECALL then
            fbind (handle_syscall L (tf_frame L c) t) (\<lambda>_ s. kret (Ret ()) (s\<lparr>csr_sepc := pc + 4\<rparr>))
          else kpanic (Unexpected_trap SCAUSE_ECALL))
         (trap_leave L (tf_frame L c) r))"
    using user_trap_entry [OF u, of r pc SCAUSE_ECALL] by blast
  let ?t = "(take_trap pc s)\<lparr>mem := m\<rparr>" and ?f = "tf_frame L c"
  have r: "frame_reg ?f x ?t = r x" for x
    using m(1) by (simp add: frame_reg_holds [where pc = pc])
  have h: "handle_syscall L ?f ?t = answer ?f (kret (Ret 0) (uart_putc (ucast (r A0)) ?t))"
    unfolding handle_syscall_def Let_def r a7 by (simp add: sys_numbers)
  let ?u = "sret ((set_frame_reg ?f A0 0 (uart_putc (ucast (r A0)) ?t))\<lparr>csr_sepc := pc + 4\<rparr>)"
  have run: "\<exists>r'. user_trap L SCAUSE_ECALL pc r s = kret (Ret r') ?u"
    unfolding m(4) Let_def h answer_def fbind_simps if_not_P [OF ec] simp_thms if_True
    by (simp add: trap_leave_def)
  have "mem (set_frame_reg ?f A0 0 (uart_putc (ucast (r A0)) ?t)) x = m x" if "256 \<le> x - ?f" for x
    using frame_only_set_reg [of ?f "uart_putc (ucast (r A0)) ?t" A0 0] that by (simp add: frame_only_def uart_putc_def)
  then have "\<forall>x. 256 \<le> x - ?f \<longrightarrow> 256 \<le> x - p_tf (procs s ! c) \<longrightarrow> mem ?u x = mem s x"
    using m(3) by (simp add: sret_def)
  moreover have "uart_out ?u = uart_out s @ [ucast (r A0)]"
    by (simp add: sret_def set_frame_reg_def uart_putc_def take_trap_def)
  moreover have "?u = s\<lparr>mem := mem ?u, csr_sepc := csr_sepc ?u, csr_sstatus := csr_sstatus ?u, uart_out := uart_out ?u\<rparr>"
    by (simp add: sret_def set_frame_reg_def uart_putc_def take_trap_def)
  ultimately show ?thesis using run by blast
qed

lemma yield_mem:
  assumes "yield L s = kret x t"
  shows "mem t = mem s" and "uart_out t = uart_out s"
  using assms by (auto simp: yield_def Let_def wake_down_def wake_up_def upd_proc_def switch_space_def
      split: option.splits if_splits)

lemma timer_mem:
  assumes u: "in_user L s c" and tc: "timer_cause scause" and run: "user_trap L scause pc r s = Inr (x, t)"
    and a: "256 \<le> a - tf_frame L c" "256 \<le> a - p_tf (procs s ! c)"
  shows "mem t a = mem s a"
proof -
  obtain m where m: "\<And>x. 256 \<le> x - tf_frame L c \<Longrightarrow> 256 \<le> x - p_tf (procs s ! c) \<Longrightarrow> m x = mem s x"
    "user_trap L scause pc r s =
      kbind (yield L (rearm_timer ((take_trap pc s)\<lparr>mem := m\<rparr>))) (trap_leave L (tf_frame L c) r)"
    using user_trap_entry [OF u, of r pc scause] tc by (auto simp: Let_def)
  obtain fl w where y: "yield L (rearm_timer ((take_trap pc s)\<lparr>mem := m\<rparr>)) = Inr (fl, w)"
    and l: "trap_leave L (tf_frame L c) r fl w = Inr (x, t)"
    using run m(2) by (auto simp: kbind_eq_Inr)
  have "mem w = m"
    using yield_mem(1) [OF y] by (simp add: rearm_timer_def switch_pagetable_def restore_pagetable_def sbi_set_timer_def)
  moreover have "mem t = mem w"
    using l by (auto simp: trap_leave_def user_return_def sret_def Let_def kbind_eq_Inr split: flow.splits option.splits)
  ultimately show ?thesis using m(1) [OF a] by simp
qed

text \<open>A trap that stores only the frame, when the frame is on the kernel stack of its PCB.\<close>

lemma frame_not_own:
  assumes "i < PROCS_MAX" and "a \<in> kernel_own L"
  shows "256 \<le> a - tf_frame L i"
proof (rule ccontr)
  assume n: "\<not> 256 \<le> a - tf_frame L i"
  have e: "a - tf_stack_base L i = (a - tf_frame L i) + 7936" by (simp add: tf_frame_def tf_stack_top_def)
  have "unat (a - tf_stack_base L i) = unat (a - tf_frame L i) + 7936"
    unfolding e using n by (subst unat_add_u64) (simp_all add: word_le_nat_alt)
  then have "a - tf_stack_base L i < 8192" using n by (simp add: word_less_nat_alt word_le_nat_alt)
  then show False using assms by (auto simp: kernel_own_def)
qed

lemma frame_trap_stays_out:
  assumes u: "in_user L s c" and tf: "p_tf (procs s ! c) = tf_frame L c"
    and only: "\<And>m x t a. user_trap L scause pc r (s\<lparr>mem := m\<rparr>) = Inr (x, t) \<Longrightarrow> in_user L (s\<lparr>mem := m\<rparr>) c \<Longrightarrow>
      256 \<le> a - tf_frame L c \<Longrightarrow> mem t a = m a"
  shows "stays_out (kernel_own L) (user_trap L scause pc r) s"
proof (rule stays_outI)
  fix f x t a
  assume "user_trap L scause pc r (s\<lparr>mem := override_on (mem s) f (kernel_own L)\<rparr>) = Inr (x, t)" and a: "a \<in> kernel_own L"
  then show "mem t a = override_on (mem s) f (kernel_own L) a"
    using u frame_not_own [OF _ a, of c] by (intro only) (simp_all add: in_user_def)
qed

lemma putchar_stays_out:
  assumes "in_user L s c" and tf: "p_tf (procs s ! c) = tf_frame L c" and a7: "r A7 = SYS_PUTCHAR"
  shows "stays_out (kernel_own L) (user_trap L SCAUSE_ECALL pc r) s"
proof (rule frame_trap_stays_out [OF assms(1,2)])
  fix m x t a
  assume "user_trap L SCAUSE_ECALL pc r (s\<lparr>mem := m\<rparr>) = Inr (x, t)" "in_user L (s\<lparr>mem := m\<rparr>) c" "256 \<le> a - tf_frame L c"
  then show "mem t a = m a" using putchar_returns [where r = r, OF _ a7, of L "s\<lparr>mem := m\<rparr>" c pc] tf by auto
qed

lemma timer_stays_out:
  assumes "in_user L s c" and "p_tf (procs s ! c) = tf_frame L c" and "timer_cause scause"
  shows "stays_out (kernel_own L) (user_trap L scause pc r) s"
  by (rule frame_trap_stays_out [OF assms(1,2)]) (use timer_mem [OF _ assms(3)] assms(2) in force)

lemma user_procs_ok: "kernel_ok user_procs"
proof -
  have p: "proc_ok (Some 1) (Some 0) i (procs user_procs ! i)" if "i < PROCS_MAX" for i
  proof -
    have i: "i \<in> {0, 1, 2, 3, 4, 5, 6, 7}" using that by (auto simp: PROCS_MAX_def)
    have "procs user_procs ! i = (procs four_procs ! i)\<lparr>p_tf := tf_frame kernel_map i\<rparr>"
      using that by (simp add: user_procs_def PROCS_MAX_def del: upt_rec_numeral)
    then show ?thesis using i by (auto simp: four_procs_def proc_ok_def zero_proc_def no_message_def)
  qed
  have "length (procs user_procs) = PROCS_MAX" using user_procs_in_user by (simp add: in_user_def)
  moreover have "current_proc user_procs = Some 1" "idle_proc user_procs = Some 0"
    "length (alloc_table user_procs) = MAX_TRACKED_ALLOCS"
    by (simp_all add: user_procs_def four_procs_def boot_state_def)
  moreover have "p_state (procs user_procs ! 0) = PROC_RUNNABLE" "p_state (procs user_procs ! 1) = PROC_RUNNING"
    by (simp_all add: user_procs_def four_procs_def del: upt_rec_numeral)
  ultimately show ?thesis using p by (simp add: kernel_ok_iff slot_in_use_def PROCS_MAX_def)
qed

section \<open>Properties\<close>

text \<open>
  C1: the invariant of the kernel. In every state that traps and user programs reach from a
  well-formed one, a process in use is found by its pid (so no two share one), only the
  current process is \<^verbatim>\<open>PROC_RUNNING\<close>, none is ever \<^verbatim>\<open>PROC_WAITING\<close> or its own parent, every
  inbox fits its buffer, and the current process is one in use. User programs may do anything
  to memory; the traps of the run are any, in any order, as long as none makes a stray store
  to the kernel's own code and data. The kernel does not see to that itself: \<^verbatim>\<open>sys_ipc_recv\<close>,
  \<^verbatim>\<open>sys_wait\<close> and \<^verbatim>\<open>sys_read\<close> store where the program says (see \<^verbatim>\<open>recv_overwrites_kernel\<close>),
  and the loader where the ELF file says.
\<close>

theorem runs_invariant:
  assumes "kernel_ok s" and "runs L s t"
  shows "kernel_ok t \<and> length (procs t) = PROCS_MAX \<and> length (alloc_table t) = MAX_TRACKED_ALLOCS \<and>
    (\<forall>c. current_proc t = Some c \<longrightarrow> c < PROCS_MAX \<and> p_state (procs t ! c) \<noteq> PROC_UNUSED) \<and>
    (\<forall>i < PROCS_MAX. let p = procs t ! i in
       (p_state p \<noteq> PROC_UNUSED \<longrightarrow> idle_proc t \<noteq> Some i \<longrightarrow> get_proc_by_pid (p_pid p) = Some i) \<and>
       (p_state p = PROC_RUNNING \<longrightarrow> current_proc t = Some i) \<and>
       p_state p \<noteq> PROC_WAITING \<and> p_parent p \<noteq> Some i \<and>
       im_size (p_inbox p) \<le> 256 \<and> length (im_data (p_inbox p)) = 256 \<and> length (p_name p) = 64)"
proof -
  have t: "kernel_ok t" by (rule runs_kernel_ok [OF assms(2,1)])
  have "let p = procs t ! i in
       (p_state p \<noteq> PROC_UNUSED \<longrightarrow> idle_proc t \<noteq> Some i \<longrightarrow> get_proc_by_pid (p_pid p) = Some i) \<and>
       (p_state p = PROC_RUNNING \<longrightarrow> current_proc t = Some i) \<and>
       p_state p \<noteq> PROC_WAITING \<and> p_parent p \<noteq> Some i \<and>
       im_size (p_inbox p) \<le> 256 \<and> length (im_data (p_inbox p)) = 256 \<and> length (p_name p) = 64"
    if "i < PROCS_MAX" for i
    using kernel_okD(5) [OF t that] kernel_ok_pid [OF t that] unfolding proc_ok_def Let_def by blast
  then show ?thesis using t kernel_okD(1-3) [OF t] by blast
qed

text \<open>A putchar of the process in slot 1, then the timer, which makes slot 2 current.\<close>

theorem runs_invariant_witness:
  "\<exists>t. runs kernel_map user_procs t \<and> uart_out t = [65] \<and> current_proc t = Some 2 \<and> kernel_ok t \<and>
    length (procs t) = PROCS_MAX"
proof -
  let ?L = kernel_map and ?r = "(\<lambda>_. 65)(A7 := SYS_PUTCHAR) :: regs"
  have a7: "?r A7 = SYS_PUTCHAR" by simp
  obtain r' t m where t: "user_trap ?L SCAUSE_ECALL 0x1000400 ?r user_procs = kret (Ret r') t"
      "uart_out t = uart_out user_procs @ [ucast (?r A0)]"
      "\<And>x. 256 \<le> x - tf_frame ?L 1 \<Longrightarrow> mem t x = mem user_procs x"
      "t = user_procs\<lparr>mem := m, csr_sepc := csr_sepc t, csr_sstatus := csr_sstatus t, uart_out := uart_out t\<rparr>"
    using putchar_returns [where r = ?r, OF user_procs_in_user a7, of "0x1000400"] user_procs_frames(2) by auto
  have r1: "runs ?L user_procs t"
    by (rule runs.trap [OF runs.start putchar_stays_out [where r = ?r, OF user_procs_in_user user_procs_frames(2) a7] t(1)])
  have same: "procs t = procs user_procs" "current_proc t = current_proc user_procs"
    "csr_sscratch t = csr_sscratch user_procs" "process_count t = process_count user_procs"
    "idle_proc t = idle_proc user_procs" "g_startup t = g_startup user_procs"
    by (subst t(4), simp)+
  have u: "in_user ?L t 1" using user_procs_in_user same by (simp add: in_user_def)
  have succ: "successor t = Some 2" using successor_cong [OF same(1,2,4,5)] user_procs_successor by simp
  have two: "(2 :: nat) \<noteq> 1" "2 < length (procs t)" "1 < length (procs t)" "current_proc t = Some 1"
    using u by (simp_all add: in_user_def PROCS_MAX_def)
  have tc: "timer_cause 0x8000000000000005" by (simp add: timer_cause_def)
  have tf: "p_tf (procs t ! 1) = tf_frame ?L 1" "p_tf (procs t ! 2) = tf_frame ?L 2"
    using same user_procs_frames by simp_all
  have q: "frame_holds (p_tf (procs t ! 2)) (\<lambda>_. 0) 0 (mem t)"
    using other_frame [OF user_procs_frames(3,4,4)] t(3) tf by auto
  obtain n where n: "\<And>x. 256 \<le> x - tf_frame ?L 1 \<Longrightarrow> n x = mem t x"
    "user_trap ?L 0x8000000000000005 0 ?r t =
      kbind (yield ?L (rearm_timer ((take_trap 0 t)\<lparr>mem := n\<rparr>))) (trap_leave ?L (tf_frame ?L 1) ?r)"
    using user_trap_entry [OF u, of ?r 0 "0x8000000000000005"] tc tf by (auto simp: Let_def)
  let ?t = "rearm_timer ((take_trap 0 t)\<lparr>mem := n\<rparr>)"
  have e: "procs ?t = procs t" "current_proc ?t = current_proc t" "process_count ?t = process_count t"
    "idle_proc ?t = idle_proc t" "g_startup ?t = g_startup t" "mem ?t = n" "uart_out ?t = uart_out t"
    by (simp_all add: rearm_timer_def switch_pagetable_def restore_pagetable_def sbi_set_timer_def take_trap_def)
  have "frame_holds (p_tf (procs ?t ! 2)) (\<lambda>_. 0) 0 (mem ?t)"
    unfolding e using other_frame [OF q [unfolded tf] user_procs_frames(4,4) n(1)] tf by simp
  then obtain r'' w where w: "user_trap ?L 0x8000000000000005 0 ?r t = kret (Ret r'') w" "current_proc w = Some 2"
    using switch_to_user [of ?t 1 2 "\<lambda>_. 0" 0 ?L "tf_frame ?L 1" ?r] two successor_cong [OF e(1-4)] succ e(1,2,5)
      same(6) user_procs_frames(5) n(2) by auto
  have r2: "runs ?L user_procs w" by (rule runs.trap [OF r1 timer_stays_out [OF u tf(1) tc] w(1)])
  obtain fl v where "yield ?L ?t = kret fl v" and "trap_leave ?L (tf_frame ?L 1) ?r fl v = kret (Ret r'') w"
    using w(1) n(2) by (auto simp: kbind_eq_Inr)
  then have "uart_out w = uart_out t"
    using yield_mem(2) [of ?L ?t fl v] e(7)
    by (auto simp: trap_leave_def user_return_def sret_def Let_def kbind_eq_Inr split: flow.splits option.splits)
  then have "uart_out w = [65]" using t(2) by (simp add: user_procs_def four_procs_def boot_state_def)
  then show ?thesis using r2 w(2) runs_invariant [OF user_procs_ok r2] by blast
qed

end
