(* ===== verification/Mmu.thy ===== *)
theory Mmu
  imports Sys_Info Scheduler
begin

text \<open>
  The hardware's view of the page tables: the Sv39 walk of \<^verbatim>\<open>User_Mem\<close> over a tree that the
  kernel built finds exactly the leaf entries of \<^verbatim>\<open>Page_Map\<close>. So what \<open>map_page\<close> enters is
  what the processor translates, and a load or a store through a user address reads or writes
  the memory of the process as \<^verbatim>\<open>User_Space\<close> describes it.
\<close>

section \<open>Entries\<close>

lemma flag_bits:
  fixes e :: u64
  shows "e AND PTE_V = 0 \<longleftrightarrow> \<not> bit e 0" and "e AND PTE_R = 0 \<longleftrightarrow> \<not> bit e 1"
    and "e AND PTE_W = 0 \<longleftrightarrow> \<not> bit e 2" and "e AND PTE_X = 0 \<longleftrightarrow> \<not> bit e 3"
    and "e AND PTE_U = 0 \<longleftrightarrow> \<not> bit e 4" and "e AND 10 = 0 \<longleftrightarrow> \<not> bit e 1 \<and> \<not> bit e 3"
proof -
  show b: "e AND PTE_V = 0 \<longleftrightarrow> \<not> bit e 0" "e AND PTE_R = 0 \<longleftrightarrow> \<not> bit e 1"
    "e AND PTE_W = 0 \<longleftrightarrow> \<not> bit e 2" "e AND PTE_X = 0 \<longleftrightarrow> \<not> bit e 3" "e AND PTE_U = 0 \<longleftrightarrow> \<not> bit e 4"
    using and_exp_eq_0_iff_not_bit [of e 0] and_exp_eq_0_iff_not_bit [of e 1] and_exp_eq_0_iff_not_bit [of e 2]
      and_exp_eq_0_iff_not_bit [of e 3] and_exp_eq_0_iff_not_bit [of e 4] by simp_all
  have "e AND (PTE_R OR PTE_X) = (e AND PTE_R) OR (e AND PTE_X)" by (rule bit.conj_disj_distrib)
  then show "e AND 10 = 0 \<longleftrightarrow> \<not> bit e 1 \<and> \<not> bit e 3"
    using b(2,4) by (simp add: or_eq_0_iff)
qed

lemma bit_high: "p < 2 ^ 56 \<Longrightarrow> 56 \<le> n \<Longrightarrow> \<not> bit (p :: u64) n"
proof -
  assume p: "p < 2 ^ 56" and n: "56 \<le> n"
  have "take_bit 56 p = p"
    using p by (simp add: take_bit_eq_mod word_less_nat_alt word_unat_eq_iff unat_mod)
  then show ?thesis using n by (metis bit_take_bit_iff not_le)
qed

lemma entry_bits:
  assumes "page_aligned p" and "p < 2 ^ 56" and "f < 1024"
  shows "n < 10 \<Longrightarrow> bit (PA2PTE p OR f) n = bit f n" and "drop_bit 54 (PA2PTE p OR f) = 0"
    and "PTE2PA (PA2PTE p OR f) = p"
proof -
  show "n < 10 \<Longrightarrow> bit (PA2PTE p OR f) n = bit f n" by (auto simp: PA2PTE_def bit_simps)
  show "drop_bit 54 (PA2PTE p OR f) = 0"
    using bit_high [OF assms(2)] less_1024_bits [OF assms(3)]
    by (intro bit_word_eqI) (auto simp: PA2PTE_def bit_simps)
  show "PTE2PA (PA2PTE p OR f) = p" by (rule PTE2PA_PA2PTE [OF assms(1,3)])
qed

section \<open>The walk\<close>

lemma sv39_walk_leaf:
  assumes tree: "tree_ok A m root" and A: "\<forall>t \<in> A. t < 2 ^ 56"
  shows "sv39_walk m root va 2 =
    (let e = pt_leaf m root va in if pte_invalid e \<or> e AND (PTE_R OR PTE_X) = 0 then None else Some (e, 0))"
proof -
  have step: "sv39_walk m t va (Suc l) =
      (case table_of m root (ip @ [PX (Suc l) va]) of None \<Rightarrow> None | Some u \<Rightarrow> sv39_walk m u va l)"
    if ip: "index_path (ip @ [PX (Suc l) va])" and t: "table_of m root ip = Some t" for ip t l
  proof -
    let ?e = "pte_read m t (PX (Suc l) va)"
    have down: "table_of m root (ip @ [PX (Suc l) va]) = (if ?e AND PTE_V = 0 then None else Some (PTE2PA ?e))"
      by (simp add: table_of_append t table_of.simps(2))
    show ?thesis
    proof (cases "?e AND PTE_V = 0")
      case True
      then show ?thesis by (simp add: down pte_invalid_def)
    next
      case False
      have e: "?e = PA2PTE (PTE2PA ?e) OR PTE_V"
        using tree_ok_link [OF tree ip t] False by (simp add: link_entry_def)
      have "PTE2PA ?e \<in> A" using tree_ok_owned [OF tree ip] down False by simp
      then have lt: "PTE2PA ?e < 2 ^ 56" using A by blast
      note b = entry_bits [OF page_aligned_PTE2PA lt, of PTE_V]
      have "\<not> bit ?e 1 \<and> \<not> bit ?e 2 \<and> \<not> bit ?e 3" and "drop_bit 54 ?e = 0"
        using b(1) [of 1] b(1) [of 2] b(1) [of 3] b(2) unfolding e [symmetric] by (simp_all add: bit_1_iff)
      then have "\<not> pte_invalid ?e" "?e AND (PTE_R OR PTE_X) = 0"
        using False by (simp_all add: pte_invalid_def flag_bits)
      then show ?thesis using down False by simp
    qed
  qed
  have two: "(2 :: nat) = Suc (Suc 0)" by simp
  have a: "sv39_walk m root va 2 = (case table_of m root [PX 2 va] of None \<Rightarrow> None | Some u \<Rightarrow> sv39_walk m u va (Suc 0))"
    using step [of "[]" "Suc 0" root] unfolding two by simp
  show ?thesis
  proof (cases "table_of m root [PX 2 va]")
    case None
    have "table_of m root (va_path va) = None"
      using None by (simp add: va_path_def table_of.simps(2) Let_def split: if_splits)
    then show ?thesis using a None by (simp add: pt_leaf_def pte_invalid_def)
  next
    case (Some u)
    have b: "sv39_walk m u va (Suc 0) = (case table_of m root (va_path va) of None \<Rightarrow> None | Some u \<Rightarrow> sv39_walk m u va 0)"
      using step [of "[PX 2 va]" 0 u] Some by (simp add: va_path_def)
    show ?thesis using a Some b by (simp add: pt_leaf_def pte_invalid_def Let_def split: option.split)
  qed
qed

section \<open>Translation\<close>

definition satp_selects :: "u64 \<Rightarrow> u64 \<Rightarrow> bool" where
  "satp_selects satp root \<longleftrightarrow> drop_bit 60 satp = 8 \<and> satp_root satp = root"

lemma satp_selects_make:
  assumes "page_aligned p" and "p < 2 ^ 56"
  shows "satp_selects (MAKE_SATP p) p" and "SATP_SV39 OR (p div 4096) = MAKE_SATP p"
proof -
  have m44: "drop_bit 12 p AND 0xFFFFFFFFFFF = take_bit 44 (drop_bit 12 p)"
    by (simp add: take_bit_eq_mask mask_eq_exp_minus_1)
  have eight: "(8 :: u64) = 2 ^ 3" by simp
  have "drop_bit 60 (MAKE_SATP p) = 8"
    unfolding MAKE_SATP_def m44 eight
    by (rule bit_word_eqI) (auto simp: bit_simps simp del: push_bit_numeral power_numeral)
  then show "satp_selects (MAKE_SATP p) p"
    using satp_root_MAKE_SATP [OF assms(1)] assms(2) by (simp add: satp_selects_def)
  have "p div 4096 = drop_bit 12 p" by (simp add: drop_bit_eq_div)
  moreover have "drop_bit 12 p = take_bit 44 (drop_bit 12 p)"
  proof (rule bit_word_eqI)
    fix n assume "n < LENGTH(64)"
    have "bit p (12 + n) \<Longrightarrow> n < 44" using bit_high [OF assms(2), of "12 + n"] by linarith
    then show "bit (drop_bit 12 p) n = bit (take_bit 44 (drop_bit 12 p)) n" by (auto simp: bit_simps)
  qed
  ultimately show "SATP_SV39 OR (p div 4096) = MAKE_SATP p"
    unfolding MAKE_SATP_def m44 SATP_SV39_def by simp
qed

lemma owned_56: "pool_ok L s \<Longrightarrow> \<forall>t \<in> owned L s. t < 2 ^ 56"
  using owned_props(3) [of L s] by (fastforce intro: less_trans)

lemma translate_leaf:
  assumes ok: "vm_ok L root s" and satp: "satp_selects (csr_satp s) root" and va: "va < push_bit 38 1"
  shows "translate acc s va =
    (let e = pt_leaf (mem s) root va in
     if pte_invalid e \<or> e AND (PTE_R OR PTE_X) = 0 \<or> \<not> pte_allows acc (sum_bit s) e then None
     else Some (PTE2PA e + (va AND 0xFFF)))"
proof -
  have m: "mask 12 = (0xFFF :: u64)" by (simp add: mask_eq_exp_minus_1)
  have al: "PTE2PA e AND 0xFFF = 0" for e
    using page_aligned_PTE2PA [of e] by (simp add: page_aligned_def and_page_offset)
  show ?thesis
    using satp va sv39_walk_leaf [OF vm_okD(2) [OF ok] owned_56 [OF vm_okD(1) [OF ok]], of va]
    unfolding translate_def satp_selects_def
    by (simp add: sv39_canonical_def Let_def m al)
qed

text \<open>The accesses an entry with the flags \<open>fl\<close> allows, with \<open>SUM\<close> set or not.\<close>

definition flags_allow :: "access \<Rightarrow> bool \<Rightarrow> u64 \<Rightarrow> bool" where
  "flags_allow acc um fl \<longleftrightarrow>
     (fl AND PTE_U = 0 \<or> um) \<and> fl AND PTE_R \<noteq> 0 \<and> (acc = Store \<longrightarrow> fl AND PTE_W \<noteq> 0)"

lemma leaf_entry:
  assumes "page_aligned p" and "p < 2 ^ 56" and "fl < 1024"
  defines "e \<equiv> PA2PTE p OR fl OR PTE_V"
  shows "\<not> pte_invalid e \<and> e AND (PTE_R OR PTE_X) \<noteq> 0 \<and> pte_allows acc um e \<longleftrightarrow> flags_allow acc um fl"
    and "PTE2PA e = p"
proof -
  note b = entry_bits [OF assms(1,2) flags_V_small [OF assms(3)], folded e_def]
  show "PTE2PA e = p" by (rule b(3))
  have "bit e 0" "bit e 1 = bit fl 1" "bit e 2 = bit fl 2" "bit e 3 = bit fl 3" "bit e 4 = bit fl 4"
    using b(1) [of 0] b(1) [of 1] b(1) [of 2] b(1) [of 3] b(1) [of 4] by (simp_all add: bit_simps bit_1_iff)
  then show "\<not> pte_invalid e \<and> e AND (PTE_R OR PTE_X) \<noteq> 0 \<and> pte_allows acc um e \<longleftrightarrow> flags_allow acc um fl"
    using b(2) by (cases acc) (auto simp: pte_invalid_def pte_allows_def flags_allow_def flag_bits)
qed

section \<open>Memory as the process sees it\<close>

text \<open>
  The \<open>n\<close> bytes from \<open>va\<close> on lie in user pages, in the lower half of the address space, whose
  flags allow the access when \<open>SUM\<close> is set.
\<close>

definition user_span :: "access \<Rightarrow> (u64 \<Rightarrow> u64 option) \<Rightarrow> u64 \<Rightarrow> nat \<Rightarrow> bool" where
  "user_span acc R va n \<longleftrightarrow>
     unat va + n \<le> 2 ^ 38 \<and>
     (\<forall>i < n. \<exists>fl. R (page_base (va + of_nat i)) = Some fl \<and> fl < 1024 \<and> fl AND PTE_U \<noteq> 0 \<and>
        flags_allow acc True fl)"

lemma user_span_byte:
  assumes "user_span acc R va n" and "i < n"
  shows "va + of_nat i < push_bit 38 1" and "user_flags (R (page_base (va + of_nat i)))"
    and "unat (va + of_nat i) = unat va + i"
    and "\<exists>fl. R (page_base (va + of_nat i)) = Some fl \<and> fl < 1024 \<and> flags_allow acc True fl"
proof -
  have b: "unat va + i < 2 ^ 38" using assms by (simp add: user_span_def)
  then have "i < 2 ^ 64" by simp
  then have "unat (of_nat i :: u64) = i" by (simp add: unat_of_nat take_bit_nat_eq_self_iff)
  then show u: "unat (va + of_nat i) = unat va + i" using b by (subst unat_add_u64) simp_all
  show "va + of_nat i < push_bit 38 1" using b by (simp add: word_less_nat_alt u)
  show "user_flags (R (page_base (va + of_nat i)))"
    and "\<exists>fl. R (page_base (va + of_nat i)) = Some fl \<and> fl < 1024 \<and> flags_allow acc True fl"
    using assms unfolding user_span_def by (force simp: user_flags_def)+
qed

lemma user_span_Suc:
  assumes "user_span acc R va (Suc n)"
  shows "user_span acc R (va + 1) n"
proof -
  have "unat (va + 1) = unat va + 1"
    using assms by (subst unat_add_u64) (simp_all add: user_span_def)
  moreover have "va + 1 + of_nat i = va + of_nat (Suc i)" for i by simp
  ultimately show ?thesis using assms unfolding user_span_def by (metis Suc_less_eq add_Suc_shift plus_1_eq_Suc add.commute)
qed

lemma user_span_take: "user_span acc R va n \<Longrightarrow> k \<le> n \<Longrightarrow> user_span acc R va k"
  by (auto simp: user_span_def)

lemma translate_space:
  assumes ds: "dspace L root s0 s R c" and satp: "satp_selects (csr_satp s) root" and um: "sum_bit s"
    and va: "va < push_bit 38 1" and R: "R (page_base va) = Some fl" "fl < 1024" "flags_allow acc True fl"
  shows "translate acc s va = Some (upage (mem s) root va + (va AND 0xFFF))"
proof -
  have ok: "vm_ok L root s" using ds by (simp add: dspace_def)
  have lt: "va < 0x8000000000" using va by (simp add: word_less_nat_alt)
  have m: "mapped_as L root s0 s c (Some fl) va"
    using ds lt R(1) unfolding dspace_def space_is_def by metis
  have leaf: "pt_leaf (mem s) root va = PA2PTE (upage (mem s) root va) OR fl OR PTE_V"
    using m by (simp add: mapped_as_def)
  have "upage (mem s) root va < 2 ^ 56"
  proof (cases "fl AND PTE_U = 0")
    case True
    then have "upage (mem s) root va = page_base va" using m by (simp add: mapped_as_def)
    then show ?thesis using lt by (simp add: word_less_nat_alt unat_page_base)
  next
    case False
    then have "upage (mem s) root va \<in> owned L s" using m by (auto simp: mapped_as_def)
    then show ?thesis using owned_56 vm_okD(1) [OF ok] by blast
  qed
  note e = leaf_entry [OF page_aligned_upage this R(2), folded leaf]
  show ?thesis
    unfolding translate_leaf [OF ok satp va] Let_def using e(1) [of acc "sum_bit s"] e(2) R(3) um by auto
qed

text \<open>A translation reads tables of the tree only.\<close>

lemma walk_tables_subset:
  assumes "table_of m root ip = Some t" and "index_path ip" and "length ip + l = 2"
  shows "walk_tables m t va l \<subseteq> tables m root"
  using assms
proof (induction l arbitrary: ip t)
  case 0
  then show ?case by (auto intro: tables_I)
next
  case (Suc l)
  let ?e = "pte_read m t (PX (Suc l) va)"
  have ip: "index_path (ip @ [PX (Suc l) va])" using Suc.prems(2,3)
    by (auto simp: index_path_def)
  have "walk_tables m (PTE2PA ?e) va l \<subseteq> tables m root" if "\<not> pte_invalid ?e"
  proof (rule Suc.IH [OF _ ip])
    have "?e AND PTE_V \<noteq> 0" using that by (auto simp: pte_invalid_def)
    then show "table_of m root (ip @ [PX (Suc l) va]) = Some (PTE2PA ?e)"
      by (simp add: table_of_append Suc.prems(1) table_of.simps(2))
  qed (use Suc.prems(3) in simp)
  then show ?case using tables_I [OF Suc.prems(2,1)] by (auto simp: Let_def)
qed

lemma space_buffer:
  assumes ds: "dspace L root s0 s R c" and satp: "satp_selects (csr_satp s) root" and um: "sum_bit s"
    and span: "user_span acc R va n"
  defines "f \<equiv> \<lambda>i. upage (mem s) root (va + of_nat i) + ((va + of_nat i) AND 0xFFF)"
  shows "user_buffer acc s va n f" and "\<And>i. i < n \<Longrightarrow> mem s (f i) = c (va + of_nat i)"
proof -
  have lt: "va + of_nat i < 0x8000000000" if "i < n" for i
    using user_span_byte(1) [OF span that] by (simp add: word_less_nat_alt)
  have m: "mapped_as L root s0 s c (R (page_base (va + of_nat i))) (va + of_nat i)"
    and uf: "user_flags (R (page_base (va + of_nat i)))" if "i < n" for i
    using ds lt [OF that] user_span_byte(2) [OF span that] by (auto simp: dspace_def space_is_def)
  have page: "page_base (f i) = upage (mem s) root (va + of_nat i)" for i by (simp add: f_def page_offset)
  show "mem s (f i) = c (va + of_nat i)" if "i < n" for i
    using m [OF that] uf [OF that] by (auto simp: f_def mapped_as_def user_flags_def split: option.splits)
  have tr: "translate acc s (va + of_nat i) = Some (f i)" if i: "i < n" for i
    using user_span_byte(4) [OF span i] translate_space [OF ds satp um user_span_byte(1) [OF span i]]
    by (auto simp: f_def)
  have tab: "page_base (f i) \<notin> va_tables s (va + of_nat j)" if "i < n" for i j
  proof -
    have "page_base (f i) \<notin> tables (mem s) root"
      using m [OF that] uf [OF that] by (auto simp: page mapped_as_def user_flags_def split: option.splits)
    moreover have "va_tables s (va + of_nat j) \<subseteq> tables (mem s) root"
      using satp walk_tables_subset [of "mem s" root "[]" root 2 "va + of_nat j"]
      by (auto simp: va_tables_def satp_selects_def)
    ultimately show ?thesis by blast
  qed
  have "inj_on f {..<n}"
  proof (rule inj_onI)
    fix i j assume ij: "i \<in> {..<n}" "j \<in> {..<n}" and e: "f i = f j"
    let ?a = "va + of_nat i" and ?b = "va + of_nat j"
    have up: "upage (mem s) root ?a = upage (mem s) root ?b" using e page by metis
    then have "page_base ?a = page_base ?b"
      using ds lt uf ij by (auto simp: dspace_def space_is_def)
    moreover have "?a AND 0xFFF = ?b AND 0xFFF" using e unfolding f_def up by (rule add_left_imp_eq)
    ultimately have "?a = ?b" by (metis page_split)
    then have "unat ?a = unat ?b" by simp
    then show "i = j" using user_span_byte(3) [OF span] ij by simp
  qed
  then show "user_buffer acc s va n f" using tr tab by (simp add: user_buffer_def)
qed

text \<open>A store of the kernel through a user address is an assignment to the memory of the process.\<close>

lemma user_write_space:
  assumes "dspace L root s0 s R c" and "satp_selects (csr_satp s) root" and "sum_bit s"
    and "user_span Store R va (length bs)"
  shows "\<exists>m. user_write va bs s = kret () (s\<lparr>mem := m\<rparr>) \<and>
    dspace L root s0 (s\<lparr>mem := m\<rparr>) R (overlay va bs c) \<and>
    (\<forall>x. page_base x \<notin> owned L s - owned L s0 \<longrightarrow> m x = mem s x)"
  using assms
proof (induction bs arbitrary: s va c)
  case Nil
  have "overlay va [] c = c" by (auto simp: overlay_def)
  then show ?case using Nil(1) by (intro exI [of _ "mem s"]) simp
next
  case (Cons b bs)
  have span: "user_span Store R va (Suc (length bs))" using Cons.prems(4) by simp
  note v = user_span_byte [OF span, of 0, simplified]
  have lt: "va < 0x8000000000" using v(1) by (simp add: word_less_nat_alt)
  let ?pa = "upage (mem s) root va + (va AND 0xFFF)"
  let ?s = "s\<lparr>mem := (mem s)(?pa := b)\<rparr>"
  have tr: "translate Store s va = Some ?pa"
    using v(4) translate_space [OF Cons.prems(1-3)] v(1) by auto
  note ub = dspace_user_byte(1,3) [OF Cons.prems(1) lt v(2), where b = b]
    and page = dspace_user_byte(2) [OF Cons.prems(1) lt v(2)]
  have "satp_selects (csr_satp ?s) root" "sum_bit ?s" using Cons.prems(2,3) by (simp_all add: sum_bit_def)
  from Cons.IH [OF ub(1) this user_span_Suc [OF span]] obtain m where
    m: "user_write (va + 1) bs ?s = kret () (?s\<lparr>mem := m\<rparr>)"
    "dspace L root s0 (?s\<lparr>mem := m\<rparr>) R (overlay (va + 1) bs (c(va := b)))"
    "\<forall>x. page_base x \<notin> owned L ?s - owned L s0 \<longrightarrow> m x = mem ?s x" by blast
  have rest: "m x = mem s x" if "page_base x \<notin> owned L s - owned L s0" for x
    using m(3) ub(2) page that by auto
  have "unat va + length (b # bs) < 2 ^ 64" using Cons.prems(4) by (simp add: user_span_def)
  then have "overlay (va + 1) bs (c(va := b)) = overlay va (b # bs) c" by (rule overlay_Cons)
  then show ?case using m(1,2) rest tr by (intro exI [of _ m]) (simp add: user_store_def)
qed

lemma user_read_space:
  assumes "dspace L root s0 s R c" and "satp_selects (csr_satp s) root" and "sum_bit s"
    and "user_span Load R va n"
  shows "user_read va n s = kret (map (\<lambda>i. c (va + of_nat i)) [0..<n]) s"
  using user_read_buffer [OF space_buffer(1) [OF assms]] space_buffer(2) [OF assms] by simp

section \<open>Properties\<close>

text \<open>
  C4: \<open>map_page\<close> and the processor agree. With the page table active, after
  \<open>map_page root va pa flags\<close> the translation of every address of the page of \<open>va\<close> is the same
  offset in \<open>pa\<close> when the flags allow the access (\<open>PTE_R\<close>, for a store \<open>PTE_W\<close> too, and for
  a user page the bit \<open>SUM\<close>) and a fault otherwise; every other address translates as before.
\<close>

theorem map_page_translates:
  assumes "vm_ok L root s" and "satp_selects (csr_satp s) root"
    and "va < push_bit 38 1" and "v < push_bit 38 1" and "page_aligned pa" and "pa < 2 ^ 56" and "flags < 1024"
    and "map_page L root va pa flags s = kret () s'"
  shows "translate acc s' v =
    (if page_base v \<noteq> page_base va then translate acc s v
     else if flags_allow acc (sum_bit s) flags then Some (pa + (v AND 0xFFF)) else None)"
proof -
  note m = map_page_spec [OF assms(1,8)]
  have s': "csr_satp s' = csr_satp s" "sum_bit s' = sum_bit s"
    using m proc_viewD [of s' s] by (simp_all add: vm_step_def sum_bit_def)
  then have satp': "satp_selects (csr_satp s') root" using assms(2) by simp
  have "va < 0x8000000000" "v < 0x8000000000" using assms(3,4) by (simp_all add: word_less_nat_alt)
  then have same: "same_vpage va v \<longleftrightarrow> page_base va = page_base v" by (rule same_vpage_iff)
  note e = leaf_entry [OF assms(5-7)]
  show ?thesis
    using m e(1) [of acc "sum_bit s"] e(2) same
    by (auto simp: translate_leaf [OF _ satp' assms(4)] translate_leaf [OF assms(1,2,4)] s' Let_def)
qed

theorem map_page_translates_witness:
  "\<exists>root s s'. map_page kernel_map root 0x1000000 0x80400000 18 s = kret () s' \<and>
     translate Load s' 0x1000abc = Some 0x80400abc \<and> translate Store s' 0x1000abc = None"
proof -
  obtain r s where b: "vm_ok kernel_map r s" "avail kernel_map s = 16383" by (rule boot_root) blast
  let ?t = "enable_sum (s\<lparr>csr_satp := MAKE_SATP r\<rparr>)"
  have f: "mem ?t = mem s" "pool_view ?t = pool_view s"
    by (simp_all add: enable_sum_def pool_view_def)
  have ok: "vm_ok kernel_map r ?t"
    using b(1) f(1) pool_frame [OF f(2), of kernel_map] by (simp add: vm_ok_def)
  have r: "page_aligned r" "r < 2 ^ 56"
    using b(1) root_in_tables [of r "mem s"] tables_subset vm_okD [OF b(1)] owned_56 [of kernel_map s] by blast+
  have satp: "satp_selects (csr_satp ?t) r" using satp_selects_make(1) [OF r] by simp
  have "avail kernel_map ?t = 16383" using b(2) f by (simp add: avail_def pool_view_def)
  then obtain s' where run: "map_page kernel_map r 0x1000000 0x80400000 18 ?t = kret () s'"
    using map_page_returns [OF ok, of "0x1000000" "0x80400000" 18] by (auto simp: page_aligned_def)
  have pre: "(0x1000000 :: u64) < push_bit 38 1" "(0x1000abc :: u64) < push_bit 38 1" "page_aligned 0x80400000"
    "(0x80400000 :: u64) < 2 ^ 56" "(18 :: u64) < 1024" by (simp_all add: page_aligned_def)
  note t = map_page_translates [OF ok satp pre run]
  have "flags_allow Load True 18" "\<not> flags_allow Store True 18" by (simp_all add: flags_allow_def)
  then show ?thesis using run t [of Load] t [of Store] by (auto simp: page_base_def)
qed

end
