(* ===== verification/User_Calls.thy ===== *)
theory User_Calls
  imports Mmu Trap
begin

text \<open>
  The time, and system calls on user buffers, from the trap of the process to its return: what
  \<^verbatim>\<open>sys_write\<close> and \<^verbatim>\<open>sys_ipc_send\<close> read is the memory of the process as it sees it,
  what \<^verbatim>\<open>sys_ipc_recv\<close> writes is an assignment to it. The last section shows the other side
  of that: the kernel does not ask whether a buffer is user memory.
\<close>

section \<open>Entry\<close>

text \<open>When \<open>handle_syscall\<close> is entered, the process has all its memory and its frame its registers.\<close>

definition call_entry :: "linker_syms \<Rightarrow> kstate \<Rightarrow> kstate \<Rightarrow> kstate \<Rightarrow> nat \<Rightarrow> regs \<Rightarrow> u64 \<Rightarrow> bool" where
  "call_entry L s0 s t c r pc \<longleftrightarrow>
     procs t = procs s \<and> current_proc t = Some c \<and> csr_satp t = csr_satp s \<and> uart_out t = uart_out s \<and>
     csr_time t = csr_time s \<and> frame_holds (tf_frame L c) r pc (mem t)"

lemma call_entry:
  assumes "in_user L s c" and "frame_outside L s0 s c"
    and "dspace L (p_page_table (procs s ! c)) s0 s R cb"
  obtains t where "call_entry L s0 s t c r pc" and "dspace L (p_page_table (procs s ! c)) s0 t R cb"
    and "user_trap L SCAUSE_ECALL pc r s =
      kbind (fbind (handle_syscall L (tf_frame L c) t) (\<lambda>_ s. kret (Ret ()) (s\<lparr>csr_sepc := pc + 4\<rparr>)))
        (trap_leave L (tf_frame L c) r)"
proof -
  have u: "c < PROCS_MAX" "current_proc s = Some c" using assms(1) by (simp_all add: in_user_def)
  obtain m where m: "frame_holds (tf_frame L c) r pc m"
    "\<And>x. 256 \<le> x - tf_frame L c \<Longrightarrow> 256 \<le> x - p_tf (procs s ! c) \<Longrightarrow> m x = mem s x"
    "user_trap L SCAUSE_ECALL pc r s =
      kbind (fbind (handle_syscall L (tf_frame L c) ((take_trap pc s)\<lparr>mem := m\<rparr>)) (\<lambda>_ s. kret (Ret ()) (s\<lparr>csr_sepc := pc + 4\<rparr>)))
        (trap_leave L (tf_frame L c) r)"
    using user_trap_entry [OF assms(1), of r pc SCAUSE_ECALL]
    by (auto simp: Let_def timer_cause_def SCAUSE_ECALL_def)
  have "dspace L (p_page_table (procs s ! c)) s0 (s\<lparr>mem := m\<rparr>) R cb"
    by (rule dspace_frames [OF assms(3) u(1) assms(2) m(2)])
  then have "dspace L (p_page_table (procs s ! c)) s0 ((take_trap pc s)\<lparr>mem := m\<rparr>) R cb"
    by (subst dspace_frame [where s = "s\<lparr>mem := m\<rparr>"]) (simp_all add: pool_view_def take_trap_def)
  then show thesis
    using m u(2) by (intro that [of "(take_trap pc s)\<lparr>mem := m\<rparr>"])
      (simp_all add: call_entry_def take_trap_def pool_view_def)
qed

lemma call_entry_reg:
  "call_entry L s0 s t c r pc \<Longrightarrow> frame_reg (tf_frame L c) x t = r x"
  using frame_reg_holds [of "tf_frame L c" r pc t] by (simp add: call_entry_def)

text \<open>Writing the answer to the frame leaves the memory of the process alone.\<close>

lemma answer_space:
  assumes "layout_ok L" and "c < PROCS_MAX" and "dspace L root s0 s R cb"
  shows "dspace L root s0 (sret ((set_frame_reg (tf_frame L c) A0 v s)\<lparr>csr_sepc := pc\<rparr>)) R cb"
proof -
  let ?w = "set_frame_reg (tf_frame L c) A0 v s"
  have "same_outside {page_base x | x. x - tf_frame L c < 256} (mem s) (mem ?w)"
    by (rule frame_only_outside [OF frame_only_set_reg])
  then have "dspace L root s0 (s\<lparr>mem := mem ?w\<rparr>) R cb"
    by (rule dspace_other_pages [OF assms(3)]) (use tf_frame_pages [OF assms(1,2)] in auto)
  then show ?thesis
    by (subst dspace_frame [where s = "s\<lparr>mem := mem ?w\<rparr>"])
      (simp_all add: pool_view_def sret_def set_frame_reg_def)
qed

section \<open>The time\<close>

text \<open>
  C9: the system call for the time, from the trap to the next instruction of the program.
  The program continues after the call with 0 in \<open>A0\<close> and every other register as it was;
  its memory holds at the address it passed a valid calendar date, the build time plus the
  uptime in seconds in the kernel's time zone, and is otherwise unchanged; the page table,
  the scheduler and the process table are too.
\<close>

theorem time_call:
  assumes "in_user L s c" and "r A7 = SYS_GET_TIME" and "r A0 = buf" and "frame_outside L s0 s c"
    and "dspace L (p_page_table (procs s ! c)) s0 s R cb" and "user_range L R buf 28"
  shows "\<exists>dt s'. user_trap L SCAUSE_ECALL pc r s = kret (Ret (r(A0 := 0))) s' \<and> csr_sepc s' = pc + 4 \<and>
    valid_date (dt_year dt) (dt_month dt) (dt_day dt) (dt_hour dt) (dt_minute dt) (dt_second dt) \<and>
    compute_epoch (dt_year dt) (dt_month dt) (dt_day dt) (dt_hour dt) (dt_minute dt) (dt_second dt) =
      build_epoch + csr_time s div 10000000 + 7200 \<and>
    dspace L (p_page_table (procs s ! c)) s0 s' R (overlay buf (date_bytes dt) cb) \<and>
    procs s' = procs s \<and> current_proc s' = current_proc s \<and> csr_satp s' = csr_satp s"
proof -
  let ?f = "tf_frame L c" and ?root = "p_page_table (procs s ! c)"
  have u: "layout_ok L" "c < PROCS_MAX" "current_proc s = Some c" using assms(1) by (simp_all add: in_user_def)
  obtain t where t: "call_entry L s0 s t c r pc" "dspace L ?root s0 t R cb"
    "user_trap L SCAUSE_ECALL pc r s =
      kbind (fbind (handle_syscall L ?f t) (\<lambda>_ s. kret (Ret ()) (s\<lparr>csr_sepc := pc + 4\<rparr>))) (trap_leave L ?f r)"
    by (rule call_entry [OF assms(1,4,5)])
  have e: "procs t = procs s" "current_proc t = Some c" "csr_satp t = csr_satp s" "csr_time t = csr_time s"
    "frame_holds ?f r pc (mem t)" using t(1) by (simp_all add: call_entry_def)
  obtain dt n where st: "sys_time L buf t = kret 0 (t\<lparr>mem := n\<rparr>)"
    "valid_date (dt_year dt) (dt_month dt) (dt_day dt) (dt_hour dt) (dt_minute dt) (dt_second dt)"
    "compute_epoch (dt_year dt) (dt_month dt) (dt_day dt) (dt_hour dt) (dt_minute dt) (dt_second dt) =
      build_epoch + get_time t div 10000000 + 7200"
    "dspace L ?root s0 (t\<lparr>mem := n\<rparr>) R (overlay buf (date_bytes dt) cb)"
    "\<And>x. page_base x \<notin> owned L t - owned L s0 \<Longrightarrow> n x = mem t x"
    using sys_time_space [OF e(2) t(2) [folded e(1)] assms(6)] unfolding e(1) by auto
  have fr: "frame_holds ?f r pc (mem (t\<lparr>mem := n\<rparr>))"
  proof (rule frame_holds_cong [OF e(5)])
    fix a assume "a - ?f < 256"
    then have "page_base a < free_ram L" by (rule tf_frame_pages [OF u(1,2)])
    moreover have "free_ram L \<le> p" if "p \<in> owned L t" for p
      using t(2) that by (intro owned_props(4)) (auto simp: dspace_def vm_ok_def)
    ultimately have "n a = mem t a" by (intro st(5)) (auto simp: not_le [symmetric])
    then show "mem (t\<lparr>mem := n\<rparr>) (?f + (a - ?f)) = mem t a" by simp
  qed
  have "handle_syscall L ?f t = kret (Ret ()) (set_frame_reg ?f A0 0 (t\<lparr>mem := n\<rparr>))"
    using assms(2,3) by (simp add: handle_syscall_def Let_def call_entry_reg [OF t(1)] sys_numbers signed_answer_def st(1))
  then have run: "user_trap L SCAUSE_ECALL pc r s =
      kret (Ret (r(A0 := 0))) (sret ((set_frame_reg ?f A0 0 (t\<lparr>mem := n\<rparr>))\<lparr>csr_sepc := pc + 4\<rparr>))"
    unfolding t(3) by (simp only: leave_answer [OF u(1,2) fr])
  from answer_space [OF u(1,2) st(4), where v = 0 and pc = "pc + 4"] show ?thesis
    using run st(2,3) e u(3)
    by (intro exI [of _ dt] exI [of _ "sret ((set_frame_reg ?f A0 0 (t\<lparr>mem := n\<rparr>))\<lparr>csr_sepc := pc + 4\<rparr>)"])
       (simp add: sret_def set_frame_reg_def get_time_def)
qed

theorem time_call_witness:
  "\<exists>s0 s dt s'. user_trap kernel_map SCAUSE_ECALL 0x1000400 ((\<lambda>_. 9)(A7 := 201, A0 := 0x1000000)) s =
       kret (Ret ((\<lambda>_. 9)(A7 := 201, A0 := 0))) s' \<and> csr_sepc s' = 0x1000404 \<and>
     compute_epoch (dt_year dt) (dt_month dt) (dt_day dt) (dt_hour dt) (dt_minute dt) (dt_second dt) =
       1759816807 \<and>
     dspace kernel_map (p_page_table (procs s ! 0)) s0 s'
       ((\<lambda>_. None)(0x1000000 \<mapsto> 31)) (overlay 0x1000000 (date_bytes dt) (\<lambda>_. 0))"
proof (rule one_page_user)
  fix s0 s
  assume s: "in_user kernel_map s 0" "frame_outside kernel_map s0 s 0"
    "dspace kernel_map (p_page_table (procs s ! 0)) s0 s ((\<lambda>_. None)(0x1000000 \<mapsto> 31)) (\<lambda>_. 0)"
    "csr_time s = 0"
  let ?r = "(\<lambda>_. 9)(A7 := 201, A0 := 0x1000000 :: u64)"
  have r: "?r A7 = SYS_GET_TIME" "?r A0 = 0x1000000" by (simp_all add: SYS_GET_TIME_def)
  have upd: "?r(A0 := 0) = (\<lambda>_. 9)(A7 := 201, A0 := 0)" by simp
  have e: "build_epoch + csr_time s div 10000000 + 7200 = 1759816807"
    by (simp add: build_epoch_value s(4))
  have n: "(28 :: nat) \<le> 4096" by simp
  have pc: "0x1000400 + 4 = (0x1000404 :: u64)" by simp
  show ?thesis
    using time_call [OF s(1) r s(2,3) one_page_range [OF n], where pc = "0x1000400"]
    unfolding upd e pc by blast
qed

section \<open>\<open>sys_write\<close>\<close>

lemma write_loop_space:
  assumes "dspace L root s0 s R c" and "satp_selects (csr_satp s) root" and "sum_bit s"
    and "user_span Load R va n"
  shows "write_loop va n s = kret () (uart_puts (map (\<lambda>i. c (va + of_nat i)) [0..<n]) s)"
  using assms
proof (induction n arbitrary: va s)
  case 0
  then show ?case by (simp add: uart_puts_def)
next
  case (Suc n)
  note b = space_buffer [OF Suc.prems]
  have ld: "user_load va s = kret (c va) s"
    using user_buffer_Suc(1) [OF b(1)] b(2) [of 0] by (simp add: user_load_def)
  let ?s = "uart_putc (c va) s"
  have "dspace L root s0 ?s R c"
    using Suc.prems(1) by (subst dspace_frame [where s = s]) (simp_all add: uart_putc_def pool_view_def)
  moreover have "satp_selects (csr_satp ?s) root" "sum_bit ?s"
    using Suc.prems(2,3) by (simp_all add: uart_putc_def sum_bit_def)
  ultimately have "write_loop (va + 1) n ?s = kret () (uart_puts (map (\<lambda>i. c (va + 1 + of_nat i)) [0..<n]) ?s)"
    by (rule Suc.IH) (rule user_span_Suc [OF Suc.prems(4)])
  moreover have "[0..<Suc n] = 0 # map Suc [0..<n]" by (simp add: upt_conv_Cons map_Suc_upt del: upt_Suc)
  ultimately show ?case using ld by (simp add: uart_puts_def comp_def add.assoc del: upt_Suc)
qed

text \<open>
  C10: a program that makes the system call \<^verbatim>\<open>write\<close> on descriptor 1 prints the \<open>n\<close> bytes of
  its own memory from the buffer on, as its program sees them, nothing more, and continues
  after the call with the length in \<open>A0\<close> and every other register, its memory and the
  processes unchanged.
\<close>

theorem write_call:
  assumes "in_user L s c" and "r A7 = SYS_WRITE" and "r A0 = 1" and "r A1 = buf" and "r A2 = of_nat n"
    and "frame_outside L s0 s c" and "dspace L (p_page_table (procs s ! c)) s0 s R cb"
    and "satp_selects (csr_satp s) (p_page_table (procs s ! c))"
    and "user_span Load R buf n" and "n < 2 ^ 31"
  shows "\<exists>s'. user_trap L SCAUSE_ECALL pc r s = kret (Ret (r(A0 := of_nat n))) s' \<and> csr_sepc s' = pc + 4 \<and>
    uart_out s' = uart_out s @ map (\<lambda>i. cb (buf + of_nat i)) [0..<n] \<and>
    dspace L (p_page_table (procs s ! c)) s0 s' R cb \<and> procs s' = procs s \<and>
    current_proc s' = current_proc s \<and> csr_satp s' = csr_satp s"
proof -
  let ?f = "tf_frame L c" and ?root = "p_page_table (procs s ! c)"
  have u: "layout_ok L" "c < PROCS_MAX" "current_proc s = Some c" using assms(1) by (simp_all add: in_user_def)
  obtain t where t: "call_entry L s0 s t c r pc" "dspace L ?root s0 t R cb"
    "user_trap L SCAUSE_ECALL pc r s =
      kbind (fbind (handle_syscall L ?f t) (\<lambda>_ s. kret (Ret ()) (s\<lparr>csr_sepc := pc + 4\<rparr>))) (trap_leave L ?f r)"
    by (rule call_entry [OF assms(1,6,7)])
  let ?bs = "map (\<lambda>i. cb (buf + of_nat i)) [0..<n]"
  have e: "procs t = procs s" "current_proc t = Some c" "csr_satp t = csr_satp s" "uart_out t = uart_out s"
    "frame_holds ?f r pc (mem t)" using t(1) by (simp_all add: call_entry_def)
  have "n < 2 ^ 64" using assms(10) by simp
  then have n: "unat (of_nat n :: u64) = n" by (simp add: unat_of_nat take_bit_nat_eq_self_iff)
  have "dspace L ?root s0 (enable_sum t) R cb"
    using t(2) by (subst dspace_frame [where s = t]) (simp_all add: enable_sum_def pool_view_def)
  from write_loop_space [OF this _ _ assms(9)]
  have wl: "write_loop buf n (enable_sum t) = kret () (uart_puts ?bs (enable_sum t))"
    using assms(8) by (simp add: e)
  have len: "scast (ucast (of_nat n :: u64) :: u32) = (of_nat n :: u64)"
  proof (rule bit_word_eqI)
    fix i assume i: "i < LENGTH(64)"
    have "take_bit 31 n = n" using assms(10) by (simp add: take_bit_nat_eq_self_iff)
    then have hi: "\<not> bit n j" if "31 \<le> j" for j using that by (metis bit_take_bit_iff not_le)
    show "bit (scast (ucast (of_nat n :: u64) :: u32) :: u64) i = bit (of_nat n :: u64) i"
      using i hi [of i] hi [of 31] by (cases "31 \<le> i") (auto simp: bit_simps bit_of_nat_iff_bit min_def)
  qed
  let ?u = "disable_sum (uart_puts ?bs (enable_sum t))"
  have sw: "sys_write 1 buf (of_nat n) t = kret (of_nat n) ?u"
    unfolding sys_write_def n wl using len by simp
  have h: "handle_syscall L ?f t = kret (Ret ()) (set_frame_reg ?f A0 (of_nat n) ?u)"
    using assms(2-5) by (simp add: handle_syscall_def Let_def call_entry_reg [OF t(1)] sys_numbers answer_def sw)
  have fr: "frame_holds ?f r pc (mem ?u)" using e(5) by simp
  have run: "user_trap L SCAUSE_ECALL pc r s =
      kret (Ret (r(A0 := of_nat n))) (sret ((set_frame_reg ?f A0 (of_nat n) ?u)\<lparr>csr_sepc := pc + 4\<rparr>))"
    unfolding t(3) h by (simp only: leave_answer [OF u(1,2) fr])
  have "dspace L ?root s0 ?u R cb"
    using t(2) by (subst dspace_frame [where s = t]) (simp_all add: enable_sum_def disable_sum_def uart_puts_out pool_view_def)
  from answer_space [OF u(1,2) this, where v = "of_nat n" and pc = "pc + 4"] show ?thesis
    using run e u(3) by (intro exI [of _ "sret ((set_frame_reg ?f A0 (of_nat n) ?u)\<lparr>csr_sepc := pc + 4\<rparr>)"])
      (simp add: sret_def set_frame_reg_def disable_sum_def enable_sum_def uart_puts_out)
qed

lemma one_page_span:
  assumes "n \<le> 4096" and "acc = Load \<or> acc = Store"
  shows "user_span acc ((\<lambda>_. None)(0x1000000 \<mapsto> 31)) 0x1000000 n"
proof -
  have "page_base (0x1000000 + of_nat i) = (0x1000000 :: u64)" if "i < n" for i
  proof -
    have "(of_nat i :: u64) < 4096" using that assms(1) by (simp add: word_less_nat_alt unat_of_nat_u64)
    then show ?thesis
      using in_page_iff [of "0x1000000" "0x1000000 + of_nat i"] by (simp add: page_aligned_def)
  qed
  then show ?thesis using assms by (auto simp: user_span_def flags_allow_def)
qed

text \<open>A process with one page, which begins with the letter H, running on its own page table.\<close>

lemma one_page_active:
  obtains s0 s where "in_user kernel_map s 0" and "frame_outside kernel_map s0 s 0"
    and "dspace kernel_map (p_page_table (procs s ! 0)) s0 s ((\<lambda>_. None)(0x1000000 \<mapsto> 31)) ((\<lambda>_. 0)(0x1000000 := 72))"
    and "satp_selects (csr_satp s) (p_page_table (procs s ! 0))" and "uart_out s = []"
    and "vm_ok kernel_map (p_page_table (procs s ! 0)) s" and "10000 \<le> avail kernel_map s"
    and "p_inbox (procs s ! 0) = \<lparr>im_data = [72, 73], im_size = 2, im_sender = 2, im_pending = True\<rparr>"
proof (rule one_page_space)
  fix r s0 t
  let ?R = "(\<lambda>_. None)(0x1000000 :: u64 \<mapsto> 31 :: u64)"
  assume t: "dspace kernel_map r s0 t ?R (\<lambda>_. 0)" "16000 \<le> avail kernel_map t"
    "proc_view t = proc_view s0" "proc_view s0 = proc_view (boot_state kernel_map)"
  let ?box = "\<lparr>im_data = [72, 73], im_size = 2, im_sender = 2, im_pending = True\<rparr>"
  let ?pa = "upage (mem t) r 0x1000000 + (0x1000000 AND 0xFFF)"
  let ?s = "t\<lparr>mem := (mem t)(?pa := 72), current_proc := Some 0, csr_sscratch := tf_stack_top kernel_map 0,
    csr_satp := MAKE_SATP r,
    procs := replicate PROCS_MAX (zero_proc\<lparr>p_page_table := r, p_tf := tf_frame kernel_map 0, p_inbox := ?box\<rparr>)\<rparr>"
  have "(0x1000000 :: u64) < 0x8000000000" "user_flags (?R (page_base 0x1000000))"
    by (simp_all add: user_flags_def page_base_def)
  note b = dspace_user_byte(1) [OF t(1) this, where b = 72]
  then have ds: "dspace kernel_map r s0 ?s ?R ((\<lambda>_. 0)(0x1000000 := 72))"
    by (subst dspace_frame [where s = "t\<lparr>mem := (mem t)(?pa := 72)\<rparr>"]) (simp_all add: pool_view_def del: fun_upd_apply)
  then have ok: "vm_ok kernel_map r ?s" by (simp add: dspace_def)
  then have r: "page_aligned r" "r < 2 ^ 56"
    using root_in_tables [of r "mem ?s"] tables_subset vm_okD [OF ok] owned_56 [of kernel_map ?s] by blast+
  have av: "avail kernel_map ?s = avail kernel_map t" by (simp add: avail_def)
  have "uart_out t = []" using proc_viewD [OF trans [OF t(3,4)]] by (simp add: boot_state_def)
  then show thesis
    using ds ok t(2) satp_selects_make(1) [OF r] av
    by (intro that [of ?s s0])
      (simp_all add: in_user_def frame_outside_def layout_ok_kernel_map PROCS_MAX_def)
qed

theorem write_call_witness:
  "\<exists>s s'. user_trap kernel_map SCAUSE_ECALL 0x1000400 ((\<lambda>_. 1)(A7 := 64, A1 := 0x1000000, A2 := 3)) s =
       kret (Ret ((\<lambda>_. 1)(A7 := 64, A1 := 0x1000000, A2 := 3, A0 := 3))) s' \<and>
     csr_sepc s' = 0x1000404 \<and> uart_out s' = [72, 0, 0]"
proof (rule one_page_active)
  fix s0 s
  assume s: "in_user kernel_map s 0" "frame_outside kernel_map s0 s 0"
    "dspace kernel_map (p_page_table (procs s ! 0)) s0 s ((\<lambda>_. None)(0x1000000 \<mapsto> 31)) ((\<lambda>_. 0)(0x1000000 := 72))"
    "satp_selects (csr_satp s) (p_page_table (procs s ! 0))" "uart_out s = []"
  let ?r = "(\<lambda>_. 1)(A7 := 64, A1 := 0x1000000, A2 := 3 :: u64)"
  have r: "?r A7 = SYS_WRITE" "?r A0 = 1" "?r A1 = 0x1000000" "?r A2 = of_nat 3" by (simp_all add: SYS_WRITE_def)
  have n: "(3 :: nat) \<le> 4096" "(3 :: nat) < 2 ^ 31" by simp_all
  have pc: "0x1000400 + 4 = (0x1000404 :: u64)" "of_nat 3 = (3 :: u64)" by simp_all
  have bs: "map (\<lambda>i. ((\<lambda>_. 0)(0x1000000 := 72)) (0x1000000 + of_nat i :: u64)) [0..<3] = [72 :: u8, 0, 0]"
    by (simp add: upt_rec)
  show ?thesis
    using write_call [OF s(1) r s(2-4) one_page_span [OF n(1)] n(2), where pc = "0x1000400"]
    unfolding pc s(5) bs append_Nil by blast
qed

section \<open>Messages\<close>

lemma frame_holds_user:
  assumes "layout_ok L" and "c < PROCS_MAX" and "frame_holds (tf_frame L c) r pc (mem t)" and "pool_ok L t"
    and "\<forall>x. page_base x \<notin> owned L t - owned L s0 \<longrightarrow> m x = mem t x"
  shows "frame_holds (tf_frame L c) r pc m"
proof (rule frame_holds_cong [OF assms(3)])
  fix a assume "a - tf_frame L c < 256"
  then have "page_base a < free_ram L" by (rule tf_frame_pages [OF assms(1,2)])
  moreover have "free_ram L \<le> p" if "p \<in> owned L t" for p using that by (rule owned_props(4) [OF assms(4)])
  ultimately have "m a = mem t a" using assms(5) by (auto simp: not_le [symmetric])
  then show "m (tf_frame L c + (a - tf_frame L c)) = mem t a" by simp
qed

text \<open>
  A program that makes the system call \<^verbatim>\<open>ipc_recv\<close> with a message waiting gets it: its
  memory changes by exactly the first \<open>k = min size max_size\<close> bytes of the message at the
  buffer, the inbox is empty, and \<open>A0\<close> holds \<open>k\<close>, except that a message of one byte is
  answered with \<open>-1\<close>, like an empty inbox.
\<close>

theorem recv_call:
  assumes "in_user L s c" and "r A7 = SYS_IPC_RECV" and "r A0 = buf" and "r A1 = max_size" and "r A2 = 0"
    and "frame_outside L s0 s c" and "dspace L (p_page_table (procs s ! c)) s0 s R cb"
    and "satp_selects (csr_satp s) (p_page_table (procs s ! c))"
    and "p_inbox (procs s ! c) = \<lparr>im_data = bs, im_size = sz, im_sender = from, im_pending = True\<rparr>"
    and "k = min (unat sz) (unat max_size)" and "k \<le> length bs" and "k \<le> 256" and "user_span Store R buf k"
  shows "\<exists>s'. user_trap L SCAUSE_ECALL pc r s = kret (Ret (r(A0 := if k = 1 then - 1 else of_nat k))) s' \<and>
    csr_sepc s' = pc + 4 \<and> dspace L (p_page_table (procs s ! c)) s0 s' R (overlay buf (take k bs) cb) \<and>
    procs s' = (procs s)[c := (procs s ! c)\<lparr>p_inbox :=
      \<lparr>im_data = bs, im_size = sz, im_sender = from, im_pending = False\<rparr>\<rparr>]"
proof -
  let ?f = "tf_frame L c" and ?root = "p_page_table (procs s ! c)"
  have u: "layout_ok L" "c < PROCS_MAX" "current_proc s = Some c" "c < length (procs s)"
    using assms(1) by (simp_all add: in_user_def)
  obtain t where t: "call_entry L s0 s t c r pc" "dspace L ?root s0 t R cb"
    "user_trap L SCAUSE_ECALL pc r s =
      kbind (fbind (handle_syscall L ?f t) (\<lambda>_ s. kret (Ret ()) (s\<lparr>csr_sepc := pc + 4\<rparr>))) (trap_leave L ?f r)"
    by (rule call_entry [OF assms(1,6,7)])
  have e: "procs t = procs s" "current_proc t = Some c" "csr_satp t = csr_satp s"
    "frame_holds ?f r pc (mem t)" using t(1) by (simp_all add: call_entry_def)
  let ?cs = "if max_size < sz then max_size else sz"
  have cs: "unat ?cs = k" using assms(10) by (auto simp: word_less_nat_alt)
  have one: "?cs = 1 \<longleftrightarrow> k = 1" unfolding word_unat_eq_iff cs by simp
  have int: "sint (ucast ?cs :: u32) = int k" using sint_ucast_small [of ?cs] cs assms(12) by simp
  have len: "length (take k bs) = k" using assms(11) by simp
  have span: "user_span Store R buf (length (take k bs))" using assms(13) by (simp only: len)
  have ds: "dspace L ?root s0 (enable_sum t) R cb"
    using t(2) by (subst dspace_frame [where s = t]) (simp_all add: enable_sum_def pool_view_def)
  have sel: "satp_selects (csr_satp (enable_sum t)) ?root" using assms(8) by (simp add: e)
  obtain m where m: "user_write buf (take k bs) (enable_sum t) = kret () ((enable_sum t)\<lparr>mem := m\<rparr>)"
    "dspace L ?root s0 ((enable_sum t)\<lparr>mem := m\<rparr>) R (overlay buf (take k bs) cb)"
    "\<forall>x. page_base x \<notin> owned L (enable_sum t) - owned L s0 \<longrightarrow> m x = mem (enable_sum t) x"
    using user_write_space [OF ds sel _ span] by auto
  let ?u = "set_inbox c (\<lambda>b. b\<lparr>im_pending := False\<rparr>) (disable_sum ((enable_sum t)\<lparr>mem := m\<rparr>))"
  have run: "sys_ipc_recv buf max_size 0 t = kret (if k = 1 then - 1 else int k) ?u"
    unfolding sys_ipc_recv_def e(1,2) option.case Let_def assms(9)
    using m(1) cs one int by (simp cong: if_cong)
  have h: "handle_syscall L ?f t = kret (Ret ()) (set_frame_reg ?f A0 (if k = 1 then - 1 else of_nat k) ?u)"
    using assms(2-5) by (simp add: handle_syscall_def Let_def call_entry_reg [OF t(1)] sys_numbers signed_answer_def run)
  have pool: "pool_ok L (enable_sum t)" using ds by (simp add: dspace_def vm_ok_def)
  have fr: "frame_holds ?f r pc (mem ?u)"
    using frame_holds_user [OF u(1,2) _ pool m(3)] e(4) by simp
  have res: "user_trap L SCAUSE_ECALL pc r s = kret (Ret (r(A0 := if k = 1 then - 1 else of_nat k)))
      (sret ((set_frame_reg ?f A0 (if k = 1 then - 1 else of_nat k) ?u)\<lparr>csr_sepc := pc + 4\<rparr>))"
    unfolding t(3) h by (simp only: leave_answer [OF u(1,2) fr])
  have "dspace L ?root s0 ?u R (overlay buf (take k bs) cb)"
    using m(2) by (subst dspace_frame [where s = "(enable_sum t)\<lparr>mem := m\<rparr>"])
      (simp_all add: pool_view_def set_inbox_def upd_proc_def disable_sum_def)
  from answer_space [OF u(1,2) this, where pc = "pc + 4"] show ?thesis
    using res e(1) u(4) assms(9) by (intro exI [of _ "sret ((set_frame_reg ?f A0 (if k = 1 then - 1 else of_nat k) ?u)\<lparr>csr_sepc := pc + 4\<rparr>)"])
      (simp add: sret_def set_frame_reg_def disable_sum_def enable_sum_def)
qed

theorem recv_call_witness:
  "\<exists>s0 s s'. user_trap kernel_map SCAUSE_ECALL 0x1000400 ((\<lambda>_. 0)(A7 := 403, A0 := 0x1000000, A1 := 256)) s =
       kret (Ret ((\<lambda>_. 0)(A7 := 403, A0 := 0x1000000, A1 := 256, A0 := 2))) s' \<and>
     dspace kernel_map (p_page_table (procs s ! 0)) s0 s' ((\<lambda>_. None)(0x1000000 \<mapsto> 31))
       (overlay 0x1000000 [72, 73] ((\<lambda>_. 0)(0x1000000 := 72)))"
proof (rule one_page_active)
  fix s0 s
  assume s: "in_user kernel_map s 0" "frame_outside kernel_map s0 s 0"
    "dspace kernel_map (p_page_table (procs s ! 0)) s0 s ((\<lambda>_. None)(0x1000000 \<mapsto> 31)) ((\<lambda>_. 0)(0x1000000 := 72))"
    "satp_selects (csr_satp s) (p_page_table (procs s ! 0))"
    "p_inbox (procs s ! 0) = \<lparr>im_data = [72, 73], im_size = 2, im_sender = 2, im_pending = True\<rparr>"
  let ?r = "(\<lambda>_. 0)(A7 := 403, A0 := 0x1000000, A1 := 256 :: u64)"
  have r: "?r A7 = SYS_IPC_RECV" "?r A0 = 0x1000000" "?r A1 = 256" "?r A2 = 0"
    by (simp_all add: SYS_IPC_RECV_def)
  have k: "2 = min (unat (2 :: u64)) (unat (256 :: u64))" "2 \<le> length [72 :: u8, 73]" "(2 :: nat) \<le> 256" by simp_all
  have span: "user_span Store ((\<lambda>_. None)(0x1000000 \<mapsto> 31)) 0x1000000 2" by (rule one_page_span) simp_all
  have v: "(if (2 :: nat) = 1 then - 1 else of_nat 2) = (2 :: u64)" "take 2 [72 :: u8, 73] = [72, 73]" by simp_all
  show ?thesis
    using recv_call [OF s(1) r s(2-5) k span, where pc = "0x1000400"] unfolding v by blast
qed

section \<open>What the kernel does not check\<close>

text \<open>Kernel memory, mapped to itself, is a buffer the kernel can write while \<^verbatim>\<open>SUM\<close> is set.\<close>

lemma kernel_memory_buffer:
  assumes "vm_ok L root s" and "satp_selects (csr_satp s) root" and "k \<le> 256"
    and "unat buf + k \<le> unat (free_ram L)"
    and "\<forall>i < k. pt_leaf (mem s) root (buf + of_nat i) = PA2PTE (page_base (buf + of_nat i)) OR 15 OR PTE_V"
  shows "user_buffer Store (enable_sum s) buf k (\<lambda>i. buf + of_nat i)"
proof -
  let ?s = "enable_sum s"
  have L: "layout_ok L" using assms(1) by (auto simp: vm_ok_def pool_ok_def pool_inv_def)
  then have fr: "unat (free_ram L) \<le> 2 ^ 38" by (auto simp: layout_ok_def word_le_nat_alt)
  have ok: "vm_ok L root ?s" and sel: "satp_selects (csr_satp ?s) root"
    using assms(1,2) pool_frame [of ?s s L] by (simp_all add: vm_ok_def enable_sum_def pool_view_def)
  have va: "buf + of_nat i < push_bit 38 1" "unat (buf + of_nat i) = unat buf + i" "page_base (buf + of_nat i) < free_ram L"
    if "i < k" for i
  proof -
    have i: "unat (of_nat i :: u64) = i" using that assms(3) by (simp add: unat_of_nat take_bit_nat_eq_self_iff)
    show u: "unat (buf + of_nat i) = unat buf + i"
      using that assms(4) fr i by (subst unat_add_u64) simp_all
    then show "buf + of_nat i < push_bit 38 1" and "page_base (buf + of_nat i) < free_ram L"
      using that assms(4) fr by (simp_all add: word_less_nat_alt unat_page_base)
  qed
  have tr: "translate Store ?s (buf + of_nat i) = Some (buf + of_nat i)" if i: "i < k" for i
  proof -
    have "page_base (buf + of_nat i) < 2 ^ 56" using va(3) [OF i] fr by (simp add: word_less_nat_alt)
    note e = leaf_entry [OF page_aligned_page_base this, of 15]
    have "flags_allow Store True 15" by (simp add: flags_allow_def)
    then show ?thesis
      using assms(5) i e(1) [of Store True] e(2) page_split [of "buf + of_nat i"]
      by (simp add: translate_leaf [OF ok sel va(1) [OF i]] Let_def)
  qed
  have tab: "page_base (buf + of_nat i) \<notin> va_tables ?s (buf + of_nat j)" if "i < k" for i j
  proof -
    have "va_tables ?s (buf + of_nat j) \<subseteq> owned L ?s"
      using sel walk_tables_subset [of "mem ?s" root "[]" root 2 "buf + of_nat j"] tables_subset [OF vm_okD(2) [OF ok]]
      by (auto simp: va_tables_def satp_selects_def)
    moreover have "page_base (buf + of_nat i) \<notin> owned L ?s"
      using owned_props(4) [OF vm_okD(1) [OF ok]] va(3) [OF that] by (auto simp: not_le [symmetric])
    ultimately show ?thesis by blast
  qed
  have inj: "inj_on (\<lambda>i. buf + of_nat i) {..<k}"
  proof (rule inj_onI)
    fix i j assume i: "i \<in> {..<k}" "j \<in> {..<k}" and e: "buf + of_nat i = buf + of_nat j"
    have "unat buf + i = unat buf + j"
      using va(2) [of i] va(2) [of j] i unfolding e by simp
    then show "i = j" by simp
  qed
  show ?thesis using tr tab inj by (simp add: user_buffer_def)
qed

text \<open>
  C11: \<^verbatim>\<open>sys_ipc_recv\<close> writes wherever its caller asks: a buffer in the kernel's own data,
  which every page table maps to itself without the bit \<open>PTE_U\<close>, is overwritten with the
  message.
\<close>

theorem recv_overwrites_kernel:
  assumes "vm_ok L root s" and "satp_selects (csr_satp s) root" and "current_proc s = Some c" and "c < length (procs s)"
    and "p_inbox (procs s ! c) = \<lparr>im_data = bs, im_size = of_nat k, im_sender = from, im_pending = True\<rparr>"
    and "k \<le> length bs" and "k \<le> 256" and "unat buf + k \<le> unat (free_ram L)"
    and "\<forall>i < k. pt_leaf (mem s) root (buf + of_nat i) = PA2PTE (page_base (buf + of_nat i)) OR 15 OR PTE_V"
  shows "\<exists>s'. sys_ipc_recv buf 256 0 s = kret (if k = 1 then - 1 else int k) s' \<and>
    (\<forall>i < k. mem s' (buf + of_nat i) = bs ! i)"
proof -
  note buf = kernel_memory_buffer [OF assms(1,2,7,8,9)]
  then have inj: "inj_on (\<lambda>i. buf + of_nat i) {..<k}" by (simp add: user_buffer_def)
  have k: "k = min (unat (of_nat k :: u64)) (unat (256 :: u64))"
    using assms(7) by (simp add: unat_of_nat take_bit_nat_eq_self_iff)
  obtain s' where s': "sys_ipc_recv buf 256 0 s = kret (if k = 1 then - 1 else int k) s'"
    "mem s' = put_bytes (\<lambda>i. buf + of_nat i) (take k bs) (mem s)"
    using sys_ipc_recv_takes [OF assms(3-5) k assms(6,7) buf] by blast
  have len: "length (take k bs) = k" using assms(6) by simp
  have inj': "inj_on (\<lambda>i. buf + of_nat i) {..<length (take k bs)}" unfolding len by (rule inj)
  have "mem s' (buf + of_nat i) = bs ! i" if "i < k" for i
  proof -
    have "mem s' (buf + of_nat i) = take k bs ! i"
      unfolding s'(2) by (rule put_bytes_apply(1) [OF inj']) (simp only: len that)
    then show ?thesis using that by simp
  qed
  with s'(1) show ?thesis by blast
qed

theorem recv_overwrites_kernel_witness:
  "\<exists>s s'. sys_ipc_recv 0x80201000 256 0 s = kret 2 s' \<and>
     mem s' 0x80201000 = 72 \<and> mem s' 0x80201001 = 73"
proof -
  let ?L = kernel_map and ?va = "0x80201000 :: u64"
  obtain r s where b: "vm_ok ?L r s" "avail ?L s = 16383" by (rule boot_root) blast
  have al: "page_aligned ?va" by (simp add: page_aligned_def)
  obtain t where run: "map_page ?L r ?va ?va 15 s = kret () t"
    using map_page_returns [OF b(1) al al, of 15] b(2) by auto
  note m = map_page_spec [OF b(1) run]
  let ?box = "\<lparr>im_data = [72, 73], im_size = of_nat 2, im_sender = 2, im_pending = True\<rparr>"
  let ?t = "t\<lparr>current_proc := Some 0, csr_satp := MAKE_SATP r, procs := [zero_proc\<lparr>p_inbox := ?box\<rparr>]\<rparr>"
  have ok: "vm_ok ?L r ?t" using m pool_frame [of ?t t ?L] by (simp add: vm_ok_def pool_view_def)
  have r: "page_aligned r" "r < 2 ^ 56"
    using root_in_tables [of r "mem ?t"] tables_subset vm_okD [OF ok] owned_56 [of ?L ?t] by blast+
  have sel: "satp_selects (csr_satp ?t) r" using satp_selects_make(1) [OF r] by simp
  have leaf: "\<forall>i < 2. pt_leaf (mem ?t) r (?va + of_nat i) = PA2PTE (page_base (?va + of_nat i)) OR 15 OR PTE_V"
  proof (intro allI impI)
    fix i :: nat assume "i < 2"
    then have "i = 0 \<or> i = 1" by linarith
    moreover have "page_base ?va = 0x80201000" "page_base (?va + 1) = 0x80201000" by (simp_all add: page_base_def)
    ultimately show "pt_leaf (mem ?t) r (?va + of_nat i) = PA2PTE (page_base (?va + of_nat i)) OR 15 OR PTE_V"
      using m by (auto simp: same_vpage_iff)
  qed
  have pre: "current_proc ?t = Some 0" "0 < length (procs ?t)" "p_inbox (procs ?t ! 0) = ?box"
    "2 \<le> length [72 :: u8, 73]" "(2 :: nat) \<le> 256" "unat ?va + 2 \<le> unat (free_ram ?L)"
    by (simp_all add: kernel_map_def)
  obtain s' where "sys_ipc_recv ?va 256 0 ?t = kret (if (2 :: nat) = 1 then - 1 else int 2) s'"
    "\<forall>i < 2. mem s' (?va + of_nat i) = [72, 73] ! i"
    using recv_overwrites_kernel [OF ok sel pre leaf] by blast
  moreover from this(2) [THEN spec, of 0] this(2) [THEN spec, of 1]
  have "mem s' 0x80201000 = 72" "mem s' 0x80201001 = 73" by simp_all
  ultimately show ?thesis by (intro exI [of _ ?t] exI [of _ s']) simp
qed

end
