(* ===== verification/User_Stdio.thy ===== *)
theory User_Stdio
  imports Console Tar_Fs
begin

text \<open>
  The library of the user programs: \<^verbatim>\<open>user/lib/printf.c\<close> and the wrappers of
  \<^verbatim>\<open>user/lib/syscall.c\<close>. A program acts on the world only by system calls, so a routine is
  modelled by the list of calls it makes, each with the data the kernel reads from the
  memory of the program; what the kernel answers is an argument of the programs that look at
  it. \<open>perform\<close> is what the kernel does to the console for one call.
\<close>

section \<open>Calls\<close>

text \<open>
  One constructor per call of \<^verbatim>\<open>syscall.c\<close>, \<^verbatim>\<open>printf.c\<close>, \<^verbatim>\<open>log.c\<close>, \<^verbatim>\<open>ipc.c\<close> and of the
  programs: \<open>U_write\<close> is a \<^verbatim>\<open>write\<close> on descriptor 1 with the bytes of its buffer, \<open>U_exec\<close>
  carries the file name and the argument strings.
\<close>

datatype ucall =
    U_putchar u8
  | U_write "u8 list"
  | U_read
  | U_clear
  | U_yield
  | U_ps
  | U_ls
  | U_get_time
  | U_sysinfo
  | U_log "u8 list"
  | U_exists "u8 list"
  | U_fork
  | U_exec "u8 list" "u8 list list"
  | U_wait
  | U_exit int
  | U_ipc_send int "u8 list"
  | U_ipc_recv

fun perform :: "ucall \<Rightarrow> kstate \<Rightarrow> kstate" where
  "perform (U_putchar c) s = uart_putc c s"
| "perform (U_write bs) s = uart_puts bs s"
| "perform U_clear s = uart_cls s"
| "perform _ s = s"

section \<open>\<^verbatim>\<open>printf.c\<close>\<close>

definition putc :: "u8 \<Rightarrow> ucall list" where
  "putc ch = [U_putchar ch]"

text \<open>\<^verbatim>\<open>puts\<close> of the string \<open>bs\<close>, one \<^verbatim>\<open>write\<close> of \<^verbatim>\<open>strlen\<close> bytes; \<open>puts_at\<close> finds it in memory.\<close>

definition puts :: "u8 list \<Rightarrow> ucall list" where
  "puts bs = [U_write bs]"

definition puts_at :: "mem \<Rightarrow> u64 \<Rightarrow> ucall list option" where
  "puts_at m p = map_option puts (read_cstr m p)"

text \<open>
  \<^verbatim>\<open>puthex\<close> and \<^verbatim>\<open>putpad\<close>: their digit loops are those of \<^verbatim>\<open>uart.c\<close>, word for word
  (\<open>hex_loop\<close>, \<open>pad_loop\<close>).
\<close>

definition puthex :: "u64 \<Rightarrow> int \<Rightarrow> ucall list" where
  "puthex val width =
     (let ds = (if val = 0 then [chr CHR ''0''] else hex_loop 16 val []);
          len = int (length ds)
      in concat (replicate (nat (width - len)) (putc (chr CHR ''0''))) @ puts ds)"

definition putpad :: "u64 \<Rightarrow> u64 \<Rightarrow> int \<Rightarrow> bool \<Rightarrow> bool \<Rightarrow> ucall list" where
  "putpad val base width zero_pad signed_val =
     (let negative = (signed_val \<and> sint val < 0);
          val = (if negative then - val else val);
          ds = (if val = 0 then [chr CHR ''0''] else pad_loop 31 base val []);
          len = int (length ds) + 1;
          pad = (if zero_pad then chr CHR ''0'' else chr CHR '' '')
      in (if negative then putc (chr CHR ''-'') else []) @
         concat (replicate (nat (width - len)) (putc pad)) @ puts ds)"

text \<open>One conversion of \<^verbatim>\<open>printf\<close>: the arguments that are left and the calls; \<open>None\<close> as in \<open>printf_spec\<close>.\<close>

definition conversion :: "mem \<Rightarrow> u8 \<Rightarrow> bool \<Rightarrow> int \<Rightarrow> nat \<Rightarrow> u64 list \<Rightarrow> (u64 list \<times> ucall list) option" where
  "conversion m spec zero_pad width len args =
     (if spec = chr CHR ''d'' then
        (case args of [] \<Rightarrow> None
         | v # args \<Rightarrow> Some (args, putpad (if len = 0 then scast (ucast v :: u32) else v) 10 width zero_pad True))
      else if spec = chr CHR ''u'' then
        (case args of [] \<Rightarrow> None
         | v # args \<Rightarrow> Some (args, putpad (if len = 0 then ucast (ucast v :: u32) else v) 10 width zero_pad False))
      else if spec = chr CHR ''x'' then
        (case args of [] \<Rightarrow> None
         | v # args \<Rightarrow> Some (args, puthex (if len = 0 then ucast (ucast v :: u32) else v) width))
      else if spec = chr CHR ''c'' then
        (case args of [] \<Rightarrow> None | v # args \<Rightarrow> Some (args, putc (ucast v)))
      else if spec = chr CHR ''s'' then
        (case args of [] \<Rightarrow> None
         | p # args \<Rightarrow>
             if p = 0 then Some (args, puts (bytes_of ''(null)''))
             else map_option (Pair args) (puts_at m p))
      else if spec = chr CHR ''p'' then
        (case args of [] \<Rightarrow> None
         | p # args \<Rightarrow> Some (args, puts (bytes_of ''0x'') @ puthex p 16))
      else if spec = chr CHR ''%'' then Some (args, putc (chr CHR ''%''))
      else Some (args, putc (chr CHR ''%'') @ putc spec))"

function printf :: "mem \<Rightarrow> u8 list \<Rightarrow> u64 list \<Rightarrow> ucall list option" where
  "printf m fmt args =
     (case fmt of
        [] \<Rightarrow> Some []
      | c # fmt \<Rightarrow>
          if c \<noteq> chr CHR ''%'' then map_option ((@) (putc c)) (printf m fmt args)
          else
            (case parse_spec fmt of
               (zero_pad, width, len, []) \<Rightarrow> None
             | (zero_pad, width, len, spec # fmt) \<Rightarrow>
                 (case conversion m spec zero_pad width len args of
                    None \<Rightarrow> None
                  | Some (args, cs) \<Rightarrow> map_option ((@) cs) (printf m fmt args))))"
  by pat_completeness auto
termination
proof (relation "measure (\<lambda>(m, fmt, args). length fmt)", goal_cases)
  case 1
  show ?case by simp
next
  case 2
  then show ?case by simp
next
  case 3
  then show ?case by (auto dest!: length_parse_spec [OF sym])
qed

declare printf.simps [simp del]

section \<open>What it prints\<close>

lemma perform_append: "fold perform (xs @ ys) s = fold perform ys (fold perform xs s)"
  by simp

lemma perform_putc [simp]: "fold perform (putc c) s = uart_putc c s"
  by (simp add: putc_def)

lemma perform_puts [simp]: "fold perform (puts bs) s = uart_puts bs s"
  by (simp add: puts_def)

lemma perform_replicate [simp]: "fold perform (concat (replicate n (putc c))) s = uart_puts (replicate n c) s"
  by (induction n arbitrary: s) (simp_all add: uart_puts_def)

lemma perform_puthex [simp]: "fold perform (puthex v w) s = uart_puthex v w s"
  by (simp add: puthex_def uart_puthex_def Let_def)

lemma perform_putpad [simp]: "fold perform (putpad v b w z sg) s = uart_putpad v b w z sg s"
  by (simp add: putpad_def uart_putpad_def Let_def)

lemma conversion_prints:
  "printf_spec m spec z w len args s =
    map_option (\<lambda>(args, cs). (args, fold perform cs s)) (conversion m spec z w len args)"
  by (auto simp: printf_spec_def conversion_def puts_at_def option.map_comp comp_def map_conv_bind_option
      split: list.split)

section \<open>The text and the deeds of a program\<close>

text \<open>The bytes a run of calls writes, and its calls that do not only read keys and print.\<close>

definition console :: "ucall list \<Rightarrow> u8 list" where
  "console cs = concat (map (\<lambda>u. case u of U_putchar c \<Rightarrow> [c] | U_write bs \<Rightarrow> bs | _ \<Rightarrow> []) cs)"

lemma console_simps [simp]:
  "console [] = []" "console (U_putchar c # cs) = c # console cs" "console (U_write bs # cs) = bs @ console cs"
  "console (U_read # cs) = console cs" "console (xs @ ys) = console xs @ console ys"
  "console (putc c) = [c]" "console (puts bs) = bs"
  by (simp_all add: console_def putc_def puts_def)

definition deeds :: "ucall list \<Rightarrow> ucall list" where
  "deeds cs = filter (\<lambda>u. case u of U_read \<Rightarrow> False | U_putchar _ \<Rightarrow> False | U_write _ \<Rightarrow> False | _ \<Rightarrow> True) cs"

lemma deeds_simps [simp]:
  "deeds [] = []" "deeds (U_read # cs) = deeds cs" "deeds (xs @ ys) = deeds xs @ deeds ys"
  "deeds (putc c) = []" "deeds (puts bs) = []"
  by (simp_all add: deeds_def putc_def puts_def)

text \<open>
  \<open>prints m fmt args out\<close>: \<^verbatim>\<open>printf\<close> with these arguments is defined and writes \<open>out\<close>. One rule
  for each piece of a format. \<open>dec\<close> is the decimal numeral of \<open>putpad\<close>; since the field width
  counts the NUL as a digit, \<^verbatim>\<open>%02d\<close> pads nothing.
\<close>

definition prints :: "mem \<Rightarrow> u8 list \<Rightarrow> u64 list \<Rightarrow> u8 list \<Rightarrow> bool" where
  "prints m fmt args out \<longleftrightarrow> (\<exists>cs. printf m fmt args = Some cs \<and> console cs = out \<and> deeds cs = [])"

definition dec :: "u64 \<Rightarrow> u8 list" where
  "dec v = (if v = 0 then [chr CHR ''0''] else pad_loop 31 10 v [])"

lemma prints_nil: "prints m [] args []"
  by (simp add: prints_def printf.simps)

lemma printf_plain: "37 \<notin> set pre \<Longrightarrow> printf m (pre @ fmt) args = map_option ((@) (map U_putchar pre)) (printf m fmt args)"
proof (induction pre)
  case (Cons c pre)
  then have "c \<noteq> chr CHR ''%''" by auto
  then show ?case using Cons
    by (subst append_Cons, subst printf.simps) (cases "printf m fmt args", simp_all add: putc_def)
qed (simp add: map_option_idI)

lemma printf_string:
  assumes "cstr_at m p w" and "p \<noteq> 0"
  shows "printf m (37 # 115 # fmt) (p # args) = map_option ((@) [U_write w]) (printf m fmt args)"
proof -
  have "parse_spec (115 # fmt) = (False, 0, 0, 115 # fmt)"
    by (simp add: parse_spec_def printf_flags_def parse_length_def)
  then show ?thesis
    using read_cstr_cstr [OF assms(1)] assms(2)
    by (subst printf.simps) (simp add: conversion_def puts_at_def puts_def)
qed

lemma console_putchars [simp]: "console (map U_putchar bs) = bs" "deeds (map U_putchar bs) = []"
  by (induction bs) (simp_all add: deeds_def)

lemma prints_plain:
  assumes "37 \<notin> set pre" and "prints m fmt args out"
  shows "prints m (pre @ fmt) args (pre @ out)"
  using assms printf_plain [of pre m fmt args] by (auto simp: prints_def)

lemma prints_string:
  assumes "cstr_at m p w" and "p \<noteq> 0" and "prints m fmt args out"
  shows "prints m (37 # 115 # fmt) (p # args) (w @ out)"
proof -
  obtain cs where cs: "printf m fmt args = Some cs" "console cs = out" "deeds cs = []"
    using assms(3) by (auto simp: prints_def)
  then have "printf m (37 # 115 # fmt) (p # args) = Some (U_write w # cs)"
    using printf_string [OF assms(1,2), of fmt args] by simp
  moreover have "deeds (U_write w # cs) = []" using cs(3) by (simp add: deeds_def)
  ultimately show ?thesis using cs(2) by (simp add: prints_def)
qed

lemma dec_value: "numeral_value 10 (dec v) = unat v" "dec v \<noteq> []" "length (dec v) \<le> 31"
proof -
  have "unat v < unat (10 :: u64) ^ 31" using unat_u64_bound [of v] by simp
  from pad_loop_value [OF _ _ this]
  show "numeral_value 10 (dec v) = unat v" "dec v \<noteq> []" "length (dec v) \<le> 31"
    by (simp_all add: dec_def numeral_value_def [of 10 "[48]"] digit_value_def del: pad_loop.simps)
qed

lemma putpad_narrow:
  assumes "width \<le> 2"
  shows "putpad v 10 width z signed_val =
    (let negative = (signed_val \<and> sint v < 0) in
     (if negative then putc (chr CHR ''-'') else []) @ puts (dec (if negative then - v else v)))"
proof -
  have "nat (width - (int (length (dec u)) + 1)) = 0" for u :: u64
    using assms dec_value(2) [of u] by (cases "dec u") auto
  then have n: "concat (replicate (nat (width - (int (length (dec u)) + 1))) c) = []" for u :: u64 and c :: "ucall list"
    by simp
  show ?thesis unfolding putpad_def Let_def dec_def [symmetric] n by simp
qed

lemma console_dec:
  assumes "width \<le> 2"
  shows "\<not> signed_val \<or> 0 \<le> sint v \<Longrightarrow> console (putpad v 10 width z signed_val) = dec v"
    and "deeds (putpad v 10 width z signed_val) = []"
  unfolding putpad_narrow [OF assms] Let_def by auto

lemma prints_conversion:
  assumes "parse_spec fmt = (z, w, l, spec # fmt')" and "conversion m spec z w l args = Some (args', cs)"
    and "console cs = bs" and "deeds cs = []" and "prints m fmt' args' out"
  shows "prints m (37 # fmt) args (bs @ out)"
proof -
  obtain cs' where cs': "printf m fmt' args' = Some cs'" "console cs' = out" "deeds cs' = []"
    using assms(5) by (auto simp: prints_def)
  then have "printf m (37 # fmt) args = Some (cs @ cs')"
    using assms(1,2) by (simp add: printf.simps [of m "37 # fmt"])
  then show ?thesis using cs' assms(3,4) by (simp add: prints_def)
qed

text \<open>The conversions of the programs.\<close>

lemma sint_of_int_u64: "0 \<le> i \<Longrightarrow> i < 2 ^ 31 \<Longrightarrow> sint (of_int i :: u64) = i"
  by (simp add: signed_of_int signed_take_bit_int_eq_self)

lemma scast_ucast_u64: "0 \<le> i \<Longrightarrow> i < 2 ^ 31 \<Longrightarrow> (scast (ucast (of_int i :: u64) :: u32) :: u64) = of_int i"
  by (simp add: unsigned_of_int signed_of_int signed_take_bit_int_eq_self take_bit_int_eq_self)

lemma prints_int:
  assumes "parse_spec fmt = (z, w, 0, 100 # fmt')" and "w \<le> 2" and "0 \<le> i" and "i < 2 ^ 31"
    and "prints m fmt' args out"
  shows "prints m (37 # fmt) (of_int i # args) (dec (of_int i) @ out)"
  using assms by (intro prints_conversion [OF assms(1), of m _ args "putpad (of_int i) 10 w z True"])
    (simp_all add: conversion_def scast_ucast_u64 console_dec sint_of_int_u64)

lemma prints_d:
  assumes "0 \<le> i" and "i < 2 ^ 31" and "prints m fmt args out"
  shows "prints m (37 # 100 # fmt) (of_int i # args) (dec (of_int i) @ out)"
  by (rule prints_int [of _ False 0]) (use assms in \<open>simp_all add: parse_spec_def printf_flags_def parse_length_def\<close>)

lemma prints_02d:
  assumes "0 \<le> i" and "i < 2 ^ 31" and "prints m fmt args out"
  shows "prints m (37 # 48 # 50 # 100 # fmt) (of_int i # args) (dec (of_int i) @ out)"
  by (rule prints_int [of _ True 2]) (use assms in \<open>simp_all add: parse_spec_def printf_flags_def parse_length_def\<close>)

lemma prints_lu:
  assumes "prints m fmt args out"
  shows "prints m (37 # 108 # 117 # fmt) (v # args) (dec v @ out)"
proof -
  have p: "parse_spec (108 # 117 # fmt) = (False, 0, 1, 117 # fmt)"
    by (simp add: parse_spec_def printf_flags_def parse_length_def)
  show ?thesis
    by (rule prints_conversion [OF p, of m _ args "putpad v 10 0 False False"])
      (use assms in \<open>simp_all add: conversion_def console_dec\<close>)
qed

text \<open>A memory image with the strings \<open>ws\<close> at 0x1000, 32 bytes for each.\<close>

definition table_lit :: "u8 list list \<Rightarrow> u8 list \<Rightarrow> u64" where
  "table_lit ws w =
     (case map_of (zip ws (map (\<lambda>k. 4096 + of_nat (32 * k)) [0..<length ws])) w of None \<Rightarrow> 0 | Some a \<Rightarrow> a)"

definition table_image :: "u8 list list \<Rightarrow> mem" where
  "table_image ws x =
     (let k = (unat x - 4096) div 32; i = (unat x - 4096) mod 32 in
      if 4096 \<le> unat x \<and> k < length ws \<and> i < length (ws ! k) then ws ! k ! i else 0)"

lemma table_image_cstr:
  assumes "distinct ws" and "\<forall>w \<in> set ws. length w < 32 \<and> 0 \<notin> set w" and "length ws \<le> 100" and "k < length ws"
  shows "cstr_at (table_image ws) (table_lit ws (ws ! k)) (ws ! k) \<and> unat (table_lit ws (ws ! k)) = 4096 + 32 * k"
proof -
  let ?w = "ws ! k" and ?p = "4096 + of_nat (32 * k) :: u64"
  have w: "length ?w < 32" "0 \<notin> set ?w" using assms(2,4) by auto
  have "map_of (zip ws (map (\<lambda>k. 4096 + of_nat (32 * k) :: u64) [0..<length ws])) ?w =
      Some (map (\<lambda>k. 4096 + of_nat (32 * k)) [0..<length ws] ! k)"
    by (rule map_of_zip_nth) (use assms in simp_all)
  then have p: "table_lit ws ?w = ?p" using assms(4) by (simp add: table_lit_def)
  have u: "unat (?p + of_nat i) = 4096 + 32 * k + i" if "i < 32" for i
  proof -
    have e: "?p + of_nat i = (of_nat (4096 + 32 * k + i) :: u64)" by simp
    have "4096 + 32 * k + i < 2 ^ 64" using that assms(3,4) by simp
    then show ?thesis unfolding e by (rule unat_of_nat_u64)
  qed
  have at: "table_image ws (?p + of_nat i) = (if i < length ?w then ?w ! i else 0)" if "i < 32" for i
    using u [OF that] that assms(4) by (simp add: table_image_def Let_def)
  have "cstr_at (table_image ws) ?p ?w"
    unfolding cstr_at_iff
  proof (intro conjI allI impI)
    fix i assume i: "i < length ?w"
    then show "table_image ws (?p + of_nat i) = ?w ! i" using at [of i] w(1) by simp
    show "?w ! i \<noteq> 0" using w(2) i nth_mem by metis
  qed (use at [of "length ?w"] w(1) in simp)
  then show ?thesis using p u [of 0] by simp
qed

lemma printf_loop_calls:
  "printf_loop m fmt args t = map_option (\<lambda>cs. fold perform cs t) (printf m fmt args)"
proof (induction fmt arbitrary: args t rule: length_induct)
  case (1 fmt)
  then have IH: "printf_loop m f a t = map_option (\<lambda>cs. fold perform cs t) (printf m f a)"
    if "length f < length fmt" for f a t using that by blast
  show ?case
  proof (cases fmt)
    case Nil
    then show ?thesis by (simp add: printf.simps printf_loop.simps)
  next
    case (Cons c fmt')
    obtain z w l rest where p: "parse_spec fmt' = (z, w, l, rest)" by (metis surj_pair)
    have len: "length rest \<le> length fmt'" by (rule length_parse_spec [OF p])
    have "printf_loop m f a u = map_option (\<lambda>cs. fold perform cs u) (printf m f a)"
      if "rest = spec # f" for spec f a u using len that Cons by (intro IH) simp
    then show ?thesis
      using IH [of fmt' args] Cons p conversion_prints [of m _ z w l args t]
      by (cases rest; subst printf.simps, subst printf_loop.simps)
        (auto simp: option.map_comp comp_def split: option.split)
  qed
qed

text \<open>
  C14: \<^verbatim>\<open>printf\<close> of the user library is \<^verbatim>\<open>uart_printf\<close> of the kernel, seen from the other side
  of the system calls: performing the calls it makes leaves the console as \<^verbatim>\<open>uart_printf\<close> with
  the same format, arguments and memory does, and each is undefined where the other is.
\<close>

theorem printf_as_kernel:
  "uart_printf fmt args (s\<lparr>mem := m\<rparr>) =
    map_option (\<lambda>cs. fold perform cs (s\<lparr>mem := m\<rparr>)) (printf m fmt args)"
  by (simp add: uart_printf_def printf_loop_calls)

end
