(* ===== verification/User_Heap.thy ===== *)
theory User_Heap
  imports Kernel_Frame
begin

text \<open>
  The heap of a user program: \<^verbatim>\<open>user/lib/sbrk.c\<close> and \<^verbatim>\<open>user/lib/malloc.c\<close>. The heap grows at
  its end by the system call \<^verbatim>\<open>sbrk\<close>; a block is a header of 16 bytes (\<^verbatim>\<open>size\<close>, \<^verbatim>\<open>next\<close>) and its
  bytes, and the blocks that were freed are on a list, the last freed first. Nothing is ever
  merged. The static variables \<^verbatim>\<open>heap_end\<close> and \<^verbatim>\<open>free_list\<close> are fields of the state, the
  kernel is an argument: \<open>grow inc k\<close> is its answer to \<^verbatim>\<open>SYS_SBRK\<close> and its next state.
\<close>

section \<open>The code\<close>

record uheap =
  uh_mem :: mem
  uh_end :: u64
  uh_free :: u64

type_synonym 'k brk_call = "u64 \<Rightarrow> 'k \<Rightarrow> (int \<times> 'k) option"

definition sbrk :: "u64 \<Rightarrow> 'k brk_call \<Rightarrow> u64 \<Rightarrow> uheap \<Rightarrow> 'k \<Rightarrow> (u64 \<times> uheap \<times> 'k) option" where
  "sbrk start grow inc s k =
     (let s = (if uh_end s = 0 then s\<lparr>uh_end := start\<rparr> else s);
          prev = uh_end s;
          new_end = uh_end s + inc
      in do {
        (res, k) \<leftarrow> grow inc k;
        if res < 0 then Some (- 1, s, k) else Some (prev, s\<lparr>uh_end := new_end\<rparr>, k)
      })"

text \<open>The loop of \<^verbatim>\<open>malloc\<close>: \<^verbatim>\<open>prev\<close> and \<^verbatim>\<open>curr\<close> where it stops, \<^verbatim>\<open>curr\<close> being \<^verbatim>\<open>NULL\<close> when nothing fits.\<close>

partial_function (option) malloc_search :: "mem \<Rightarrow> u64 \<Rightarrow> u64 \<Rightarrow> u64 \<Rightarrow> (u64 \<times> u64) option" where
  "malloc_search m n prev cur =
     (if cur = 0 \<or> n \<le> load64 m cur then Some (prev, cur)
      else malloc_search m n cur (load64 m (cur + 8)))"

definition set_link :: "u64 \<Rightarrow> u64 \<Rightarrow> uheap \<Rightarrow> uheap" where
  "set_link prev v s =
     (if prev \<noteq> 0 then s\<lparr>uh_mem := store64 (uh_mem s) (prev + 8) v\<rparr> else s\<lparr>uh_free := v\<rparr>)"

definition take_free :: "u64 \<Rightarrow> u64 \<Rightarrow> u64 \<Rightarrow> uheap \<Rightarrow> u64 \<times> uheap" where
  "take_free n prev cur s =
     (let m = uh_mem s in
      if n + 16 + 8 \<le> load64 m cur then
        (let new = cur + 16 + n;
             m = store64 m new (load64 m cur - n - 16);
             m = store64 m (new + 8) (load64 m (cur + 8));
             m = store64 m cur n
         in (cur + 16, set_link prev new (s\<lparr>uh_mem := m\<rparr>)))
      else (cur + 16, set_link prev (load64 m (cur + 8)) s))"

definition umalloc :: "u64 \<Rightarrow> 'k brk_call \<Rightarrow> u64 \<Rightarrow> uheap \<Rightarrow> 'k \<Rightarrow> (u64 \<times> uheap \<times> 'k) option" where
  "umalloc start grow sz s k =
     (let n = (sz + 7) AND NOT 7 in
      do {
        (prev, cur) \<leftarrow> malloc_search (uh_mem s) n 0 (uh_free s);
        if cur \<noteq> 0 then
          (let (p, s) = take_free n prev cur s in Some (p, s, k))
        else do {
          (p, s, k) \<leftarrow> sbrk start grow (n + 16) s k;
          if p = - 1 then Some (0, s, k)
          else Some (p + 16, s\<lparr>uh_mem := store64 (uh_mem s) p n\<rparr>, k)
        }
      })"


section \<open>Blocks\<close>

text \<open>
  A block is an address and a size. \<open>chain m p bs q\<close>: the list that starts at \<open>p\<close> consists of
  the blocks \<open>bs\<close> and goes on at \<open>q\<close>.
\<close>

type_synonym block = "u64 \<times> u64"

definition block_end :: "block \<Rightarrow> nat" where
  "block_end b = unat (fst b) + 16 + unat (snd b)"

definition apart :: "block \<Rightarrow> block \<Rightarrow> bool" where
  "apart b c \<longleftrightarrow> block_end b \<le> unat (fst c) \<or> block_end c \<le> unat (fst b)"

definition block_ok :: "nat \<Rightarrow> nat \<Rightarrow> block \<Rightarrow> bool" where
  "block_ok lo hi b \<longleftrightarrow> aligned8 (fst b) \<and> aligned8 (snd b) \<and> lo \<le> unat (fst b) \<and> block_end b \<le> hi"

primrec chain :: "mem \<Rightarrow> u64 \<Rightarrow> block list \<Rightarrow> u64 \<Rightarrow> bool" where
  "chain m p [] q \<longleftrightarrow> p = q"
| "chain m p (b # bs) q \<longleftrightarrow> p = fst b \<and> load64 m p = snd b \<and> chain m (load64 m (p + 8)) bs q"

text \<open>The bytes a program may use of the blocks it holds.\<close>

definition bytes_of_block :: "block \<Rightarrow> u64 set" where
  "bytes_of_block b = {x. unat (fst b) + 16 \<le> unat x \<and> unat x < block_end b}"

definition heap_end_of :: "u64 \<Rightarrow> uheap \<Rightarrow> u64" where
  "heap_end_of start s = (if uh_end s = 0 then start else uh_end s)"

definition blocks_ok :: "nat \<Rightarrow> nat \<Rightarrow> block list \<Rightarrow> bool" where
  "blocks_ok lo hi bs \<longleftrightarrow> (\<forall>b \<in> set bs. block_ok lo hi b) \<and> distinct bs \<and> pairwise apart (set bs)"

definition uheap_ok :: "u64 \<Rightarrow> uheap \<Rightarrow> block list \<Rightarrow> block list \<Rightarrow> bool" where
  "uheap_ok start s fl live \<longleftrightarrow>
     start \<noteq> 0 \<and> aligned8 start \<and> aligned8 (heap_end_of start s) \<and> start \<le> heap_end_of start s \<and>
     unat (heap_end_of start s) < 2 ^ 63 \<and>
     chain (uh_mem s) (uh_free s) fl 0 \<and> (\<forall>b \<in> set live. load64 (uh_mem s) (fst b) = snd b) \<and>
     blocks_ok (unat start) (unat (heap_end_of start s)) (fl @ live)"

lemma apart_sym: "apart b c \<Longrightarrow> apart c b"
  by (auto simp: apart_def)

lemma apart_irrefl: "\<not> apart b b"
  by (simp add: apart_def block_end_def)

lemma chain_append: "chain m p (xs @ ys) q \<longleftrightarrow> (\<exists>r. chain m p xs r \<and> chain m r ys q)"
  by (induction xs arbitrary: p) auto

lemma chain_cong:
  assumes "\<And>b. b \<in> set bs \<Longrightarrow> load64 m' (fst b) = load64 m (fst b) \<and> load64 m' (fst b + 8) = load64 m (fst b + 8)"
  shows "chain m' p bs q = chain m p bs q"
  using assms
proof (induction bs arbitrary: p)
  case (Cons b bs)
  have IH: "chain m' r bs q = chain m r bs q" for r using Cons by simp
  have h: "load64 m' (fst b) = load64 m (fst b)" "load64 m' (fst b + 8) = load64 m (fst b + 8)"
    using Cons.prems [of b] by simp_all
  show ?case unfolding chain.simps by (cases "p = fst b") (simp_all only: h IH simp_thms)
qed simp

lemma block_words:
  assumes "block_ok lo hi b" and "hi < 2 ^ 63"
  shows "unat (fst b + 8) = unat (fst b) + 8" and "unat (fst b + 16) = unat (fst b) + 16"
    and "aligned8 (fst b)" and "aligned8 (fst b + 8)" and "aligned8 (fst b + 16)"
proof -
  have b: "unat (fst b) + 16 < 2 ^ 64" using assms by (simp add: block_ok_def block_end_def)
  then show "unat (fst b + 8) = unat (fst b) + 8" and "unat (fst b + 16) = unat (fst b) + 16"
    by (subst unat_add_u64; simp)+
  show al: "aligned8 (fst b)" using assms by (simp add: block_ok_def)
  show "aligned8 (fst b + 8)" and "aligned8 (fst b + 16)"
    using al by (auto intro!: aligned8_add)
qed

text \<open>The header words of two blocks that are apart are four different words.\<close>

lemma headers_differ:
  assumes "block_ok lo hi b" and "block_ok lo hi c" and "hi < 2 ^ 63" and "apart b c"
  shows "fst b \<noteq> fst c" and "fst b + 8 \<noteq> fst c" and "fst b \<noteq> fst c + 8" and "fst b + 8 \<noteq> fst c + 8"
proof -
  note w = block_words(1) [OF assms(1,3)] block_words(1) [OF assms(2,3)]
  show "fst b \<noteq> fst c" and "fst b + 8 \<noteq> fst c" and "fst b \<noteq> fst c + 8" and "fst b + 8 \<noteq> fst c + 8"
    using assms(4) w by (auto simp: apart_def block_end_def)
qed

text \<open>A word below or above a byte is not hit by a store to it.\<close>

lemma store64_away:
  assumes "unat x < unat a \<or> unat a + 8 \<le> unat x" and "unat a + 8 \<le> 2 ^ 64"
  shows "store64 m a v x = m x"
proof (rule store64_other)
  show "8 \<le> x - a"
    using assms unat_diff_u64 [of x a] unat_u64_bound [of x] by (auto simp: word_le_nat_alt)
qed

lemma header_away:
  assumes "block_ok lo hi b" and "block_ok lo hi c" and "hi < 2 ^ 63" and "b = c \<or> apart b c"
    and "x \<in> bytes_of_block c"
  shows "store64 m (fst b) v x = m x" and "store64 m (fst b + 8) v x = m x"
proof -
  note w = block_words(1) [OF assms(1,3)]
  have b: "unat (fst b) + 16 < 2 ^ 64" using assms(1,3) by (simp add: block_ok_def block_end_def)
  have "unat x < unat (fst b) \<or> unat (fst b) + 16 \<le> unat x"
    using assms(4,5) by (auto simp: apart_def bytes_of_block_def block_end_def)
  then show "store64 m (fst b) v x = m x" and "store64 m (fst b + 8) v x = m x"
    using w b by (auto intro!: store64_away)
qed

section \<open>The search\<close>

text \<open>First fit on the list of free blocks: the block that is taken and the list that is left.\<close>

primrec first_fit :: "u64 \<Rightarrow> block list \<Rightarrow> (block \<times> block list) option" where
  "first_fit n [] = None"
| "first_fit n (b # bs) =
     (if n \<le> snd b
      then Some (if unat n + 24 \<le> unat (snd b) then ((fst b, n), (fst b + 16 + n, snd b - n - 16) # bs) else (b, bs))
      else map_option (apsnd ((#) b)) (first_fit n bs))"

lemma first_fit_split:
  "(first_fit n bs = None \<and> (\<forall>b \<in> set bs. \<not> n \<le> snd b)) \<or>
   (\<exists>pre b post. bs = pre @ b # post \<and> (\<forall>c \<in> set pre. \<not> n \<le> snd c) \<and> n \<le> snd b \<and>
     first_fit n bs = Some (if unat n + 24 \<le> unat (snd b)
       then ((fst b, n), pre @ (fst b + 16 + n, snd b - n - 16) # post) else (b, pre @ post)))"
proof (induction bs)
  case (Cons a bs)
  show ?case
  proof (cases "n \<le> snd a")
    case True
    then show ?thesis by (intro disjI2 exI [of _ "[]"]) simp
  next
    case False
    with Cons show ?thesis
    proof (elim disjE exE conjE)
      fix pre b post
      assume "bs = pre @ b # post" "\<forall>c \<in> set pre. \<not> n \<le> snd c" "n \<le> snd b"
        "first_fit n bs = Some (if unat n + 24 \<le> unat (snd b)
           then ((fst b, n), pre @ (fst b + 16 + n, snd b - n - 16) # post) else (b, pre @ post))"
      then show ?thesis using False by (intro disjI2 exI [of _ "a # pre"] exI [of _ b] exI [of _ post]) auto
    qed simp
  qed
qed simp

lemma search_chain:
  assumes "chain m p (pre @ rest) 0" and "\<forall>b \<in> set (pre @ rest). fst b \<noteq> 0" and "\<forall>b \<in> set pre. \<not> n \<le> snd b"
    and "rest = [] \<or> n \<le> snd (hd rest)"
  shows "malloc_search m n prev p =
    Some (if pre = [] then prev else fst (last pre), if rest = [] then 0 else fst (hd rest))"
  using assms
proof (induction pre arbitrary: prev p)
  case Nil
  then show ?case by (subst malloc_search.simps) (cases rest; auto)
next
  case (Cons a pre)
  then have "p = fst a" "load64 m p = snd a" "p \<noteq> 0" "\<not> n \<le> snd a" by auto
  then show ?case using Cons.IH [of "load64 m (p + 8)" p] Cons.prems
    by (subst malloc_search.simps) simp
qed

section \<open>The list\<close>

text \<open>What a store to a header leaves: the words of the other headers and the bytes of all blocks.\<close>

lemma header_store:
  assumes "block_ok lo hi b" and "block_ok lo hi c" and "hi < 2 ^ 63" and "apart b c" and "w = fst b \<or> w = fst b + 8"
  shows "load64 (store64 m w v) (fst c) = load64 m (fst c)"
    and "load64 (store64 m w v) (fst c + 8) = load64 m (fst c + 8)"
  using headers_differ [OF assms(1-4)] block_words [OF assms(1,3)] block_words [OF assms(2,3)] assms(5)
  by (auto simp: load64_store64_aligned)

lemma own_header_store:
  assumes "block_ok lo hi b" and "hi < 2 ^ 63"
  shows "load64 (store64 m (fst b) v) (fst b) = v" and "load64 (store64 m (fst b + 8) v) (fst b) = load64 m (fst b)"
    and "load64 (store64 m (fst b + 8) v) (fst b + 8) = v" and "load64 (store64 m (fst b) v) (fst b + 8) = load64 m (fst b + 8)"
  using block_words [OF assms] by (auto simp: load64_store64_aligned)

lemma blocks_okD:
  assumes "blocks_ok lo hi bs" and "b \<in> set bs" and "c \<in> set bs"
  shows "block_ok lo hi b" and "b \<noteq> c \<Longrightarrow> apart b c"
  using assms by (auto simp: blocks_ok_def pairwise_def)

lemma set_link_chain:
  assumes ok: "blocks_ok lo hi (pre @ rest)" and hi: "hi < 2 ^ 63" and lo: "0 < lo"
    and pre: "chain (uh_mem s) (uh_free s) pre r" and rest: "chain (uh_mem s) v rest 0"
  defines "t \<equiv> set_link (if pre = [] then 0 else fst (last pre)) v s"
  shows "chain (uh_mem t) (uh_free t) (pre @ rest) 0" and "uh_end t = uh_end s"
    and "\<And>c. block_ok lo hi c \<Longrightarrow> \<forall>b \<in> set pre. apart b c \<Longrightarrow> load64 (uh_mem t) (fst c) = load64 (uh_mem s) (fst c)"
    and "\<And>c x. block_ok lo hi c \<Longrightarrow> \<forall>b \<in> set pre. apart b c \<Longrightarrow> x \<in> bytes_of_block c \<Longrightarrow> uh_mem t x = uh_mem s x"
proof -
  have "chain (uh_mem t) (uh_free t) (pre @ rest) 0 \<and> uh_end t = uh_end s \<and>
    (\<forall>c. block_ok lo hi c \<longrightarrow> (\<forall>b \<in> set pre. apart b c) \<longrightarrow> load64 (uh_mem t) (fst c) = load64 (uh_mem s) (fst c) \<and>
      (\<forall>x \<in> bytes_of_block c. uh_mem t x = uh_mem s x))"
  proof (cases pre rule: rev_cases)
    case Nil
    then show ?thesis using rest by (simp add: t_def set_link_def)
  next
    case (snoc qs q)
    have q: "block_ok lo hi q" using ok snoc by (intro blocks_okD(1)) auto
    have nz: "fst q \<noteq> 0" using q lo by (auto simp: block_ok_def)
    let ?m = "store64 (uh_mem s) (fst q + 8) v"
    have t: "t = s\<lparr>uh_mem := ?m\<rparr>" using nz by (simp add: t_def set_link_def snoc)
    have other: "block_ok lo hi b \<and> apart q b" if "b \<in> set (qs @ rest)" for b
    proof -
      have "b \<noteq> q" "b \<in> set (pre @ rest)" "q \<in> set (pre @ rest)" using ok that snoc by (auto simp: blocks_ok_def)
      then show ?thesis using blocks_okD [OF ok] by metis
    qed
    have cong: "chain ?m p bs e = chain (uh_mem s) p bs e" if "set bs \<subseteq> set (qs @ rest)" for p bs e
      using that other header_store [OF q _ hi] by (intro chain_cong) blast
    have "chain (uh_mem s) (uh_free s) qs (fst q)" "load64 (uh_mem s) (fst q) = snd q"
      using pre by (auto simp: snoc chain_append)
    then have "chain ?m (uh_free s) (pre @ rest) 0"
      using rest cong [of qs] cong [of rest] own_header_store [OF q hi]
      by (auto simp: snoc chain_append)
    moreover have "load64 ?m (fst c) = load64 (uh_mem s) (fst c) \<and> (\<forall>x \<in> bytes_of_block c. ?m x = uh_mem s x)"
      if "block_ok lo hi c" "\<forall>b \<in> set pre. apart b c" for c
      using header_store(1) [OF q that(1) hi] header_away(2) [OF q that(1) hi] that(2) snoc by simp
    ultimately show ?thesis by (simp add: t)
  qed
  then show "chain (uh_mem t) (uh_free t) (pre @ rest) 0" and "uh_end t = uh_end s"
    and "\<And>c. block_ok lo hi c \<Longrightarrow> \<forall>b \<in> set pre. apart b c \<Longrightarrow> load64 (uh_mem t) (fst c) = load64 (uh_mem s) (fst c)"
    and "\<And>c x. block_ok lo hi c \<Longrightarrow> \<forall>b \<in> set pre. apart b c \<Longrightarrow> x \<in> bytes_of_block c \<Longrightarrow> uh_mem t x = uh_mem s x"
    by blast+
qed

text \<open>Cutting a block in two.\<close>

lemma split_block:
  assumes b: "block_ok lo hi b" and hi: "hi < 2 ^ 63" and n: "aligned8 n" "unat n + 24 \<le> unat (snd b)"
  defines "c \<equiv> (fst b + 16 + n, snd b - n - 16)"
  shows "block_ok lo hi (fst b, n)" and "block_ok lo hi c" and "apart (fst b, n) c"
    and "\<And>d. apart b d \<Longrightarrow> apart (fst b, n) d \<and> apart c d"
proof -
  have e: "block_end b < 2 ^ 63" using b hi by (simp add: block_ok_def)
  have u1: "unat (fst b + 16) = unat (fst b) + 16" using block_words(2) [OF b hi] .
  have u: "unat (fst b + 16 + n) = unat (fst b) + 16 + unat n"
    using u1 e n(2) by (subst unat_add_u64) (simp_all add: block_end_def)
  have v1: "unat (snd b - n) = unat (snd b) - unat n" using n(2) by (simp add: unat_diff_u64)
  then have v: "unat (snd b - n - 16) = unat (snd b) - unat n - 16" using n(2) by (simp add: unat_diff_u64)
  have al: "aligned8 (fst b)" "aligned8 (snd b)" using b by (simp_all add: block_ok_def)
  have "aligned8 (fst b + 16 + n)" using al(1) n(1) by (auto intro!: aligned8_add)
  moreover have "aligned8 (snd b - n - 16)"
  proof -
    have "(unat (snd b) - unat n - 16) mod 8 = 0"
      using al(2) n by (simp add: aligned8_unat mod_eq_0_iff_dvd)
    then show ?thesis by (simp add: aligned8_unat v)
  qed
  ultimately show "block_ok lo hi c" using b n(2) by (simp add: c_def block_ok_def block_end_def u v)
  show "block_ok lo hi (fst b, n)" using b n by (simp add: block_ok_def block_end_def)
  show "apart (fst b, n) c" by (simp add: apart_def block_end_def c_def u)
  show "apart b d \<Longrightarrow> apart (fst b, n) d \<and> apart c d" for d
    using n(2) by (auto simp: apart_def block_end_def c_def u v)
qed

section \<open>Taking and giving back\<close>

lemma blocks_ok_replace:
  assumes "blocks_ok lo hi (pre @ b # post @ live)"
    and "\<forall>c \<in> set cs. block_ok lo hi c" and "distinct cs" and "pairwise apart (set cs)"
    and "\<And>c d. c \<in> set cs \<Longrightarrow> apart b d \<Longrightarrow> apart c d"
  shows "blocks_ok lo hi (cs @ pre @ post @ live)"
proof -
  let ?r = "set pre \<union> set post \<union> set live"
  have b: "apart b d" if "d \<in> ?r" for d
    using assms(1) that by (auto simp: blocks_ok_def pairwise_def)
  have cd: "apart c d \<and> apart d c" if "c \<in> set cs" "d \<in> ?r" for c d
    using assms(5) [OF that(1) b [OF that(2)]] apart_sym by blast
  have ne: "c \<noteq> d" if "c \<in> set cs" "d \<in> ?r" for c d using cd [OF that] by (metis apart_irrefl)
  have rest: "pairwise apart ?r" "distinct (pre @ post @ live)" "\<forall>d \<in> ?r. block_ok lo hi d"
    using assms(1) by (auto simp: blocks_ok_def intro: pairwise_subset)
  have "pairwise apart (set cs \<union> ?r)"
    using assms(4) rest(1) cd unfolding pairwise_def by blast
  moreover have "set cs \<inter> ?r = {}" using ne by blast
  ultimately show ?thesis
    using assms(2,3) rest(2,3) unfolding blocks_ok_def by (simp add: Un_assoc ball_Un)
qed

lemma blocks_ok_perm:
  "blocks_ok lo hi xs \<Longrightarrow> set ys \<subseteq> set xs \<Longrightarrow> distinct ys \<Longrightarrow> blocks_ok lo hi ys"
  unfolding blocks_ok_def by (meson pairwise_subset subsetD)

lemma blocks_ok_apart:
  assumes "blocks_ok lo hi (xs @ ys)" and "y \<in> set ys"
  shows "block_ok lo hi y \<and> (\<forall>x \<in> set xs. apart x y)"
proof -
  have "x \<noteq> y" if "x \<in> set xs" for x using assms that by (auto simp: blocks_ok_def)
  then show ?thesis using assms unfolding blocks_ok_def pairwise_def by (metis UnCI set_append)
qed

definition bytes_kept :: "block list \<Rightarrow> uheap \<Rightarrow> uheap \<Rightarrow> bool" where
  "bytes_kept live s t \<longleftrightarrow> (\<forall>b \<in> set live. \<forall>x \<in> bytes_of_block b. uh_mem t x = uh_mem s x)"

lemma take_whole:
  assumes ok: "uheap_ok start s (pre @ b # post) live" and size: "\<not> unat n + 24 \<le> unat (snd b)" "unat n \<le> unat (snd b)"
    and run: "take_free n (if pre = [] then 0 else fst (last pre)) (fst b) s = (p, t)"
  shows "p = fst b + 16" and "uheap_ok start t (pre @ post) (b # live)" and "bytes_kept live s t"
proof -
  let ?hi = "unat (heap_end_of start s)" and ?lo = "unat start" and ?m = "uh_mem s"
  have bs: "blocks_ok ?lo ?hi (pre @ b # post @ live)" and hi: "?hi < 2 ^ 63" and lo: "0 < ?lo"
    using ok by (auto simp: uheap_ok_def unat_gt_0)
  have b: "block_ok ?lo ?hi b" using bs by (simp add: blocks_ok_def)
  obtain c1: "chain ?m (uh_free s) pre (fst b)" and c2: "load64 ?m (fst b) = snd b" "chain ?m (load64 ?m (fst b + 8)) post 0"
    using ok by (auto simp: uheap_ok_def chain_append)
  have n: "\<not> n + 16 + 8 \<le> snd b"
  proof -
    have "unat (n + 24) = unat n + 24"
      using size(2) b hi by (subst unat_add_u64) (simp_all add: block_ok_def block_end_def)
    then show ?thesis using size(1) by (simp add: word_le_nat_alt add.assoc)
  qed
  have t: "t = set_link (if pre = [] then 0 else fst (last pre)) (load64 ?m (fst b + 8)) s" and p: "p = fst b + 16"
    using run n by (simp_all add: take_free_def c2 Let_def)
  have rest: "blocks_ok ?lo ?hi (pre @ post)"
    using bs by (auto simp: blocks_ok_def intro: pairwise_subset)
  note l = set_link_chain [OF rest hi lo c1 c2(2), folded t]
  have ap: "block_ok ?lo ?hi c \<and> (\<forall>d \<in> set pre. apart d c)" if "c \<in> set (b # live)" for c
    by (rule blocks_ok_apart [OF bs]) (use that in auto)
  show "p = fst b + 16" by (rule p)
  show "bytes_kept live s t" unfolding bytes_kept_def using l(4) ap by (metis list.set_intros(2))
  have "heap_end_of start t = heap_end_of start s" by (simp add: heap_end_of_def l(2))
  moreover have "\<forall>c \<in> set (b # live). load64 (uh_mem t) (fst c) = snd c"
    using ok c2(1) l(3) ap by (auto simp: uheap_ok_def)
  moreover have "blocks_ok ?lo ?hi ((pre @ post) @ b # live)"
    by (rule blocks_ok_perm [OF bs]) (use bs in \<open>auto simp: blocks_ok_def\<close>)
  ultimately show "uheap_ok start t (pre @ post) (b # live)"
    using ok l(1) by (simp add: uheap_ok_def)
qed

lemma take_split:
  assumes ok: "uheap_ok start s (pre @ b # post) live" and size: "unat n + 24 \<le> unat (snd b)" "aligned8 n"
    and run: "take_free n (if pre = [] then 0 else fst (last pre)) (fst b) s = (p, t)"
  shows "p = fst b + 16"
    and "uheap_ok start t (pre @ (fst b + 16 + n, snd b - n - 16) # post) ((fst b, n) # live)" and "bytes_kept live s t"
proof -
  let ?hi = "unat (heap_end_of start s)" and ?lo = "unat start" and ?m = "uh_mem s"
  let ?c = "(fst b + 16 + n, snd b - n - 16)" and ?b = "(fst b, n)"
  have bs: "blocks_ok ?lo ?hi (pre @ b # post @ live)" and hi: "?hi < 2 ^ 63" and lo: "0 < ?lo"
    using ok by (auto simp: uheap_ok_def unat_gt_0)
  have b: "block_ok ?lo ?hi b" using bs by (simp add: blocks_ok_def)
  obtain c1: "chain ?m (uh_free s) pre (fst b)" and c2: "load64 ?m (fst b) = snd b" "chain ?m (load64 ?m (fst b + 8)) post 0"
    using ok by (auto simp: uheap_ok_def chain_append)
  note sp = split_block [OF b hi size(2,1)]
  have n: "n + 16 + 8 \<le> snd b"
  proof -
    have "unat (n + 24) = unat n + 24"
      using size(1) b hi by (subst unat_add_u64) (simp_all add: block_ok_def block_end_def)
    then show ?thesis using size(1) by (simp add: word_le_nat_alt add.assoc)
  qed
  let ?next = "load64 ?m (fst b + 8)"
  let ?m1 = "store64 (store64 (store64 ?m (fst ?c) (snd ?c)) (fst ?c + 8) ?next) (fst ?b) n"
  have fc: "load64 (store64 ?m (fst ?c) (snd ?c)) (fst b + 8) = ?next"
    using header_store(2) [OF sp(2,1) hi apart_sym [OF sp(3)]] by simp
  have t: "t = set_link (if pre = [] then 0 else fst (last pre)) (fst ?c) (s\<lparr>uh_mem := ?m1\<rparr>)" and p: "p = fst b + 16"
    using run unfolding take_free_def Let_def c2(1) if_P [OF n] fc [unfolded fst_conv snd_conv] fst_conv snd_conv prod.inject
    by blast+
  have new: "blocks_ok ?lo ?hi ([?b, ?c] @ pre @ post @ live)"
  proof (rule blocks_ok_replace [OF bs])
    show "pairwise apart (set [?b, ?c])" using sp(3) apart_sym by (auto simp: pairwise_def)
    have "?b \<noteq> ?c" using sp(3) by (metis apart_irrefl)
    then show "distinct [?b, ?c]" by simp
  qed (use sp in auto)
  have other: "block_ok ?lo ?hi d \<and> apart ?b d \<and> apart ?c d" if "d \<in> set pre \<union> set post \<union> set live" for d
    using blocks_ok_apart [OF new, of d] that by simp
  have m1: "load64 ?m1 (fst d) = load64 ?m (fst d) \<and> load64 ?m1 (fst d + 8) = load64 ?m (fst d + 8) \<and>
      (\<forall>x \<in> bytes_of_block d. ?m1 x = ?m x)"
    if "d \<in> set pre \<union> set post \<union> set live" for d
  proof -
    note d = other [OF that]
    note s = header_store [OF sp(2) d [THEN conjunct1] hi d [THEN conjunct2, THEN conjunct2]]
      header_store [OF sp(1) d [THEN conjunct1] hi d [THEN conjunct2, THEN conjunct1]]
    have "\<forall>x \<in> bytes_of_block d. ?m1 x = ?m x"
      using header_away [OF sp(2) d [THEN conjunct1] hi] header_away [OF sp(1) d [THEN conjunct1] hi] d by simp
    then show ?thesis using s by simp
  qed
  have chains: "chain ?m1 q es r = chain ?m q es r" if "set es \<subseteq> set pre \<union> set post" for q es r
    using m1 that by (intro chain_cong) blast
  have "chain ?m1 (fst ?c) (?c # post) 0"
    using header_store [OF sp(1,2) hi sp(3)] own_header_store [OF sp(2) hi] chains [of post] c2(2) by simp
  moreover have "chain (uh_mem (s\<lparr>uh_mem := ?m1\<rparr>)) (uh_free (s\<lparr>uh_mem := ?m1\<rparr>)) pre (fst b)"
    using c1 chains [of pre] by simp
  moreover have rest: "blocks_ok ?lo ?hi (pre @ ?c # post)"
    using new by (auto simp: blocks_ok_def intro: pairwise_subset)
  ultimately have l: "chain (uh_mem t) (uh_free t) (pre @ ?c # post) 0" "uh_end t = uh_end s"
    "\<And>d. block_ok ?lo ?hi d \<Longrightarrow> \<forall>e \<in> set pre. apart e d \<Longrightarrow> load64 (uh_mem t) (fst d) = load64 ?m1 (fst d)"
    "\<And>d x. block_ok ?lo ?hi d \<Longrightarrow> \<forall>e \<in> set pre. apart e d \<Longrightarrow> x \<in> bytes_of_block d \<Longrightarrow> uh_mem t x = ?m1 x"
    using set_link_chain [OF rest hi lo, of "s\<lparr>uh_mem := ?m1\<rparr>" "fst b" "fst ?c"] unfolding t by simp_all
  have "blocks_ok ?lo ?hi (pre @ ?b # live)"
    by (rule blocks_ok_perm [OF new]) (use new in \<open>auto simp: blocks_ok_def\<close>)
  note ap = blocks_ok_apart [OF this]
  show "p = fst b + 16" by (rule p)
  show "bytes_kept live s t" unfolding bytes_kept_def using l(4) ap m1 by (metis UnCI list.set_intros(2))
  have "heap_end_of start t = heap_end_of start s" by (simp add: heap_end_of_def l(2))
  moreover have "load64 (uh_mem t) (fst d) = snd d" if "d \<in> set (?b # live)" for d
  proof (cases "d = ?b")
    case True
    have "load64 (uh_mem t) (fst d) = load64 ?m1 (fst d)" using l(3) ap [OF that] by blast
    also have "\<dots> = n" unfolding True by (rule own_header_store(1) [OF sp(1) hi])
    finally show ?thesis using True by simp
  next
    case False
    then have "d \<in> set live" using that by simp
    then show ?thesis using l(3) ap [OF that] m1 [of d] ok by (simp add: uheap_ok_def)
  qed
  moreover have "blocks_ok ?lo ?hi ((pre @ ?c # post) @ ?b # live)"
    by (rule blocks_ok_perm [OF new]) (use new in \<open>auto simp: blocks_ok_def\<close>)
  ultimately show "uheap_ok start t (pre @ ?c # post) (?b # live)"
    using ok l(1) by (simp add: uheap_ok_def)
qed

text \<open>A new block at the end of the heap.\<close>

lemma grow_block:
  assumes ok: "uheap_ok start s fl live" and n: "aligned8 n" "unat (heap_end_of start s) + unat n + 16 < 2 ^ 63"
  defines "b \<equiv> (heap_end_of start s, n)"
    and "t \<equiv> s\<lparr>uh_mem := store64 (uh_mem s) (heap_end_of start s) n, uh_end := heap_end_of start s + (n + 16)\<rparr>"
  shows "uheap_ok start t fl (b # live)" and "bytes_kept live s t"
    and "heap_end_of start t = heap_end_of start s + (n + 16)"
proof -
  let ?e = "heap_end_of start s"
  have st: "start \<noteq> 0" "aligned8 start" "aligned8 ?e" "start \<le> ?e" using ok by (simp_all add: uheap_ok_def)
  have bs: "blocks_ok (unat start) (unat ?e) (fl @ live)" using ok by (simp add: uheap_ok_def)
  have un: "unat (n + 16) = unat n + 16" using n(2) by (subst unat_add_u64) simp_all
  then have ue: "unat (?e + (n + 16)) = unat ?e + unat n + 16" using n(2) by (subst unat_add_u64) simp_all
  have nz: "?e + (n + 16) \<noteq> 0"
  proof
    assume "?e + (n + 16) = 0"
    then show False using ue st(1,4) by (simp add: word_le_nat_alt)
  qed
  then show end': "heap_end_of start t = ?e + (n + 16)" by (simp add: heap_end_of_def t_def)
  let ?hi = "unat (?e + (n + 16))"
  have hi: "?hi < 2 ^ 63" using n(2) ue by simp
  have b: "block_ok (unat start) ?hi b"
    using st n(1) ue by (simp add: block_ok_def block_end_def b_def word_le_nat_alt)
  have old: "block_ok (unat start) ?hi d \<and> apart b d" if "d \<in> set (fl @ live)" for d
  proof -
    have "block_ok (unat start) (unat ?e) d" using bs that by (auto simp: blocks_ok_def)
    then show ?thesis using ue by (auto simp: block_ok_def apart_def b_def)
  qed
  then have nb: "b \<notin> set (fl @ live)" using apart_irrefl by blast
  have new: "blocks_ok (unat start) ?hi (b # fl @ live)"
    unfolding blocks_ok_def list.set(2) pairwise_insert
    using bs b old nb apart_sym by (auto simp: blocks_ok_def)
  have bs': "blocks_ok (unat start) ?hi (fl @ b # live)"
    by (rule blocks_ok_perm [OF new]) (use new in \<open>auto simp: blocks_ok_def\<close>)
  let ?m = "store64 (uh_mem s) (fst b) n"
  have m: "load64 ?m (fst d) = load64 (uh_mem s) (fst d)" "load64 ?m (fst d + 8) = load64 (uh_mem s) (fst d + 8)"
    if "d \<in> set (fl @ live)" for d
    using header_store [OF b _ hi, of d "fst b" "uh_mem s" n] old [OF that] by simp_all
  have "chain ?m (uh_free s) fl 0"
    using ok m by (subst chain_cong [where m = "uh_mem s"]) (auto simp: uheap_ok_def)
  moreover have "load64 ?m (fst d) = snd d" if "d \<in> set (b # live)" for d
  proof (cases "d = b")
    case True
    have "load64 ?m (fst b) = n" by (rule own_header_store(1) [OF b hi])
    then show ?thesis using True by (simp add: b_def)
  next
    case False
    then show ?thesis using m(1) [of d] that ok by (simp add: uheap_ok_def)
  qed
  moreover have "aligned8 (?e + (n + 16))" using st(3) n(1) by (auto intro!: aligned8_add)
  moreover have "start \<le> ?e + (n + 16)" using st(4) ue by (simp add: word_le_nat_alt)
  ultimately show "uheap_ok start t fl (b # live)"
    using st bs' hi unfolding uheap_ok_def end' by (simp add: t_def b_def)
  show "bytes_kept live s t"
    unfolding bytes_kept_def
  proof (intro ballI)
    fix d x assume d: "d \<in> set live" and x: "x \<in> bytes_of_block d"
    then have "block_ok (unat start) ?hi d" "apart b d" using old by simp_all
    then show "uh_mem t x = uh_mem s x"
      using header_away(1) [OF b _ hi _ x] by (simp add: t_def b_def)
  qed
qed


section \<open>The allocator\<close>

lemma heap_end_start: "uh_end (if uh_end s = 0 then s\<lparr>uh_end := start\<rparr> else s) = heap_end_of start s"
  by (simp add: heap_end_of_def)

lemma uheap_ok_end: "uheap_ok start (s\<lparr>uh_end := heap_end_of start s\<rparr>) fl live = uheap_ok start s fl live"
  by (auto simp: uheap_ok_def heap_end_of_def)

lemma umalloc_spec:
  assumes ok: "uheap_ok start s fl live" and room: "unat (heap_end_of start s) + unat sz + 32 < 2 ^ 63"
  defines "n \<equiv> ALIGN8 sz"
  shows "sz \<le> n" and "unat n < unat sz + 8" and
    "case first_fit n fl of
       Some (b, fl') \<Rightarrow> \<exists>t. umalloc start grow sz s k = Some (fst b + 16, t, k) \<and>
         uheap_ok start t fl' (b # live) \<and> bytes_kept live s t \<and> n \<le> snd b \<and> heap_end_of start t = heap_end_of start s
     | None \<Rightarrow>
         (case grow (n + 16) k of
            None \<Rightarrow> umalloc start grow sz s k = None
          | Some (res, k') \<Rightarrow>
              if res < 0 then \<exists>t. umalloc start grow sz s k = Some (0, t, k') \<and>
                uheap_ok start t fl live \<and> bytes_kept live s t \<and> heap_end_of start t = heap_end_of start s
              else \<exists>t. umalloc start grow sz s k = Some (heap_end_of start s + 16, t, k') \<and>
                uheap_ok start t fl ((heap_end_of start s, n) # live) \<and> bytes_kept live s t \<and>
                heap_end_of start t = heap_end_of start s + (n + 16))"
proof -
  have sz: "unat sz + 7 < 2 ^ 64" using room by simp
  show "sz \<le> n" unfolding n_def by (rule ALIGN8_ge [OF sz])
  have u7: "unat (sz + 7) = unat sz + 7" using sz by (subst unat_add_u64) simp_all
  have "n \<le> sz + 7" unfolding n_def ALIGN8_def by (rule word_and_le2)
  then show un: "unat n < unat sz + 8" using u7 by (simp add: word_le_nat_alt)
  have al: "aligned8 n" by (simp add: n_def ALIGN8_aligned)
  have def: "(sz + 7) AND NOT 7 = n" by (simp add: n_def ALIGN8_def)
  let ?e = "heap_end_of start s"
  have lo: "0 < unat start" using ok by (simp add: uheap_ok_def unat_gt_0)
  have nz: "\<forall>b \<in> set fl. fst b \<noteq> 0"
    using ok lo by (force simp: uheap_ok_def blocks_ok_def block_ok_def)
  have ch: "chain (uh_mem s) (uh_free s) fl 0" using ok by (simp add: uheap_ok_def)
  show "case first_fit n fl of
       Some (b, fl') \<Rightarrow> \<exists>t. umalloc start grow sz s k = Some (fst b + 16, t, k) \<and>
         uheap_ok start t fl' (b # live) \<and> bytes_kept live s t \<and> n \<le> snd b \<and> heap_end_of start t = ?e
     | None \<Rightarrow>
         (case grow (n + 16) k of
            None \<Rightarrow> umalloc start grow sz s k = None
          | Some (res, k') \<Rightarrow>
              if res < 0 then \<exists>t. umalloc start grow sz s k = Some (0, t, k') \<and>
                uheap_ok start t fl live \<and> bytes_kept live s t \<and> heap_end_of start t = ?e
              else \<exists>t. umalloc start grow sz s k = Some (?e + 16, t, k') \<and>
                uheap_ok start t fl ((?e, n) # live) \<and> bytes_kept live s t \<and> heap_end_of start t = ?e + (n + 16))"
    using first_fit_split [of n fl]
  proof (elim disjE exE conjE)
    fix pre b post
    assume fl: "fl = pre @ b # post" and pre: "\<forall>c \<in> set pre. \<not> n \<le> snd c" and b: "n \<le> snd b"
      and ff: "first_fit n fl = Some (if unat n + 24 \<le> unat (snd b)
        then ((fst b, n), pre @ (fst b + 16 + n, snd b - n - 16) # post) else (b, pre @ post))"
    let ?prev = "if pre = [] then 0 else fst (last pre)"
    have search: "malloc_search (uh_mem s) n 0 (uh_free s) = Some (?prev, fst b)"
      using search_chain [of "uh_mem s" "uh_free s" pre "b # post" n 0] ch nz pre b fl by simp
    obtain p t where run: "take_free n ?prev (fst b) s = (p, t)" by force
    have "fst b \<noteq> 0" using nz fl by simp
    then have um: "umalloc start grow sz s k = Some (p, t, k)"
      unfolding umalloc_def Let_def def search by (simp add: run)
    have nn: "unat n \<le> unat (snd b)" using b by (simp add: word_le_nat_alt)
    have end': "heap_end_of start t = ?e"
      using run by (auto simp: take_free_def Let_def set_link_def heap_end_of_def split: if_splits)
    show ?thesis
    proof (cases "unat n + 24 \<le> unat (snd b)")
      case True
      from take_split [OF ok [unfolded fl] True al run] show ?thesis using True ff um end' by simp
    next
      case False
      from take_whole [OF ok [unfolded fl] False nn run] show ?thesis using False ff um end' b by simp
    qed
  next
    assume none: "first_fit n fl = None" "\<forall>b \<in> set fl. \<not> n \<le> snd b"
    let ?prev = "if fl = [] then 0 else fst (last fl)"
    have search: "malloc_search (uh_mem s) n 0 (uh_free s) = Some (?prev, 0)"
      using search_chain [of "uh_mem s" "uh_free s" fl "[]" n 0] ch nz none(2) by simp
    let ?s = "if uh_end s = 0 then s\<lparr>uh_end := start\<rparr> else s"
    have s': "?s = s\<lparr>uh_end := ?e\<rparr>" by (simp add: heap_end_of_def)
    have e1: "?e \<noteq> - 1" using ok by (auto simp: uheap_ok_def unsigned_minus_1_eq_mask mask_eq_exp_minus_1)
    have room': "unat ?e + unat n + 16 < 2 ^ 63" using room un by simp
    note g = grow_block [OF ok al room']
    show ?thesis
    proof (cases "grow (n + 16) k")
      case None
      then have "umalloc start grow sz s k = None"
        unfolding umalloc_def Let_def def search by (simp add: sbrk_def Let_def)
      then show ?thesis using none(1) None by simp
    next
      case (Some a)
      obtain res k' where a: "a = (res, k')" by force
      show ?thesis
      proof (cases "res < 0")
        case True
        then have "umalloc start grow sz s k = Some (0, s\<lparr>uh_end := ?e\<rparr>, k')"
          unfolding umalloc_def Let_def def search using Some a by (simp add: sbrk_def Let_def s')
        moreover have "bytes_kept live s (s\<lparr>uh_end := ?e\<rparr>)" by (simp add: bytes_kept_def)
        moreover have "heap_end_of start (s\<lparr>uh_end := ?e\<rparr>) = ?e" by (simp add: heap_end_of_def)
        ultimately show ?thesis using none(1) Some a True ok uheap_ok_end by simp
      next
        case False
        then have "umalloc start grow sz s k = Some (?e + 16,
            s\<lparr>uh_mem := store64 (uh_mem s) ?e n, uh_end := ?e + (n + 16)\<rparr>, k')"
          unfolding umalloc_def Let_def def search using Some a e1 by (simp add: sbrk_def Let_def s')
        then show ?thesis using none(1) Some a False g by simp
      qed
    qed
  qed
qed

section \<open>Programs\<close>













section \<open>Properties\<close>

text \<open>
  C15: \<^verbatim>\<open>malloc\<close> of the user library is first fit over the blocks that were freed, most
  recent first: it cuts the first that is large enough when another block fits behind, takes
  it whole otherwise, and extends the heap at its end when there is none; \<^verbatim>\<open>NULL\<close> only when
  the kernel refuses. The block it returns lies apart from every block the program holds, has
  the size asked for, and no byte of the others changes.
\<close>

theorem user_malloc_first_fit:
  assumes "uheap_ok start s fl live" and "unat (heap_end_of start s) + unat sz + 32 < 2 ^ 63"
  shows "sz \<le> ALIGN8 sz \<and>
    (case first_fit (ALIGN8 sz) fl of
       Some (b, fl') \<Rightarrow> \<exists>t. umalloc start grow sz s k = Some (fst b + 16, t, k) \<and>
         uheap_ok start t fl' (b # live) \<and> bytes_kept live s t \<and> ALIGN8 sz \<le> snd b
     | None \<Rightarrow>
         (case grow (ALIGN8 sz + 16) k of
            None \<Rightarrow> umalloc start grow sz s k = None
          | Some (res, k') \<Rightarrow>
              if res < 0 then \<exists>t. umalloc start grow sz s k = Some (0, t, k') \<and>
                uheap_ok start t fl live \<and> bytes_kept live s t
              else \<exists>t. umalloc start grow sz s k = Some (heap_end_of start s + 16, t, k') \<and>
                uheap_ok start t fl ((heap_end_of start s, ALIGN8 sz) # live) \<and> bytes_kept live s t))"
  using umalloc_spec(1) [OF assms] umalloc_spec(3) [OF assms, of grow k] by (fastforce split: option.splits)

theorem user_malloc_first_fit_witness:
  "\<exists>t. umalloc 0x3000000 (\<lambda>inc k. Some (0, k + unat inc)) 100
      \<lparr>uh_mem = \<lambda>_. 0, uh_end = 0, uh_free = 0\<rparr> (0 :: nat) = Some (0x3000010, t, 120) \<and>
    uheap_ok 0x3000000 t [] [(0x3000000, 104)]"
proof -
  let ?s = "\<lparr>uh_mem = \<lambda>_. 0, uh_end = 0, uh_free = 0\<rparr>"
  have e: "heap_end_of 0x3000000 ?s = 0x3000000" by (simp add: heap_end_of_def)
  have ok: "uheap_ok 0x3000000 ?s [] []"
    by (simp add: uheap_ok_def e blocks_ok_def aligned8_def)
  have room: "unat (heap_end_of 0x3000000 ?s) + unat (100 :: u64) + 32 < 2 ^ 63" by (simp add: e)
  have n: "ALIGN8 100 = 104" by (simp add: ALIGN8_def)
  show ?thesis
    using user_malloc_first_fit [OF ok room, of "\<lambda>inc k. Some (0, k + unat inc)" 0] by (simp add: n e) blast
qed




end
