(* ===== verification/User_Shell.thy ===== *)
theory User_Shell
  imports User_Stdio
begin

text \<open>
  The shell, \<^verbatim>\<open>user/shell.c\<close>: it reads a line with its own editing, cuts it into words and
  runs the built-in command, refuses, or starts the program. The code works on the memory of
  the process, with \<^verbatim>\<open>strtok\<close>, \<^verbatim>\<open>strcmp\<close>, \<^verbatim>\<open>strcpy\<close> and \<^verbatim>\<open>strcat\<close> of \<^verbatim>\<open>C_String\<close> (the user
  library's copy of them is the kernel's file); \<open>line\<close> and \<open>filename\<close> are its two buffers on
  the stack and \<open>lit w\<close> is where the compiler has put the literal \<open>w\<close>. What it does is then
  described on strings alone.
\<close>

section \<open>The code\<close>

definition MAXLINE :: nat where
  "MAXLINE = 128"

definition SHELL_MAX_ARGS :: nat where
  "SHELL_MAX_ARGS = 8"

definition shell_title :: "u8 list" where
  "shell_title = bytes_of ''Novix RISC-V 64 OS, (c) NovixManiac, Shell version : 0.0.1'' @ [10]"

definition print_help :: "ucall list" where
  "print_help =
     puts (bytes_of ''Available commands:'' @ [10]) @
     puts (bytes_of ''  help         Show this overview'' @ [10]) @
     puts (bytes_of ''  hello        Show the hello message'' @ [10]) @
     puts (bytes_of ''  ps           Show list of active processes'' @ [10]) @
     puts (bytes_of ''  ls           Show files in the current directory'' @ [10]) @
     puts (bytes_of ''  mem          Show memory usage / available memory'' @ [10]) @
     puts (bytes_of ''  date         Show the current date and time'' @ [10]) @
     puts (bytes_of ''  echo [args]  Show the specified text'' @ [10]) @
     puts (bytes_of ''  clear        Clear the screen'' @ [10])"

text \<open>
  The loop that reads a line, over what \<^verbatim>\<open>read(0, &c, 1)\<close> will answer: a byte, or anything
  else than 1 (\<open>None\<close>), upon which it tries again. The result is the memory, \<^verbatim>\<open>pos\<close>, what is
  left of the input and the calls; \<open>None\<close> when the input ends before the line does.
\<close>

primrec read_line :: "u64 \<Rightarrow> u8 option list \<Rightarrow> nat \<Rightarrow> mem \<Rightarrow> (mem \<times> nat \<times> u8 option list \<times> ucall list) option" where
  "read_line line [] pos m = None"
| "read_line line (inp # inps) pos m =
     (case inp of
        None \<Rightarrow> map_option (\<lambda>(m, p, is, cs). (m, p, is, U_read # cs)) (read_line line inps pos m)
      | Some c \<Rightarrow>
          if c = 13 \<or> c = 10 then Some (m, pos, inps, U_read # putc c @ putc 10)
          else if (c = 0x7F \<or> c = 8) \<and> pos > 0 then
            map_option (\<lambda>(m, p, is, cs). (m, p, is, U_read # putc c @ puts [8, 32, 8] @ cs))
              (read_line line inps (pos - 1) m)
          else if pos < MAXLINE - 1 then
            map_option (\<lambda>(m, p, is, cs). (m, p, is, U_read # putc c @ cs))
              (read_line line inps (pos + 1) (m(line + of_nat pos := c)))
          else
            map_option (\<lambda>(m, p, is, cs). (m, p, is, U_read # putc c @ cs))
              (read_line line inps pos m))"

text \<open>The loop over the words, with \<open>k\<close> entries of \<^verbatim>\<open>argv\<close> left.\<close>

primrec token_loop :: "u64 \<Rightarrow> nat \<Rightarrow> u64 \<Rightarrow> u64 \<Rightarrow> mem \<Rightarrow> (u64 list \<times> mem \<times> u64) option" where
  "token_loop delim 0 token saved m = Some ([], m, saved)"
| "token_loop delim (Suc k) token saved m =
     (if token = 0 then Some ([], m, saved)
      else do {
        (token', m, saved) \<leftarrow> strtok m saved 0 delim;
        (argv, m, saved) \<leftarrow> token_loop delim k token' saved m;
        Some (token # argv, m, saved)
      })"

definition str_is :: "(u8 list \<Rightarrow> u64) \<Rightarrow> mem \<Rightarrow> u64 \<Rightarrow> u8 list \<Rightarrow> bool option" where
  "str_is lit m p w = map_option (\<lambda>r. r = 0) (strcmp m p (lit w))"

primrec str_among :: "(u8 list \<Rightarrow> u64) \<Rightarrow> mem \<Rightarrow> u64 \<Rightarrow> u8 list list \<Rightarrow> bool option" where
  "str_among lit m p [] = Some False"
| "str_among lit m p (w # ws) = do { b \<leftarrow> str_is lit m p w; if b then Some True else str_among lit m p ws }"

definition refused :: "u8 list list" where
  "refused = map bytes_of [''shell'', ''idle'', ''init'', ''test_shell'', ''window_server'', ''testa'', ''testb'']"

text \<open>What the process does next: another line, the new program, or nothing any more.\<close>

datatype shell_next = Again | Replaced | Exited int

text \<open>
  The parent and the child after \<^verbatim>\<open>fork\<close>, which has answered \<open>pid\<close>; \<open>exec_ok\<close> says whether
  the \<^verbatim>\<open>exec\<close> of the child succeeds, that is, does not return.
\<close>

definition launch :: "int \<Rightarrow> bool \<Rightarrow> u8 list \<Rightarrow> u8 list list \<Rightarrow> shell_next \<times> ucall list" where
  "launch pid exec_ok name args =
     (if pid = 0 then
        if exec_ok then (Replaced, [U_fork, U_exec name args])
        else (Exited 1, [U_fork, U_exec name args] @ puts (bytes_of ''[shell] exec failed'' @ [10]) @ [U_exit 1])
      else if pid > 0 then (Again, [U_fork, U_wait])
      else (Again, U_fork # puts (bytes_of ''[shell] fork failed'' @ [10])))"

text \<open>What is done with the words: \<open>found\<close> is the kernel's answer to \<^verbatim>\<open>tarfs_exists\<close>.\<close>

definition dispatch ::
  "(u8 list \<Rightarrow> u64) \<Rightarrow> (u8 list \<Rightarrow> bool) \<Rightarrow> int \<Rightarrow> bool \<Rightarrow> u64 \<Rightarrow> u64 \<Rightarrow> u64 list \<Rightarrow> u64 \<Rightarrow> mem \<Rightarrow>
    (mem \<times> u64 \<times> shell_next \<times> ucall list) option" where
  "dispatch lit found pid exec_ok line filename argv saved m =
     (case argv of
        [] \<Rightarrow> Some (m, saved, Again, [])
      | cmd # _ \<Rightarrow> do {
          clear \<leftarrow> str_is lit m line (bytes_of ''clear'');
          if clear then Some (m, saved, Again, U_clear # puts shell_title)
          else do {
            help \<leftarrow> str_is lit m line (bytes_of ''help'');
            if help then Some (m, saved, Again, print_help)
            else do {
              no \<leftarrow> str_among lit m line refused;
              if no then do {
                cs \<leftarrow> printf m (bytes_of ''[shell] Command '' @ [39] @ bytes_of ''%s'' @ [39] @
                  bytes_of '' Not allowed to execute'' @ [10]) [line];
                Some (m, saved, Again, cs)
              }
              else do {
                m \<leftarrow> strcpy m filename cmd;
                m \<leftarrow> strcat m filename (lit (bytes_of ''.elf''));
                name \<leftarrow> read_cstr m filename;
                if \<not> found name then do {
                  cs \<leftarrow> printf m (bytes_of ''[shell] Command '' @ [39] @ bytes_of ''%s'' @ [39] @
                    bytes_of '' not found'' @ [10]) [line];
                  Some (m, saved, Again, U_exists name # cs)
                }
                else do {
                  args \<leftarrow> those (map (read_cstr m) argv);
                  Some (m, saved, fst (launch pid exec_ok name args),
                    U_exists name # snd (launch pid exec_ok name args))
                }
              }
            }
          }
        })"

text \<open>One line, from the empty-input check on.\<close>

definition run_command ::
  "(u8 list \<Rightarrow> u64) \<Rightarrow> (u8 list \<Rightarrow> bool) \<Rightarrow> int \<Rightarrow> bool \<Rightarrow> u64 \<Rightarrow> u64 \<Rightarrow> u64 \<Rightarrow> mem \<Rightarrow>
    (mem \<times> u64 \<times> shell_next \<times> ucall list) option" where
  "run_command lit found pid exec_ok line filename saved m =
     (if m line = 0 then Some (m, saved, Again, [])
      else do {
        (token, m, saved) \<leftarrow> strtok m saved line (lit (bytes_of '' ''));
        (argv, m, saved) \<leftarrow> token_loop (lit (bytes_of '' '')) SHELL_MAX_ARGS token saved m;
        dispatch lit found pid exec_ok line filename argv saved m
      })"

text \<open>One round of the loop of \<^verbatim>\<open>main\<close>: prompt, line, command.\<close>

definition shell_round ::
  "(u8 list \<Rightarrow> u64) \<Rightarrow> (u8 list \<Rightarrow> bool) \<Rightarrow> int \<Rightarrow> bool \<Rightarrow> u64 \<Rightarrow> u64 \<Rightarrow> u8 option list \<Rightarrow> u64 \<Rightarrow> mem \<Rightarrow>
    (mem \<times> u64 \<times> u8 option list \<times> shell_next \<times> ucall list) option" where
  "shell_round lit found pid exec_ok line filename inps saved m =
     do {
       (m, pos, inps, cs) \<leftarrow> read_line line inps 0 m;
       (m, saved, nx, cs') \<leftarrow> run_command lit found pid exec_ok line filename saved (m(line + of_nat pos := 0));
       Some (m, saved, inps, nx, puts [36, 32] @ cs @ cs')
     }"

text \<open>
  \<^verbatim>\<open>main\<close> for \<open>n\<close> rounds: \<open>env i\<close> are the answers of the kernel in round \<open>i\<close>, what
  \<^verbatim>\<open>tarfs_exists\<close>, \<^verbatim>\<open>fork\<close> and \<^verbatim>\<open>exec\<close> return.
\<close>

primrec shell_rounds ::
  "(u8 list \<Rightarrow> u64) \<Rightarrow> (nat \<Rightarrow> (u8 list \<Rightarrow> bool) \<times> int \<times> bool) \<Rightarrow> u64 \<Rightarrow> u64 \<Rightarrow> nat \<Rightarrow> u8 option list \<Rightarrow> u64 \<Rightarrow> mem \<Rightarrow>
    (mem \<times> u64 \<times> u8 option list \<times> shell_next \<times> ucall list) option" where
  "shell_rounds lit env line filename 0 inps saved m = Some (m, saved, inps, Again, [])"
| "shell_rounds lit env line filename (Suc n) inps saved m =
     do {
       (m, saved, inps, nx, cs) \<leftarrow> shell_rounds lit env line filename n inps saved m;
       if nx \<noteq> Again then Some (m, saved, inps, nx, cs)
       else do {
         let (found, pid, exec_ok) = env n;
         (m, saved, inps, nx, cs') \<leftarrow> shell_round lit found pid exec_ok line filename inps saved m;
         Some (m, saved, inps, nx, cs @ cs')
       }
     }"

definition shell_main ::
  "(u8 list \<Rightarrow> u64) \<Rightarrow> (nat \<Rightarrow> (u8 list \<Rightarrow> bool) \<times> int \<times> bool) \<Rightarrow> u64 \<Rightarrow> u64 \<Rightarrow> nat \<Rightarrow> u8 option list \<Rightarrow> mem \<Rightarrow>
    (shell_next \<times> ucall list) option" where
  "shell_main lit env line filename n inps m =
     do {
       (m, saved, inps, nx, cs) \<leftarrow> shell_rounds lit env line filename n inps 0 m;
       Some (nx, [U_log (bytes_of ''started...''), U_clear] @ puts shell_title @ cs)
     }"

section \<open>The line editor\<close>

text \<open>What a key does to the line: backspace and delete take away its last byte, when it has one.\<close>

definition edit_key :: "u8 list \<Rightarrow> u8 \<Rightarrow> u8 list" where
  "edit_key buf c =
     (if (c = 0x7F \<or> c = 8) \<and> buf \<noteq> [] then butlast buf
      else if length buf < 127 then buf @ [c] else buf)"

text \<open>
  The calls for what the reads answer, with the line \<open>buf\<close> so far: one read each, then the
  echo of the key, which the erasure follows when the key takes a byte away.
\<close>

primrec read_calls :: "u8 list \<Rightarrow> u8 option list \<Rightarrow> ucall list" where
  "read_calls buf [] = []"
| "read_calls buf (k # ks) =
     U_read # (case k of
        None \<Rightarrow> read_calls buf ks
      | Some c \<Rightarrow> putc c @ (if (c = 0x7F \<or> c = 8) \<and> buf \<noteq> [] then puts [8, 32, 8] else []) @
          read_calls (edit_key buf c) ks)"

primrec keys_of :: "u8 option list \<Rightarrow> u8 list" where
  "keys_of [] = []"
| "keys_of (k # ks) = (case k of None \<Rightarrow> keys_of ks | Some c \<Rightarrow> c # keys_of ks)"

definition line_holds :: "mem \<Rightarrow> u64 \<Rightarrow> u8 list \<Rightarrow> bool" where
  "line_holds m line buf \<longleftrightarrow> (\<forall>i < length buf. m (line + of_nat i) = buf ! i)"

definition buffer :: "u64 \<Rightarrow> nat \<Rightarrow> u64 set" where
  "buffer p n = {x. unat p \<le> unat x \<and> unat x < unat p + n}"

lemma buffer_index:
  assumes "unat p + n \<le> 2 ^ 64" and "i < n"
  shows "unat (p + of_nat i) = unat p + i" and "p + of_nat i \<in> buffer p n"
proof -
  have "unat (of_nat i :: u64) = i" using assms by (intro unat_of_nat_u64) simp
  then show "unat (p + of_nat i) = unat p + i" using assms by (subst unat_add_u64) simp_all
  then show "p + of_nat i \<in> buffer p n" using assms by (simp add: buffer_def)
qed

lemma line_holds_butlast: "line_holds m line buf \<Longrightarrow> line_holds m line (butlast buf)"
  by (simp add: line_holds_def nth_butlast)

lemma line_holds_snoc:
  assumes "unat line + 128 \<le> 2 ^ 64" and "length buf < 127" and "line_holds m line buf"
  shows "line_holds (m(line + of_nat (length buf) := c)) line (buf @ [c])"
  unfolding line_holds_def
proof (intro allI impI)
  fix i assume i: "i < length (buf @ [c])"
  have "i < 128" "length buf < 128" using i assms(2) by simp_all
  note u = buffer_index(1) [OF assms(1) this(1)] buffer_index(1) [OF assms(1) this(2)]
  have "line + of_nat i = line + of_nat (length buf) \<longleftrightarrow> i = length buf"
    by (simp only: unat_inj_u64 [symmetric] u add_left_cancel)
  then show "(m(line + of_nat (length buf) := c)) (line + of_nat i) = (buf @ [c]) ! i"
    using assms(3) i by (auto simp: line_holds_def nth_append)
qed

text \<open>
  The line editor. For any keys without a return, in any interleaving with reads that
  answer nothing, the loop ends at the return with the edited line in the buffer, never
  writes outside the first 127 bytes of it, and makes just the calls of \<open>read_calls\<close>, the
  read of the return, its echo and the new line.
\<close>

lemma read_line_keys:
  assumes "unat line + 128 \<le> 2 ^ 64" and "end = 10 \<or> end = 13"
    and "length buf \<le> 127" and "line_holds m line buf" and "10 \<notin> set (keys_of inps)" and "13 \<notin> set (keys_of inps)"
  shows "\<exists>m'. read_line line (inps @ Some end # rest) (length buf) m =
      Some (m', length (foldl edit_key buf (keys_of inps)), rest, read_calls buf inps @ U_read # putc end @ putc 10) \<and>
    line_holds m' line (foldl edit_key buf (keys_of inps)) \<and> length (foldl edit_key buf (keys_of inps)) \<le> 127 \<and>
    (\<forall>x. x \<notin> buffer line 127 \<longrightarrow> m' x = m x)"
  using assms(3-)
proof (induction inps arbitrary: buf m)
  case Nil
  then show ?case using assms(2) by auto
next
  case (Cons inp inps)
  show ?case
  proof (cases inp)
    case None
    then show ?thesis using Cons.IH [OF Cons.prems(1,2)] Cons.prems(3,4) by fastforce
  next
    case (Some c)
    have nl: "c \<noteq> 10" "c \<noteq> 13" "10 \<notin> set (keys_of inps)" "13 \<notin> set (keys_of inps)"
      using Cons.prems(3,4) Some by auto
    consider (erase) "c = 0x7F \<or> c = 8" "buf \<noteq> []" | (type) "\<not> ((c = 0x7F \<or> c = 8) \<and> buf \<noteq> [])" "length buf < 127"
      | (full) "\<not> ((c = 0x7F \<or> c = 8) \<and> buf \<noteq> [])" "\<not> length buf < 127" by blast
    then show ?thesis
    proof cases
      case erase
      have e: "edit_key buf c = butlast buf" using erase by (auto simp: edit_key_def)
      have l: "length (butlast buf) \<le> 127" using Cons.prems(1) by simp
      obtain m' where r: "read_line line (inps @ Some end # rest) (length (butlast buf)) m =
          Some (m', length (foldl edit_key (butlast buf) (keys_of inps)), rest, read_calls (butlast buf) inps @ U_read # putc end @ putc 10)"
        "line_holds m' line (foldl edit_key (butlast buf) (keys_of inps))"
        "length (foldl edit_key (butlast buf) (keys_of inps)) \<le> 127"
        "\<forall>x. x \<notin> buffer line 127 \<longrightarrow> m' x = m x"
        using Cons.IH [OF l line_holds_butlast [OF Cons.prems(2)] nl(3,4)] by blast
      have er: "(c = 0x7F \<or> c = 8) \<and> length buf > 0" using erase by simp
      then show ?thesis using Some nl(1,2) e r erase
        by (intro exI [of _ m']) (simp only: read_line.simps append_Cons keys_of.simps option.case foldl_Cons read_calls.simps, simp)
    next
      case type
      let ?m = "m(line + of_nat (length buf) := c)"
      have e: "edit_key buf c = buf @ [c]" using type by (auto simp: edit_key_def)
      have l: "length (buf @ [c]) \<le> 127" using type by simp
      obtain m' where r: "read_line line (inps @ Some end # rest) (length (buf @ [c])) ?m =
          Some (m', length (foldl edit_key (buf @ [c]) (keys_of inps)), rest, read_calls (buf @ [c]) inps @ U_read # putc end @ putc 10)"
        "line_holds m' line (foldl edit_key (buf @ [c]) (keys_of inps))"
        "length (foldl edit_key (buf @ [c]) (keys_of inps)) \<le> 127"
        "\<forall>x. x \<notin> buffer line 127 \<longrightarrow> m' x = ?m x"
        using Cons.IH [OF l line_holds_snoc [OF assms(1) type(2) Cons.prems(2)] nl(3,4)] by blast
      have "line + of_nat (length buf) \<in> buffer line 127"
        using assms(1) type(2) by (intro buffer_index) simp_all
      then have "\<forall>x. x \<notin> buffer line 127 \<longrightarrow> m' x = m x" using r(4) by auto
      moreover have "\<not> ((c = 0x7F \<or> c = 8) \<and> length buf > 0)" using type(1) by simp
      ultimately show ?thesis using type(2) Some nl(1,2) e r(1-3)
        by (intro exI [of _ m']) (simp add: MAXLINE_def type(1))
    next
      case full
      have e: "edit_key buf c = buf" using full by (auto simp: edit_key_def)
      obtain m' where r: "read_line line (inps @ Some end # rest) (length buf) m =
          Some (m', length (foldl edit_key buf (keys_of inps)), rest, read_calls buf inps @ U_read # putc end @ putc 10)"
        "line_holds m' line (foldl edit_key buf (keys_of inps))" "length (foldl edit_key buf (keys_of inps)) \<le> 127"
        "\<forall>x. x \<notin> buffer line 127 \<longrightarrow> m' x = m x"
        using Cons.IH [OF Cons.prems(1,2) nl(3,4)] by blast
      have "\<not> ((c = 0x7F \<or> c = 8) \<and> length buf > 0)" using full(1) by simp
      then show ?thesis using full(2) Some nl(1,2) e r
        by (intro exI [of _ m']) (simp add: MAXLINE_def full(1))
    qed
  qed
qed

section \<open>Words\<close>

lemma dropWhile_head: "dropWhile P xs = y # ys \<Longrightarrow> \<not> P y"
  by (metis hd_dropWhile list.distinct(1) list.sel(1))

function words :: "u8 list \<Rightarrow> u8 list list" where
  "words bs =
     (let rest = dropWhile (\<lambda>b. b = 32) bs in
      if rest = [] then []
      else takeWhile (\<lambda>b. b \<noteq> 32) rest # words (dropWhile (\<lambda>b. b \<noteq> 32) rest))"
  by pat_completeness auto
termination
proof (relation "measure length", goal_cases)
  case (2 bs rest)
  then obtain x xs where r: "rest = x # xs" by (meson neq_Nil_conv)
  then have "x \<noteq> 32" using dropWhile_head [of "\<lambda>b. b = 32" bs x xs] 2(1) by simp
  then have "length (dropWhile (\<lambda>b. b \<noteq> 32) rest) \<le> length xs"
    using length_dropWhile_le [of "\<lambda>b. b \<noteq> 32" xs] by (simp add: r)
  moreover have "length rest \<le> length bs" unfolding 2(1) by (rule length_dropWhile_le)
  ultimately show ?case by (simp add: r)
qed simp

declare words.simps [simp del]

definition spaces :: "u8 list \<Rightarrow> u8 list" where
  "spaces bs = takeWhile (\<lambda>b. b = 32) bs"

lemma token_split_words:
  assumes "token_split [32] bs = (pre, tok, left)"
  shows "pre = spaces bs" and "words bs = (if tok = [] then [] else tok # words left)"
    and "left \<noteq> [] \<Longrightarrow> words left = words (tl left)" and "bs = pre @ tok @ left" and "tok = [] \<Longrightarrow> left = []"
proof -
  let ?rest = "dropWhile (\<lambda>b. b = 32) bs"
  have s: "pre = takeWhile (\<lambda>b. b = 32) bs" "tok = takeWhile (\<lambda>b. b \<noteq> 32) ?rest" "left = dropWhile (\<lambda>b. b \<noteq> 32) ?rest"
    using assms by (auto simp: token_split_def Let_def)
  show "pre = spaces bs" by (simp add: s spaces_def)
  have e: "tok = [] \<longleftrightarrow> ?rest = []"
    using dropWhile_head [of "\<lambda>b. b = 32" bs] s(2) by (cases ?rest) auto
  have "words bs = (if ?rest = [] then [] else tok # words left)"
    unfolding words.simps [of bs] Let_def s by (rule refl)
  then show "words bs = (if tok = [] then [] else tok # words left)" unfolding e .
  show "left = []" if "tok = []"
  proof -
    have "?rest = []" using e that by blast
    then show ?thesis by (simp only: s(3) dropWhile.simps)
  qed
  show "bs = pre @ tok @ left" by (rule token_split_append [OF assms])
  assume "left \<noteq> []"
  then obtain l ls where l: "left = l # ls" by (cases left) auto
  then have "l = 32" using s(3) dropWhile_head [of "\<lambda>b. b \<noteq> 32" ?rest l ls] by simp
  then show "words left = words (tl left)"
    by (subst (1 2) words.simps) (simp add: l)
qed

text \<open>The pointer \<open>p\<close> is to the string \<open>w\<close>, which lies in the \<open>n\<close> bytes from \<open>q\<close> on.\<close>

definition points_to :: "mem \<Rightarrow> u64 \<Rightarrow> nat \<Rightarrow> u64 \<Rightarrow> u8 list \<Rightarrow> bool" where
  "points_to m q n p w \<longleftrightarrow> cstr_at m p w \<and> unat q \<le> unat p \<and> unat p + length w \<le> unat q + n"

lemma cstr_at_same:
  assumes "cstr_at m p w" and "\<And>x. unat p \<le> unat x \<Longrightarrow> unat x \<le> unat p + length w \<Longrightarrow> m' x = m x"
    and "unat p + length w < 2 ^ 64"
  shows "cstr_at m' p w"
proof -
  have "m' (p + of_nat i) = m (p + of_nat i)" if "i \<le> length w" for i
    using buffer_index(1) [of p "Suc (length w)" i] that assms(3) by (intro assms(2)) simp_all
  then show ?thesis using assms(1) by (simp add: cstr_at_iff)
qed

definition token_run :: "u64 \<Rightarrow> nat \<Rightarrow> u64 \<Rightarrow> u64 \<Rightarrow> mem \<Rightarrow> (u64 list \<times> mem \<times> u64) option" where
  "token_run d k saved str m = do { (t, m, sv) \<leftarrow> strtok m saved str d; token_loop d k t sv m }"

lemma token_loop_step:
  "t \<noteq> 0 \<Longrightarrow> token_loop d (Suc k) t sv m =
    do { (ts, m, sv) \<leftarrow> token_run d k sv 0 m; Some (t # ts, m, sv) }"
  by (simp add: token_run_def Option.bind_assoc split_def)

lemma token_run_words:
  assumes "(if str \<noteq> 0 then str else saved) = q" and "q \<noteq> 0" and "cstr_at m q bs" and "unat q + length bs < 2 ^ 64"
    and "delims_at m d [32]" and "\<forall>i \<le> 1. d + of_nat i \<notin> buffer q (length bs)"
  shows "\<exists>ts m' sv. token_run d k saved str m = Some (ts, m', sv) \<and>
    list_all2 (points_to m' q (length bs)) ts (take k (words bs)) \<and>
    (\<forall>x. x \<notin> buffer q (length bs) \<longrightarrow> m' x = m x) \<and>
    (\<forall>x. unat q \<le> unat x \<longrightarrow> unat x < unat q + length (spaces bs) \<longrightarrow> m' x = m x) \<and>
    (ts \<noteq> [] \<longrightarrow> hd ts = q + of_nat (length (spaces bs)))"
  using assms
proof (induction k arbitrary: str saved q m bs)
  case (0 str saved q m bs)
  obtain pre tok left where sp: "token_split [32] bs = (pre, tok, left)" by (metis surj_pair)
  note w = token_split_words [OF sp]
  show ?case
  proof (cases "tok = [] \<or> left = []")
    case True
    then show ?thesis
      using strtok_cstr [OF 0(1-3,5) sp] by (auto simp: token_run_def Let_def)
  next
    case False
    let ?a = "q + of_nat (length pre) + of_nat (length tok) :: u64"
    have "?a = q + of_nat (length pre + length tok)" by (simp add: add.assoc)
    moreover have "length pre + length tok < length bs" using False w(4) by simp
    ultimately have a: "unat ?a = unat q + (length pre + length tok)" "?a \<in> buffer q (length bs)"
      using buffer_index [of q "length bs" "length pre + length tok"] 0(4) by (simp_all add: add.assoc)
    then show ?thesis
      using strtok_cstr [OF 0(1-3,5) sp] False w(1) by (auto simp: token_run_def Let_def)
  qed
next
  case (Suc k str saved q m bs)
  obtain pre tok left where sp: "token_split [32] bs = (pre, tok, left)" by (metis surj_pair)
  note w = token_split_words [OF sp]
  let ?t = "q + of_nat (length pre) :: u64" and ?a = "q + of_nat (length pre) + of_nat (length tok) :: u64"
  have len: "length bs = length pre + length tok + length left" using w(4) by simp
  have ut: "unat ?t = unat q + length pre"
    using buffer_index(1) [of q "Suc (length bs)" "length pre"] Suc.prems(4) len by simp
  have tq: "?t \<noteq> 0" using ut Suc.prems(2) by (metis add_eq_0_iff_both_eq_0 unat_eq_zero unsigned_0)
  have st: "cstr_at m ?t (tok @ left)" using Suc.prems(3) unfolding w(4) cstr_at_append by simp
  note call = strtok_cstr [OF Suc.prems(1-3,5) sp]
  show ?case
  proof (cases "tok = []")
    case True
    then show ?thesis using call w(2) by (intro exI [of _ "[]"]) (simp add: token_run_def Let_def)
  next
    case tok: False
    show ?thesis
    proof (cases "left = []")
      case True
      have r: "token_run d (Suc k) saved str m = Some ([?t], m, 0)"
      proof -
        have "strtok m 0 0 d = Some (0, m, 0)" by (simp add: strtok_def)
        then have "token_run d k 0 0 m = Some ([], m, 0)" by (cases k) (simp_all add: token_run_def)
        then show ?thesis using call tok True tq token_loop_step [of ?t d k 0 m]
          by (simp add: token_run_def [of d "Suc k"] Let_def del: token_loop.simps)
      qed
      have "words bs = [tok]" using w(2) tok True by (simp add: words.simps)
      moreover have "points_to m q (length bs) ?t tok"
        using st True ut len by (simp add: points_to_def)
      ultimately show ?thesis using r w(1) by auto
    next
      case False
      obtain y ys where lx: "left = y # ys" using False by (meson neq_Nil_conv)
      let ?m = "m(?a := 0)" and ?q = "?a + 1" and ?bs = ys
      have l: "length left = Suc (length ?bs)" by (simp add: lx)
      have ua: "unat ?a = unat q + length pre + length tok"
        using buffer_index(1) [of ?t "Suc (length tok)" "length tok"] ut Suc.prems(4) len by simp
      have uq: "unat ?q = unat q + length pre + length tok + 1"
      proof -
        have "unat ?a + unat (1 :: u64) < 2 ^ 64" unfolding ua using Suc.prems(4) len l by simp
        then have "unat (?a + 1) = unat ?a + unat (1 :: u64)" by (rule unat_add_u64)
        then show ?thesis unfolding ua by simp
      qed
      have call': "strtok m saved str d = Some (?t, ?m, ?q)"
        using call unfolding Let_def if_not_P [OF tok] if_not_P [OF False] .
      have q0: "?q \<noteq> 0"
      proof
        assume "?q = 0"
        with uq show False by (simp only: unsigned_0)
      qed
      have left: "cstr_at m ?a left" using st by (simp add: cstr_at_append)
      then have "cstr_at m ?q ?bs" unfolding lx by (simp only: cstr_at.simps)
      then have bs: "cstr_at ?m ?q ?bs"
        by (rule cstr_at_same) (use uq ua Suc.prems(4) len l in auto)
      have "?a \<in> buffer q (length bs)" using ua len l by (simp add: buffer_def)
      then have nd: "d + of_nat i \<noteq> ?a" if "i \<le> 1" for i using Suc.prems(6) that by metis
      have "cstr_at ?m d [32]"
        by (rule cstr_at_upd_other) (use Suc.prems(5) nd in \<open>auto simp: delims_at_def\<close>)
      then have d: "delims_at ?m d [32]" using Suc.prems(5) by (simp add: delims_at_def)
      have sub: "buffer ?q (length ?bs) \<subseteq> buffer q (length bs)" using uq len l by (auto simp: buffer_def)
      have d': "\<forall>i \<le> 1. d + of_nat i \<notin> buffer ?q (length ?bs)" using Suc.prems(6) sub by blast
      have lim: "unat ?q + length ?bs < 2 ^ 64" using uq len l Suc.prems(4) by simp
      have sel: "(if (0 :: u64) \<noteq> 0 then 0 else ?q) = ?q" by simp
      obtain ts m' sv where r: "token_run d k ?q 0 ?m = Some (ts, m', sv)"
        "list_all2 (points_to m' ?q (length ?bs)) ts (take k (words ?bs))"
        "\<forall>x. x \<notin> buffer ?q (length ?bs) \<longrightarrow> m' x = ?m x"
        using Suc.IH [OF sel q0 bs lim d d'] by blast
      have run: "token_run d (Suc k) saved str m = Some (?t # ts, m', sv)"
        using call' r(1) tq token_loop_step [of ?t d k ?q ?m]
        by (simp add: token_run_def [of d "Suc k"] del: token_loop.simps)
      have ws: "words bs = tok # words ?bs" using w(2,3) tok False by (simp add: lx)
      have "cstr_at ?m ?t tok"
        unfolding cstr_at_iff
      proof (intro conjI allI impI)
        fix i assume i: "i < length tok"
        have "unat (?t + of_nat i) = unat ?t + i"
          using buffer_index(1) [of ?t "Suc (length tok)" i] ut Suc.prems(4) len i by simp
        then have "?t + of_nat i \<noteq> ?a" using ua ut i by auto
        then show "?m (?t + of_nat i) = tok ! i" and "tok ! i \<noteq> 0"
          using st i by (simp_all add: cstr_at_append)
      qed simp
      then have "cstr_at m' ?t tok"
        by (rule cstr_at_same) (use r(3) uq ut Suc.prems(4) len in \<open>auto simp: buffer_def\<close>)
      then have hd: "points_to m' q (length bs) ?t tok" using ut len by (simp add: points_to_def)
      have tl: "list_all2 (points_to m' q (length bs)) ts (take k (words ?bs))"
        using r(2) by (rule list_all2_mono) (use uq len l in \<open>auto simp: points_to_def\<close>)
      have out: "m' x = m x" if "x \<notin> buffer q (length bs)" for x
        using r(3) sub that \<open>?a \<in> buffer q (length bs)\<close> by auto
      have pre: "m' x = m x" if "unat q \<le> unat x" "unat x < unat q + length (spaces bs)" for x
        using r(3) that uq ua w(1) by (auto simp: buffer_def)
      show ?thesis
        using run hd tl out pre w(1) ws by auto
    qed
  qed
qed

end
