(* ===== verification/Shell_Commands.thy ===== *)
theory Shell_Commands
  imports User_Shell
begin

text \<open>
  What the shell does with a line, on strings: the words of the line decide, and
  \<^verbatim>\<open>run_command\<close> of \<^verbatim>\<open>User_Shell\<close>, which works on the two buffers in the memory of the
  process, does just that.
\<close>

section \<open>Commands on strings\<close>

datatype shell_act =
    Skip
  | Clear_screen
  | Show_help
  | Refuse "u8 list"
  | Not_found "u8 list" "u8 list"
  | Start "u8 list" "u8 list list"

text \<open>What the line asks for. The first word is compared together with the spaces in front of it.\<close>

definition decide_words :: "(u8 list \<Rightarrow> bool) \<Rightarrow> u8 list \<Rightarrow> u8 list \<Rightarrow> u8 list list \<Rightarrow> shell_act" where
  "decide_words found shown w ws =
     (if shown = bytes_of ''clear'' then Clear_screen
      else if shown = bytes_of ''help'' then Show_help
      else if shown \<in> set refused then Refuse shown
      else if \<not> found (w @ bytes_of ''.elf'') then Not_found (w @ bytes_of ''.elf'') shown
      else Start (w @ bytes_of ''.elf'') (take SHELL_MAX_ARGS (w # ws)))"

definition shell_decide :: "(u8 list \<Rightarrow> bool) \<Rightarrow> u8 list \<Rightarrow> shell_act" where
  "shell_decide found bs =
     (case words bs of [] \<Rightarrow> Skip | w # ws \<Rightarrow> decide_words found (spaces bs @ w) w ws)"

definition quoting :: "u8 list \<Rightarrow> u8 list \<Rightarrow> ucall list" where
  "quoting w post =
     map U_putchar (bytes_of ''[shell] Command '' @ [39]) @ U_write w # map U_putchar (39 # post @ [10])"

fun act_calls :: "int \<Rightarrow> bool \<Rightarrow> shell_act \<Rightarrow> shell_next \<times> ucall list" where
  "act_calls pid exec_ok Skip = (Again, [])"
| "act_calls pid exec_ok Clear_screen = (Again, U_clear # puts shell_title)"
| "act_calls pid exec_ok Show_help = (Again, print_help)"
| "act_calls pid exec_ok (Refuse w) = (Again, quoting w (bytes_of '' Not allowed to execute''))"
| "act_calls pid exec_ok (Not_found name w) = (Again, U_exists name # quoting w (bytes_of '' not found''))"
| "act_calls pid exec_ok (Start name args) =
     (if pid > 0 then (Again, [U_exists name, U_fork, U_wait])
      else if pid < 0 then (Again, [U_exists name, U_fork] @ puts (bytes_of ''[shell] fork failed'' @ [10]))
      else if exec_ok then (Replaced, [U_exists name, U_fork, U_exec name args])
      else (Exited 1, [U_exists name, U_fork, U_exec name args] @
        puts (bytes_of ''[shell] exec failed'' @ [10]) @ [U_exit 1]))"

lemma act_calls_start:
  "act_calls pid exec_ok (Start name args) =
    (fst (launch pid exec_ok name args), U_exists name # snd (launch pid exec_ok name args))"
  by (simp add: launch_def del: bytes_of_simps)

declare act_calls.simps(6) [simp del] act_calls_start [simp]

lemma printf_quoting:
  assumes "cstr_at m p w" and "p \<noteq> 0" and "37 \<notin> set post"
  shows "printf m (bytes_of ''[shell] Command '' @ [39] @ bytes_of ''%s'' @ [39] @ post @ [10]) [p] = Some (quoting w post)"
proof -
  let ?pre = "bytes_of ''[shell] Command '' @ [39]" and ?post = "39 # post @ [10]"
  have "printf m ?post [] = Some (map U_putchar ?post)"
    using printf_plain [of ?post m "[]" "[]"] assms(3) by (simp add: printf.simps)
  then have "printf m (37 # 115 # ?post) [p] = Some (U_write w # map U_putchar ?post)"
    using printf_string [OF assms(1,2), of ?post "[]"] by simp
  moreover have "37 \<notin> set ?pre" by simp
  ultimately have "printf m (?pre @ 37 # 115 # ?post) [p] = Some (quoting w post)"
    using printf_plain [of ?pre m "37 # 115 # ?post" "[p]"] by (simp add: quoting_def)
  moreover have "bytes_of ''%s'' = [37, 115]" by simp
  ultimately show ?thesis by (simp only: append.assoc append_Cons append_Nil)
qed


section \<open>The buffers and the literals\<close>

definition shell_literals :: "u8 list list" where
  "shell_literals = map bytes_of ['' '', ''clear'', ''help'', ''.elf''] @ refused"

definition literal_at :: "(u8 list \<Rightarrow> u64) \<Rightarrow> u64 set \<Rightarrow> mem \<Rightarrow> u8 list \<Rightarrow> bool" where
  "literal_at lit bufs m w \<longleftrightarrow>
     cstr_at m (lit w) w \<and> lit w \<noteq> 0 \<and> unat (lit w) + length w < 2 ^ 64 \<and>
     buffer (lit w) (Suc (length w)) \<inter> bufs = {}"

definition shell_layout :: "(u8 list \<Rightarrow> u64) \<Rightarrow> mem \<Rightarrow> u64 \<Rightarrow> u64 \<Rightarrow> bool" where
  "shell_layout lit m line filename \<longleftrightarrow>
     line \<noteq> 0 \<and> filename \<noteq> 0 \<and> unat line + 128 \<le> 2 ^ 64 \<and> unat filename + 136 \<le> 2 ^ 64 \<and>
     buffer line 128 \<inter> buffer filename 136 = {} \<and>
     (\<forall>w \<in> set shell_literals. literal_at lit (buffer line 128 \<union> buffer filename 136) m w)"

lemma buffer_mono: "unat q \<le> unat p \<Longrightarrow> unat p + n \<le> unat q + k \<Longrightarrow> buffer p n \<subseteq> buffer q k"
  by (auto simp: buffer_def)

lemma cstr_at_outside:
  assumes "cstr_at m p w" and "unat p + length w < 2 ^ 64" and "\<And>x. x \<notin> B \<Longrightarrow> m' x = m x"
    and "buffer p (Suc (length w)) \<inter> B = {}"
  shows "cstr_at m' p w"
  by (rule cstr_at_same [OF assms(1) _ assms(2)]) (use assms(3,4) in \<open>fastforce simp: buffer_def\<close>)

lemma literal_at_outside:
  assumes "literal_at lit B m w" and "\<And>x. x \<notin> B \<Longrightarrow> m' x = m x"
  shows "literal_at lit B m' w"
  using assms cstr_at_outside [of m "lit w" w B m'] by (simp add: literal_at_def)

lemma shell_layout_outside:
  assumes "shell_layout lit m line filename"
    and "\<And>x. x \<notin> buffer line 128 \<union> buffer filename 136 \<Longrightarrow> m' x = m x"
  shows "shell_layout lit m' line filename"
  using assms literal_at_outside [of lit "buffer line 128 \<union> buffer filename 136" m _ m']
  by (simp add: shell_layout_def)

lemma literal_cstr: "literal_at lit B m w \<Longrightarrow> cstr_at m (lit w) w"
  by (simp add: literal_at_def)

lemma str_is_lit:
  assumes "cstr_at m p xs" and "cstr_at m (lit w) w"
  shows "str_is lit m p w = Some (xs = w)"
  using strcmp_cstr [OF assms] cmp_bytes_eq_0 [of xs w] assms cstr_at_nonzero by (auto simp: str_is_def)

lemma str_among_lit:
  "cstr_at m p xs \<Longrightarrow> \<forall>w \<in> set ws. cstr_at m (lit w) w \<Longrightarrow> str_among lit m p ws = Some (xs \<in> set ws)"
  by (induction ws) (simp_all add: str_is_lit)

lemma copy_safe_apart:
  assumes "dest \<notin> buffer src n" and "unat src + n \<le> 2 ^ 64"
  shows "copy_safe dest src n"
proof (rule ccontr)
  assume "\<not> copy_safe dest src n"
  then have "unat (dest - src) < n" by (simp add: copy_safe_def)
  from buffer_index(2) [OF assms(2) this] show False using assms(1) by simp
qed

lemma poke_outside:
  assumes "unat p + length bs \<le> 2 ^ 64" and "x \<notin> buffer p (length bs)"
  shows "poke m p bs x = m x"
proof (rule poke_other, rule ccontr)
  assume "\<not> length bs \<le> unat (x - p)"
  then have "unat (x - p) < length bs" by simp
  from buffer_index(2) [OF assms(1) this] show False using assms(2) by simp
qed

text \<open>The name of the program: the first word with \<^verbatim>\<open>.elf\<close> behind it.\<close>

lemma make_name:
  assumes w: "cstr_at m p w" and e: "cstr_at m q e"
    and f: "unat f + k \<le> 2 ^ 64" and len: "length w + length e < k"
    and wf: "buffer p (Suc (length w)) \<inter> buffer f k = {}" "unat p + length w < 2 ^ 64"
    and ef: "buffer q (Suc (length e)) \<inter> buffer f k = {}" "unat q + length e < 2 ^ 64"
  shows "\<exists>m'. do { m \<leftarrow> strcpy m f p; strcat m f q } = Some m' \<and> cstr_at m' f (w @ e) \<and>
    (\<forall>x. x \<notin> buffer f k \<longrightarrow> m' x = m x)"
proof -
  let ?m = "poke m f (w @ [0])" and ?f = "f + of_nat (length w)"
  have nz: "0 \<notin> set w" "0 \<notin> set e" using w e cstr_at_nonzero by auto
  have uf: "unat ?f = unat f + length w" using buffer_index(1) [OF f, of "length w"] len by simp
  have in_f: "f \<in> buffer f k" "?f \<in> buffer f k" using uf len by (simp_all add: buffer_def)
  have "copy_safe f p (Suc (length w))"
    using in_f(1) wf by (intro copy_safe_apart) auto
  then have cpy: "strcpy m f p = Some ?m" by (rule strcpy_cstr [OF w])
  have out: "?m x = m x" if "x \<notin> buffer f k" for x
    using that f len buffer_mono [of f f "Suc (length w)" k] by (intro poke_outside) auto
  have w': "cstr_at ?m f w" using cstr_at_poke [of w m f "[]"] nz(1) f len by simp
  have e': "cstr_at ?m q e" by (rule cstr_at_outside [OF e ef(2) out ef(1)])
  have "copy_safe ?f q (Suc (length e))"
    using in_f(2) ef by (intro copy_safe_apart) auto
  then have cat: "strcat ?m f q = Some (poke ?m ?f (e @ [0]))" by (rule strcat_cstr [OF w' e'])
  let ?m' = "poke ?m ?f (e @ [0])"
  have at: "?m' x = ?m x" if "x \<notin> buffer ?f (Suc (length e))" for x
    using that uf f len by (intro poke_outside) auto
  have "cstr_at ?m' f (w @ e)"
    unfolding cstr_at_append
  proof (intro conjI allI impI)
    fix i assume i: "i < length w"
    have "unat (f + of_nat i) = unat f + i" using buffer_index(1) [OF f, of i] i len by simp
    then have "?m' (f + of_nat i) = ?m (f + of_nat i)" using uf i by (intro at) (simp add: buffer_def)
    then show "?m' (f + of_nat i) = w ! i" and "w ! i \<noteq> 0"
      using w' i by (simp_all add: cstr_at_iff)
  next
    show "cstr_at ?m' ?f e" using cstr_at_poke [of e ?m ?f "[]"] nz(2) f len by simp
  qed
  moreover have "?m' x = m x" if "x \<notin> buffer f k" for x
    using at [of x] out [OF that] that uf len buffer_mono [of f ?f "Suc (length e)" k] by auto
  ultimately show ?thesis using cpy cat by auto
qed



lemma those_read:
  "list_all2 (\<lambda>p w. read_cstr m p = Some w) ps ws \<Longrightarrow> those (map (read_cstr m) ps) = Some ws"
  by (induction rule: list_all2_induct) simp_all

lemma dispatch_words:
  assumes lay: "shell_layout lit m line filename" and argv: "list_all2 (points_to m line n) argv (take SHELL_MAX_ARGS (w # ws))"
    and n: "n \<le> 127" and shown: "cstr_at m line shown" "length shown \<le> 127"
  shows "\<exists>m'. dispatch lit found pid exec_ok line filename argv sv m =
      Some (m', sv, act_calls pid exec_ok (decide_words found shown w ws)) \<and>
    (\<forall>x. x \<notin> buffer filename 136 \<longrightarrow> m' x = m x)"
proof -
  have line: "line \<noteq> 0" "unat line + 128 \<le> 2 ^ 64" "unat filename + 136 \<le> 2 ^ 64"
    and dis: "buffer line 128 \<inter> buffer filename 136 = {}"
    and lits: "\<And>v. v \<in> set shell_literals \<Longrightarrow> literal_at lit (buffer line 128 \<union> buffer filename 136) m v"
    using lay by (simp_all add: shell_layout_def)
  have lits': "\<And>v. v \<in> set shell_literals \<Longrightarrow> cstr_at m (lit v) v" using lits literal_cstr by blast
  have mem: "bytes_of ''clear'' \<in> set shell_literals" "bytes_of ''help'' \<in> set shell_literals"
    "bytes_of ''.elf'' \<in> set shell_literals" "\<And>v. v \<in> set refused \<Longrightarrow> v \<in> set shell_literals"
    by (simp_all add: shell_literals_def del: bytes_of_simps)
  have is_clear: "str_is lit m line (bytes_of ''clear'') = Some (shown = bytes_of ''clear'')"
    and is_help: "str_is lit m line (bytes_of ''help'') = Some (shown = bytes_of ''help'')"
    and is_no: "str_among lit m line refused = Some (shown \<in> set refused)"
    by (intro str_is_lit str_among_lit shown(1) lits' mem ballI)+
  obtain cmd ps where ps: "argv = cmd # ps" using argv by (cases argv) (simp_all add: SHELL_MAX_ARGS_def)
  have cmd: "cstr_at m cmd w" "unat line \<le> unat cmd" "unat cmd + length w \<le> unat line + n"
    using argv ps by (simp_all add: SHELL_MAX_ARGS_def points_to_def)
  let ?elf = "bytes_of ''.elf''"
  have elf: "length ?elf = 4" by simp
  have sub: "buffer p (Suc (length v)) \<inter> buffer filename 136 = {}" if "points_to m line n p v" for p v
    using that n dis buffer_mono [of line p "Suc (length v)" 128] by (auto simp: points_to_def)
  have le: "literal_at lit (buffer line 128 \<union> buffer filename 136) m ?elf" by (rule lits [OF mem(3)])
  have c1: "length w + length ?elf < 136" unfolding elf using cmd(2,3) n by simp
  have c2: "buffer cmd (Suc (length w)) \<inter> buffer filename 136 = {}" using cmd by (intro sub) (simp add: points_to_def)
  have c3: "unat cmd + length w < 2 ^ 64" using cmd(3) n line(2) by simp
  have c4: "buffer (lit ?elf) (Suc (length ?elf)) \<inter> buffer filename 136 = {}"
    and c5: "unat (lit ?elf) + length ?elf < 2 ^ 64"
    using le unfolding literal_at_def by blast+
  obtain m' where m': "do { m \<leftarrow> strcpy m filename cmd; strcat m filename (lit ?elf) } = Some m'"
    "cstr_at m' filename (w @ ?elf)" "\<forall>x. x \<notin> buffer filename 136 \<longrightarrow> m' x = m x"
    using make_name [OF cmd(1) lits' [OF mem(3)] line(3) c1 c2 c3 c4 c5] by blast
  obtain m1 where m1: "strcpy m filename cmd = Some m1" "strcat m1 filename (lit ?elf) = Some m'"
    using m'(1) by (auto simp: bind_eq_Some_conv)
  have same: "cstr_at m' p v" if "points_to m line n p v" for p v
    by (rule cstr_at_outside [OF _ _ _ sub [OF that]]) (use that m'(3) n line(2) in \<open>auto simp: points_to_def\<close>)
  have args: "those (map (read_cstr m') argv) = Some (take SHELL_MAX_ARGS (w # ws))"
    by (rule those_read, rule list_all2_mono [OF argv]) (intro read_cstr_cstr same)
  have shown': "cstr_at m' line shown"
    by (rule cstr_at_outside [OF shown(1), of "buffer filename 136"])
      (use shown(2) m'(3) line dis buffer_mono [of line line "Suc (length shown)" 128] in auto)
  have quoted: "printf m (bytes_of ''[shell] Command '' @ [39] @ bytes_of ''%s'' @ [39] @
      bytes_of '' Not allowed to execute'' @ [10]) [line] = Some (quoting shown (bytes_of '' Not allowed to execute''))"
    by (rule printf_quoting [OF shown(1) line(1)]) simp
  have quoted': "printf m' (bytes_of ''[shell] Command '' @ [39] @ bytes_of ''%s'' @ [39] @
      bytes_of '' not found'' @ [10]) [line] = Some (quoting shown (bytes_of '' not found''))"
    by (rule printf_quoting [OF shown' line(1)]) simp
  note facts = dispatch_def ps is_clear is_help is_no decide_words_def
  show ?thesis
  proof (cases "shown = bytes_of ''clear'' \<or> shown = bytes_of ''help'' \<or> shown \<in> set refused")
    case True
    have "dispatch lit found pid exec_ok line filename argv sv m =
        Some (m, sv, act_calls pid exec_ok (decide_words found shown w ws))"
      using True quoted unfolding facts by (simp del: bytes_of_simps) blast
    then show ?thesis by blast
  next
    case False
    have "dispatch lit found pid exec_ok line filename argv sv m =
        Some (m', sv, act_calls pid exec_ok (decide_words found shown w ws))"
      using False m1 quoted' args read_cstr_cstr [OF m'(2)] unfolding facts
      by (simp del: bytes_of_simps)
    then show ?thesis using m'(3) by blast
  qed
qed



lemma run_command_decides:
  assumes lay: "shell_layout lit m line filename" and bs: "cstr_at m line bs" "length bs \<le> 127"
  shows "\<exists>m' sv. run_command lit found pid exec_ok line filename saved m =
      Some (m', sv, act_calls pid exec_ok (shell_decide found bs)) \<and>
    (\<forall>x. x \<notin> buffer line 128 \<union> buffer filename 136 \<longrightarrow> m' x = m x)"
proof (cases "bs = []")
  case True
  then show ?thesis using bs(1) by (simp add: run_command_def shell_decide_def words.simps)
next
  case False
  let ?sp = "bytes_of '' ''"
  have line: "line \<noteq> 0" "unat line + 128 \<le> 2 ^ 64" using lay by (simp_all add: shell_layout_def)
  have sub: "buffer line (length bs) \<subseteq> buffer line 128" using bs(2) by (intro buffer_mono) simp_all
  have sp: "literal_at lit (buffer line 128 \<union> buffer filename 136) m ?sp"
    using lay by (simp add: shell_layout_def shell_literals_def del: bytes_of_simps)
  have spw: "?sp = [32]" by simp
  have d: "delims_at m (lit ?sp) [32]" using sp unfolding spw by (simp add: literal_at_def delims_at_def)
  have nb: "\<forall>i \<le> 1. lit ?sp + of_nat i \<notin> buffer line (length bs)"
  proof (intro allI impI)
    fix i :: nat assume "i \<le> 1"
    moreover have "unat (lit ?sp) + Suc (Suc 0) \<le> 2 ^ 64" using sp unfolding spw by (simp add: literal_at_def)
    ultimately have "lit ?sp + of_nat i \<in> buffer (lit ?sp) (Suc (Suc 0))" by (intro buffer_index(2)) simp_all
    then show "lit ?sp + of_nat i \<notin> buffer line (length bs)"
      using sp sub unfolding spw by (auto simp: literal_at_def)
  qed
  have lim: "unat line + length bs < 2 ^ 64" using line(2) bs(2) by simp
  obtain ts m1 sv where run: "token_run (lit ?sp) SHELL_MAX_ARGS saved line m = Some (ts, m1, sv)"
    and ts: "list_all2 (points_to m1 line (length bs)) ts (take SHELL_MAX_ARGS (words bs))"
    and out: "\<forall>x. x \<notin> buffer line (length bs) \<longrightarrow> m1 x = m x"
    and pre: "\<forall>x. unat line \<le> unat x \<longrightarrow> unat x < unat line + length (spaces bs) \<longrightarrow> m1 x = m x"
    and hd: "ts \<noteq> [] \<longrightarrow> hd ts = line + of_nat (length (spaces bs))"
    using token_run_words [of line saved line m bs "lit ?sp" SHELL_MAX_ARGS] line(1) bs(1) lim d nb by auto
  have rc: "run_command lit found pid exec_ok line filename saved m =
      dispatch lit found pid exec_ok line filename ts sv m1"
  proof -
    have "m line \<noteq> 0" using bs(1) False by (cases bs) auto
    then show ?thesis
      using run by (auto simp: run_command_def token_run_def bind_eq_Some_conv split_def simp del: bytes_of_simps)
  qed
  have out': "m1 x = m x" if "x \<notin> buffer line 128" for x using out sub that by blast
  then have lay1: "shell_layout lit m1 line filename" by (intro shell_layout_outside [OF lay]) blast
  show ?thesis
  proof (cases "words bs")
    case Nil
    then have "ts = []" using ts by simp
    then show ?thesis using rc Nil out sub by (auto simp: dispatch_def shell_decide_def)
  next
    case (Cons w ws)
    obtain t ts' where t: "ts = t # ts'" "points_to m1 line (length bs) t w"
      using ts unfolding Cons by (auto simp: SHELL_MAX_ARGS_def list_all2_Cons2)
    let ?n = "length (spaces bs)"
    have n: "?n \<le> length bs" unfolding spaces_def by (rule length_takeWhile_le)
    have tl: "t = line + of_nat ?n" using hd t(1) by simp
    have ut: "unat t = unat line + ?n"
      unfolding tl by (rule buffer_index(1) [of line 128]) (use line(2) n bs(2) in simp_all)
    have len: "length (spaces bs @ w) \<le> 127" using t(2) ut bs(2) by (simp add: points_to_def)
    have "cstr_at m1 line (spaces bs @ w)"
      unfolding cstr_at_append
    proof (intro conjI allI impI)
      fix i assume i: "i < ?n"
      have "unat (line + of_nat i) = unat line + i"
        by (rule buffer_index(1) [of line 128]) (use line(2) n bs(2) i in simp_all)
      then have "m1 (line + of_nat i) = m (line + of_nat i)" using pre i by simp
      then show "m1 (line + of_nat i) = spaces bs ! i" and "spaces bs ! i \<noteq> 0"
        using bs(1) i n takeWhile_nth [of i "\<lambda>b. b = 32" bs] by (simp_all add: cstr_at_iff spaces_def)
    next
      show "cstr_at m1 (line + of_nat ?n) w" using t(2) tl by (simp add: points_to_def)
    qed
    from dispatch_words [OF lay1 ts [unfolded Cons] bs(2) this len, of found pid exec_ok sv]
    show ?thesis using rc Cons out' by (auto simp: shell_decide_def)
  qed
qed














section \<open>The refusal of programs\<close>

lemma words_spaces: "words (replicate k 32 @ bs) = words bs"
proof -
  have "dropWhile (\<lambda>b. b = 32) (replicate k 32 @ bs) = dropWhile (\<lambda>b. b = 32) bs"
    by (induction k) simp_all
  then show ?thesis by (subst (1 2) words.simps) simp
qed

lemma words_first:
  assumes "w \<noteq> []" and "32 \<notin> set w" and "rest = [] \<or> hd rest = 32"
  shows "words (w @ rest) = w # words rest"
proof -
  have d: "dropWhile (\<lambda>b. b = 32) (w @ rest) = w @ rest" using assms(1,2) by (cases w) auto
  have n: "\<And>b. b \<in> set w \<Longrightarrow> b \<noteq> 32" using assms(2) by auto
  have "takeWhile (\<lambda>b. b \<noteq> 32) rest = []" "dropWhile (\<lambda>b. b \<noteq> 32) rest = rest"
    using assms(3) by (cases rest; simp)+
  then have "takeWhile (\<lambda>b. b \<noteq> 32) (w @ rest) = w" "dropWhile (\<lambda>b. b \<noteq> 32) (w @ rest) = rest"
    using n by (simp_all add: takeWhile_append2 dropWhile_append2)
  then show ?thesis using d assms(1) by (subst words.simps) simp
qed

lemma spaces_replicate:
  assumes "w \<noteq> []" and "32 \<notin> set w"
  shows "spaces (replicate k 32 @ w @ rest) = replicate k 32"
  using assms by (induction k) (auto simp: spaces_def neq_Nil_conv)

lemma refused_words: "w \<in> set refused \<Longrightarrow> w \<noteq> [] \<and> 32 \<notin> set w \<and> w \<noteq> bytes_of ''clear'' \<and> w \<noteq> bytes_of ''help'' \<and> length w < 16"
  by (auto simp: refused_def)

lemma decide_refused:
  assumes w: "w \<in> set refused" and rest: "rest = [] \<or> hd rest = 32" and found: "found (w @ bytes_of ''.elf'')"
  shows "shell_decide found (replicate k 32 @ w @ rest) =
    (if k = 0 then Refuse w else Start (w @ bytes_of ''.elf'') (take SHELL_MAX_ARGS (w # words rest)))"
proof -
  note rw = refused_words [OF w]
  have ws: "words (replicate k 32 @ w @ rest) = w # words rest"
    unfolding words_spaces using words_first [of w rest] rw rest by blast
  have sp: "spaces (replicate k 32 @ w @ rest) = replicate k 32" using spaces_replicate rw by blast
  have no: "replicate k 32 @ w \<notin> set (tl shell_literals)" if "k \<noteq> 0"
  proof
    assume "replicate k 32 @ w \<in> set (tl shell_literals)"
    moreover have "32 \<in> set (replicate k 32 @ w)" using that by (simp add: set_replicate_conv_if)
    moreover have "32 \<notin> set v" if "v \<in> set (tl shell_literals)" for v
      using that by (auto simp: shell_literals_def refused_def)
    ultimately show False by blast
  qed
  show ?thesis
  proof (cases "k = 0")
    case True
    then show ?thesis using w rw found unfolding shell_decide_def ws sp decide_words_def by (simp del: bytes_of_simps)
  next
    case False
    have "replicate k 32 @ w \<noteq> bytes_of ''clear''" "replicate k 32 @ w \<noteq> bytes_of ''help''" "replicate k 32 @ w \<notin> set refused"
      using no [OF False] by (auto simp: shell_literals_def simp del: bytes_of_simps)
    then show ?thesis using False found unfolding shell_decide_def ws sp decide_words_def by (simp del: bytes_of_simps)
  qed
qed

section \<open>Properties\<close>


text \<open>
  C25: The refusal of the system programs holds for a line that begins with their name and
  is passed by a line that begins with a space: the comparison is with the whole line up to
  the end of the first word, while the program started is the first word. So with one space
  or more in front, a \<open>shell\<close>, \<open>idle\<close>, \<open>init\<close>, \<open>test_shell\<close>, \<open>window_server\<close>, \<open>testa\<close> or
  \<open>testb\<close> that exists is forked and executed; with none it is refused, whatever follows it.
\<close>

theorem shell_guard_bypassed:
  assumes "shell_layout lit m line filename" and "w \<in> set refused" and "rest = [] \<or> hd rest = 32"
    and "found (w @ bytes_of ''.elf'')"
    and "cstr_at m line (replicate k 32 @ w @ rest)" and "k + length w + length rest \<le> 127"
  shows "\<exists>m' sv. run_command lit found pid exec_ok line filename saved m =
    Some (m', sv,
      if k = 0 then (Again, quoting w (bytes_of '' Not allowed to execute''))
      else (fst (launch pid exec_ok (w @ bytes_of ''.elf'') (take SHELL_MAX_ARGS (w # words rest))),
        U_exists (w @ bytes_of ''.elf'') # snd (launch pid exec_ok (w @ bytes_of ''.elf'') (take SHELL_MAX_ARGS (w # words rest)))))"
proof -
  have len: "length (replicate k 32 @ w @ rest) \<le> 127" using assms(6) by simp
  note d = decide_refused [of w rest found k, OF assms(2-4)]
  from run_command_decides [OF assms(1,5) len, of found pid exec_ok saved]
  show ?thesis unfolding d by (cases "k = 0") auto
qed


section \<open>Witnesses\<close>

lemma shell_literals_facts:
  "length shell_literals = 11" "distinct shell_literals" "\<forall>w \<in> set shell_literals. length w < 32 \<and> 0 \<notin> set w"
  by (simp_all add: shell_literals_def refused_def)

text \<open>The literals at 0x1000, the buffers behind them.\<close>

abbreviation "demo_lit \<equiv> table_lit shell_literals"
abbreviation "demo_image \<equiv> table_image shell_literals"

lemma demo_literal:
  assumes "k < 11" and "\<forall>x \<in> bufs. 8192 \<le> unat x"
  shows "literal_at demo_lit bufs demo_image (shell_literals ! k)"
proof -
  have "length shell_literals \<le> 100" using shell_literals_facts(1) by simp
  moreover have k: "k < length shell_literals" using assms(1) shell_literals_facts(1) by simp
  ultimately have t: "cstr_at demo_image (demo_lit (shell_literals ! k)) (shell_literals ! k)"
    "unat (demo_lit (shell_literals ! k)) = 4096 + 32 * k"
    using table_image_cstr [OF shell_literals_facts(2,3)] by blast+
  moreover have "length (shell_literals ! k) < 32" using shell_literals_facts(3) k by auto
  moreover from t(2) have "demo_lit (shell_literals ! k) \<noteq> 0" by (metis add_is_0 unsigned_0 zero_neq_numeral)
  ultimately show ?thesis using assms unfolding literal_at_def by (fastforce simp: buffer_def)
qed

lemma demo_layout: "shell_layout demo_lit demo_image 0x2000 0x2100"
proof -
  have "buffer 0x2000 128 \<inter> buffer 0x2100 136 = {}" by (auto simp: buffer_def)
  moreover have "literal_at demo_lit (buffer 0x2000 128 \<union> buffer 0x2100 136) demo_image w" if w: "w \<in> set shell_literals" for w
  proof -
    obtain k where "k < 11" "w = shell_literals ! k"
      using w unfolding in_set_conv_nth shell_literals_facts(1) by blast
    moreover have "\<forall>x \<in> buffer 0x2000 128 \<union> buffer 0x2100 136. 8192 \<le> unat x" by (auto simp: buffer_def)
    ultimately show ?thesis using demo_literal by blast
  qed
  ultimately show ?thesis by (simp add: shell_layout_def)
qed




theorem shell_guard_bypassed_witness:
  "\<exists>m' sv. run_command demo_lit (\<lambda>n. True) 0 True 0x2000 0x2100 0
      (poke demo_image 0x2000 (replicate 1 32 @ bytes_of ''shell'' @ [] @ [0])) =
    Some (m', sv, Replaced, [U_exists (bytes_of ''shell.elf''), U_fork, U_exec (bytes_of ''shell.elf'') [bytes_of ''shell'']])"
proof -
  let ?bs = "replicate 1 32 @ bytes_of ''shell'' @ [] :: u8 list" and ?m = "poke demo_image 0x2000 (replicate 1 32 @ bytes_of ''shell'' @ [] @ [0])"
  have "?m x = demo_image x" if "x \<notin> buffer 0x2000 128 \<union> buffer 0x2100 136" for x
    using that by (intro poke_outside) (auto simp: buffer_def)
  then have l: "shell_layout demo_lit ?m 0x2000 0x2100" by (rule shell_layout_outside [OF demo_layout])
  have c: "cstr_at ?m 0x2000 ?bs" using cstr_at_poke [of ?bs demo_image "0x2000" "[]"] by simp
  have r: "bytes_of ''shell'' \<in> set refused" unfolding refused_def by (simp del: bytes_of_simps)
  have n: "1 + length (bytes_of ''shell'') + length ([] :: u8 list) \<le> 127" by simp
  have e: "bytes_of ''shell'' @ bytes_of ''.elf'' = bytes_of ''shell.elf''" by simp
  from shell_guard_bypassed [where found = "\<lambda>n. True" and pid = 0 and exec_ok = True and saved = 0, OF l r _ _ c n]
  show ?thesis
    unfolding e by (simp add: launch_def SHELL_MAX_ARGS_def words.simps del: bytes_of_simps append.simps)
qed

end
