(* ===== verification/User_Programs.thy ===== *)
theory User_Programs
  imports User_Stdio Sys_Info
begin

text \<open>
  The small programs of \<^verbatim>\<open>user/\<close>: \<^verbatim>\<open>echo.c\<close>, \<^verbatim>\<open>mem.c\<close>, \<^verbatim>\<open>date.c\<close>, \<^verbatim>\<open>hello.c\<close>, \<^verbatim>\<open>ls.c\<close>, \<^verbatim>\<open>ps.c\<close>,
  \<^verbatim>\<open>testa.c\<close> and \<^verbatim>\<open>testb.c\<close>,
  with the entry of \<^verbatim>\<open>crt0.S\<close>, which hands the result of \<^verbatim>\<open>main\<close> to \<^verbatim>\<open>exit\<close>. A program is the
  list of its calls; \<open>m\<close> is its memory, \<open>lit w\<close> the address of the literal \<open>w\<close> in it, and what
  the kernel answers to the call of a program is an argument.
\<close>

section \<open>The code\<close>

definition crt0 :: "ucall list \<times> int \<Rightarrow> ucall list" where
  "crt0 r = fst r @ [U_exit (snd r)]"

definition hello_main :: "ucall list" where
  "hello_main = puts (bytes_of ''[hello] Hello from exec!'' @ [10]) @ [U_exit 0]"

definition ls_main :: "ucall list" where
  "ls_main = [U_ls, U_exit 0]"

definition ps_main :: "ucall list" where
  "ps_main = [U_ps, U_exit 0]"

text \<open>\<^verbatim>\<open>testa\<close> and \<^verbatim>\<open>testb\<close> print their letter for ever; \<open>n\<close> turns of the loop.\<close>

definition testa_main :: "mem \<Rightarrow> nat \<Rightarrow> ucall list option" where
  "testa_main m n =
     do {
       cs \<leftarrow> printf m (bytes_of ''starting process A'' @ [10]) [];
       Some (cs @ concat (replicate n (putc (chr CHR ''A''))))
     }"

definition testb_main :: "mem \<Rightarrow> nat \<Rightarrow> ucall list option" where
  "testb_main m n =
     do {
       cs \<leftarrow> printf m (bytes_of ''starting process A'' @ [10]) [];
       Some (cs @ concat (replicate n (putc (chr CHR ''B''))))
     }"

text \<open>\<^verbatim>\<open>echo\<close>: the loop over \<^verbatim>\<open>argv[1]\<close>, \<dots>, which prints a space after each but the last.\<close>

primrec echo_loop :: "mem \<Rightarrow> u64 list \<Rightarrow> ucall list option" where
  "echo_loop m [] = Some []"
| "echo_loop m (p # ps) =
     do {
       cs \<leftarrow> puts_at m p;
       cs' \<leftarrow> echo_loop m ps;
       Some (cs @ (if ps \<noteq> [] then putc (chr CHR '' '') else []) @ cs')
     }"

definition echo_main :: "mem \<Rightarrow> u64 list \<Rightarrow> ucall list option" where
  "echo_main m argv = do { cs \<leftarrow> echo_loop m (tl argv); Some (cs @ putc 10 @ [U_exit 0]) }"

text \<open>\<^verbatim>\<open>mem\<close>: \<open>ret\<close> is the result of the system call, \<open>total_pages\<close> and
  \<open>free_pages\<close> what it has written to \<^verbatim>\<open>info\<close>.\<close>

definition mem_main :: "mem \<Rightarrow> int \<Rightarrow> u64 \<Rightarrow> u64 \<Rightarrow> (ucall list \<times> int) option" where
  "mem_main m ret total_pages free_pages =
     (if ret \<noteq> 0 then do { cs \<leftarrow> printf m (bytes_of ''sys_sysinfo failed'' @ [10]) []; Some (U_sysinfo # cs, 1) }
      else do {
        c1 \<leftarrow> printf m (bytes_of ''=== Memory Status ==='' @ [10]) [];
        c2 \<leftarrow> printf m (bytes_of ''Total pages: %lu'' @ [10]) [total_pages];
        c3 \<leftarrow> printf m (bytes_of ''Free  pages: %lu'' @ [10]) [free_pages];
        c4 \<leftarrow> printf m (bytes_of ''Used  pages: %lu'' @ [10]) [total_pages - free_pages];
        Some (U_sysinfo # c1 @ c2 @ c3 @ c4, 0)
      })"

definition WEEKDAYS :: "string list" where
  "WEEKDAYS = [''Sun'', ''Mon'', ''Tue'', ''Wed'', ''Thu'', ''Fri'', ''Sat'']"

definition MONTHS :: "string list" where
  "MONTHS = [''Jan'', ''Feb'', ''Mar'', ''Apr'', ''May'', ''Jun'', ''Jul'', ''Aug'', ''Sep'', ''Oct'', ''Nov'', ''Dec'']"

text \<open>An access of one of the two tables, \<open>None\<close> when it is past its end.\<close>

definition name_at :: "string list \<Rightarrow> int \<Rightarrow> u8 list option" where
  "name_at names i = (if 0 \<le> i \<and> nat i < length names then Some (bytes_of (names ! nat i)) else None)"

text \<open>The hour and the first letter of \<^verbatim>\<open>ampm\<close>.\<close>

definition twelve_hour :: "int \<Rightarrow> int \<times> u8" where
  "twelve_hour hour =
     (if 12 \<le> hour then (if 12 < hour then hour - 12 else hour, chr CHR ''P'')
      else if hour = 0 then (12, chr CHR ''A'') else (hour, chr CHR ''A''))"

text \<open>\<^verbatim>\<open>date\<close>: \<open>ampm\<close> is the address of the array of that name, initialised to \<^verbatim>\<open>AM\<close>.\<close>

definition date_main :: "(u8 list \<Rightarrow> u64) \<Rightarrow> mem \<Rightarrow> u64 \<Rightarrow> int \<Rightarrow> date_time \<Rightarrow> (ucall list \<times> int) option" where
  "date_main lit m ampm ret now =
     (if ret < 0 then do { cs \<leftarrow> printf m (bytes_of ''date: syscall failed'' @ [10]) []; Some (U_get_time # cs, - 1) }
      else do {
        let (hour, c) = twelve_hour (dt_hour now);
        let m = m(ampm := c);
        weekday \<leftarrow> name_at WEEKDAYS (dt_weekday now);
        month \<leftarrow> name_at MONTHS (dt_month now - 1);
        cs \<leftarrow> printf m (bytes_of ''%s %s %02d %02d:%02d:%02d %s CEST %d'' @ [10])
          [lit weekday, lit month, of_int (dt_day now), of_int hour, of_int (dt_minute now),
           of_int (dt_second now), ampm, of_int (dt_year now)];
        Some (U_get_time # cs, 0)
      })"

section \<open>Properties\<close>

primrec spaced :: "u8 list list \<Rightarrow> u8 list" where
  "spaced [] = []"
| "spaced (w # ws) = (if ws = [] then w else w @ 32 # spaced ws)"

lemma echo_loop_spaced:
  "list_all2 (cstr_at m) ps ws \<Longrightarrow> \<exists>cs. echo_loop m ps = Some cs \<and> console cs = spaced ws \<and> deeds cs = []"
proof (induction rule: list_all2_induct)
  case (Cons p ps w ws)
  then have "ps = [] \<longleftrightarrow> ws = []" by (auto dest: list_all2_lengthD)
  then show ?case using Cons by (auto simp: puts_at_def read_cstr_cstr)
qed simp

text \<open>
  \<^verbatim>\<open>echo\<close> prints its arguments, each string that the entries of \<^verbatim>\<open>argv\<close> after the first
  point to, separated by single spaces and ended by a newline, and then exits with 0: it does
  no more than print.
\<close>

theorem echo_prints:
  assumes "list_all2 (cstr_at m) argv args"
  shows "\<exists>cs. echo_main m argv = Some cs \<and> console cs = spaced (tl args) @ [10] \<and> deeds cs = [U_exit 0]"
proof -
  have "list_all2 (cstr_at m) (tl argv) (tl args)" using assms by (cases argv; cases args) auto
  then obtain cs where "echo_loop m (tl argv) = Some cs" "console cs = spaced (tl args)" "deeds cs = []"
    using echo_loop_spaced by blast
  then show ?thesis by (auto simp: echo_main_def console_def deeds_def putc_def)
qed

text \<open>The hours of the day and what \<^verbatim>\<open>date\<close> makes of them, both ways.\<close>

definition hour_of :: "int \<times> u8 \<Rightarrow> int" where
  "hour_of h = fst h mod 12 + (if snd h = chr CHR ''P'' then 12 else 0)"

lemma twelve_hour_back:
  assumes "0 \<le> h" and "h < 24"
  shows "hour_of (twelve_hour h) = h" and "1 \<le> fst (twelve_hour h)" and "fst (twelve_hour h) \<le> 12"
  using assms by (auto simp: twelve_hour_def hour_of_def) presburger

definition date_line :: "date_time \<Rightarrow> u8 list" where
  "date_line now =
     (let (hour, c) = twelve_hour (dt_hour now); num = \<lambda>i. dec (of_int i) in
      bytes_of (WEEKDAYS ! nat (dt_weekday now)) @ [32] @ bytes_of (MONTHS ! nat (dt_month now - 1)) @ [32] @
      num (dt_day now) @ [32] @ num hour @ [58] @ num (dt_minute now) @ [58] @ num (dt_second now) @ [32] @
      [c, 77] @ bytes_of '' CEST '' @ num (dt_year now) @ [10])"

definition date_fields :: "date_time \<Rightarrow> bool" where
  "date_fields d \<longleftrightarrow> 0 \<le> dt_weekday d \<and> dt_weekday d < 7 \<and> 1 \<le> dt_month d \<and> dt_month d \<le> 12 \<and>
     1 \<le> dt_day d \<and> dt_day d \<le> 31 \<and> 0 \<le> dt_hour d \<and> dt_hour d < 24 \<and> 0 \<le> dt_minute d \<and> dt_minute d < 60 \<and>
     0 \<le> dt_second d \<and> dt_second d < 60 \<and> 0 \<le> dt_year d \<and> dt_year d < 2 ^ 31"

text \<open>The strings of the program: the names of days and months, which \<^verbatim>\<open>ampm\<close> does not touch.\<close>

definition date_strings :: "(u8 list \<Rightarrow> u64) \<Rightarrow> mem \<Rightarrow> u64 \<Rightarrow> bool" where
  "date_strings lit m ampm \<longleftrightarrow>
     ampm \<noteq> 0 \<and> cstr_at m (ampm + 1) [77] \<and>
     (\<forall>n \<in> set (WEEKDAYS @ MONTHS). lit (bytes_of n) \<noteq> 0 \<and>
        (\<forall>c. cstr_at (m(ampm := c)) (lit (bytes_of n)) (bytes_of n)))"

lemma date_fields_of:
  assumes "date_fields d"
  shows "nat (dt_weekday d) < length WEEKDAYS" "nat (dt_month d - 1) < length MONTHS"
    "name_at WEEKDAYS (dt_weekday d) = Some (bytes_of (WEEKDAYS ! nat (dt_weekday d)))"
    "name_at MONTHS (dt_month d - 1) = Some (bytes_of (MONTHS ! nat (dt_month d - 1)))"
  using assms by (auto simp: date_fields_def WEEKDAYS_def MONTHS_def name_at_def nat_less_iff)


lemma prints_date:
  assumes f: "date_fields d" and st: "date_strings lit m ampm"
  shows "prints (m(ampm := snd (twelve_hour (dt_hour d)))) (bytes_of ''%s %s %02d %02d:%02d:%02d %s CEST %d'' @ [10])
    [lit (bytes_of (WEEKDAYS ! nat (dt_weekday d))), lit (bytes_of (MONTHS ! nat (dt_month d - 1))), of_int (dt_day d),
     of_int (fst (twelve_hour (dt_hour d))), of_int (dt_minute d), of_int (dt_second d), ampm, of_int (dt_year d)]
    (date_line d)"
proof -
  obtain h c where h: "twelve_hour (dt_hour d) = (h, c)" by (metis surj_pair)
  have hb: "0 \<le> h" "h < 2 ^ 31" using twelve_hour_back [of "dt_hour d"] f h by (auto simp: date_fields_def)
  have cz: "c \<noteq> 0" using h by (auto simp: twelve_hour_def split: if_splits)
  have b: "0 \<le> dt_day d" "dt_day d < 2 ^ 31" "0 \<le> dt_minute d" "dt_minute d < 2 ^ 31" "0 \<le> dt_second d"
    "dt_second d < 2 ^ 31" "0 \<le> dt_year d" "dt_year d < 2 ^ 31" using f by (auto simp: date_fields_def)
  let ?wd = "WEEKDAYS ! nat (dt_weekday d)" and ?mo = "MONTHS ! nat (dt_month d - 1)" and ?m = "m(ampm := c)"
  have "?wd \<in> set (WEEKDAYS @ MONTHS)" "?mo \<in> set (WEEKDAYS @ MONTHS)"
    using date_fields_of(1,2) [OF f] by (simp_all add: nth_mem)
  then have n: "cstr_at ?m (lit (bytes_of ?wd)) (bytes_of ?wd)" "lit (bytes_of ?wd) \<noteq> 0"
    "cstr_at ?m (lit (bytes_of ?mo)) (bytes_of ?mo)" "lit (bytes_of ?mo) \<noteq> 0"
    using st unfolding date_strings_def by blast+
  have "cstr_at ?m ampm [c, 77]"
    using st cz by (simp add: date_strings_def)
  then have ap: "cstr_at ?m ampm [c, 77]" "ampm \<noteq> 0" using st by (simp_all add: date_strings_def)
  have sep: "(37 :: u8) \<notin> set [32]" "(37 :: u8) \<notin> set [58]" "(37 :: u8) \<notin> set (bytes_of '' CEST '')" by simp_all
  have t: "prints ?m [10] [] [10]" using prints_plain [of "[10]" ?m "[]" "[]" "[]"] prints_nil by simp
  note t = prints_plain [OF sep(3) prints_d [OF b(7,8) t]]
  note t = prints_02d [OF b(5,6) prints_plain [OF sep(1) prints_string [OF ap t]]]
  note t = prints_02d [OF hb prints_plain [OF sep(2) prints_02d [OF b(3,4) prints_plain [OF sep(2) t]]]]
  note t = prints_plain [OF sep(1) prints_02d [OF b(1,2) prints_plain [OF sep(1) t]]]
  note t = prints_string [OF n(1,2) prints_plain [OF sep(1) prints_string [OF n(3,4) t]]]
  show ?thesis using t by (simp add: h date_line_def Let_def)
qed


lemma mlen_31: "m < 12 \<Longrightarrow> mlen y m \<le> 31"
  using less_12_cases [of m] by (auto simp: mlen_eval)

lemma valid_date_fields:
  assumes "valid_date (dt_year d) (dt_month d) (dt_day d) (dt_hour d) (dt_minute d) (dt_second d)"
    and "0 \<le> dt_weekday d" and "dt_weekday d < 7"
  shows "date_fields d"
proof -
  have "nat (dt_month d - 1) < 12" using assms(1) by (auto simp: valid_date_def)
  then have "mlen (dt_year d) (nat (dt_month d - 1)) \<le> 31" by (rule mlen_31)
  then show ?thesis using assms by (auto simp: date_fields_def valid_date_def)
qed

text \<open>
  C27: The clock on the screen. Whatever the tick counter of the machine reads, the
  kernel's \<open>compute_datetime\<close> answers \<^verbatim>\<open>date\<close> with a date whose fields
  index the program's tables in range, and the program prints it: weekday, month and day, the
  time on the twelve-hour clock, from which with AM or PM the hour of the day can be told
  again, and the year. The two-column fields of the format come out unpadded, five past nine
  as \<^verbatim>\<open>9:5:0\<close>.
\<close>

theorem date_prints:
  assumes "date_strings lit m ampm"
  shows "\<exists>now cs. compute_datetime ticks = Some now \<and> date_main lit m ampm 0 now = Some (cs, 0) \<and>
    console cs = date_line now \<and> deeds (crt0 (cs, 0)) = [U_get_time, U_exit 0] \<and>
    hour_of (twelve_hour (dt_hour now)) = dt_hour now"
proof -
  obtain now where now: "compute_datetime ticks = Some now"
    and v: "valid_date (dt_year now) (dt_month now) (dt_day now) (dt_hour now) (dt_minute now) (dt_second now)"
    using datetime_epoch [OF uptime_bound] by (auto simp: compute_datetime_def Let_def)
  have "0 \<le> dt_weekday now \<and> dt_weekday now < 7"
  proof -
    obtain e :: u64 where "dt_weekday now = uint ((e div 86400 + 4) mod 7)"
      using now by (auto simp: compute_datetime_def compute_datetime_from_epoch_def Let_def
        split: prod.splits option.splits)
    moreover have "((e div 86400 + 4) mod 7) < (7 :: u64)" by (rule word_mod_less_divisor) simp
    ultimately show ?thesis by (simp add: word_less_def)
  qed
  then have f: "date_fields now" using valid_date_fields [OF v] by blast
  obtain cs where "printf (m(ampm := snd (twelve_hour (dt_hour now))))
      (bytes_of ''%s %s %02d %02d:%02d:%02d %s CEST %d'' @ [10])
      [lit (bytes_of (WEEKDAYS ! nat (dt_weekday now))), lit (bytes_of (MONTHS ! nat (dt_month now - 1))),
       of_int (dt_day now), of_int (fst (twelve_hour (dt_hour now))), of_int (dt_minute now),
       of_int (dt_second now), ampm, of_int (dt_year now)] = Some cs"
    "console cs = date_line now" "deeds cs = []"
    using prints_date [OF f assms] unfolding prints_def by blast
  then have "date_main lit m ampm 0 now = Some (U_get_time # cs, 0)"
    by (simp only: date_main_def date_fields_of(3,4) [OF f] split_def Let_def order.irrefl if_False bind.bind_lunit)
  moreover have "console (U_get_time # cs) = console cs" "deeds (crt0 (U_get_time # cs, 0)) = U_get_time # deeds cs @ [U_exit 0]"
    by (simp_all add: console_def deeds_def crt0_def)
  moreover have "hour_of (twelve_hour (dt_hour now)) = dt_hour now"
    using f by (intro twelve_hour_back) (simp_all add: date_fields_def)
  ultimately show ?thesis using now \<open>console cs = date_line now\<close> \<open>deeds cs = []\<close> by auto
qed

text \<open>
  \<^verbatim>\<open>mem\<close> prints the two counters of \<^verbatim>\<open>SYS_SYSINFO\<close> and their difference, as decimal
  numerals of the right value, for all counters.
\<close>

theorem mem_prints:
  "\<exists>cs. mem_main m 0 total_pages free_pages = Some (cs, 0) \<and> deeds cs = [U_sysinfo] \<and>
    console cs = bytes_of ''=== Memory Status ==='' @ [10] @
      bytes_of ''Total pages: '' @ dec total_pages @ [10] @ bytes_of ''Free  pages: '' @ dec free_pages @ [10] @
      bytes_of ''Used  pages: '' @ dec (total_pages - free_pages) @ [10] \<and>
    numeral_value 10 (dec total_pages) = unat total_pages \<and> numeral_value 10 (dec free_pages) = unat free_pages"
proof -
  have nl: "prints m [10] [] [10]" using prints_plain [of "[10]" m "[]" "[]" "[]"] prints_nil by simp
  have t: "(37 :: u8) \<notin> set (bytes_of ''Total pages: '')"
    "(37 :: u8) \<notin> set (bytes_of ''Free  pages: '')" "(37 :: u8) \<notin> set (bytes_of ''Used  pages: '')" "(37 :: u8) \<notin> set (bytes_of ''=== Memory Status ==='')"
    by simp_all
  have lu: "prints m (bytes_of a @ [37, 108, 117, 10]) [v] (bytes_of a @ dec v @ [10])" if "37 \<notin> set (bytes_of a)" for a v
    using prints_plain [OF that prints_lu [OF nl, of v]] by simp
  have f: "bytes_of ''Total pages: %lu'' @ [10] = bytes_of ''Total pages: '' @ [37, 108, 117, 10]"
    "bytes_of ''Free  pages: %lu'' @ [10] = bytes_of ''Free  pages: '' @ [37, 108, 117, 10]"
    "bytes_of ''Used  pages: %lu'' @ [10] = bytes_of ''Used  pages: '' @ [37, 108, 117, 10]" by simp_all
  obtain c1 where c1: "printf m (bytes_of ''=== Memory Status ==='' @ [10]) [] = Some c1"
    "console c1 = bytes_of ''=== Memory Status ==='' @ [10]" "deeds c1 = []"
    using prints_plain [OF t(4) nl] unfolding prints_def by blast
  obtain c2 where c2: "printf m (bytes_of ''Total pages: %lu'' @ [10]) [total_pages] = Some c2"
    "console c2 = bytes_of ''Total pages: '' @ dec total_pages @ [10]" "deeds c2 = []"
    using lu [OF t(1)] unfolding f prints_def by blast
  obtain c3 where c3: "printf m (bytes_of ''Free  pages: %lu'' @ [10]) [free_pages] = Some c3"
    "console c3 = bytes_of ''Free  pages: '' @ dec free_pages @ [10]" "deeds c3 = []"
    using lu [OF t(2)] unfolding f prints_def by blast
  obtain c4 where c4: "printf m (bytes_of ''Used  pages: %lu'' @ [10]) [total_pages - free_pages] = Some c4"
    "console c4 = bytes_of ''Used  pages: '' @ dec (total_pages - free_pages) @ [10]" "deeds c4 = []"
    using lu [OF t(3)] unfolding f prints_def by blast
  have "mem_main m 0 total_pages free_pages = Some (U_sysinfo # c1 @ c2 @ c3 @ c4, 0)"
    unfolding mem_main_def c1(1) c2(1) c3(1) c4(1) by simp
  moreover have "console (U_sysinfo # cs) = console cs" "deeds (U_sysinfo # cs) = U_sysinfo # deeds cs" for cs
    by (simp_all add: console_def deeds_def)
  ultimately show ?thesis
    using c1 c2 c3 c4 dec_value(1) by (intro exI [of _ "U_sysinfo # c1 @ c2 @ c3 @ c4"]) (simp del: bytes_of_simps)
qed


section \<open>Witnesses\<close>

definition date_names :: "u8 list list" where
  "date_names = map bytes_of (WEEKDAYS @ MONTHS)"

lemma date_names_facts:
  "length date_names = 19" "distinct date_names" "\<forall>w \<in> set date_names. length w < 32 \<and> 0 \<notin> set w"
  by (simp_all add: date_names_def WEEKDAYS_def MONTHS_def)

lemma demo_date_strings: "date_strings (table_lit date_names) ((table_image date_names)(0x2001 := 77)) 0x2000"
proof -
  let ?m = "(table_image date_names)(0x2001 := 77)"
  have z: "table_image date_names 0x2002 = 0"
    by (simp add: table_image_def date_names_facts(1) Let_def)
  have "table_lit date_names w \<noteq> 0 \<and> (\<forall>c. cstr_at (?m(0x2000 := c)) (table_lit date_names w) w)" if w: "w \<in> set date_names" for w
  proof -
    obtain k where k: "k < length date_names" "w = date_names ! k" using w unfolding in_set_conv_nth by blast
    have t: "cstr_at (table_image date_names) (table_lit date_names w) w" "unat (table_lit date_names w) = 4096 + 32 * k"
      using table_image_cstr [OF date_names_facts(2,3), of k] k date_names_facts(1) by auto
    have len: "length w < 32" using date_names_facts(3) w by blast
    have "cstr_at (?m(0x2000 := c)) (table_lit date_names w) w" for c
      unfolding cstr_at_iff
    proof -
      have "(?m(0x2000 := c)) (table_lit date_names w + of_nat i) = table_image date_names (table_lit date_names w + of_nat i)"
        if "i < 32" for i
      proof -
        have "unat (of_nat i :: u64) = i" using that by (intro unat_of_nat_u64) simp
        then have "unat (table_lit date_names w + of_nat i) = 4096 + 32 * k + i"
          using t(2) that k(1) date_names_facts(1) by (subst unat_add_u64) simp_all
        then have "unat (table_lit date_names w + of_nat i) < 8192" using that k(1) date_names_facts(1) by simp
        then have "table_lit date_names w + of_nat i \<noteq> 0x2000" "table_lit date_names w + of_nat i \<noteq> 0x2001" by auto
        then show ?thesis by simp
      qed
      then show "(\<forall>i<length w. (?m(0x2000 := c)) (table_lit date_names w + of_nat i) = w ! i \<and> w ! i \<noteq> 0) \<and>
          (?m(0x2000 := c)) (table_lit date_names w + of_nat (length w)) = 0"
        using t(1) len unfolding cstr_at_iff by auto
    qed
    moreover have "table_lit date_names w \<noteq> 0" using t(2) by (metis add_is_0 unsigned_0 zero_neq_numeral)
    ultimately show ?thesis by blast
  qed
  moreover have "bytes_of n \<in> set date_names" if "n \<in> set (WEEKDAYS @ MONTHS)" for n
    using that unfolding date_names_def set_map by (rule imageI)
  ultimately have "\<forall>n \<in> set (WEEKDAYS @ MONTHS). table_lit date_names (bytes_of n) \<noteq> 0 \<and>
      (\<forall>c. cstr_at (?m(0x2000 := c)) (table_lit date_names (bytes_of n)) (bytes_of n))"
    by blast
  then show ?thesis using z by (simp add: date_strings_def)
qed

theorem date_prints_witness:
  "\<exists>now cs. compute_datetime 0 = Some now \<and>
    date_main (table_lit date_names) ((table_image date_names)(0x2001 := 77)) 0x2000 0 now = Some (cs, 0) \<and>
    console cs = date_line now \<and> hour_of (twelve_hour (dt_hour now)) = dt_hour now"
proof -
  from date_prints [OF demo_date_strings, of 0] show ?thesis by blast
qed

theorem echo_prints_witness:
  "\<exists>cs. echo_main (table_image [bytes_of ''echo'', bytes_of ''a'', bytes_of ''b'']) [0x1000, 0x1020, 0x1040] = Some cs \<and>
    console cs = bytes_of ''a b'' @ [10] \<and> deeds cs = [U_exit 0]"
proof -
  have "list_all2 (cstr_at (table_image [bytes_of ''echo'', bytes_of ''a'', bytes_of ''b''])) [0x1000, 0x1020, 0x1040]
      [bytes_of ''echo'', bytes_of ''a'', bytes_of ''b'']"
    by (simp add: table_image_def Let_def)
  from echo_prints [OF this] show ?thesis by simp
qed

end
