(* ===== verification/User_Servers.thy ===== *)
theory User_Servers
  imports Shell_Commands Sys_Ipc Prog_Name
begin

text \<open>
  The first process and the servers: \<^verbatim>\<open>servers/init/init.c\<close>, \<^verbatim>\<open>servers/windows/window_server.c\<close>
  and \<^verbatim>\<open>user/test_shell.c\<close>, with \<^verbatim>\<open>user/lib/ipc.c\<close> and \<^verbatim>\<open>user/lib/log.c\<close> between them and the
  kernel. As in \<^verbatim>\<open>User_Stdio\<close> a program is the list of its calls; \<open>lit w\<close> is the address of
  the literal \<open>w\<close>. The last section runs \<open>ipc_recv\<close> on the kernel's own \<open>sys_ipc_recv\<close>.
\<close>

section \<open>\<^verbatim>\<open>log.c\<close> and \<^verbatim>\<open>ipc.c\<close>\<close>

definition ulog :: "mem \<Rightarrow> u8 list \<Rightarrow> u64 list \<Rightarrow> ucall list option" where
  "ulog m fmt args = map_option (\<lambda>buf. [U_log buf]) (kvnprintf m 256 fmt args)"

text \<open>The kernel reads \<open>sz\<close> bytes at \<open>buf\<close> for the message.\<close>

definition ipc_send :: "mem \<Rightarrow> int \<Rightarrow> u64 \<Rightarrow> u64 \<Rightarrow> ucall list" where
  "ipc_send m pid buf sz = [U_ipc_send pid (load_bytes m buf (unat sz))]"

text \<open>
  \<^verbatim>\<open>ipc_recv\<close> over the answers of the kernel, each the result of the call and the memory of
  the process after it. The last log line prints the pointer \<^verbatim>\<open>sender\<close>, not what it points to.
\<close>

primrec ipc_recv :: "u64 \<Rightarrow> u64 \<Rightarrow> (int \<times> mem) list \<Rightarrow> mem \<Rightarrow> (int \<times> mem \<times> (int \<times> mem) list \<times> ucall list) option" where
  "ipc_recv buf sender [] m = None"
| "ipc_recv buf sender (a # answers) m =
     do {
       c1 \<leftarrow> ulog m (bytes_of ''[ipc_recv] start syscall SYS_IPC_RECV'') [];
       let (ret, m') = a;
       c2 \<leftarrow> ulog m' (bytes_of ''[ipc_recv] syscall SYS_IPC_RECV done! ret = %d'') [of_int ret];
       if ret < 0 then do {
         (r, m'', rest, cs) \<leftarrow> ipc_recv buf sender answers m';
         Some (r, m'', rest, c1 @ U_ipc_recv # c2 @ cs)
       }
       else do {
         c3 \<leftarrow> ulog m' (bytes_of ''[ipc_recv] received  msg : %s, sender = %d, len = %d'') [buf, sender, of_int ret];
         Some (ret, m', answers, c1 @ U_ipc_recv # c2 @ c3)
       }
     }"

section \<open>\<^verbatim>\<open>window_server.c\<close>\<close>

definition BUF_SIZE :: nat where
  "BUF_SIZE = 256"

text \<open>What the server does with a message of \<open>sz\<close> bytes; \<^verbatim>\<open>pid_t\<close> is an \<^verbatim>\<open>int\<close>.\<close>

definition window_handle :: "(u8 list \<Rightarrow> u64) \<Rightarrow> u64 \<Rightarrow> u64 \<Rightarrow> int \<Rightarrow> mem \<Rightarrow> (mem \<times> ucall list) option" where
  "window_handle lit buf sender sz m =
     (if \<not> 0 < sz then Some (m, [])
      else do {
        let m = m(buf + of_int sz := 0);
        let pid = scast (load32 m sender);
        c1 \<leftarrow> ulog m (bytes_of ''[window_server] Got message: %s from pid %d'') [buf, pid];
        c2 \<leftarrow> printf m (bytes_of ''[window_server] Got message: %s from pid %d'' @ [10]) [buf, pid];
        if strncmp m buf (lit (bytes_of ''draw'')) 4 = 0 then do {
          c3 \<leftarrow> ulog m (bytes_of ''[window_server] Drawing: %s'') [buf + 5];
          c4 \<leftarrow> printf m (bytes_of ''[window_server] Drawing: %s'' @ [10]) [buf + 5];
          Some (m, c1 @ c2 @ c3 @ c4)
        }
        else do {
          c3 \<leftarrow> ulog m (bytes_of ''[window_server] Unknown command.'') [];
          c4 \<leftarrow> printf m (bytes_of ''[window_server] Unknown command.'' @ [10]) [];
          Some (m, c1 @ c2 @ c3 @ c4)
        }
      })"

text \<open>One round of its loop.\<close>

definition window_round ::
  "(u8 list \<Rightarrow> u64) \<Rightarrow> u64 \<Rightarrow> u64 \<Rightarrow> (int \<times> mem) list \<Rightarrow> mem \<Rightarrow> (mem \<times> (int \<times> mem) list \<times> ucall list) option" where
  "window_round lit buf sender answers m =
     do {
       c1 \<leftarrow> ulog m (bytes_of ''[window_server] Start recieving...'') [];
       let c2 = puts (bytes_of ''[window_server] Start recieving...'' @ [10]);
       (sz, m, answers, c3) \<leftarrow> ipc_recv buf sender answers m;
       c4 \<leftarrow> ulog m (bytes_of ''[window_server] Ready recieving...'') [];
       c5 \<leftarrow> printf m (bytes_of ''[window_server] Ready recieving...'' @ [10]) [];
       (m, c6) \<leftarrow> window_handle lit buf sender sz m;
       Some (m, answers, c1 @ c2 @ c3 @ c4 @ c5 @ c6)
     }"

text \<open>\<^verbatim>\<open>main\<close> for \<open>n\<close> rounds.\<close>

primrec window_rounds ::
  "(u8 list \<Rightarrow> u64) \<Rightarrow> u64 \<Rightarrow> u64 \<Rightarrow> nat \<Rightarrow> (int \<times> mem) list \<Rightarrow> mem \<Rightarrow> (mem \<times> (int \<times> mem) list \<times> ucall list) option" where
  "window_rounds lit buf sender 0 answers m = Some (m, answers, [])"
| "window_rounds lit buf sender (Suc n) answers m =
     do {
       (m, answers, cs) \<leftarrow> window_round lit buf sender answers m;
       (m, answers, cs') \<leftarrow> window_rounds lit buf sender n answers m;
       Some (m, answers, cs @ cs')
     }"

definition window_main ::
  "(u8 list \<Rightarrow> u64) \<Rightarrow> u64 \<Rightarrow> u64 \<Rightarrow> nat \<Rightarrow> (int \<times> mem) list \<Rightarrow> mem \<Rightarrow> ucall list option" where
  "window_main lit buf sender n answers m =
     do {
       c1 \<leftarrow> ulog m (bytes_of ''[window_server] Ready. Waiting for draw commands...'') [];
       (m, answers, cs) \<leftarrow> window_rounds lit buf sender n answers m;
       Some (c1 @ cs)
     }"

section \<open>\<^verbatim>\<open>test_shell.c\<close>\<close>

text \<open>Its calls before the empty loop it ends in; \<open>msg\<close> is the address of the literal.\<close>

definition test_shell_main :: "mem \<Rightarrow> u64 \<Rightarrow> ucall list option" where
  "test_shell_main m msg =
     do {
       c1 \<leftarrow> ulog m (bytes_of ''[shell] started...'') [];
       let c2 = puts (bytes_of ''[shell] started...'' @ [10]);
       c3 \<leftarrow> ulog m (bytes_of ''[shell] sending message: %s @ %p'') [msg, msg];
       c4 \<leftarrow> printf m (bytes_of ''[shell] sending message: %s @ %p'' @ [10]) [msg, msg];
       len \<leftarrow> strlen m msg;
       let c5 = ipc_send m 3 msg len;
       c6 \<leftarrow> ulog m (bytes_of ''Shell: draw commando verstuurd.'') [];
       Some (c1 @ c2 @ c3 @ c4 @ c5 @ c6)
     }"

section \<open>\<^verbatim>\<open>init.c\<close>\<close>

definition PROC_NAME_MAX_LEN :: u64 where
  "PROC_NAME_MAX_LEN = 64"

text \<open>The array \<^verbatim>\<open>servers\<close> of \<^verbatim>\<open>init.h\<close>; \<open>None\<close> for its null entries.\<close>

definition servers :: "u8 list option list" where
  "servers = [Some (bytes_of ''window_server.elf''), Some (bytes_of ''test_shell.elf''), None, None]"

text \<open>
  The start of one server: \<open>log_line\<close> is what the parent says of the child, \<open>fail_line\<close> what
  the child says when \<^verbatim>\<open>exec\<close> returns. \<open>pid\<close> and \<open>exec_ok\<close> are the kernel's answers.
\<close>

definition start_server ::
  "(u8 list \<Rightarrow> u64) \<Rightarrow> (mem \<Rightarrow> u64 list \<Rightarrow> ucall list option) \<Rightarrow> (mem \<Rightarrow> u64 list \<Rightarrow> ucall list option) \<Rightarrow> u64 \<Rightarrow> u8 list \<Rightarrow>
    int \<Rightarrow> bool \<Rightarrow> mem \<Rightarrow> (mem \<times> shell_next \<times> ucall list) option" where
  "start_server lit log_line fail_line namebuf elf pid exec_ok m =
     do {
       m \<leftarrow> strip_elf_extension (lit (bytes_of ''.elf'')) m (lit elf) namebuf PROC_NAME_MAX_LEN;
       if pid = 0 then do {
         name \<leftarrow> read_cstr m namebuf;
         if exec_ok then Some (m, Replaced, [U_fork, U_exec elf [name]])
         else do {
           cs \<leftarrow> fail_line m [lit elf];
           Some (m, Exited 1, [U_fork, U_exec elf [name]] @ cs @ [U_exit 1])
         }
       }
       else do {
         cs \<leftarrow> log_line m [lit elf, of_int pid];
         Some (m, Again, U_fork # cs)
       }
     }"

text \<open>The loop over the array, with the answers for the servers from the \<open>i\<close>-th on.\<close>

primrec start_servers ::
  "(u8 list \<Rightarrow> u64) \<Rightarrow> (mem \<Rightarrow> u64 list \<Rightarrow> ucall list option) \<Rightarrow> (mem \<Rightarrow> u64 list \<Rightarrow> ucall list option) \<Rightarrow> u64 \<Rightarrow>
    (nat \<Rightarrow> int \<times> bool) \<Rightarrow> nat \<Rightarrow> u8 list option list \<Rightarrow> mem \<Rightarrow> (mem \<times> shell_next \<times> ucall list) option" where
  "start_servers lit log_line fail_line namebuf env i [] m = Some (m, Again, [])"
| "start_servers lit log_line fail_line namebuf env i (sv # svs) m =
     (case sv of
        None \<Rightarrow> start_servers lit log_line fail_line namebuf env (Suc i) svs m
      | Some elf \<Rightarrow> do {
          (m, nx, cs) \<leftarrow> start_server lit log_line fail_line namebuf elf (fst (env i)) (snd (env i)) m;
          if nx \<noteq> Again then Some (m, nx, cs)
          else do {
            (m, nx, cs') \<leftarrow> start_servers lit log_line fail_line namebuf env (Suc i) svs m;
            Some (m, nx, cs @ cs')
          }
        })"

definition init_started :: "mem \<Rightarrow> u64 list \<Rightarrow> ucall list option" where
  "init_started m args = ulog m (bytes_of ''started %s as pid %d'') args"

definition init_failed :: "mem \<Rightarrow> u64 list \<Rightarrow> ucall list option" where
  "init_failed m args = ulog m (bytes_of ''[init] exec failed for %s'') args"

definition init_restarted :: "mem \<Rightarrow> u64 list \<Rightarrow> ucall list option" where
  "init_restarted m args = printf m (bytes_of ''[init] restarted %s as pid %d'' @ [10]) args"

text \<open>
  The loop that waits, for the list of \<open>(dead, status)\<close> that \<^verbatim>\<open>wait\<close> answers; \<open>count\<close> is
  \<^verbatim>\<open>restart_count\<close> and \<open>env r\<close> the answers of round \<open>r\<close>. The dash of the message is three bytes.
\<close>

primrec init_loop ::
  "(u8 list \<Rightarrow> u64) \<Rightarrow> u64 \<Rightarrow> (nat \<Rightarrow> nat \<Rightarrow> int \<times> bool) \<Rightarrow> int \<Rightarrow> (int \<times> int) list \<Rightarrow> mem \<Rightarrow>
    (mem \<times> shell_next \<times> ucall list) option" where
  "init_loop lit namebuf2 env count [] m = Some (m, Again, [])"
| "init_loop lit namebuf2 env count (d # ds) m =
     do {
       c1 \<leftarrow> printf m (bytes_of ''[init] process %d exited with code %d '' @ [0xE2, 0x80, 0x94] @
         bytes_of '' RESTARTING %d'' @ [10]) [of_int (fst d), of_int (snd d), of_int (count + 1)];
       (m, nx, c2) \<leftarrow> start_servers lit init_restarted (\<lambda>m args. Some []) namebuf2 (env (nat (count + 1))) 0 servers m;
       if nx \<noteq> Again then Some (m, nx, U_wait # c1 @ c2)
       else do {
         (m, nx, c3) \<leftarrow> init_loop lit namebuf2 env (count + 1) ds m;
         Some (m, nx, U_wait # c1 @ c2 @ c3)
       }
     }"

definition init_main ::
  "(u8 list \<Rightarrow> u64) \<Rightarrow> u64 \<Rightarrow> u64 \<Rightarrow> (nat \<Rightarrow> nat \<Rightarrow> int \<times> bool) \<Rightarrow> (int \<times> int) list \<Rightarrow> mem \<Rightarrow>
    (mem \<times> shell_next \<times> ucall list) option" where
  "init_main lit namebuf1 namebuf2 env deaths m =
     do {
       c1 \<leftarrow> ulog m (bytes_of ''Starting system services...'') [];
       (m, nx, c2) \<leftarrow> start_servers lit init_started init_failed namebuf1 (env 0) 0 servers m;
       if nx \<noteq> Again then Some (m, nx, c1 @ c2)
       else do {
         (m, nx, c3) \<leftarrow> init_loop lit namebuf2 env 0 deaths m;
         Some (m, nx, c1 @ c2 @ c3)
       }
     }"

section \<open>Log lines\<close>

text \<open>A format has a value as soon as there is an argument for each \<^verbatim>\<open>%\<close>.\<close>

lemma kv_spec_defined: "args \<noteq> [] \<Longrightarrow> \<exists>bs rest. kv_spec m room c args = Some (bs, rest) \<and> length args \<le> Suc (length rest)"
  by (cases args) (simp_all add: kv_spec_def)

lemma kv_loop_defined: "count_list fmt 37 \<le> length args \<Longrightarrow> \<exists>full. kv_loop m lim fmt args out = Some full"
proof (induction m lim fmt args out rule: kv_loop.induct)
  case (3 m lim c spec fmt args out)
  show ?case
  proof (cases "length out < lim")
    case False
    then show ?thesis by simp
  next
    case lt: True
    show ?thesis
    proof (cases "c = chr CHR ''%''")
      case True
      then have n: "args \<noteq> []" "count_list fmt 37 \<le> length args - 1"
        using "3.prems" by (auto split: if_splits)
      obtain bs rest where r: "kv_spec m (lim - length out) spec args = Some (bs, rest)" "length args \<le> Suc (length rest)"
        using kv_spec_defined [OF n(1)] by blast
      have "\<exists>full. kv_loop m lim fmt rest (out @ bs) = Some full"
        using "3.IH"(1) [OF _ True r(1) refl] lt n(2) r(2) by simp
      then show ?thesis using lt True r(1) by simp
    next
      case False
      then have "\<exists>full. kv_loop m lim (spec # fmt) args (out @ [c]) = Some full"
        using "3.IH"(2) [OF _ False] lt "3.prems" by simp
      then show ?thesis using lt False by simp
    qed
  qed
qed simp_all

lemma ulog_defined: "count_list fmt 37 \<le> length args \<Longrightarrow> \<exists>b. ulog m fmt args = Some [U_log b]"
  using kv_loop_defined [of fmt args m "unat (256 - 1 :: u64)" "[]"] by (auto simp: ulog_def kvnprintf_def)

lemma prints_d_any:
  assumes "prints m fmt args out"
  shows "\<exists>bs. prints m (37 # 100 # fmt) (v # args) (bs @ out)"
proof -
  have p: "parse_spec (100 # fmt) = (False, 0, 0, 100 # fmt)"
    by (simp add: parse_spec_def printf_flags_def parse_length_def)
  let ?cs = "putpad (scast (ucast v :: u32)) 10 0 False True"
  have "conversion m 100 False 0 0 (v # args) = Some (args, ?cs)" by (simp add: conversion_def)
  from prints_conversion [OF p this refl _ assms] show ?thesis by (auto simp: console_dec(2))
qed

section \<open>Init\<close>

definition forks :: "ucall list \<Rightarrow> nat" where
  "forks cs = count_list cs U_fork"

definition waits :: "ucall list \<Rightarrow> nat" where
  "waits cs = count_list cs U_wait"

lemma forks_deeds: "deeds cs = [] \<Longrightarrow> forks cs = 0 \<and> waits cs = 0"
  by (induction cs) (auto simp: deeds_def forks_def waits_def split: ucall.splits if_splits)

lemma forks_simps [simp]:
  "forks [] = 0" "forks (xs @ ys) = forks xs + forks ys" "forks (U_fork # cs) = Suc (forks cs)"
  "forks (U_wait # cs) = forks cs" "forks (U_log b # cs) = forks cs"
  "waits [] = 0" "waits (xs @ ys) = waits xs + waits ys" "waits (U_fork # cs) = waits cs"
  "waits (U_wait # cs) = Suc (waits cs)" "waits (U_log b # cs) = waits cs"
  by (simp_all add: forks_def waits_def)

definition init_literals :: "u8 list list" where
  "init_literals = map bytes_of [''.elf'', ''window_server.elf'', ''test_shell.elf'']"

definition init_layout :: "(u8 list \<Rightarrow> u64) \<Rightarrow> mem \<Rightarrow> u64 \<Rightarrow> u64 \<Rightarrow> bool" where
  "init_layout lit m nb1 nb2 \<longleftrightarrow>
     nb1 \<noteq> 0 \<and> nb2 \<noteq> 0 \<and> unat nb1 + 64 \<le> 2 ^ 64 \<and> unat nb2 + 64 \<le> 2 ^ 64 \<and>
     (\<forall>w \<in> set init_literals. literal_at lit (buffer nb1 64 \<union> buffer nb2 64) m w \<and>
        unat (lit w) + 64 \<le> 2 ^ 64 \<and> nb1 \<notin> buffer (lit w) 64 \<and> nb2 \<notin> buffer (lit w) 64)"

lemma init_layout_outside:
  assumes "init_layout lit m nb1 nb2" and "\<And>x. x \<notin> buffer nb1 64 \<union> buffer nb2 64 \<Longrightarrow> m' x = m x"
  shows "init_layout lit m' nb1 nb2"
  using assms literal_at_outside [of lit "buffer nb1 64 \<union> buffer nb2 64" m _ m'] by (simp add: init_layout_def)

lemma outside_buffer:
  assumes "unat p + n \<le> 2 ^ 64" and "x \<notin> buffer p n"
  shows "n \<le> unat (x - p)"
proof (rule ccontr)
  assume "\<not> n \<le> unat (x - p)"
  then have "unat (x - p) < n" by simp
  from buffer_index(2) [OF assms(1) this] show False using assms(2) by simp
qed

lemma strip_server:
  assumes lay: "init_layout lit m nb1 nb2" and nb: "nb = nb1 \<or> nb = nb2" and elf: "elf \<in> set init_literals"
  shows "\<exists>m'. strip_elf_extension (lit (bytes_of ''.elf'')) m (lit elf) nb PROC_NAME_MAX_LEN = Some m' \<and>
    (\<forall>x. x \<notin> buffer nb 64 \<longrightarrow> m' x = m x) \<and> m' = poke m nb (strip_name 64 elf)"
proof -
  let ?b = "buffer nb1 64 \<union> buffer nb2 64"
  have l: "literal_at lit ?b m elf" "literal_at lit ?b m (bytes_of ''.elf'')" and nbp: "nb \<noteq> 0" "unat nb + 64 \<le> 2 ^ 64"
    using lay elf nb by (auto simp: init_layout_def init_literals_def simp del: bytes_of_simps)
  have len: "length elf \<le> 17" using elf by (auto simp: init_literals_def)
  have sub: "buffer nb 64 \<subseteq> ?b" using nb by blast
  have safe: "copy_safe nb (lit elf) (unat PROC_NAME_MAX_LEN)"
    using lay elf nb by (intro copy_safe_apart) (auto simp: init_layout_def PROC_NAME_MAX_LEN_def)
  have far: "\<forall>k \<le> 4. unat PROC_NAME_MAX_LEN \<le> unat (lit (bytes_of ''.elf'') + of_nat k - nb)"
  proof (intro allI impI)
    fix k :: nat assume "k \<le> 4"
    have e: "length (bytes_of ''.elf'') = 4" by simp
    have "lit (bytes_of ''.elf'') + of_nat k \<in> buffer (lit (bytes_of ''.elf'')) (Suc (length (bytes_of ''.elf'')))"
      by (rule buffer_index(2)) (use l(2) \<open>k \<le> 4\<close> e in \<open>auto simp: literal_at_def simp del: bytes_of_simps\<close>)
    then have "lit (bytes_of ''.elf'') + of_nat k \<notin> buffer nb 64"
      using l(2) sub unfolding literal_at_def by blast
    then show "unat PROC_NAME_MAX_LEN \<le> unat (lit (bytes_of ''.elf'') + of_nat k - nb)"
      using outside_buffer [OF nbp(2)] by (simp add: PROC_NAME_MAX_LEN_def del: bytes_of_simps)
  qed
  have r: "strip_elf_extension (lit (bytes_of ''.elf'')) m (lit elf) nb PROC_NAME_MAX_LEN =
      Some (poke m nb (strip_name (unat PROC_NAME_MAX_LEN) elf))"
    by (rule strip_elf_mem [OF literal_cstr [OF l(1)] safe _ _ nbp(1) _ literal_cstr [OF l(2)] far])
      (use l(1) nbp in \<open>auto simp: PROC_NAME_MAX_LEN_def literal_at_def\<close>)
  have "length (strip_name 64 elf) = 64"
    using length_buf_copy [of 64 elf] by (simp add: strip_name_def Let_def split: option.split)
  then have "poke m nb (strip_name 64 elf) x = m x" if "x \<notin> buffer nb 64" for x
    using that nbp by (intro poke_outside) simp_all
  then show ?thesis using r by (simp add: PROC_NAME_MAX_LEN_def)
qed

lemma start_server_parent:
  assumes lay: "init_layout lit m nb1 nb2" and nb: "nb = nb1 \<or> nb = nb2" and elf: "elf \<in> set init_literals"
    and pid: "pid \<noteq> 0" and log_line: "\<And>m. cstr_at m (lit elf) elf \<Longrightarrow>
      \<exists>cs. log_line m [lit elf, of_int pid] = Some cs \<and> forks cs = 0 \<and> waits cs = 0"
  shows "\<exists>m' cs. start_server lit log_line fl nb elf pid exec_ok m = Some (m', Again, cs) \<and>
    init_layout lit m' nb1 nb2 \<and> forks cs = 1 \<and> waits cs = 0"
proof -
  obtain m' where m': "strip_elf_extension (lit (bytes_of ''.elf'')) m (lit elf) nb PROC_NAME_MAX_LEN = Some m'"
    "\<forall>x. x \<notin> buffer nb 64 \<longrightarrow> m' x = m x" using strip_server [OF lay nb elf] by blast
  have lay': "init_layout lit m' nb1 nb2"
    by (rule init_layout_outside [OF lay]) (use m'(2) nb in blast)
  then have "cstr_at m' (lit elf) elf" using elf literal_cstr by (auto simp: init_layout_def)
  then obtain cs where "log_line m' [lit elf, of_int pid] = Some cs" "forks cs = 0" "waits cs = 0"
    using log_line by blast
  then show ?thesis using m'(1) pid lay' by (simp add: start_server_def del: bytes_of_simps)
qed

lemma start_servers_parent:
  assumes lay: "init_layout lit m nb1 nb2" and nb: "nb = nb1 \<or> nb = nb2"
    and pid: "\<forall>i. fst (env i) \<noteq> 0" and log_line: "\<And>m elf pid. elf \<in> set init_literals \<Longrightarrow> cstr_at m (lit elf) elf \<Longrightarrow>
      lit elf \<noteq> 0 \<Longrightarrow> \<exists>cs. log_line m [lit elf, of_int pid] = Some cs \<and> forks cs = 0 \<and> waits cs = 0"
  shows "\<exists>m' cs. start_servers lit log_line fl nb env 0 servers m = Some (m', Again, cs) \<and>
    init_layout lit m' nb1 nb2 \<and> forks cs = 2 \<and> waits cs = 0"
proof -
  let ?w = "bytes_of ''window_server.elf''" and ?t = "bytes_of ''test_shell.elf''"
  have mem: "?w \<in> set init_literals" "?t \<in> set init_literals" by (simp_all add: init_literals_def del: bytes_of_simps)
  have nz: "lit ?w \<noteq> 0" "lit ?t \<noteq> 0" using lay mem unfolding init_layout_def literal_at_def by blast+
  obtain m1 c1 where s1: "start_server lit log_line fl nb ?w (fst (env 0)) (snd (env 0)) m = Some (m1, Again, c1)"
    "init_layout lit m1 nb1 nb2" "forks c1 = 1" "waits c1 = 0"
    using start_server_parent [where log_line = log_line and fl = fl and pid = "fst (env 0)" and exec_ok = "snd (env 0)",
      OF lay nb mem(1) pid [rule_format] log_line [OF mem(1) _ nz(1)]] by blast
  obtain m2 c2 where s2: "start_server lit log_line fl nb ?t (fst (env (Suc 0))) (snd (env (Suc 0))) m1 = Some (m2, Again, c2)"
    "init_layout lit m2 nb1 nb2" "forks c2 = 1" "waits c2 = 0"
    using start_server_parent [where log_line = log_line and fl = fl and pid = "fst (env (Suc 0))" and
      exec_ok = "snd (env (Suc 0))", OF s1(2) nb mem(2) pid [rule_format] log_line [OF mem(2) _ nz(2)]] by blast
  have "start_servers lit log_line fl nb env 0 servers m = Some (m2, Again, c1 @ c2)"
    using s1(1) s2(1) by (simp add: servers_def del: bytes_of_simps)
  then show ?thesis using s1 s2 by simp
qed





lemma init_started_line: "\<exists>cs. init_started m [p, v] = Some cs \<and> forks cs = 0 \<and> waits cs = 0"
proof -
  have "count_list (bytes_of ''started %s as pid %d'') 37 \<le> length [p, v]" by simp
  from ulog_defined [OF this, of m] show ?thesis by (auto simp: init_started_def)
qed

lemma init_restarted_line:
  assumes "cstr_at m p w" and "p \<noteq> 0"
  shows "\<exists>cs. init_restarted m [p, v] = Some cs \<and> forks cs = 0 \<and> waits cs = 0"
proof -
  have sep: "(37 :: u8) \<notin> set (bytes_of '' as pid '')" "(37 :: u8) \<notin> set (bytes_of ''[init] restarted '')" by simp_all
  have nl: "prints m [10] [] [10]" using prints_plain [of "[10]" m "[]" "[]" "[]"] prints_nil by simp
  obtain bs where t: "prints m (37 # 100 # [10]) [v] (bs @ [10])" using prints_d_any [OF nl] by blast
  note t = prints_plain [OF sep(2) prints_string [OF assms prints_plain [OF sep(1) t]]]
  then show ?thesis using forks_deeds by (auto simp: init_restarted_def prints_def)
qed

lemma init_died_line:
  "\<exists>cs. printf m (bytes_of ''[init] process %d exited with code %d '' @ [0xE2, 0x80, 0x94] @ bytes_of '' RESTARTING %d'' @ [10])
    [a, b, c] = Some cs \<and> forks cs = 0 \<and> waits cs = 0"
proof -
  let ?dash = "bytes_of '' '' @ [0xE2, 0x80, 0x94] @ bytes_of '' RESTARTING ''"
  have sep: "(37 :: u8) \<notin> set ?dash" "(37 :: u8) \<notin> set (bytes_of '' exited with code '')"
    "(37 :: u8) \<notin> set (bytes_of ''[init] process '')" by simp_all
  have nl: "prints m [10] [] [10]" using prints_plain [of "[10]" m "[]" "[]" "[]"] prints_nil by simp
  obtain b1 where t: "prints m (37 # 100 # [10]) [c] b1" using prints_d_any [OF nl] by blast
  obtain b2 where t: "prints m (37 # 100 # ?dash @ 37 # 100 # [10]) [b, c] b2"
    using prints_d_any [OF prints_plain [OF sep(1) t]] by blast
  obtain b3 where t: "prints m (37 # 100 # bytes_of '' exited with code '' @ 37 # 100 # ?dash @ 37 # 100 # [10]) [a, b, c] b3"
    using prints_d_any [OF prints_plain [OF sep(2) t]] by blast
  have f: "bytes_of ''[init] process %d exited with code %d '' @ [0xE2, 0x80, 0x94] @ bytes_of '' RESTARTING %d'' @ [10] =
      bytes_of ''[init] process '' @ 37 # 100 # bytes_of '' exited with code '' @ 37 # 100 # ?dash @ 37 # 100 # [10]" by simp
  from prints_plain [OF sep(3) t] obtain cs where "printf m (bytes_of ''[init] process '' @ 37 # 100 #
      bytes_of '' exited with code '' @ 37 # 100 # ?dash @ 37 # 100 # [10]) [a, b, c] = Some cs" "deeds cs = []"
    unfolding prints_def by blast
  then show ?thesis unfolding f using forks_deeds by blast
qed

lemma init_loop_parent:
  assumes "init_layout lit m nb1 nb2" and "\<forall>r i. fst (env r i) \<noteq> 0"
  shows "\<exists>m' cs. init_loop lit nb2 env count deaths m = Some (m', Again, cs) \<and>
    forks cs = 2 * length deaths \<and> waits cs = length deaths"
  using assms(1)
proof (induction deaths arbitrary: m count)
  case (Cons d ds)
  obtain c1 where c1: "printf m (bytes_of ''[init] process %d exited with code %d '' @ [0xE2, 0x80, 0x94] @
      bytes_of '' RESTARTING %d'' @ [10]) [of_int (fst d), of_int (snd d), of_int (count + 1)] = Some c1"
    "forks c1 = 0" "waits c1 = 0" using init_died_line by blast
  have l: "\<exists>cs. init_restarted m [lit elf, of_int pid] = Some cs \<and> forks cs = 0 \<and> waits cs = 0"
    if "elf \<in> set init_literals" "cstr_at m (lit elf) elf" "lit elf \<noteq> 0" for m elf pid
    using that(2,3) by (rule init_restarted_line)
  have p: "\<forall>i. fst (env (nat (count + 1)) i) \<noteq> 0" using assms(2) by blast
  obtain m' c2 where c2: "start_servers lit init_restarted (\<lambda>m args. Some []) nb2 (env (nat (count + 1))) 0 servers m =
      Some (m', Again, c2)" "init_layout lit m' nb1 nb2" "forks c2 = 2" "waits c2 = 0"
    using start_servers_parent [where log_line = init_restarted and fl = "\<lambda>m args. Some []" and env = "env (nat (count + 1))",
      OF Cons.prems disjI2 [OF refl] p l] by blast
  obtain m'' c3 where c3: "init_loop lit nb2 env (count + 1) ds m' = Some (m'', Again, c3)"
    "forks c3 = 2 * length ds" "waits c3 = length ds" using Cons.IH [OF c2(2)] by blast
  have "init_loop lit nb2 env count (d # ds) m = Some (m'', Again, U_wait # c1 @ c2 @ c3)"
    using c1(1) c2(1) c3(1) by (simp del: bytes_of_simps)
  then show ?case using c1 c2 c3 by simp
qed simp

section \<open>The window server\<close>

lemma console_log [simp]: "console (U_log b # cs) = console cs" "console (U_ipc_recv # cs) = console cs"
  by (simp_all add: console_def)

lemma ulog_silent: "count_list fmt 37 \<le> length args \<Longrightarrow> \<exists>cs. ulog m fmt args = Some cs \<and> console cs = []"
  using ulog_defined [of fmt args m] by auto

lemma strncmp_prefix:
  "cstr_at m p bs \<Longrightarrow> cstr_at m q w \<Longrightarrow> strncmp_loop m p q (length w) = 0 \<longleftrightarrow> take (length w) bs = w"
proof (induction w arbitrary: p q bs)
  case (Cons c w)
  show ?case
  proof (cases bs)
    case Nil
    then show ?thesis using Cons.prems by (auto simp: uint_0_iff)
  next
    case (Cons b bs')
    then show ?thesis using Cons.IH [of "p + 1" bs' "q + 1"] Cons.prems
      by (auto simp: word_uint_eq_iff)
  qed
qed simp

lemma ipc_recv_retries:
  assumes "0 \<le> ret"
  shows "\<exists>cs. ipc_recv buf sender (map (Pair (- 1)) ms @ (ret, m1) # rest) m = Some (ret, m1, rest, cs) \<and> console cs = []"
proof (induction ms arbitrary: m)
  case Nil
  obtain c1 where c1: "ulog m (bytes_of ''[ipc_recv] start syscall SYS_IPC_RECV'') [] = Some c1" "console c1 = []"
    using ulog_silent [of "bytes_of ''[ipc_recv] start syscall SYS_IPC_RECV''" "[]" m] by auto
  obtain c2 where c2: "ulog m1 (bytes_of ''[ipc_recv] syscall SYS_IPC_RECV done! ret = %d'') [of_int ret] = Some c2" "console c2 = []"
    using ulog_silent [of "bytes_of ''[ipc_recv] syscall SYS_IPC_RECV done! ret = %d''" "[of_int ret]" m1] by auto
  obtain c3 where c3: "ulog m1 (bytes_of ''[ipc_recv] received  msg : %s, sender = %d, len = %d'') [buf, sender, of_int ret] = Some c3" "console c3 = []"
    using ulog_silent [of "bytes_of ''[ipc_recv] received  msg : %s, sender = %d, len = %d''" "[buf, sender, of_int ret]" m1] by auto
  show ?case using c1 c2 c3 assms by (simp del: bytes_of_simps)
next
  case (Cons m' ms)
  obtain c1 where c1: "ulog m (bytes_of ''[ipc_recv] start syscall SYS_IPC_RECV'') [] = Some c1" "console c1 = []"
    using ulog_silent [of "bytes_of ''[ipc_recv] start syscall SYS_IPC_RECV''" "[]" m] by auto
  obtain c2 where c2: "ulog m' (bytes_of ''[ipc_recv] syscall SYS_IPC_RECV done! ret = %d'') [of_int (- 1)] = Some c2" "console c2 = []"
    using ulog_silent [of "bytes_of ''[ipc_recv] syscall SYS_IPC_RECV done! ret = %d''" "[of_int (- 1)]" m'] by auto
  obtain cs where cs: "ipc_recv buf sender (map (Pair (- 1)) ms @ (ret, m1) # rest) m' = Some (ret, m1, rest, cs)" "console cs = []"
    using Cons.IH by blast
  show ?case using c1 c2 cs by (simp del: bytes_of_simps)
qed

text \<open>A message \<open>bs\<close> in the buffer, from the process \<open>pid\<close>.\<close>

definition message_at :: "(u8 list \<Rightarrow> u64) \<Rightarrow> u64 \<Rightarrow> u64 \<Rightarrow> mem \<Rightarrow> u8 list \<Rightarrow> int \<Rightarrow> bool" where
  "message_at lit buf sender m bs pid \<longleftrightarrow>
     buf \<noteq> 0 \<and> unat buf + 257 \<le> 2 ^ 64 \<and> 0 < length bs \<and> length bs \<le> BUF_SIZE \<and> 0 \<notin> set bs \<and> line_holds m buf bs \<and>
     cstr_at (m(buf + of_nat (length bs) := 0)) (lit (bytes_of ''draw'')) (bytes_of ''draw'') \<and>
     load32 (m(buf + of_nat (length bs) := 0)) sender = of_int pid \<and> 0 \<le> pid \<and> pid < 2 ^ 31"

definition window_text :: "u8 list \<Rightarrow> int \<Rightarrow> u8 list" where
  "window_text bs pid =
     bytes_of ''[window_server] Got message: '' @ bs @ bytes_of '' from pid '' @ dec (of_int pid) @ [10] @
     (if take 4 bs = bytes_of ''draw'' then bytes_of ''[window_server] Drawing: '' @ drop 5 bs @ [10]
      else bytes_of ''[window_server] Unknown command.'' @ [10])"

lemma window_handle_text:
  assumes msg: "message_at lit buf sender m bs pid" and nd: "bs \<noteq> bytes_of ''draw''"
  shows "\<exists>cs. window_handle lit buf sender (int (length bs)) m = Some (m(buf + of_nat (length bs) := 0), cs) \<and>
    console cs = window_text bs pid"
proof -
  let ?m = "m(buf + of_nat (length bs) := 0)" and ?d = "bytes_of ''draw''"
  have b: "buf \<noteq> 0" "unat buf + 257 \<le> 2 ^ 64" "0 < length bs" "length bs \<le> 256" "0 \<notin> set bs" "line_holds m buf bs"
    "cstr_at ?m (lit ?d) ?d" "load32 ?m sender = of_int pid" "0 \<le> pid" "pid < 2 ^ 31"
    using msg by (simp_all add: message_at_def BUF_SIZE_def del: bytes_of_simps)
  have s: "cstr_at ?m buf bs"
    unfolding cstr_at_iff
  proof (intro conjI allI impI)
    fix i assume i: "i < length bs"
    have "unat (buf + of_nat i) = unat buf + i" "unat (buf + of_nat (length bs)) = unat buf + length bs"
      using buffer_index(1) [OF b(2)] i b(4) by simp_all
    then have "buf + of_nat i \<noteq> buf + of_nat (length bs)" using i by (metis add_left_cancel nat_neq_iff)
    then show "?m (buf + of_nat i) = bs ! i" using b(6) i by (simp add: line_holds_def)
    show "bs ! i \<noteq> 0" using b(5) i nth_mem by metis
  qed simp
  have pid: "(scast (load32 ?m sender) :: u64) = of_int pid"
    using b(8-10) by (simp add: signed_of_int signed_take_bit_int_eq_self)
  have sep: "(37 :: u8) \<notin> set (bytes_of '' from pid '')" "(37 :: u8) \<notin> set (bytes_of ''[window_server] Got message: '')"
    "(37 :: u8) \<notin> set (bytes_of ''[window_server] Drawing: '')" "(37 :: u8) \<notin> set (bytes_of ''[window_server] Unknown command.'' @ [10])"
    by simp_all
  have nl: "prints ?m [10] [] [10]" using prints_plain [of "[10]" ?m "[]" "[]" "[]"] prints_nil by simp
  have f: "bytes_of ''[window_server] Got message: %s from pid %d'' @ [10] =
      bytes_of ''[window_server] Got message: '' @ 37 # 115 # bytes_of '' from pid '' @ 37 # 100 # [10]"
    "bytes_of ''[window_server] Drawing: %s'' @ [10] = bytes_of ''[window_server] Drawing: '' @ 37 # 115 # [10]" by simp_all
  obtain c1 where c1: "ulog ?m (bytes_of ''[window_server] Got message: %s from pid %d'') [buf, of_int pid] = Some c1" "console c1 = []"
    using ulog_silent [of "bytes_of ''[window_server] Got message: %s from pid %d''" "[buf, of_int pid]" ?m] by auto
  obtain c2 where c2: "printf ?m (bytes_of ''[window_server] Got message: %s from pid %d'' @ [10]) [buf, of_int pid] = Some c2"
    "console c2 = bytes_of ''[window_server] Got message: '' @ bs @ bytes_of '' from pid '' @ dec (of_int pid) @ [10]"
    using prints_plain [OF sep(2) prints_string [OF s b(1) prints_plain [OF sep(1) prints_d [OF b(9,10) nl]]]]
    unfolding f prints_def by blast
  have cmp: "strncmp ?m buf (lit ?d) 4 = 0 \<longleftrightarrow> take 4 bs = ?d"
  proof -
    have "length ?d = 4" by simp
    then show ?thesis using strncmp_prefix [OF s b(7)] by (simp add: strncmp_def del: bytes_of_simps)
  qed
  have handle: "window_handle lit buf sender (int (length bs)) m =
      do {
        c1 \<leftarrow> ulog ?m (bytes_of ''[window_server] Got message: %s from pid %d'') [buf, of_int pid];
        c2 \<leftarrow> printf ?m (bytes_of ''[window_server] Got message: %s from pid %d'' @ [10]) [buf, of_int pid];
        if strncmp ?m buf (lit ?d) 4 = 0 then do {
          c3 \<leftarrow> ulog ?m (bytes_of ''[window_server] Drawing: %s'') [buf + 5];
          c4 \<leftarrow> printf ?m (bytes_of ''[window_server] Drawing: %s'' @ [10]) [buf + 5];
          Some (?m, c1 @ c2 @ c3 @ c4)
        }
        else do {
          c3 \<leftarrow> ulog ?m (bytes_of ''[window_server] Unknown command.'') [];
          c4 \<leftarrow> printf ?m (bytes_of ''[window_server] Unknown command.'' @ [10]) [];
          Some (?m, c1 @ c2 @ c3 @ c4)
        }
      }"
    using b(3) unfolding window_handle_def Let_def of_int_of_nat_eq pid by (simp del: bytes_of_simps)
  show ?thesis
  proof (cases "take 4 bs = ?d")
    case True
    have "4 < length bs"
    proof (rule ccontr)
      assume "\<not> 4 < length bs"
      then have "take 4 bs = bs" by simp
      with True nd show False by simp
    qed
    then have "cstr_at ?m buf (take 5 bs @ drop 5 bs)" "length (take 5 bs) = 5" using s by simp_all
    then have d5: "cstr_at ?m (buf + 5) (drop 5 bs)" unfolding cstr_at_append by simp
    have "unat (buf + 5) = unat buf + 5" using buffer_index(1) [OF b(2), of 5] by simp
    then have z: "buf + 5 \<noteq> 0" by (metis add_is_0 unsigned_0 zero_neq_numeral)
    obtain c3 where c3: "ulog ?m (bytes_of ''[window_server] Drawing: %s'') [buf + 5] = Some c3" "console c3 = []"
      using ulog_silent [of "bytes_of ''[window_server] Drawing: %s''" "[buf + 5]" ?m] by auto
    obtain c4 where c4: "printf ?m (bytes_of ''[window_server] Drawing: %s'' @ [10]) [buf + 5] = Some c4"
      "console c4 = bytes_of ''[window_server] Drawing: '' @ drop 5 bs @ [10]"
      using prints_plain [OF sep(3) prints_string [OF d5 z nl]] unfolding f prints_def by blast
    show ?thesis
      unfolding handle c1(1) c2(1) cmp using True c1(2) c2(2) c3 c4
      by (simp add: window_text_def del: bytes_of_simps)
  next
    case False
    obtain c3 where c3: "ulog ?m (bytes_of ''[window_server] Unknown command.'') [] = Some c3" "console c3 = []"
      using ulog_silent [of "bytes_of ''[window_server] Unknown command.''" "[]" ?m] by auto
    obtain c4 where c4: "printf ?m (bytes_of ''[window_server] Unknown command.'' @ [10]) [] = Some c4"
      "console c4 = bytes_of ''[window_server] Unknown command.'' @ [10]"
      using prints_plain [OF sep(4) prints_nil, of ?m "[]"] unfolding prints_def by auto
    show ?thesis
      unfolding handle c1(1) c2(1) cmp using False c1(2) c2(2) c3 c4
      by (simp add: window_text_def del: bytes_of_simps)
  qed
qed

section \<open>Properties\<close>

text \<open>
  C26: \<^verbatim>\<open>init\<close> restarts too much. Whatever pids the kernel hands out, with its two name
  buffers and its literals apart it starts two servers and then answers the end of any one
  process by starting both again, the one that still runs as well: after \<open>k\<close> exits it has
  forked \<open>2 * (k + 1)\<close> times and reaped \<open>k\<close>, so \<open>k + 2\<close> of its children are alive.
\<close>

theorem init_restarts_all:
  assumes "init_layout lit m namebuf1 namebuf2" and "\<forall>r i. fst (env r i) \<noteq> 0"
  shows "\<exists>m' cs. init_main lit namebuf1 namebuf2 env deaths m = Some (m', Again, cs) \<and>
    forks cs = 2 * (length deaths + 1) \<and> waits cs = length deaths \<and> forks cs - waits cs = length deaths + 2"
proof -
  have "count_list (bytes_of ''Starting system services...'') 37 \<le> length ([] :: u64 list)" by simp
  from ulog_defined [OF this, of m] obtain b where b: "ulog m (bytes_of ''Starting system services...'') [] = Some [U_log b]"
    by blast
  obtain m1 c1 where c1: "start_servers lit init_started init_failed namebuf1 (env 0) 0 servers m = Some (m1, Again, c1)"
    "init_layout lit m1 namebuf1 namebuf2" "forks c1 = 2" "waits c1 = 0"
    using start_servers_parent [where log_line = init_started and fl = init_failed and env = "env 0",
      OF assms(1) _ _ init_started_line] assms(2) by blast
  obtain m2 c2 where c2: "init_loop lit namebuf2 env 0 deaths m1 = Some (m2, Again, c2)"
    "forks c2 = 2 * length deaths" "waits c2 = length deaths" using init_loop_parent [OF c1(2) assms(2)] by blast
  have "init_main lit namebuf1 namebuf2 env deaths m = Some (m2, Again, [U_log b] @ c1 @ c2)"
    using b c1(1) c2(1) by (simp add: init_main_def del: bytes_of_simps)
  then show ?thesis using c1 c2 by simp
qed


text \<open>
  The window server answers a message. However many reads come back empty first, it
  takes the message of 1 to 256 bytes that arrives, ends it with a NUL, and prints the
  message with the pid of its sender and then what it is told to draw, the text from the
  sixth byte on, when the message begins with \<^verbatim>\<open>draw\<close> and is longer than that, and otherwise that
  the command is unknown. The NUL goes behind the message: for one of 256 bytes that is the
  byte after the array.
\<close>

theorem window_server_shows:
  assumes "message_at lit buf sender m1 bs pid" and "bs \<noteq> bytes_of ''draw''"
  shows "\<exists>cs. window_round lit buf sender (map (Pair (- 1)) ms @ (int (length bs), m1) # rest) m =
      Some (m1(buf + of_nat (length bs) := 0), rest, cs) \<and>
    console cs = bytes_of ''[window_server] Start recieving...'' @ [10] @
      bytes_of ''[window_server] Ready recieving...'' @ [10] @ window_text bs pid \<and>
    (length bs = BUF_SIZE \<longrightarrow> buf + of_nat (length bs) \<notin> buffer buf BUF_SIZE)"
proof -
  obtain c1 where c1: "ulog m (bytes_of ''[window_server] Start recieving...'') [] = Some c1" "console c1 = []"
    using ulog_silent [of "bytes_of ''[window_server] Start recieving...''" "[]" m] by auto
  have "0 \<le> int (length bs)" by simp
  from ipc_recv_retries [OF this, of buf sender ms m1 rest m] obtain c3
    where c3: "ipc_recv buf sender (map (Pair (- 1)) ms @ (int (length bs), m1) # rest) m = Some (int (length bs), m1, rest, c3)"
    "console c3 = []" by blast
  obtain c4 where c4: "ulog m1 (bytes_of ''[window_server] Ready recieving...'') [] = Some c4" "console c4 = []"
    using ulog_silent [of "bytes_of ''[window_server] Ready recieving...''" "[]" m1] by auto
  have "(37 :: u8) \<notin> set (bytes_of ''[window_server] Ready recieving...'' @ [10])" by simp
  from prints_plain [OF this prints_nil, of m1 "[]"] obtain c5
    where c5: "printf m1 (bytes_of ''[window_server] Ready recieving...'' @ [10]) [] = Some c5"
    "console c5 = bytes_of ''[window_server] Ready recieving...'' @ [10]" unfolding prints_def by auto
  obtain c6 where c6: "window_handle lit buf sender (int (length bs)) m1 = Some (m1(buf + of_nat (length bs) := 0), c6)"
    "console c6 = window_text bs pid" using window_handle_text [OF assms] by blast
  have "buf + of_nat (length bs) \<notin> buffer buf BUF_SIZE" if "length bs = BUF_SIZE"
    using buffer_index(1) [of buf 257 256] assms(1) that by (simp add: message_at_def buffer_def BUF_SIZE_def)
  then show ?thesis
    unfolding window_round_def c1(1) c3(1) using c1(2) c3(2) c4 c5 c6
    by (simp del: bytes_of_simps)
qed

text \<open>
  The loop of \<^verbatim>\<open>ipc_recv\<close> on the kernel's own \<^verbatim>\<open>sys_ipc_recv\<close>, for at most \<open>n\<close> calls; what the
  rest of the system does between two of them is \<open>others\<close>. The result \<open>None\<close> means that the loop is
  still going.
\<close>

primrec recv_loop :: "nat \<Rightarrow> u64 \<Rightarrow> u64 \<Rightarrow> u64 \<Rightarrow> (nat \<Rightarrow> kstate \<Rightarrow> kstate) \<Rightarrow> kstate \<Rightarrow> (int option, kstate) kres" where
  "recv_loop 0 buf max_size sender others s = kret None s"
| "recv_loop (Suc n) buf max_size sender others s =
     kbind (sys_ipc_recv buf max_size sender s) (\<lambda>ret s.
       if ret < 0 then recv_loop n buf max_size sender others (others n s) else kret (Some ret) s)"

lemma recv_loop_empty:
  assumes "\<And>n t. current_proc t = Some j \<and> \<not> im_pending (p_inbox (procs t ! j)) \<Longrightarrow>
    current_proc (others n t) = Some j \<and> \<not> im_pending (p_inbox (procs (others n t) ! j))"
  shows "current_proc s = Some j \<Longrightarrow> \<not> im_pending (p_inbox (procs s ! j)) \<Longrightarrow>
    \<exists>s'. recv_loop n buf max_size sender others s = kret None s'"
proof (induction n arbitrary: s)
  case (Suc n)
  then show ?case using assms [of s n] by (simp add: sys_ipc_recv_def Let_def)
qed simp

text \<open>
  C24: \<^verbatim>\<open>ipc_recv\<close> returns at the first call for a message waiting in the inbox, with its length,
  unless that is 1: the kernel takes the message of one byte out of the inbox and reports
  \<open>-1\<close>, so the loop asks again, and as long as nobody sends another message it never returns,
  however often it asks.
\<close>

theorem ipc_recv_loses_byte:
  assumes "current_proc s = Some j" and "j < length (procs s)"
    and "p_inbox (procs s ! j) = \<lparr>im_data = bs, im_size = sz, im_sender = from, im_pending = True\<rparr>"
    and "k = min (unat sz) (unat max_size)" and "k \<le> length bs" and "k \<le> 256"
    and "user_buffer Store (enable_sum s) buf k g"
    and "\<And>n t. current_proc t = Some j \<and> \<not> im_pending (p_inbox (procs t ! j)) \<Longrightarrow>
      current_proc (others n t) = Some j \<and> \<not> im_pending (p_inbox (procs (others n t) ! j))"
  shows "\<exists>s'. recv_loop (Suc n) buf max_size 0 others s = kret (if k = 1 then None else Some (int k)) s'"
proof -
  obtain t where t: "sys_ipc_recv buf max_size 0 s = kret (if k = 1 then - 1 else int k) t"
    "current_proc t = Some j"
    "procs t = (procs s)[j := (procs s ! j)\<lparr>p_inbox := \<lparr>im_data = bs, im_size = sz, im_sender = from, im_pending = False\<rparr>\<rparr>]"
    using sys_ipc_recv_takes [OF assms(1-7)] by blast
  show ?thesis
  proof (cases "k = 1")
    case True
    have "\<not> im_pending (p_inbox (procs t ! j))" using t(3) assms(2) by simp
    then show ?thesis
      using t(1,2) True recv_loop_empty [of j others "others n t" n, OF assms(8)] assms(8) [of t n] by simp
  next
    case False
    then show ?thesis using t(1) by simp
  qed
qed


section \<open>Witnesses\<close>

lemma init_literals_facts:
  "length init_literals = 3" "distinct init_literals" "\<forall>w \<in> set init_literals. length w < 32 \<and> 0 \<notin> set w"
  by (simp_all add: init_literals_def)

lemma slot_apart:
  assumes "unat a = 4096 + 32 * k" and "k < 3" and "n < 32"
  shows "buffer a (Suc n) \<inter> (buffer 0x2000 64 \<union> buffer 0x2100 64) = {}" and "a \<noteq> 0"
    and "unat a + n < 2 ^ 64" and "unat a + 64 \<le> 2 ^ 64" and "0x2000 \<notin> buffer a 64" and "0x2100 \<notin> buffer a 64"
proof -
  show "a \<noteq> 0" using assms(1) by (metis add_is_0 unsigned_0 zero_neq_numeral)
qed (use assms in \<open>auto simp: buffer_def\<close>)

lemma demo_init_layout:
  "init_layout (table_lit init_literals) (table_image init_literals) 0x2000 0x2100"
  unfolding init_layout_def
proof (intro conjI ballI)
  fix w assume w: "w \<in> set init_literals"
  obtain k where k: "k < 3" "w = init_literals ! k"
    using w unfolding in_set_conv_nth init_literals_facts(1) by blast
  have t: "cstr_at (table_image init_literals) (table_lit init_literals w) w" "unat (table_lit init_literals w) = 4096 + 32 * k"
    using table_image_cstr [OF init_literals_facts(2,3), of k] k init_literals_facts(1) by auto
  have "length w < 32" using init_literals_facts(3) w by blast
  note a = slot_apart [OF t(2) k(1) this]
  show "literal_at (table_lit init_literals) (buffer 0x2000 64 \<union> buffer 0x2100 64) (table_image init_literals) w"
    unfolding literal_at_def by (intro conjI t(1) a)
  show "unat (table_lit init_literals w) + 64 \<le> 2 ^ 64" "0x2000 \<notin> buffer (table_lit init_literals w) 64"
    "0x2100 \<notin> buffer (table_lit init_literals w) 64" by (rule a)+
qed simp_all

theorem init_restarts_all_witness:
  "\<exists>m' cs. init_main (table_lit init_literals) 0x2000 0x2100 (\<lambda>r i. (3, True)) [(2, 0)] (table_image init_literals) =
      Some (m', Again, cs) \<and> forks cs = 4 \<and> waits cs = 1"
proof -
  have "\<forall>r i. fst ((\<lambda>r i. (3, True)) r i :: int \<times> bool) \<noteq> 0" by simp
  from init_restarts_all [OF demo_init_layout this, of "[(2, 0)]"] show ?thesis by auto
qed

definition window_demo :: mem where
  "window_demo = (poke (table_image [bytes_of ''draw'']) 0x2000 (bytes_of ''draw hi''))(0x3000 := 2)"

theorem window_server_shows_witness:
  "\<exists>cs. window_round (table_lit [bytes_of ''draw'']) 0x2000 0x3000 [(- 1, \<lambda>_. 0), (7, window_demo)] (\<lambda>_. 0) =
      Some (window_demo(0x2007 := 0), [], cs) \<and>
    console cs = bytes_of ''[window_server] Start recieving...'' @ [10] @ bytes_of ''[window_server] Ready recieving...'' @ [10] @
      bytes_of ''[window_server] Got message: draw hi from pid '' @ dec 2 @ [10] @
      bytes_of ''[window_server] Drawing: hi'' @ [10]"
proof -
  have "message_at (table_lit [bytes_of ''draw'']) 0x2000 0x3000 window_demo (bytes_of ''draw hi'') 2"
    unfolding message_at_def
  proof (intro conjI)
    have len: "length (bytes_of ''draw hi'') = 7" by simp
    show "line_holds window_demo 0x2000 (bytes_of ''draw hi'')"
      unfolding line_holds_def len
    proof (intro allI impI)
      fix i :: nat assume i: "i < 7"
      have "unat (0x2000 + of_nat i :: u64) = 0x2000 + i" using i buffer_index(1) [of "0x2000" 7 i] by simp
      then have "0x2000 + of_nat i \<noteq> (0x3000 :: u64)" using i by auto
      then have "window_demo (0x2000 + of_nat i) =
          poke (table_image [bytes_of ''draw'']) 0x2000 (bytes_of ''draw hi'') (0x2000 + of_nat i)"
        by (simp add: window_demo_def del: bytes_of_simps)
      then show "window_demo (0x2000 + of_nat i) = bytes_of ''draw hi'' ! i"
        using poke_at [of i "bytes_of ''draw hi''"] i unfolding len by simp
    qed
    show "cstr_at (window_demo(0x2000 + of_nat (length (bytes_of ''draw hi'')) := 0))
        (table_lit [bytes_of ''draw''] (bytes_of ''draw'')) (bytes_of ''draw'')"
      by (simp add: window_demo_def poke_def table_image_def table_lit_def Let_def)
    show "load32 (window_demo(0x2000 + of_nat (length (bytes_of ''draw hi'')) := 0)) 0x3000 = of_int 2"
      by (simp add: window_demo_def poke_def table_image_def load32_def load16_def Let_def)
  qed (simp_all add: BUF_SIZE_def)
  moreover have "bytes_of ''draw hi'' \<noteq> bytes_of ''draw''" by simp
  ultimately obtain cs where
    "window_round (table_lit [bytes_of ''draw'']) 0x2000 0x3000
      (map (Pair (- 1)) [\<lambda>_. 0] @ (int (length (bytes_of ''draw hi'')), window_demo) # []) (\<lambda>_. 0) =
      Some (window_demo(0x2000 + of_nat (length (bytes_of ''draw hi'')) := 0), [], cs)"
    "console cs = bytes_of ''[window_server] Start recieving...'' @ [10] @
      bytes_of ''[window_server] Ready recieving...'' @ [10] @ window_text (bytes_of ''draw hi'') 2"
    using window_server_shows [where ms = "[\<lambda>_. 0]" and rest = "[]" and m = "\<lambda>_. 0", of "table_lit [bytes_of ''draw'']" "0x2000"
      "0x3000" window_demo "bytes_of ''draw hi''" 2] by blast
  then show ?thesis by (intro exI [of _ cs]) (simp add: window_text_def)
qed

theorem ipc_recv_loses_byte_witness:
  "\<exists>s'. recv_loop (Suc 5) 0x1000 256 0 (\<lambda>n t. t) (two_procs\<lparr>procs := [zero_proc\<lparr>p_inbox :=
      \<lparr>im_data = [7], im_size = 1, im_sender = 2, im_pending = True\<rparr>\<rparr>]\<rparr>) = kret None s'"
proof -
  let ?s = "two_procs\<lparr>procs := [zero_proc\<lparr>p_inbox := \<lparr>im_data = [7], im_size = 1, im_sender = 2, im_pending = True\<rparr>\<rparr>]\<rparr>"
  have "current_proc ?s = Some 0" "0 < length (procs ?s)"
    "p_inbox (procs ?s ! 0) = \<lparr>im_data = [7], im_size = 1, im_sender = 2, im_pending = True\<rparr>"
    "1 = min (unat (1 :: u64)) (unat (256 :: u64))" "1 \<le> length [7 :: u8]" "1 \<le> (256 :: nat)"
    by (simp_all add: two_procs_def)
  moreover have "user_buffer Store (enable_sum ?s) 0x1000 1 (\<lambda>i. 0x1000 + of_nat i)"
    by (rule bare_buffer) (simp_all add: enable_sum_def two_procs_def boot_state_def)
  ultimately show ?thesis
    using ipc_recv_loses_byte [of ?s 0 "[7]" 1 2 1 256 "0x1000" "\<lambda>i. 0x1000 + of_nat i" "\<lambda>n t. t" 5] by simp
qed

end
