(* ===== verification/Virtio.thy ===== *)
theory Virtio
  imports User_Stdio Boot
begin

text \<open>
  The virtio devices: the scan of the bus in \<^verbatim>\<open>kernel/virtio.c\<close>, the emergency-write register
  of \<^verbatim>\<open>kernel/virtio-emerg.c\<close> and the log lines that go to it, whose text \<open>Format\<close> models. The
  devices are an argument: \<open>regs a\<close> is what a 32-bit read of the register at \<open>a\<close> answers. The
  writes of the kernel to device registers are recorded in order.
\<close>

section \<open>The code\<close>

record virtio =
  virtio_console_regs :: u64
  emerg_ptr :: u64
  mmio_writes :: "(u64 \<times> u32) list"

definition VIRTIO_MAGIC :: u32 where "VIRTIO_MAGIC = 0x74726976"
definition VIRTIO_MMIO_STRIDE :: u64 where "VIRTIO_MMIO_STRIDE = 0x1000"
definition VIRTIO_CONSOLE_BASE :: u64 where "VIRTIO_CONSOLE_BASE = 0x10007000"
definition VIRTIO_MMIO_DEVICE_CONFIG :: u64 where "VIRTIO_MMIO_DEVICE_CONFIG = 0x100"

text \<open>\<^verbatim>\<open>offsetof(struct virtio_console_config, emerg_wr)\<close>: the structure is packed.\<close>

definition EMERG_WR :: u64 where "EMERG_WR = 2 + 2 + 4"

definition emerg_register :: "u64 \<Rightarrow> u64" where
  "emerg_register r = r + VIRTIO_MMIO_DEVICE_CONFIG + EMERG_WR"

definition virtio_emerg_init :: "u64 \<Rightarrow> virtio \<Rightarrow> kstate \<Rightarrow> (virtio \<times> kstate) option" where
  "virtio_emerg_init r v s =
     (let v = v\<lparr>emerg_ptr := emerg_register r\<rparr> in
      do {
        s \<leftarrow> uart_printf (bytes_of ''[virtio_emerge_init] Initialized at 0x%x'' @ [10]) [r] s;
        Some (v, s)
      })"

definition emerg_putc :: "u8 \<Rightarrow> virtio \<Rightarrow> virtio" where
  "emerg_putc c v =
     (if emerg_ptr v \<noteq> 0 then v\<lparr>mmio_writes := mmio_writes v @ [(emerg_ptr v, ucast c)]\<rparr> else v)"

text \<open>\<open>emerg_puts\<close> of the buffer \<open>bs\<close>, up to its NUL.\<close>

definition emerg_puts :: "u8 list \<Rightarrow> virtio \<Rightarrow> virtio" where
  "emerg_puts bs v = fold emerg_putc (takeWhile (\<lambda>b. b \<noteq> 0) bs) v"

text \<open>\<^verbatim>\<open>virtio_emerg_log\<close> to the device, and \<^verbatim>\<open>virtio_emerg_test\<close>.\<close>

definition emerg_log :: "mem \<Rightarrow> u64 \<Rightarrow> u8 list \<Rightarrow> u64 list \<Rightarrow> virtio \<Rightarrow> virtio option" where
  "emerg_log m level fmt args v = map_option (\<lambda>buf. emerg_puts buf v) (virtio_emerg_log m level fmt args)"

definition virtio_emerg_test :: "u64 \<Rightarrow> virtio \<Rightarrow> kstate \<Rightarrow> (virtio \<times> kstate) option" where
  "virtio_emerg_test r v s =
     (let emerg = emerg_register r;
          v = v\<lparr>mmio_writes := mmio_writes v @ map (\<lambda>c. (emerg, c)) [0x48, 0x69, 0x0A]\<rparr>
      in do {
        s \<leftarrow> uart_printf (bytes_of ''[virtio_console_emerge_test] emergency'' @ [0xE2, 0x80, 0x91] @ bytes_of ''write done'' @ [10]) [] s;
        Some (v, s)
      })"

text \<open>The line for a kind of device; the arrow is three bytes.\<close>

definition device_line :: "u32 \<Rightarrow> u8 list" where
  "device_line dev =
     [32, 32, 0xE2, 0x86, 0x92, 32] @
     bytes_of (if dev = 1 then ''Network device'' else if dev = 2 then ''Block device''
       else if dev = 3 then ''Console device'' else if dev = 4 then ''RNG device''
       else if dev = 16 then ''GPU device'' else if dev = 17 then ''RTC (Timer/Clock) device''
       else if dev = 18 then ''Input device'' else ''Unknown or unsupported device'') @ [10]"

definition slot_base :: "nat \<Rightarrow> u64" where
  "slot_base i = VIRTIO_MMIO_BASE + of_nat i * VIRTIO_MMIO_STRIDE"

definition probe_slot :: "(u64 \<Rightarrow> u32) \<Rightarrow> nat \<Rightarrow> virtio \<Rightarrow> kstate \<Rightarrow> (virtio \<times> kstate) option" where
  "probe_slot regs i v s =
     (let base = slot_base i;
          magic = regs base; version = regs (base + 4); dev = regs (base + 8); vendor = regs (base + 0xC)
      in if magic \<noteq> VIRTIO_MAGIC \<or> version \<noteq> 1 then Some (v, s)
         else if dev = 0 then Some (v, s)
         else do {
           s \<leftarrow> uart_printf (bytes_of ''[virtio-scan] Device found at 0x%lx: ID=%d Vendor=0x%x'' @ [10])
             [base, ucast dev, ucast vendor] s;
           let s = uart_puts (device_line dev) s;
           if dev = 3 then
             virtio_emerg_init VIRTIO_CONSOLE_BASE (v\<lparr>virtio_console_regs := VIRTIO_CONSOLE_BASE\<rparr>) s
           else Some (v, s)
         })"

primrec scan_slots :: "(u64 \<Rightarrow> u32) \<Rightarrow> nat list \<Rightarrow> virtio \<Rightarrow> kstate \<Rightarrow> (virtio \<times> kstate) option" where
  "scan_slots regs [] v s = Some (v, s)"
| "scan_slots regs (i # is) v s = do { (v, s) \<leftarrow> probe_slot regs i v s; scan_slots regs is v s }"

definition virtio_bus_init_scan :: "(u64 \<Rightarrow> u32) \<Rightarrow> virtio \<Rightarrow> kstate \<Rightarrow> (virtio \<times> kstate) option" where
  "virtio_bus_init_scan regs v s =
     do {
       let s = uart_puts (bytes_of ''[virtio-scan] Scanning for virtio devices...'' @ [10]) s;
       (v, s) \<leftarrow> scan_slots regs [0..<unat VIRTIO_MMIO_MAX_DEVICES] v s;
       Some (v, uart_puts (bytes_of ''[virtio-debug] Scan completed.'' @ [10]) s)
     }"

text \<open>The globals after \<^verbatim>\<open>bss_init\<close>.\<close>

definition no_virtio :: virtio where
  "no_virtio = \<lparr>virtio_console_regs = 0, emerg_ptr = 0, mmio_writes = []\<rparr>"

section \<open>What is printed\<close>

text \<open>The kernel's \<open>uart_printf\<close> writes the text of \<open>prints\<close>.\<close>

lemma perform_text:
  "deeds cs = [] \<Longrightarrow> fold perform cs s = s\<lparr>uart_out := uart_out s @ console cs\<rparr>"
proof (induction cs arbitrary: s)
  case (Cons u cs)
  then show ?case by (cases u) (simp_all add: deeds_def console_def uart_puts_out uart_putc_def)
qed (simp add: console_def)

lemma uart_printf_text:
  assumes "prints (mem s) fmt args out"
  shows "uart_printf fmt args s = Some (s\<lparr>uart_out := uart_out s @ out\<rparr>)"
  using assms perform_text printf_loop_calls [of "mem s" fmt args s]
  by (auto simp: prints_def uart_printf_def)

definition hex :: "u64 \<Rightarrow> u8 list" where
  "hex v = (if v = 0 then [chr CHR ''0''] else hex_loop 16 v [])"

lemma console_hex: "console (puthex v 0) = hex v" "deeds (puthex v 0) = []"
  by (simp_all add: puthex_def Let_def hex_def del: hex_loop.simps)

lemma prints_lx:
  assumes "prints m fmt args out"
  shows "prints m (37 # 108 # 120 # fmt) (v # args) (hex v @ out)"
proof -
  have p: "parse_spec (108 # 120 # fmt) = (False, 0, 1, 120 # fmt)"
    by (simp add: parse_spec_def printf_flags_def parse_length_def)
  show ?thesis
    by (rule prints_conversion [OF p, of m _ args "puthex v 0"])
      (use assms in \<open>simp_all add: conversion_def console_hex\<close>)
qed

lemma ucast_up_down [simp]: "(ucast (ucast (v :: u32) :: u64) :: u32) = v"
  by (rule bit_word_eqI) (simp add: bit_simps)

lemma prints_x:
  fixes v :: u32
  assumes "prints m fmt args out"
  shows "prints m (37 # 120 # fmt) (ucast v # args) (hex (ucast v) @ out)"
proof -
  have p: "parse_spec (120 # fmt) = (False, 0, 0, 120 # fmt)"
    by (simp add: parse_spec_def printf_flags_def parse_length_def)
  show ?thesis
    by (rule prints_conversion [OF p, of m _ args "puthex (ucast v) 0"])
      (use assms in \<open>simp_all add: conversion_def console_hex\<close>)
qed

definition signed_dec :: "u32 \<Rightarrow> u8 list" where
  "signed_dec v = console (putpad (scast v) 10 0 False True)"

lemma prints_signed:
  fixes v :: u32
  assumes "prints m fmt args out"
  shows "prints m (37 # 100 # fmt) (ucast v # args) (signed_dec v @ out)"
proof -
  have p: "parse_spec (100 # fmt) = (False, 0, 0, 100 # fmt)"
    by (simp add: parse_spec_def printf_flags_def parse_length_def)
  show ?thesis
    by (rule prints_conversion [OF p, of m _ args "putpad (scast v) 10 0 False True"])
      (use assms in \<open>simp_all add: conversion_def console_dec(2) signed_dec_def\<close>)
qed

section \<open>The scan\<close>

definition present :: "(u64 \<Rightarrow> u32) \<Rightarrow> nat \<Rightarrow> bool" where
  "present regs i \<longleftrightarrow>
     regs (slot_base i) = VIRTIO_MAGIC \<and> regs (slot_base i + 4) = 1 \<and> regs (slot_base i + 8) \<noteq> 0"

definition console_in :: "(u64 \<Rightarrow> u32) \<Rightarrow> nat \<Rightarrow> bool" where
  "console_in regs i \<longleftrightarrow> present regs i \<and> regs (slot_base i + 8) = 3"

definition slot_report :: "(u64 \<Rightarrow> u32) \<Rightarrow> nat \<Rightarrow> u8 list" where
  "slot_report regs i =
     (if \<not> present regs i then []
      else bytes_of ''[virtio-scan] Device found at 0x'' @ hex (slot_base i) @ bytes_of '': ID='' @
        signed_dec (regs (slot_base i + 8)) @ bytes_of '' Vendor=0x'' @ hex (ucast (regs (slot_base i + 0xC))) @ [10] @
        device_line (regs (slot_base i + 8)) @
        (if console_in regs i then bytes_of ''[virtio_emerge_init] Initialized at 0x'' @ hex VIRTIO_CONSOLE_BASE @ [10] else []))"

definition found_console :: "virtio \<Rightarrow> virtio" where
  "found_console v =
     v\<lparr>virtio_console_regs := VIRTIO_CONSOLE_BASE, emerg_ptr := emerg_register VIRTIO_CONSOLE_BASE\<rparr>"

lemma newline_printed: "prints m [10] [] [10]"
  using prints_plain [of "[10]" m "[]" "[]" "[]"] prints_nil by simp

lemma emerg_init_text:
  "virtio_emerg_init VIRTIO_CONSOLE_BASE v s = Some (v\<lparr>emerg_ptr := emerg_register VIRTIO_CONSOLE_BASE\<rparr>,
    s\<lparr>uart_out := uart_out s @ bytes_of ''[virtio_emerge_init] Initialized at 0x'' @ hex VIRTIO_CONSOLE_BASE @ [10]\<rparr>)"
proof -
  have b: "VIRTIO_CONSOLE_BASE = ucast (0x10007000 :: u32)" by (simp add: VIRTIO_CONSOLE_BASE_def)
  have sep: "(37 :: u8) \<notin> set (bytes_of ''[virtio_emerge_init] Initialized at 0x'')" by simp
  have f: "bytes_of ''[virtio_emerge_init] Initialized at 0x%x'' @ [10] =
      bytes_of ''[virtio_emerge_init] Initialized at 0x'' @ 37 # 120 # [10]" by simp
  have "uart_printf (bytes_of ''[virtio_emerge_init] Initialized at 0x%x'' @ [10]) [VIRTIO_CONSOLE_BASE] s =
      Some (s\<lparr>uart_out := uart_out s @ bytes_of ''[virtio_emerge_init] Initialized at 0x'' @ hex VIRTIO_CONSOLE_BASE @ [10]\<rparr>)"
    unfolding f b by (rule uart_printf_text [OF prints_plain [OF sep prints_x [OF newline_printed]]])
  then show ?thesis unfolding virtio_emerg_init_def by (simp del: bytes_of_simps)
qed

lemma probe_slot_text:
  "probe_slot regs i v s =
    Some (if console_in regs i then found_console v else v, s\<lparr>uart_out := uart_out s @ slot_report regs i\<rparr>)"
proof (cases "present regs i")
  case False
  then show ?thesis by (auto simp: probe_slot_def Let_def present_def console_in_def slot_report_def)
next
  case True
  let ?b = "slot_base i"
  have p: "regs ?b = VIRTIO_MAGIC" "regs (?b + 4) = 1" "regs (?b + 8) \<noteq> 0" using True by (simp_all add: present_def)
  have sep: "(37 :: u8) \<notin> set (bytes_of ''[virtio-scan] Device found at 0x'')" "(37 :: u8) \<notin> set (bytes_of '': ID='')"
    "(37 :: u8) \<notin> set (bytes_of '' Vendor=0x'')" by simp_all
  have f: "bytes_of ''[virtio-scan] Device found at 0x%lx: ID=%d Vendor=0x%x'' @ [10] =
      bytes_of ''[virtio-scan] Device found at 0x'' @ 37 # 108 # 120 # bytes_of '': ID='' @ 37 # 100 #
      bytes_of '' Vendor=0x'' @ 37 # 120 # [10]" by simp
  let ?t = "bytes_of ''[virtio-scan] Device found at 0x'' @ hex ?b @ bytes_of '': ID='' @ signed_dec (regs (?b + 8)) @
      bytes_of '' Vendor=0x'' @ hex (ucast (regs (?b + 0xC))) @ [10]"
  have line: "uart_printf (bytes_of ''[virtio-scan] Device found at 0x%lx: ID=%d Vendor=0x%x'' @ [10])
      [?b, ucast (regs (?b + 8)), ucast (regs (?b + 0xC))] s = Some (s\<lparr>uart_out := uart_out s @ ?t\<rparr>)"
    unfolding f
    by (rule uart_printf_text, rule prints_plain [OF sep(1) prints_lx [OF prints_plain [OF sep(2) prints_signed
      [OF prints_plain [OF sep(3) prints_x [OF newline_printed]]]]]])
  show ?thesis
    unfolding probe_slot_def Let_def p line slot_report_def console_in_def found_console_def
    using True p(3) by (simp add: emerg_init_text uart_puts_out del: bytes_of_simps)
qed

lemma found_console_twice [simp]: "found_console (found_console v) = found_console v"
  by (simp add: found_console_def)

lemma scan_slots_text:
  "scan_slots regs is v s =
    Some (if list_ex (console_in regs) is then found_console v else v,
      s\<lparr>uart_out := uart_out s @ concat (map (slot_report regs) is)\<rparr>)"
  by (induction "is" arbitrary: v s) (simp_all add: probe_slot_text)

lemma emerg_puts_writes:
  "emerg_puts bs v =
    (if emerg_ptr v = 0 then v
     else v\<lparr>mmio_writes := mmio_writes v @ map (\<lambda>b. (emerg_ptr v, ucast b)) (takeWhile (\<lambda>b. b \<noteq> 0) bs)\<rparr>)"
proof -
  have "fold emerg_putc cs v =
      (if emerg_ptr v = 0 then v else v\<lparr>mmio_writes := mmio_writes v @ map (\<lambda>b. (emerg_ptr v, ucast b)) cs\<rparr>)" for cs v
    by (induction cs arbitrary: v) (simp_all add: emerg_putc_def)
  then show ?thesis by (simp add: emerg_puts_def)
qed

section \<open>Properties\<close>

text \<open>
  C30: The scan of the virtio bus, whatever devices answer: it ends, prints one report for
  each slot that holds a device, in order, and then the emergency log works exactly when one
  of the eight slots holds a console: every byte of a log text up to its NUL is written to the
  register at \<^verbatim>\<open>0x10007108\<close>, in order, and nothing is written to a device when there is no
  console. That register belongs to the sixth slot alone, counted from 0: a console found in another slot is
  never written to.
\<close>

theorem virtio_scan_console:
  "\<exists>v. virtio_bus_init_scan regs no_virtio s =
      Some (v, s\<lparr>uart_out := uart_out s @ bytes_of ''[virtio-scan] Scanning for virtio devices...'' @ [10] @
        concat (map (slot_report regs) [0..<8]) @ bytes_of ''[virtio-debug] Scan completed.'' @ [10]\<rparr>) \<and>
    mmio_writes (emerg_puts bs v) =
      (if list_ex (console_in regs) [0..<8] then map (\<lambda>b. (0x10007108, ucast b)) (takeWhile (\<lambda>b. b \<noteq> 0) bs) else []) \<and>
    filter (\<lambda>i. emerg_register (slot_base i) = 0x10007108) [0..<8] = [6]"
proof -
  let ?v = "if list_ex (console_in regs) [0..<8] then found_console no_virtio else no_virtio"
  have n: "unat VIRTIO_MMIO_MAX_DEVICES = 8" by (simp add: VIRTIO_MMIO_MAX_DEVICES_def)
  have "virtio_bus_init_scan regs no_virtio s =
      Some (?v, s\<lparr>uart_out := uart_out s @ bytes_of ''[virtio-scan] Scanning for virtio devices...'' @ [10] @
        concat (map (slot_report regs) [0..<8]) @ bytes_of ''[virtio-debug] Scan completed.'' @ [10]\<rparr>)"
    unfolding virtio_bus_init_scan_def n Let_def scan_slots_text
    by (simp add: uart_puts_out del: bytes_of_simps upt_rec_numeral)
  moreover have "mmio_writes (emerg_puts bs ?v) =
      (if list_ex (console_in regs) [0..<8] then map (\<lambda>b. (0x10007108, ucast b)) (takeWhile (\<lambda>b. b \<noteq> 0) bs) else [])"
    by (simp add: emerg_puts_writes found_console_def no_virtio_def emerg_register_def VIRTIO_CONSOLE_BASE_def
        VIRTIO_MMIO_DEVICE_CONFIG_def EMERG_WR_def del: upt_rec_numeral)
  moreover have "filter (\<lambda>i. emerg_register (slot_base i) = 0x10007108) [0..<8] = [6]"
    by (simp add: emerg_register_def slot_base_def VIRTIO_MMIO_BASE_def VIRTIO_MMIO_STRIDE_def
        VIRTIO_MMIO_DEVICE_CONFIG_def EMERG_WR_def upt_rec)
  ultimately show ?thesis by blast
qed

end
