(* ===== verification/Log_Path.thy ===== *)
theory Log_Path
  imports Virtio User_Servers Sys_Info
begin

text \<open>
  The log, from \<^verbatim>\<open>LOG\<close> in a program to the emergency-write register: \<^verbatim>\<open>sys_log\<close> of
  \<^verbatim>\<open>kernel/syscall.c\<close> with its text, and \<^verbatim>\<open>log_user\<close> of \<^verbatim>\<open>kernel/user.c\<close>. \<open>lit w\<close> is the address of the kernel's literal \<open>w\<close>,
  \<open>kbuf\<close> that of the array \<^verbatim>\<open>buf\<close> of \<^verbatim>\<open>sys_log\<close> on the kernel stack and \<open>name_at\<close> that of the field \<^verbatim>\<open>name\<close>
  of the current PCB. The field is in the record of the process, so the formatter, which reads
  memory, gets memory with the bytes of the field at \<open>name_at\<close>.
\<close>

section \<open>The code\<close>

definition sys_log_emerg ::
  "(u8 list \<Rightarrow> u64) \<Rightarrow> u64 \<Rightarrow> u64 \<Rightarrow> u64 \<Rightarrow> virtio \<Rightarrow> kstate \<Rightarrow> (int \<times> virtio, kstate) kres" where
  "sys_log_emerg lit kbuf name_at msg v s =
     (if msg = 0 then kret (- 1, v) s
      else
        kbind (user_strncpy msg 255 (enable_sum s)) (\<lambda>buf s.
          (let s = disable_sum s\<lparr>mem := poke (mem s) kbuf (buf @ [0])\<rparr> in
           case current_proc s of
             None \<Rightarrow> kpanic (Page_fault 0)
           | Some c \<Rightarrow>
               (let (old_satp, s) = switch_pagetable (kernel_pagetable s) s in
                case virtio_emerg_log_ext (poke (mem s) name_at (p_name (procs s ! c)))
                       (lit (bytes_of ''USER'')) (of_int (p_pid (procs s ! c)))
                       (lit (bytes_of ''INFO'')) name_at (bytes_of ''%s'') [kbuf] of
                  None \<Rightarrow> Inl Undefined
                | Some line \<Rightarrow> kret (0, emerg_puts line v) (restore_pagetable old_satp s)))))"

datatype user_log_level_t = LOG_LVL_INFO | LOG_LVL_WARN | LOG_LVL_ERR | LOG_LVL_DBG

fun level_text :: "user_log_level_t \<Rightarrow> u8 list" where
  "level_text LOG_LVL_INFO = bytes_of ''INFO''"
| "level_text LOG_LVL_WARN = bytes_of ''WARN''"
| "level_text LOG_LVL_ERR = bytes_of ''ERR''"
| "level_text LOG_LVL_DBG = bytes_of ''DBG''"

definition log_user ::
  "(u8 list \<Rightarrow> u64) \<Rightarrow> user_log_level_t \<Rightarrow> u8 list \<Rightarrow> u64 list \<Rightarrow> virtio \<Rightarrow> kstate \<Rightarrow> (virtio \<times> kstate) option" where
  "log_user lit level fmt args v s =
     (let (old_satp, s) = switch_pagetable (kernel_pagetable s) s in
      do {
        line \<leftarrow> virtio_emerg_log_va (mem s) (lit (level_text level)) fmt args;
        Some (emerg_puts line v, restore_pagetable old_satp s)
      })"

section \<open>The text\<close>

lemma kv_plain:
  "37 \<notin> set pre \<Longrightarrow> length out + length pre \<le> lim \<Longrightarrow>
    kv_loop m lim (pre @ fmt) args out = kv_loop m lim fmt args (out @ pre)"
proof (induction pre arbitrary: out)
  case (Cons c pre)
  then have ih: "kv_loop m lim (pre @ fmt) args (out @ [c]) = kv_loop m lim fmt args (out @ c # pre)" by simp
  show ?case
  proof (cases "pre @ fmt")
    case Nil
    then show ?thesis using Cons.prems by simp
  next
    case (Cons x xs)
    then show ?thesis using Cons.prems ih by auto
  qed
qed simp

lemma str_bytes_cstr: "cstr_at m p w \<Longrightarrow> length w \<le> k \<Longrightarrow> str_bytes m p k = w"
proof (induction k arbitrary: p w)
  case (Suc k)
  then show ?case by (cases w) simp_all
qed simp

lemma kv_string:
  assumes "cstr_at m p w" and "p \<noteq> 0" and "length out < lim" and "length out + length w \<le> lim"
  shows "kv_loop m lim (37 # 115 # fmt) (p # args) out = kv_loop m lim fmt args (out @ w)"
  using assms str_bytes_cstr [OF assms(1), of "lim - length out"] by (simp add: kv_spec_def)

lemma itoa_signed_length: "length (itoa_signed v 10) \<le> 11"
proof -
  have "length (itoa_unsigned u 10) \<le> 10" for u
    using itoa_unsigned_length [of 10 u 10] unat_u32_bound [of u] by simp
  from this [of v] this [of "- v"] show ?thesis by (simp add: itoa_signed_def)
qed

lemma kv_int:
  assumes "length out < lim" and "length out + 11 \<le> lim"
  shows "kv_loop m lim (37 # 100 # fmt) (v # args) out = kv_loop m lim fmt args (out @ itoa_signed (ucast v) 10)"
proof -
  have "length (itoa_signed (ucast v) 10) \<le> lim - length out"
    using assms itoa_signed_length [of "ucast v"] by simp
  then show ?thesis using assms by (simp add: kv_spec_def)
qed

lemma itoa_signed_nonzero: "0 \<notin> set (itoa_signed v 10)"
proof -
  have "hex_digit d \<noteq> 0" if "d < 10" for d
  proof -
    have "d \<in> {0, 1, 2, 3, 4, 5, 6, 7, 8, 9}" using that by auto
    then show ?thesis by (auto simp: hex_digit_def)
  qed
  then have "0 \<notin> set (itoa_unsigned u 10)" for u
    using itoa_unsigned_digits [of 10 u] by fastforce
  then show ?thesis by (simp add: itoa_signed_def)
qed

lemma user_strncpy_cstr:
  assumes "user_buffer Load t va (Suc (length bs)) f" and "\<forall>i < length bs. mem t (f i) = bs ! i"
    and "0 \<notin> set bs" and "mem t (f (length bs)) = 0" and "length bs \<le> k"
  shows "user_strncpy va k t = kret (bs @ replicate (k - length bs) 0) t"
  using assms
proof (induction bs arbitrary: va f k)
  case Nil
  then show ?case using user_buffer_Suc(1) [OF Nil(1)[unfolded list.size]] by (cases k) (simp_all add: user_load_def)
next
  case (Cons b bs)
  obtain k' where k: "k = Suc k'" using Cons.prems(5) by (cases k) auto
  note ub = user_buffer_Suc [OF Cons.prems(1) [unfolded list.size(4) add_Suc_right add_0_right]]
  have "mem t (f 0) = b" "b \<noteq> 0" using Cons.prems(2,3) by auto
  moreover have "user_strncpy (va + 1) k' t = kret (bs @ replicate (k' - length bs) 0) t"
    by (rule Cons.IH [OF ub(2)]) (use Cons.prems k in auto)
  ultimately show ?case using ub(1) k by (simp add: user_load_def)
qed

section \<open>Properties\<close>

definition log_line :: "int \<Rightarrow> u8 list \<Rightarrow> u8 list \<Rightarrow> u8 list" where
  "log_line pid name bs =
     bytes_of ''[USER:PID='' @ itoa_signed (of_int pid) 10 @ bytes_of ''] [INFO] '' @ name @ bytes_of '': '' @ bs @ [10]"

lemma emerg_log_ext_line:
  assumes "cstr_at m src (bytes_of ''USER'')" and "src \<noteq> 0" and "cstr_at m lvl (bytes_of ''INFO'')" and "lvl \<noteq> 0"
    and "cstr_at m label name" and "label \<noteq> 0" and "cstr_at m p bs" and "p \<noteq> 0"
    and "length name \<le> 63" and "length bs \<le> 255"
  shows "virtio_emerg_log_ext m src (of_int pid) lvl label (bytes_of ''%s'') [p] = Some (log_line pid name bs)"
proof -
  let ?d = "itoa_signed (of_int pid) 10"
  let ?h = "bytes_of ''[USER:PID='' @ ?d @ bytes_of ''] [INFO] '' @ name @ bytes_of '': ''"
  have d: "length ?d \<le> 11" by (rule itoa_signed_length)
  have u: "(ucast (of_int pid :: u64) :: u32) = of_int pid" by (rule bit_word_eqI) (simp add: bit_simps)
  have f: "bytes_of ''[%s:PID=%d] [%s] %s: '' =
      bytes_of ''['' @ 37 # 115 # bytes_of '':PID='' @ 37 # 100 # bytes_of ''] ['' @ 37 # 115 # bytes_of ''] '' @
      37 # 115 # bytes_of '': '' @ []" "bytes_of ''%s'' = 37 # 115 # []" by simp_all
  have lim: "unat (512 - of_nat n - 1 :: u64) = 511 - n" if "n < 512" for n
  proof -
    have "(512 - of_nat n - 1 :: u64) = of_nat (511 - n)" using that by (simp add: of_nat_diff)
    moreover have "511 - n < 2 ^ 64" by simp
    ultimately show ?thesis by (simp only: unat_of_nat_u64)
  qed
  have "emerg_piece m (bytes_of ''[%s:PID=%d] [%s] %s: '') [src, of_int pid, lvl, label] [] = Some ?h"
  proof -
    have "kv_loop m 511 (bytes_of ''[%s:PID=%d] [%s] %s: '') [src, of_int pid, lvl, label] [] = Some ?h"
      unfolding f(1)
      apply (subst kv_plain, simp, simp)
      apply (subst kv_string [OF assms(1,2)], simp, simp)
      apply (subst kv_plain, simp, simp)
      apply (subst kv_int, simp, simp, subst u)
      apply (subst kv_plain, simp, use d in simp)
      apply (subst kv_string [OF assms(3,4)], use d in simp, use d in simp)
      apply (subst kv_plain, simp, use d in simp)
      apply (subst kv_string [OF assms(5,6)], use d in simp, use d assms(9) in simp)
      apply (subst kv_plain, simp, use d assms(9) in simp)
      apply simp
      done
    then show ?thesis using lim [of 0] by (simp add: emerg_piece_def kvnprintf_def del: bytes_of_simps)
  qed
  moreover have h: "length ?h \<le> 110" using d assms(9) by simp
  moreover have "emerg_piece m (bytes_of ''%s'') [p] ?h = Some (?h @ bs)"
  proof -
    have "kv_loop m (511 - length ?h) (37 # 115 # []) [p] [] = Some bs"
      using h assms(10) by (subst kv_string [OF assms(7,8)]) simp_all
    then show ?thesis using lim [of "length ?h"] h unfolding emerg_piece_def kvnprintf_def f(2) by simp
  qed
  moreover have "emerg_piece m [10] [] (?h @ bs) = Some (?h @ bs @ [10])"
    using lim [of "length (?h @ bs)"] h assms(10) unfolding emerg_piece_def kvnprintf_def
    by (simp del: bytes_of_simps)
  ultimately show ?thesis by (simp add: virtio_emerg_log_ext_def log_line_def del: bytes_of_simps)
qed

text \<open>The name of a process, up to its terminator.\<close>

definition name_text :: "kstate \<Rightarrow> nat \<Rightarrow> u8 list" where
  "name_text s i = takeWhile (\<lambda>b. b \<noteq> 0) (p_name (procs s ! i))"

lemma cstr_at_name:
  assumes "length bs = n" and "n < 2 ^ 64" and "0 \<in> set bs"
  shows "cstr_at (poke m a bs) a (takeWhile (\<lambda>b. b \<noteq> 0) bs)" and "length (takeWhile (\<lambda>b. b \<noteq> 0) bs) < n"
proof -
  let ?w = "takeWhile (\<lambda>b. b \<noteq> 0) bs"
  obtain y ys where d: "dropWhile (\<lambda>b. b \<noteq> 0) bs = y # ys"
    using assms(3) by (cases "dropWhile (\<lambda>b. b \<noteq> 0) bs") (auto simp: dropWhile_eq_Nil_conv)
  have "y = 0" using d hd_dropWhile [of "\<lambda>b. b \<noteq> 0" bs] by simp
  then have bs: "?w @ 0 # ys = bs" using d takeWhile_dropWhile_id [of "\<lambda>b. b \<noteq> 0" bs] by simp
  have "length (?w @ 0 # ys) = n" unfolding bs by (rule assms(1))
  then show l: "length ?w < n" by simp
  have "0 \<notin> set ?w" by (auto dest: set_takeWhileD)
  then have "cstr_at (poke m a (?w @ 0 # ys)) a ?w" using l assms(2) by (intro cstr_at_poke) simp_all
  then show "cstr_at (poke m a bs) a ?w" using bs by simp
qed

lemma cstr_at_poke_apart:
  fixes k a :: u64
  assumes "cstr_at m k w" and "length w < n" and "n \<le> unat (a - k)" and "length bs \<le> unat (k - a)"
  shows "cstr_at (poke m a bs) k w"
proof -
  have "length bs \<le> unat (k + of_nat i - a)" if "i \<le> length w" for i
  proof -
    have ne: "k \<noteq> a" using assms(2,3) by auto
    have "unat (a - k) = 2 ^ 64 - unat (k - a)"
      using ne unat_u64_bound [of k] unat_u64_bound [of a] by (simp add: unat_sub_if' word_unat_eq_iff) linarith
    then have lt: "unat (k - a) + i < 2 ^ 64" using assms(2,3) that unat_u64_bound [of "k - a"] by linarith
    have "k + of_nat i - a = of_nat (unat (k - a) + i)" by (simp add: of_nat_unat_u64)
    then have "unat (k + of_nat i - a) = unat (k - a) + i"
      using lt by (simp only: unat_of_nat_u64)
    then show ?thesis using assms(4) by simp
  qed
  then show ?thesis using assms(1) by (simp add: cstr_at_iff poke_other)
qed

text \<open>
  The strings of the kernel while the line is made: its literals, and a name field that is
  terminated and apart from the buffer.
\<close>

definition log_strings :: "(u8 list \<Rightarrow> u64) \<Rightarrow> u64 \<Rightarrow> u64 \<Rightarrow> u8 list \<Rightarrow> mem \<Rightarrow> bool" where
  "log_strings lit kbuf name_at pname m \<longleftrightarrow>
     cstr_at m (lit (bytes_of ''USER'')) (bytes_of ''USER'') \<and> lit (bytes_of ''USER'') \<noteq> 0 \<and>
     cstr_at m (lit (bytes_of ''INFO'')) (bytes_of ''INFO'') \<and> lit (bytes_of ''INFO'') \<noteq> 0 \<and>
     length pname = 64 \<and> 0 \<in> set pname \<and> name_at \<noteq> 0 \<and> kbuf \<noteq> 0 \<and>
     256 \<le> unat (name_at - kbuf) \<and> 64 \<le> unat (kbuf - name_at)"

text \<open>
  C28: A log line of a program arrives at the device. When a process calls \<^verbatim>\<open>SYS_LOG\<close> with a
  string of at most 255 bytes in memory it can read, which is all that \<^verbatim>\<open>LOG\<close> makes, and
  the emergency register is known, the bytes written to that register are the line with
  its pid, the name in its PCB and the whole string, in order and with nothing cut off;
  the call returns 0 under the page table it came with, and the state that \<open>sys_log\<close> has without the text is the
  same.
\<close>

theorem log_reaches_device:
  assumes "current_proc s = Some c" and "msg \<noteq> 0"
    and "user_buffer Load (enable_sum s) msg (Suc (length bs)) f" and "\<forall>i < length bs. mem s (f i) = bs ! i"
    and "mem s (f (length bs)) = 0" and "0 \<notin> set bs" and "length bs \<le> 255"
    and "log_strings lit kbuf name_at (p_name (procs s ! c))
      (poke (poke (mem s) kbuf (bs @ replicate (256 - length bs) 0)) name_at (p_name (procs s ! c)))"
    and "emerg_ptr v \<noteq> 0"
  shows "\<exists>t. sys_log_emerg lit kbuf name_at msg v s = kret (0, v\<lparr>mmio_writes := mmio_writes v @
      map (\<lambda>b. (emerg_ptr v, ucast b)) (log_line (p_pid (procs s ! c)) (name_text s c) bs)\<rparr>) t \<and>
    sys_log msg s = kret 0 (t\<lparr>mem := mem s\<rparr>) \<and> csr_satp t = csr_satp s"
proof -
  let ?e = "enable_sum s" and ?m = "poke (mem s) kbuf (bs @ replicate (256 - length bs) 0)"
  let ?n = "p_name (procs s ! c)"
  let ?line = "log_line (p_pid (procs s ! c)) (name_text s c) bs"
  have r: "replicate (255 - length bs) (0 :: u8) @ [0] = replicate (256 - length bs) 0"
  proof -
    have "256 - length bs = Suc (255 - length bs)" using assms(7) by simp
    then show ?thesis by (simp add: replicate_append_same)
  qed
  have rd: "user_strncpy msg 255 ?e = kret (bs @ replicate (255 - length bs) 0) ?e"
    by (rule user_strncpy_cstr [OF assms(3)]) (use assms(4-7) in \<open>simp_all add: enable_sum_def\<close>)
  have "replicate (256 - length bs) (0 :: u8) = 0 # replicate (255 - length bs) 0"
    using assms(7) by (cases "256 - length bs") simp_all
  then have "cstr_at ?m kbuf bs" using cstr_at_poke [of bs "mem s" kbuf] assms(6,7) by simp
  then have b: "cstr_at (poke ?m name_at ?n) kbuf bs"
    by (rule cstr_at_poke_apart [where n = 256]) (use assms(7,8) in \<open>simp_all add: log_strings_def\<close>)
  have n: "cstr_at (poke ?m name_at ?n) name_at (name_text s c)" "length (name_text s c) \<le> 63"
    using cstr_at_name [of ?n 64] assms(8) unfolding log_strings_def name_text_def by fastforce+
  have line: "virtio_emerg_log_ext (poke ?m name_at ?n) (lit (bytes_of ''USER'')) (of_int (p_pid (procs s ! c)))
      (lit (bytes_of ''INFO'')) name_at (bytes_of ''%s'') [kbuf] = Some ?line"
    using assms(7,8) b n unfolding log_strings_def by (intro emerg_log_ext_line) blast+
  have "0 \<notin> set (name_text s c)" using n(1) cstr_at_nonzero by blast
  then have "0 \<notin> set ?line"
    using assms(6) itoa_signed_nonzero by (simp add: log_line_def)
  then have tw: "takeWhile (\<lambda>b. b \<noteq> 0) ?line = ?line"
    by (intro takeWhile_eq_all_conv [THEN iffD2]) auto
  have w: "emerg_puts ?line v = v\<lparr>mmio_writes := mmio_writes v @ map (\<lambda>b. (emerg_ptr v, ucast b)) ?line\<rparr>"
    unfolding emerg_puts_writes tw using assms(9) by simp
  show ?thesis
    using assms(1,2) rd line w r
    by (simp add: sys_log_emerg_def sys_log_def Let_def switch_pagetable_def restore_pagetable_def enable_sum_def disable_sum_def
        del: bytes_of_simps)
qed

definition log_proc :: kstate where
  "log_proc = two_procs\<lparr>
     mem := poke (poke (poke (\<lambda>_. 0) 0x1000 (bytes_of ''hi'')) 0x7000 (bytes_of ''USER'')) 0x7100 (bytes_of ''INFO''),
     procs := (procs two_procs)[0 := (procs two_procs ! 0)\<lparr>p_name := bytes_of ''init'' @ replicate 60 0\<rparr>]\<rparr>"

theorem log_reaches_device_witness:
  "\<exists>t v. sys_log_emerg (\<lambda>w. if w = bytes_of ''USER'' then 0x7000 else 0x7100) 0x5000 0x6000 0x1000
      \<lparr>virtio_console_regs = 0x10007000, emerg_ptr = 0x10007108, mmio_writes = []\<rparr> log_proc = kret (0, v) t \<and>
    map snd (mmio_writes v) = map ucast (log_line 1 (bytes_of ''init'') (bytes_of ''hi''))"
proof -
  let ?lit = "\<lambda>w. if w = bytes_of ''USER'' then 0x7000 else 0x7100 :: u64"
  let ?s = log_proc and ?bs = "bytes_of ''hi''" and ?n = "p_name (procs log_proc ! 0)"
  let ?v = "\<lparr>virtio_console_regs = 0x10007000, emerg_ptr = 0x10007108, mmio_writes = []\<rparr>"
  have cur: "current_proc ?s = Some 0" "(0x1000 :: u64) \<noteq> 0" by (simp_all add: log_proc_def two_procs_def)
  have ub: "user_buffer Load (enable_sum ?s) 0x1000 (Suc (length ?bs)) (\<lambda>i. 0x1000 + of_nat i)"
    by (rule bare_buffer) (simp_all add: log_proc_def enable_sum_def two_procs_def boot_state_def)
  have by1: "\<forall>i < length ?bs. mem ?s (0x1000 + of_nat i) = ?bs ! i"
  proof (intro allI impI)
    fix i assume "i < length ?bs"
    then have "i = 0 \<or> i = 1" by auto
    then show "mem ?s (0x1000 + of_nat i) = ?bs ! i"
    proof
      assume "i = 0"
      then show ?thesis by (simp add: log_proc_def poke_def)
    next
      assume "i = 1"
      then show ?thesis by (simp add: log_proc_def poke_def)
    qed
  qed
  have by2: "mem ?s (0x1000 + of_nat (length ?bs)) = 0" "0 \<notin> set ?bs" "length ?bs \<le> 255"
    by (simp_all add: log_proc_def poke_def)
  let ?m = "poke (poke (mem ?s) 0x5000 (?bs @ replicate (256 - length ?bs) 0)) 0x6000 ?n"
  have n: "?n = bytes_of ''init'' @ replicate 60 0" by (simp add: log_proc_def two_procs_def)
  have len: "length ?n = 64" "0 \<in> set ?n" unfolding n by simp_all
  have "cstr_at (poke (poke (mem ?s) 0x5000 (?bs @ replicate (256 - length ?bs) 0)) 0x6000 n) 0x7000 (bytes_of ''USER'')"
    "cstr_at (poke (poke (mem ?s) 0x5000 (?bs @ replicate (256 - length ?bs) 0)) 0x6000 n) 0x7100 (bytes_of ''INFO'')"
    if "length n = 64" for n
    by (simp_all add: log_proc_def poke_def that)
  note u = this [OF len(1)]
  have st: "log_strings ?lit 0x5000 0x6000 ?n ?m"
    using u len unfolding log_strings_def by simp
  have e: "emerg_ptr ?v \<noteq> 0" by simp
  have "p_pid (procs ?s ! 0) = 1" "name_text ?s 0 = bytes_of ''init''"
    unfolding name_text_def n by (simp_all add: log_proc_def two_procs_def)
  with log_reaches_device [OF cur ub by1 by2 st e]
  show ?thesis by (fastforce simp del: bytes_of_simps)
qed

end
