(* ===== verification/Diagnostics.thy ===== *)
theory Diagnostics
  imports Log_Path Cpu
begin

text \<open>
  What the kernel logs about itself: \<^verbatim>\<open>print_process_table\<close> and \<^verbatim>\<open>dump_pcb\<close> of \<^verbatim>\<open>process.c\<close>,
  \<^verbatim>\<open>dump_trap_frame\<close> of \<^verbatim>\<open>trap.c\<close>, \<^verbatim>\<open>debug_pagetable\<close> of \<^verbatim>\<open>page.c\<close> and the two reports of
  \<^verbatim>\<open>alloc-tracker.c\<close>. They run in the middle of \<^verbatim>\<open>yield\<close>, \<^verbatim>\<open>sys_exec\<close> and other routines, whose models
  leave them out: all of them return the state they were given. \<open>lit w\<close> is the address of the literal \<open>w\<close>,
  \<open>name i\<close> that of the name in PCB \<open>i\<close>.
\<close>

section \<open>The code\<close>

type_synonym log_result = "(virtio \<times> kstate) option"

text \<open>A run of log lines, one after the other.\<close>

primrec log_all :: "('a \<Rightarrow> virtio \<Rightarrow> kstate \<Rightarrow> log_result) \<Rightarrow> 'a list \<Rightarrow> virtio \<Rightarrow> kstate \<Rightarrow> log_result" where
  "log_all f [] v s = Some (v, s)"
| "log_all f (x # xs) v s = do { (v, s) \<leftarrow> f x v s; log_all f xs v s }"

definition table_line :: "(u8 list \<Rightarrow> u64) \<Rightarrow> (nat \<Rightarrow> u64) \<Rightarrow> nat \<Rightarrow> virtio \<Rightarrow> kstate \<Rightarrow> log_result" where
  "table_line lit name i v s =
     (let p = procs s ! i;
          state = lit (proc_state_str (p_state p))
      in if p_state p \<noteq> PROC_UNUSED then
           log_user lit LOG_LVL_INFO (bytes_of ''PID=%d  State=%s  EPC=0x%x  SP=0x%x, name=%s'')
             [of_int (p_pid p), state, if p_tf p \<noteq> 0 then tf_get s (p_tf p) TF_EPC else 0,
              if p_tf p \<noteq> 0 then tf_get s (p_tf p) TF_SP else 0, name i] v s
         else Some (v, s))"

definition print_process_table :: "(u8 list \<Rightarrow> u64) \<Rightarrow> (nat \<Rightarrow> u64) \<Rightarrow> virtio \<Rightarrow> kstate \<Rightarrow> log_result" where
  "print_process_table lit name v s =
     do {
       (v, s) \<leftarrow> log_user lit LOG_LVL_INFO (bytes_of ''[process list]'') [] v s;
       log_all (table_line lit name) [0..<PROCS_MAX] v s
     }"

text \<open>The lines of a trap frame with the registers each shows.\<close>

definition frame_lines :: "(string \<times> reg list) list" where
  "frame_lines =
     [('' ra=%p gp=%p tp=%p'', [Ra, Gp, Tp]),
      ('' t0=%p t1=%p t2=%p t3=%p t4=%p t5=%p t6=%p'', [T0, T1, T2, T3, T4, T5, T6]),
      ('' a0=%p a1=%p a2=%p a3=%p a4=%p a5=%p a6=%p a7=%p'', [A0, A1, A2, A3, A4, A5, A6, A7]),
      ('' s0=%p s1=%p s2=%p s3=%p s4=%p s5=%p s6=%p s7=%p'', [S0, S1, S2, S3, S4, S5, S6, S7]),
      ('' s8=%p s9=%p s10=%p s11=%p'', [S8, S9, S10, S11])]"

definition log_dbg :: "(u8 list \<Rightarrow> u64) \<Rightarrow> string \<Rightarrow> u64 list \<Rightarrow> virtio \<Rightarrow> kstate \<Rightarrow> log_result" where
  "log_dbg lit fmt args = log_user lit LOG_LVL_DBG (bytes_of fmt) args"

definition dump_trap_frame :: "(u8 list \<Rightarrow> u64) \<Rightarrow> u64 \<Rightarrow> virtio \<Rightarrow> kstate \<Rightarrow> log_result" where
  "dump_trap_frame lit f v s =
     do {
       (v, s) \<leftarrow> log_dbg lit ''=== TrapFrame Debug Dump ==='' [] v s;
       (v, s) \<leftarrow> log_dbg lit '' frame@%p  sp=%p  epc=%p'' [f, tf_get s f TF_SP, tf_get s f TF_EPC] v s;
       (v, s) \<leftarrow> log_all (\<lambda>(fmt, rs) v s. log_dbg lit fmt (map (\<lambda>r. load64 (mem s) (slot_addr f (reg_slot r))) rs) v s) frame_lines v s;
       log_dbg lit ''============================'' [] v s
     }"

definition dump_pcb :: "(u8 list \<Rightarrow> u64) \<Rightarrow> nat \<Rightarrow> virtio \<Rightarrow> kstate \<Rightarrow> log_result" where
  "dump_pcb lit i v s =
     (let p = procs s ! i in
      do {
        (v, s) \<leftarrow> log_dbg lit ''=== PCB Dump: PID %d ==='' [of_int (p_pid p)] v s;
        (v, s) \<leftarrow> log_dbg lit ''State           : %s''
          [lit (bytes_of (if p_state p = PROC_RUNNABLE then ''RUNNABLE'' else ''UNUSED''))] v s;
        (v, s) \<leftarrow> log_dbg lit ''SP (kernel)     : 0x%x'' [p_sp p] v s;
        (v, s) \<leftarrow> log_dbg lit ''Heap end        : 0x%x'' [p_heap_end p] v s;
        (v, s) \<leftarrow> log_dbg lit ''Page table      : 0x%x'' [p_page_table p] v s;
        (v, s) \<leftarrow> log_dbg lit ''Entry point     : 0x%x'' [p_entry_point p] v s;
        (v, s) \<leftarrow> log_dbg lit ''User stack top  : 0x%x'' [p_user_stack_top p] v s;
        (v, s) \<leftarrow> (if p_tf p \<noteq> 0 then dump_trap_frame lit (p_tf p) v s
          else log_user lit LOG_LVL_ERR (bytes_of ''([dump_pcb] trap frame is NULL)'') [] v s);
        log_dbg lit ''========================='' [] v s
      })"

definition debug_pagetable :: "(u8 list \<Rightarrow> u64) \<Rightarrow> u64 \<Rightarrow> virtio \<Rightarrow> kstate \<Rightarrow> log_result" where
  "debug_pagetable lit who v s =
     (let ppn = csr_satp s AND (push_bit 44 1 - 1);
          root_pa = push_bit 12 ppn
      in log_dbg lit ''[%s] active page table @ 0x%x'' [who, root_pa] v s)"

text \<open>The reports on the console.\<close>

definition tag_arg :: "(u8 list \<Rightarrow> u64) \<Rightarrow> string option \<Rightarrow> u64" where
  "tag_arg lit t = (case t of None \<Rightarrow> lit (bytes_of ''?'') | Some w \<Rightarrow> lit (bytes_of w))"

primrec each_entry :: "(alloc_track_t \<Rightarrow> kstate \<Rightarrow> kstate option) \<Rightarrow> nat list \<Rightarrow> kstate \<Rightarrow> kstate option" where
  "each_entry f [] s = Some s"
| "each_entry f (i # is) s = do { s \<leftarrow> f (alloc_table s ! i) s; each_entry f is s }"

definition dump_allocs :: "(u8 list \<Rightarrow> u64) \<Rightarrow> kstate \<Rightarrow> kstate option" where
  "dump_allocs lit s =
     do {
       s \<leftarrow> uart_printf (bytes_of ''=== OUTSTANDING ALLOCS ==='' @ [10]) [] s;
       each_entry (\<lambda>e s.
         if at_used e then
           uart_printf (bytes_of ''PA=0x%x npages=%d owner=%d tag=%s'' @ [10])
             [at_pa e, at_npages e, of_int (at_owner e), tag_arg lit (at_tag e)] s
         else Some s) [0..<MAX_TRACKED_ALLOCS] s
     }"

definition dump_allocs_for_pid :: "(u8 list \<Rightarrow> u64) \<Rightarrow> int \<Rightarrow> bool \<Rightarrow> kstate \<Rightarrow> kstate option" where
  "dump_allocs_for_pid lit pid debug_flag s =
     do {
       s \<leftarrow> (if debug_flag then uart_printf (bytes_of ''=== ALLOCS for pid=%d ==='' @ [10]) [of_int pid] s else Some s);
       s \<leftarrow> each_entry (\<lambda>e s.
         if at_used e \<and> at_owner e = pid then
           (if debug_flag then
              uart_printf (bytes_of ''  leak: pa=0x%x npages=%d tag=%s'' @ [10])
                [at_pa e, at_npages e, tag_arg lit (at_tag e)] s
            else Some s)
         else Some s) [0..<MAX_TRACKED_ALLOCS] s;
       if debug_flag then uart_printf (bytes_of ''=== END of list - ALLOCS for pid=%d ==='' @ [10]) [of_int pid] s
       else Some s
     }"

section \<open>They change nothing\<close>

text \<open>\<open>logs v s r\<close>: if the routine is defined, the state is as before and only the register of the log was written to.\<close>

definition logs :: "virtio \<Rightarrow> kstate \<Rightarrow> log_result \<Rightarrow> bool" where
  "logs v s r \<longleftrightarrow> (\<forall>v' s'. r = Some (v', s') \<longrightarrow>
     s' = s \<and> (\<exists>ws. v' = v\<lparr>mmio_writes := mmio_writes v @ ws\<rparr> \<and> (\<forall>w \<in> set ws. fst w = emerg_ptr v)))"

lemma logs_none [simp]: "logs v s None"
  by (simp add: logs_def)

lemma logs_done [simp]: "logs v s (Some (v, s))"
  by (auto simp: logs_def intro: exI [of _ "[]"])

lemma logs_emerg: "logs v s (Some (emerg_puts line v, s))"
  by (auto simp: logs_def emerg_puts_writes split: if_splits intro: exI [of _ "[]"])

lemma switch_restore: "restore_pagetable (fst (switch_pagetable pt s)) (snd (switch_pagetable pt s)) = s"
  by (simp add: switch_pagetable_def restore_pagetable_def)

lemma log_user_eq:
  "log_user lit level fmt args v s =
    map_option (\<lambda>line. (emerg_puts line v, s)) (virtio_emerg_log_va (mem s) (lit (level_text level)) fmt args)"
  by (cases "virtio_emerg_log_va (mem s) (lit (level_text level)) fmt args")
    (simp_all add: log_user_def switch_pagetable_def restore_pagetable_def)

lemma logs_user: "logs v s (log_user lit level fmt args v s)"
  unfolding log_user_eq
  by (cases "virtio_emerg_log_va (mem s) (lit (level_text level)) fmt args") (simp_all add: logs_emerg)

lemma logs_dbg: "logs v s (log_dbg lit fmt args v s)"
  by (simp add: log_dbg_def logs_user)

lemma logs_bind:
  assumes "logs v s r" and "\<And>v'. logs v' s (f v' s)"
  shows "logs v s (r \<bind> (\<lambda>(v, s). f v s))"
  unfolding logs_def
proof (intro allI impI)
  fix v2 s2 assume "r \<bind> (\<lambda>(v, s). f v s) = Some (v2, s2)"
  then obtain v1 s1 where r: "r = Some (v1, s1)" and f: "f v1 s1 = Some (v2, s2)" by (cases r) auto
  obtain ws where 1: "s1 = s" "v1 = v\<lparr>mmio_writes := mmio_writes v @ ws\<rparr>" "\<forall>w \<in> set ws. fst w = emerg_ptr v"
    using assms(1) r by (auto simp: logs_def)
  obtain ws' where 2: "s2 = s" "v2 = v1\<lparr>mmio_writes := mmio_writes v1 @ ws'\<rparr>" "\<forall>w \<in> set ws'. fst w = emerg_ptr v1"
    using assms(2) [of v1] f 1(1) by (auto simp: logs_def)
  show "s2 = s \<and> (\<exists>ws. v2 = v\<lparr>mmio_writes := mmio_writes v @ ws\<rparr> \<and> (\<forall>w \<in> set ws. fst w = emerg_ptr v))"
    using 1 2 by (intro conjI exI [of _ "ws @ ws'"]) auto
qed

lemma logs_all: "(\<And>x v. logs v s (f x v s)) \<Longrightarrow> logs v s (log_all f xs v s)"
proof (induction xs arbitrary: v)
  case (Cons x xs)
  then show ?case by (simp, intro logs_bind) auto
qed simp

lemma table_line_logs: "logs v s (table_line lit name i v s)"
  by (simp add: table_line_def Let_def logs_user)

lemma print_process_table_logs: "logs v s (print_process_table lit name v s)"
  unfolding print_process_table_def by (intro logs_bind logs_user logs_all table_line_logs)

lemma dump_trap_frame_logs: "logs v s (dump_trap_frame lit f v s)"
  unfolding dump_trap_frame_def by (intro logs_bind logs_dbg logs_all) (auto intro: logs_dbg)

lemma dump_pcb_logs: "logs v s (dump_pcb lit i v s)"
  unfolding dump_pcb_def Let_def by (intro logs_bind logs_dbg) (auto intro: dump_trap_frame_logs logs_user)

text \<open>\<^verbatim>\<open>free_proc\<close> asks for the report with the flag off: it does nothing.\<close>

lemma dump_allocs_quiet: "dump_allocs_for_pid lit pid False s = Some s"
proof -
  have "each_entry (\<lambda>e s. if P e then (if False then f e s else Some s) else Some s) is s = Some s" for P f "is"
    by (induction "is") simp_all
  then show ?thesis by (simp add: dump_allocs_for_pid_def)
qed

section \<open>The text of a log line\<close>

text \<open>\<open>kv_out m fmt args out\<close>: with room enough, the format writes \<open>out\<close>. One rule for each piece.\<close>

definition kv_out :: "mem \<Rightarrow> u8 list \<Rightarrow> u64 list \<Rightarrow> u8 list \<Rightarrow> bool" where
  "kv_out m fmt args out \<longleftrightarrow>
     (\<forall>lim acc. length acc + length out < lim \<longrightarrow> kv_loop m lim fmt args acc = Some (acc @ out))"

lemma kv_out_nil: "kv_out m [] args []"
  by (simp add: kv_out_def)

lemma kv_out_plain: "37 \<notin> set pre \<Longrightarrow> kv_out m fmt args out \<Longrightarrow> kv_out m (pre @ fmt) args (pre @ out)"
  by (simp add: kv_out_def kv_plain)

lemma kv_out_text: "37 \<notin> set pre \<Longrightarrow> kv_out m pre args pre"
  using kv_out_plain [OF _ kv_out_nil] by simp

lemma kv_out_string:
  "cstr_at m p w \<Longrightarrow> p \<noteq> 0 \<Longrightarrow> kv_out m fmt args out \<Longrightarrow> kv_out m (37 # 115 # fmt) (p # args) (w @ out)"
  by (simp add: kv_out_def kv_string del: kv_loop.simps)

lemma kv_out_conv:
  assumes "spec = 100 \<and> w = itoa_signed (ucast v) 10 \<or> spec = 120 \<and> w = itoa_unsigned (ucast v) 16"
    and "kv_out m fmt args out"
  shows "kv_out m (37 # spec # fmt) (v # args) (w @ out)"
  using assms by (auto simp: kv_out_def kv_spec_def)

lemmas kv_out_int = kv_out_conv [OF disjI1, OF conjI, OF refl refl]
lemmas kv_out_hex = kv_out_conv [OF disjI2, OF conjI, OF refl refl]

lemma itoa_hex_length: "length (itoa_unsigned v 16) \<le> 8"
  using itoa_unsigned_length [of 16 v 8] unat_u32_bound [of v] by simp

lemma itoa_hex_nonzero: "0 \<notin> set (itoa_unsigned v 16)"
proof -
  have "hex_digit d \<noteq> 0" if "d < 16" for d
  proof -
    have "d \<in> {0, 1, 2, 3, 4, 5, 6, 7, 8, 9, 10, 11, 12, 13, 14, 15}"
      using that by (simp only: insert_iff empty_iff) arith
    then show ?thesis by (auto simp: hex_digit_def)
  qed
  then show ?thesis using itoa_unsigned_digits [of 16 v] by fastforce
qed

lemma kv_out_piece:
  assumes "kv_out m fmt args out" and "length acc + length out < 511"
  shows "emerg_piece m fmt args acc = Some (acc @ out)"
proof -
  have "(512 - of_nat (length acc) - 1 :: u64) = of_nat (511 - length acc)"
    using assms(2) by (simp add: of_nat_diff)
  moreover have "511 - length acc < 2 ^ 64" by simp
  ultimately have "unat (512 - of_nat (length acc) - 1 :: u64) = 511 - length acc"
    by (simp only: unat_of_nat_u64)
  then show ?thesis using assms by (simp add: emerg_piece_def kvnprintf_def kv_out_def)
qed

lemma log_va_text:
  assumes "cstr_at m l w" and "l \<noteq> 0" and "length w \<le> 4" and "kv_out m fmt args out" and "length out \<le> 400"
  shows "virtio_emerg_log_va m l fmt args = Some (bytes_of ''['' @ w @ bytes_of ''] '' @ out @ [10])"
proof -
  have f: "bytes_of ''[%s] '' = bytes_of ''['' @ 37 # 115 # bytes_of ''] ''" by simp
  have "kv_out m (bytes_of ''[%s] '') [l] (bytes_of ''['' @ w @ bytes_of ''] '')"
    unfolding f by (intro kv_out_plain kv_out_string [OF assms(1,2)] kv_out_text) simp_all
  then have "emerg_piece m (bytes_of ''[%s] '') [l] [] = Some (bytes_of ''['' @ w @ bytes_of ''] '')"
    using assms(3) by (subst kv_out_piece) simp_all
  moreover have "emerg_piece m fmt args (bytes_of ''['' @ w @ bytes_of ''] '') = Some ((bytes_of ''['' @ w @ bytes_of ''] '') @ out)"
    using assms(3,5) by (intro kv_out_piece [OF assms(4)]) simp
  moreover have "emerg_piece m [10] [] ((bytes_of ''['' @ w @ bytes_of ''] '') @ out) =
      Some (((bytes_of ''['' @ w @ bytes_of ''] '') @ out) @ [10])"
    using assms(3,5) by (intro kv_out_piece kv_out_text) simp_all
  ultimately show ?thesis by (simp add: virtio_emerg_log_va_def del: bytes_of_simps)
qed

lemma log_user_text:
  assumes "cstr_at (mem s) (lit (level_text level)) (level_text level)" and "lit (level_text level) \<noteq> 0"
    and "kv_out (mem s) fmt args out" and "length out \<le> 400" and "0 \<notin> set out" and "emerg_ptr v \<noteq> 0"
  shows "log_user lit level fmt args v s = Some (v\<lparr>mmio_writes := mmio_writes v @
    map (\<lambda>b. (emerg_ptr v, ucast b)) (bytes_of ''['' @ level_text level @ bytes_of ''] '' @ out @ [10])\<rparr>, s)"
proof -
  let ?l = "bytes_of ''['' @ level_text level @ bytes_of ''] '' @ out @ [10]"
  have "length (level_text level) \<le> 4" "0 \<notin> set (level_text level)" by (cases level; simp)+
  moreover from this have "takeWhile (\<lambda>b. b \<noteq> 0) ?l = ?l" using assms(5) by (intro takeWhile_eq_all_conv [THEN iffD2]) auto
  ultimately show ?thesis
    unfolding log_user_eq log_va_text [OF assms(1,2) \<open>length (level_text level) \<le> 4\<close> assms(3,4)]
    using assms(6) by (simp add: emerg_puts_writes del: bytes_of_simps)
qed

section \<open>Properties\<close>

definition frame_field :: "kstate \<Rightarrow> nat \<Rightarrow> u64 \<Rightarrow> u64" where
  "frame_field s i off = (if p_tf (procs s ! i) \<noteq> 0 then tf_get s (p_tf (procs s ! i)) off else 0)"

definition process_text :: "kstate \<Rightarrow> nat \<Rightarrow> u8 list" where
  "process_text s i =
     (let p = procs s ! i in
      if p_state p = PROC_UNUSED then []
      else bytes_of ''[INFO] PID='' @ itoa_signed (of_int (p_pid p)) 10 @ bytes_of ''  State='' @ proc_state_str (p_state p) @
        bytes_of ''  EPC=0x'' @ itoa_unsigned (ucast (frame_field s i TF_EPC)) 16 @
        bytes_of ''  SP=0x'' @ itoa_unsigned (ucast (frame_field s i TF_SP)) 16 @
        bytes_of '', name='' @ name_text s i @ [10])"

text \<open>The literals and the names are where the kernel keeps them.\<close>

definition table_strings :: "(u8 list \<Rightarrow> u64) \<Rightarrow> (nat \<Rightarrow> u64) \<Rightarrow> kstate \<Rightarrow> bool" where
  "table_strings lit name s \<longleftrightarrow>
     cstr_at (mem s) (lit (bytes_of ''INFO'')) (bytes_of ''INFO'') \<and> lit (bytes_of ''INFO'') \<noteq> 0 \<and>
     (\<forall>i < PROCS_MAX. p_state (procs s ! i) \<noteq> PROC_UNUSED \<longrightarrow>
        cstr_at (mem s) (lit (proc_state_str (p_state (procs s ! i)))) (proc_state_str (p_state (procs s ! i))) \<and>
        lit (proc_state_str (p_state (procs s ! i))) \<noteq> 0 \<and>
        cstr_at (mem s) (name i) (name_text s i) \<and> name i \<noteq> 0 \<and> length (name_text s i) \<le> 63)"

lemma table_line_text:
  assumes st: "table_strings lit name s" and e: "emerg_ptr v \<noteq> 0" and i: "i < PROCS_MAX"
  shows "table_line lit name i v s =
    Some (v\<lparr>mmio_writes := mmio_writes v @ map (\<lambda>b. (emerg_ptr v, ucast b)) (process_text s i)\<rparr>, s)"
proof (cases "p_state (procs s ! i) = PROC_UNUSED")
  case False
  let ?p = "procs s ! i"
  let ?out = "bytes_of ''PID='' @ itoa_signed (of_int (p_pid ?p)) 10 @ bytes_of ''  State='' @ proc_state_str (p_state ?p) @
        bytes_of ''  EPC=0x'' @ itoa_unsigned (ucast (frame_field s i TF_EPC)) 16 @
        bytes_of ''  SP=0x'' @ itoa_unsigned (ucast (frame_field s i TF_SP)) 16 @
        bytes_of '', name='' @ name_text s i"
  have lits: "cstr_at (mem s) (lit (level_text LOG_LVL_INFO)) (level_text LOG_LVL_INFO)" "lit (level_text LOG_LVL_INFO) \<noteq> 0"
    using st by (simp_all add: table_strings_def)
  have strs: "cstr_at (mem s) (lit (proc_state_str (p_state ?p))) (proc_state_str (p_state ?p))"
    "lit (proc_state_str (p_state ?p)) \<noteq> 0" "cstr_at (mem s) (name i) (name_text s i)" "name i \<noteq> 0"
    "length (name_text s i) \<le> 63"
    using st i False unfolding table_strings_def by blast+
  have u: "(ucast (of_int (p_pid ?p) :: u64) :: u32) = of_int (p_pid ?p)" by (rule bit_word_eqI) (simp add: bit_simps)
  have f: "bytes_of ''PID=%d  State=%s  EPC=0x%x  SP=0x%x, name=%s'' =
      bytes_of ''PID='' @ 37 # 100 # bytes_of ''  State='' @ 37 # 115 # bytes_of ''  EPC=0x'' @ 37 # 120 #
      bytes_of ''  SP=0x'' @ 37 # 120 # bytes_of '', name='' @ 37 # 115 # []" by simp
  have "kv_out (mem s) (bytes_of ''PID=%d  State=%s  EPC=0x%x  SP=0x%x, name=%s'')
      [of_int (p_pid ?p), lit (proc_state_str (p_state ?p)), frame_field s i TF_EPC, frame_field s i TF_SP, name i]
      (bytes_of ''PID='' @ itoa_signed (ucast (of_int (p_pid ?p) :: u64)) 10 @ bytes_of ''  State='' @
        proc_state_str (p_state ?p) @ bytes_of ''  EPC=0x'' @ itoa_unsigned (ucast (frame_field s i TF_EPC)) 16 @
        bytes_of ''  SP=0x'' @ itoa_unsigned (ucast (frame_field s i TF_SP)) 16 @ bytes_of '', name='' @ name_text s i @ [])"
    unfolding f
    by (intro kv_out_plain kv_out_int kv_out_hex kv_out_string [OF strs(1,2)] kv_out_string [OF strs(3,4)] kv_out_nil) simp_all
  then have k: "kv_out (mem s) (bytes_of ''PID=%d  State=%s  EPC=0x%x  SP=0x%x, name=%s'')
      [of_int (p_pid ?p), lit (proc_state_str (p_state ?p)), frame_field s i TF_EPC, frame_field s i TF_SP, name i] ?out"
    unfolding u append_Nil2 .
  have "length (proc_state_str st) = 8" for st by (cases st) (simp_all add: proc_state_str_def)
  then have "length ?out \<le> 400"
    using strs(5) itoa_signed_length [of "of_int (p_pid ?p)"] itoa_hex_length [of "ucast (frame_field s i TF_EPC)"]
      itoa_hex_length [of "ucast (frame_field s i TF_SP)"] by simp
  moreover have "0 \<notin> set ?out"
    using cstr_at_nonzero [OF strs(1)] cstr_at_nonzero [OF strs(3)] itoa_signed_nonzero itoa_hex_nonzero by simp
  ultimately show ?thesis
    using log_user_text [where lit = lit and level = LOG_LVL_INFO, OF lits k _ _ e] False
    by (simp add: table_line_def Let_def frame_field_def process_text_def)
qed (simp add: table_line_def process_text_def)

text \<open>
  C29: the process list in the log is the process table. When the emergency register is known,
  \<^verbatim>\<open>print_process_table\<close>, which every switch of processes calls, writes to it the heading and one
  line for each PCB in use, in the order of the slots: the pid, the state, the low 32 bits of the
  program counter and the stack pointer in its frame, and the whole name; no line is cut off. The state of the
  kernel, its page table included, is as it was.
\<close>

theorem process_table_logged:
  assumes "table_strings lit name s" and "emerg_ptr v \<noteq> 0"
  shows "print_process_table lit name v s = Some (v\<lparr>mmio_writes := mmio_writes v @ map (\<lambda>b. (emerg_ptr v, ucast b))
    (bytes_of ''[INFO] [process list]'' @ [10] @ concat (map (process_text s) [0..<PROCS_MAX]))\<rparr>, s)"
proof -
  have rest: "log_all (table_line lit name) is w s = Some (w\<lparr>mmio_writes := mmio_writes w @
      map (\<lambda>b. (emerg_ptr w, ucast b)) (concat (map (process_text s) is))\<rparr>, s)"
    if "set is \<subseteq> {..<PROCS_MAX}" and "emerg_ptr w \<noteq> 0" for "is" w
    using that by (induction "is" arbitrary: w) (simp_all add: table_line_text [OF assms(1)])
  have lits: "cstr_at (mem s) (lit (level_text LOG_LVL_INFO)) (level_text LOG_LVL_INFO)" "lit (level_text LOG_LVL_INFO) \<noteq> 0"
    using assms(1) by (simp_all add: table_strings_def)
  have k: "kv_out (mem s) (bytes_of ''[process list]'') [] (bytes_of ''[process list]'')" by (intro kv_out_text) simp
  have "log_user lit LOG_LVL_INFO (bytes_of ''[process list]'') [] v s = Some (v\<lparr>mmio_writes := mmio_writes v @
      map (\<lambda>b. (emerg_ptr v, ucast b)) (bytes_of ''[INFO] [process list]'' @ [10])\<rparr>, s)"
    using log_user_text [where lit = lit and level = LOG_LVL_INFO, OF lits k _ _ assms(2)] by simp
  then show ?thesis
    using rest [of "[0..<PROCS_MAX]"] assms(2)
    by (simp add: print_process_table_def lessThan_atLeast0 del: bytes_of_simps upt_Suc)
qed

text \<open>One process, \<^verbatim>\<open>init\<close>, without a frame yet.\<close>

definition log_procs :: kstate where
  "log_procs = (boot_state kernel_map)\<lparr>
     procs := zero_proc\<lparr>p_pid := 1, p_state := PROC_RUNNING, p_name := bytes_of ''init'' @ replicate 60 0\<rparr> # replicate 7 zero_proc,
     mem := poke (poke (poke (\<lambda>_. 0) 0x6000 (bytes_of ''init'')) 0x7000 (bytes_of ''RUNNING '')) 0x7100 (bytes_of ''INFO'')\<rparr>"

theorem process_table_logged_witness:
  "\<exists>v. print_process_table (\<lambda>w. if w = bytes_of ''INFO'' then 0x7100 else 0x7000) (\<lambda>_. 0x6000)
      \<lparr>virtio_console_regs = 0x10007000, emerg_ptr = 0x10007108, mmio_writes = []\<rparr> log_procs = Some (v, log_procs) \<and>
    map snd (mmio_writes v) = map ucast (bytes_of ''[INFO] [process list]'' @ [10] @
      bytes_of ''[INFO] PID=1  State=RUNNING   EPC=0x0  SP=0x0, name=init'' @ [10])"
proof -
  let ?lit = "\<lambda>w. if w = bytes_of ''INFO'' then 0x7100 else 0x7000 :: u64"
  let ?m = "mem log_procs"
  have m: "cstr_at ?m 0x7100 (bytes_of ''INFO'')" "cstr_at ?m 0x7000 (bytes_of ''RUNNING '')" "cstr_at ?m 0x6000 (bytes_of ''init'')"
    by (simp_all add: log_procs_def poke_def)
  have p0: "procs log_procs ! 0 = zero_proc\<lparr>p_pid := 1, p_state := PROC_RUNNING, p_name := bytes_of ''init'' @ replicate 60 0\<rparr>"
    by (simp add: log_procs_def)
  have ps: "procs log_procs ! i = zero_proc" if "0 < i" "i < PROCS_MAX" for i
    using that by (simp add: log_procs_def PROCS_MAX_def nth_Cons')
  have n: "name_text log_procs 0 = bytes_of ''init''" unfolding name_text_def p0 by simp
  have st: "table_strings ?lit (\<lambda>_. 0x6000) log_procs"
  proof -
    have one: "i = 0" if "i < PROCS_MAX" "p_state (procs log_procs ! i) \<noteq> PROC_UNUSED" for i
      using that ps [of i] by (cases "i = 0") (simp_all add: zero_proc_def)
    have t: "proc_state_str (p_state (procs log_procs ! 0)) = bytes_of ''RUNNING ''" by (simp add: p0 proc_state_str_def)
    have l: "?lit (bytes_of ''RUNNING '') = 0x7000" "?lit (bytes_of ''INFO'') = 0x7100" "length (bytes_of ''init'') \<le> 63" by simp_all
    have "cstr_at ?m (?lit (proc_state_str (p_state (procs log_procs ! i)))) (proc_state_str (p_state (procs log_procs ! i))) \<and>
        ?lit (proc_state_str (p_state (procs log_procs ! i))) \<noteq> 0 \<and>
        cstr_at ?m 0x6000 (name_text log_procs i) \<and> length (name_text log_procs i) \<le> 63"
      if "i < PROCS_MAX" "p_state (procs log_procs ! i) \<noteq> PROC_UNUSED" for i
      unfolding one [OF that] t n l(1) using m l(3) by (simp del: bytes_of_simps)
    then show ?thesis using m(1) unfolding table_strings_def l(2) by (simp del: bytes_of_simps)
  qed
  have "process_text log_procs 0 = bytes_of ''[INFO] PID=1  State=RUNNING   EPC=0x0  SP=0x0, name=init'' @ [10]"
    unfolding process_text_def Let_def n frame_field_def p0
    by (simp add: zero_proc_def proc_state_str_def itoa_signed_def itoa_unsigned_def itoa_loop.simps hex_digit_def)
  moreover have "process_text log_procs i = []" if "0 < i" "i < PROCS_MAX" for i
    using ps [OF that] by (simp add: process_text_def zero_proc_def)
  ultimately have "concat (map (process_text log_procs) [0..<PROCS_MAX]) =
      bytes_of ''[INFO] PID=1  State=RUNNING   EPC=0x0  SP=0x0, name=init'' @ [10]"
    by (simp add: PROCS_MAX_def upt_rec)
  then show ?thesis
    using process_table_logged [OF st, of "\<lparr>virtio_console_regs = 0x10007000, emerg_ptr = 0x10007108, mmio_writes = []\<rparr>"]
    by simp
qed

end
