(* ===== verification/Boot_Main.thy ===== *)
theory Boot_Main
  imports Kernel_Runs Virtio
begin

text \<open>
  \<^verbatim>\<open>kernel_main\<close> of \<^verbatim>\<open>kernel/kernel.c\<close>, from the cleared BSS to the first program, with
  everything it prints and the scan of the virtio bus. The linker symbols and addresses that
  only the messages use are in \<open>boot_syms\<close>; \<open>lit w\<close> is the address of the kernel's literal \<open>w\<close>.
\<close>

section \<open>The code\<close>

record boot_syms =
  stack_bottom :: u64
  stack_top :: u64
  sym_trap_vector :: u64
  ampm_array :: u64

text \<open>A call of \<^verbatim>\<open>uart_printf\<close>.\<close>

definition uprint :: "u8 list \<Rightarrow> u64 list \<Rightarrow> kstate \<Rightarrow> (unit, kstate) kres" where
  "uprint fmt args s = (case uart_printf fmt args s of None \<Rightarrow> Inl Undefined | Some s \<Rightarrow> kret () s)"

definition low32 :: "u64 \<Rightarrow> u64" where
  "low32 a = ucast (ucast a :: u32)"

text \<open>\<^verbatim>\<open>trap_init\<close>; \<^verbatim>\<open>stvec\<close> gets the one vector there is.\<close>

definition trap_init :: "boot_syms \<Rightarrow> kstate \<Rightarrow> (unit, kstate) kres" where
  "trap_init B s = uprint (bytes_of ''[trap_init] Trap vector initialized at : 0x%x'' @ [10]) [sym_trap_vector B] s"

definition stack_init :: "boot_syms \<Rightarrow> kstate \<Rightarrow> (unit, kstate) kres" where
  "stack_init B s =
     (let stack_size = stack_top B - stack_bottom B in
      uprint (bytes_of ''[stack_init] STACK initialized, size = %d KB, start = 0x%x, end = 0x%x'' @ [10])
        [stack_size div 1024, low32 (stack_bottom B), low32 (stack_top B)] s)"

text \<open>\<^verbatim>\<open>ram_init\<close>, \<^verbatim>\<open>heap_init\<close> and \<^verbatim>\<open>paging_init\<close> with their messages.\<close>

definition ram_start :: "linker_syms \<Rightarrow> kstate \<Rightarrow> (unit, kstate) kres" where
  "ram_start L s =
     (let ram_size = free_ram_end L - free_ram L; s = ram_init L s in
      uprint (bytes_of ''[ram_init]   RAM   initialized, size =  %d MB, start = 0x%x, end = 0x%x total pages = %d'' @ [10])
        [ram_size div (1024 * 1024), low32 (free_ram L), low32 (free_ram_end L), g_total_pages s] s)"

definition heap_begin :: "linker_syms \<Rightarrow> kstate \<Rightarrow> (unit, kstate) kres" where
  "heap_begin L s =
     (let s = s\<lparr>mem := snd (heap_init L (mem s))\<rparr> in
      uprint (bytes_of ''[heap_init]  HEAP  initialized, size =  %d MB, start = 0x%x, end = 0x%x'' @ [10])
        [(blk_size (mem s) (heap_start L) + BLOCK_SIZE) div (1024 * 1024), low32 (heap_start L), low32 (heap_stop L)] s)"

definition paging_start :: "linker_syms \<Rightarrow> kstate \<Rightarrow> (unit, kstate) kres" where
  "paging_start L s =
     kbind (paging_init L s) (\<lambda>_ s.
       uprint (bytes_of ''[paging_init] kernel page table initialized at : 0x%lx'' @ [10]) [kernel_pagetable s] s)"

definition weekday_names :: "string list" where
  "weekday_names = [''Sun'', ''Mon'', ''Tue'', ''Wed'', ''Thu'', ''Fri'', ''Sat'']"

definition month_names :: "string list" where
  "month_names = [''Jan'', ''Feb'', ''Mar'', ''Apr'', ''May'', ''Jun'', ''Jul'', ''Aug'', ''Sep'', ''Oct'', ''Nov'', ''Dec'']"

definition name_of :: "string list \<Rightarrow> int \<Rightarrow> u8 list option" where
  "name_of names i = (if 0 \<le> i \<and> i < int (length names) then Some (bytes_of (names ! nat i)) else None)"

text \<open>\<open>ampm\<close> is the address of the local array, set to \<^verbatim>\<open>AM\<close> first.\<close>

definition print_datetime :: "(u8 list \<Rightarrow> u64) \<Rightarrow> u64 \<Rightarrow> date_time \<Rightarrow> kstate \<Rightarrow> kstate option" where
  "print_datetime lit ampm dt s =
     (let s = s\<lparr>mem := poke (mem s) ampm (bytes_of ''AM'' @ [0])\<rparr>;
          hour = dt_hour dt;
          (hour, s) =
            (if 12 \<le> hour then (if 12 < hour then hour - 12 else hour, s\<lparr>mem := (mem s)(ampm := chr CHR ''P'')\<rparr>)
             else if hour = 0 then (12, s) else (hour, s))
      in do {
        weekday \<leftarrow> name_of weekday_names (dt_weekday dt);
        month \<leftarrow> name_of month_names (dt_month dt - 1);
        uart_printf (bytes_of ''%s %s %d %d:%d:%d %s %d'' @ [10])
          [lit weekday, lit month, of_int (dt_day dt), of_int hour, of_int (dt_minute dt), of_int (dt_second dt),
           ampm, of_int (dt_year dt)] s
      })"

definition date_time_test :: "(u8 list \<Rightarrow> u64) \<Rightarrow> u64 \<Rightarrow> kstate \<Rightarrow> kstate option" where
  "date_time_test lit ampm s = do { dt \<leftarrow> compute_datetime (get_time s); print_datetime lit ampm dt s }"

text \<open>What runs before the first program is looked for.\<close>

definition lift_option :: "('a \<times> kstate) option \<Rightarrow> ('a, kstate) kres" where
  "lift_option r = (case r of None \<Rightarrow> Inl Undefined | Some (x, s) \<Rightarrow> kret x s)"

definition start_up :: "(u8 list \<Rightarrow> u64) \<Rightarrow> (u64 \<Rightarrow> u32) \<Rightarrow> linker_syms \<Rightarrow> boot_syms \<Rightarrow> kstate \<Rightarrow> (virtio, kstate) kres" where
  "start_up lit regs L B s =
     kbind (uprint (bytes_of ''Novix RISC-V 64 OS, (c) NovixManiac, Version 0.0.1'' @ [10, 10]) [] (uart_cls s)) (\<lambda>_ s.
     kbind (trap_init B (uart_puts (bytes_of ''Booting ...'' @ [10]) s)) (\<lambda>_ s.
     kbind (stack_init B s) (\<lambda>_ s.
     kbind (ram_start L s) (\<lambda>_ s.
     kbind (heap_begin L s) (\<lambda>_ s.
     kbind (paging_start L s) (\<lambda>_ s.
     kbind (lift_option (map_option (Pair ()) (date_time_test lit (ampm_array B) s))) (\<lambda>_ s.
       lift_option (virtio_bus_init_scan regs no_virtio s))))))))"

definition log_info :: "(u8 list \<Rightarrow> u64) \<Rightarrow> string \<Rightarrow> virtio \<Rightarrow> kstate \<Rightarrow> (virtio, kstate) kres" where
  "log_info lit text v s =
     (case emerg_log (mem s) (lit (bytes_of ''INFO'')) (bytes_of text) [] v of
        None \<Rightarrow> Inl Undefined
      | Some v \<Rightarrow> kret v s)"

text \<open>The two processes, and the first \<^verbatim>\<open>yield\<close>.\<close>

definition start_programs :: "(u8 list \<Rightarrow> u64) \<Rightarrow> linker_syms \<Rightarrow> virtio \<Rightarrow> kstate \<Rightarrow> (unit flow \<times> virtio, kstate) kres" where
  "start_programs lit L v s =
     kbind (boot_file L ''idle.elf'' s) (\<lambda>idle_elf s.
     kbind (extract_flat_binary_from_elf L idle_elf True s) (\<lambda>i s.
       (let s = s\<lparr>idle_proc := Some i\<rparr>;
            s = name_proc i ''idle'' (upd_proc i (\<lambda>p. p\<lparr>p_pid := 0\<rparr>) s);
            s = s\<lparr>current_proc := Some i\<rparr>
        in kbind (log_info lit ''[kernel_main] idle.elf loaded.'' v s) (\<lambda>v s.
           kbind (boot_file L ''shell.elf'' s) (\<lambda>shell s.
           kbind (extract_flat_binary_from_elf L shell True s) (\<lambda>j s.
           kbind (log_info lit ''[kernel_main] shell.elf loaded.'' v (name_proc j ''shell'' s)) (\<lambda>v s.
           kbind (log_info lit ''Start scheduler ...'' v s) (\<lambda>v s.
           kbind (yield L (timer_init s)) (\<lambda>fl s. kret (fl, v) s)))))))))"

definition kernel_main ::
  "(u8 list \<Rightarrow> u64) \<Rightarrow> (u64 \<Rightarrow> u32) \<Rightarrow> linker_syms \<Rightarrow> boot_syms \<Rightarrow> kstate \<Rightarrow> (unit flow \<times> virtio, kstate) kres" where
  "kernel_main lit regs L B s = kbind (start_up lit regs L B s) (start_programs lit L)"

text \<open>
  The way from reset to the first instruction of the first program: \<^verbatim>\<open>kernel_main\<close> and, where
  its \<^verbatim>\<open>yield\<close> switches contexts, the entry of the new one. A \<^verbatim>\<open>yield\<close> that returns is called
  again by the \<^verbatim>\<open>while\<close> and returns again (\<open>yield_again\<close>). \<open>To_user\<close> comes only after a first switch.
\<close>

definition boot_to_user ::
  "(u8 list \<Rightarrow> u64) \<Rightarrow> (u64 \<Rightarrow> u32) \<Rightarrow> linker_syms \<Rightarrow> boot_syms \<Rightarrow> regs \<Rightarrow> kstate \<Rightarrow> (regs \<times> virtio, kstate) kres" where
  "boot_to_user lit regs L B r s =
     kbind (kernel_main lit regs L B s) (\<lambda>(fl, v) s.
       case fl of
         To_context i j \<Rightarrow> kbind (first_entry L i j r s) (\<lambda>r s. kret (r, v) s)
       | Ret _ \<Rightarrow> Inl Spin
       | To_user \<Rightarrow> Inl Undefined)"

section \<open>What stays as it is\<close>

lemma core_perform [core_simps]: "core (perform u s) = core s"
  by (cases u) (simp_all add: core_simps)

lemma core_printf: "uart_printf fmt args s = Some t \<Longrightarrow> core t = core s"
  using printf_loop_calls [of "mem s" fmt args s] by (auto simp: uart_printf_def core_simps)

lemma kept_uprint [keep_rules]: "core s = k \<Longrightarrow> kept k (uprint fmt args s)"
  by (auto simp: uprint_def kept_def core_printf split: option.splits)

lemma kept_date [keep_rules]:
  "core s = k \<Longrightarrow> kept k (lift_option (map_option (Pair ()) (date_time_test lit ampm s)))"
  by (auto simp: lift_option_def kept_def date_time_test_def print_datetime_def Let_def core_simps dest!: core_printf
      split: option.splits if_splits bind_splits)

lemma kept_scan [keep_rules]: "core s = k \<Longrightarrow> kept k (lift_option (virtio_bus_init_scan regs v s))"
  by (auto simp: lift_option_def virtio_bus_init_scan_def scan_slots_text Let_def core_simps
      simp del: bytes_of_simps split: option.splits)

lemma kept_log [keep_rules]: "core s = k \<Longrightarrow> kept k (log_info lit text v s)"
  by (simp add: log_info_def split: option.split)

lemma kept_boot_file [keep_rules]: "core s = k \<Longrightarrow> kept k (boot_file L name s)"
  by (simp add: boot_file_def split: option.split)

lemma kept_paging [keep_rules]: "core s = k \<Longrightarrow> kept k (paging_init L s)"
  by (auto simp: paging_init_def map_mmio_range_def Let_def core_simps intro!: keep_rules)

lemma kept_start_up: "core s = k \<Longrightarrow> kept k (start_up lit regs L B s)"
  by (auto simp: start_up_def trap_init_def stack_init_def ram_start_def heap_begin_def paging_start_def Let_def core_simps
      intro!: keep_rules)

lemma yield_again: "yield L s = kret (Ret ()) t \<Longrightarrow> yield L t = kret (Ret ()) t"
proof -
  assume run: "yield L s = kret (Ret ()) t"
  then obtain c where c: "current_proc s = Some c" and t: "t = wake_down c s"
    by (auto simp: yield_def Let_def split: option.splits if_splits)
  have "wake_down c t = t" using t by (cases "c < length (procs s)") (auto simp: wake_down_def upd_proc_def list_update_beyond)
  then show ?thesis using run c t by (simp add: yield_def)
qed

section \<open>The devices\<close>

text \<open>\<open>device_ok c v\<close>: the log is on exactly when there is a console, and nothing else was written.\<close>

definition device_ok :: "bool \<Rightarrow> virtio \<Rightarrow> bool" where
  "device_ok c v \<longleftrightarrow>
     emerg_ptr v = (if c then 0x10007108 else 0) \<and> (\<forall>w \<in> set (mmio_writes v). c \<and> fst w = 0x10007108)"

lemma log_info_device: "log_info lit text v s = Inr (v', t) \<Longrightarrow> device_ok c v \<Longrightarrow> device_ok c v' \<and> t = s"
  by (auto simp: log_info_def emerg_log_def emerg_puts_writes device_ok_def split: option.splits if_splits)

lemma start_up_device:
  assumes "start_up lit regs L B s = Inr (v, t)"
  shows "device_ok (list_ex (console_in regs) [0..<8]) v"
proof -
  obtain u where "virtio_bus_init_scan regs no_virtio u = Some (v, t)"
    using assms by (auto simp: start_up_def lift_option_def kbind_eq_Inr split: option.splits)
  moreover have "unat VIRTIO_MMIO_MAX_DEVICES = 8" by (simp add: VIRTIO_MMIO_MAX_DEVICES_def)
  ultimately have "v = (if list_ex (console_in regs) [0..<8] then found_console no_virtio else no_virtio)"
    by (simp add: virtio_bus_init_scan_def scan_slots_text Let_def del: bytes_of_simps upt_rec_numeral)
  then show ?thesis
    by (simp add: device_ok_def found_console_def no_virtio_def emerg_register_def VIRTIO_CONSOLE_BASE_def
        VIRTIO_MMIO_DEVICE_CONFIG_def EMERG_WR_def del: upt_rec_numeral)
qed

lemma start_programs_device:
  "start_programs lit L v s = Inr ((fl, v'), t) \<Longrightarrow> device_ok c v \<Longrightarrow> device_ok c v'"
  by (auto simp: start_programs_def kbind_eq_Inr Let_def dest!: log_info_device)

section \<open>The process table\<close>

lemma start_programs_sound:
  assumes ok: "kernel_ok s" and none: "current_proc s = None" "idle_proc s = None"
    and par: "\<And>i. i < PROCS_MAX \<Longrightarrow> p_parent (procs s ! i) = None"
  shows "sound (start_programs lit L v s)"
proof -
  have log: "kernel_ok t \<Longrightarrow> sound (log_info lit msg v t)" for t msg v
    by (rule sound_kept [OF kept_log [OF refl]])
  have shell: "sound (kbind (extract_flat_binary_from_elf L e True t) (\<lambda>j s.
      kbind (log_info lit ''[kernel_main] shell.elf loaded.'' w (name_proc j ''shell'' s)) (\<lambda>v s.
      kbind (log_info lit ''Start scheduler ...'' v s) (\<lambda>v s.
      kbind (yield L (timer_init s)) (\<lambda>fl s. kret (fl, v) s)))))"
    if "kernel_ok t" for t e w
  proof (rule ends_bind [OF extract_sound [OF that]])
    fix j u assume "kernel_ok u"
    then have u: "kernel_ok (name_proc j ''shell'' u)" by (auto simp: name_proc_def Let_def intro!: kernel_ok_upd_proc)
    show "sound (kbind (log_info lit ''[kernel_main] shell.elf loaded.'' w (name_proc j ''shell'' u)) (\<lambda>v s.
      kbind (log_info lit ''Start scheduler ...'' v s) (\<lambda>v s. kbind (yield L (timer_init s)) (\<lambda>fl s. kret (fl, v) s))))"
      by (intro ends_bind [OF log [OF u]] ends_bind [OF log] ends_bind [OF sound_yield]) (simp_all add: kernel_ok_ops)
  qed
  have idle: "kernel_ok (name_proc i ''idle'' (upd_proc i (\<lambda>p. p\<lparr>p_pid := 0\<rparr>) (u\<lparr>idle_proc := Some i\<rparr>))\<lparr>current_proc := Some i\<rparr>)"
    if t: "core t = core s" and run: "extract_flat_binary_from_elf L e True t = Inr (i, u)" for t e i u
  proof -
    have u: "kernel_ok u" using extract_sound [of t L e True] kernel_ok_cong [OF t] ok run by simp
    obtain fi n v where cr: "create_init_process L fi n v = Inr (i, u)" and v: "core v = core t"
      by (rule extract_creates [OF run])
    note pr = coreD [OF t] coreD [OF v]
    have iu: "i < PROCS_MAX" "p_state (procs u ! i) = PROC_RUNNABLE" "p_parent (procs u ! i) = None"
      using create_init_process_slot [OF cr] none pr par kernel_okD(1) [OF ok] by simp_all
    have "current_proc u = None" "idle_proc u = None"
      using create_init_process_sound [of v L fi n] cr none pr kernel_ok_cong [OF v] kernel_ok_cong [OF t] ok by simp_all
    then show ?thesis by (rule kernel_ok_idle [OF u _ _ iu])
  qed
  show ?thesis unfolding start_programs_def Let_def
  proof (rule ends_kept_bind [OF kept_boot_file [OF refl]])
    fix e t assume t: "core t = core s"
    show "sound (kbind (extract_flat_binary_from_elf L e True t) (\<lambda>i s.
        kbind (log_info lit ''[kernel_main] idle.elf loaded.'' v
            (name_proc i ''idle'' (upd_proc i (\<lambda>p. p\<lparr>p_pid := 0\<rparr>) (s\<lparr>idle_proc := Some i\<rparr>))\<lparr>current_proc := Some i\<rparr>)) (\<lambda>v s.
          kbind (boot_file L ''shell.elf'' s) (\<lambda>shell s.
          kbind (extract_flat_binary_from_elf L shell True s) (\<lambda>j s.
          kbind (log_info lit ''[kernel_main] shell.elf loaded.'' v (name_proc j ''shell'' s)) (\<lambda>v s.
          kbind (log_info lit ''Start scheduler ...'' v s) (\<lambda>v s.
          kbind (yield L (timer_init s)) (\<lambda>fl s. kret (fl, v) s))))))))"
    proof (cases "extract_flat_binary_from_elf L e True t")
      case (Inr q)
      obtain i u where q: "q = (i, u)" by (cases q)
      show ?thesis unfolding Inr q kbind_simps
        by (intro ends_bind [OF log [OF idle [OF t Inr [unfolded q]]]] ends_bind [OF sound_kept [OF kept_boot_file [OF refl]]] shell)
    qed simp
  qed
qed

section \<open>Properties\<close>

text \<open>
  Whatever is in memory, on the console, on the clock and on the virtio bus when the
  machine starts, the boot either panics, stops for good, or enters user mode at the load
  address, in a well-formed state: the current process is one in use, pids match the slots, and
  the tables have the sizes they have in C. Up to there the kernel has written to no device
  register but that of the emergency log, and to that one only when the bus has a console.
\<close>

theorem boot_well_formed:
  "case boot_to_user lit regs L B r (user_step m typed now (boot_state L)) of
     Inl e \<Rightarrow> True
   | Inr ((r', v), t) \<Rightarrow> kernel_ok t \<and> csr_sepc t = USER_BASE \<and>
       fst ` set (mmio_writes v) \<subseteq> (if list_ex (console_in regs) [0..<8] then {0x10007108} else {})"
proof (cases "boot_to_user lit regs L B r (user_step m typed now (boot_state L))")
  case (Inr q)
  let ?s = "user_step m typed now (boot_state L)" and ?c = "list_ex (console_in regs) [0..<8]"
  obtain r' v t where q: "q = ((r', v), t)" by (metis surj_pair)
  obtain fl x where km: "kernel_main lit regs L B ?s = Inr ((fl, v), x)"
    and fl: "(case fl of To_context i j \<Rightarrow> kbind (first_entry L i j r x) (\<lambda>r s. kret (r, v) s)
      | Ret _ \<Rightarrow> Inl Spin | To_user \<Rightarrow> Inl Undefined) = kret (r', v) t"
  proof -
    obtain fl w x where "kernel_main lit regs L B ?s = Inr ((fl, w), x)"
      and k: "(case fl of To_context i j \<Rightarrow> kbind (first_entry L i j r x) (\<lambda>r s. kret (r, w) s)
        | Ret _ \<Rightarrow> Inl Spin | To_user \<Rightarrow> Inl Undefined) = kret (r', v) t"
      using Inr q unfolding boot_to_user_def by (auto simp only: kbind_eq_Inr split_paired_Ex prod.case)
    moreover from k have "w = v" by (cases fl) (auto simp: kbind_eq_Inr)
    ultimately show thesis using that by blast
  qed
  then obtain i j where ij: "fl = To_context i j" and fe: "first_entry L i j r x = Inr (r', t)"
    by (cases fl) (auto simp: kbind_eq_Inr)
  obtain w u where up: "start_up lit regs L B ?s = Inr (w, u)"
    and run: "start_programs lit L w u = Inr ((To_context i j, v), x)"
    using km ij by (auto simp: kernel_main_def kbind_eq_Inr)
  have s: "kernel_ok ?s" by (simp add: user_step_def kernel_ok_ops kernel_ok_boot)
  have c: "core u = core ?s" by (rule keptD [OF kept_start_up [OF refl] up])
  have "sound (start_programs lit L w u)"
    using s c coreD [OF c] kernel_ok_cong [OF c]
    by (intro start_programs_sound) (simp_all add: user_step_def boot_state_def zero_proc_def)
  then have "kernel_ok x" unfolding run by simp
  then have "kernel_ok t" "csr_sepc t = USER_BASE"
    using fe by (auto simp: first_entry_def switch_context_sp_def user_entry_def sret_def Let_def kernel_ok_ops
        intro!: kernel_ok_upd_proc split: if_splits)
  moreover have "device_ok ?c v" by (rule start_programs_device [OF run start_up_device [OF up]])
  then have "fst ` set (mmio_writes v) \<subseteq> (if ?c then {0x10007108} else {})"
    unfolding device_ok_def by (intro subsetI) (auto simp del: upt_rec_numeral)
  ultimately show ?thesis using Inr q by simp
qed simp

end
