(* ===== verification/Exec_Args.thy ===== *)
theory Exec_Args
  imports Sys_Exec Sys_Ipc
begin

text \<open>
  What \<^verbatim>\<open>setup_user_arguments\<close> of \<^verbatim>\<open>kernel/arguments.c\<close> leaves on the stack of a new
  program. The stack is the user buffer of \<open>n\<close> bytes from \<^verbatim>\<open>g_user_stack_bottom\<close> on; a place
  on it is its offset from there.
\<close>

section \<open>Helpers\<close>

lemma mask_8: "unat (w AND NOT 7) = unat (w :: u64) div 8 * 8"
proof -
  have m: "(7 :: u64) = mask 3" by (simp add: mask_eq_exp_minus_1)
  have "w AND NOT 7 = push_bit 3 (drop_bit 3 w)"
    unfolding m by (rule bit_word_eqI) (auto simp: bit_simps)
  also have "\<dots> = w - take_bit 3 w" using bits_ident [of 3 w] by (simp add: eq_diff_eq)
  also have "\<dots> = w - w mod 8" by (simp add: take_bit_eq_mod)
  finally have e: "w AND NOT 7 = w - w mod 8" .
  have u: "unat (w mod 8) = unat w mod 8" by (simp add: unat_mod)
  then have le: "w mod 8 \<le> w" by (simp add: word_le_nat_alt)
  show ?thesis unfolding e unat_sub_u64 [OF le] u by (rule minus_mod_eq_div_mult)
qed

lemma strnlen_cstr:
  assumes "cstr_at m p bs" and "length bs < k" and "k < 2 ^ 64"
  shows "strnlen m p (of_nat k) = of_nat (length bs)"
proof -
  have u: "unat (of_nat i :: u64) = i" if "i \<le> k" for i using that assms(3) by (intro unat_of_nat_u64) simp
  have "strnlen_loop m p (of_nat k) (of_nat i) = of_nat (length bs)" if "i \<le> length bs" for i
    using that
  proof (induction "length bs - i" arbitrary: i)
    case 0
    then have "i = length bs" by simp
    then show ?case using assms(1) by (subst strnlen_loop.simps) (simp add: cstr_at_iff)
  next
    case (Suc d)
    then have i: "i < length bs" by simp
    then have "(of_nat i :: u64) < of_nat k" using assms(2) by (simp add: word_less_nat_alt u)
    moreover have "m (p + of_nat i) \<noteq> 0" using i assms(1) by (simp add: cstr_at_iff)
    ultimately have "strnlen_loop m p (of_nat k) (of_nat i) = strnlen_loop m p (of_nat k) (of_nat i + 1)"
      by (subst strnlen_loop.simps) simp
    also have "of_nat i + 1 = (of_nat (Suc i) :: u64)" by simp
    also have "strnlen_loop m p (of_nat k) (of_nat (Suc i)) = of_nat (length bs)"
      by (rule Suc.hyps) (use Suc.hyps(2) i in simp_all)
    finally show ?case .
  qed
  from this [of 0] show ?thesis by (simp add: strnlen_def)
qed

lemma concat_words_nth:
  "i < length ws \<Longrightarrow> t < 8 \<Longrightarrow> concat (map (word_bytes 8) ws) ! (8 * i + t) = word_bytes 8 (ws ! i) ! t"
proof (induction ws arbitrary: i)
  case (Cons w ws)
  have len: "length (word_bytes 8 w) = 8" by (simp add: word_bytes_def)
  show ?case using Cons len by (cases i) (simp_all add: nth_append)
qed simp

lemma length_concat_words: "length (concat (map (word_bytes 8) ws)) = 8 * length ws"
  by (induction ws) (simp_all add: word_bytes_def)

lemma user_buffer_sub:
  assumes "user_buffer acc s va n f" and "k + l \<le> n"
  shows "user_buffer acc s (va + of_nat k) l (\<lambda>i. f (k + i))"
proof -
  have e: "va + of_nat k + of_nat i = va + of_nat (k + i)" for i by simp
  have inj: "inj_on f {..<n}" using assms(1) by (simp add: user_buffer_def)
  have "inj_on (\<lambda>i. f (k + i)) {..<l}"
  proof (rule inj_onI)
    fix x y assume "x \<in> {..<l}" "y \<in> {..<l}" "f (k + x) = f (k + y)"
    then have "k + x = k + y" using assms(2) by (intro inj_onD [OF inj]) auto
    then show "x = y" by simp
  qed
  moreover have "k + i < n" if "i < l" for i using that assms(2) by simp
  ultimately show ?thesis using assms(1) unfolding user_buffer_def e by blast
qed

section \<open>The stack\<close>

text \<open>
  \<open>stack_window s\<close>: the stack can be written; \<open>placed m k args os\<close>: the strings \<open>args\<close> are on it
  with their NUL at the offsets \<open>os\<close>, all at or above \<open>k\<close>.
\<close>

definition stack_window :: "u64 \<Rightarrow> nat \<Rightarrow> (nat \<Rightarrow> u64) \<Rightarrow> kstate \<Rightarrow> bool" where
  "stack_window bottom n f s \<longleftrightarrow>
     g_user_stack_bottom s = bottom \<and> aligned8 bottom \<and> unat bottom + n < 2 ^ 64 \<and>
     user_buffer Store (enable_sum s) bottom n f"

definition placed :: "(nat \<Rightarrow> u64) \<Rightarrow> nat \<Rightarrow> mem \<Rightarrow> nat \<Rightarrow> u8 list list \<Rightarrow> nat list \<Rightarrow> bool" where
  "placed f n m k args os \<longleftrightarrow> length os = length args \<and>
     (\<forall>j < length args. k \<le> os ! j \<and> os ! j + length (args ! j) < n \<and>
       (\<forall>t \<le> length (args ! j). m (f (os ! j + t)) = (args ! j @ [0]) ! t))"

text \<open>The arguments in the page of the kernel, which is apart from the stack.\<close>

definition kernel_args :: "(nat \<Rightarrow> u64) \<Rightarrow> nat \<Rightarrow> mem \<Rightarrow> u64 \<Rightarrow> u8 list list \<Rightarrow> bool" where
  "kernel_args f n m buf args \<longleftrightarrow>
     (\<forall>i < length args. cstr_at m (buf + of_nat (i * MAX_ARG_LENGTH)) (args ! i) \<and>
        length (args ! i) < MAX_ARG_LENGTH) \<and>
     (\<forall>i < length args. \<forall>t < MAX_ARG_LENGTH. buf + of_nat (i * MAX_ARG_LENGTH) + of_nat t \<notin> f ` {..<n})"

text \<open>One write at offset \<open>k\<close>, between the two switches of \<^verbatim>\<open>SUM\<close>.\<close>

lemma stack_write:
  assumes w: "stack_window bottom n f s" and k: "k + length bs \<le> n"
  shows "\<exists>m st. user_write (bottom + of_nat k) bs (enable_sum s) =
      kret () ((enable_sum s)\<lparr>mem := m\<rparr>) \<and>
    disable_sum ((enable_sum s)\<lparr>mem := m\<rparr>) = s\<lparr>mem := m, csr_sstatus := st\<rparr> \<and>
    stack_window bottom n f (s\<lparr>mem := m, csr_sstatus := st\<rparr>) \<and>
    (\<forall>t < length bs. m (f (k + t)) = bs ! t) \<and>
    (\<forall>x. x \<notin> (\<lambda>t. f (k + t)) ` {..<length bs} \<longrightarrow> m x = mem s x)"
proof -
  have ub: "user_buffer Store (enable_sum s) bottom n f" using w by (simp add: stack_window_def)
  note b = user_buffer_sub [OF ub k]
  let ?g = "\<lambda>t. f (k + t)" and ?m = "put_bytes (\<lambda>t. f (k + t)) bs (mem s)"
  have run: "user_write (bottom + of_nat k) bs (enable_sum s) = kret () ((enable_sum s)\<lparr>mem := ?m\<rparr>)"
    using user_write_buffer [OF b] by simp
  have inj: "inj_on ?g {..<length bs}" using b by (simp add: user_buffer_def)
  note pb = put_bytes_apply [OF inj]
  let ?s = "disable_sum ((enable_sum s)\<lparr>mem := ?m\<rparr>)"
  have s: "?s = s\<lparr>mem := ?m, csr_sstatus := csr_sstatus ?s\<rparr>"
    by (simp add: disable_sum_def enable_sum_def)
  have "user_buffer Store (enable_sum ?s) bottom n f"
  proof (rule user_buffer_outside [OF ub, of "page_base ` f ` {..<n}"])
    show "same_outside (page_base ` f ` {..<n}) (mem (enable_sum s)) (mem (enable_sum ?s))"
      unfolding same_outside_def
    proof (intro allI impI)
      fix x assume "page_base x \<notin> page_base ` f ` {..<n}"
      then have "x \<notin> ?g ` {..<length bs}" using k by auto
      then show "mem (enable_sum ?s) x = mem (enable_sum s) x" using pb(2) by simp
    qed
    show "va_tables (enable_sum s) (bottom + of_nat i) \<inter> page_base ` f ` {..<n} = {}" if "i < n" for i
      using ub that by (auto simp: user_buffer_def)
    show "sum_bit (enable_sum ?s) = sum_bit (enable_sum s)" by simp
  qed simp
  moreover have "g_user_stack_bottom ?s = g_user_stack_bottom s" by (simp add: disable_sum_def enable_sum_def)
  ultimately have win: "stack_window bottom n f ?s" using w by (simp add: stack_window_def)
  show ?thesis
    using run s win pb by (intro exI [of _ ?m] exI [of _ "csr_sstatus ?s"]) auto
qed

text \<open>Moving the stack pointer down by \<open>len\<close> and to a multiple of 8.\<close>

lemma stack_down:
  assumes "aligned8 bottom" and "unat bottom + n < 2 ^ 64" and "k \<le> n" and "len \<le> k"
  shows "(bottom + of_nat k - of_nat len) AND NOT 7 = bottom + of_nat ((k - len) div 8 * 8)"
    and "\<not> bottom + of_nat ((k - len) div 8 * 8) < bottom"
proof -
  have u: "unat (bottom + of_nat j) = unat bottom + j" if "j \<le> n" for j
  proof -
    have "unat (of_nat j :: u64) = j" using that assms(2) by (intro unat_of_nat_u64) simp
    then show ?thesis using that assms(2) by (subst unat_add_u64) simp_all
  qed
  have d: "(k - len) div 8 * 8 \<le> n" using assms(3) by (meson diff_le_self div_times_less_eq_dividend le_trans)
  have e: "bottom + of_nat k - of_nat len = bottom + of_nat (k - len)" using assms(4) by (simp add: of_nat_diff)
  have "8 dvd unat bottom" using assms(1) by (simp add: aligned8_unat mod_eq_0_iff_dvd)
  then obtain q where q: "unat bottom = 8 * q" by (elim dvdE)
  have "(unat bottom + (k - len)) div 8 * 8 = unat bottom + (k - len) div 8 * 8"
    by (simp add: q)
  then have "unat ((bottom + of_nat k - of_nat len) AND NOT 7) = unat (bottom + of_nat ((k - len) div 8 * 8))"
    unfolding mask_8 e using u [OF d] u [of "k - len"] assms(3) by simp
  then show "(bottom + of_nat k - of_nat len) AND NOT 7 = bottom + of_nat ((k - len) div 8 * 8)"
    by (simp add: word_unat_eq_iff)
  show "\<not> bottom + of_nat ((k - len) div 8 * 8) < bottom"
    using u [OF d] by (simp add: word_less_nat_alt)
qed

text \<open>The loop over the strings.\<close>

lemma placed_mono: "placed f n m k args os \<Longrightarrow> k' \<le> k \<Longrightarrow> placed f n m k' args os"
  by (auto simp: placed_def)

lemma kernel_args_keep:
  assumes "kernel_args f n m buf args" and "\<And>x. x \<notin> f ` {..<n} \<Longrightarrow> m' x = m x"
  shows "kernel_args f n m' buf args"
proof -
  have "cstr_at m' (buf + of_nat (i * MAX_ARG_LENGTH)) (args ! i)" if "i < length args" for i
  proof -
    let ?a = "buf + of_nat (i * MAX_ARG_LENGTH)"
    have c: "cstr_at m ?a (args ! i)" "length (args ! i) < MAX_ARG_LENGTH"
      and out: "\<And>t. t < MAX_ARG_LENGTH \<Longrightarrow> ?a + of_nat t \<notin> f ` {..<n}"
      using assms(1) that by (auto simp: kernel_args_def)
    have "m' (?a + of_nat t) = m (?a + of_nat t)" if "t \<le> length (args ! i)" for t
      by (rule assms(2), rule out) (use that c(2) in simp)
    then show ?thesis using c(1) unfolding cstr_at_iff by simp
  qed
  then show ?thesis using assms(1) unfolding kernel_args_def by blast
qed

lemma push_args_spec:
  assumes "stack_window bottom n f s" and "kernel_args f n (mem s) buf args" and "i \<le> length args"
    and "placed f n (mem s) k (drop i args) os" and "k \<le> n" and "k mod 8 = 0" and "i * 128 \<le> k"
  shows "\<exists>k' os' m st. push_args buf i (bottom + of_nat k) (map (\<lambda>j. bottom + of_nat j) os) s =
      kret (bottom + of_nat k', map (\<lambda>j. bottom + of_nat j) os') (s\<lparr>mem := m, csr_sstatus := st\<rparr>) \<and>
    stack_window bottom n f (s\<lparr>mem := m, csr_sstatus := st\<rparr>) \<and> placed f n m k' args os' \<and>
    k' \<le> n \<and> k' mod 8 = 0 \<and> k - i * 128 \<le> k' \<and> (\<forall>x. x \<notin> f ` {..<n} \<longrightarrow> m x = mem s x)"
  using assms
proof (induction i arbitrary: s k os)
  case 0
  then show ?case
    by (intro exI [of _ k] exI [of _ os] exI [of _ "mem s"] exI [of _ "csr_sstatus s"]) simp
next
  case (Suc i)
  let ?arg = "buf + of_nat (i * MAX_ARG_LENGTH)" and ?bs = "args ! i"
  have i: "i < length args" using Suc.prems(3) by simp
  have c: "cstr_at (mem s) ?arg ?bs" "length ?bs < 128"
    using Suc.prems(2) i by (simp_all add: kernel_args_def MAX_ARG_LENGTH_def)
  let ?len = "length ?bs + 1" and ?d = "(k - (length ?bs + 1)) div 8 * 8"
  have len: "strnlen (mem s) ?arg (of_nat MAX_ARG_LENGTH) + 1 = of_nat ?len"
    using strnlen_cstr [OF c] by (simp add: MAX_ARG_LENGTH_def)
  have ulen: "unat (of_nat ?len :: u64) = ?len" using c(2) by (intro unat_of_nat_u64) simp
  have k: "?len \<le> k" using Suc.prems(7) c(2) by simp
  have w: "aligned8 bottom" "unat bottom + n < 2 ^ 64" "g_user_stack_bottom s = bottom"
    using Suc.prems(1) by (simp_all add: stack_window_def)
  note down = stack_down [OF w(1,2) Suc.prems(5) k]
  have bytes: "load_bytes (mem s) ?arg ?len = ?bs @ [0]"
    using c(1) by (intro nth_equalityI) (auto simp: cstr_at_iff nth_append less_Suc_eq)
  have d: "?d + ?len \<le> k" "k - 128 \<le> ?d"
  proof -
    show "?d + ?len \<le> k" using k div_times_less_eq_dividend [of "k - ?len" 8] by linarith
    have "8 dvd k" using Suc.prems(6) by (simp add: mod_eq_0_iff_dvd)
    then have "8 dvd k - 128" by (intro dvd_diff_nat) simp_all
    then have "(k - 128) div 8 * 8 = k - 128" by (rule dvd_div_mult_self)
    moreover have "(k - 128) div 8 \<le> (k - ?len) div 8" using c(2) by (intro div_le_mono) simp
    ultimately show "k - 128 \<le> ?d" by (metis mult_le_mono1)
  qed
  have "?d + length (?bs @ [0]) \<le> n" using d(1) Suc.prems(5) by simp
  from stack_write [OF Suc.prems(1) this] obtain m st where
    m: "user_write (bottom + of_nat ?d) (?bs @ [0]) (enable_sum s) = kret () ((enable_sum s)\<lparr>mem := m\<rparr>)"
      "disable_sum ((enable_sum s)\<lparr>mem := m\<rparr>) = s\<lparr>mem := m, csr_sstatus := st\<rparr>"
      "stack_window bottom n f (s\<lparr>mem := m, csr_sstatus := st\<rparr>)"
      "\<And>t. t < length (?bs @ [0]) \<Longrightarrow> m (f (?d + t)) = (?bs @ [0]) ! t"
      "\<And>x. x \<notin> (\<lambda>t. f (?d + t)) ` {..<length (?bs @ [0])} \<Longrightarrow> m x = mem s x" by blast
  let ?s = "s\<lparr>mem := m, csr_sstatus := st\<rparr>"
  have step: "push_args buf (Suc i) (bottom + of_nat k) (map (\<lambda>j. bottom + of_nat j) os) s =
      push_args buf i (bottom + of_nat ?d) (map (\<lambda>j. bottom + of_nat j) (?d # os)) ?s"
    unfolding push_args.simps Let_def len down(1) w(3) if_not_P [OF down(2)] ulen bytes m(1)
    by (simp add: m(2))
  have out: "m x = mem s x" if "x \<notin> f ` {..<n}" for x
    by (rule m(5)) (use that d(1) Suc.prems(5) in auto)
  have inj: "inj_on f {..<n}" using Suc.prems(1) by (simp add: stack_window_def user_buffer_def)
  have keep: "m (f j) = mem s (f j)" if "k \<le> j" "j < n" for j
  proof (rule m(5))
    show "f j \<notin> (\<lambda>t. f (?d + t)) ` {..<length (?bs @ [0])}"
    proof
      assume "f j \<in> (\<lambda>t. f (?d + t)) ` {..<length (?bs @ [0])}"
      then obtain t where t: "t < ?len" "f j = f (?d + t)" by auto
      then have "j = ?d + t" using that d(1) Suc.prems(5) by (intro inj_onD [OF inj]) auto
      then show False using t(1) that(1) d(1) by simp
    qed
  qed
  have "placed f n m ?d (drop i args) (?d # os)"
  proof -
    have dr: "drop i args = ?bs # drop (Suc i) args" using i by (rule Cons_nth_drop_Suc [symmetric])
    have "m (f (os ! j + t)) = (drop (Suc i) args ! j @ [0]) ! t"
      if "j < length (drop (Suc i) args)" "t \<le> length (drop (Suc i) args ! j)" for j t
      using Suc.prems(4) that keep [of "os ! j + t"] unfolding placed_def by auto
    moreover have "?d \<le> os ! j \<and> os ! j + length (drop (Suc i) args ! j) < n"
      if "j < length (drop (Suc i) args)" for j
      using Suc.prems(4) that d(1) unfolding placed_def by (meson add_leE le_trans)
    moreover have "length os = length (drop (Suc i) args)" using Suc.prems(4) by (simp add: placed_def)
    moreover have "?d + length ?bs < n" using d(1) Suc.prems(5) by simp
    moreover have "m (f (?d + t)) = (?bs @ [0]) ! t" if "t \<le> length ?bs" for t using m(4) [of t] that by simp
    ultimately show ?thesis unfolding dr placed_def by (auto simp: nth_Cons split: nat.split)
  qed
  moreover have "kernel_args f n (mem ?s) buf args" using kernel_args_keep [OF Suc.prems(2) out] by simp
  moreover have "?d \<le> n" "?d mod 8 = 0" "i * 128 \<le> ?d" using d Suc.prems(5,7) by simp_all
  ultimately obtain k' os' m' st' where r:
    "push_args buf i (bottom + of_nat ?d) (map (\<lambda>j. bottom + of_nat j) (?d # os)) ?s =
      kret (bottom + of_nat k', map (\<lambda>j. bottom + of_nat j) os') (?s\<lparr>mem := m', csr_sstatus := st'\<rparr>)"
    "stack_window bottom n f (?s\<lparr>mem := m', csr_sstatus := st'\<rparr>)" "placed f n m' k' args os'"
    "k' \<le> n" "k' mod 8 = 0" "?d - i * 128 \<le> k'" "\<forall>x. x \<notin> f ` {..<n} \<longrightarrow> m' x = m x"
    using Suc.IH [OF m(3), of ?d "?d # os"] i by auto
  have "k - Suc i * 128 \<le> k'" using r(6) d(2) by simp
  then show ?case
    unfolding step using r out
    by (intro exI [of _ k'] exI [of _ os'] exI [of _ m'] exI [of _ st']) simp
qed

section \<open>Properties\<close>

text \<open>What is written right below the strings leaves them alone.\<close>

lemma placed_kept:
  assumes "placed f n m k args os" and "inj_on f {..<n}"
    and out: "\<And>x. x \<notin> (\<lambda>t. f (k - l + t)) ` {..<l} \<Longrightarrow> m' x = m x" and "l \<le> k" and "k \<le> n"
  shows "placed f n m' k args os"
proof -
  have keep: "m' (f j) = m (f j)" if "k \<le> j" "j < n" for j
  proof (rule out)
    show "f j \<notin> (\<lambda>t. f (k - l + t)) ` {..<l}"
    proof
      assume "f j \<in> (\<lambda>t. f (k - l + t)) ` {..<l}"
      then obtain t where t: "t < l" "f j = f (k - l + t)" by auto
      then have "j = k - l + t" using that assms(4,5) by (intro inj_onD [OF assms(2)]) auto
      then show False using t(1) that(1) assms(4) by simp
    qed
  qed
  have "m' (f (os ! j + t)) = m (f (os ! j + t))" if "j < length args" "t \<le> length (args ! j)" for j t
  proof (rule keep)
    have "k \<le> os ! j" "os ! j + length (args ! j) < n" using assms(1) that(1) by (simp_all add: placed_def)
    then show "k \<le> os ! j + t" "os ! j + t < n" using that(2) by simp_all
  qed
  then show ?thesis using assms(1) unfolding placed_def by simp
qed

text \<open>
  C19: \<open>setup_user_arguments\<close> builds the argument vector of \<^verbatim>\<open>main\<close>: from a stack that can be
  written and has room, with at most \<^verbatim>\<open>MAX_ARGS\<close> strings shorter than 128 bytes, it returns an
  8-byte aligned address on the stack at which the vector lies: one pointer for each argument,
  in order, then \<^verbatim>\<open>NULL\<close>. Each pointer leads to a copy of its string with its NUL, on the
  stack and above the vector; nothing outside the stack is written.
\<close>

theorem setup_user_arguments_layout:
  assumes "stack_window bottom n f s" and "kernel_args f n (mem s) buf args"
    and "length args \<le> MAX_ARGS" and "n mod 8 = 0" and "length args * 136 + 8 \<le> n"
  shows "\<exists>v os m st. setup_user_arguments buf (length args) (bottom + of_nat n) s =
      kret (bottom + of_nat v) (s\<lparr>mem := m, csr_sstatus := st\<rparr>) \<and> v mod 8 = 0 \<and>
    v + 8 * (length args + 1) \<le> n \<and> placed f n m (v + 8 * (length args + 1)) args os \<and>
    (\<forall>i < length args. \<forall>t < 8. m (f (v + 8 * i + t)) = word_bytes 8 (bottom + of_nat (os ! i)) ! t) \<and>
    (\<forall>t < 8. m (f (v + 8 * length args + t)) = 0) \<and> (\<forall>x. x \<notin> f ` {..<n} \<longrightarrow> m x = mem s x)"
proof -
  let ?c = "length args" and ?len = "(length args + 1) * 8"
  have "placed f n (mem s) n (drop ?c args) []" by (simp add: placed_def)
  from push_args_spec [OF assms(1,2) order_refl this order_refl assms(4)] assms(5)
  obtain k os m st where p: "push_args buf ?c (bottom + of_nat n) [] s =
      kret (bottom + of_nat k, map (\<lambda>j. bottom + of_nat j) os) (s\<lparr>mem := m, csr_sstatus := st\<rparr>)"
    "stack_window bottom n f (s\<lparr>mem := m, csr_sstatus := st\<rparr>)" "placed f n m k args os"
    "k \<le> n" "k mod 8 = 0" "n - ?c * 128 \<le> k" "\<forall>x. x \<notin> f ` {..<n} \<longrightarrow> m x = mem s x"
    by auto
  let ?s = "s\<lparr>mem := m, csr_sstatus := st\<rparr>" and ?ws = "map (\<lambda>j. bottom + of_nat j) os @ [0 :: u64]"
  let ?bs = "concat (map (word_bytes 8) ?ws)"
  have len_os: "length os = ?c" using p(3) by (simp add: placed_def)
  have room: "?len \<le> k" using p(6) assms(5) by simp
  have w: "aligned8 bottom" "unat bottom + n < 2 ^ 64" "g_user_stack_bottom ?s = bottom"
    using p(2) by (simp_all add: stack_window_def)
  have "8 dvd k" using p(5) by (simp add: mod_eq_0_iff_dvd)
  then have "8 dvd k - ?len" by (intro dvd_diff_nat) simp_all
  then have d: "(k - ?len) div 8 * 8 = k - ?len" by (rule dvd_div_mult_self)
  note down = stack_down [OF w(1,2) p(4) room, unfolded d]
  have len: "length ?bs = ?len" by (simp only: length_concat_words) (simp add: len_os)
  have "k - ?len + length ?bs \<le> n" using room p(4) len by simp
  from stack_write [OF p(2) this] obtain m' st' where
    m: "user_write (bottom + of_nat (k - ?len)) ?bs (enable_sum ?s) = kret () ((enable_sum ?s)\<lparr>mem := m'\<rparr>)"
      "disable_sum ((enable_sum ?s)\<lparr>mem := m'\<rparr>) = ?s\<lparr>mem := m', csr_sstatus := st'\<rparr>"
      "\<And>t. t < length ?bs \<Longrightarrow> m' (f (k - ?len + t)) = ?bs ! t"
      "\<And>x. x \<notin> (\<lambda>t. f (k - ?len + t)) ` {..<length ?bs} \<Longrightarrow> m' x = mem ?s x" by blast
  have "setup_user_arguments buf ?c (bottom + of_nat n) s =
      kret (bottom + of_nat (k - ?len)) (s\<lparr>mem := m', csr_sstatus := st'\<rparr>)"
    using assms(3) p(1) down m(1,2) w(3) by (simp add: setup_user_arguments_def Let_def not_le [symmetric])
  moreover have "(k - ?len) mod 8 = 0" using \<open>8 dvd k - ?len\<close> by (simp add: mod_eq_0_iff_dvd)
  moreover have top: "k - ?len + 8 * (?c + 1) = k" using room by simp
  moreover have "placed f n m' k args os"
  proof (rule placed_kept [OF p(3)])
    show "inj_on f {..<n}" using p(2) by (simp add: stack_window_def user_buffer_def)
    show "m' x = m x" if "x \<notin> (\<lambda>t. f (k - ?len + t)) ` {..<?len}" for x using m(4) that unfolding len by simp
  qed (use room p(4) in simp_all)
  moreover have "m' (f (k - ?len + 8 * i + t)) = word_bytes 8 (?ws ! i) ! t" if "i \<le> ?c" "t < 8" for i t
  proof -
    have "8 * i + t < length ?bs" unfolding len using that by simp
    then have "m' (f (k - ?len + (8 * i + t))) = ?bs ! (8 * i + t)" by (rule m(3))
    also have "\<dots> = word_bytes 8 (?ws ! i) ! t" using that len_os by (intro concat_words_nth) simp_all
    finally show ?thesis by (simp add: add.assoc)
  qed
  note ptr = this
  moreover have "word_bytes 8 (?ws ! i) = word_bytes 8 (bottom + of_nat (os ! i))" if "i < ?c" for i
    using that len_os by (simp add: nth_append)
  moreover have "m' (f (k - ?len + 8 * ?c + t)) = 0" if "t < 8" for t
    using ptr [of ?c t] that len_os by (simp add: nth_append word_bytes_def)
  moreover have "m' x = mem s x" if "x \<notin> f ` {..<n}" for x
  proof -
    have "x \<notin> (\<lambda>t. f (k - ?len + t)) ` {..<length ?bs}" using that room p(4) unfolding len by auto
    then show ?thesis using m(4) p(7) that by simp
  qed
  ultimately show ?thesis
    using p(4) by (intro exI [of _ "k - ?len"] exI [of _ os] exI [of _ m'] exI [of _ st']) (simp only: top, simp)
qed

text \<open>Two short strings in a page of the kernel and an empty stack, without translation, for the witness.\<close>

definition args_state :: kstate where
  "args_state = (boot_state kernel_map)\<lparr>g_user_stack_bottom := 0x1010000,
     mem := poke (poke (\<lambda>_. 0) 0x80500000 (bytes_of ''ls'')) 0x80500080 (bytes_of ''-l'')\<rparr>"

lemma args_state_ready:
  "stack_window 0x1010000 4096 (\<lambda>i. 0x1010000 + of_nat i) args_state"
  "kernel_args (\<lambda>i. 0x1010000 + of_nat i) 4096 (mem args_state) 0x80500000 [bytes_of ''ls'', bytes_of ''-l'']"
proof -
  have u: "unat (0x1010000 + of_nat i :: u64) = 0x1010000 + i" if "i < 4096" for i
  proof -
    have i: "unat (of_nat i :: u64) = i" by (rule unat_of_nat_u64) (use that in simp)
    have b: "unat (0x1010000 :: u64) = 0x1010000" by simp
    have "unat (0x1010000 :: u64) + unat (of_nat i :: u64) < 2 ^ 64" unfolding i b using that by simp
    from unat_add_u64 [OF this] show ?thesis unfolding i b .
  qed
  have "user_buffer Store (enable_sum args_state) 0x1010000 4096 (\<lambda>i. 0x1010000 + of_nat i)"
    by (rule bare_buffer) (simp_all add: args_state_def boot_state_def enable_sum_def)
  then show "stack_window 0x1010000 4096 (\<lambda>i. 0x1010000 + of_nat i) args_state"
    by (simp add: stack_window_def args_state_def aligned8_def)
  have out: "0x80500000 + of_nat (i * 128) + of_nat t \<notin> (\<lambda>i. 0x1010000 + of_nat i :: u64) ` {..<4096}"
    if "i < 2" "t < 128" for i t
  proof
    assume "0x80500000 + of_nat (i * 128) + of_nat t \<in> (\<lambda>i. 0x1010000 + of_nat i :: u64) ` {..<4096}"
    then obtain j where j: "j < 4096" "0x80500000 + of_nat (i * 128 + t) = (0x1010000 + of_nat j :: u64)"
      by (auto simp: add.assoc)
    have "unat (of_nat (i * 128 + t) :: u64) = i * 128 + t" using that by (intro unat_of_nat_u64) simp
    then have "unat (0x80500000 + of_nat (i * 128 + t) :: u64) = 0x80500000 + (i * 128 + t)"
      using that by (subst unat_add_u64) simp_all
    then have "0x80500000 + (i * 128 + t) = 0x1010000 + j" unfolding j(2) u [OF j(1)] by (rule sym)
    then show False using j(1) by simp
  qed
  have str: "cstr_at (mem args_state) 0x80500000 (bytes_of ''ls'')"
    "cstr_at (mem args_state) 0x80500080 (bytes_of ''-l'')"
    by (simp_all add: args_state_def poke_def)
  show "kernel_args (\<lambda>i. 0x1010000 + of_nat i) 4096 (mem args_state) 0x80500000
      [bytes_of ''ls'', bytes_of ''-l'']"
    unfolding kernel_args_def
  proof (rule conjI)
    show "\<forall>i < length [bytes_of ''ls'', bytes_of ''-l'']. \<forall>t < MAX_ARG_LENGTH.
        0x80500000 + of_nat (i * MAX_ARG_LENGTH) + of_nat t \<notin> (\<lambda>i. 0x1010000 + of_nat i :: u64) ` {..<4096}"
      unfolding MAX_ARG_LENGTH_def by (intro allI impI out) simp_all
  qed (use str in \<open>auto simp: MAX_ARG_LENGTH_def less_Suc_eq\<close>)
qed

theorem setup_user_arguments_layout_witness:
  "\<exists>v os s'. setup_user_arguments 0x80500000 2 0x1011000 args_state = kret (0x1010000 + of_nat v) s' \<and>
     v mod 8 = 0 \<and> placed (\<lambda>i. 0x1010000 + of_nat i) 4096 (mem s') (v + 24) [bytes_of ''ls'', bytes_of ''-l''] os"
proof -
  have "length [bytes_of ''ls'', bytes_of ''-l''] \<le> MAX_ARGS" "(4096 :: nat) mod 8 = 0"
    "length [bytes_of ''ls'', bytes_of ''-l''] * 136 + 8 \<le> 4096" by (simp_all add: MAX_ARGS_def)
  from setup_user_arguments_layout [OF args_state_ready this] obtain v os m st where
    "setup_user_arguments 0x80500000 2 (0x1010000 + of_nat 4096) args_state =
      kret (0x1010000 + of_nat v) (args_state\<lparr>mem := m, csr_sstatus := st\<rparr>)" "v mod 8 = 0"
    "placed (\<lambda>i. 0x1010000 + of_nat i) 4096 m (v + 8 * (2 + 1)) [bytes_of ''ls'', bytes_of ''-l''] os"
    by (auto simp: numeral_2_eq_2)
  then show ?thesis
    by (intro exI [of _ v] exI [of _ os] exI [of _ "args_state\<lparr>mem := m, csr_sstatus := st\<rparr>"]) simp
qed

end
