(* ===== verification/Teardown.thy ===== *)
theory Teardown
  imports Proc_Create
begin

text \<open>
  \<^verbatim>\<open>process_free_userspace\<close> gives back every page of an address space: first the user
  pages, then the tables, then the root, and the recursion of \<^verbatim>\<open>free_pagetable\<close> ends
  within the fuel of the model.
\<close>

section \<open>The tables below a table\<close>

primrec sub :: "mem \<Rightarrow> u64 \<Rightarrow> nat \<Rightarrow> u64 set" where
  "sub m t 0 = {}"
| "sub m t (Suc l) =
     (\<Union>i \<in> {i. i < 512 \<and> pte_read m t i AND PTE_V \<noteq> 0}.
        insert (PTE2PA (pte_read m t i)) (sub m (PTE2PA (pte_read m t i)) l))"

abbreviation child :: "mem \<Rightarrow> u64 \<Rightarrow> u64 \<Rightarrow> u64" where
  "child m t i \<equiv> PTE2PA (pte_read m t i)"

abbreviation clan :: "mem \<Rightarrow> u64 \<Rightarrow> nat \<Rightarrow> u64 set" where
  "clan m t l \<equiv> insert t (sub m t l)"

text \<open>
  \<open>pt_wf m t l\<close>: below \<open>t\<close>, a table of level \<open>l\<close>, every table is reached once, and every
  leaf is a mapping of the kernel.
\<close>

primrec pt_wf :: "mem \<Rightarrow> u64 \<Rightarrow> nat \<Rightarrow> bool" where
  "pt_wf m t 0 \<longleftrightarrow>
     (\<forall>i < 512. pte_read m t i AND PTE_V \<noteq> 0 \<longrightarrow>
        pte_read m t i AND (PTE_R OR PTE_W OR PTE_X) \<noteq> 0 \<and> pte_read m t i AND PTE_U = 0)"
| "pt_wf m t (Suc l) \<longleftrightarrow>
     (\<forall>i < 512. pte_read m t i AND PTE_V \<noteq> 0 \<longrightarrow>
        pt_wf m (child m t i) l \<and> t \<notin> clan m (child m t i) l \<and> child m t i \<notin> sub m (child m t i) l \<and>
        (\<forall>j < 512. pte_read m t j AND PTE_V \<noteq> 0 \<longrightarrow> j \<noteq> i \<longrightarrow>
           clan m (child m t i) l \<inter> clan m (child m t j) l = {}))"

lemma sub_outside:
  assumes "same_outside P m m'" and "page_aligned t" and "clan m t l \<inter> P = {}"
  shows "sub m' t l = sub m t l \<and> pt_wf m' t l = pt_wf m t l"
  using assms(2,3)
proof (induction l arbitrary: t)
  case 0
  have "pte_read m' t i = pte_read m t i" if "i < 512" for i
    using 0 that by (intro pte_read_outside [OF assms(1)]) auto
  then show ?case by simp
next
  case (Suc l)
  have rd: "pte_read m' t i = pte_read m t i" if "i < 512" for i
    using Suc.prems that by (intro pte_read_outside [OF assms(1)]) auto
  have ih: "sub m' (child m t i) l = sub m (child m t i) l"
      "pt_wf m' (child m t i) l = pt_wf m (child m t i) l"
    if "i < 512" "pte_read m t i AND PTE_V \<noteq> 0" for i
  proof -
    have "clan m (child m t i) l \<subseteq> sub m t (Suc l)" using that by auto
    then have "clan m (child m t i) l \<inter> P = {}" using Suc.prems(2) by blast
    from Suc.IH [OF _ this] show "sub m' (child m t i) l = sub m (child m t i) l"
      and "pt_wf m' (child m t i) l = pt_wf m (child m t i) l" by simp_all
  qed
  have "sub m' t (Suc l) = sub m t (Suc l)" using rd ih by (auto cong: conj_cong)
  moreover have "pt_wf m' t (Suc l) = pt_wf m t (Suc l)" using rd ih by (simp cong: imp_cong)
  ultimately show ?case by blast
qed

section \<open>\<^verbatim>\<open>free_pagetable\<close>\<close>

text \<open>One round of the loop, and the state after the first \<open>n\<close> entries.\<close>

definition free_entry_pt :: "nat \<Rightarrow> u64 \<Rightarrow> int \<Rightarrow> nat \<Rightarrow> kstate \<Rightarrow> (unit, kstate) kres" where
  "free_entry_pt fuel pt lvl i s =
     (let e = pte_read (mem s) pt (of_nat i) in
      if e AND PTE_V = 0 then kret () s
      else
        (let child_pa = PTE2PA e in
         kbind
           (if e AND (PTE_R OR PTE_W OR PTE_X) \<noteq> 0 \<and> lvl = 0
            then (if e AND PTE_U \<noteq> 0 then kret () (free_page child_pa s) else kret () s)
            else kbind (free_pagetable fuel child_pa (lvl - 1) s) (\<lambda>_ s. kret () (free_page child_pa s)))
           (\<lambda>_ s. kret () (pte_write pt (of_nat i) 0 s))))"

lemma free_pagetable_Suc:
  "free_pagetable (Suc fuel) pt lvl s =
    fold (\<lambda>i r. kbind r (\<lambda>_ s. free_entry_pt fuel pt lvl i s)) [0..<512] (kret () s)"
  unfolding free_entry_pt_def by (rule free_pagetable.simps(2))

definition below :: "mem \<Rightarrow> u64 \<Rightarrow> nat \<Rightarrow> nat \<Rightarrow> u64 set" where
  "below m t l n =
     (case l of 0 \<Rightarrow> {} | Suc k \<Rightarrow>
       (\<Union>i \<in> {i. i < of_nat n \<and> pte_read m t i AND PTE_V \<noteq> 0}. clan m (child m t i) k))"

lemma below_simps:
  "below m t l 0 = {}" "below m t l 512 = sub m t l" "below m t 0 n = {}"
  by (auto simp: below_def split: nat.split)

lemma below_Suc:
  assumes "n < 512"
  shows "below m t (Suc k) (Suc n) =
    below m t (Suc k) n \<union>
      (if pte_read m t (of_nat n) AND PTE_V \<noteq> 0 then clan m (child m t (of_nat n)) k else {})"
proof -
  have n: "unat (of_nat n :: u64) = n" "unat (of_nat (Suc n) :: u64) = Suc n"
    using assms by (intro unat_of_nat_u64; simp)+
  then have "i < of_nat (Suc n) \<longleftrightarrow> i < of_nat n \<or> i = of_nat n" for i :: u64
    by (auto simp: word_less_nat_alt word_unat_eq_iff)
  then show ?thesis by (auto simp: below_def)
qed

lemma of_nat_less_512: "n \<le> 512 \<Longrightarrow> i < of_nat n \<Longrightarrow> i < (512 :: u64)"
proof -
  assume n: "n \<le> 512" and i: "i < of_nat n"
  have "unat (of_nat n :: u64) = n" using n by (intro unat_of_nat_u64) simp
  then show ?thesis using n i by (simp add: word_less_nat_alt)
qed

lemma below_sub: "n \<le> 512 \<Longrightarrow> below m t l n \<subseteq> sub m t l"
  using of_nat_less_512 [of n] by (cases l) (auto simp: below_def)

lemma pt_wf_root:
  assumes "pt_wf m t l"
  shows "t \<notin> sub m t l"
  using assms by (cases l) auto

definition torn :: "linker_syms \<Rightarrow> u64 \<Rightarrow> nat \<Rightarrow> kstate \<Rightarrow> nat \<Rightarrow> kstate \<Rightarrow> bool" where
  "torn L t l s n u \<longleftrightarrow>
     pool_ok L u \<and> owned L u = owned L s - below (mem s) t l n \<and>
     same_outside (insert t (below (mem s) t l n)) (mem s) (mem u) \<and>
     (\<forall>i < 512. of_nat n \<le> i \<longrightarrow> pte_read (mem u) t i = pte_read (mem s) t i) \<and>
     proc_view u = proc_view s"

text \<open>Clearing the entry keeps it.\<close>

lemma torn_clear:
  assumes wf: "pt_wf (mem s) t l" and t: "t \<in> owned L s" and n: "n < 512"
    and v: "torn L t l s (Suc n) v"
  shows "torn L t l s (Suc n) (pte_write t (of_nat n) 0 v)"
proof -
  have "t \<notin> below (mem s) t l (Suc n)" using pt_wf_root [OF wf] below_sub [of "Suc n" "mem s" t l] n by auto
  then have tv: "t \<in> owned L v" and ok: "pool_ok L v" using v t by (simp_all add: torn_def)
  have un: "unat (of_nat n :: u64) = n" "unat (of_nat (Suc n) :: u64) = Suc n"
    using n by (intro unat_of_nat_u64; simp)+
  then have i: "of_nat n < (512 :: u64)" using n by (simp add: word_less_nat_alt)
  note w = pte_write_pool [OF ok tv i, of 0]
  have "same_outside (insert t (below (mem s) t l (Suc n))) (mem s) (mem (pte_write t (of_nat n) 0 v))"
    using v same_outside_trans [OF _ w(3)] by (fastforce simp: torn_def intro: same_outside_mono)
  moreover have "pte_read (mem (pte_write t (of_nat n) 0 v)) t j = pte_read (mem s) t j"
    if "j < 512" "of_nat (Suc n) \<le> j" for j
  proof -
    have "j \<noteq> of_nat n" using that(2) un by (auto simp: word_le_nat_alt)
    then show ?thesis using v that i owned_props(1) [OF ok tv] by (simp add: pte_read_write torn_def)
  qed
  ultimately show ?thesis using v w by (simp add: torn_def)
qed

lemma torn_skip:
  assumes "torn L t l s n u" and "n < 512"
    and "pte_read (mem s) t (of_nat n) AND PTE_V = 0 \<or> l = 0"
  shows "torn L t l s (Suc n) u"
proof -
  have "below (mem s) t l (Suc n) = below (mem s) t l n"
    using assms(2,3) by (cases l) (auto simp: below_simps below_Suc)
  moreover have "of_nat n \<le> i" if "of_nat (Suc n) \<le> i" for i :: u64
  proof -
    have "unat (of_nat n :: u64) = n" "unat (of_nat (Suc n) :: u64) = Suc n"
      using assms(2) by (intro unat_of_nat_u64; simp)+
    then show ?thesis using that by (simp add: word_le_nat_alt)
  qed
  ultimately show ?thesis using assms(1) by (simp add: torn_def)
qed

lemma torn_loop:
  assumes ok: "pool_ok L s"
    and step: "\<And>n u. n < 512 \<Longrightarrow> torn L t l s n u \<Longrightarrow>
      \<exists>v. free_entry_pt f t (int l) n u = Inr ((), v) \<and> torn L t l s (Suc n) v"
  shows "\<exists>u. free_pagetable (Suc f) t (int l) s = Inr ((), u) \<and> torn L t l s 512 u"
proof -
  have "n \<le> 512 \<Longrightarrow> \<exists>u. fold (\<lambda>i r. kbind r (\<lambda>_ s. free_entry_pt f t (int l) i s)) [0..<n] (kret () s) =
      Inr ((), u) \<and> torn L t l s n u" for n
  proof (induction n)
    case 0
    then show ?case using ok by (simp add: torn_def below_simps)
  next
    case (Suc n)
    then obtain u where u: "fold (\<lambda>i r. kbind r (\<lambda>_ s. free_entry_pt f t (int l) i s)) [0..<n] (kret () s) =
        Inr ((), u)" "torn L t l s n u" by auto
    obtain v where "free_entry_pt f t (int l) n u = Inr ((), v)" "torn L t l s (Suc n) v"
      using step [OF _ u(2)] Suc.prems by auto
    with u(1) show ?case by simp
  qed
  from this [of 512] show ?thesis unfolding free_pagetable_Suc by simp
qed

text \<open>The recursion: every table below \<open>t\<close> is freed, and nothing outside is written.\<close>

lemma free_pagetable_spec:
  assumes "pool_ok L s" and "clan (mem s) t l \<subseteq> owned L s" and "pt_wf (mem s) t l" and "l < fuel"
  shows "\<exists>s'. free_pagetable fuel t (int l) s = Inr ((), s') \<and> torn L t l s 512 s'"
  using assms
proof (induction l arbitrary: fuel t s)
  case 0
  obtain f where f: "fuel = Suc f" using 0(4) by (cases fuel) auto
  show ?case
    unfolding f
  proof (rule torn_loop [OF 0(1)])
    fix n u assume n: "n < 512" and u: "torn L t 0 s n u"
    have "unat (of_nat n :: u64) = n" using n by (intro unat_of_nat_u64) simp
    then have i: "of_nat n < (512 :: u64)" using n by (simp add: word_less_nat_alt)
    have rd: "pte_read (mem u) t (of_nat n) = pte_read (mem s) t (of_nat n)" using u i by (simp add: torn_def)
    note sk = torn_skip [OF u n]
    have t: "t \<in> owned L s" using 0(2) by simp
    show "\<exists>v. free_entry_pt f t (int 0) n u = Inr ((), v) \<and> torn L t 0 s (Suc n) v"
    proof (cases "pte_read (mem s) t (of_nat n) AND PTE_V = 0")
      case True
      then show ?thesis using sk by (simp add: free_entry_pt_def rd)
    next
      case False
      have e: "pte_read (mem s) t (of_nat n) AND (PTE_R OR PTE_W OR PTE_X) \<noteq> 0"
          "pte_read (mem s) t (of_nat n) AND PTE_U = 0"
        using 0(3) False i by auto
      have "free_entry_pt f t (int 0) n u = kret () (pte_write t (of_nat n) 0 u)"
        unfolding free_entry_pt_def Let_def rd if_not_P [OF False] using e by simp
      then show ?thesis using torn_clear [OF 0(3) t n sk] by simp
    qed
  qed
next
  case (Suc l)
  obtain f where f: "fuel = Suc f" "l < f" using Suc.prems(4) by (cases fuel) auto
  have t: "t \<in> owned L s" using Suc.prems(2) by simp
  show ?case
    unfolding f
  proof (rule torn_loop [OF Suc.prems(1)])
    fix n u assume n: "n < 512" and u: "torn L t (Suc l) s n u"
    have un: "unat (of_nat n :: u64) = n" using n by (intro unat_of_nat_u64) simp
    then have i: "of_nat n < (512 :: u64)" using n by (simp add: word_less_nat_alt)
    have rd: "pte_read (mem u) t (of_nat n) = pte_read (mem s) t (of_nat n)" using u i by (simp add: torn_def)
    show "\<exists>v. free_entry_pt f t (int (Suc l)) n u = Inr ((), v) \<and> torn L t (Suc l) s (Suc n) v"
    proof (cases "pte_read (mem s) t (of_nat n) AND PTE_V = 0")
      case True
      then show ?thesis using torn_skip [OF u n] by (simp add: free_entry_pt_def rd)
    next
      case False
      let ?c = "child (mem s) t (of_nat n)"
      let ?C = "clan (mem s) ?c l" and ?B = "below (mem s) t (Suc l) n"
      have wf: "pt_wf (mem s) ?c l" "t \<notin> ?C" "?c \<notin> sub (mem s) ?c l"
        using Suc.prems(3) i False by auto
      have disj: "?C \<inter> ?B = {}"
      proof -
        have "?C \<inter> clan (mem s) (child (mem s) t j) l = {}"
          if "j < of_nat n" "pte_read (mem s) t j AND PTE_V \<noteq> 0" for j
        proof -
          have "j < 512" using that(1) i by simp
          moreover have "j \<noteq> of_nat n" using that(1) by simp
          ultimately show ?thesis using Suc.prems(3) i False that(2) by simp
        qed
        then show ?thesis unfolding below_def nat.case by blast
      qed
      have "?C \<subseteq> sub (mem s) t (Suc l)" using i False by auto
      then have Cs: "?C \<subseteq> owned L s" using Suc.prems(2) by auto
      have ou: "pool_ok L u" "owned L u = owned L s - ?B" "same_outside (insert t ?B) (mem s) (mem u)"
        "proc_view u = proc_view s" using u by (simp_all add: torn_def)
      have "?C \<inter> insert t ?B = {}" unfolding Int_insert_right_if0 [OF wf(2)] by (rule disj)
      note so = sub_outside [OF ou(3) page_aligned_PTE2PA this]
      have eq: "sub (mem u) ?c l = sub (mem s) ?c l" "pt_wf (mem u) ?c l"
        using so wf(1) by blast+
      have Cu: "clan (mem u) ?c l \<subseteq> owned L u" using eq(1) Cs disj ou(2) by auto
      obtain v where v: "free_pagetable f ?c (int l) u = Inr ((), v)" "torn L ?c l u 512 v"
        using Suc.IH [OF ou(1) Cu eq(2) f(2)] by blast
      have ov: "pool_ok L v" "owned L v = owned L u - sub (mem s) ?c l"
        "same_outside ?C (mem u) (mem v)" "proc_view v = proc_view s"
        using v(2) eq(1) ou(4) by (simp_all add: torn_def below_simps)
      have cv: "?c \<in> owned L v" using ov(2) Cu wf(3) by auto
      note fp = free_page_spec [OF ov(1) cv]
      let ?w = "free_page ?c v"
      have Bn: "below (mem s) t (Suc l) (Suc n) = ?B \<union> ?C" using below_Suc [OF n] False by simp
      have out: "same_outside ?C (mem u) (mem ?w)"
        using same_outside_trans [OF ov(3) fp(3)] by (rule same_outside_mono) blast
      have "torn L t (Suc l) s (Suc n) ?w"
        unfolding torn_def Bn
      proof (intro conjI allI impI)
        show "pool_ok L ?w" by (rule fp(1))
        show "owned L ?w = owned L s - (?B \<union> ?C)" using fp(2) ov(2) ou(2) by blast
        show "same_outside (insert t (?B \<union> ?C)) (mem s) (mem ?w)"
          using same_outside_trans [OF ou(3) out] by (rule same_outside_mono) blast
        show "proc_view ?w = proc_view s" using fp(4) ov(4) by simp
        fix j :: u64
        assume j: "j < 512" "of_nat (Suc n) \<le> j"
        have "pte_read (mem ?w) t j = pte_read (mem u) t j"
          by (rule pte_read_outside [OF out owned_props(1) [OF Suc.prems(1) t] j(1) wf(2)])
        also have "of_nat n \<le> j"
        proof -
          have "unat (of_nat (Suc n) :: u64) = Suc n" using n by (intro unat_of_nat_u64) simp
          then show ?thesis using j(2) un by (simp add: word_le_nat_alt)
        qed
        then have "pte_read (mem u) t j = pte_read (mem s) t j" using u j(1) by (simp add: torn_def)
        finally show "pte_read (mem ?w) t j = pte_read (mem s) t j" .
      qed
      moreover have "free_entry_pt f t (int (Suc l)) n u = kret () (pte_write t (of_nat n) 0 ?w)"
        unfolding free_entry_pt_def Let_def rd if_not_P [OF False] using v(1) by simp
      ultimately show ?thesis using torn_clear [OF Suc.prems(3) t n] by simp
    qed
  qed
qed

section \<open>The tables of a tree\<close>

lemma sub_path:
  "u \<in> sub m t l \<longleftrightarrow>
     (\<exists>i js. length js < l \<and> i < 512 \<and> (\<forall>j \<in> set js. j < 512) \<and> table_of m t (i # js) = Some u)"
proof (induction l arbitrary: t)
  case 0
  then show ?case by simp
next
  case (Suc l)
  have "u \<in> clan m c l \<longleftrightarrow> (\<exists>js. length js < Suc l \<and> (\<forall>j \<in> set js. j < 512) \<and> table_of m c js = Some u)" for c
  proof
    assume "u \<in> clan m c l"
    then consider "u = c" | "u \<in> sub m c l" by blast
    then show "\<exists>js. length js < Suc l \<and> (\<forall>j \<in> set js. j < 512) \<and> table_of m c js = Some u"
    proof cases
      case 1
      then show ?thesis by (intro exI [of _ "[]"]) simp
    next
      case 2
      then obtain i js where "length js < l" "i < 512" "\<forall>j \<in> set js. j < 512" "table_of m c (i # js) = Some u"
        using Suc.IH by blast
      then show ?thesis by (intro exI [of _ "i # js"]) simp
    qed
  next
    assume "\<exists>js. length js < Suc l \<and> (\<forall>j \<in> set js. j < 512) \<and> table_of m c js = Some u"
    then obtain js where js: "length js < Suc l" "\<forall>j \<in> set js. j < 512" "table_of m c js = Some u" by blast
    show "u \<in> clan m c l"
    proof (cases js)
      case Nil
      then show ?thesis using js by simp
    next
      case (Cons i ks)
      then have "u \<in> sub m c l" using Suc.IH js by auto
      then show ?thesis by simp
    qed
  qed
  then show ?case by (auto simp: table_of.simps(2) Let_def split: if_splits)
qed

lemma tables_sub: "tables m root = clan m root 2"
proof (rule set_eqI)
  fix u
  have "u \<in> tables m root \<longleftrightarrow>
      u = root \<or> (\<exists>i js. length js < 2 \<and> i < 512 \<and> (\<forall>j \<in> set js. j < 512) \<and> table_of m root (i # js) = Some u)"
  proof
    assume "u \<in> tables m root"
    then obtain ip where ip: "index_path ip" "table_of m root ip = Some u" by (auto simp: tables_def)
    then show "u = root \<or> (\<exists>i js. length js < 2 \<and> i < 512 \<and> (\<forall>j \<in> set js. j < 512) \<and>
        table_of m root (i # js) = Some u)"
    proof (cases ip)
      case Nil
      then show ?thesis using ip by simp
    next
      case (Cons i js)
      then have "length js < 2 \<and> i < 512 \<and> (\<forall>j \<in> set js. j < 512) \<and> table_of m root (i # js) = Some u"
        using ip by (simp add: index_path_def)
      then show ?thesis by blast
    qed
  next
    assume "u = root \<or> (\<exists>i js. length js < 2 \<and> i < 512 \<and> (\<forall>j \<in> set js. j < 512) \<and>
        table_of m root (i # js) = Some u)"
    then show "u \<in> tables m root"
      using root_in_tables tables_I [of "i # js" for i js]
      by (auto simp: index_path_def numeral_2_eq_2 less_Suc_eq_le)
  qed
  then show "u \<in> tables m root \<longleftrightarrow> u \<in> clan m root 2" using sub_path [of u m root 2] by auto
qed

lemma va_of_digits:
  fixes a b c :: u64
  assumes "a < 512" and "b < 512" and "c < 512"
  obtains v where "v < 0x8000000000" and "PX 2 v = a" and "PX 1 v = b" and "PX 0 v = c"
proof -
  let ?n = "unat a * 1073741824 + unat b * 2097152 + unat c * 4096"
  have d: "unat a < 512" "unat b < 512" "unat c < 512" using assms by (simp_all add: word_less_nat_alt)
  have u: "unat (of_nat ?n :: u64) = ?n" using d by (intro unat_of_nat_u64) simp
  have "?n div 1073741824 = unat a" "?n div 2097152 = unat a * 512 + unat b"
    "?n div 4096 = (unat a * 512 + unat b) * 512 + unat c"
    using d by (auto intro!: div_nat_eqI)
  moreover have "unat (PX 2 v) = unat v div 1073741824 mod 512" "unat (PX 1 v) = unat v div 2097152 mod 512"
    "unat (PX 0 v) = unat v div 4096 mod 512" for v by (simp_all add: PX_unat)
  moreover have "(q * 512 + r) mod 512 = r" if "r < 512" for q r :: nat
    using that by (simp only: mod_mult_self3 mod_less)
  ultimately have "unat (PX 2 (of_nat ?n)) = unat a" "unat (PX 1 (of_nat ?n)) = unat b"
    "unat (PX 0 (of_nat ?n)) = unat c"
    using d by (simp_all only: u mod_less)
  moreover have "(of_nat ?n :: u64) < 0x8000000000" unfolding word_less_nat_alt u using d by simp
  ultimately show thesis using that [of "of_nat ?n"] by (simp add: word_unat_eq_iff)
qed

lemma pt_wf_tree:
  assumes tree: "tree_ok A m root"
    and leaf: "\<And>v. v < 0x8000000000 \<Longrightarrow> pt_leaf m root v AND PTE_V \<noteq> 0 \<Longrightarrow>
      pt_leaf m root v AND (PTE_R OR PTE_W OR PTE_X) \<noteq> 0 \<and> pt_leaf m root v AND PTE_U = 0"
  shows "index_path ip \<Longrightarrow> length ip + l = 2 \<Longrightarrow> table_of m root ip = Some t \<Longrightarrow> pt_wf m t l"
proof (induction l arbitrary: ip t)
  case 0
  then obtain a b where ip: "ip = [a, b]" "a < 512" "b < 512"
    by (auto simp: index_path_def length_Suc_conv numeral_2_eq_2)
  show ?case
    unfolding pt_wf.simps
  proof (intro allI impI)
    fix i assume i: "i < 512" "pte_read m t i AND PTE_V \<noteq> 0"
    obtain v where v: "v < 0x8000000000" "PX 2 v = a" "PX 1 v = b" "PX 0 v = i"
      by (rule va_of_digits [OF ip(2,3) i(1)]) blast
    then have "pt_leaf m root v = pte_read m t i" using 0(3) ip(1) by (simp add: pt_leaf_def va_path_def)
    then show "pte_read m t i AND (PTE_R OR PTE_W OR PTE_X) \<noteq> 0 \<and> pte_read m t i AND PTE_U = 0"
      using leaf [OF v(1)] i(2) by simp
  qed
next
  case (Suc l)
  have path: "table_of m root (ip @ i # js) = table_of m (child m t i) js"
    if "pte_read m t i AND PTE_V \<noteq> 0" for i js
    using Suc.prems(3) that by (simp add: table_of_append table_of.simps(2))
  have idx: "index_path (ip @ i # js)" if "i < 512" "length js < Suc l" "\<forall>j \<in> set js. j < 512" for i js
    using that Suc.prems(1,2) by (auto simp: index_path_def)
  have mem: "\<exists>js. index_path (ip @ i # js) \<and> table_of m root (ip @ i # js) = Some u \<and>
      (u \<in> sub m (child m t i) l \<longrightarrow> js \<noteq> [])"
    if i: "i < 512" "pte_read m t i AND PTE_V \<noteq> 0" and u: "u \<in> clan m (child m t i) l" for i u
  proof (cases "u \<in> sub m (child m t i) l")
    case True
    then obtain k ks where "length ks < l" "k < 512" "\<forall>j \<in> set ks. j < 512"
      "table_of m (child m t i) (k # ks) = Some u" unfolding sub_path by blast
    then show ?thesis using idx [of i "k # ks"] path [OF i(2), of "k # ks"] i(1)
      by (intro exI [of _ "k # ks"]) simp
  next
    case False
    then show ?thesis using u idx [of i "[]"] path [OF i(2), of "[]"] i(1) by (intro exI [of _ "[]"]) simp
  qed
  note inj = tree_ok_inj [OF tree]
  show ?case
    unfolding pt_wf.simps
  proof (intro allI impI conjI)
    fix i assume i: "i < 512" "pte_read m t i AND PTE_V \<noteq> 0"
    have ci: "index_path (ip @ [i])" "table_of m root (ip @ [i]) = Some (child m t i)"
      using idx [of i "[]"] path [OF i(2), of "[]"] i(1) by simp_all
    show "pt_wf m (child m t i) l" by (rule Suc.IH [OF ci(1) _ ci(2)]) (use Suc.prems(2) in simp)
    show "t \<notin> clan m (child m t i) l"
    proof
      assume "t \<in> clan m (child m t i) l"
      from mem [OF i this] obtain js where "index_path (ip @ i # js)" "table_of m root (ip @ i # js) = Some t" by blast
      from inj [OF Suc.prems(1) this(1) Suc.prems(3) this(2)] show False by simp
    qed
    show "child m t i \<notin> sub m (child m t i) l"
    proof
      assume s: "child m t i \<in> sub m (child m t i) l"
      from mem [OF i insertI1] s obtain js where "index_path (ip @ i # js)"
        "table_of m root (ip @ i # js) = Some (child m t i)" "js \<noteq> []" by blast
      from inj [OF ci(1) this(1) ci(2) this(2)] this(3) show False by simp
    qed
    fix j assume j: "j < 512" "pte_read m t j AND PTE_V \<noteq> 0" "j \<noteq> i"
    show "clan m (child m t i) l \<inter> clan m (child m t j) l = {}"
    proof (rule ccontr)
      assume "clan m (child m t i) l \<inter> clan m (child m t j) l \<noteq> {}"
      then obtain u where "u \<in> clan m (child m t i) l" "u \<in> clan m (child m t j) l" by blast
      from mem [OF i this(1)] mem [OF j(1,2) this(2)]
      obtain js ks where "index_path (ip @ i # js)" "table_of m root (ip @ i # js) = Some u"
        "index_path (ip @ j # ks)" "table_of m root (ip @ j # ks) = Some u" by blast
      from inj [OF this(1,3) this(2,4)] j(3) show False by simp
    qed
  qed
qed

section \<open>The user pages\<close>

text \<open>The user pages of a tree, and when it can be taken down.\<close>

definition user_vas :: "mem \<Rightarrow> u64 \<Rightarrow> u64 set" where
  "user_vas m root =
     {v. page_aligned v \<and> v < 0x8000000000 \<and> pt_leaf m root v AND PTE_V \<noteq> 0 \<and> pt_leaf m root v AND PTE_U \<noteq> 0}"

definition user_frames :: "mem \<Rightarrow> u64 \<Rightarrow> nat \<Rightarrow> u64 set" where
  "user_frames m root hi = upage m root ` {v \<in> user_vas m root. unat v < hi}"

definition teardown_ok :: "linker_syms \<Rightarrow> u64 \<Rightarrow> u64 \<Rightarrow> kstate \<Rightarrow> bool" where
  "teardown_ok L root end_va s \<longleftrightarrow>
     vm_ok L root s \<and>
     (\<forall>v \<in> user_vas (mem s) root. USER_BASE \<le> v \<and> v \<le> end_va \<and>
        upage (mem s) root v \<in> owned L s - tables (mem s) root) \<and>
     inj_on (upage (mem s) root) (user_vas (mem s) root) \<and>
     (\<forall>v < 0x8000000000. pt_leaf (mem s) root v AND PTE_V \<noteq> 0 \<longrightarrow>
        pt_leaf (mem s) root v AND (PTE_R OR PTE_W OR PTE_X) \<noteq> 0)"

lemma free_leaf_eq:
  "free_leaf root va s =
    (let e = pt_leaf (mem s) root va in
      if e AND PTE_V = 0 \<or> e AND PTE_U = 0 then kret () s
      else kbind (unmap_page root va s) (\<lambda>_ s. kret () (free_page (PTE2PA e) s)))"
  by (simp add: free_leaf_def pt_leaf_def va_path_def table_of.simps(2) Let_def vpn_PX)

lemma free_leaf_spec:
  assumes ok: "vm_ok L root s" and va: "page_aligned va"
    and e: "pt_leaf (mem s) root va AND PTE_V \<noteq> 0" "pt_leaf (mem s) root va AND PTE_U \<noteq> 0"
    and p: "upage (mem s) root va \<in> owned L s - tables (mem s) root"
  shows "\<exists>s'. free_leaf root va s = Inr ((), s') \<and> vm_ok L root s' \<and>
    owned L s' = owned L s - {upage (mem s) root va} \<and> tables (mem s') root = tables (mem s) root \<and>
    (\<forall>v. pt_leaf (mem s') root v = (if same_vpage va v then 0 else pt_leaf (mem s) root v)) \<and>
    same_outside (insert (upage (mem s) root va) (tables (mem s) root)) (mem s) (mem s') \<and>
    proc_view s' = proc_view s"
proof -
  let ?p = "upage (mem s) root va"
  obtain t where t: "unmap_page root va s = Inr ((), t)" using unmap_page_returns [OF va] by blast
  have u: "vm_ok L root t" "vm_step L root s t"
    "\<And>v. pt_leaf (mem t) root v = (if same_vpage va v then 0 else pt_leaf (mem s) root v)"
    using unmap_page_spec [OF ok t] by simp_all
  have ot: "owned L t = owned L s" by (rule unmap_page_owned [OF ok t])
  have tt: "tables (mem t) root = tables (mem s) root"
    "same_outside (tables (mem s) root) (mem s) (mem t)" "proc_view t = proc_view s"
    using u(2) ot by (simp_all add: vm_step_def)
  have pt: "?p \<in> owned L t" using p ot by simp
  note f = free_page_spec [OF vm_okD(1) [OF u(1)] pt]
  have dis: "tables (mem t) root \<inter> {?p} = {}" using p tt(1) by simp
  have tree: "tree_ok (owned L t - {?p}) (mem t) root"
    using tables_subset [OF vm_okD(2) [OF u(1)]] p tt(1) by (intro tree_ok_transfer [OF vm_okD(2) [OF u(1)]]) auto
  have al: "\<forall>t \<in> owned L t - {?p}. page_aligned t" using vm_okD(3) [OF u(1)] by simp
  note to = tree_ok_outside [OF tree f(3) dis al order_refl] and lo = pt_leaf_outside [OF tree f(3) dis al]
  have "same_outside (insert ?p (tables (mem s) root)) (mem s) (mem (free_page ?p t))"
    using same_outside_trans [OF tt(2) f(3)] by (rule same_outside_mono) blast
  moreover have "free_leaf root va s = Inr ((), free_page ?p t)"
    using e t by (simp add: free_leaf_eq Let_def upage_def)
  moreover have "vm_ok L root (free_page ?p t)" using f(1,2) to(1) by (simp add: vm_ok_def)
  ultimately show ?thesis using f(2,4) ot to(2) tt lo u(3) by auto
qed

text \<open>The state when the loop has reached \<open>a\<close>.\<close>

definition unmapped :: "linker_syms \<Rightarrow> u64 \<Rightarrow> kstate \<Rightarrow> u64 \<Rightarrow> kstate \<Rightarrow> bool" where
  "unmapped L root s a t \<longleftrightarrow>
     vm_ok L root t \<and> tables (mem t) root = tables (mem s) root \<and>
     owned L t = owned L s - user_frames (mem s) root (unat a) \<and>
     (\<forall>v < 0x8000000000. pt_leaf (mem t) root v =
        (if page_base v \<in> user_vas (mem s) root \<and> page_base v < a then 0 else pt_leaf (mem s) root v)) \<and>
     same_outside (user_frames (mem s) root (unat a) \<union> tables (mem s) root) (mem s) (mem t) \<and>
     proc_view t = proc_view s"

lemma pt_leaf_page_base: "v < 0x8000000000 \<Longrightarrow> pt_leaf m root (page_base v) = pt_leaf m root v"
proof -
  assume v: "v < 0x8000000000"
  have "unat (page_base v) \<le> unat v" by (simp add: unat_page_base)
  then have "page_base v < 0x8000000000" using v by (simp add: word_less_nat_alt)
  then have "same_vpage (page_base v) v" using v by (simp add: same_vpage_iff)
  then have "va_path (page_base v) = va_path v" "PX 0 (page_base v) = PX 0 v"
    by (simp_all add: same_vpage_def)
  then show ?thesis by (simp only: pt_leaf_def)
qed

lemma aligned_next:
  assumes "page_aligned a" and "page_aligned v"
  shows "unat v < unat a + 4096 \<longleftrightarrow> v = a \<or> unat v < unat a"
proof
  assume v: "unat v < unat a + 4096"
  show "v = a \<or> unat v < unat a"
  proof (rule ccontr)
    assume "\<not> (v = a \<or> unat v < unat a)"
    then have "unat a < unat v" by (metis le_neq_implies_less not_le unat_inj_u64)
    then have "unat a + 4096 \<le> unat v"
      using assms by (intro aligned_step) (simp_all add: page_aligned_unat)
    with v show False by simp
  qed
qed auto

lemma user_frames_next:
  assumes "page_aligned a"
  shows "user_frames m root (unat a + 4096) =
    (if a \<in> user_vas m root then insert (upage m root a) (user_frames m root (unat a)) else user_frames m root (unat a))"
proof -
  note aligned_next [OF assms]
  then have "{v \<in> user_vas m root. unat v < unat a + 4096} =
      {v \<in> user_vas m root. v = a \<or> unat v < unat a}" by (auto simp: user_vas_def)
  then show ?thesis by (auto simp: user_frames_def)
qed

lemma unmapped_step:
  assumes td: "teardown_ok L root end_va s" and a: "page_aligned a" "a < 0x8000000000"
    and u4: "unat (a + 4096) = unat a + 4096" and t: "unmapped L root s a t"
  shows "\<exists>t'. free_leaf root a t = Inr ((), t') \<and> unmapped L root s (a + 4096) t'"
proof -
  let ?m = "mem s"
  have pb: "page_base a = a" using a(1) by simp
  have leaf: "pt_leaf (mem t) root a = pt_leaf ?m root a"
    using t a(2) pb unfolding unmapped_def by auto
  have le: "page_base v < a + 4096 \<longleftrightarrow> page_base v = a \<or> page_base v < a" for v
  proof -
    have "unat (page_base v) < unat a + 4096 \<longleftrightarrow> page_base v = a \<or> unat (page_base v) < unat a"
      by (rule aligned_next [OF a(1)]) simp
    then show ?thesis by (simp add: word_less_nat_alt u4)
  qed
  show ?thesis
  proof (cases "a \<in> user_vas ?m root")
    case False
    then have "free_leaf root a t = kret () t"
      using a leaf by (simp add: free_leaf_eq user_vas_def Let_def)
    moreover have "unmapped L root s (a + 4096) t"
      using t False le unfolding unmapped_def u4 user_frames_next [OF a(1)] by auto
    ultimately show ?thesis by blast
  next
    case True
    let ?p = "upage ?m root a"
    have pu: "upage (mem t) root a = ?p" by (simp add: upage_def leaf)
    have p: "?p \<in> owned L s - tables ?m root" using td True by (simp add: teardown_ok_def)
    have fresh: "?p \<notin> user_frames ?m root (unat a)"
    proof
      assume "?p \<in> user_frames ?m root (unat a)"
      then obtain v where v: "v \<in> user_vas ?m root" "unat v < unat a" "upage ?m root v = ?p"
        by (auto simp: user_frames_def)
      have "v = a" using td True v(1,3) unfolding teardown_ok_def by (blast dest: inj_onD)
      then show False using v(2) by simp
    qed
    have ok: "vm_ok L root t" and tt: "tables (mem t) root = tables ?m root"
      and ot: "owned L t = owned L s - user_frames ?m root (unat a)"
      and out: "same_outside (user_frames ?m root (unat a) \<union> tables ?m root) ?m (mem t)"
      using t by (simp_all add: unmapped_def)
    have e: "pt_leaf (mem t) root a AND PTE_V \<noteq> 0" "pt_leaf (mem t) root a AND PTE_U \<noteq> 0"
      using True leaf by (simp_all add: user_vas_def)
    have pt: "upage (mem t) root a \<in> owned L t - tables (mem t) root" using p pu ot tt fresh by simp
    obtain t' where t': "free_leaf root a t = Inr ((), t')" "vm_ok L root t'"
      "owned L t' = owned L t - {?p}" "tables (mem t') root = tables (mem t) root"
      "\<And>v. pt_leaf (mem t') root v = (if same_vpage a v then 0 else pt_leaf (mem t) root v)"
      "same_outside (insert ?p (tables (mem t) root)) (mem t) (mem t')" "proc_view t' = proc_view t"
      using free_leaf_spec [OF ok a(1) e pt] unfolding pu by blast
    have "same_outside (insert ?p (user_frames ?m root (unat a)) \<union> tables ?m root) ?m (mem t')"
      using same_outside_trans [OF out t'(6)] by (rule same_outside_mono) (use tt in blast)
    moreover have "pt_leaf (mem t') root v =
        (if page_base v \<in> user_vas ?m root \<and> page_base v < a + 4096 then 0 else pt_leaf ?m root v)"
      if v: "v < 0x8000000000" for v
    proof (cases "page_base v = a")
      case True
      then have "same_vpage a v" using same_vpage_iff [OF a(2) v] pb by simp
      then show ?thesis using t'(5) True \<open>a \<in> user_vas ?m root\<close> le [of v] by simp
    next
      case False
      then have "\<not> same_vpage a v" using same_vpage_iff [OF a(2) v] pb by simp
      then show ?thesis using t'(5) t v le [of v] False by (simp add: unmapped_def)
    qed
    ultimately have "unmapped L root s (a + 4096) t'"
      using t' tt ot t True unfolding unmapped_def u4 user_frames_next [OF a(1)] by auto
    then show ?thesis using t'(1) by blast
  qed
qed

text \<open>The whole loop.\<close>

lemma unmap_all:
  assumes td: "teardown_ok L root end_va s" and e: "end_va < 0x7FFFFFF000"
  shows "\<exists>b t. for_pages (\<lambda>va. va \<le> end_va) (free_leaf root) USER_BASE s = Inr ((), t) \<and>
    end_va < b \<and> unmapped L root s b t"
proof -
  have lo: "USER_BASE \<le> v" if "v \<in> user_vas (mem s) root" for v using td that by (simp add: teardown_ok_def)
  have "\<exists>b t. for_pages (\<lambda>va. va \<le> end_va) (free_leaf root) USER_BASE s = Inr ((), t) \<and>
    \<not> b \<le> end_va \<and> (page_aligned b \<and> unmapped L root s b t)"
  proof (rule for_pages_total)
    have none: "user_frames (mem s) root (unat USER_BASE) = {}"
      using lo by (force simp: user_frames_def word_le_nat_alt)
    have "vm_ok L root s" using td by (simp add: teardown_ok_def)
    then show "page_aligned USER_BASE \<and> unmapped L root s USER_BASE s"
      using none lo by (auto simp: unmapped_def page_aligned_def USER_BASE_def dest: leD)
  next
    fix a t assume a: "a \<le> end_va" and I: "page_aligned a \<and> unmapped L root s a t"
    have ua: "unat a < 0x7FFFFFF000" using a e by (simp add: word_le_nat_alt word_less_nat_alt)
    then have u4: "unat (a + 4096) = unat a + 4096" by (subst unat_add_u64) simp_all
    then have n: "a < a + 4096" "page_aligned (a + 4096)"
      using I by (simp_all add: word_less_nat_alt page_aligned_unat)
    have small: "a < 0x8000000000" using ua by (simp add: word_less_nat_alt)
    show "a < a + 4096 \<and> (\<exists>t'. free_leaf root a t = Inr ((), t') \<and>
        (page_aligned (a + 4096) \<and> unmapped L root s (a + 4096) t'))"
      using unmapped_step [OF td _ small u4] I n by blast
  qed
  then show ?thesis by (auto simp: not_le)
qed

lemma user_leaf_base:
  assumes "v < 0x8000000000" and "pt_leaf m root v AND PTE_V \<noteq> 0" and "pt_leaf m root v AND PTE_U \<noteq> 0"
  shows "page_base v \<in> user_vas m root"
proof -
  have "unat (page_base v) \<le> unat v" by (simp add: unat_page_base)
  then have "page_base v < 0x8000000000" using assms(1) by (simp add: word_less_nat_alt)
  then show ?thesis using assms pt_leaf_page_base [OF assms(1)] by (simp add: user_vas_def)
qed

lemma free_tables:
  assumes td: "teardown_ok L root end_va s" and b: "end_va < b" and t: "unmapped L root s b t"
  shows "\<exists>u. free_pagetable PT_FUEL root 2 t = Inr ((), u) \<and> root \<in> owned L u \<and> pool_ok L u \<and>
    owned L u = owned L t - (tables (mem s) root - {root}) \<and>
    same_outside (tables (mem s) root) (mem t) (mem u) \<and> proc_view u = proc_view t"
proof -
  have ok: "vm_ok L root t" and tt: "tables (mem t) root = tables (mem s) root"
    using t by (simp_all add: unmapped_def)
  have leaf: "pt_leaf (mem t) root v AND (PTE_R OR PTE_W OR PTE_X) \<noteq> 0 \<and> pt_leaf (mem t) root v AND PTE_U = 0"
    if v: "v < 0x8000000000" "pt_leaf (mem t) root v AND PTE_V \<noteq> 0" for v
  proof -
    have tv: "pt_leaf (mem t) root v =
        (if page_base v \<in> user_vas (mem s) root \<and> page_base v < b then 0 else pt_leaf (mem s) root v)"
      using t v(1) by (simp add: unmapped_def)
    have no: "\<not> (page_base v \<in> user_vas (mem s) root \<and> page_base v < b)"
    proof
      assume "page_base v \<in> user_vas (mem s) root \<and> page_base v < b"
      then show False using tv v(2) by simp
    qed
    have "page_base w < b" if "page_base w \<in> user_vas (mem s) root" for w
      using td that b unfolding teardown_ok_def by (meson order.strict_trans1)
    then have nu: "page_base v \<notin> user_vas (mem s) root" using no by blast
    have sv: "pt_leaf (mem t) root v = pt_leaf (mem s) root v" using tv no by simp
    have "pt_leaf (mem s) root v AND PTE_U = 0"
      using user_leaf_base [OF v(1), of "mem s" root] v(2) nu sv by auto
    moreover have "pt_leaf (mem s) root v AND (PTE_R OR PTE_W OR PTE_X) \<noteq> 0"
      using td v sv by (simp add: teardown_ok_def)
    ultimately show ?thesis using sv by simp
  qed
  have wf: "pt_wf (mem t) root 2"
    by (rule pt_wf_tree [OF vm_okD(2) [OF ok] leaf, of "[]"]) simp_all
  have clan: "clan (mem t) root 2 \<subseteq> owned L t"
    using tables_subset [OF vm_okD(2) [OF ok]] by (simp only: tables_sub)
  have fuel: "2 < PT_FUEL" by (simp add: PT_FUEL_def)
  obtain u where u: "free_pagetable PT_FUEL root (int 2) t = Inr ((), u)" "torn L root 2 t 512 u"
    using free_pagetable_spec [OF vm_okD(1) [OF ok] clan wf fuel] by blast
  have sb: "sub (mem t) root 2 = tables (mem s) root - {root}"
    using tables_sub [of "mem t" root] pt_wf_root [OF wf] tt by auto
  have ri: "insert root (sub (mem t) root 2) = tables (mem s) root" using tables_sub [of "mem t" root] tt by simp
  have ou: "owned L u = owned L t - (tables (mem s) root - {root})" using u(2) sb by (simp add: torn_def below_simps)
  have "root \<in> owned L u" using ou clan by auto
  moreover have "same_outside (tables (mem s) root) (mem t) (mem u)"
    using u(2) unfolding torn_def below_simps ri by simp
  moreover have "pool_ok L u" and "proc_view u = proc_view t" using u(2) by (simp_all add: torn_def)
  moreover have "free_pagetable PT_FUEL root 2 t = Inr ((), u)" using u(1) by simp
  ultimately show ?thesis using ou by blast
qed

section \<open>Properties\<close>

text \<open>The end of the loop over the user pages.\<close>

definition teardown_end :: "nat \<Rightarrow> kstate \<Rightarrow> u64" where
  "teardown_end i s =
     ((if g_user_stack_top s < p_heap_end (procs s ! i) then p_heap_end (procs s ! i) else g_user_stack_top s)
       + 4096 - 1) AND NOT (4096 - 1)"

text \<open>
  C7: \<open>process_free_userspace\<close> returns for every address space whose user pages are private
  and lie between \<^verbatim>\<open>USER_BASE\<close> and the end of its stack or heap, and it gives back exactly
  the user pages and the page tables, each once: no page leaks, no other page is freed or
  written, and the PCB forgets the table.
\<close>

theorem process_free_userspace_frees:
  assumes "root = p_page_table (procs s ! i)" and "teardown_ok L root (teardown_end i s) s"
    and "teardown_end i s < 0x7FFFFFF000"
  shows "\<exists>s'. process_free_userspace i s = Inr ((), s') \<and> pool_ok L s' \<and>
    owned L s' = owned L s - tables (mem s) root - upage (mem s) root ` user_vas (mem s) root \<and>
    procs s' = (procs s)[i := (procs s ! i)\<lparr>p_page_table := 0\<rparr>] \<and>
    (\<forall>x. page_base x \<in> owned L s' \<longrightarrow> mem s' x = mem s x)"
proof -
  let ?e = "teardown_end i s" and ?T = "tables (mem s) root" and ?U = "upage (mem s) root ` user_vas (mem s) root"
  have ok: "vm_ok L root s" using assms(2) by (simp add: teardown_ok_def)
  have "root \<in> owned L s" using root_in_tables tables_subset [OF vm_okD(2) [OF ok]] by blast
  then have nz: "root \<noteq> 0" using owned_props(2) [OF vm_okD(1) [OF ok]] by blast
  obtain b t where t: "for_pages (\<lambda>va. va \<le> ?e) (free_leaf root) USER_BASE s = Inr ((), t)" "?e < b"
    "unmapped L root s b t" using unmap_all [OF assms(2,3)] by blast
  obtain u where u: "free_pagetable PT_FUEL root 2 t = Inr ((), u)" "root \<in> owned L u" "pool_ok L u"
    "owned L u = owned L t - (?T - {root})" "same_outside ?T (mem t) (mem u)" "proc_view u = proc_view t"
    using free_tables [OF assms(2) t(2,3)] by blast
  note f = free_page_spec [OF u(3,2)]
  let ?s' = "upd_proc i (\<lambda>p. p\<lparr>p_page_table := 0\<rparr>) (free_page root u)"
  have "v < b" if "v \<in> user_vas (mem s) root" for v
    using assms(2) that t(2) unfolding teardown_ok_def by (meson order.strict_trans1)
  then have all: "user_frames (mem s) root (unat b) = ?U" by (auto simp: user_frames_def word_less_nat_alt)
  have "root \<in> ?T" by (rule root_in_tables)
  then have own: "owned L ?s' = owned L s - ?T - ?U"
    using f(2) u(4) t(3) all by (auto simp: unmapped_def)
  have o1: "same_outside (?U \<union> ?T) (mem s) (mem t)" using t(3) all by (simp add: unmapped_def)
  have out: "same_outside (?U \<union> ?T) (mem s) (mem ?s')"
    using same_outside_trans [OF same_outside_trans [OF o1 u(5)] f(3)] \<open>root \<in> ?T\<close>
    by (simp, elim same_outside_mono) blast
  have "proc_view (free_page root u) = proc_view s" using f(4) u(6) t(3) by (simp add: unmapped_def)
  then have "procs (free_page root u) = procs s" by (rule proc_viewD(1))
  moreover have "process_free_userspace i s = Inr ((), ?s')"
    using nz t(1) u(1) assms(1) by (simp add: process_free_userspace_def Let_def teardown_end_def)
  moreover have "mem ?s' x = mem s x" if "page_base x \<in> owned L ?s'" for x
    by (rule same_outside_byte [OF out]) (use that own in blast)
  ultimately show ?thesis using f(1) own by (intro exI [of _ ?s']) simp
qed

text \<open>An abstract address space whose user pages lie in the range can be taken down.\<close>

lemma user_bit: "(PA2PTE p OR fl OR PTE_V) AND PTE_U \<noteq> 0 \<longleftrightarrow> fl AND PTE_U \<noteq> 0"
proof -
  have one: "(w AND PTE_U \<noteq> 0) = bit w 4" for w :: u64
    using and_exp_eq_0_iff_not_bit [of w 4] by simp
  show ?thesis unfolding one by (auto simp: PA2PTE_def bit_simps)
qed

lemma dspace_teardown:
  assumes ds: "dspace L root s0 s R c"
    and fl: "\<And>v f. R v = Some f \<Longrightarrow> f AND (PTE_R OR PTE_W OR PTE_X) \<noteq> 0"
    and user: "\<And>v. user_flags (R v) \<Longrightarrow> USER_BASE \<le> v \<and> v \<le> end_va"
  shows "teardown_ok L root end_va s"
proof -
  let ?m = "mem s"
  have ok: "vm_ok L root s" and sp: "space_is L root s0 s R c" using ds by (simp_all add: dspace_def)
  have m: "mapped_as L root s0 s c (R (page_base v)) v" if "v < 0x8000000000" for v
    using sp that by (simp add: space_is_def)
  have uf: "user_flags (R v)" "upage ?m root v \<in> owned L s - tables ?m root" "v < 0x8000000000" "page_base v = v"
    if v: "v \<in> user_vas ?m root" for v
  proof -
    have v': "page_aligned v" "v < 0x8000000000" "pt_leaf ?m root v AND PTE_V \<noteq> 0"
      "pt_leaf ?m root v AND PTE_U \<noteq> 0" using v by (simp_all add: user_vas_def)
    show "v < 0x8000000000" and pb: "page_base v = v" using v' by simp_all
    have mv: "mapped_as L root s0 s c (R v) v" using m [OF v'(2)] pb by simp
    then obtain f where f: "R v = Some f" using v'(3) by (cases "R v") (auto simp: mapped_as_def)
    then have "f AND PTE_U \<noteq> 0" using mv v'(4) user_bit by (auto simp: mapped_as_def)
    then show "user_flags (R v)" and "upage ?m root v \<in> owned L s - tables ?m root"
      using mv f by (simp_all add: user_flags_def mapped_as_def)
  qed
  have inj: "inj_on (upage ?m root) (user_vas ?m root)"
  proof (rule inj_onI)
    fix v w assume v: "v \<in> user_vas ?m root" "w \<in> user_vas ?m root" "upage ?m root v = upage ?m root w"
    have "page_base v = page_base w"
      using sp uf [OF v(1)] uf [OF v(2)] v(3) unfolding space_is_def by metis
    then show "v = w" using uf(4) v by simp
  qed
  have "pt_leaf ?m root v AND (PTE_R OR PTE_W OR PTE_X) \<noteq> 0"
    if v: "v < 0x8000000000" "pt_leaf ?m root v AND PTE_V \<noteq> 0" for v
  proof -
    obtain f where f: "R (page_base v) = Some f"
      using m [OF v(1)] v(2) by (cases "R (page_base v)") (auto simp: mapped_as_def)
    then have e: "pt_leaf ?m root v = PA2PTE (upage ?m root v) OR (f OR PTE_V)"
      using m [OF v(1)] by (simp add: mapped_as_def or.assoc)
    show ?thesis unfolding e by (rule rwx_set [OF fl [OF f]])
  qed
  then show ?thesis using ok uf user inj by (simp add: teardown_ok_def)
qed

theorem process_free_userspace_frees_witness:
  "\<exists>s s'. process_free_userspace 0 s = Inr ((), s') \<and> p_page_table (procs s' ! 0) = 0 \<and>
     p_page_table (procs s ! 0) \<in> owned kernel_map s \<and> p_page_table (procs s ! 0) \<notin> owned kernel_map s'"
proof (rule one_page_space)
  fix r s t
  let ?L = kernel_map and ?R = "(\<lambda>_. None)(0x1000000 :: u64 \<mapsto> (31 :: u64))"
  assume t: "dspace ?L r s t ?R (\<lambda>v. 0)" "proc_view t = proc_view s" "proc_view s = proc_view (boot_state ?L)"
  define u where "u = t\<lparr>procs := replicate PROCS_MAX (zero_proc\<lparr>p_page_table := r, p_heap_end := 0x1001000\<rparr>)\<rparr>"
  have f: "pool_view u = pool_view t" "mem u = mem t" by (simp_all add: u_def pool_view_def)
  note pf = pool_frame [OF f(1), of ?L]
  have "proc_view t = proc_view (boot_state ?L)" using t(2,3) by simp
  then have "g_user_stack_top t = 0" using proc_viewD(8) by (fastforce simp: boot_state_def)
  then have p: "r = p_page_table (procs u ! 0)" "teardown_end 0 u = 0x1001000" "0 < length (procs u)"
    by (simp_all add: u_def teardown_end_def PROCS_MAX_def zero_proc_def)
  have "teardown_ok ?L r 0x1001000 t"
    by (rule dspace_teardown [OF t(1)]) (auto simp: user_flags_def USER_BASE_def split: if_splits)
  then have td: "teardown_ok ?L r (teardown_end 0 u) u"
    using pf f(2) by (simp add: p(2) teardown_ok_def vm_ok_def)
  have "teardown_end 0 u < 0x7FFFFFF000" by (simp add: p(2))
  from process_free_userspace_frees [OF p(1) td this] obtain s' where
    s': "process_free_userspace 0 u = Inr ((), s')"
    "owned ?L s' = owned ?L u - tables (mem u) r - upage (mem u) r ` user_vas (mem u) r"
    "procs s' = (procs u)[0 := (procs u ! 0)\<lparr>p_page_table := 0\<rparr>]" by blast
  have "r \<in> tables (mem u) r" by (rule root_in_tables)
  moreover have "r \<in> owned ?L u"
    using tables_subset [OF vm_okD(2)] td calculation unfolding teardown_ok_def by blast
  ultimately show ?thesis
    using s' p(1,3) by (intro exI [of _ u] exI [of _ s']) simp
qed

end
