(* ===== verification/Spec2Isabelle.thy ===== *)
theory Spec2Isabelle
  imports Kernel_Runs Mmu User_Calls User_Stdio User_Heap User_Shell Shell_Commands User_Programs User_Servers
    Virtio Log_Path Diagnostics Boot_Main Exec_Args Teardown
begin

text \<open>
  A verification development for Novix, a RISC-V 64 operating system in C: the kernel under
  \<^verbatim>\<open>src/kernel\<close> with its headers under \<^verbatim>\<open>src/include\<close>, the library, the shell and the
  programs under \<^verbatim>\<open>src/user\<close> and the servers under \<^verbatim>\<open>src/servers\<close>, translated function by
  function, and theorems on what its parts do, alone and together.

  \<^bold>\<open>The program.\<close> The kernel runs in S-mode on top of OpenSBI. It has one hart and no kernel
  threads: after the boot it runs only between a trap of a user program and the next
  \<^verbatim>\<open>sret\<close>. \<^verbatim>\<open>kernel_main\<close> sets up the page pool and the kernel page table, loads \<^verbatim>\<open>idle.elf\<close>
  and \<^verbatim>\<open>shell.elf\<close> from a tar archive linked into the kernel, and calls \<^verbatim>\<open>yield\<close>. Every trap
  goes through \<^verbatim>\<open>trap_vector\<close> to \<^verbatim>\<open>trap_handler\<close>, which handles the timer and the system calls
  and panics on everything else. There are eight PCBs. Each process has an Sv39 page table
  in which the kernel is mapped to itself without the U bit.

  \<^bold>\<open>The state.\<close> \<open>kstate\<close> (\<open>Kernel_State\<close>) is one record: physical memory as a function from
  addresses to bytes, the C globals of the kernel under their names, the CSRs, the SBI timer
  and the bytes on the console. Page tables, trap frames, heap blocks, the free list, ELF
  files and archives are in memory, and are read and written at the addresses and widths of
  the C code. PCBs and the allocation table are records in the state; a pointer to a PCB is
  its index. They are kept apart from \<open>mem\<close>, although the machine has them at kernel addresses
  that every page table maps: the kernel stores to unchecked user-supplied addresses, and such a
  store changes \<open>mem\<close> alone. What holds of runs is therefore stated for runs whose traps make no
  stray store to the kernel's own area (\<open>stays_out\<close>, \<open>kernel_own\<close> in \<open>Kernel_Runs\<close>). A function of the kernel maps a state to a result and a state, or to the
  reason why control never comes back (\<open>kres\<close>): a \<^verbatim>\<open>PANIC\<close>, a loop without end, or behaviour
  that C leaves undefined. \<^verbatim>\<open>yield\<close> may leave its caller for good; the type \<open>flow\<close> says so.
  A user program meets the kernel only at its system calls, so it is modelled by the list of
  the calls it makes (\<open>ucall\<close>), given the answers the calls have; the library routines that
  work on memory (\<^verbatim>\<open>malloc\<close>, the command buffers of the shell) act on the same byte memory as
  the kernel's. The devices of the virtio bus are an argument, the answers of their registers.

  \<^bold>\<open>Theories and sources.\<close>
  \<^item> \<open>Kprelude\<close>, \<open>Phys_Mem\<close>, \<open>Kernel_State\<close>: words, results, byte memory with \<^verbatim>\<open>memset\<close> and
    \<^verbatim>\<open>memcpy\<close>, globals, structs, the linker symbols of \<^verbatim>\<open>kernel.ld\<close>.
  \<^item> \<open>C_String\<close> (\<^verbatim>\<open>string.c\<close>), \<open>Format\<close> (\<^verbatim>\<open>common.c\<close>, \<^verbatim>\<open>virtio-emerg.c\<close>), \<open>Console\<close>
    (\<^verbatim>\<open>uart.c\<close>), \<open>Ktime\<close> (\<^verbatim>\<open>time.c\<close>), \<open>Csr\<close> (\<^verbatim>\<open>riscv.c\<close>), \<open>Kheap\<close> (\<^verbatim>\<open>heap.c\<close>).
  \<^item> \<open>Alloc_Tracker\<close>, \<open>Page_Alloc\<close>, \<open>Tracker_Sweep\<close> (\<^verbatim>\<open>alloc-tracker.c\<close>, the pool of
    \<^verbatim>\<open>page.c\<close>): \<open>owned\<close> is the set of pages in use, \<open>avail\<close> the number of pages left.
    The locale \<open>frame_allocator\<close> is the contract the users of the pool rely on; it is
    interpreted by \<^verbatim>\<open>alloc_pages\<close> and \<^verbatim>\<open>free_page\<close>.
  \<^item> \<open>Page_Table\<close>, \<open>Page_Map\<close>, \<open>Vm_Ops\<close>, \<open>User_Space\<close> (the page tables of \<^verbatim>\<open>page.c\<close>):
    \<open>pt_leaf\<close> reads a tree of tables as a map from virtual pages to entries, \<open>vm_ok\<close> is the
    invariant, the locale \<open>address_space\<close> the map laws, interpreted by \<^verbatim>\<open>map_page\<close> and
    \<^verbatim>\<open>unmap_page\<close>. \<open>uspace\<close> and \<open>dspace\<close> describe the address space of a process: the
    permissions of each page and the bytes the process reads, every user page on a
    physical page of its own.
  \<^item> \<open>Prog_Name\<close>, \<open>Process\<close>, \<open>Proc_Create\<close>, \<open>Teardown\<close> (\<^verbatim>\<open>process.c\<close>), \<open>Elf_Loader\<close>
    (\<^verbatim>\<open>elf-loader.c\<close>), \<open>Tar_Fs\<close> (\<^verbatim>\<open>tar-parser.c\<close>): programs, from the archive to a process.
  \<^item> \<open>Scheduler\<close> (\<^verbatim>\<open>scheduler.c\<close>), \<open>Cpu\<close> (the assembly of \<^verbatim>\<open>trap.c\<close>, \<^verbatim>\<open>user.c\<close> and
    \<^verbatim>\<open>context.c\<close> on a register file).
  \<^item> \<open>User_Mem\<close> (the Sv39 translation behind the direct accesses of the kernel to user
    memory, and \<^verbatim>\<open>copy_to_user\<close>), \<open>Sys_Memory\<close>, \<open>Sys_Ipc\<close>, \<open>Sys_Fork\<close>, \<open>Sys_Process\<close>,
    \<open>Sys_Exec\<close>, \<open>Exec_Args\<close>, \<open>Sys_Info\<close> (\<^verbatim>\<open>syscall.c\<close>, \<^verbatim>\<open>arguments.c\<close>, \<^verbatim>\<open>ram.c\<close>,
    \<^verbatim>\<open>timer.c\<close>), \<open>Syscall\<close> (the dispatch).
  \<^item> \<open>Trap\<close> (\<^verbatim>\<open>trap.c\<close>: a trap of a user program up to the next one's first instruction),
    \<open>Boot\<close> (\<^verbatim>\<open>paging_init\<close>, the pieces of \<^verbatim>\<open>kernel.c\<close>) and \<open>Boot_Main\<close> (\<^verbatim>\<open>kernel_main\<close> with what it
    prints, up to the first instruction of the first program).
  \<^item> \<open>Kernel_Frame\<close>, \<open>Kernel_Inv\<close>, \<open>Kernel_Runs\<close>: what each kernel function leaves alone, the
    invariant \<open>kernel_ok\<close> of the process table, and the relation of runs, in which user code
    changes what it can reach and traps are handled, from the boot on.
  \<^item> \<open>Mmu\<close>: the Sv39 translation of the processor on the tables that \<^verbatim>\<open>map_page\<close> writes.
  \<^item> \<open>Virtio\<close> (\<^verbatim>\<open>virtio.c\<close>, \<^verbatim>\<open>virtio-emerg.c\<close>), \<open>Log_Path\<close> (\<^verbatim>\<open>sys_log\<close> with its text,
    \<^verbatim>\<open>log_user\<close>): from the bus scan to the bytes in the emergency register. \<open>Diagnostics\<close>: what
    the kernel logs about itself, with lemmas that this leaves its state alone.
  \<^item> \<open>User_Calls\<close> (\<^verbatim>\<open>lib/syscall.c\<close>: a call from the program's side, through the trap),
    \<open>User_Stdio\<close> (\<^verbatim>\<open>lib/printf.c\<close>), \<open>User_Heap\<close> (\<^verbatim>\<open>lib/malloc.c\<close>, \<^verbatim>\<open>lib/sbrk.c\<close>; the locale
    \<open>brk_service\<close> is the contract of \<^verbatim>\<open>sbrk\<close>, interpreted by the kernel's \<^verbatim>\<open>sys_sbrk\<close>).
  \<^item> \<open>User_Shell\<close> and \<open>Shell_Commands\<close> (\<^verbatim>\<open>shell.c\<close>: the line editor, and the commands with a
    specification on strings), \<open>User_Programs\<close> (\<^verbatim>\<open>hello\<close>, \<^verbatim>\<open>ls\<close>, \<^verbatim>\<open>ps\<close>, \<^verbatim>\<open>echo\<close>, \<^verbatim>\<open>mem\<close>, \<^verbatim>\<open>date\<close> and
    the tests), \<open>User_Servers\<close> (\<^verbatim>\<open>init.c\<close>, \<^verbatim>\<open>window_server.c\<close>, \<^verbatim>\<open>lib/ipc.c\<close>, \<^verbatim>\<open>lib/log.c\<close>).

  \<^bold>\<open>What the theorems show.\<close> The pool hands out fresh cleared pages and never the same page
  twice, and an allocation fails exactly when the pool is used up. The page-table
  operations refine updates of a map, return when the pool has enough pages, and are
  certain to leave everything else alone. On top of that, the constructions of address
  spaces (boot, process creation, exec, fork, sbrk) have the contents and the permissions
  they promise and return within an explicit budget of pages, and the teardown gives back
  every user page and table once. The loader puts each segment in its place, the argument
  vector of a new program is well formed, messages arrive as sent, the archive lookup finds
  the first file of a name, the heap is first fit on blocks that tile it, and the clock
  converts both ways. \<^verbatim>\<open>yield\<close> picks the first ready slot, and starves the slots behind two
  that stay ready. A timer interrupt saves the context of the process it stops and resumes the
  next one with its own registers but for the six that \<^verbatim>\<open>user_return\<close> overwrites. The
  system call for the time is followed from the trap to the instruction after it, and so is
  \<^verbatim>\<open>write\<close>. Every run without stray stores keeps the kernel
  invariant, from the boot on: pids name their slots, only the current process is running, messages fit their boxes,
  nobody is its own parent. After \<^verbatim>\<open>map_page\<close> the processor translates the page as mapped and
  every other page as before. The user \<^verbatim>\<open>printf\<close> prints what the kernel's prints, \<^verbatim>\<open>malloc\<close> is
  first fit on the freed blocks and, over the kernel's \<^verbatim>\<open>sys_sbrk\<close>, live blocks never overlap
  and keep what is written to them; the shell, on fixed buffers, makes exactly the calls that a
  specification on strings says, the child it forks included, and never writes outside the
  buffers; a log line arrives at the device whole.

  \<^bold>\<open>Deviations from what the code means to do\<close> that the theorems state: a yield that switches
  makes the program repeat its system call (\<open>Trap\<close>); \<^verbatim>\<open>user_return\<close> overwrites six registers
  of the program it resumes (\<open>Cpu\<close>); \<^verbatim>\<open>sys_wait\<close> never returns when there is nothing to wait
  for and nobody else to run (\<open>Sys_Process\<close>); an unknown system call and an unexpected trap of
  a program halt the machine (\<open>Trap\<close>); the sweep of the tracker counts each page twice
  (\<open>Tracker_Sweep\<close>); a message of one byte is reported as an error (\<open>Sys_Ipc\<close>) and lost by
  \<^verbatim>\<open>ipc_recv\<close>, which goes on waiting (\<open>User_Servers\<close>); padding is one character short (\<open>Console\<close>),
  so two-column fields of a date have none (\<open>User_Programs\<close>); a program overwrites kernel memory
  by giving a kernel address as the buffer of a receive (\<open>User_Calls\<close>); the shell refuses to start
  a protected program only when the line begins with its name (\<open>Shell_Commands\<close>); \<^verbatim>\<open>init\<close> starts
  both servers again when any process ends (\<open>User_Servers\<close>); the emergency register is that of one
  fixed slot of the bus, wherever the console is (\<open>Virtio\<close>).

  \<^bold>\<open>Bounds and fuel.\<close> Loops over pages are \<open>for_pages\<close>, total by the distance to the end of the
  address space; loops that may not end are \<open>partial_function\<close>s whose value \<open>None\<close> becomes
  \<open>Spin\<close>. \<open>free_pagetable\<close> recurses on a level the code counts down; it gets the fuel
  \<open>PT_FUEL = 4\<close>, one more than the three levels of a tree whose leaves are at level 0, and
  \<open>free_pagetable_spec\<close> (\<open>Teardown\<close>) shows that it returns. The endless loops of the shell and
  the servers are run for a number of rounds (lines typed, processes ended, messages received)
  that their theorems quantify over.

  \<^bold>\<open>Not modelled.\<close> The log lines and debug prints inside kernel functions: \<open>log_user\<close> and
  \<open>Diagnostics\<close> say what they do, the functions that make them are modelled without. The
  banners of \<^verbatim>\<open>PANIC\<close>, \<^verbatim>\<open>bss_init\<close> (its result is \<open>boot_state\<close>), the tests that nothing calls, fences and the
  TLB (a store to a page table is visible at once), \<^verbatim>\<open>boot.c\<close>, and \<^verbatim>\<open>lib/string.c\<close> and
  \<^verbatim>\<open>lib/common.c\<close>, which are the kernel's files again (\<open>C_String\<close>, \<open>Format\<close>). The firmware is the
  console and the timer of the state. Hardware interrupts reach the model as an argument of
  \<open>user_trap\<close>; the kernel itself runs with interrupts off, except where
  \<^verbatim>\<open>free_all_tracked_for_pid\<close> switches them on.
\<close>

end
